(* ===== verification/Prelude.thy ===== *)
theory Prelude
  imports
    Main
    "HOL-Library.Word"
    "HOL-Library.Monad_Syntax"
begin

text \<open>
  Shared vocabulary of the development: machine integers at their width, panics and \<^verbatim>\<open>Result\<close>
  values, the pieces of the Rust standard library that every component uses (slices, ordered
  maps), the bit-flag operations of the \<^verbatim>\<open>bitflags\<close> crate, and the generic lemmas on them.

  The kernel is built with \<^verbatim>\<open>--release\<close> and the default profile, so integer arithmetic wraps
  and only explicit \<^verbatim>\<open>assert!\<close>, \<^verbatim>\<open>unwrap\<close>, \<^verbatim>\<open>unreachable!\<close>, \<^verbatim>\<open>panic!\<close> and out-of-range
  indexing abort it. A computation that may abort has an \<^verbatim>\<open>option\<close> type: \<^term>\<open>None\<close> is the
  kernel panic, and sequencing is the \<^verbatim>\<open>do\<close> notation of the option monad. An error that is
  reported to the caller is \<^term>\<open>Inl\<close> of an error code, a result \<^term>\<open>Inr\<close>.
\<close>

unbundle bit_operations_syntax

section \<open>Machine integers\<close>

type_synonym u8 = "8 word"
type_synonym u16 = "16 word"
type_synonym u32 = "32 word"
type_synonym u64 = "64 word"
type_synonym usize = "64 word"
type_synonym isize = "64 word"
type_synonym i32 = "32 word"

definition checked_add :: "'a::len word \<Rightarrow> 'a word \<Rightarrow> 'a word option" where
  "checked_add a b = (if unat a + unat b < 2 ^ LENGTH('a) then Some (a + b) else None)"

definition checked_sub :: "'a::len word \<Rightarrow> 'a word \<Rightarrow> 'a word option" where
  "checked_sub a b = (if b \<le> a then Some (a - b) else None)"

text \<open>\<^verbatim>\<open>u64::checked_add_signed\<close>: the sum of an unsigned and a signed value, if it is in range.\<close>

definition checked_add_signed :: "'a::len word \<Rightarrow> 'a word \<Rightarrow> 'a word option" where
  "checked_add_signed a b =
     (if 0 \<le> uint a + sint b \<and> uint a + sint b < 2 ^ LENGTH('a) then Some (a + b) else None)"

definition saturating_sub :: "'a::len word \<Rightarrow> 'a word \<Rightarrow> 'a word" where
  "saturating_sub a b = (if b \<le> a then a - b else 0)"

lemma word_le_3_cases: "x \<le> 3 \<Longrightarrow> x = 0 \<or> x = 1 \<or> x = 2 \<or> x = 3" for x :: u32
proof -
  assume "x \<le> 3"
  then have "unat x \<le> 3" by (simp add: word_le_nat_alt)
  then have "unat x = 0 \<or> unat x = 1 \<or> unat x = 2 \<or> unat x = 3" by linarith
  moreover have "x = word_of_nat (unat x)" by simp
  ultimately show ?thesis by (elim disjE) simp_all
qed

lemma checked_add_eq_Some:
  "checked_add a b = Some c \<Longrightarrow> unat c = unat a + unat b"
  by (auto simp: checked_add_def unat_word_ariths split: if_splits)

lemma checked_sub_eq_Some: "checked_sub a b = Some c \<Longrightarrow> unat c + unat b = unat a"
  by (auto simp: checked_sub_def unat_sub word_le_nat_alt split: if_splits)

section \<open>Panics and results\<close>

type_synonym error = i32
type_synonym 'a Result = "error + 'a"

definition rust_assert :: "bool \<Rightarrow> unit option" where
  "rust_assert b = (if b then Some () else None)"

definition unwrap_result :: "'e + 'a \<Rightarrow> 'a option" where
  "unwrap_result r = (case r of Inl _ \<Rightarrow> None | Inr x \<Rightarrow> Some x)"

definition ok_or :: "'a option \<Rightarrow> error \<Rightarrow> 'a Result" where
  "ok_or x e = (case x of None \<Rightarrow> Inl e | Some a \<Rightarrow> Inr a)"

definition try_bind :: "'e + 'a \<Rightarrow> ('a \<Rightarrow> 'e + 'b) \<Rightarrow> 'e + 'b" where
  "try_bind r f = (case r of Inl e \<Rightarrow> Inl e | Inr x \<Rightarrow> f x)"

lemma rust_assert_eq_Some [simp]: "rust_assert b = Some u \<longleftrightarrow> b"
  by (simp add: rust_assert_def)

lemma rust_assert_True [simp]: "rust_assert True = Some ()"
  by (simp add: rust_assert_def)

lemma rust_assert_False [simp]: "rust_assert False = None"
  by (simp add: rust_assert_def)

lemma unwrap_result_simps [simp]:
  "unwrap_result (Inl e) = None" "unwrap_result (Inr x) = Some x"
  by (simp_all add: unwrap_result_def)

lemma unwrap_result_eq_Some [simp]: "unwrap_result r = Some x \<longleftrightarrow> r = Inr x"
  by (cases r) simp_all

lemma ok_or_simps [simp]: "ok_or None e = Inl e" "ok_or (Some a) e = Inr a"
  by (simp_all add: ok_or_def)

lemma try_bind_simps [simp]: "try_bind (Inl e) f = Inl e" "try_bind (Inr x) f = f x"
  by (simp_all add: try_bind_def)

lemma try_bind_eq_Inr: "try_bind r f = Inr y \<longleftrightarrow> (\<exists>x. r = Inr x \<and> f x = Inr y)"
  by (cases r) simp_all

section \<open>Slices and vectors\<close>

text \<open>\<^verbatim>\<open>xs.get(i)\<close>; the indexing \<^verbatim>\<open>xs[i]\<close> is the same look-up with \<^term>\<open>None\<close> read as the panic.\<close>

definition slice_get :: "'a list \<Rightarrow> nat \<Rightarrow> 'a option" where
  "slice_get xs i = (if i < length xs then Some (xs ! i) else None)"

text \<open>\<^verbatim>\<open>xs[i] = v\<close>.\<close>

definition slice_set :: "'a list \<Rightarrow> nat \<Rightarrow> 'a \<Rightarrow> 'a list option" where
  "slice_set xs i v = (if i < length xs then Some (xs[i := v]) else None)"

text \<open>\<^verbatim>\<open>dst[off..off + src.len()].copy_from_slice(src)\<close> on a list long enough.\<close>

definition overwrite :: "'a list \<Rightarrow> nat \<Rightarrow> 'a list \<Rightarrow> 'a list" where
  "overwrite dst off src = take off dst @ src @ drop (off + length src) dst"

lemma slice_get_eq_Some: "slice_get xs i = Some x \<longleftrightarrow> i < length xs \<and> xs ! i = x"
  by (auto simp: slice_get_def)

lemma slice_get_eq_None: "slice_get xs i = None \<longleftrightarrow> length xs \<le> i"
  by (auto simp: slice_get_def)

lemma slice_get_update [simp]:
  "slice_get (xs[i := v]) j = (if i = j \<and> j < length xs then Some v else slice_get xs j)"
  by (simp add: slice_get_def)

lemma length_overwrite [simp]: "off + length src \<le> length dst \<Longrightarrow> length (overwrite dst off src) = length dst"
  by (simp add: overwrite_def)

lemma nth_overwrite:
  assumes "off + length src \<le> length dst" "i < length dst"
  shows "overwrite dst off src ! i
    = (if off \<le> i \<and> i < off + length src then src ! (i - off) else dst ! i)"
proof -
  consider "i < off" | "off \<le> i" "i < off + length src" | "off + length src \<le> i"
    by linarith
  then show ?thesis
  proof cases
    case 2
    then have "i - off < length src" by linarith
    with 2 assms show ?thesis by (simp add: overwrite_def nth_append)
  next
    case 3
    then have "\<not> i - off < length src" by linarith
    with 3 assms show ?thesis by (simp add: overwrite_def nth_append)
  qed (use assms in \<open>simp add: overwrite_def nth_append\<close>)
qed

lemma take_drop_overwrite [simp]:
  "off + length src \<le> length dst \<Longrightarrow> take (length src) (drop off (overwrite dst off src)) = src"
  by (simp add: overwrite_def)

lemma upt_split: "i \<le> j \<Longrightarrow> j \<le> k \<Longrightarrow> [i..<k] = [i..<j] @ [j..<k]"
  using upt_add_eq_append [of i j "k - j"] by simp

section \<open>Ordered maps\<close>

text \<open>
  \<^verbatim>\<open>BTreeMap\<close>: an association list whose keys increase strictly. Iteration order is list order.
\<close>

fun btree_insert :: "'k::linorder \<Rightarrow> 'v \<Rightarrow> ('k \<times> 'v) list \<Rightarrow> ('k \<times> 'v) list" where
  "btree_insert k v [] = [(k, v)]"
| "btree_insert k v ((k', v') # xs) =
     (if k < k' then (k, v) # (k', v') # xs
      else if k = k' then (k, v) # xs
      else (k', v') # btree_insert k v xs)"

definition btree_remove :: "'k \<Rightarrow> ('k \<times> 'v) list \<Rightarrow> ('k \<times> 'v) list" where
  "btree_remove k xs = filter (\<lambda>p. fst p \<noteq> k) xs"

definition btree_wf :: "('k::linorder \<times> 'v) list \<Rightarrow> bool" where
  "btree_wf xs \<longleftrightarrow> sorted_wrt (<) (map fst xs)"

lemma map_of_btree_insert [simp]:
  "btree_wf xs \<Longrightarrow> map_of (btree_insert k v xs) = (map_of xs)(k \<mapsto> v)"
  by (induction k v xs rule: btree_insert.induct)
    (auto simp: btree_wf_def fun_eq_iff)

lemma set_fst_btree_insert [simp]: "fst ` set (btree_insert k v xs) = insert k (fst ` set xs)"
  by (induction k v xs rule: btree_insert.induct) auto

lemma btree_wf_insert [simp]: "btree_wf xs \<Longrightarrow> btree_wf (btree_insert k v xs)"
proof (induction k v xs rule: btree_insert.induct)
  case (2 k v k' v' xs)
  then show ?case
    using set_fst_btree_insert [of k v xs] by (auto simp: btree_wf_def)
qed (simp add: btree_wf_def)

lemma map_of_btree_remove [simp]: "map_of (btree_remove k xs) = (map_of xs)(k := None)"
  by (induction xs) (auto simp: btree_remove_def fun_eq_iff)

lemma btree_wf_remove [simp]: "btree_wf xs \<Longrightarrow> btree_wf (btree_remove k xs)"
  unfolding btree_wf_def btree_remove_def
  by (induction xs) auto

lemma btree_wf_Nil [simp]: "btree_wf []"
  by (simp add: btree_wf_def)

lemma btree_wf_distinct: "btree_wf xs \<Longrightarrow> distinct (map fst xs)"
  by (simp add: btree_wf_def strict_sorted_iff)

lemma btree_get_mem:
  "btree_wf xs \<Longrightarrow> map_of xs k = Some v \<longleftrightarrow> (k, v) \<in> set xs"
  by (simp add: btree_wf_distinct map_of_eq_Some_iff)

section \<open>Bit flags\<close>

text \<open>
  The operations of the \<^verbatim>\<open>bitflags\<close> crate on the underlying integer. \<^term>\<open>full\<close> is the union of
  the declared flags.
\<close>

definition flags_from_bits :: "'a::len word \<Rightarrow> 'a word \<Rightarrow> 'a word option" where
  "flags_from_bits full bits = (if bits AND NOT full = 0 then Some bits else None)"

definition flags_from_bits_truncate :: "'a::len word \<Rightarrow> 'a word \<Rightarrow> 'a word" where
  "flags_from_bits_truncate full bits = bits AND full"

definition flags_contains :: "'a::len word \<Rightarrow> 'a word \<Rightarrow> bool" where
  "flags_contains s other \<longleftrightarrow> s AND other = other"

definition flags_intersects :: "'a::len word \<Rightarrow> 'a word \<Rightarrow> bool" where
  "flags_intersects s other \<longleftrightarrow> s AND other \<noteq> 0"

definition flags_insert :: "'a::len word \<Rightarrow> 'a word \<Rightarrow> 'a word" where
  "flags_insert s other = s OR other"

definition flags_remove :: "'a::len word \<Rightarrow> 'a word \<Rightarrow> 'a word" where
  "flags_remove s other = s AND NOT other"

definition flags_set :: "'a::len word \<Rightarrow> 'a word \<Rightarrow> bool \<Rightarrow> 'a word" where
  "flags_set s other value = (if value then flags_insert s other else flags_remove s other)"

lemma flags_contains_bit:
  "flags_contains s other \<longleftrightarrow> (\<forall>n < LENGTH('a). bit other n \<longrightarrow> bit s n)"
  for s other :: "'a::len word"
  by (auto simp: flags_contains_def bit_eq_iff bit_simps)

lemma flags_contains_insert [simp]: "flags_contains (flags_insert s other) other"
  by (simp add: flags_contains_bit flags_insert_def bit_simps)

lemma flags_contains_remove [simp]: "flags_contains (flags_remove s other) other \<longleftrightarrow> other = 0"
  by (auto simp: flags_contains_def flags_remove_def bit_eq_iff bit_simps)

lemma flags_contains_insert_iff:
  "flags_contains (flags_insert s a) b \<longleftrightarrow> flags_contains s (b AND NOT a)"
  by (auto simp: flags_contains_bit flags_insert_def bit_simps)

section \<open>Ordered sets\<close>

text \<open>\<^verbatim>\<open>BTreeSet\<close>: a strictly increasing list. \<^verbatim>\<open>remove\<close> also tells whether the element was there.\<close>

definition bset_insert :: "'a::linorder \<Rightarrow> 'a list \<Rightarrow> 'a list" where
  "bset_insert x xs = (if x \<in> set xs then xs else insort x xs)"

definition bset_remove :: "'a \<Rightarrow> 'a list \<Rightarrow> bool \<times> 'a list" where
  "bset_remove x xs = (x \<in> set xs, remove1 x xs)"

definition bset_wf :: "'a::linorder list \<Rightarrow> bool" where
  "bset_wf xs \<longleftrightarrow> sorted xs \<and> distinct xs"

lemma set_bset_insert [simp]: "set (bset_insert x xs) = insert x (set xs)"
  by (auto simp: bset_insert_def set_insort_key)

lemma bset_wf_insert [simp]: "bset_wf xs \<Longrightarrow> bset_wf (bset_insert x xs)"
  by (auto simp: bset_wf_def bset_insert_def sorted_insort distinct_insort)

lemma set_bset_remove [simp]: "bset_wf xs \<Longrightarrow> set (snd (bset_remove x xs)) = set xs - {x}"
  by (simp add: bset_remove_def bset_wf_def)

lemma bset_wf_remove [simp]: "bset_wf xs \<Longrightarrow> bset_wf (snd (bset_remove x xs))"
  by (simp add: bset_remove_def bset_wf_def sorted_remove1)

lemma fst_bset_remove [simp]: "fst (bset_remove x xs) \<longleftrightarrow> x \<in> set xs"
  by (simp add: bset_remove_def)

lemma bset_wf_Nil [simp]: "bset_wf []"
  by (simp add: bset_wf_def)

section \<open>Powers of two\<close>

text \<open>\<^verbatim>\<open>leading_zeros\<close>, \<^verbatim>\<open>trailing_zeros\<close>, \<^verbatim>\<open>ilog2\<close> and \<^verbatim>\<open>next_power_of_two\<close> of the integer types.\<close>

fun bit_length :: "nat \<Rightarrow> nat" where
  "bit_length n = (if n = 0 then 0 else Suc (bit_length (n div 2)))"

declare bit_length.simps [simp del]

fun ctz :: "nat \<Rightarrow> nat" where
  "ctz n = (if n = 0 \<or> odd n then 0 else Suc (ctz (n div 2)))"

declare ctz.simps [simp del]

definition leading_zeros :: "'a::len word \<Rightarrow> nat" where
  "leading_zeros w = LENGTH('a) - bit_length (unat w)"

definition trailing_zeros :: "'a::len word \<Rightarrow> nat" where
  "trailing_zeros w = (if w = 0 then LENGTH('a) else ctz (unat w))"

definition ilog2 :: "'a::len word \<Rightarrow> nat" where
  "ilog2 w = bit_length (unat w) - 1"

definition next_power_of_two :: "'a::len word \<Rightarrow> 'a word" where
  "next_power_of_two w = (if w \<le> 1 then 0 else drop_bit (leading_zeros (w - 1)) (- 1)) + 1"

lemma bit_length_less: "n < 2 ^ bit_length n"
proof (induction n rule: bit_length.induct)
  case (1 n)
  show ?case
  proof (cases "n = 0")
    case False
    with 1 have "n div 2 < 2 ^ bit_length (n div 2)" by simp
    then have "n < 2 ^ Suc (bit_length (n div 2))" by simp
    with False show ?thesis by (subst bit_length.simps) simp
  qed simp
qed

lemma bit_length_le: "0 < n \<Longrightarrow> 2 ^ (bit_length n - 1) \<le> n"
proof (induction n rule: bit_length.induct)
  case (1 n)
  show ?case
  proof (cases "n div 2 = 0")
    case True
    with 1 show ?thesis by (simp add: bit_length.simps [of n] bit_length.simps [of 0])
  next
    case False
    with 1 have "2 ^ (bit_length (n div 2) - 1) \<le> n div 2" by simp
    moreover have "0 < bit_length (n div 2)" using False by (subst bit_length.simps) simp
    then have "(2::nat) ^ bit_length (n div 2) = 2 * 2 ^ (bit_length (n div 2) - 1)"
      by (metis Suc_diff_1 power_Suc)
    ultimately have "2 ^ bit_length (n div 2) \<le> n" by linarith
    with "1.prems" show ?thesis by (subst bit_length.simps) simp
  qed
qed

lemma bit_length_pos: "0 < n \<Longrightarrow> 0 < bit_length n"
  by (subst bit_length.simps) simp

lemma bit_length_bound: "n < 2 ^ k \<Longrightarrow> bit_length n \<le> k"
proof (cases "n = 0")
  case False
  assume "n < 2 ^ k"
  with False bit_length_le [of n] have "(2::nat) ^ (bit_length n - 1) < 2 ^ k" by linarith
  then show ?thesis by simp
qed (simp add: bit_length.simps)

lemma ctz_power [simp]: "ctz (2 ^ k) = k"
  by (induction k) (simp_all add: ctz.simps [of "2 ^ 0"] ctz.simps [of "2 * 2 ^ _"] ctz.simps [of "Suc 0"])

lemma unat_power_word [simp]: "k < LENGTH('a) \<Longrightarrow> unat (2 ^ k :: 'a::len word) = 2 ^ k"
proof -
  assume "k < LENGTH('a)"
  then have "unat (word_of_nat (2 ^ k) :: 'a word) = 2 ^ k"
    unfolding unsigned_of_nat by (simp add: take_bit_nat_eq_self)
  then show ?thesis by simp
qed

lemma trailing_zeros_power [simp]: "k < LENGTH('a) \<Longrightarrow> trailing_zeros (2 ^ k :: 'a::len word) = k"
  using unat_power_word [where 'a = 'a, of k] by (auto simp: trailing_zeros_def)

text \<open>The smallest power of two that is at least a given positive number.\<close>

lemma next_power_of_two_spec:
  fixes w :: "'a::len word"
  assumes "w \<noteq> 0" "unat w \<le> 2 ^ (LENGTH('a) - 1)"
  obtains k where "k < LENGTH('a)" "next_power_of_two w = 2 ^ k" "unat w \<le> 2 ^ k"
    and "\<And>j. unat w \<le> 2 ^ j \<Longrightarrow> k \<le> j"
proof (cases "w \<le> 1")
  case True
  then have "unat w \<le> unat (1 :: 'a word)" by (simp add: word_le_nat_alt)
  then have "unat w \<le> 2 ^ 0" by simp
  with True that [of 0] show ?thesis by (simp add: next_power_of_two_def)
next
  case False
  then have w: "1 < unat w" by (simp add: word_le_nat_alt not_le)
  let ?p = "unat w - 1"
  let ?b = "bit_length ?p"
  have p: "unat (w - 1) = ?p" using w by (simp add: unat_sub word_le_nat_alt)
  have "?p < 2 ^ (LENGTH('a) - 1)" using assms(2) w by linarith
  then have b: "?b \<le> LENGTH('a) - 1" by (rule bit_length_bound)
  then have bl: "?b < LENGTH('a)" by (simp add: le_less_trans diff_less)
  have "drop_bit (leading_zeros (w - 1)) (- 1) = (mask ?b :: 'a word)"
    using bl by (auto simp: leading_zeros_def p bit_eq_iff bit_simps)
  then have "next_power_of_two w = 2 ^ ?b"
    using False by (simp add: next_power_of_two_def mask_eq_exp_minus_1)
  moreover have "unat w \<le> 2 ^ ?b" using bit_length_less [of ?p] w by linarith
  moreover have "?b \<le> j" if "unat w \<le> 2 ^ j" for j
    using that w by (intro bit_length_bound) linarith
  ultimately show ?thesis using that [of ?b] bl by blast
qed

end
