(* ===== verification/Utils.thy ===== *)
theory Utils
  imports Prelude
begin

text \<open>
  The \<^verbatim>\<open>utils\<close> crate (\<^verbatim>\<open>kernel/crates/utils/src\<close>): configuration constants, error codes, the
  conversion of clock ticks, and the \<^verbatim>\<open>uname\<close> structure. The tick counter of the processor
  (\<^verbatim>\<open>riscv::register::time::read\<close>) is an argument of the functions that read it.
\<close>

section \<open>Configuration constants\<close>

named_theorems config_simps

definition PTR_SIZE :: usize where "PTR_SIZE = 8"
definition KB :: usize where "KB = 1024"
definition MB :: usize where "MB = 1024 * KB"
definition MEMORY_END :: usize where "MEMORY_END = 0x88000000"
definition MEMORY_SIZE :: usize where "MEMORY_SIZE = 0x8000000"
definition PA_TO_VA :: usize where "PA_TO_VA = 0xFFFFFFFF00000000"
definition PAGE_SIZE_BITS :: nat where "PAGE_SIZE_BITS = 12"
definition PAGE_SIZE :: usize where "PAGE_SIZE = push_bit PAGE_SIZE_BITS 1"
definition KERNEL_STACK_SIZE :: usize where "KERNEL_STACK_SIZE = 16 * PAGE_SIZE"
definition KERNEL_HEAP_SIZE :: usize where "KERNEL_HEAP_SIZE = 32 * MB"
definition PTE_PER_PAGE :: usize where "PTE_PER_PAGE = PAGE_SIZE div PTR_SIZE"
definition USER_STACK_SIZE :: usize where "USER_STACK_SIZE = 8 * KB"
definition MMAP_START :: usize where "MMAP_START = 0x2000000000"
definition LOW_END :: usize where "LOW_END = 0x4000000000"
definition CLOCK_FREQ :: usize where "CLOCK_FREQ = 12500000"
definition MMIO :: "(usize \<times> usize) list" where "MMIO = [(0x10001000, 0x1000)]"
definition SIGSET_SIZE :: usize where "SIGSET_SIZE = 64"
definition SIGSET_SIZE_BYTES :: usize where "SIGSET_SIZE_BYTES = SIGSET_SIZE div 8"

lemma PAGE_SIZE_BITS_eq [config_simps]: "PAGE_SIZE_BITS = 12"
  by (simp add: PAGE_SIZE_BITS_def)

lemma PAGE_SIZE_eq [config_simps]: "PAGE_SIZE = 4096"
  by (simp add: PAGE_SIZE_def PAGE_SIZE_BITS_def push_bit_eq_mult)

lemma PTE_PER_PAGE_eq [config_simps]: "PTE_PER_PAGE = 512"
  by (simp add: PTE_PER_PAGE_def PAGE_SIZE_eq PTR_SIZE_def)

lemma KERNEL_STACK_SIZE_eq [config_simps]: "KERNEL_STACK_SIZE = 0x10000"
  by (simp add: KERNEL_STACK_SIZE_def PAGE_SIZE_eq)

lemma USER_STACK_SIZE_eq [config_simps]: "USER_STACK_SIZE = 8192"
  by (simp add: USER_STACK_SIZE_def KB_def)

lemma SIGSET_SIZE_BYTES_eq [config_simps]: "SIGSET_SIZE_BYTES = 8"
  by (simp add: SIGSET_SIZE_BYTES_def SIGSET_SIZE_def)

lemmas config_consts [config_simps] =
  PTR_SIZE_def MEMORY_END_def MEMORY_SIZE_def PA_TO_VA_def MMAP_START_def LOW_END_def
  CLOCK_FREQ_def MMIO_def SIGSET_SIZE_def

section \<open>Error codes\<close>

definition UNSUPPORTED :: error where "UNSUPPORTED = -1"
definition TEMP :: error where "TEMP = -1"
definition EPERM :: error where "EPERM = -1"
definition ENOENT :: error where "ENOENT = -2"
definition ESRCH :: error where "ESRCH = -3"
definition EINTR :: error where "EINTR = -4"
definition EIO :: error where "EIO = -5"
definition ENXIO :: error where "ENXIO = -6"
definition ENOEXEC :: error where "ENOEXEC = -8"
definition EBADF :: error where "EBADF = -9"
definition ECHILD :: error where "ECHILD = -10"
definition EAGAIN :: error where "EAGAIN = -11"
definition ENOMEM :: error where "ENOMEM = -12"
definition EFAULT :: error where "EFAULT = -14"
definition EBUSY :: error where "EBUSY = -16"
definition EEXIST :: error where "EEXIST = -17"
definition ENOTDIR :: error where "ENOTDIR = -20"
definition EISDIR :: error where "EISDIR = -21"
definition EINVAL :: error where "EINVAL = -22"
definition EMFILE :: error where "EMFILE = -24"
definition ESPIPE :: error where "ESPIPE = -29"
definition ERANGE :: error where "ERANGE = -34"

lemmas error_codes =
  UNSUPPORTED_def TEMP_def EPERM_def ENOENT_def ESRCH_def EINTR_def EIO_def ENXIO_def
  ENOEXEC_def EBADF_def ECHILD_def EAGAIN_def ENOMEM_def EFAULT_def EBUSY_def EEXIST_def
  ENOTDIR_def EISDIR_def EINVAL_def EMFILE_def ESPIPE_def ERANGE_def

definition as_isize :: "error \<Rightarrow> isize" where
  "as_isize e = scast e"

section \<open>Time\<close>

definition TICKS_PER_SEC :: usize where "TICKS_PER_SEC = 20"
definition MILLI_PER_SEC :: usize where "MILLI_PER_SEC = 1000"
definition MICRO_PER_SEC :: usize where "MICRO_PER_SEC = 1000000"
definition NANO_PER_SEC :: usize where "NANO_PER_SEC = 1000000000"

record TimeSpec =
  ts_sec :: usize
  ts_nsec :: usize

record TimeVal =
  tv_sec :: usize
  tv_usec :: usize

definition get_time :: "usize \<Rightarrow> usize" where
  "get_time ticks = ticks"

definition get_time_us :: "usize \<Rightarrow> usize" where
  "get_time_us ticks = ticks * MICRO_PER_SEC div CLOCK_FREQ"

definition get_time_ms :: "usize \<Rightarrow> usize" where
  "get_time_ms ticks = ticks * MILLI_PER_SEC div CLOCK_FREQ"

definition get_time_ns :: "usize \<Rightarrow> usize" where
  "get_time_ns ticks = ticks * NANO_PER_SEC div CLOCK_FREQ"

text \<open>The value handed to the SBI timer by \<^verbatim>\<open>set_next_trigger\<close>.\<close>

definition set_next_trigger :: "usize \<Rightarrow> usize" where
  "set_next_trigger ticks = get_time ticks + CLOCK_FREQ div TICKS_PER_SEC"

lemmas time_defs =
  get_time_us_def get_time_ms_def get_time_ns_def MICRO_PER_SEC_def MILLI_PER_SEC_def
  NANO_PER_SEC_def CLOCK_FREQ_def

section \<open>The uname structure\<close>

record UtsName =
  sysname :: "u8 list"
  nodename :: "u8 list"
  release :: "u8 list"
  version :: "u8 list"
  machine :: "u8 list"
  domainname :: "u8 list"

text \<open>A Rust string is its UTF-8 bytes; the literals below are ASCII.\<close>

definition bytes_of :: "string \<Rightarrow> u8 list" where
  "bytes_of s = map (\<lambda>c. of_nat (of_char c)) s"

definition str_to_bytes :: "string \<Rightarrow> u8 list option" where
  "str_to_bytes info =
     (if length info \<le> 65 then Some (overwrite (replicate 65 0) 0 (bytes_of info)) else None)"

definition UtsName_default :: "UtsName option" where
  "UtsName_default = do {
     s \<leftarrow> str_to_bytes ''Neuclear'';
     n \<leftarrow> str_to_bytes ''Neuclear - machine[0]'';
     r \<leftarrow> str_to_bytes ''null'';
     v \<leftarrow> str_to_bytes ''0.1'';
     m \<leftarrow> str_to_bytes ''qemu'';
     d \<leftarrow> str_to_bytes ''https://gitlab.eduxiji.net/202310145101206/oskernel2023-neuclear'';
     Some \<lparr>sysname = s, nodename = n, release = r, version = v, machine = m, domainname = d\<rparr>
   }"

lemma length_bytes_of [simp]: "length (bytes_of s) = length s"
  by (simp add: bytes_of_def)

lemma str_to_bytes_Some:
  "str_to_bytes s = Some bs \<Longrightarrow> length bs = 65 \<and> take (length s) bs = bytes_of s"
  by (auto simp: str_to_bytes_def overwrite_def split: if_splits)

end
