(* ===== verification/Address.thy ===== *)
theory Address
  imports Utils
begin

text \<open>
  Physical and virtual addresses and page numbers of the \<^verbatim>\<open>memory\<close> crate
  (\<^verbatim>\<open>memory/src/address.rs\<close>, and the kernel's linear map in \<^verbatim>\<open>memory/src/lib.rs\<close>).
\<close>

section \<open>Types\<close>

datatype PhysAddr = PhysAddr (pa_val: usize)
datatype PhysPageNum = PhysPageNum (ppn_val: usize)
datatype VirtAddr = VirtAddr (va_val: usize)
datatype VirtPageNum = VirtPageNum (vpn_val: usize)

text \<open>Page numbers are ordered by their value (\<^verbatim>\<open>derive(PartialOrd, Ord)\<close>).\<close>

instantiation PhysPageNum :: linorder
begin

definition less_eq_PhysPageNum :: "PhysPageNum \<Rightarrow> PhysPageNum \<Rightarrow> bool" where
  "less_eq_PhysPageNum a b \<longleftrightarrow> ppn_val a \<le> ppn_val b"

definition less_PhysPageNum :: "PhysPageNum \<Rightarrow> PhysPageNum \<Rightarrow> bool" where
  "less_PhysPageNum a b \<longleftrightarrow> ppn_val a < ppn_val b"

instance
  by standard
    (auto simp: less_eq_PhysPageNum_def less_PhysPageNum_def PhysPageNum.expand)

end

instantiation VirtPageNum :: linorder
begin

definition less_eq_VirtPageNum :: "VirtPageNum \<Rightarrow> VirtPageNum \<Rightarrow> bool" where
  "less_eq_VirtPageNum a b \<longleftrightarrow> vpn_val a \<le> vpn_val b"

definition less_VirtPageNum :: "VirtPageNum \<Rightarrow> VirtPageNum \<Rightarrow> bool" where
  "less_VirtPageNum a b \<longleftrightarrow> vpn_val a < vpn_val b"

instance
  by standard
    (auto simp: less_eq_VirtPageNum_def less_VirtPageNum_def VirtPageNum.expand)

end

section \<open>Operations\<close>

fun PhysAddr_floor :: "PhysAddr \<Rightarrow> PhysPageNum" where
  "PhysAddr_floor (PhysAddr a) = PhysPageNum (a div PAGE_SIZE)"

fun PhysAddr_ceil :: "PhysAddr \<Rightarrow> PhysPageNum" where
  "PhysAddr_ceil (PhysAddr a) = PhysPageNum ((a + PAGE_SIZE - 1) div PAGE_SIZE)"

definition PhysAddr_ppn :: "PhysAddr \<Rightarrow> PhysPageNum" where
  "PhysAddr_ppn a = PhysAddr_floor a"

fun PhysAddr_add :: "PhysAddr \<Rightarrow> usize \<Rightarrow> PhysAddr" where
  "PhysAddr_add (PhysAddr a) rhs = PhysAddr (a + rhs)"

fun PhysPageNum_page_start :: "PhysPageNum \<Rightarrow> PhysAddr" where
  "PhysPageNum_page_start (PhysPageNum n) = PhysAddr (push_bit PAGE_SIZE_BITS n)"

fun PhysPageNum_add :: "PhysPageNum \<Rightarrow> usize \<Rightarrow> PhysPageNum" where
  "PhysPageNum_add (PhysPageNum n) rhs = PhysPageNum (n + rhs)"

fun PhysPageNum_steps_between :: "PhysPageNum \<Rightarrow> PhysPageNum \<Rightarrow> usize option" where
  "PhysPageNum_steps_between (PhysPageNum s) (PhysPageNum e) = checked_sub e s"

fun PhysPageNum_forward_checked :: "PhysPageNum \<Rightarrow> usize \<Rightarrow> PhysPageNum option" where
  "PhysPageNum_forward_checked (PhysPageNum s) count = map_option PhysPageNum (checked_add s count)"

fun PhysPageNum_backward_checked :: "PhysPageNum \<Rightarrow> usize \<Rightarrow> PhysPageNum option" where
  "PhysPageNum_backward_checked (PhysPageNum s) count = map_option PhysPageNum (checked_sub s count)"

fun VirtAddr_page_offset :: "VirtAddr \<Rightarrow> usize" where
  "VirtAddr_page_offset (VirtAddr a) = a AND (PAGE_SIZE - 1)"

fun VirtAddr_vpn_floor :: "VirtAddr \<Rightarrow> VirtPageNum" where
  "VirtAddr_vpn_floor (VirtAddr a) = VirtPageNum (drop_bit PAGE_SIZE_BITS a)"

definition VirtAddr_vpn :: "VirtAddr \<Rightarrow> VirtPageNum" where
  "VirtAddr_vpn a = VirtAddr_vpn_floor a"

fun VirtAddr_vpn_ceil :: "VirtAddr \<Rightarrow> VirtPageNum" where
  "VirtAddr_vpn_ceil (VirtAddr a) = VirtPageNum ((a - 1 + PAGE_SIZE) div PAGE_SIZE)"

fun VirtAddr_add :: "VirtAddr \<Rightarrow> usize \<Rightarrow> VirtAddr" where
  "VirtAddr_add (VirtAddr a) offset = VirtAddr (a + offset)"

text \<open>The loop of \<^verbatim>\<open>indexes\<close> fills the array from the last element to the first.\<close>

fun indexes_loop :: "nat \<Rightarrow> usize \<Rightarrow> usize list \<Rightarrow> usize list" where
  "indexes_loop 0 vpn idx = idx"
| "indexes_loop (Suc i) vpn idx = indexes_loop i (drop_bit 9 vpn) ((vpn AND (PTE_PER_PAGE - 1)) # idx)"

fun VirtPageNum_indexes :: "VirtPageNum \<Rightarrow> usize list" where
  "VirtPageNum_indexes (VirtPageNum n) = indexes_loop 3 n []"

fun VirtPageNum_page_start :: "VirtPageNum \<Rightarrow> VirtAddr" where
  "VirtPageNum_page_start (VirtPageNum n) = VirtAddr (push_bit PAGE_SIZE_BITS n)"

fun VirtPageNum_add :: "VirtPageNum \<Rightarrow> usize \<Rightarrow> VirtPageNum" where
  "VirtPageNum_add (VirtPageNum n) len = VirtPageNum (n + len)"

fun VirtPageNum_steps_between :: "VirtPageNum \<Rightarrow> VirtPageNum \<Rightarrow> usize option" where
  "VirtPageNum_steps_between (VirtPageNum s) (VirtPageNum e) = checked_sub e s"

fun VirtPageNum_forward_checked :: "VirtPageNum \<Rightarrow> usize \<Rightarrow> VirtPageNum option" where
  "VirtPageNum_forward_checked (VirtPageNum s) count = map_option VirtPageNum (checked_add s count)"

fun VirtPageNum_backward_checked :: "VirtPageNum \<Rightarrow> usize \<Rightarrow> VirtPageNum option" where
  "VirtPageNum_backward_checked (VirtPageNum s) count = map_option VirtPageNum (checked_sub s count)"

text \<open>The pages visited by \<^verbatim>\<open>for vpn in start..end\<close>.\<close>

fun vpn_range :: "VirtPageNum \<Rightarrow> VirtPageNum \<Rightarrow> VirtPageNum list" where
  "vpn_range (VirtPageNum s) (VirtPageNum e) =
     map (\<lambda>n. VirtPageNum (word_of_nat n)) [unat s ..< unat e]"

fun kernel_va_to_pa :: "VirtAddr \<Rightarrow> PhysAddr" where
  "kernel_va_to_pa (VirtAddr a) = PhysAddr (a - PA_TO_VA)"

fun kernel_pa_to_va :: "PhysAddr \<Rightarrow> VirtAddr" where
  "kernel_pa_to_va (PhysAddr a) = VirtAddr (a + PA_TO_VA)"

fun kernel_ppn_to_vpn :: "PhysPageNum \<Rightarrow> VirtPageNum" where
  "kernel_ppn_to_vpn (PhysPageNum n) = VirtPageNum (n + PA_TO_VA div PAGE_SIZE)"

section \<open>Laws\<close>

lemma div_4096_eq_drop_bit: "(a::usize) div 4096 = drop_bit 12 a"
  by (simp add: drop_bit_eq_div)

lemma unat_drop_bit: "unat (drop_bit n a) = unat a div 2 ^ n" for a :: "'a::len word"
  by (simp add: unat_drop_bit_eq flip: drop_bit_eq_div)

lemma unat_div_4096: "unat ((a::usize) div 4096) = unat a div 4096"
  by (simp add: unat_div)

lemma page_start_vpn_floor:
  "va_val (VirtAddr_add (VirtPageNum_page_start (VirtAddr_vpn_floor va)) (VirtAddr_page_offset va)) = va_val va"
proof (cases va)
  case (VirtAddr a)
  have "push_bit 12 (drop_bit 12 a) + (a AND 4095) = a" for a :: usize
  proof -
    have m: "(4095 :: usize) = mask 12"
      by (simp add: mask_eq_exp_minus_1)
    have "push_bit 12 (drop_bit 12 a) + (a AND 4095) = push_bit 12 (drop_bit 12 a) OR (a AND mask 12)"
      unfolding m by (rule disjunctive_add) (auto simp: bit_simps)
    also have "\<dots> = a"
      by (rule bit_eqI) (auto simp: bit_simps)
    finally show ?thesis .
  qed
  then show ?thesis
    by (simp add: VirtAddr config_simps)
qed

lemma page_offset_less: "VirtAddr_page_offset va < PAGE_SIZE"
proof (cases va)
  case (VirtAddr a)
  have "a AND 4095 \<le> 4095" by (rule word_and_le1)
  then have "a AND 4095 < 4096" by (rule order_le_less_trans) simp
  then show ?thesis by (simp add: VirtAddr config_simps)
qed

lemma VirtPageNum_indexes_eq:
  "VirtPageNum_indexes (VirtPageNum n) = [drop_bit 18 n AND 511, drop_bit 9 n AND 511, n AND 511]"
  by (simp add: numeral_3_eq_3 config_simps drop_bit_drop_bit)

lemma index_less: "i \<in> set (VirtPageNum_indexes vpn) \<Longrightarrow> i < PTE_PER_PAGE"
proof -
  have le: "(x::usize) AND 511 < 512" for x
  proof -
    have "x AND 511 \<le> 511" by (rule word_and_le1)
    then show ?thesis by (rule order_le_less_trans) simp
  qed
  assume "i \<in> set (VirtPageNum_indexes vpn)"
  then show ?thesis
    by (cases vpn) (auto simp: VirtPageNum_indexes_eq config_simps le simp del: VirtPageNum_indexes.simps)
qed

lemma kernel_pa_va_inverse [simp]:
  "kernel_va_to_pa (kernel_pa_to_va pa) = pa" "kernel_pa_to_va (kernel_va_to_pa va) = va"
  by (cases pa, simp) (cases va, simp)

lemma set_vpn_range: "set (vpn_range s e) = {v. s \<le> v \<and> v < e}"
proof -
  obtain a b where [simp]: "s = VirtPageNum a" "e = VirtPageNum b"
    by (cases s, cases e) auto
  have "VirtPageNum x \<in> set (vpn_range s e) \<longleftrightarrow> a \<le> x \<and> x < b" for x
  proof -
    have "(\<exists>n \<in> {unat a ..< unat b}. x = word_of_nat n) \<longleftrightarrow> unat a \<le> unat x \<and> unat x < unat b"
    proof
      assume "\<exists>n \<in> {unat a ..< unat b}. x = word_of_nat n"
      then obtain n where n: "unat a \<le> n" "n < unat b" "x = word_of_nat n" by auto
      then have "n < 2 ^ 64" using unsigned_less [of b, where 'a = nat] by simp
      with n show "unat a \<le> unat x \<and> unat x < unat b"
        by (simp add: unat_of_nat)
    next
      assume "unat a \<le> unat x \<and> unat x < unat b"
      then show "\<exists>n \<in> {unat a ..< unat b}. x = word_of_nat n"
        by (intro bexI [of _ "unat x"]) auto
    qed
    then show ?thesis
      by (auto simp: word_le_nat_alt word_less_nat_alt image_iff)
  qed
  then have "v \<in> set (vpn_range s e) \<longleftrightarrow> s \<le> v \<and> v < e" for v
    by (cases v) (simp add: less_eq_VirtPageNum_def less_VirtPageNum_def del: vpn_range.simps)
  then show ?thesis by blast
qed

lemma distinct_vpn_range: "distinct (vpn_range s e)"
proof -
  obtain a b where [simp]: "s = VirtPageNum a" "e = VirtPageNum b"
    by (cases s, cases e) auto
  have "inj_on (\<lambda>n. VirtPageNum (word_of_nat n)) {unat a ..< unat b}"
  proof (rule inj_onI)
    fix x y
    assume "x \<in> {unat a..<unat b}" "y \<in> {unat a..<unat b}"
      and eq: "VirtPageNum (word_of_nat x) = VirtPageNum (word_of_nat y)"
    then have "x < 2 ^ 64" "y < 2 ^ 64"
      using unsigned_less [of b, where 'a = nat] by simp_all
    with eq show "x = y"
      by (simp add: word_of_nat_eq_iff take_bit_eq_mod)
  qed
  then show ?thesis
    by (simp add: distinct_map)
qed

end
