(* ===== verification/Recycle_Alloc.thy ===== *)
theory Recycle_Alloc
  imports Utils
begin

text \<open>
  The identifier allocator behind process ids and thread ids
  (\<^verbatim>\<open>RecycleAllocator\<close> in \<^verbatim>\<open>major/src/task/resource.rs\<close>): a counter and a stack of returned ids.
  The contract is the locale \<^verbatim>\<open>id_source\<close>; the allocator interprets it, with the ids in use as
  the abstraction.
\<close>

section \<open>The contract of an id source\<close>

text \<open>
  \<^term>\<open>live\<close> is the set of ids handed out and not yet returned, \<^term>\<open>ready\<close> says that another id
  can be handed out.
\<close>

primrec take_ids :: "('s \<Rightarrow> 'i \<times> 's) \<Rightarrow> nat \<Rightarrow> 's \<Rightarrow> 'i list \<times> 's" where
  "take_ids alloc 0 s = ([], s)"
| "take_ids alloc (Suc n) s =
     (let (i, s1) = alloc s; (is, s2) = take_ids alloc n s1 in (i # is, s2))"

locale id_source =
  fixes alloc :: "'s \<Rightarrow> 'i \<times> 's"
    and dealloc :: "'s \<Rightarrow> 'i \<Rightarrow> 's option"
    and live :: "'s \<Rightarrow> 'i set"
    and invar :: "'s \<Rightarrow> bool"
    and room :: "'s \<Rightarrow> nat"
  assumes alloc_fresh: "invar s \<Longrightarrow> 0 < room s \<Longrightarrow> alloc s = (i, s') \<Longrightarrow> i \<notin> live s"
    and alloc_live: "invar s \<Longrightarrow> 0 < room s \<Longrightarrow> alloc s = (i, s') \<Longrightarrow> live s' = insert i (live s)"
    and alloc_invar: "invar s \<Longrightarrow> 0 < room s \<Longrightarrow> alloc s = (i, s') \<Longrightarrow> invar s'"
    and alloc_room: "invar s \<Longrightarrow> 0 < room s \<Longrightarrow> alloc s = (i, s') \<Longrightarrow> room s \<le> Suc (room s')"
    and dealloc_live: "invar s \<Longrightarrow> i \<in> live s \<Longrightarrow>
      \<exists>s'. dealloc s i = Some s' \<and> live s' = live s - {i} \<and> invar s' \<and> room s' = Suc (room s)"
begin

lemma take_ids_live:
  "invar s \<Longrightarrow> n \<le> room s \<Longrightarrow> take_ids alloc n s = (is, s') \<Longrightarrow>
     distinct is \<and> length is = n \<and> set is \<inter> live s = {} \<and> live s' = set is \<union> live s \<and> invar s'"
proof (induction n arbitrary: s "is" s')
  case 0
  then show ?case by simp
next
  case (Suc n)
  obtain i s1 where a: "alloc s = (i, s1)" by (cases "alloc s")
  obtain js s2 where t: "take_ids alloc n s1 = (js, s2)" by (cases "take_ids alloc n s1")
  have eq: "is = i # js" "s' = s2"
    using Suc.prems(3) a t by simp_all
  have pos: "0 < room s" using Suc.prems(2) by simp
  note a' = alloc_fresh [OF Suc.prems(1) pos a] alloc_live [OF Suc.prems(1) pos a]
    alloc_invar [OF Suc.prems(1) pos a] alloc_room [OF Suc.prems(1) pos a]
  have "n \<le> room s1" using a'(4) Suc.prems(2) by simp
  from Suc.IH [OF a'(3) this t] a' show ?case
    by (auto simp: eq)
qed

lemma realloc:
  assumes "invar s" "i \<in> live s"
  obtains s' where "dealloc s i = Some s'" "i \<notin> live s'" "invar s'" "0 < room s'"
  using dealloc_live [OF assms] by auto

end

section \<open>The allocator\<close>

record RecycleAllocator =
  current :: usize
  recycled :: "usize list"

definition RecycleAllocator_new :: RecycleAllocator where
  "RecycleAllocator_new = \<lparr>current = 0, recycled = []\<rparr>"

definition RecycleAllocator_begin_with :: "usize \<Rightarrow> RecycleAllocator" where
  "RecycleAllocator_begin_with begin = \<lparr>current = begin, recycled = []\<rparr>"

definition RecycleAllocator_alloc :: "RecycleAllocator \<Rightarrow> usize \<times> RecycleAllocator" where
  "RecycleAllocator_alloc s =
     (if recycled s \<noteq> [] then (last (recycled s), s\<lparr>recycled := butlast (recycled s)\<rparr>)
      else (current s, s\<lparr>current := current s + 1\<rparr>))"

definition RecycleAllocator_dealloc :: "RecycleAllocator \<Rightarrow> usize \<Rightarrow> RecycleAllocator option" where
  "RecycleAllocator_dealloc s i = do {
     rust_assert (i < current s);
     rust_assert (\<not> list_ex (\<lambda>j. j = i) (recycled s));
     Some (s\<lparr>recycled := recycled s @ [i]\<rparr>)
   }"

section \<open>The allocator meets the contract\<close>

text \<open>
  Ids start at \<^term>\<open>base\<close>, the argument of \<^verbatim>\<open>begin_with\<close>. Fewer than \<open>2 ^ 64\<close> ids are in use at
  once, which is the room the counter has.
\<close>

definition ra_live :: "usize \<Rightarrow> RecycleAllocator \<Rightarrow> usize set" where
  "ra_live base s = {i. base \<le> i \<and> i < current s} - set (recycled s)"

definition ra_inv :: "usize \<Rightarrow> RecycleAllocator \<Rightarrow> bool" where
  "ra_inv base s \<longleftrightarrow>
     base \<le> current s \<and> distinct (recycled s) \<and> (\<forall>i \<in> set (recycled s). base \<le> i \<and> i < current s)"

definition ra_room :: "RecycleAllocator \<Rightarrow> nat" where
  "ra_room s = length (recycled s) + (2 ^ 64 - 1 - unat (current s))"

lemma ra_inv_begin_with [simp]: "ra_inv base (RecycleAllocator_begin_with base)"
  by (simp add: ra_inv_def RecycleAllocator_begin_with_def)

lemma ra_live_begin_with [simp]: "ra_live base (RecycleAllocator_begin_with base) = {}"
  by (auto simp: ra_live_def RecycleAllocator_begin_with_def)

lemma less_Suc_word:
  "unat c < 2 ^ 64 - 1 \<Longrightarrow> (i < c + 1) = (i \<le> c)" for c i :: usize
proof -
  assume "unat c < 2 ^ 64 - 1"
  then have "unat (c + 1) = unat c + 1"
    by (simp add: unat_word_ariths)
  then show ?thesis
    by (simp add: word_less_nat_alt word_le_nat_alt less_Suc_eq_le)
qed

lemma ra_alloc_recycled:
  assumes "recycled s = xs @ [i]"
  shows "RecycleAllocator_alloc s = (i, s\<lparr>recycled := xs\<rparr>)"
  using assms by (simp add: RecycleAllocator_alloc_def)

lemma ra_alloc_cases:
  assumes "ra_inv base s" "0 < ra_room s" "RecycleAllocator_alloc s = (i, s')"
  shows "i \<notin> ra_live base s \<and> ra_live base s' = insert i (ra_live base s) \<and> ra_inv base s'
    \<and> ra_room s \<le> Suc (ra_room s')"
proof (cases "recycled s" rule: rev_cases)
  case Nil
  then have c: "unat (current s) < 2 ^ 64 - 1"
    using assms(2) by (simp add: ra_room_def)
  then have su: "unat (current s + 1) = unat (current s) + 1"
    by (simp add: unat_word_ariths)
  have eq: "i = current s" "s' = s\<lparr>current := current s + 1\<rparr>"
    using assms(3) Nil by (auto simp: RecycleAllocator_alloc_def)
  have "base \<le> current s + 1"
    using assms(1) su by (simp add: ra_inv_def word_le_nat_alt)
  with assms(1) Nil show ?thesis
    by (auto simp: eq ra_live_def ra_inv_def ra_room_def less_Suc_word [OF c] su)
next
  case (snoc xs x)
  have eq: "i = x" "s' = s\<lparr>recycled := xs\<rparr>"
    using assms(3) ra_alloc_recycled [OF snoc] by simp_all
  from assms(1) snoc show ?thesis
    by (auto simp: eq ra_live_def ra_inv_def ra_room_def)
qed

lemma ra_dealloc:
  assumes "ra_inv base s" "i \<in> ra_live base s"
  shows "RecycleAllocator_dealloc s i = Some (s\<lparr>recycled := recycled s @ [i]\<rparr>)"
  using assms by (auto simp: RecycleAllocator_dealloc_def ra_live_def list_ex_iff)

interpretation recycle: id_source RecycleAllocator_alloc RecycleAllocator_dealloc
  "ra_live base" "ra_inv base" ra_room for base
proof (unfold_locales, goal_cases)
  case (5 s i)
  then show ?case
    unfolding ra_dealloc [OF 5] by (auto simp: ra_live_def ra_inv_def ra_room_def)
qed (use ra_alloc_cases in blast)+

section \<open>Properties\<close>

text \<open>
  Property C17. The pid and tid allocator hands out pairwise distinct ids that are not in use: taking
  any number \<^term>\<open>n\<close> of ids from an allocator with room for them returns \<^term>\<open>n\<close> distinct ids,
  disjoint from the live ones, and makes exactly those live.
\<close>

theorem RecycleAllocator_unique_ids:
  assumes "ra_inv base s" "n \<le> ra_room s" "take_ids RecycleAllocator_alloc n s = (ids, s')"
  shows "distinct ids \<and> length ids = n \<and> set ids \<inter> ra_live base s = {}
    \<and> ra_live base s' = set ids \<union> ra_live base s \<and> ra_inv base s'"
  using recycle.take_ids_live [OF assms] .

theorem RecycleAllocator_unique_ids_witness:
  "distinct [5, 2, 6 :: usize]
    \<and> ra_live 1 (snd (take_ids RecycleAllocator_alloc 3 \<lparr>current = 6, recycled = [2, 5]\<rparr>))
      = {5, 2, 6} \<union> ra_live 1 \<lparr>current = 6, recycled = [2, 5]\<rparr>"
proof -
  let ?s = "\<lparr>current = 6, recycled = [2, 5]\<rparr> :: RecycleAllocator"
  have t: "take_ids RecycleAllocator_alloc 3 ?s = ([5, 2, 6], \<lparr>current = 7, recycled = []\<rparr>)"
    by (simp add: numeral_3_eq_3 RecycleAllocator_alloc_def)
  have "ra_inv 1 ?s" "3 \<le> ra_room ?s"
    by (simp_all add: ra_inv_def ra_room_def)
  from RecycleAllocator_unique_ids [OF this t] show ?thesis
    by (simp add: t)
qed

end
