(* ===== verification/File_Types.thy ===== *)
theory File_Types
  imports Utils
begin

text \<open>
  The data shared by all files of the \<^verbatim>\<open>filesystem\<close> crate: the status structure and its mode
  bits (\<^verbatim>\<open>filesystem/src/lib.rs\<close>) and the open flags (\<^verbatim>\<open>filesystem/src/inode.rs\<close>).
\<close>

section \<open>File status\<close>

type_synonym StatMode = u32

definition S_IFREG :: StatMode where "S_IFREG = push_bit 15 1"
definition S_IFLNK :: StatMode where "S_IFLNK = push_bit 15 1 OR push_bit 13 1"
definition S_IFSOCK :: StatMode where "S_IFSOCK = push_bit 15 1 OR push_bit 14 1"
definition S_IFBLK :: StatMode where "S_IFBLK = push_bit 14 1 OR push_bit 13 1"
definition S_IFDIR :: StatMode where "S_IFDIR = push_bit 14 1"
definition S_IFCHR :: StatMode where "S_IFCHR = push_bit 13 1"
definition S_IFIFO :: StatMode where "S_IFIFO = push_bit 12 1"
definition S_IRUSR :: StatMode where "S_IRUSR = push_bit 8 1"
definition S_IWUSR :: StatMode where "S_IWUSR = push_bit 7 1"
definition S_IXUSR :: StatMode where "S_IXUSR = push_bit 6 1"
definition S_IRWXU :: StatMode where "S_IRWXU = S_IRUSR OR S_IWUSR OR S_IXUSR"
definition S_IRGRP :: StatMode where "S_IRGRP = push_bit 5 1"
definition S_IWGRP :: StatMode where "S_IWGRP = push_bit 4 1"
definition S_IXGRP :: StatMode where "S_IXGRP = push_bit 3 1"
definition S_IRWXG :: StatMode where "S_IRWXG = S_IRGRP OR S_IWGRP OR S_IXGRP"
definition S_IROTH :: StatMode where "S_IROTH = push_bit 2 1"
definition S_IWOTH :: StatMode where "S_IWOTH = push_bit 1 1"
definition S_IXOTH :: StatMode where "S_IXOTH = push_bit 0 1"
definition S_IRWXO :: StatMode where "S_IRWXO = S_IROTH OR S_IWOTH OR S_IXOTH"

record Stat =
  st_dev :: u64
  st_ino :: u64
  st_mode :: StatMode
  st_nlink :: u32
  st_uid :: u32
  st_gid :: u32
  st_rdev :: u64
  st_pad0 :: u64
  st_size :: u64
  st_blksize :: u32
  st_pad1 :: u32
  st_blocks :: u64
  st_atime :: TimeSpec
  st_mtime :: TimeSpec
  st_ctime :: TimeSpec

text \<open>The derived \<^verbatim>\<open>Default\<close>: every field zero.\<close>

definition TimeSpec_default :: TimeSpec where
  "TimeSpec_default = \<lparr>ts_sec = 0, ts_nsec = 0\<rparr>"

definition Stat_default :: Stat where
  "Stat_default = \<lparr>st_dev = 0, st_ino = 0, st_mode = 0, st_nlink = 0, st_uid = 0, st_gid = 0,
     st_rdev = 0, st_pad0 = 0, st_size = 0, st_blksize = 0, st_pad1 = 0, st_blocks = 0,
     st_atime = TimeSpec_default, st_mtime = TimeSpec_default, st_ctime = TimeSpec_default\<rparr>"

text \<open>The block size of the block device (\<^verbatim>\<open>drivers/src/block/mod.rs\<close>).\<close>

definition BLOCK_SIZE :: u32 where "BLOCK_SIZE = 512"

section \<open>Open flags\<close>

type_synonym OpenFlags = u32

definition O_RDONLY :: OpenFlags where "O_RDONLY = 0"
definition O_WRONLY :: OpenFlags where "O_WRONLY = push_bit 0 1"
definition O_RDWR :: OpenFlags where "O_RDWR = push_bit 1 1"
definition O_CREAT :: OpenFlags where "O_CREAT = push_bit 6 1"
definition O_EXCL :: OpenFlags where "O_EXCL = push_bit 7 1"
definition O_NOCTTY :: OpenFlags where "O_NOCTTY = push_bit 8 1"
definition O_TRUNC :: OpenFlags where "O_TRUNC = push_bit 9 1"
definition O_APPEND :: OpenFlags where "O_APPEND = push_bit 10 1"
definition O_DSYNC :: OpenFlags where "O_DSYNC = push_bit 12 1"
definition O_ASYNC :: OpenFlags where "O_ASYNC = push_bit 13 1"
definition O_DIRECT :: OpenFlags where "O_DIRECT = push_bit 14 1"
definition O_LARGEFILE :: OpenFlags where "O_LARGEFILE = push_bit 15 1"
definition O_DIRECTORY :: OpenFlags where "O_DIRECTORY = push_bit 21 1"
definition O_CLOEXEC :: OpenFlags where "O_CLOEXEC = push_bit 19 1"

definition OpenFlags_all :: OpenFlags where
  "OpenFlags_all = O_RDONLY OR O_WRONLY OR O_RDWR OR O_CREAT OR O_EXCL OR O_NOCTTY OR O_TRUNC
     OR O_APPEND OR O_DSYNC OR O_ASYNC OR O_DIRECT OR O_LARGEFILE OR O_DIRECTORY OR O_CLOEXEC"

lemmas open_flag_defs =
  O_RDONLY_def O_WRONLY_def O_RDWR_def O_CREAT_def O_EXCL_def O_NOCTTY_def O_TRUNC_def
  O_APPEND_def O_DSYNC_def O_ASYNC_def O_DIRECT_def O_LARGEFILE_def O_DIRECTORY_def O_CLOEXEC_def

definition OpenFlags_read_write :: "OpenFlags \<Rightarrow> (bool \<times> bool) option" where
  "OpenFlags_read_write flags =
     (let mode = flags AND 3 in
      if mode = 0 then Some (True, False)
      else if mode = 1 then Some (False, True)
      else if mode = 2 then Some (True, True)
      else None)"

lemma O_CLOEXEC_set:
  "flags_contains (flags_set flags O_CLOEXEC b) O_CLOEXEC = b"
  by (simp add: flags_set_def O_CLOEXEC_def)

lemma OpenFlags_read_write_panics: "OpenFlags_read_write flags = None \<longleftrightarrow> flags AND 3 = 3"
  using word_le_3_cases [of "flags AND 3"] word_and_le1 [of flags 3]
  by (auto simp: OpenFlags_read_write_def Let_def)

end
