(* ===== verification/Pipe.thy ===== *)
theory Pipe
  imports File_Types
begin

text \<open>
  Pipes (\<^verbatim>\<open>filesystem/src/pipe.rs\<close>): the ring buffer, the two ends, and the blocking read and
  write loops. The loops are modelled up to the points where the code gives up the processor
  (\<^verbatim>\<open>__suspend_curr_and_run_next\<close>); a suspended call keeps its local variables and is run again
  from the head of its loop. The \<^verbatim>\<open>Weak<Pipe>\<close> in the buffer is only asked for its strong
  count, which is the field \<^verbatim>\<open>rb_write_end\<close>.
\<close>

section \<open>The contract of a bounded queue\<close>

locale bounded_queue =
  fixes get :: "'s \<Rightarrow> ('a \<times> 's) option"
    and put :: "'s \<Rightarrow> 'a \<Rightarrow> 's option"
    and items :: "'s \<Rightarrow> 'a list"
    and cap :: nat
    and invar :: "'s \<Rightarrow> bool"
  assumes get_Cons: "invar s \<Longrightarrow> items s = x # xs \<Longrightarrow>
      \<exists>s'. get s = Some (x, s') \<and> items s' = xs \<and> invar s'"
    and put_snoc: "invar s \<Longrightarrow> length (items s) < cap \<Longrightarrow>
      \<exists>s'. put s x = Some s' \<and> items s' = items s @ [x] \<and> invar s'"
    and bounded: "invar s \<Longrightarrow> length (items s) \<le> cap"

section \<open>The ring buffer\<close>

definition RING_BUFFER_SIZE :: usize where "RING_BUFFER_SIZE = 32"

datatype RingBufferStatus = Full | Empty | Normal

record PipeRingBuffer =
  rb_arr :: "u8 list"
  rb_head :: usize
  rb_tail :: usize
  rb_status :: RingBufferStatus
  rb_write_end :: nat

definition PipeRingBuffer_new :: PipeRingBuffer where
  "PipeRingBuffer_new = \<lparr>rb_arr = replicate (unat RING_BUFFER_SIZE) 0, rb_head = 0, rb_tail = 0,
     rb_status = Empty, rb_write_end = 0\<rparr>"

definition read_byte :: "PipeRingBuffer \<Rightarrow> (u8 \<times> PipeRingBuffer) option" where
  "read_byte s =
     (let s1 = s\<lparr>rb_status := Normal\<rparr> in do {
        c \<leftarrow> slice_get (rb_arr s1) (unat (rb_head s1));
        let s2 = s1\<lparr>rb_head := (rb_head s1 + 1) mod RING_BUFFER_SIZE\<rparr>;
        let s3 = (if rb_head s2 = rb_tail s2 then s2\<lparr>rb_status := Empty\<rparr> else s2);
        Some (c, s3)
      })"

definition write_byte :: "PipeRingBuffer \<Rightarrow> u8 \<Rightarrow> PipeRingBuffer option" where
  "write_byte s byte =
     (let s1 = s\<lparr>rb_status := Normal\<rparr> in do {
        a \<leftarrow> slice_set (rb_arr s1) (unat (rb_tail s1)) byte;
        let s2 = s1\<lparr>rb_arr := a, rb_tail := (rb_tail s1 + 1) mod RING_BUFFER_SIZE\<rparr>;
        Some (if rb_head s2 = rb_tail s2 then s2\<lparr>rb_status := Full\<rparr> else s2)
      })"

definition available_read :: "PipeRingBuffer \<Rightarrow> usize" where
  "available_read s =
     (if rb_status s = Empty then 0
      else if rb_tail s > rb_head s then rb_tail s - rb_head s
      else rb_tail s + RING_BUFFER_SIZE - rb_head s)"

definition available_write :: "PipeRingBuffer \<Rightarrow> usize" where
  "available_write s = RING_BUFFER_SIZE - available_read s"

definition all_write_ends_closed :: "PipeRingBuffer \<Rightarrow> bool" where
  "all_write_ends_closed s \<longleftrightarrow> rb_write_end s = 0"

definition set_write_end :: "PipeRingBuffer \<Rightarrow> nat \<Rightarrow> PipeRingBuffer" where
  "set_write_end s strong = s\<lparr>rb_write_end := strong\<rparr>"

section \<open>The ring buffer is a bounded queue\<close>

definition rb_inv :: "PipeRingBuffer \<Rightarrow> bool" where
  "rb_inv s \<longleftrightarrow> length (rb_arr s) = 32 \<and> rb_head s < 32 \<and> rb_tail s < 32
     \<and> (rb_status s = Normal \<longleftrightarrow> rb_head s \<noteq> rb_tail s)"

definition rb_count :: "PipeRingBuffer \<Rightarrow> nat" where
  "rb_count s =
     (if rb_status s = Empty then 0
      else if unat (rb_tail s) > unat (rb_head s) then unat (rb_tail s) - unat (rb_head s)
      else unat (rb_tail s) + 32 - unat (rb_head s))"

definition rb_items :: "PipeRingBuffer \<Rightarrow> u8 list" where
  "rb_items s = map (\<lambda>i. rb_arr s ! ((unat (rb_head s) + i) mod 32)) [0..<rb_count s]"

lemma length_rb_items [simp]: "length (rb_items s) = rb_count s"
  by (simp add: rb_items_def)

lemma unat_less_32: "(x::usize) < 32 \<longleftrightarrow> unat x < 32"
  by (simp add: word_less_nat_alt)

lemma unat_ring_succ: "x < 32 \<Longrightarrow> unat ((x + 1) mod 32 :: usize) = (unat x + 1) mod 32"
  by (simp add: unat_mod unat_word_ariths unat_less_32)

lemma unat_available_read: "rb_inv s \<Longrightarrow> unat (available_read s) = rb_count s"
  by (auto simp: rb_inv_def available_read_def rb_count_def RING_BUFFER_SIZE_def unat_sub_if'
      unat_word_ariths word_less_nat_alt)

lemma rb_count_le: "rb_inv s \<Longrightarrow> rb_count s \<le> 32"
  by (auto simp: rb_inv_def rb_count_def word_less_nat_alt)

lemma unat_available_write: "rb_inv s \<Longrightarrow> unat (available_write s) = 32 - rb_count s"
  using unat_available_read [of s] rb_count_le [of s]
  by (simp add: available_write_def RING_BUFFER_SIZE_def unat_sub_if')

lemma rb_tail_eq: "rb_inv s \<Longrightarrow> unat (rb_tail s) = (unat (rb_head s) + rb_count s) mod 32"
  by (cases "rb_status s")
    (auto simp: rb_inv_def rb_count_def word_less_nat_alt mod_if word_eq_iff_unsigned)


lemma rb_items_get:
  assumes inv: "rb_inv s" and items: "rb_items s = x # xs"
  shows "\<exists>s'. read_byte s = Some (x, s') \<and> rb_items s' = xs \<and> rb_inv s' \<and> rb_write_end s' = rb_write_end s"
proof -
  let ?h = "unat (rb_head s)"
  have h: "?h < 32" and len: "length (rb_arr s) = 32"
    using inv by (simp_all add: rb_inv_def unat_less_32)
  obtain k where k: "rb_count s = Suc k"
    using items length_rb_items [of s] by (cases "rb_count s") auto
  have cons: "rb_items s = rb_arr s ! ?h # map (\<lambda>i. rb_arr s ! ((?h + Suc i) mod 32)) [0..<k]"
    using h by (simp add: rb_items_def k upt_conv_Cons map_Suc_upt [symmetric] del: upt_Suc)
  let ?h' = "(rb_head s + 1) mod 32"
  define s' where "s' = s\<lparr>rb_status := if ?h' = rb_tail s then Empty else Normal, rb_head := ?h'\<rparr>"
  have h': "unat ?h' = (?h + 1) mod 32"
    using inv by (simp add: rb_inv_def unat_ring_succ)
  have eq: "?h' = rb_tail s \<longleftrightarrow> (?h + 1) mod 32 = unat (rb_tail s)"
    by (simp only: word_unat_eq_iff h')
  have "rb_count s' = k"
    using inv k h h' unfolding rb_inv_def
    by (auto simp: s'_def rb_count_def eq mod_Suc unat_less_32 word_unat_eq_iff split: if_splits)
  moreover have "rb_inv s'"
    using inv h' by (auto simp: s'_def rb_inv_def unat_less_32)
  moreover have "read_byte s = Some (x, s')"
    using items cons len h by (auto simp: read_byte_def slice_get_def RING_BUFFER_SIZE_def s'_def)
  moreover have "rb_items s' = xs" if "rb_count s' = k"
    using items cons h' by (simp add: rb_items_def that) (simp add: s'_def mod_simps)
  ultimately show ?thesis
    by (auto simp: s'_def)
qed

lemma rb_items_put:
  assumes inv: "rb_inv s" and room: "rb_count s < 32"
  shows "\<exists>s'. write_byte s x = Some s' \<and> rb_items s' = rb_items s @ [x] \<and> rb_inv s' \<and> rb_write_end s' = rb_write_end s"
proof -
  let ?h = "unat (rb_head s)" and ?t = "unat (rb_tail s)"
  have h: "?h < 32" and t: "?t < 32" and len: "length (rb_arr s) = 32"
    using inv by (simp_all add: rb_inv_def unat_less_32)
  let ?t' = "(rb_tail s + 1) mod 32"
  define s' where "s' = s\<lparr>rb_status := if rb_head s = ?t' then Full else Normal,
    rb_arr := (rb_arr s)[?t := x], rb_tail := ?t'\<rparr>"
  have t': "unat ?t' = (?t + 1) mod 32"
    using inv by (simp add: rb_inv_def unat_ring_succ)
  have c: "rb_count s' = Suc (rb_count s)"
    using inv room h t t' unfolding rb_inv_def
    by (auto simp: s'_def rb_count_def mod_Suc word_unat_eq_iff split: if_splits)
  have other: "?t \<noteq> (?h + i) mod 32" if "i < rb_count s" for i
    using that room rb_tail_eq [OF inv] h by (auto simp: mod_if split: if_splits)
  have "rb_items s' = rb_items s @ [x]"
    using other t len
    by (simp add: rb_items_def c)
      (auto simp: s'_def rb_tail_eq [OF inv, symmetric] nth_list_update_neq)
  moreover have "rb_inv s'"
    using inv t' by (auto simp: s'_def rb_inv_def unat_less_32)
  moreover have "write_byte s x = Some s'"
    using len t by (simp add: write_byte_def slice_set_def RING_BUFFER_SIZE_def s'_def)
  ultimately show ?thesis
    by (auto simp: s'_def)
qed

interpretation ring: bounded_queue read_byte write_byte rb_items 32 rb_inv
  by unfold_locales (use rb_items_get rb_items_put rb_count_le in force)+


section \<open>Pipe ends\<close>

text \<open>
  A buffer shared by \<^verbatim>\<open>Arc\<close> is a position in the list of all ring buffers. The strong count of
  the write end is one right after \<^verbatim>\<open>make_pipe\<close>.
\<close>

record Pipe =
  pipe_readable :: bool
  pipe_writable :: bool
  pipe_buffer :: nat

definition read_end_with_buffer :: "nat \<Rightarrow> Pipe" where
  "read_end_with_buffer b = \<lparr>pipe_readable = True, pipe_writable = False, pipe_buffer = b\<rparr>"

definition write_end_with_buffer :: "nat \<Rightarrow> Pipe" where
  "write_end_with_buffer b = \<lparr>pipe_readable = False, pipe_writable = True, pipe_buffer = b\<rparr>"

definition make_pipe :: "PipeRingBuffer list \<Rightarrow> (Pipe \<times> Pipe) \<times> PipeRingBuffer list" where
  "make_pipe bufs =
     (let b = length bufs in
      ((read_end_with_buffer b, write_end_with_buffer b),
       bufs @ [set_write_end PipeRingBuffer_new 1]))"

definition Pipe_fstat :: Stat where
  "Pipe_fstat = Stat_default\<lparr>st_mode := S_IFIFO OR S_IRWXU OR S_IRWXG OR S_IRWXO,
     st_size := ucast RING_BUFFER_SIZE, st_blksize := BLOCK_SIZE\<rparr>"

section \<open>The read and write loops\<close>

datatype io = Returns | Suspends | Repeats

text \<open>
  One pass of the inner \<^verbatim>\<open>for\<close>: at most \<^term>\<open>n\<close> bytes while the caller's slice has room for
  \<^term>\<open>room\<close> more. The result says whether the function returned from inside the loop.
\<close>

fun read_for :: "nat \<Rightarrow> PipeRingBuffer \<Rightarrow> nat \<Rightarrow> u8 list \<Rightarrow> (io \<times> PipeRingBuffer \<times> nat \<times> u8 list) option" where
  "read_for 0 s room buf = Some (Repeats, s, room, buf)"
| "read_for (Suc n) s 0 buf = Some (Returns, s, 0, buf)"
| "read_for (Suc n) s (Suc room) buf = do {
     (c, s') \<leftarrow> read_byte s;
     read_for n s' room (buf @ [c])
   }"

definition read_iteration :: "PipeRingBuffer \<Rightarrow> nat \<Rightarrow> u8 list \<Rightarrow> (io \<times> PipeRingBuffer \<times> nat \<times> u8 list) option" where
  "read_iteration s room buf =
     (let available = available_read s in
      if available = 0 then
        (if all_write_ends_closed s then Some (Returns, s, room, buf) else Some (Suspends, s, room, buf))
      else read_for (unat available) s room buf)"

fun write_for :: "nat \<Rightarrow> PipeRingBuffer \<Rightarrow> u8 list \<Rightarrow> nat \<Rightarrow> (io \<times> PipeRingBuffer \<times> u8 list \<times> nat) option" where
  "write_for 0 s buf written = Some (Repeats, s, buf, written)"
| "write_for (Suc n) s [] written = Some (Returns, s, [], written)"
| "write_for (Suc n) s (c # buf) written = do {
     s' \<leftarrow> write_byte s c;
     write_for n s' buf (Suc written)
   }"

definition write_iteration :: "PipeRingBuffer \<Rightarrow> u8 list \<Rightarrow> nat \<Rightarrow> (io \<times> PipeRingBuffer \<times> u8 list \<times> nat) option" where
  "write_iteration s buf written =
     (let loop_write = available_write s in
      if loop_write = 0 then Some (Suspends, s, buf, written)
      else write_for (unat loop_write) s buf written)"

lemma read_for_room: "read_for n s room buf = Some (Repeats, s', room', buf') \<Longrightarrow> room = room' + n"
proof (induction n s room buf rule: read_for.induct)
  case (3 n s room buf)
  then show ?case by (auto simp: bind_eq_Some_conv split: prod.splits)
qed auto

lemma write_for_rest:
  "write_for n s buf written = Some (Repeats, s', buf', written') \<Longrightarrow> length buf = length buf' + n"
proof (induction n s buf written rule: write_for.induct)
  case (3 n s c buf written)
  then show ?case by (auto simp: bind_eq_Some_conv)
qed auto

lemma read_iteration_room:
  "read_iteration s room buf = Some (Repeats, s', room', buf') \<Longrightarrow> room' < room"
  using read_for_room [of "unat (available_read s)" s room buf s' room' buf']
  by (auto simp: read_iteration_def Let_def unat_gt_0 split: if_splits)

lemma write_iteration_rest:
  "write_iteration s buf written = Some (Repeats, s', buf', written') \<Longrightarrow> length buf' < length buf"
  using write_for_rest [of "unat (available_write s)" s buf written s' buf' written']
  by (auto simp: write_iteration_def Let_def unat_gt_0 split: if_splits)

text \<open>The outer \<^verbatim>\<open>loop\<close>, run until the call returns or gives up the processor.\<close>

function read_loop :: "PipeRingBuffer \<Rightarrow> nat \<Rightarrow> u8 list \<Rightarrow> (io \<times> PipeRingBuffer \<times> nat \<times> u8 list) option" where
  "read_loop s room buf =
     (case read_iteration s room buf of
        None \<Rightarrow> None
      | Some (r, s', room', buf') \<Rightarrow>
          if r = Repeats then read_loop s' room' buf' else Some (r, s', room', buf'))"
  by pat_completeness auto
termination
  by (relation "measure (\<lambda>(s, room, buf). room)") (auto simp: read_iteration_room)

function write_loop :: "PipeRingBuffer \<Rightarrow> u8 list \<Rightarrow> nat \<Rightarrow> (io \<times> PipeRingBuffer \<times> u8 list \<times> nat) option" where
  "write_loop s buf written =
     (case write_iteration s buf written of
        None \<Rightarrow> None
      | Some (r, s', buf', written') \<Rightarrow>
          if r = Repeats then write_loop s' buf' written' else Some (r, s', buf', written'))"
  by pat_completeness auto
termination
  by (relation "measure (\<lambda>(s, buf, written). length buf)") (auto simp: write_iteration_rest)

declare read_loop.simps [simp del] write_loop.simps [simp del]

definition Pipe_read :: "Pipe \<Rightarrow> PipeRingBuffer \<Rightarrow> nat \<Rightarrow> (io \<times> PipeRingBuffer \<times> nat \<times> u8 list) option" where
  "Pipe_read p s len = do {
     rust_assert (pipe_readable p);
     read_loop s len []
   }"

definition Pipe_write :: "Pipe \<Rightarrow> PipeRingBuffer \<Rightarrow> u8 list \<Rightarrow> (io \<times> PipeRingBuffer \<times> u8 list \<times> nat) option" where
  "Pipe_write p s buf = do {
     rust_assert (pipe_writable p);
     write_loop s buf 0
   }"


section \<open>What a call does\<close>

lemma read_for_spec:
  assumes "rb_inv s" "n \<le> rb_count s"
  shows "\<exists>s'. read_for n s room buf
      = Some (if n \<le> room then Repeats else Returns, s', room - n, buf @ take (min n room) (rb_items s))
    \<and> rb_items s' = drop (min n room) (rb_items s) \<and> rb_inv s' \<and> rb_write_end s' = rb_write_end s"
  using assms
proof (induction n s room buf rule: read_for.induct)
  case (3 n s room buf)
  obtain x xs where items: "rb_items s = x # xs"
    using "3.prems"(2) length_rb_items [of s] by (cases "rb_items s") auto
  obtain s1 where s1: "read_byte s = Some (x, s1)" "rb_items s1 = xs" "rb_inv s1"
      "rb_write_end s1 = rb_write_end s"
    using rb_items_get [OF "3.prems"(1) items] by auto
  have "n \<le> rb_count s1"
    using "3.prems"(2) items s1(2) length_rb_items [of s] length_rb_items [of s1] by auto
  from "3.IH" [OF s1(1) refl s1(3) this] s1 items show ?case
    by (auto simp: bind_eq_Some_conv)
qed auto

lemma write_for_spec:
  assumes "rb_inv s" "n + rb_count s \<le> 32"
  shows "\<exists>s'. write_for n s buf written
      = Some (if n \<le> length buf then Repeats else Returns, s', drop n buf, written + min n (length buf))
    \<and> rb_items s' = rb_items s @ take n buf \<and> rb_inv s' \<and> rb_write_end s' = rb_write_end s"
  using assms
proof (induction n s buf written rule: write_for.induct)
  case (3 n s c buf written)
  obtain s1 where s1: "write_byte s c = Some s1" "rb_items s1 = rb_items s @ [c]" "rb_inv s1"
      "rb_write_end s1 = rb_write_end s"
    using rb_items_put [OF "3.prems"(1)] "3.prems"(2) by auto
  have "n + rb_count s1 \<le> 32"
    using "3.prems"(2) s1(2) length_rb_items [of s] length_rb_items [of s1] by auto
  from "3.IH" [OF s1(1,3) this] s1 show ?case
    by (auto simp: bind_eq_Some_conv)
qed auto

text \<open>
  A read of \<^term>\<open>room\<close> more bytes returns at once only if more than \<^term>\<open>room\<close> bytes are
  buffered, or if the write end is closed; otherwise it drains the buffer and suspends.
\<close>

definition read_outcome :: "PipeRingBuffer \<Rightarrow> nat \<Rightarrow> io" where
  "read_outcome s room =
     (if room < rb_count s \<or> rb_write_end s = 0 then Returns else Suspends)"

definition write_outcome :: "PipeRingBuffer \<Rightarrow> u8 list \<Rightarrow> io" where
  "write_outcome s buf = (if length buf < 32 - rb_count s then Returns else Suspends)"

lemma available_read_zero: "rb_inv s \<Longrightarrow> available_read s = 0 \<longleftrightarrow> rb_count s = 0"
  by (metis unat_available_read unat_eq_zero)

lemma available_write_zero: "rb_inv s \<Longrightarrow> available_write s = 0 \<longleftrightarrow> rb_count s = 32"
  using unat_available_write [of s] rb_count_le [of s] unat_eq_zero [of "available_write s"] by auto

lemma read_loop_empty:
  assumes "rb_inv s" "rb_count s = 0"
  shows "read_loop s room buf = Some (if rb_write_end s = 0 then Returns else Suspends, s, room, buf)"
  using assms by (simp add: read_loop.simps [of s] read_iteration_def available_read_zero all_write_ends_closed_def)

lemma write_loop_full:
  assumes "rb_inv s" "rb_count s = 32"
  shows "write_loop s buf written = Some (Suspends, s, buf, written)"
  using assms by (simp add: write_loop.simps [of s] write_iteration_def available_write_zero)

lemma read_loop_spec:
  assumes "rb_inv s"
  shows "\<exists>s'. read_loop s room buf
      = Some (read_outcome s room, s', room - rb_count s, buf @ take room (rb_items s))
    \<and> rb_items s' = drop room (rb_items s) \<and> rb_inv s' \<and> rb_write_end s' = rb_write_end s"
proof (cases "rb_count s = 0")
  case True
  then have "rb_items s = []" by (simp add: rb_items_def)
  with True assms show ?thesis
    by (auto simp: read_loop_empty read_outcome_def)
next
  case False
  obtain s1 where s1: "read_for (rb_count s) s room buf
        = Some (if rb_count s \<le> room then Repeats else Returns, s1, room - rb_count s,
            buf @ take (min (rb_count s) room) (rb_items s))"
      "rb_items s1 = drop (min (rb_count s) room) (rb_items s)" "rb_inv s1" "rb_write_end s1 = rb_write_end s"
    using read_for_spec [OF assms order_refl] by blast
  have it: "read_iteration s room buf = read_for (rb_count s) s room buf"
    using False assms by (simp add: read_iteration_def available_read_zero unat_available_read)
  have tk: "take (min (rb_count s) room) (rb_items s) = take room (rb_items s)"
       "drop (min (rb_count s) room) (rb_items s) = drop room (rb_items s)"
    by (simp_all add: min_def)
  show ?thesis
  proof (cases "rb_count s \<le> room")
    case True
    then have "rb_count s1 = 0" using s1(2) length_rb_items [of s1] by simp
    from read_loop_empty [OF s1(3) this] True s1 show ?thesis
      by (auto simp: read_loop.simps [of s] it tk read_outcome_def)
  next
    case False
    with s1 show ?thesis
      by (auto simp: read_loop.simps [of s] it tk read_outcome_def)
  qed
qed

lemma write_loop_spec:
  assumes "rb_inv s"
  shows "\<exists>s'. write_loop s buf written
      = Some (write_outcome s buf, s', drop (32 - rb_count s) buf, written + min (32 - rb_count s) (length buf))
    \<and> rb_items s' = rb_items s @ take (32 - rb_count s) buf \<and> rb_inv s' \<and> rb_write_end s' = rb_write_end s"
proof (cases "rb_count s = 32")
  case True
  with assms show ?thesis by (auto simp: write_loop_full write_outcome_def)
next
  case False
  let ?n = "32 - rb_count s"
  have "?n + rb_count s \<le> 32" using rb_count_le [OF assms] by simp
  from write_for_spec [OF assms this] obtain s1 where s1: "write_for ?n s buf written
        = Some (if ?n \<le> length buf then Repeats else Returns, s1, drop ?n buf, written + min ?n (length buf))"
      "rb_items s1 = rb_items s @ take ?n buf" "rb_inv s1" "rb_write_end s1 = rb_write_end s"
    by blast
  have it: "write_iteration s buf written = write_for ?n s buf written"
    using False assms by (simp add: write_iteration_def available_write_zero unat_available_write)
  show ?thesis
  proof (cases "?n \<le> length buf")
    case True
    then have "rb_count s1 = 32"
      using s1(2) length_rb_items [of s1] rb_count_le [OF assms] by simp
    from write_loop_full [OF s1(3) this] True s1 show ?thesis
      by (auto simp: write_loop.simps [of s] it write_outcome_def)
  next
    case False
    with s1 show ?thesis
      by (auto simp: write_loop.simps [of s] it write_outcome_def)
  qed
qed


section \<open>Readers and writers\<close>

text \<open>
  The ends of a pipe are shared by all tasks that hold a descriptor of it, after \<^verbatim>\<open>fork\<close> or \<^verbatim>\<open>dup\<close>, so
  any number of tasks can be inside \<^verbatim>\<open>read\<close> and \<^verbatim>\<open>write\<close> at the same time. The kernel is not
  preempted: calls interleave only where one of them suspends. A state holds the buffer, for every task the
  call it is suspended in (with the local variables of its loop), the bytes delivered by its reads that returned
  and the bytes of all its write calls so far. The last two fields record, in the order of time, which
  task put each byte into the buffer and which took it out.
\<close>

datatype pipe_call = Reading nat "u8 list" | Writing "u8 list" nat

record pipe_sys =
  ps_buf :: PipeRingBuffer
  ps_calls :: "nat \<Rightarrow> pipe_call option"
  ps_got :: "nat \<Rightarrow> u8 list"
  ps_sent :: "nat \<Rightarrow> u8 list"
  ps_in :: "(nat \<times> u8) list"
  ps_out :: "(nat \<times> u8) list"

definition pipe_sys_init :: pipe_sys where
  "pipe_sys_init = \<lparr>ps_buf = set_write_end PipeRingBuffer_new 1, ps_calls = (\<lambda>_. None), ps_got = (\<lambda>_. []),
     ps_sent = (\<lambda>_. []), ps_in = [], ps_out = []\<rparr>"

text \<open>
  A run of the loop of task \<^term>\<open>t\<close> up to its return or suspension, with the bytes \<^term>\<open>had\<close> collected before, or the
  bytes \<^term>\<open>todo\<close> still to place.
\<close>

fun after_read :: "nat \<Rightarrow> u8 list \<Rightarrow> pipe_sys \<Rightarrow> io \<times> PipeRingBuffer \<times> nat \<times> u8 list \<Rightarrow> pipe_sys" where
  "after_read t had s (r, b, room, buf) =
     (let s = s\<lparr>ps_buf := b, ps_out := ps_out s @ map (Pair t) (drop (length had) buf)\<rparr> in
      if r = Returns then s\<lparr>ps_calls := (ps_calls s)(t := None), ps_got := (ps_got s)(t := ps_got s t @ buf)\<rparr>
      else s\<lparr>ps_calls := (ps_calls s)(t := Some (Reading room buf))\<rparr>)"

fun after_write :: "nat \<Rightarrow> u8 list \<Rightarrow> pipe_sys \<Rightarrow> io \<times> PipeRingBuffer \<times> u8 list \<times> nat \<Rightarrow> pipe_sys" where
  "after_write t todo s (r, b, rest, written) =
     (let s = s\<lparr>ps_buf := b, ps_in := ps_in s @ map (Pair t) (take (length todo - length rest) todo)\<rparr> in
      s\<lparr>ps_calls := (ps_calls s)(t := if r = Returns then None else Some (Writing rest written))\<rparr>)"

definition start_write :: "nat \<Rightarrow> u8 list \<Rightarrow> pipe_sys \<Rightarrow> pipe_sys" where
  "start_write t bs s = s\<lparr>ps_sent := (ps_sent s)(t := ps_sent s t @ bs)\<rparr>"

text \<open>
  A task calls \<^verbatim>\<open>read\<close> or \<^verbatim>\<open>write\<close> when it is not suspended in a call, and a suspended call goes on at the
  head of its loop whenever its task is run. The count of the write ends goes up and down with the descriptors
  (and calls) that hold one; once it is zero it stays zero.
\<close>

inductive pipe_step :: "pipe_sys \<Rightarrow> pipe_sys \<Rightarrow> bool" where
  call_read: "ps_calls s t = None \<Longrightarrow>
     Pipe_read (read_end_with_buffer i) (ps_buf s) len = Some res \<Longrightarrow> pipe_step s (after_read t [] s res)"
| resume_read: "ps_calls s t = Some (Reading room buf) \<Longrightarrow>
     read_loop (ps_buf s) room buf = Some res \<Longrightarrow> pipe_step s (after_read t buf s res)"
| call_write: "ps_calls s t = None \<Longrightarrow> rb_write_end (ps_buf s) > 0 \<Longrightarrow>
     Pipe_write (write_end_with_buffer i) (ps_buf s) bs = Some res \<Longrightarrow>
     pipe_step s (after_write t bs (start_write t bs s) res)"
| resume_write: "ps_calls s t = Some (Writing rest written) \<Longrightarrow>
     write_loop (ps_buf s) rest written = Some res \<Longrightarrow> pipe_step s (after_write t rest s res)"
| share_write: "rb_write_end (ps_buf s) > 0 \<Longrightarrow>
     pipe_step s (s\<lparr>ps_buf := set_write_end (ps_buf s) (rb_write_end (ps_buf s) + 1)\<rparr>)"
| close_write: "rb_write_end (ps_buf s) > 0 \<Longrightarrow>
     pipe_step s (s\<lparr>ps_buf := set_write_end (ps_buf s) (rb_write_end (ps_buf s) - 1)\<rparr>)"

inductive pipe_reach :: "pipe_sys \<Rightarrow> bool" where
  init: "pipe_reach pipe_sys_init"
| step: "pipe_reach s \<Longrightarrow> pipe_step s t \<Longrightarrow> pipe_reach t"

definition of_task :: "nat \<Rightarrow> (nat \<times> u8) list \<Rightarrow> u8 list" where
  "of_task t xs = map snd (filter (\<lambda>x. fst x = t) xs)"

definition collected :: "pipe_sys \<Rightarrow> nat \<Rightarrow> u8 list" where
  "collected s t = (case ps_calls s t of Some (Reading room buf) \<Rightarrow> buf | _ \<Rightarrow> [])"

definition pending :: "pipe_sys \<Rightarrow> nat \<Rightarrow> u8 list" where
  "pending s t = (case ps_calls s t of Some (Writing rest written) \<Rightarrow> rest | _ \<Rightarrow> [])"

definition pipe_inv :: "pipe_sys \<Rightarrow> bool" where
  "pipe_inv s \<longleftrightarrow> rb_inv (ps_buf s) \<and> map snd (ps_in s) = map snd (ps_out s) @ rb_items (ps_buf s)
     \<and> (\<forall>t. ps_sent s t = of_task t (ps_in s) @ pending s t) \<and> (\<forall>t. of_task t (ps_out s) = ps_got s t @ collected s t)"

lemma of_task_append [simp]:
  "of_task t [] = []" "of_task t (xs @ ys) = of_task t xs @ of_task t ys" "of_task t (map (Pair u) bs) = (if u = t then bs else [])"
  by (induction bs) (auto simp: of_task_def)

lemma map_snd_tagged [simp]: "map (snd \<circ> Pair t) bs = bs"
  by (induction bs) simp_all

lemma rb_inv_new: "rb_inv PipeRingBuffer_new"
  by (simp add: rb_inv_def PipeRingBuffer_new_def RING_BUFFER_SIZE_def)

lemma rb_items_new: "rb_items PipeRingBuffer_new = []"
  by (simp add: rb_items_def rb_count_def PipeRingBuffer_new_def)

lemma rb_set_write_end [simp]:
  "rb_inv (set_write_end s n) = rb_inv s" "rb_items (set_write_end s n) = rb_items s"
  by (simp_all add: rb_inv_def rb_items_def rb_count_def set_write_end_def)

lemma after_read_inv:
  assumes inv: "pipe_inv s" and loop: "read_loop (ps_buf s) room had = Some res"
    and had: "had = collected s t" and free: "pending s t = []"
  shows "pipe_inv (after_read t had s res)"
proof -
  have "rb_inv (ps_buf s)" using inv by (simp add: pipe_inv_def)
  from read_loop_spec [OF this, of room had] loop obtain b where
    res: "res = (read_outcome (ps_buf s) room, b, room - rb_count (ps_buf s), had @ take room (rb_items (ps_buf s)))"
    and b: "rb_items b = drop room (rb_items (ps_buf s))" "rb_inv b"
    by auto
  show ?thesis
    using inv b had free by (auto simp: res pipe_inv_def collected_def pending_def Let_def)
qed

lemma after_write_inv:
  assumes inv: "rb_inv (ps_buf s)" "map snd (ps_in s) = map snd (ps_out s) @ rb_items (ps_buf s)"
      "\<forall>u. of_task u (ps_out s) = ps_got s u @ collected s u" "\<forall>u. u \<noteq> t \<longrightarrow> ps_sent s u = of_task u (ps_in s) @ pending s u"
    and loop: "write_loop (ps_buf s) todo written = Some res"
    and todo: "ps_sent s t = of_task t (ps_in s) @ todo" and free: "collected s t = []"
  shows "pipe_inv (after_write t todo s res)"
proof -
  let ?n = "32 - rb_count (ps_buf s)"
  from write_loop_spec [OF inv(1), of todo written] loop obtain b where
    res: "res = (write_outcome (ps_buf s) todo, b, drop ?n todo, written + min ?n (length todo))"
    and b: "rb_items b = rb_items (ps_buf s) @ take ?n todo" "rb_inv b"
    by auto
  have placed: "take (length todo - (length todo - ?n)) todo = take ?n todo" by (cases "?n \<le> length todo") simp_all
  have all: "take ?n todo = todo" if "write_outcome (ps_buf s) todo = Returns" using that by (auto simp: write_outcome_def split: if_splits)
  show ?thesis
    using inv b todo free all by (auto simp: res placed pipe_inv_def collected_def pending_def Let_def)
qed

lemma pipe_step_inv: "pipe_step s s' \<Longrightarrow> pipe_inv s \<Longrightarrow> pipe_inv s'"
proof (induction rule: pipe_step.induct)
  case (call_read s t i len res)
  then show ?case
    by (intro after_read_inv) (auto simp: Pipe_read_def read_end_with_buffer_def collected_def pending_def)
next
  case (resume_read s t room buf res)
  then show ?case by (intro after_read_inv) (auto simp: collected_def pending_def)
next
  case (call_write s t i bs res)
  then show ?case
    by (intro after_write_inv) (auto simp: Pipe_write_def write_end_with_buffer_def start_write_def pipe_inv_def collected_def pending_def)
next
  case (resume_write s t rest written res)
  then show ?case
    by (intro after_write_inv) (auto simp: pipe_inv_def collected_def pending_def)
qed (simp_all add: pipe_inv_def collected_def pending_def)

lemma pipe_reach_inv: "pipe_reach s \<Longrightarrow> pipe_inv s"
proof (induction rule: pipe_reach.induct)
  case init
  show ?case
    using rb_inv_new rb_items_new by (simp add: pipe_inv_def pipe_sys_init_def collected_def pending_def)
next
  case (step s t)
  then show ?case by (blast intro: pipe_step_inv)
qed

section \<open>Properties\<close>

text \<open>
  Property C12. In every interleaving of the reads and writes of any number of tasks on one pipe, suspended calls
  included: the bytes put into the buffer, in order, are the bytes taken out, in order, followed by the at most 32
  bytes in the buffer. For every task, the bytes it put in, followed by those its suspended write still has to place,
  are the bytes of its write calls, in order; the bytes it took out are those its reads returned, followed by
  those its suspended read has collected. So the pipe loses, duplicates and reorders nothing.
\<close>

theorem pipe_stream_exact:
  assumes "pipe_reach s"
  shows "map snd (ps_in s) = map snd (ps_out s) @ rb_items (ps_buf s) \<and> length (rb_items (ps_buf s)) \<le> 32
    \<and> (\<forall>t. ps_sent s t = of_task t (ps_in s) @ pending s t) \<and> (\<forall>t. of_task t (ps_out s) = ps_got s t @ collected s t)"
  using pipe_reach_inv [OF assms] ring.bounded by (auto simp: pipe_inv_def)

text \<open>
  Two readers wait on an empty pipe, two writers write, and the second reader is run before the first.
\<close>

definition read_by :: "nat \<Rightarrow> nat \<Rightarrow> pipe_sys \<Rightarrow> pipe_sys" where
  "read_by t len s = after_read t [] s (the (Pipe_read (read_end_with_buffer 0) (ps_buf s) len))"

definition write_by :: "nat \<Rightarrow> u8 list \<Rightarrow> pipe_sys \<Rightarrow> pipe_sys" where
  "write_by t bs s = after_write t bs (start_write t bs s) (the (Pipe_write (write_end_with_buffer 0) (ps_buf s) bs))"

definition run_reader :: "nat \<Rightarrow> nat \<Rightarrow> pipe_sys \<Rightarrow> pipe_sys" where
  "run_reader t room s = after_read t [] s (the (read_loop (ps_buf s) room []))"

definition pipe_example :: pipe_sys where
  "pipe_example = run_reader 2 1 (run_reader 3 1 (write_by 1 [2, 3] (write_by 0 [1] (read_by 3 1 (read_by 2 1 pipe_sys_init)))))"

lemma example_steps:
  "pipe_reach s \<Longrightarrow> ps_calls s t = None \<Longrightarrow> Pipe_read (read_end_with_buffer 0) (ps_buf s) len \<noteq> None \<Longrightarrow> pipe_reach (read_by t len s)"
  "pipe_reach s \<Longrightarrow> ps_calls s t = None \<Longrightarrow> rb_write_end (ps_buf s) > 0 \<Longrightarrow>
     Pipe_write (write_end_with_buffer 0) (ps_buf s) bs \<noteq> None \<Longrightarrow> pipe_reach (write_by t bs s)"
  "pipe_reach s \<Longrightarrow> ps_calls s t = Some (Reading room []) \<Longrightarrow> read_loop (ps_buf s) room [] \<noteq> None \<Longrightarrow> pipe_reach (run_reader t room s)"
  unfolding read_by_def write_by_def run_reader_def by (blast intro: pipe_reach.step pipe_step.intros option.collapse [symmetric])+

lemma pipe_example_reach: "pipe_reach pipe_example"
  unfolding pipe_example_def by (intro example_steps pipe_reach.init; code_simp)

theorem pipe_stream_exact_witness:
  "pipe_reach pipe_example \<and> ps_got pipe_example 3 = [1] \<and> ps_got pipe_example 2 = [2] \<and> ps_sent pipe_example 1 = [2, 3]
   \<and> map snd (ps_in pipe_example) = map snd (ps_out pipe_example) @ [3]
   \<and> ps_sent pipe_example 1 = of_task 1 (ps_in pipe_example) @ pending pipe_example 1"
proof -
  have "ps_got pipe_example 3 = [1]" "ps_got pipe_example 2 = [2]" "ps_sent pipe_example 1 = [2, 3]"
    "rb_items (ps_buf pipe_example) = [3]" by code_simp+
  with pipe_stream_exact [OF pipe_example_reach] pipe_example_reach show ?thesis by simp
qed

text \<open>
  Property C13. What \<^verbatim>\<open>Pipe::read\<close> does on every branch: a read end with \<^term>\<open>len\<close> bytes of room takes the
  first \<^term>\<open>len\<close> buffered bytes; the call returns when more than \<^term>\<open>len\<close> bytes were buffered or
  every write end is closed, and suspends otherwise, also when exactly \<^term>\<open>len\<close> bytes were there.
\<close>

theorem Pipe_read_behaviour:
  assumes "rb_inv s" "pipe_readable p"
  shows "\<exists>s'. Pipe_read p s len
      = Some (if len < length (rb_items s) \<or> rb_write_end s = 0 then Returns else Suspends,
          s', len - length (rb_items s), take len (rb_items s))
    \<and> rb_items s' = drop len (rb_items s) \<and> rb_inv s'"
  using read_loop_spec [OF assms(1), of len "[]"] assms(2)
  by (auto simp: Pipe_read_def read_outcome_def)

theorem Pipe_read_behaviour_witness:
  "\<exists>s'. Pipe_read (read_end_with_buffer 0) (ps_buf pipe_example) 1 = Some (Suspends, s', 0, [3])
     \<and> rb_items s' = [] \<and> rb_inv s'"
proof -
  have "rb_items (ps_buf pipe_example) = [3]" "rb_write_end (ps_buf pipe_example) = 1"
    "rb_inv (ps_buf pipe_example)" "pipe_readable (read_end_with_buffer 0)" by code_simp+
  with Pipe_read_behaviour [of "ps_buf pipe_example" "read_end_with_buffer 0" 1] show ?thesis by simp
qed

text \<open>
  Property C14. What \<^verbatim>\<open>Pipe::write\<close> does on every branch: the bytes that fit are appended in order; the call
  returns only when the buffer has a free byte left after the last one, and suspends with the
  rest otherwise.
\<close>

theorem Pipe_write_behaviour:
  assumes "rb_inv s" "pipe_writable p"
  shows "\<exists>s'. Pipe_write p s buf
      = Some (if length buf < 32 - length (rb_items s) then Returns else Suspends,
          s', drop (32 - length (rb_items s)) buf, min (32 - length (rb_items s)) (length buf))
    \<and> rb_items s' = rb_items s @ take (32 - length (rb_items s)) buf \<and> rb_inv s'"
  using write_loop_spec [OF assms(1), of buf 0] assms(2)
  by (auto simp: Pipe_write_def write_outcome_def)

theorem Pipe_write_behaviour_witness:
  "\<exists>s'. Pipe_write (write_end_with_buffer 0) (ps_buf pipe_example) [4, 5] = Some (Returns, s', [], 2)
     \<and> rb_items s' = [3, 4, 5] \<and> rb_inv s'"
proof -
  have "rb_items (ps_buf pipe_example) = [3]"
    "rb_inv (ps_buf pipe_example)" "pipe_writable (write_end_with_buffer 0)" by code_simp+
  with Pipe_write_behaviour [of "ps_buf pipe_example" "write_end_with_buffer 0" "[4, 5]"]
  show ?thesis by (simp add: numeral_2_eq_2)
qed

end
