(* ===== verification/Block_Cache.thy ===== *)
theory Block_Cache
  imports File_Types
begin

text \<open>
  The block layer: the block device (\<^verbatim>\<open>drivers/src/virtio.rs\<close>, \<^verbatim>\<open>block/block_device.rs\<close>) and the
  write-back cache of 16 blocks in front of it (\<^verbatim>\<open>drivers/src/block/block_cache.rs\<close>).

  The virtio driver is a third-party library. Its two operations are the fields of
  \<^verbatim>\<open>VirtIOBlk\<close>, over a type of device states that stays abstract; \<^verbatim>\<open>device_ok\<close> is what the
  cache relies on. Main result: seen through the cache, the device is an array of blocks that
  look-ups, evictions and write-backs leave unchanged.
\<close>

section \<open>The block device\<close>

record 'd VirtIOBlk =
  blk_read_block :: "'d \<Rightarrow> usize \<Rightarrow> u8 list \<Rightarrow> i32 + u8 list"
  blk_write_block :: "'d \<Rightarrow> usize \<Rightarrow> u8 list \<Rightarrow> i32 + 'd"

definition VirtIOBlock_read_block :: "'d VirtIOBlk \<Rightarrow> 'd \<Rightarrow> u64 \<Rightarrow> u8 list \<Rightarrow> u8 list option" where
  "VirtIOBlock_read_block dev d block_id buf = unwrap_result (blk_read_block dev d block_id buf)"

definition VirtIOBlock_write_block :: "'d VirtIOBlk \<Rightarrow> 'd \<Rightarrow> u64 \<Rightarrow> u8 list \<Rightarrow> 'd option" where
  "VirtIOBlock_write_block dev d block_id buf = unwrap_result (blk_write_block dev d block_id buf)"

text \<open>The content of a block of the device: what a read into a fresh buffer yields.\<close>

definition disk_block :: "'d VirtIOBlk \<Rightarrow> 'd \<Rightarrow> u64 \<Rightarrow> u8 list" where
  "disk_block dev d b = (case blk_read_block dev d b (replicate 512 0) of Inl _ \<Rightarrow> [] | Inr c \<Rightarrow> c)"

text \<open>
  The contract of a device with \<^term>\<open>cap\<close> blocks: on a block number below \<^term>\<open>cap\<close> and a buffer of
  one block, a read succeeds and fills the buffer, a write succeeds and replaces that block.
\<close>

definition device_ok :: "'d VirtIOBlk \<Rightarrow> u64 \<Rightarrow> bool" where
  "device_ok dev cap \<longleftrightarrow>
     (\<forall>d b. b < cap \<longrightarrow> (\<exists>out. blk_read_block dev d b (replicate 512 0) = Inr out \<and> length out = 512))
   \<and> (\<forall>d b buf. b < cap \<longrightarrow> length buf = 512 \<longrightarrow>
       (\<exists>d'. blk_write_block dev d b buf = Inr d'
         \<and> (\<forall>b'<cap. disk_block dev d' b' = (if b' = b then buf else disk_block dev d b'))))"

lemma device_read:
  "device_ok dev cap \<Longrightarrow> b < cap \<Longrightarrow>
     VirtIOBlock_read_block dev d b (replicate 512 0) = Some (disk_block dev d b)
   \<and> length (disk_block dev d b) = 512"
  by (auto simp: device_ok_def VirtIOBlock_read_block_def disk_block_def split: sum.splits)
     (metis sum.distinct(1), metis sum.sel(2))

lemma device_write:
  assumes "device_ok dev cap" "b < cap" "length buf = 512"
  obtains d' where "VirtIOBlock_write_block dev d b buf = Some d'"
    and "\<And>b'. b' < cap \<Longrightarrow> disk_block dev d' b' = (if b' = b then buf else disk_block dev d b')"
  using assms unfolding device_ok_def VirtIOBlock_write_block_def by (metis unwrap_result_simps(2))

section \<open>One cached block\<close>

record 'd BlockCache =
  bc_cache :: "u8 list"
  bc_block_id :: u64
  bc_block_device :: "'d VirtIOBlk"
  bc_modified :: bool

definition BlockCache_new :: "u64 \<Rightarrow> 'd VirtIOBlk \<Rightarrow> 'd \<Rightarrow> 'd BlockCache option" where
  "BlockCache_new block_id block_device d = do {
     cache \<leftarrow> VirtIOBlock_read_block block_device d block_id (replicate (unat BLOCK_SIZE) 0);
     Some \<lparr>bc_cache = cache, bc_block_id = block_id, bc_block_device = block_device,
       bc_modified = False\<rparr> }"

text \<open>
  A typed view of the bytes at an offset, shared or mutable; a \<^verbatim>\<open>T\<close> is the bytes it occupies.
  The mutable view is modelled with the function \<^term>\<open>f\<close> the caller applies through it.
\<close>

definition BlockCache_as_ref :: "'d BlockCache \<Rightarrow> usize \<Rightarrow> usize \<Rightarrow> u8 list option" where
  "BlockCache_as_ref self offset type_size = do {
     rust_assert (offset + type_size \<le> ucast BLOCK_SIZE);
     slice_get (bc_cache self) (unat offset);
     Some (take (unat type_size) (drop (unat offset) (bc_cache self))) }"

definition BlockCache_as_mut :: "'d BlockCache \<Rightarrow> usize \<Rightarrow> usize \<Rightarrow> (u8 list \<Rightarrow> u8 list) \<Rightarrow> 'd BlockCache option" where
  "BlockCache_as_mut self offset type_size f = do {
     rust_assert (offset + type_size \<le> ucast BLOCK_SIZE);
     slice_get (bc_cache self) (unat offset);
     Some (self\<lparr>bc_modified := True,
       bc_cache := overwrite (bc_cache self) (unat offset)
         (f (take (unat type_size) (drop (unat offset) (bc_cache self))))\<rparr>) }"

definition BlockCache_read :: "'d BlockCache \<Rightarrow> u32 \<Rightarrow> u8 list \<Rightarrow> (u32 \<times> u8 list) option" where
  "BlockCache_read self offset buf = do {
     rust_assert (offset < BLOCK_SIZE);
     let nread = min (BLOCK_SIZE - offset) (word_of_nat (length buf));
     Some (nread, overwrite buf 0 (take (unat nread) (drop (unat offset) (bc_cache self)))) }"

definition BlockCache_write :: "'d BlockCache \<Rightarrow> u32 \<Rightarrow> u8 list \<Rightarrow> (u32 \<times> 'd BlockCache) option" where
  "BlockCache_write self offset buf = do {
     rust_assert (offset < BLOCK_SIZE);
     let self = (if buf \<noteq> [] then self\<lparr>bc_modified := True\<rparr> else self);
     let nwrite = min (BLOCK_SIZE - offset) (word_of_nat (length buf));
     Some (nwrite, self\<lparr>bc_cache := overwrite (bc_cache self) (unat offset) (take (unat nwrite) buf)\<rparr>) }"

definition BlockCache_sync :: "'d BlockCache \<Rightarrow> 'd \<Rightarrow> ('d BlockCache \<times> 'd) option" where
  "BlockCache_sync self d =
     (if bc_modified self then do {
        d' \<leftarrow> VirtIOBlock_write_block (bc_block_device self) d (bc_block_id self) (bc_cache self);
        Some (self\<lparr>bc_modified := False\<rparr>, d') }
      else Some (self, d))"

text \<open>\<^verbatim>\<open>Drop\<close>: the last owner writes the block back.\<close>

definition BlockCache_drop :: "'d BlockCache \<Rightarrow> 'd \<Rightarrow> 'd option" where
  "BlockCache_drop self d = map_option snd (BlockCache_sync self d)"

section \<open>The cache manager\<close>

definition BLOCK_CACHE_SIZE :: nat where "BLOCK_CACHE_SIZE = 16"

text \<open>
  A queue entry is the block number, the cached block behind the \<^verbatim>\<open>Arc\<close>, and the number of
  handles to that \<^verbatim>\<open>Arc\<close> held outside the queue, one less than \<^verbatim>\<open>Arc::strong_count\<close>. An entry
  with handles is never evicted and block numbers in the queue are distinct, so the block
  number names the \<^verbatim>\<open>Arc\<close>. The state pairs the manager with the state of the device.
\<close>

type_synonym 'd cache_entry = "u64 \<times> 'd BlockCache \<times> nat"

record 'd block_sys =
  bs_queue :: "'d cache_entry list"
  bs_disk :: 'd

fun find_entry :: "u64 \<Rightarrow> 'd cache_entry list \<Rightarrow> ('d BlockCache \<times> nat) option" where
  "find_entry b [] = None"
| "find_entry b ((b', c, h) # q) = (if b' = b then Some (c, h) else find_entry b q)"

fun update_entry :: "u64 \<Rightarrow> 'd BlockCache \<times> nat \<Rightarrow> 'd cache_entry list \<Rightarrow> 'd cache_entry list" where
  "update_entry b e [] = []"
| "update_entry b e ((b', c, h) # q) =
     (if b' = b then (b, e) # q else (b', c, h) # update_entry b e q)"

fun evict_first :: "'d cache_entry list \<Rightarrow> ('d BlockCache \<times> 'd cache_entry list) option" where
  "evict_first [] = None"
| "evict_first ((b, c, h) # q) =
     (if h = 0 then Some (c, q)
      else do { (c', q') \<leftarrow> evict_first q; Some (c', (b, c, h) # q') })"

definition BlockCacheManager_get_block_cache :: "'d block_sys \<Rightarrow> u64 \<Rightarrow> 'd VirtIOBlk \<Rightarrow> 'd block_sys option" where
  "BlockCacheManager_get_block_cache s block_id block_device =
     (case find_entry block_id (bs_queue s) of
        Some (c, h) \<Rightarrow> Some (s\<lparr>bs_queue := update_entry block_id (c, h + 1) (bs_queue s)\<rparr>)
      | None \<Rightarrow> do {
          s \<leftarrow> (if length (bs_queue s) = BLOCK_CACHE_SIZE then do {
                  (victim, queue) \<leftarrow> evict_first (bs_queue s);
                  d \<leftarrow> BlockCache_drop victim (bs_disk s);
                  Some (s\<lparr>bs_queue := queue, bs_disk := d\<rparr>) }
                else Some s);
          block_cache \<leftarrow> BlockCache_new block_id block_device (bs_disk s);
          Some (s\<lparr>bs_queue := bs_queue s @ [(block_id, block_cache, 1)]\<rparr>) })"

definition get_block_cache :: "'d block_sys \<Rightarrow> u64 \<Rightarrow> 'd VirtIOBlk \<Rightarrow> 'd block_sys option" where
  "get_block_cache = BlockCacheManager_get_block_cache"

text \<open>The end of the statement that used a handle drops it.\<close>

definition drop_handle :: "'d block_sys \<Rightarrow> u64 \<Rightarrow> 'd block_sys" where
  "drop_handle s block_id =
     (case find_entry block_id (bs_queue s) of
        Some (c, h) \<Rightarrow> s\<lparr>bs_queue := update_entry block_id (c, h - 1) (bs_queue s)\<rparr>
      | None \<Rightarrow> s)"

fun sync_queue :: "'d cache_entry list \<Rightarrow> 'd \<Rightarrow> ('d cache_entry list \<times> 'd) option" where
  "sync_queue [] d = Some ([], d)"
| "sync_queue ((b, c, h) # q) d = do {
     (c', d') \<leftarrow> BlockCache_sync c d;
     (q', d'') \<leftarrow> sync_queue q d';
     Some ((b, c', h) # q', d'') }"

definition block_cache_sync_all :: "'d block_sys \<Rightarrow> 'd block_sys option" where
  "block_cache_sync_all s = do {
     (queue, d) \<leftarrow> sync_queue (bs_queue s) (bs_disk s);
     Some \<lparr>bs_queue = queue, bs_disk = d\<rparr> }"


section \<open>The device seen through the cache\<close>

definition entry_ok :: "'d VirtIOBlk \<Rightarrow> u64 \<Rightarrow> 'd \<Rightarrow> 'd cache_entry \<Rightarrow> bool" where
  "entry_ok dev cap d e =
     (case e of (b, c, h) \<Rightarrow> bc_block_id c = b \<and> bc_block_device c = dev \<and> length (bc_cache c) = 512
        \<and> b < cap \<and> (bc_modified c \<or> bc_cache c = disk_block dev d b))"

definition cache_inv :: "'d VirtIOBlk \<Rightarrow> u64 \<Rightarrow> 'd block_sys \<Rightarrow> bool" where
  "cache_inv dev cap s \<longleftrightarrow> device_ok dev cap \<and> distinct (map fst (bs_queue s))
     \<and> length (bs_queue s) \<le> BLOCK_CACHE_SIZE \<and> (\<forall>e \<in> set (bs_queue s). entry_ok dev cap (bs_disk s) e)"

definition logical :: "'d VirtIOBlk \<Rightarrow> 'd block_sys \<Rightarrow> u64 \<Rightarrow> u8 list" where
  "logical dev s b =
     (case find_entry b (bs_queue s) of Some (c, _) \<Rightarrow> bc_cache c | None \<Rightarrow> disk_block dev (bs_disk s) b)"

definition handles :: "'d block_sys \<Rightarrow> u64 \<Rightarrow> nat" where
  "handles s b = (case find_entry b (bs_queue s) of Some (_, h) \<Rightarrow> h | None \<Rightarrow> 0)"

lemma find_entry_map_of [simp]: "find_entry b q = map_of q b"
  by (induction b q rule: find_entry.induct) auto

lemma logical_upd:
  "map_of (bs_queue t) = (map_of (bs_queue s))(b \<mapsto> (c, h)) \<Longrightarrow> bs_disk t = bs_disk s \<Longrightarrow>
     logical dev t x = (if x = b then bc_cache c else logical dev s x)"
  by (simp add: logical_def split: option.split)

lemma handles_upd:
  "map_of (bs_queue t) = (map_of (bs_queue s))(b \<mapsto> (c, h)) \<Longrightarrow>
     handles t x = (if x = b then h else handles s x)"
  by (simp add: handles_def)

lemma map_fst_update_entry [simp]: "map fst (update_entry b e q) = map fst q"
  by (induction b e q rule: update_entry.induct) auto

lemma length_update_entry [simp]: "length (update_entry b e q) = length q"
  by (induction b e q rule: update_entry.induct) auto

lemma map_of_update_entry:
  "map_of q b = Some x \<Longrightarrow> map_of (update_entry b e q) = (map_of q)(b \<mapsto> e)"
  by (induction b e q rule: update_entry.induct) (auto simp: fun_eq_iff)

lemma set_update_entry: "set (update_entry b e q) \<subseteq> insert (b, e) (set q)"
  by (induction b e q rule: update_entry.induct) auto

lemma evict_first_Some:
  "evict_first q = Some (c, q') \<Longrightarrow> \<exists>q1 b q2. q = q1 @ (b, c, 0) # q2 \<and> q' = q1 @ q2"
proof (induction q arbitrary: c q' rule: evict_first.induct)
  case (2 b c0 h q)
  show ?case
  proof (cases "h = 0")
    case True
    with 2 show ?thesis by (auto intro: exI [of _ "[]"])
  next
    case False
    with "2.prems" obtain r where r: "evict_first q = Some (c, r)" "q' = (b, c0, h) # r"
      by (auto simp: bind_eq_Some_conv)
    from "2.IH" [OF False r(1)] obtain q1 b1 q2 where "q = q1 @ (b1, c, 0) # q2" "r = q1 @ q2"
      by blast
    with r(2) have "(b, c0, h) # q = ((b, c0, h) # q1) @ (b1, c, 0) # q2" "q' = ((b, c0, h) # q1) @ q2"
      by simp_all
    then show ?thesis by blast
  qed
qed simp

lemma evict_first_total: "\<exists>e \<in> set q. snd (snd e) = 0 \<Longrightarrow> evict_first q \<noteq> None"
proof (induction q rule: evict_first.induct)
  case (2 b c h q)
  then show ?case by (cases "h = 0") (fastforce simp: bind_eq_Some_conv)+
qed simp

lemma cache_inv_logical_length:
  "cache_inv dev cap s \<Longrightarrow> b < cap \<Longrightarrow> length (logical dev s b) = 512"
  using device_read [of dev cap b "bs_disk s"]
  by (auto simp: cache_inv_def logical_def entry_ok_def split: option.splits dest!: map_of_SomeD)

lemma BlockCache_sync_spec:
  assumes "device_ok dev cap" "entry_ok dev cap d (b, c, h)"
  obtains d' where "BlockCache_sync c d = Some (c\<lparr>bc_modified := False\<rparr>, d')"
    and "\<And>b'. b' < cap \<Longrightarrow> disk_block dev d' b' = (if b' = b then bc_cache c else disk_block dev d b')"
proof (cases "bc_modified c")
  case True
  have "b < cap" "length (bc_cache c) = 512" using assms(2) by (simp_all add: entry_ok_def)
  from device_write [OF assms(1) this, of d] obtain d' where
    "VirtIOBlock_write_block dev d b (bc_cache c) = Some d'"
    "\<And>b'. b' < cap \<Longrightarrow> disk_block dev d' b' = (if b' = b then bc_cache c else disk_block dev d b')"
    by blast
  with True assms(2) that show ?thesis by (simp add: BlockCache_sync_def entry_ok_def)
next
  case False
  with assms(2) that [of d] show ?thesis by (auto simp: BlockCache_sync_def entry_ok_def)
qed

lemma cache_inv_get_hit:
  assumes inv: "cache_inv dev cap s" and hit: "map_of (bs_queue s) b = Some (c, h)"
  shows "cache_inv dev cap (s\<lparr>bs_queue := update_entry b (c, k) (bs_queue s)\<rparr>)"
proof -
  have "(b, c, h) \<in> set (bs_queue s)" using hit by (rule map_of_SomeD)
  then have "entry_ok dev cap (bs_disk s) (b, c, k)"
    using inv by (auto simp: cache_inv_def entry_ok_def)
  then show ?thesis
    using inv set_update_entry [of b "(c, k)" "bs_queue s"] by (auto simp: cache_inv_def)
qed

text \<open>Evicting an entry nobody holds keeps the invariant and the logical content.\<close>

lemma evict_spec:
  assumes inv: "cache_inv dev cap s" and idle: "\<exists>e \<in> set (bs_queue s). snd (snd e) = 0"
  obtains victim queue d s' where
    "evict_first (bs_queue s) = Some (victim, queue)" "BlockCache_drop victim (bs_disk s) = Some d"
    and "s' = s\<lparr>bs_queue := queue, bs_disk := d\<rparr>" "cache_inv dev cap s'"
    and "length (bs_queue s') < length (bs_queue s)"
    and "\<And>b. b < cap \<Longrightarrow> logical dev s' b = logical dev s b"
    and "\<And>b. handles s' b = handles s b"
    and "\<And>b. map_of (bs_queue s) b = None \<Longrightarrow> map_of (bs_queue s') b = None"
proof -
  from evict_first_total [OF idle] obtain c q where ev: "evict_first (bs_queue s) = Some (c, q)"
    by auto
  from evict_first_Some [OF this] obtain q1 b q2 where
    q: "bs_queue s = q1 @ (b, c, 0) # q2" "q = q1 @ q2" by blast
  have ok: "device_ok dev cap" "entry_ok dev cap (bs_disk s) (b, c, 0)"
    and dist: "distinct (map fst (bs_queue s))"
    using inv by (auto simp: cache_inv_def q)
  from BlockCache_sync_spec [OF ok] obtain d where
    sync: "BlockCache_sync c (bs_disk s) = Some (c\<lparr>bc_modified := False\<rparr>, d)"
    and d: "\<And>b'. b' < cap \<Longrightarrow> disk_block dev d b' = (if b' = b then bc_cache c else disk_block dev (bs_disk s) b')"
    by blast
  have look: "map_of q x = (if x = b then None else map_of (bs_queue s) x)" for x
    using dist by (auto simp: q map_add_def image_iff map_of_eq_None_iff split: option.splits)
  have victim: "map_of (bs_queue s) b = Some (c, 0)"
    using dist by (intro map_of_is_SomeI) (simp_all add: q)
  let ?s = "s\<lparr>bs_queue := q, bs_disk := d\<rparr>"
  have "entry_ok dev cap d e" if "e \<in> set q" for e
  proof -
    have "entry_ok dev cap (bs_disk s) e" "fst e \<noteq> b"
      using that inv dist by (auto simp: cache_inv_def q image_iff)
    then show ?thesis using d by (auto simp: entry_ok_def split: prod.splits)
  qed
  then have "cache_inv dev cap ?s"
    using inv by (auto simp: cache_inv_def q)
  moreover have "logical dev ?s x = logical dev s x" if "x < cap" for x
    using that d by (simp add: logical_def look victim split: option.split)
  moreover have "handles ?s x = handles s x" for x
    by (simp add: handles_def look victim)
  moreover have "BlockCache_drop c (bs_disk s) = Some d" using sync by (simp add: BlockCache_drop_def)
  moreover have "length (bs_queue ?s) < length (bs_queue s)" by (simp add: q)
  moreover have "map_of (bs_queue s) x = None \<Longrightarrow> map_of (bs_queue ?s) x = None" for x
    by (simp add: look)
  ultimately show ?thesis using that [OF ev _ refl] by blast
qed

lemma load_spec:
  assumes inv: "cache_inv dev cap s" and b: "b < cap" "map_of (bs_queue s) b = None"
    and room: "length (bs_queue s) < BLOCK_CACHE_SIZE"
  obtains c where "BlockCache_new b dev (bs_disk s) = Some c" "bc_cache c = logical dev s b"
    and "cache_inv dev cap (s\<lparr>bs_queue := bs_queue s @ [(b, c, Suc 0)]\<rparr>)"
proof -
  let ?c = "\<lparr>bc_cache = disk_block dev (bs_disk s) b, bc_block_id = b, bc_block_device = dev, bc_modified = False\<rparr>"
  have dev: "device_ok dev cap" using inv by (simp add: cache_inv_def)
  note rd = device_read [OF dev b(1), of "bs_disk s"]
  show ?thesis
  proof (rule that [of ?c])
    show "BlockCache_new b dev (bs_disk s) = Some ?c"
      using rd by (simp add: BlockCache_new_def BLOCK_SIZE_def)
    show "bc_cache ?c = logical dev s b" using b by (simp add: logical_def)
    show "cache_inv dev cap (s\<lparr>bs_queue := bs_queue s @ [(b, ?c, Suc 0)]\<rparr>)"
      using inv b room rd by (auto simp: cache_inv_def entry_ok_def map_of_eq_None_iff image_iff)
  qed
qed

text \<open>
  \<^verbatim>\<open>get_block_cache\<close>: unless all 16 blocks are in use, the block is cached afterwards, one more
  handle to it exists, and no block changed its logical content.
\<close>

lemma get_block_cache_spec:
  assumes inv: "cache_inv dev cap s" and b: "b < cap"
    and room: "length (bs_queue s) = BLOCK_CACHE_SIZE \<Longrightarrow> map_of (bs_queue s) b = None \<Longrightarrow>
      \<exists>e \<in> set (bs_queue s). snd (snd e) = 0"
  obtains s' c where "get_block_cache s b dev = Some s'" "cache_inv dev cap s'"
    and "map_of (bs_queue s') b = Some (c, handles s b + 1)" "bc_cache c = logical dev s b"
    and "\<And>b'. b' < cap \<Longrightarrow> logical dev s' b' = logical dev s b'"
    and "handles s' = (handles s)(b := handles s b + 1)"
proof (cases "map_of (bs_queue s) b")
  case (Some e)
  then obtain c h where e: "map_of (bs_queue s) b = Some (c, h)" by (cases e) auto
  let ?s = "s\<lparr>bs_queue := update_entry b (c, Suc h) (bs_queue s)\<rparr>"
  have look: "map_of (bs_queue ?s) = (map_of (bs_queue s))(b \<mapsto> (c, Suc h))"
    using e by (simp add: map_of_update_entry)
  show ?thesis
  proof (rule that [of ?s c])
    show "get_block_cache s b dev = Some ?s"
      using e by (simp add: get_block_cache_def BlockCacheManager_get_block_cache_def)
    show "logical dev ?s x = logical dev s x" for x
      using e by (simp add: logical_upd [OF look]) (simp add: logical_def)
    show "handles ?s = (handles s)(b := handles s b + 1)"
      using e by (simp add: fun_eq_iff handles_upd [OF look]) (simp add: handles_def)
  qed (use e look cache_inv_get_hit [OF inv e] in \<open>simp_all add: handles_def logical_def\<close>)
next
  case None
  have "\<exists>s1. (if length (bs_queue s) = BLOCK_CACHE_SIZE then do {
                  (victim, queue) \<leftarrow> evict_first (bs_queue s);
                  d \<leftarrow> BlockCache_drop victim (bs_disk s);
                  Some (s\<lparr>bs_queue := queue, bs_disk := d\<rparr>) }
                else Some s) = Some s1
      \<and> cache_inv dev cap s1 \<and> length (bs_queue s1) < BLOCK_CACHE_SIZE \<and> map_of (bs_queue s1) b = None
      \<and> (\<forall>x<cap. logical dev s1 x = logical dev s x) \<and> (\<forall>x. handles s1 x = handles s x)"
  proof (cases "length (bs_queue s) = BLOCK_CACHE_SIZE")
    case True
    obtain victim queue d s1 where ev: "evict_first (bs_queue s) = Some (victim, queue)"
      "BlockCache_drop victim (bs_disk s) = Some d" "s1 = s\<lparr>bs_queue := queue, bs_disk := d\<rparr>"
      and s1: "cache_inv dev cap s1" "length (bs_queue s1) < length (bs_queue s)"
        "\<And>b. b < cap \<Longrightarrow> logical dev s1 b = logical dev s b" "\<And>b. handles s1 b = handles s b"
        "\<And>b. map_of (bs_queue s) b = None \<Longrightarrow> map_of (bs_queue s1) b = None"
      by (rule evict_spec [OF inv room [OF True None]]) blast
    with True None show ?thesis by (intro exI [of _ s1]) simp
  next
    case False
    then show ?thesis using inv None by (auto simp: cache_inv_def)
  qed
  then obtain s1 where s1: "(if length (bs_queue s) = BLOCK_CACHE_SIZE then do {
                  (victim, queue) \<leftarrow> evict_first (bs_queue s);
                  d \<leftarrow> BlockCache_drop victim (bs_disk s);
                  Some (s\<lparr>bs_queue := queue, bs_disk := d\<rparr>) }
                else Some s) = Some s1"
    and inv1: "cache_inv dev cap s1" "length (bs_queue s1) < BLOCK_CACHE_SIZE"
    and none1: "map_of (bs_queue s1) b = None"
    and same: "\<And>x. x < cap \<Longrightarrow> logical dev s1 x = logical dev s x" "\<And>x. handles s1 x = handles s x"
    by blast
  obtain c where c: "BlockCache_new b dev (bs_disk s1) = Some c" "bc_cache c = logical dev s1 b"
    "cache_inv dev cap (s1\<lparr>bs_queue := bs_queue s1 @ [(b, c, Suc 0)]\<rparr>)"
    using load_spec [OF inv1(1) b none1 inv1(2)] .
  let ?s = "s1\<lparr>bs_queue := bs_queue s1 @ [(b, c, Suc 0)]\<rparr>"
  have look: "map_of (bs_queue ?s) = (map_of (bs_queue s1))(b \<mapsto> (c, Suc 0))"
    using none1 by (auto simp: fun_eq_iff map_add_def split: option.splits)
  show ?thesis
  proof (rule that [of ?s c])
    show "get_block_cache s b dev = Some ?s"
      using None s1 c(1) by (simp add: get_block_cache_def BlockCacheManager_get_block_cache_def)
    have "handles s b = 0" using None by (simp add: handles_def)
    then show "map_of (bs_queue ?s) b = Some (c, handles s b + 1)" unfolding look by simp
    show "handles ?s = (handles s)(b := handles s b + 1)"
      using \<open>handles s b = 0\<close> same(2) by (simp add: fun_eq_iff handles_upd [OF look])
    show "logical dev ?s x = logical dev s x" if "x < cap" for x
      using same(1) [OF that] same(1) [OF b] c(2) by (simp add: logical_upd [OF look])
  qed (use c same b in auto)
qed

section \<open>Statements on a cached block\<close>

text \<open>
  \<^verbatim>\<open>get_block_cache(id, device).lock().read(offset, buf)\<close> and the same with \<^verbatim>\<open>write\<close>, as the disk
  driver writes them: the handle lives until the end of the statement.
\<close>

definition cached_read :: "'d VirtIOBlk \<Rightarrow> 'd block_sys \<Rightarrow> u64 \<Rightarrow> u32 \<Rightarrow> u8 list \<Rightarrow>
    (u32 \<times> u8 list \<times> 'd block_sys) option" where
  "cached_read dev s block_id offset buf = do {
     s \<leftarrow> get_block_cache s block_id dev;
     (c, h) \<leftarrow> find_entry block_id (bs_queue s);
     (nread, buf) \<leftarrow> BlockCache_read c offset buf;
     Some (nread, buf, drop_handle s block_id) }"

definition cached_write :: "'d VirtIOBlk \<Rightarrow> 'd block_sys \<Rightarrow> u64 \<Rightarrow> u32 \<Rightarrow> u8 list \<Rightarrow>
    (u32 \<times> 'd block_sys) option" where
  "cached_write dev s block_id offset buf = do {
     s \<leftarrow> get_block_cache s block_id dev;
     (c, h) \<leftarrow> find_entry block_id (bs_queue s);
     (nwrite, c) \<leftarrow> BlockCache_write c offset buf;
     Some (nwrite, drop_handle (s\<lparr>bs_queue := update_entry block_id (c, h) (bs_queue s)\<rparr>) block_id) }"

definition cache_idle :: "'d VirtIOBlk \<Rightarrow> u64 \<Rightarrow> 'd block_sys \<Rightarrow> bool" where
  "cache_idle dev cap s \<longleftrightarrow> cache_inv dev cap s \<and> (\<forall>b. handles s b = 0)"

lemma drop_handle_simps:
  assumes "map_of (bs_queue s) b = Some (c, h)"
  shows "handles (drop_handle s b) = (handles s)(b := h - 1)"
    and "logical dev (drop_handle s b) = logical dev s"
  using assms map_of_update_entry [OF assms, of "(c, h - 1)"]
  by (auto simp: drop_handle_def handles_def logical_def fun_eq_iff split: option.split)

lemma drop_handle_inv:
  "cache_inv dev cap s \<Longrightarrow> map_of (bs_queue s) b = Some (c, h) \<Longrightarrow> cache_inv dev cap (drop_handle s b)"
  by (simp add: drop_handle_def cache_inv_get_hit)

lemma cache_idle_room:
  assumes "cache_idle dev cap s" "length (bs_queue s) = BLOCK_CACHE_SIZE"
  shows "\<exists>e \<in> set (bs_queue s). snd (snd e) = 0"
proof -
  obtain b c h q where q: "bs_queue s = (b, c, h) # q"
    using assms(2) by (cases "bs_queue s") (auto simp: BLOCK_CACHE_SIZE_def)
  then have "handles s b = h" by (simp add: handles_def)
  with assms(1) q show ?thesis by (auto simp: cache_idle_def)
qed

lemma unat_block_take:
  assumes "offset < BLOCK_SIZE" "n < 2 ^ 32"
  shows "unat (min (BLOCK_SIZE - offset) (word_of_nat n)) = min (512 - unat offset) n"
proof -
  have "unat (BLOCK_SIZE - offset) = 512 - unat offset"
    using assms(1) by (simp add: BLOCK_SIZE_def unat_sub)
  moreover have "unat (word_of_nat n :: u32) = n"
    using assms(2) by (simp add: unsigned_of_nat take_bit_nat_eq_self)
  ultimately show ?thesis by (simp add: min_def word_le_nat_alt)
qed

lemma get_idle:
  assumes "cache_idle dev cap s" "b < cap"
  obtains s' c where "get_block_cache s b dev = Some s'" "cache_inv dev cap s'"
    and "map_of (bs_queue s') b = Some (c, 1)" "bc_cache c = logical dev s b"
    and "\<And>b'. b' < cap \<Longrightarrow> logical dev s' b' = logical dev s b'"
    and "\<And>b'. handles s' b' = (if b' = b then 1 else 0)"
proof -
  have inv: "cache_inv dev cap s" and idle: "\<And>b. handles s b = 0"
    using assms(1) by (simp_all add: cache_idle_def)
  show ?thesis
    by (rule get_block_cache_spec [OF inv assms(2)])
      (use that idle cache_idle_room [OF assms(1)] in auto)
qed

lemma cached_read_spec:
  assumes idle: "cache_idle dev cap s" and b: "b < cap" and off: "offset < BLOCK_SIZE"
    and len: "length buf < 2 ^ 32"
  shows "\<exists>s'. cached_read dev s b offset buf
      = Some (min (BLOCK_SIZE - offset) (word_of_nat (length buf)),
          take (length buf) (drop (unat offset) (logical dev s b)) @ drop (512 - unat offset) buf, s')
    \<and> cache_idle dev cap s' \<and> (\<forall>b'<cap. logical dev s' b' = logical dev s b')"
proof -
  from idle b obtain s' c where get: "get_block_cache s b dev = Some s'" "cache_inv dev cap s'"
    "map_of (bs_queue s') b = Some (c, 1)" "bc_cache c = logical dev s b"
    "\<And>b'. b' < cap \<Longrightarrow> logical dev s' b' = logical dev s b'"
    "\<And>b'. handles s' b' = (if b' = b then 1 else 0)"
    by (rule get_idle) blast
  have "length (bc_cache c) = 512"
    using get(4) cache_inv_logical_length [of dev cap s b] idle b by (simp add: cache_idle_def)
  then have "BlockCache_read c offset buf
      = Some (min (BLOCK_SIZE - offset) (word_of_nat (length buf)),
          take (length buf) (drop (unat offset) (bc_cache c)) @ drop (512 - unat offset) buf)"
    using off unat_block_take [OF off len]
    by (auto simp: BlockCache_read_def overwrite_def min_def)
  moreover have "cache_idle dev cap (drop_handle s' b)"
    using get drop_handle_inv [OF get(2,3)] by (simp add: cache_idle_def drop_handle_simps)
  ultimately show ?thesis
    using get by (simp add: cached_read_def drop_handle_simps)
qed

lemma BlockCache_write_spec:
  assumes "offset < BLOCK_SIZE" "length buf < 2 ^ 32" "length (bc_cache c) = 512"
  shows "BlockCache_write c offset buf
      = Some (min (BLOCK_SIZE - offset) (word_of_nat (length buf)),
          c\<lparr>bc_modified := bc_modified c \<or> buf \<noteq> [],
            bc_cache := overwrite (bc_cache c) (unat offset) (take (512 - unat offset) buf)\<rparr>)"
  using assms unat_block_take [OF assms(1,2)]
  by (auto simp: BlockCache_write_def min_def)

lemma cached_write_spec:
  assumes idle: "cache_idle dev cap s" and b: "b < cap" and off: "offset < BLOCK_SIZE"
    and len: "length buf < 2 ^ 32"
  shows "\<exists>s'. cached_write dev s b offset buf
      = Some (min (BLOCK_SIZE - offset) (word_of_nat (length buf)), s')
    \<and> cache_idle dev cap s'
    \<and> (\<forall>b'<cap. logical dev s' b' = (if b' = b
         then overwrite (logical dev s b) (unat offset) (take (512 - unat offset) buf)
         else logical dev s b'))"
proof -
  from idle b obtain s' c where get: "get_block_cache s b dev = Some s'" "cache_inv dev cap s'"
    "map_of (bs_queue s') b = Some (c, 1)" "bc_cache c = logical dev s b"
    "\<And>b'. b' < cap \<Longrightarrow> logical dev s' b' = logical dev s b'"
    "\<And>b'. handles s' b' = (if b' = b then 1 else 0)"
    by (rule get_idle) blast
  have c: "length (bc_cache c) = 512"
    using get(4) cache_inv_logical_length [of dev cap s b] idle b by (simp add: cache_idle_def)
  let ?c = "c\<lparr>bc_modified := bc_modified c \<or> buf \<noteq> [],
      bc_cache := overwrite (bc_cache c) (unat offset) (take (512 - unat offset) buf)\<rparr>"
  let ?s = "s'\<lparr>bs_queue := update_entry b (?c, Suc 0) (bs_queue s')\<rparr>"
  have look: "map_of (bs_queue ?s) = (map_of (bs_queue s'))(b \<mapsto> (?c, Suc 0))"
    using map_of_update_entry [OF get(3)] by simp
  have "entry_ok dev cap (bs_disk s') (b, ?c, 1)"
    using get(2) map_of_SomeD [OF get(3)] off b
    by (auto simp: cache_inv_def entry_ok_def BLOCK_SIZE_def word_less_nat_alt overwrite_def)
  then have inv: "cache_inv dev cap ?s"
    using get(2) set_update_entry [of b "(?c, Suc 0)" "bs_queue s'"] by (auto simp: cache_inv_def)
  have b1: "map_of (bs_queue ?s) b = Some (?c, Suc 0)" unfolding look by simp
  have "cache_idle dev cap (drop_handle ?s b)"
    using drop_handle_inv [OF inv b1] get(6)
    by (simp add: cache_idle_def drop_handle_simps(1) [OF b1] handles_upd [OF look])
  moreover have "logical dev ?s b' = (if b' = b then bc_cache ?c else logical dev s b')" if "b' < cap" for b'
    using get(5) [OF that] by (simp add: logical_upd [OF look])
  ultimately show ?thesis
    using get(1,3,4) BlockCache_write_spec [OF off len c] drop_handle_simps(2) [OF b1]
    by (simp add: cached_write_def)
qed

section \<open>Write-back\<close>

lemma sync_queue_spec:
  assumes "device_ok dev cap" "distinct (map fst q)" "\<forall>e \<in> set q. entry_ok dev cap d e"
  shows "\<exists>d'. sync_queue q d = Some (map (\<lambda>(b, c, h). (b, c\<lparr>bc_modified := False\<rparr>, h)) q, d')
    \<and> (\<forall>b<cap. disk_block dev d' b
        = (case map_of q b of Some (c, _) \<Rightarrow> bc_cache c | None \<Rightarrow> disk_block dev d b))"
  using assms
proof (induction q arbitrary: d)
  case (Cons e q)
  obtain b c h where e: "e = (b, c, h)" by (cases e)
  have "entry_ok dev cap d (b, c, h)" using Cons.prems e by simp
  from BlockCache_sync_spec [OF assms(1) this] obtain d1 where
    d1: "BlockCache_sync c d = Some (c\<lparr>bc_modified := False\<rparr>, d1)"
    "\<And>b'. b' < cap \<Longrightarrow> disk_block dev d1 b' = (if b' = b then bc_cache c else disk_block dev d b')"
    by blast
  have "\<forall>e \<in> set q. entry_ok dev cap d1 e"
  proof
    fix x assume x: "x \<in> set q"
    then have "fst x \<noteq> b" using Cons.prems(2) e by (auto simp: image_iff)
    then show "entry_ok dev cap d1 x"
      using x Cons.prems(3) d1(2) by (fastforce simp: entry_ok_def split: prod.splits)
  qed
  from Cons.IH [OF Cons.prems(1) _ this] Cons.prems(2) obtain d2 where
    d2: "sync_queue q d1 = Some (map (\<lambda>(b, c, h). (b, c\<lparr>bc_modified := False\<rparr>, h)) q, d2)"
    "\<And>x. x < cap \<Longrightarrow> disk_block dev d2 x
        = (case map_of q x of Some (c, _) \<Rightarrow> bc_cache c | None \<Rightarrow> disk_block dev d1 x)"
    by auto
  have "map_of q b = None" using Cons.prems(2) e by (simp add: map_of_eq_None_iff)
  with d1 d2 show ?case by (auto simp: e split: option.splits)
qed simp

lemma block_cache_sync_all_spec:
  assumes "cache_inv dev cap s"
  obtains s' where "block_cache_sync_all s = Some s'" "cache_inv dev cap s'"
    and "\<And>b. handles s' b = handles s b"
    and "\<And>b. b < cap \<Longrightarrow> logical dev s' b = logical dev s b"
    and "\<And>b. b < cap \<Longrightarrow> disk_block dev (bs_disk s') b = logical dev s b"
proof -
  let ?clean = "\<lambda>(b, c, h). (b, c\<lparr>bc_modified := False\<rparr>, h)"
  have ok: "device_ok dev cap" "distinct (map fst (bs_queue s))"
    "\<forall>e \<in> set (bs_queue s). entry_ok dev cap (bs_disk s) e"
    using assms by (simp_all add: cache_inv_def)
  from sync_queue_spec [OF ok] obtain d where
    d: "sync_queue (bs_queue s) (bs_disk s) = Some (map ?clean (bs_queue s), d)"
    "\<And>b. b < cap \<Longrightarrow> disk_block dev d b = logical dev s b"
    by (auto simp: logical_def)
  let ?s = "\<lparr>bs_queue = map ?clean (bs_queue s), bs_disk = d\<rparr>"
  have look: "map_of (map ?clean q) = map_option (\<lambda>(c, h). (c\<lparr>bc_modified := False\<rparr>, h)) \<circ> map_of q"
    for q :: "'a cache_entry list"
    by (induction q) (auto simp: fun_eq_iff)
  have fsts: "map fst (map ?clean q) = map fst q" for q :: "'a cache_entry list"
    by (induction q) auto
  have logical: "logical dev ?s b = logical dev s b" if "b < cap" for b
    using d(2) [OF that] by (auto simp: logical_def look split: option.split)
  have "entry_ok dev cap d (?clean e)" if "e \<in> set (bs_queue s)" for e
  proof -
    obtain b c h where e: "e = (b, c, h)" by (cases e)
    have "map_of (bs_queue s) b = Some (c, h)" using that ok(2) e by (simp add: map_of_eq_Some_iff)
    moreover have "entry_ok dev cap (bs_disk s) e" using that ok(3) by blast
    ultimately show ?thesis using d(2) [of b] e by (simp add: entry_ok_def logical_def)
  qed
  then have "cache_inv dev cap ?s"
    using assms unfolding cache_inv_def by (simp add: fsts del: map_map)
  moreover have "handles ?s b = handles s b" for b
    by (auto simp: handles_def look split: option.split)
  ultimately show ?thesis
    using that [of ?s] d logical by (simp add: block_cache_sync_all_def)
qed

end
