(* ===== verification/Disk_Driver.thy ===== *)
theory Disk_Driver
  imports Block_Cache
begin

text \<open>
  The byte-level disk driver handed to the FAT32 library (\<^verbatim>\<open>DiskDriver\<close> in \<^verbatim>\<open>fat32/src/lib.rs\<close>):
  a cursor over the cached block device with \<^verbatim>\<open>read\<close>, \<^verbatim>\<open>write\<close>, \<^verbatim>\<open>flush\<close> and \<^verbatim>\<open>seek\<close>. The driver
  relies on the block layer through the interface \<^verbatim>\<open>block_store\<close>; its loops are correct for
  every implementation of that interface, and the cache is one. Main results: the driver is a
  file over one contiguous array of bytes.
\<close>

section \<open>The driver\<close>

record 'd DiskDriver =
  dd_device :: "'d VirtIOBlk"
  dd_block_id :: u64
  dd_block_offset :: u32

text \<open>The cursor after \<^term>\<open>n\<close> bytes of the current block.\<close>

definition advance :: "u64 \<Rightarrow> u32 \<Rightarrow> u32 \<Rightarrow> u64 \<times> u32" where
  "advance block_id block_offset n =
     (let block_offset = block_offset + n in
      if block_offset \<ge> BLOCK_SIZE then (block_id + 1, block_offset - BLOCK_SIZE)
      else (block_id, block_offset))"

text \<open>
  The loops of \<^verbatim>\<open>read\<close> and \<^verbatim>\<open>write\<close>. The statement on the cached block is the argument \<^term>\<open>rd\<close> or
  \<^term>\<open>wr\<close>; \<^term>\<open>None\<close> is a panic or a loop that does not end.
\<close>

partial_function (option) disk_read_loop ::
  "('s \<Rightarrow> u64 \<Rightarrow> u32 \<Rightarrow> u8 list \<Rightarrow> (u32 \<times> u8 list \<times> 's) option) \<Rightarrow> 's \<Rightarrow> u64 \<Rightarrow> u32 \<Rightarrow> u8 list \<Rightarrow> nat \<Rightarrow>
    (u64 \<times> u32 \<times> u8 list \<times> nat \<times> 's) option" where
  "disk_read_loop rd s block_id block_offset buf tot_nread =
     (if tot_nread < length buf then do {
        (nread, part, s') \<leftarrow> rd s block_id block_offset (drop tot_nread buf);
        let (block_id', block_offset') = advance block_id block_offset nread;
        disk_read_loop rd s' block_id' block_offset' (take tot_nread buf @ part) (tot_nread + unat nread) }
      else Some (block_id, block_offset, buf, tot_nread, s))"

partial_function (option) disk_write_loop ::
  "('s \<Rightarrow> u64 \<Rightarrow> u32 \<Rightarrow> u8 list \<Rightarrow> (u32 \<times> 's) option) \<Rightarrow> 's \<Rightarrow> u64 \<Rightarrow> u32 \<Rightarrow> u8 list \<Rightarrow> nat \<Rightarrow>
    (u64 \<times> u32 \<times> nat \<times> 's) option" where
  "disk_write_loop wr s block_id block_offset buf tot_nwrite =
     (if tot_nwrite < length buf then do {
        (nwrite, s') \<leftarrow> wr s block_id block_offset (drop tot_nwrite buf);
        let (block_id', block_offset') = advance block_id block_offset nwrite;
        disk_write_loop wr s' block_id' block_offset' buf (tot_nwrite + unat nwrite) }
      else Some (block_id, block_offset, tot_nwrite, s))"

declare disk_read_loop.simps [code] disk_write_loop.simps [code]

definition DiskDriver_read :: "'d DiskDriver \<Rightarrow> 'd block_sys \<Rightarrow> u8 list \<Rightarrow>
    (nat \<times> u8 list \<times> 'd DiskDriver \<times> 'd block_sys) option" where
  "DiskDriver_read self s buf = do {
     (block_id, block_offset, buf, tot_nread, s) \<leftarrow>
       disk_read_loop (cached_read (dd_device self)) s (dd_block_id self) (dd_block_offset self) buf 0;
     Some (tot_nread, buf, self\<lparr>dd_block_id := block_id, dd_block_offset := block_offset\<rparr>, s) }"

definition DiskDriver_write :: "'d DiskDriver \<Rightarrow> 'd block_sys \<Rightarrow> u8 list \<Rightarrow>
    (nat \<times> 'd DiskDriver \<times> 'd block_sys) option" where
  "DiskDriver_write self s buf = do {
     (block_id, block_offset, tot_nwrite, s) \<leftarrow>
       disk_write_loop (cached_write (dd_device self)) s (dd_block_id self) (dd_block_offset self) buf 0;
     Some (tot_nwrite, self\<lparr>dd_block_id := block_id, dd_block_offset := block_offset\<rparr>, s) }"

definition DiskDriver_flush :: "'d block_sys \<Rightarrow> 'd block_sys option" where
  "DiskDriver_flush s = block_cache_sync_all s"

datatype SeekFrom = Start u64 | End u64 | Current u64

text \<open>\<^verbatim>\<open>todo!\<close> panics: \<^term>\<open>None\<close>. The error value is the unit.\<close>

definition DiskDriver_seek :: "'d DiskDriver \<Rightarrow> SeekFrom \<Rightarrow> (unit + (u64 \<times> 'd DiskDriver)) option" where
  "DiskDriver_seek self pos = do {
     offset \<leftarrow> (case pos of
         Start from_start \<Rightarrow> Some (Inr from_start)
       | End _ \<Rightarrow> None
       | Current from_curr \<Rightarrow>
           Some (case checked_add_signed
               (dd_block_id self * ucast BLOCK_SIZE + ucast (dd_block_offset self)) from_curr of
             None \<Rightarrow> Inl () | Some offset \<Rightarrow> Inr offset));
     Some (try_bind offset (\<lambda>offset.
       Inr (offset, self\<lparr>dd_block_id := offset div ucast BLOCK_SIZE,
         dd_block_offset := ucast (offset mod ucast BLOCK_SIZE)\<rparr>))) }"

section \<open>Byte addresses\<close>

definition disk_pos :: "u64 \<Rightarrow> u32 \<Rightarrow> nat" where
  "disk_pos block_id block_offset = unat block_id * 512 + unat block_offset"

definition byte_at :: "(u64 \<Rightarrow> u8 list) \<Rightarrow> nat \<Rightarrow> u8" where
  "byte_at blk a = blk (word_of_nat (a div 512)) ! (a mod 512)"

lemma offset_less: "off < BLOCK_SIZE \<longleftrightarrow> unat off < 512"
  by (simp add: BLOCK_SIZE_def word_less_nat_alt)

lemma advance_pos:
  assumes off: "off < BLOCK_SIZE" and n: "unat n \<le> 512 - unat off" and b: "b < cap"
  obtains b' off' where "advance b off n = (b', off')" "off' < BLOCK_SIZE"
    "disk_pos b' off' = disk_pos b off + unat n"
proof -
  have sum: "unat (off + n) = unat off + unat n"
    using off n by (simp add: offset_less unat_word_ariths)
  have succ: "unat (b + 1) = unat b + 1"
    using b unsigned_less [of cap, where 'a = nat]
    by (simp add: unat_word_ariths word_less_nat_alt)
  show ?thesis
  proof (cases "off + n \<ge> BLOCK_SIZE")
    case True
    then have "unat (off + n) = 512"
      using n sum off [unfolded offset_less] by (simp add: BLOCK_SIZE_def word_le_nat_alt)
    then have "off + n = BLOCK_SIZE"
      by (simp add: BLOCK_SIZE_def word_unat_eq_iff)
    then show ?thesis
      using that [of "b + 1" 0] sum succ \<open>unat (off + n) = 512\<close>
      by (simp add: advance_def disk_pos_def BLOCK_SIZE_def)
  next
    case False
    then show ?thesis
      using that [of b "off + n"] sum by (simp add: advance_def disk_pos_def not_le Let_def)
  qed
qed

lemma disk_pos_block: "unat off < 512 \<Longrightarrow> disk_pos b off + k \<le> 512 * unat cap \<Longrightarrow> 0 < k \<Longrightarrow> b < cap"
  unfolding word_less_nat_alt disk_pos_def by linarith

lemma byte_at_pos:
  "unat off + i < 512 \<Longrightarrow> byte_at blk (disk_pos b off + i) = blk b ! (unat off + i)"
  by (simp add: byte_at_def disk_pos_def add.assoc)

lemma block_chunk:
  assumes "unat off + n \<le> 512" "length (blk b) = 512"
  shows "take n (drop (unat off) (blk b)) = map (byte_at blk) [disk_pos b off ..< disk_pos b off + n]"
  using assms by (intro nth_equalityI) (simp_all add: byte_at_pos)

lemma byte_at_cong:
  assumes "\<And>b. b < cap \<Longrightarrow> blk b = blk' b" "a < 512 * unat cap"
  shows "byte_at blk a = byte_at blk' a"
proof -
  have "a div 512 < unat cap" using assms(2) by (simp add: less_mult_imp_div_less mult.commute)
  moreover from this have "unat (word_of_nat (a div 512) :: u64) = a div 512"
    using unsigned_less [of cap, where 'a = nat]
    by (simp add: unsigned_of_nat take_bit_nat_eq_self)
  ultimately show ?thesis using assms(1) by (simp add: byte_at_def word_less_nat_alt)
qed

lemma byte_at_overwrite:
  assumes b: "b < cap" and off: "unat off < 512" and len: "length (blk b) = 512"
    and upd: "\<And>x. x < cap \<Longrightarrow> blk' x
      = (if x = b then overwrite (blk b) (unat off) (take (512 - unat off) rest) else blk x)"
    and a: "a < 512 * unat cap"
  shows "byte_at blk' a = (if disk_pos b off \<le> a \<and> a < disk_pos b off + min (512 - unat off) (length rest)
    then rest ! (a - disk_pos b off) else byte_at blk a)"
proof -
  let ?b = "word_of_nat (a div 512) :: u64"
  have div: "a div 512 < unat cap" using a by (simp add: less_mult_imp_div_less mult.commute)
  then have ua: "unat ?b = a div 512"
    using unsigned_less [of cap, where 'a = nat]
    by (simp add: unsigned_of_nat take_bit_nat_eq_self)
  then have cap: "?b < cap" using div by (simp add: word_less_nat_alt)
  show ?thesis
  proof (cases "?b = b")
    case True
    then have "a = unat b * 512 + a mod 512" using ua by simp
    then have pos: "(disk_pos b off \<le> a \<longleftrightarrow> unat off \<le> a mod 512)"
      "a - disk_pos b off = a mod 512 - unat off"
      "(a < disk_pos b off + min (512 - unat off) (length rest)
        \<longleftrightarrow> a mod 512 < unat off + min (512 - unat off) (length rest))"
      unfolding disk_pos_def by linarith+
    let ?new = "take (512 - unat off) rest"
    have new: "blk' b ! (a mod 512) = (if unat off \<le> a mod 512 \<and> a mod 512 < unat off + length ?new
        then ?new ! (a mod 512 - unat off) else blk b ! (a mod 512))"
      unfolding upd [OF b] using off len by (simp add: nth_overwrite)
    have "?new ! (a mod 512 - unat off) = rest ! (a mod 512 - unat off)"
      if "unat off \<le> a mod 512"
      using that off by (intro nth_take) (simp add: diff_less_mono)
    with new have "blk' b ! (a mod 512) = (if unat off \<le> a mod 512 \<and> a mod 512 < unat off + min (512 - unat off) (length rest)
        then rest ! (a mod 512 - unat off) else blk b ! (a mod 512))"
      by (auto simp: min.commute)
    then show ?thesis by (simp only: byte_at_def True pos)
  next
    case False
    then have "unat b \<noteq> a div 512" using ua by (metis word_unat_eq_iff)
    then have "\<not> (disk_pos b off \<le> a \<and> a < disk_pos b off + min (512 - unat off) (length rest))"
      using off by (auto simp: disk_pos_def)
    then show ?thesis using False upd [OF cap] by (auto simp: byte_at_def)
  qed
qed

section \<open>The interface to the block layer\<close>

locale block_store =
  fixes ok :: "'s \<Rightarrow> bool" and cap :: u64 and block :: "'s \<Rightarrow> u64 \<Rightarrow> u8 list"
    and rd :: "'s \<Rightarrow> u64 \<Rightarrow> u32 \<Rightarrow> u8 list \<Rightarrow> (u32 \<times> u8 list \<times> 's) option"
    and wr :: "'s \<Rightarrow> u64 \<Rightarrow> u32 \<Rightarrow> u8 list \<Rightarrow> (u32 \<times> 's) option"
  assumes block_length: "ok s \<Longrightarrow> b < cap \<Longrightarrow> length (block s b) = 512"
    and rd_law: "ok s \<Longrightarrow> b < cap \<Longrightarrow> off < BLOCK_SIZE \<Longrightarrow> length buf < 2 ^ 32 \<Longrightarrow>
      \<exists>s'. rd s b off buf
        = Some (min (BLOCK_SIZE - off) (word_of_nat (length buf)),
            take (length buf) (drop (unat off) (block s b)) @ drop (512 - unat off) buf, s')
      \<and> ok s' \<and> (\<forall>b'<cap. block s' b' = block s b')"
    and wr_law: "ok s \<Longrightarrow> b < cap \<Longrightarrow> off < BLOCK_SIZE \<Longrightarrow> length buf < 2 ^ 32 \<Longrightarrow>
      \<exists>s'. wr s b off buf = Some (min (BLOCK_SIZE - off) (word_of_nat (length buf)), s')
      \<and> ok s' \<and> (\<forall>b'<cap. block s' b' = (if b' = b
           then overwrite (block s b) (unat off) (take (512 - unat off) buf) else block s b'))"
begin

lemma rd_step:
  assumes ok: "ok s" "off < BLOCK_SIZE" and len: "0 < length rest" "length rest < 2 ^ 32"
    and fit: "disk_pos b off + length rest \<le> 512 * unat cap"
  obtains n part s' b' off' where "rd s b off rest = Some (n, part, s')" "advance b off n = (b', off')"
    and "0 < unat n" "unat n \<le> length rest" "length part = length rest" "ok s'" "off' < BLOCK_SIZE"
    and "disk_pos b' off' = disk_pos b off + unat n"
    and "take (unat n) part = map (byte_at (block s)) [disk_pos b off ..< disk_pos b off + unat n]"
    and "\<And>b'. b' < cap \<Longrightarrow> block s' b' = block s b'"
proof -
  have off: "unat off < 512" using ok(2) by (simp add: offset_less)
  have b: "b < cap" using disk_pos_block [OF off fit len(1)] .
  let ?n = "min (BLOCK_SIZE - off) (word_of_nat (length rest))"
  let ?part = "take (length rest) (drop (unat off) (block s b)) @ drop (512 - unat off) rest"
  have n: "unat ?n = min (512 - unat off) (length rest)"
    using unat_block_take [OF ok(2) len(2)] .
  obtain s' where s': "rd s b off rest = Some (?n, ?part, s')" "ok s'"
    "\<And>b'. b' < cap \<Longrightarrow> block s' b' = block s b'"
    using rd_law [OF ok(1) b ok(2) len(2)] by blast
  have "unat ?n \<le> 512 - unat off" using n by simp
  from advance_pos [OF ok(2) this b] obtain b' off' where
    adv: "advance b off ?n = (b', off')" "off' < BLOCK_SIZE" "disk_pos b' off' = disk_pos b off + unat ?n" .
  have len_b: "length (block s b) = 512" using block_length [OF ok(1) b] .
  have "take (unat ?n) ?part = take (unat ?n) (drop (unat off) (block s b))"
    using len_b by (simp add: n)
  also have "\<dots> = map (byte_at (block s)) [disk_pos b off ..< disk_pos b off + unat ?n]"
    using len_b off n by (intro block_chunk) auto
  finally show ?thesis
    using that [OF s'(1) adv(1)] s' adv n off len len_b by auto
qed

lemma disk_read_loop_spec:
  assumes "ok s" "off < BLOCK_SIZE" "tot \<le> length buf" "length buf < 2 ^ 32"
    and "disk_pos b off + (length buf - tot) \<le> 512 * unat cap"
  shows "\<exists>b' off' s'. disk_read_loop rd s b off buf tot
      = Some (b', off', take tot buf
          @ map (byte_at (block s)) [disk_pos b off ..< disk_pos b off + (length buf - tot)], length buf, s')
    \<and> ok s' \<and> off' < BLOCK_SIZE \<and> disk_pos b' off' = disk_pos b off + (length buf - tot)
    \<and> (\<forall>b<cap. block s' b = block s b)"
  using assms
proof (induction "length buf - tot" arbitrary: s b off buf tot rule: less_induct)
  case less
  show ?case
  proof (cases "tot < length buf")
    case False
    with less.prems show ?thesis by (simp add: disk_read_loop.simps)
  next
    case True
    let ?rest = "drop tot buf"
    from True less.prems have "0 < length ?rest" "length ?rest < 2 ^ 32"
      "disk_pos b off + length ?rest \<le> 512 * unat cap" by auto
    from rd_step [OF less.prems(1,2) this] obtain n part s' b' off' where
      step: "rd s b off ?rest = Some (n, part, s')" "advance b off n = (b', off')"
      and n: "0 < unat n" "unat n \<le> length ?rest" "length part = length ?rest" "ok s'" "off' < BLOCK_SIZE"
      and pos: "disk_pos b' off' = disk_pos b off + unat n"
      and part: "take (unat n) part = map (byte_at (block s)) [disk_pos b off ..< disk_pos b off + unat n]"
      and same: "\<And>b'. b' < cap \<Longrightarrow> block s' b' = block s b'" by blast
    let ?buf = "take tot buf @ part"
    have len: "length ?buf = length buf" using n(3) True by simp
    let ?out = "take (tot + unat n) ?buf
      @ map (byte_at (block s')) [disk_pos b' off' ..< disk_pos b' off' + (length ?buf - (tot + unat n))]"
    have "\<exists>b1 off1 s1. disk_read_loop rd s' b' off' ?buf (tot + unat n) = Some (b1, off1, ?out, length ?buf, s1)
      \<and> ok s1 \<and> off1 < BLOCK_SIZE
      \<and> disk_pos b1 off1 = disk_pos b' off' + (length ?buf - (tot + unat n))
      \<and> (\<forall>b<cap. block s1 b = block s' b)"
      using less.prems(4,5) n pos len True by (intro less.hyps) auto
    then obtain b1 off1 s1 where rest:
      "disk_read_loop rd s' b' off' ?buf (tot + unat n) = Some (b1, off1, ?out, length ?buf, s1)"
      "ok s1" "off1 < BLOCK_SIZE" "disk_pos b1 off1 = disk_pos b' off' + (length ?buf - (tot + unat n))"
      "\<forall>b<cap. block s1 b = block s' b"
      by blast
    have later: "map (byte_at (block s')) [disk_pos b' off' ..< disk_pos b' off' + (length buf - (tot + unat n))]
        = map (byte_at (block s)) [disk_pos b off + unat n ..< disk_pos b off + (length buf - tot)]"
    proof -
      have "byte_at (block s') a = byte_at (block s) a" if "a < disk_pos b off + (length buf - tot)" for a
        using that less.prems(5) by (intro byte_at_cong [of cap]) (simp_all add: same)
      then show ?thesis using pos n(2) True by (auto simp: add.assoc)
    qed
    have front: "take (tot + unat n) ?buf
        = take tot buf @ map (byte_at (block s)) [disk_pos b off ..< disk_pos b off + unat n]"
      using part True by simp
    have "[disk_pos b off ..< disk_pos b off + (length buf - tot)]
        = [disk_pos b off ..< disk_pos b off + unat n] @ [disk_pos b off + unat n ..< disk_pos b off + (length buf - tot)]"
      using n(2) by (intro upt_split) auto
    then have out: "?out = take tot buf
        @ map (byte_at (block s)) [disk_pos b off ..< disk_pos b off + (length buf - tot)]"
      by (simp only: len front later map_append append_assoc)
    have "disk_read_loop rd s b off buf tot = Some (b1, off1, take tot buf
        @ map (byte_at (block s)) [disk_pos b off ..< disk_pos b off + (length buf - tot)], length buf, s1)"
      using True step rest(1) [unfolded out, unfolded len] by (subst disk_read_loop.simps) simp
    moreover have "disk_pos b1 off1 = disk_pos b off + (length buf - tot)"
      using rest(4) len pos n(2) True by simp
    ultimately show ?thesis
      using rest(2,3,5) same by auto
  qed
qed

lemma wr_step:
  assumes ok: "ok s" "off < BLOCK_SIZE" and len: "0 < length rest" "length rest < 2 ^ 32"
    and fit: "disk_pos b off + length rest \<le> 512 * unat cap"
  obtains n s' b' off' where "wr s b off rest = Some (n, s')" "advance b off n = (b', off')"
    and "0 < unat n" "unat n \<le> length rest" "ok s'" "off' < BLOCK_SIZE"
    and "disk_pos b' off' = disk_pos b off + unat n"
    and "\<And>a. a < 512 * unat cap \<Longrightarrow> byte_at (block s') a
      = (if disk_pos b off \<le> a \<and> a < disk_pos b off + unat n then rest ! (a - disk_pos b off)
         else byte_at (block s) a)"
proof -
  have off: "unat off < 512" using ok(2) by (simp add: offset_less)
  have b: "b < cap" using disk_pos_block [OF off fit len(1)] .
  let ?n = "min (BLOCK_SIZE - off) (word_of_nat (length rest))"
  have n: "unat ?n = min (512 - unat off) (length rest)"
    using unat_block_take [OF ok(2) len(2)] .
  obtain s' where s': "wr s b off rest = Some (?n, s')" "ok s'"
    "\<And>b'. b' < cap \<Longrightarrow> block s' b' = (if b' = b
           then overwrite (block s b) (unat off) (take (512 - unat off) rest) else block s b')"
    using wr_law [OF ok(1) b ok(2) len(2)] by blast
  have "unat ?n \<le> 512 - unat off" using n by simp
  from advance_pos [OF ok(2) this b] obtain b' off' where
    adv: "advance b off ?n = (b', off')" "off' < BLOCK_SIZE" "disk_pos b' off' = disk_pos b off + unat ?n" .
  have "byte_at (block s') a
      = (if disk_pos b off \<le> a \<and> a < disk_pos b off + unat ?n then rest ! (a - disk_pos b off)
         else byte_at (block s) a)" if "a < 512 * unat cap" for a
    using byte_at_overwrite [OF b off block_length [OF ok(1) b] s'(3) that] n by simp
  then show ?thesis
    using that [OF s'(1) adv(1)] s'(2) adv n off len by auto
qed

lemma disk_write_loop_spec:
  assumes "ok s" "off < BLOCK_SIZE" "tot \<le> length buf" "length buf < 2 ^ 32"
    and "disk_pos b off + (length buf - tot) \<le> 512 * unat cap"
  shows "\<exists>b' off' s'. disk_write_loop wr s b off buf tot = Some (b', off', length buf, s')
    \<and> ok s' \<and> off' < BLOCK_SIZE \<and> disk_pos b' off' = disk_pos b off + (length buf - tot)
    \<and> (\<forall>a < 512 * unat cap. byte_at (block s') a
        = (if disk_pos b off \<le> a \<and> a < disk_pos b off + (length buf - tot)
           then buf ! (tot + (a - disk_pos b off)) else byte_at (block s) a))"
  using assms
proof (induction "length buf - tot" arbitrary: s b off tot rule: less_induct)
  case less
  show ?case
  proof (cases "tot < length buf")
    case False
    with less.prems show ?thesis by (subst disk_write_loop.simps) auto
  next
    case True
    let ?rest = "drop tot buf"
    from True less.prems have "0 < length ?rest" "length ?rest < 2 ^ 32"
      "disk_pos b off + length ?rest \<le> 512 * unat cap" by auto
    from wr_step [OF less.prems(1,2) this] obtain n s' b' off' where
      step: "wr s b off ?rest = Some (n, s')" "advance b off n = (b', off')"
      and n: "0 < unat n" "unat n \<le> length ?rest" "ok s'" "off' < BLOCK_SIZE"
      and pos: "disk_pos b' off' = disk_pos b off + unat n"
      and bytes: "\<And>a. a < 512 * unat cap \<Longrightarrow> byte_at (block s') a
        = (if disk_pos b off \<le> a \<and> a < disk_pos b off + unat n then ?rest ! (a - disk_pos b off)
           else byte_at (block s) a)" by blast
    have "\<exists>b1 off1 s1. disk_write_loop wr s' b' off' buf (tot + unat n) = Some (b1, off1, length buf, s1)
      \<and> ok s1 \<and> off1 < BLOCK_SIZE \<and> disk_pos b1 off1 = disk_pos b' off' + (length buf - (tot + unat n))
      \<and> (\<forall>a < 512 * unat cap. byte_at (block s1) a
        = (if disk_pos b' off' \<le> a \<and> a < disk_pos b' off' + (length buf - (tot + unat n))
           then buf ! (tot + unat n + (a - disk_pos b' off')) else byte_at (block s') a))"
      using less.prems(4,5) n pos True by (intro less.hyps) auto
    then obtain b1 off1 s1 where rest:
      "disk_write_loop wr s' b' off' buf (tot + unat n) = Some (b1, off1, length buf, s1)"
      "ok s1" "off1 < BLOCK_SIZE" "disk_pos b1 off1 = disk_pos b' off' + (length buf - (tot + unat n))"
      and bytes1: "\<And>a. a < 512 * unat cap \<Longrightarrow> byte_at (block s1) a
        = (if disk_pos b' off' \<le> a \<and> a < disk_pos b' off' + (length buf - (tot + unat n))
           then buf ! (tot + unat n + (a - disk_pos b' off')) else byte_at (block s') a)"
      by blast
    have all: "byte_at (block s1) a
        = (if disk_pos b off \<le> a \<and> a < disk_pos b off + (length buf - tot)
           then buf ! (tot + (a - disk_pos b off)) else byte_at (block s) a)" if "a < 512 * unat cap" for a
    proof -
      have n': "unat n \<le> length buf - tot" using n(2) by simp
      consider "a < disk_pos b off" | "disk_pos b off \<le> a" "a < disk_pos b' off'"
        | "disk_pos b' off' \<le> a" by linarith
      then show ?thesis
      proof cases
        case 1
        then show ?thesis using bytes1 [OF that] bytes [OF that] pos by simp
      next
        case 2
        moreover from 2 have "a < disk_pos b off + (length buf - tot)" using pos n' by linarith
        ultimately show ?thesis using bytes1 [OF that] bytes [OF that] pos True by simp
      next
        case 3
        then have "tot + unat n + (a - disk_pos b' off') = tot + (a - disk_pos b off)"
          "a < disk_pos b' off' + (length buf - (tot + unat n)) \<longleftrightarrow> a < disk_pos b off + (length buf - tot)"
          "disk_pos b off \<le> a" "\<not> a < disk_pos b off + unat n"
          using pos n' by linarith+
        then show ?thesis using bytes1 [OF that] bytes [OF that] 3 by (simp only: if_True if_False simp_thms)
      qed
    qed
    have "disk_write_loop wr s b off buf tot = Some (b1, off1, length buf, s1)"
      using True step rest(1) by (subst disk_write_loop.simps) simp
    moreover have "disk_pos b1 off1 = disk_pos b off + (length buf - tot)"
      using rest(4) pos n(2) True by simp
    ultimately show ?thesis using rest(2,3) all by blast
  qed
qed

end

interpretation cached: block_store "cache_idle dev cap" cap "logical dev" "cached_read dev" "cached_write dev"
  for dev :: "'d VirtIOBlk" and cap :: u64
proof
  show "length (logical dev s b) = 512" if "cache_idle dev cap s" "b < cap" for s b
    using that cache_inv_logical_length unfolding cache_idle_def by blast
qed (use cached_read_spec cached_write_spec in blast)+

section \<open>The driver as a byte array\<close>

definition driver_pos :: "'d DiskDriver \<Rightarrow> nat" where
  "driver_pos self = disk_pos (dd_block_id self) (dd_block_offset self)"

definition disk_byte :: "'d VirtIOBlk \<Rightarrow> 'd block_sys \<Rightarrow> nat \<Rightarrow> u8" where
  "disk_byte dev s a = byte_at (logical dev s) a"

definition driver_ok :: "'d DiskDriver \<Rightarrow> u64 \<Rightarrow> 'd block_sys \<Rightarrow> bool" where
  "driver_ok self cap s \<longleftrightarrow> cache_idle (dd_device self) cap s \<and> dd_block_offset self < BLOCK_SIZE"

lemma DiskDriver_read_spec:
  assumes "driver_ok self cap s" "length buf < 2 ^ 32" "driver_pos self + length buf \<le> 512 * unat cap"
  obtains self' s' where "DiskDriver_read self s buf = Some (length buf,
      map (disk_byte (dd_device self) s) [driver_pos self ..< driver_pos self + length buf], self', s')"
    and "driver_ok self' cap s'" "dd_device self' = dd_device self"
    and "driver_pos self' = driver_pos self + length buf"
    and "\<And>a. a < 512 * unat cap \<Longrightarrow> disk_byte (dd_device self) s' a = disk_byte (dd_device self) s a"
proof -
  let ?dev = "dd_device self"
  obtain b off s' where loop: "disk_read_loop (cached_read ?dev) s (dd_block_id self) (dd_block_offset self) buf 0
      = Some (b, off, map (byte_at (logical ?dev s)) [driver_pos self ..< driver_pos self + length buf], length buf, s')"
    and s': "cache_idle ?dev cap s'" "off < BLOCK_SIZE" "disk_pos b off = driver_pos self + length buf"
      "\<forall>b<cap. logical ?dev s' b = logical ?dev s b"
    using assms cached.disk_read_loop_spec [of ?dev cap s "dd_block_offset self" 0 buf "dd_block_id self"]
    by (auto simp: driver_ok_def driver_pos_def)
  have "disk_byte ?dev s' a = disk_byte ?dev s a" if "a < 512 * unat cap" for a
    unfolding disk_byte_def using that s'(4) by (intro byte_at_cong [of cap]) auto
  then show ?thesis
    using that [of "self\<lparr>dd_block_id := b, dd_block_offset := off\<rparr>" s'] loop s'
    by (simp add: DiskDriver_read_def driver_ok_def driver_pos_def disk_byte_def)
qed

lemma DiskDriver_write_spec:
  assumes "driver_ok self cap s" "length buf < 2 ^ 32" "driver_pos self + length buf \<le> 512 * unat cap"
  obtains self' s' where "DiskDriver_write self s buf = Some (length buf, self', s')"
    and "driver_ok self' cap s'" "dd_device self' = dd_device self"
    and "driver_pos self' = driver_pos self + length buf"
    and "\<And>a. a < 512 * unat cap \<Longrightarrow> disk_byte (dd_device self) s' a =
      (if driver_pos self \<le> a \<and> a < driver_pos self + length buf then buf ! (a - driver_pos self)
       else disk_byte (dd_device self) s a)"
proof -
  let ?dev = "dd_device self"
  obtain b off s' where loop: "disk_write_loop (cached_write ?dev) s (dd_block_id self) (dd_block_offset self) buf 0
      = Some (b, off, length buf, s')"
    and s': "cache_idle ?dev cap s'" "off < BLOCK_SIZE" "disk_pos b off = driver_pos self + length buf"
    and bytes: "\<forall>a < 512 * unat cap. disk_byte ?dev s' a =
      (if driver_pos self \<le> a \<and> a < driver_pos self + length buf then buf ! (a - driver_pos self)
       else disk_byte ?dev s a)"
    using assms cached.disk_write_loop_spec [of ?dev cap s "dd_block_offset self" 0 buf "dd_block_id self"]
    unfolding driver_ok_def driver_pos_def disk_byte_def by auto
  show ?thesis
    using that [of "self\<lparr>dd_block_id := b, dd_block_offset := off\<rparr>" s'] loop s' bytes
    by (simp add: DiskDriver_write_def driver_ok_def driver_pos_def)
qed

lemma DiskDriver_seek_Start:
  "\<exists>self'. DiskDriver_seek self (Start n) = Some (Inr (n, self')) \<and> driver_pos self' = unat n
     \<and> dd_block_offset self' < BLOCK_SIZE \<and> dd_device self' = dd_device self"
proof -
  have "unat (ucast (n mod 512) :: u32) = unat n mod 512"
    by (simp add: unsigned_ucast_eq unat_mod take_bit_nat_eq_self)
  then show ?thesis
    by (simp add: DiskDriver_seek_def driver_pos_def disk_pos_def BLOCK_SIZE_def unat_div unat_mod
        word_less_nat_alt div_mult_mod_eq)
qed

section \<open>Properties\<close>

text \<open>
  A device kept in memory, and a driver over it whose cursor stands two bytes before the end of
  the first block.
\<close>

definition ram_device :: "(u64 \<Rightarrow> u8 list) VirtIOBlk" where
  "ram_device = \<lparr>blk_read_block = (\<lambda>d b buf. Inr (take 512 (d b @ replicate 512 0))),
     blk_write_block = (\<lambda>d b buf. Inr (d(b := buf)))\<rparr>"

definition ram_sys :: "(u64 \<Rightarrow> u8 list) block_sys" where
  "ram_sys = \<lparr>bs_queue = [], bs_disk = (\<lambda>b. [])\<rparr>"

definition ram_driver :: "(u64 \<Rightarrow> u8 list) DiskDriver" where
  "ram_driver = \<lparr>dd_device = ram_device, dd_block_id = 0, dd_block_offset = 510\<rparr>"

lemma ram_device_ok: "device_ok ram_device cap"
  by (auto simp: device_ok_def disk_block_def ram_device_def min_def)

lemma ram_driver_ok: "driver_ok ram_driver cap ram_sys"
  by (simp add: driver_ok_def ram_driver_def cache_idle_def cache_inv_def ram_device_ok ram_sys_def
      handles_def BLOCK_SIZE_def)

lemma ram_driver_pos: "driver_pos ram_driver = 510"
  by (simp add: driver_pos_def disk_pos_def ram_driver_def)

lemma length_four: "length [w, x, y, z] = 4"
  by simp

lemma ram_logical: "b < 4 \<Longrightarrow> logical ram_device ram_sys b = replicate 512 0"
  by (simp add: logical_def ram_sys_def disk_block_def ram_device_def)

text \<open>
  Property C10. \<^verbatim>\<open>DiskDriver::write\<close> terminates without a panic and replaces exactly the bytes from the cursor on
  by the buffer, across block boundaries and evictions; the cursor moves past them.
\<close>

theorem DiskDriver_write_bytes:
  assumes "driver_ok self cap s" "length buf < 2 ^ 32" "driver_pos self + length buf \<le> 512 * unat cap"
  shows "\<exists>self' s'. DiskDriver_write self s buf = Some (length buf, self', s')
    \<and> driver_ok self' cap s' \<and> driver_pos self' = driver_pos self + length buf
    \<and> (\<forall>a < 512 * unat cap. disk_byte (dd_device self) s' a =
        (if driver_pos self \<le> a \<and> a < driver_pos self + length buf then buf ! (a - driver_pos self)
         else disk_byte (dd_device self) s a))"
  by (rule DiskDriver_write_spec [OF assms]) blast

theorem DiskDriver_write_bytes_witness:
  "\<exists>self' s'. DiskDriver_write ram_driver ram_sys [1, 2, 3, 4] = Some (4, self', s')
    \<and> driver_pos self' = 514 \<and> disk_byte (dd_device ram_driver) s' 511 = 2
    \<and> disk_byte (dd_device ram_driver) s' 512 = 3"
proof -
  from DiskDriver_write_bytes [OF ram_driver_ok, of "[1, 2, 3, 4]" 4, unfolded length_four] obtain self' s' where
    "DiskDriver_write ram_driver ram_sys [1, 2, 3, 4] = Some (4, self', s')" "driver_pos self' = 514"
    and "\<forall>a < 2048. disk_byte (dd_device ram_driver) s' a =
      (if 510 \<le> a \<and> a < 514 then [1, 2, 3, 4] ! (a - 510) else disk_byte (dd_device ram_driver) ram_sys a)"
    by (auto simp: ram_driver_pos)
  then show ?thesis by auto
qed

text \<open>
  Property C11. \<^verbatim>\<open>DiskDriver::read\<close> terminates without a panic, fills the whole buffer with the bytes from the
  cursor on, moves the cursor past them and changes no byte of the disk.
\<close>

theorem DiskDriver_read_bytes:
  assumes "driver_ok self cap s" "length buf < 2 ^ 32" "driver_pos self + length buf \<le> 512 * unat cap"
  shows "\<exists>self' s'. DiskDriver_read self s buf = Some (length buf,
      map (disk_byte (dd_device self) s) [driver_pos self ..< driver_pos self + length buf], self', s')
    \<and> driver_ok self' cap s' \<and> driver_pos self' = driver_pos self + length buf
    \<and> (\<forall>a < 512 * unat cap. disk_byte (dd_device self) s' a = disk_byte (dd_device self) s a)"
  by (rule DiskDriver_read_spec [OF assms]) blast

theorem DiskDriver_read_bytes_witness:
  "\<exists>self' s'. DiskDriver_read ram_driver ram_sys [7, 7, 7] = Some (3, [0, 0, 0], self', s')
    \<and> driver_pos self' = 513"
proof -
  have "disk_byte (dd_device ram_driver) ram_sys a = 0" if "a < 2048" for a
  proof -
    have "(word_of_nat (a div 512) :: u64) < 4"
      using that by (simp add: word_less_nat_alt unsigned_of_nat take_bit_nat_eq_self)
    then show ?thesis
      using that by (simp add: disk_byte_def byte_at_def ram_driver_def ram_logical)
  qed
  then show ?thesis
    using DiskDriver_read_bytes [OF ram_driver_ok, of "[7, 7, 7]" 4]
    by (auto simp: ram_driver_pos upt_rec)
qed

text \<open>
  Property C15. After \<^verbatim>\<open>flush\<close> the device itself holds every block as it was seen through the cache, so no
  write is lost.
\<close>

theorem DiskDriver_flush_durable:
  assumes "cache_inv dev cap s"
  shows "\<exists>s'. DiskDriver_flush s = Some s' \<and> cache_inv dev cap s'
    \<and> (\<forall>b<cap. disk_block dev (bs_disk s') b = logical dev s b \<and> logical dev s' b = logical dev s b)"
  unfolding DiskDriver_flush_def by (rule block_cache_sync_all_spec [OF assms]) auto

definition dirty_sys :: "(u64 \<Rightarrow> u8 list) block_sys" where
  "dirty_sys = \<lparr>bs_queue = [(2, \<lparr>bc_cache = replicate 512 9, bc_block_id = 2,
     bc_block_device = ram_device, bc_modified = True\<rparr>, 0)], bs_disk = (\<lambda>b. [])\<rparr>"

theorem DiskDriver_flush_durable_witness:
  "\<exists>s'. DiskDriver_flush dirty_sys = Some s' \<and> disk_block ram_device (bs_disk s') 2 = replicate 512 9
    \<and> disk_block ram_device (bs_disk dirty_sys) 2 = replicate 512 0"
proof -
  have "cache_inv ram_device 4 dirty_sys"
    by (simp add: cache_inv_def dirty_sys_def ram_device_ok entry_ok_def BLOCK_CACHE_SIZE_def)
  from DiskDriver_flush_durable [OF this] show ?thesis
    by (auto simp: logical_def dirty_sys_def disk_block_def ram_device_def)
qed

text \<open>
  Property C16. Seeking back to where a write began and reading as many bytes returns what was written.
\<close>

theorem DiskDriver_write_read:
  assumes "driver_ok self cap s" "length buf < 2 ^ 32" "driver_pos self + length buf \<le> 512 * unat cap"
    and "driver_pos self < 2 ^ 64"
  shows "\<exists>self1 s1 self2 self3 s3. DiskDriver_write self s buf = Some (length buf, self1, s1)
    \<and> DiskDriver_seek self1 (Start (word_of_nat (driver_pos self)))
      = Some (Inr (word_of_nat (driver_pos self), self2))
    \<and> DiskDriver_read self2 s1 (replicate (length buf) 0) = Some (length buf, buf, self3, s3)"
proof -
  let ?n = "word_of_nat (driver_pos self) :: u64"
  obtain self1 s1 where w: "DiskDriver_write self s buf = Some (length buf, self1, s1)"
    "driver_ok self1 cap s1" "dd_device self1 = dd_device self"
    and bytes: "\<And>a. a < 512 * unat cap \<Longrightarrow> disk_byte (dd_device self) s1 a =
      (if driver_pos self \<le> a \<and> a < driver_pos self + length buf then buf ! (a - driver_pos self)
       else disk_byte (dd_device self) s a)"
    using DiskDriver_write_spec [OF assms(1-3)] by metis
  obtain self2 where sk: "DiskDriver_seek self1 (Start ?n) = Some (Inr (?n, self2))"
    "driver_pos self2 = driver_pos self" "dd_block_offset self2 < BLOCK_SIZE" "dd_device self2 = dd_device self"
    using DiskDriver_seek_Start [of self1 ?n] assms(4) w(3)
    by (auto simp: unsigned_of_nat take_bit_nat_eq_self)
  have "driver_ok self2 cap s1" using w sk by (simp add: driver_ok_def)
  from DiskDriver_read_spec [OF this, of "replicate (length buf) 0"] assms sk obtain self3 s3 where r: "DiskDriver_read self2 s1 (replicate (length buf) 0) = Some (length buf,
      map (disk_byte (dd_device self) s1) [driver_pos self ..< driver_pos self + length buf], self3, s3)"
    by (metis length_replicate)
  have "map (disk_byte (dd_device self) s1) [driver_pos self ..< driver_pos self + length buf] = buf"
    using bytes assms(3) by (intro nth_equalityI) simp_all
  then show ?thesis using w sk r by auto
qed

theorem DiskDriver_write_read_witness:
  "\<exists>self1 s1 self2 self3 s3. DiskDriver_write ram_driver ram_sys [1, 2, 3, 4] = Some (4, self1, s1)
    \<and> DiskDriver_seek self1 (Start 510) = Some (Inr (510, self2))
    \<and> DiskDriver_read self2 s1 (replicate 4 0) = Some (4, [1, 2, 3, 4], self3, s3)"
  using DiskDriver_write_read [OF ram_driver_ok, of "[1, 2, 3, 4]" 4, unfolded length_four]
  by (simp add: ram_driver_pos)

end
