(* ===== verification/Buddy.thy ===== *)
theory Buddy
  imports Utils
begin

text \<open>
  The buddy frame allocator of \<^verbatim>\<open>deps/buddy_system_allocator/src/frame.rs\<close>. Free blocks of
  \<open>2 ^ k\<close> frames, aligned to their size, are kept in the ordered set \<open>free_list ! k\<close>. The const
  generic \<^verbatim>\<open>ORDER\<close> is the length of that list. Main results: the free blocks stay aligned and
  pairwise disjoint; an allocation takes an aligned block out of the free frames and changes
  nothing else, and fails only if no large enough block is free; a deallocation puts the frames
  back, merging buddies.
\<close>

section \<open>The allocator\<close>

record FrameAllocator =
  fa_free_list :: "usize list list"
  fa_allocated :: usize
  fa_total :: usize

definition FrameAllocator_new :: "nat \<Rightarrow> FrameAllocator" where
  "FrameAllocator_new order = \<lparr>fa_free_list = replicate order [], fa_allocated = 0, fa_total = 0\<rparr>"

definition prev_power_of_two :: "usize \<Rightarrow> usize" where
  "prev_power_of_two num = push_bit (64 - leading_zeros num - 1) 1"

text \<open>The body of the loop of \<^verbatim>\<open>add_frame\<close>: the size of the next block.\<close>

definition next_block_size :: "nat \<Rightarrow> usize \<Rightarrow> usize \<Rightarrow> usize" where
  "next_block_size order current_start end_frame =
     (let lowbit = (if current_start > 0 then current_start AND (NOT current_start + 1) else 32)
      in min (min lowbit (prev_power_of_two (end_frame - current_start))) (push_bit (order - 1) 1))"

partial_function (option) add_frame_loop ::
  "usize list list \<Rightarrow> usize \<Rightarrow> usize \<Rightarrow> usize \<Rightarrow> (usize list list \<times> usize) option" where
  "add_frame_loop fl current_start end_frame tot =
     (if current_start < end_frame then do {
        let sz = next_block_size (length fl) current_start end_frame;
        let class = trailing_zeros sz;
        blocks \<leftarrow> slice_get fl class;
        add_frame_loop (fl[class := bset_insert current_start blocks]) (current_start + sz) end_frame
          (tot + sz) }
      else Some (fl, tot))"

declare add_frame_loop.simps [code]

definition add_frame :: "FrameAllocator \<Rightarrow> usize \<Rightarrow> usize \<Rightarrow> FrameAllocator option" where
  "add_frame self start end_frame = do {
     rust_assert (start \<le> end_frame);
     (fl, tot) \<leftarrow> add_frame_loop (fa_free_list self) start end_frame 0;
     Some (self\<lparr>fa_free_list := fl, fa_total := fa_total self + tot\<rparr>) }"

text \<open>\<^verbatim>\<open>insert\<close> takes the same range as a pair.\<close>

definition insert_range :: "FrameAllocator \<Rightarrow> usize \<times> usize \<Rightarrow> FrameAllocator option" where
  "insert_range self r = add_frame self (fst r) (snd r)"

text \<open>
  The inner loop of \<^verbatim>\<open>alloc_power_of_two\<close>, from class \<^term>\<open>j\<close> down to \<^term>\<open>class + 1\<close>. The flag is false
  when the loop left the function early.
\<close>

fun split_blocks :: "usize list list \<Rightarrow> nat \<Rightarrow> nat \<Rightarrow> usize list list \<times> bool" where
  "split_blocks fl class 0 = (fl, True)"
| "split_blocks fl class (Suc j) =
     (if Suc j \<le> class then (fl, True)
      else case fl ! Suc j of
        [] \<Rightarrow> (fl, False)
      | block # _ \<Rightarrow>
          let lower = bset_insert block (bset_insert (block + push_bit j 1) (fl ! j));
              upper = snd (bset_remove block (fl ! Suc j))
          in split_blocks (fl[j := lower, Suc j := upper]) class j)"

text \<open>The first non-empty class at or above \<^term>\<open>i\<close>, the search of the outer loop.\<close>

function find_class :: "usize list list \<Rightarrow> nat \<Rightarrow> nat option" where
  "find_class fl i = (if i < length fl then (if fl ! i \<noteq> [] then Some i else find_class fl (Suc i)) else None)"
  by pat_completeness auto

termination
  by (relation "measure (\<lambda>(fl, i). length fl - i)") auto

declare find_class.simps [simp del]

definition alloc_power_of_two :: "FrameAllocator \<Rightarrow> usize \<Rightarrow> usize option \<times> FrameAllocator" where
  "alloc_power_of_two self sz =
     (let class = trailing_zeros sz in
      case find_class (fa_free_list self) class of
        None \<Rightarrow> (None, self)
      | Some i \<Rightarrow>
          (case split_blocks (fa_free_list self) class i of
            (fl, False) \<Rightarrow> (None, self\<lparr>fa_free_list := fl\<rparr>)
          | (fl, True) \<Rightarrow>
              (case fl ! class of
                [] \<Rightarrow> (None, self\<lparr>fa_free_list := fl\<rparr>)
              | result # _ \<Rightarrow>
                  (Some result,
                   self\<lparr>fa_free_list := fl[class := snd (bset_remove result (fl ! class))],
                     fa_allocated := fa_allocated self + sz\<rparr>))))"

definition buddy_alloc :: "FrameAllocator \<Rightarrow> usize \<Rightarrow> usize option \<times> FrameAllocator" where
  "buddy_alloc self count = alloc_power_of_two self (next_power_of_two count)"

text \<open>\<^verbatim>\<open>Layout\<close>: a sz and an alignment.\<close>

record Layout =
  layout_size :: usize
  layout_align :: usize

definition alloc_aligned :: "FrameAllocator \<Rightarrow> Layout \<Rightarrow> usize option \<times> FrameAllocator" where
  "alloc_aligned self layout =
     alloc_power_of_two self (max (next_power_of_two (layout_size layout)) (layout_align layout))"

function merge_free :: "usize list list \<Rightarrow> usize \<Rightarrow> nat \<Rightarrow> usize list list" where
  "merge_free fl current_ptr current_class =
     (if current_class < length fl then
        let buddy = current_ptr XOR push_bit current_class 1;
            (found, rest) = bset_remove buddy (fl ! current_class)
        in if found then merge_free (fl[current_class := rest]) (min current_ptr buddy) (Suc current_class)
           else fl[current_class := bset_insert current_ptr (fl ! current_class)]
      else fl)"
  by pat_completeness auto

termination
  by (relation "measure (\<lambda>(fl, _, c). length fl - c)") auto

declare merge_free.simps [simp del]

definition dealloc_power_of_two :: "FrameAllocator \<Rightarrow> usize \<Rightarrow> usize \<Rightarrow> FrameAllocator" where
  "dealloc_power_of_two self start_frame sz =
     self\<lparr>fa_free_list := merge_free (fa_free_list self) start_frame (trailing_zeros sz),
       fa_allocated := fa_allocated self - sz\<rparr>"

definition buddy_dealloc :: "FrameAllocator \<Rightarrow> usize \<Rightarrow> usize \<Rightarrow> FrameAllocator" where
  "buddy_dealloc self start_frame count = dealloc_power_of_two self start_frame (next_power_of_two count)"

definition dealloc_aligned :: "FrameAllocator \<Rightarrow> usize \<Rightarrow> Layout \<Rightarrow> FrameAllocator" where
  "dealloc_aligned self start_frame layout =
     dealloc_power_of_two self start_frame
       (max (next_power_of_two (layout_size layout)) (layout_align layout))"

section \<open>Sets of aligned blocks\<close>

text \<open>A block is a pair of its class and its first frame.\<close>

definition cover :: "nat \<times> nat \<Rightarrow> nat set" where
  "cover b = {snd b ..< snd b + 2 ^ fst b}"

definition frames :: "(nat \<times> nat) set \<Rightarrow> nat set" where
  "frames B = (\<Union>b \<in> B. cover b)"

definition blocks_ok :: "nat \<Rightarrow> (nat \<times> nat) set \<Rightarrow> bool" where
  "blocks_ok n B \<longleftrightarrow> (\<forall>b \<in> B. 2 ^ fst b dvd snd b \<and> snd b + 2 ^ fst b \<le> n)
     \<and> (\<forall>b \<in> B. \<forall>c \<in> B. b \<noteq> c \<longrightarrow> cover b \<inter> cover c = {})"

lemma cover_nonempty: "snd b \<in> cover b"
  by (simp add: cover_def)

lemma blocks_okD: "blocks_ok n B \<Longrightarrow> (k, p) \<in> B \<Longrightarrow> 2 ^ k dvd p \<and> p + 2 ^ k \<le> n"
  unfolding blocks_ok_def by (metis fst_conv snd_conv)

lemma blocks_ok_remove:
  assumes "blocks_ok n B" "b \<in> B"
  shows "blocks_ok n (B - {b})" and "frames (B - {b}) = frames B - cover b"
  using assms unfolding blocks_ok_def frames_def by blast+

lemma blocks_ok_insert:
  assumes "blocks_ok n B" "2 ^ fst b dvd snd b" "snd b + 2 ^ fst b \<le> n" "cover b \<inter> frames B = {}"
  shows "blocks_ok n (insert b B)" and "frames (insert b B) = frames B \<union> cover b"
  using assms unfolding blocks_ok_def frames_def by blast+

lemma cover_split: "cover (Suc k, p) = cover (k, p) \<union> cover (k, p + 2 ^ k)"
  by (auto simp: cover_def)

lemma blocks_ok_split:
  assumes ok: "blocks_ok n B" and b: "(Suc k, p) \<in> B"
  shows "blocks_ok n (insert (k, p) (insert (k, p + 2 ^ k) (B - {(Suc k, p)})))"
    and "frames (insert (k, p) (insert (k, p + 2 ^ k) (B - {(Suc k, p)}))) = frames B"
proof -
  note rm = blocks_ok_remove [OF ok b]
  have al: "2 ^ Suc k dvd p" "p + 2 ^ Suc k \<le> n" using blocks_okD [OF ok b] by simp_all
  then have dvd: "2 ^ k dvd p" "2 ^ k dvd p + 2 ^ k"
    by (auto intro: dvd_trans [OF le_imp_power_dvd [of k "Suc k"]])
  have sub: "cover (Suc k, p) \<subseteq> frames B" using b by (auto simp: frames_def)
  let ?hi = "insert (k, p + 2 ^ k) (B - {(Suc k, p)})"
  have "cover (k, p + 2 ^ k) \<inter> frames (B - {(Suc k, p)}) = {}"
    using rm(2) by (auto simp: cover_split)
  then have hi: "blocks_ok n ?hi" "frames ?hi = frames (B - {(Suc k, p)}) \<union> cover (k, p + 2 ^ k)"
    using blocks_ok_insert [OF rm(1), of "(k, p + 2 ^ k)"] dvd(2) al(2) by simp_all
  have "cover (k, p) \<inter> cover (k, p + 2 ^ k) = {}" by (auto simp: cover_def)
  then have "cover (k, p) \<inter> frames ?hi = {}"
    using hi(2) rm(2) by (auto simp: cover_split)
  then have lo: "blocks_ok n (insert (k, p) ?hi)" "frames (insert (k, p) ?hi) = frames ?hi \<union> cover (k, p)"
    using blocks_ok_insert [OF hi(1), of "(k, p)"] dvd(1) al(2) by simp_all
  show "blocks_ok n (insert (k, p) ?hi)" by (rule lo(1))
  show "frames (insert (k, p) ?hi) = frames B"
    using lo(2) hi(2) rm(2) sub by (auto simp: cover_split)
qed

section \<open>The invariant\<close>

definition fl_blocks :: "usize list list \<Rightarrow> (nat \<times> nat) set" where
  "fl_blocks fl = {(k, unat p) | k p. k < length fl \<and> p \<in> set (fl ! k)}"

definition fl_wf :: "usize list list \<Rightarrow> bool" where
  "fl_wf fl \<longleftrightarrow> length fl \<le> 64 \<and> (\<forall>xs \<in> set fl. bset_wf xs)"

text \<open>All free frames lie below \<^term>\<open>n\<close>.\<close>

definition fl_inv :: "nat \<Rightarrow> usize list list \<Rightarrow> bool" where
  "fl_inv n fl \<longleftrightarrow> fl_wf fl \<and> blocks_ok n (fl_blocks fl) \<and> n < 2 ^ 64"

definition free_frames :: "usize list list \<Rightarrow> nat set" where
  "free_frames fl = frames (fl_blocks fl)"

lemma fl_blocks_mem: "(k, p) \<in> fl_blocks fl \<longleftrightarrow> k < length fl \<and> p \<in> unat ` set (fl ! k)"
  by (auto simp: fl_blocks_def)

lemma fl_wf_nth: "fl_wf fl \<Longrightarrow> k < length fl \<Longrightarrow> bset_wf (fl ! k)"
  by (simp add: fl_wf_def)

lemma fl_wf_update: "fl_wf fl \<Longrightarrow> bset_wf xs \<Longrightarrow> fl_wf (fl[k := xs])"
  by (auto simp: fl_wf_def dest: set_update_subset_insert [THEN subsetD])

lemma fl_blocks_insert:
  "k < length fl \<Longrightarrow> fl_blocks (fl[k := bset_insert p (fl ! k)]) = insert (k, unat p) (fl_blocks fl)"
  by (auto simp: fl_blocks_mem nth_list_update split: if_splits)

lemma fl_blocks_remove:
  "k < length fl \<Longrightarrow> fl_wf fl \<Longrightarrow>
     fl_blocks (fl[k := snd (bset_remove p (fl ! k))]) = fl_blocks fl - {(k, unat p)}"
  using fl_wf_nth [of fl k]
  by (auto simp: fl_blocks_mem nth_list_update image_iff word_unat_eq_iff split: if_splits)

text \<open>Splitting the first block of class \<^term>\<open>Suc j\<close> changes no frame.\<close>

lemma split_step:
  assumes inv: "fl_inv n fl" and j: "Suc j < length fl" and b: "block \<in> set (fl ! Suc j)"
  defines "fl' \<equiv> fl[j := bset_insert block (bset_insert (block + push_bit j 1) (fl ! j)),
      Suc j := snd (bset_remove block (fl ! Suc j))]"
  shows "fl_inv n fl'" "free_frames fl' = free_frames fl" "length fl' = length fl" "block \<in> set (fl' ! j)"
proof -
  have wf: "fl_wf fl" and ok: "blocks_ok n (fl_blocks fl)" and n: "n < 2 ^ 64"
    using inv by (simp_all add: fl_inv_def)
  have mem: "(Suc j, unat block) \<in> fl_blocks fl" using j b by (auto simp: fl_blocks_mem)
  then have bound: "unat block + 2 ^ Suc j \<le> n" using blocks_okD [OF ok] by blast
  have "j < 64" using j wf by (simp add: fl_wf_def)
  then have up: "unat (block + push_bit j 1) = unat block + 2 ^ j"
    using bound n by (simp add: push_bit_eq_mult unat_word_ariths)
  let ?fl1 = "fl[j := bset_insert block (bset_insert (block + push_bit j 1) (fl ! j))]"
  have "fl_blocks ?fl1 = insert (j, unat block) (insert (j, unat block + 2 ^ j) (fl_blocks fl))"
    using j up [symmetric] by (auto simp: fl_blocks_mem nth_list_update image_iff split: if_splits)
  moreover have wf1: "fl_wf ?fl1" using wf j by (intro fl_wf_update) (simp_all add: fl_wf_nth)
  moreover have "fl' = ?fl1[Suc j := snd (bset_remove block (?fl1 ! Suc j))]"
    using j by (simp add: fl'_def)
  ultimately have blocks: "fl_blocks fl'
      = insert (j, unat block) (insert (j, unat block + 2 ^ j) (fl_blocks fl - {(Suc j, unat block)}))"
    using fl_blocks_remove [of "Suc j" ?fl1 block] j by auto
  have "fl_wf fl'" using wf1 wf j unfolding fl'_def
    by (intro fl_wf_update) (simp_all add: fl_wf_nth)
  then show "fl_inv n fl'"
    using blocks_ok_split(1) [OF ok mem] n by (simp add: fl_inv_def blocks)
  show "free_frames fl' = free_frames fl"
    using blocks_ok_split(2) [OF ok mem] by (simp add: free_frames_def blocks)
  show "length fl' = length fl" "block \<in> set (fl' ! j)"
    using j by (simp_all add: fl'_def)
qed

lemma find_class_unfold:
  "i < length fl \<Longrightarrow> fl ! i \<noteq> [] \<Longrightarrow> find_class fl i = Some i"
  "i < length fl \<Longrightarrow> fl ! i = [] \<Longrightarrow> find_class fl i = find_class fl (Suc i)"
  "length fl \<le> i \<Longrightarrow> find_class fl i = None"
  by (subst find_class.simps, simp)+

lemma find_class_Some:
  "find_class fl i = Some k \<Longrightarrow> i \<le> k \<and> k < length fl \<and> fl ! k \<noteq> []"
proof (induction fl i rule: find_class.induct)
  case (1 fl i)
  consider "length fl \<le> i" | "i < length fl" "fl ! i \<noteq> []" | "i < length fl" "fl ! i = []"
    by linarith
  then show ?case
  proof cases
    case 3
    with "1.prems" have "find_class fl (Suc i) = Some k" by (simp add: find_class_unfold(2))
    with "1.IH" 3 show ?thesis by simp
  qed (use "1.prems" find_class_unfold(1) [of i fl] find_class_unfold(3) [of fl i] in auto)
qed

lemma find_class_None:
  "find_class fl i = None \<Longrightarrow> i \<le> k \<Longrightarrow> k < length fl \<Longrightarrow> fl ! k = []"
proof (induction fl i rule: find_class.induct)
  case (1 fl i)
  have i: "i < length fl" using "1.prems"(2,3) by simp
  have e: "fl ! i = []"
  proof (rule ccontr)
    assume "fl ! i \<noteq> []"
    with find_class_unfold(1) [OF i] "1.prems"(1) show False by simp
  qed
  show ?case
  proof (cases "i = k")
    case False
    have "find_class fl (Suc i) = None" using find_class_unfold(2) [OF i e] "1.prems"(1) by simp
    then show ?thesis using "1.IH" [OF i] e False "1.prems"(2,3) by simp
  qed (use e in simp)
qed

lemma split_blocks_spec:
  assumes "fl_inv n fl" "class \<le> i" "i < length fl" "fl ! i \<noteq> []"
  shows "\<exists>fl'. split_blocks fl class i = (fl', True) \<and> fl_inv n fl' \<and> free_frames fl' = free_frames fl
    \<and> length fl' = length fl \<and> fl' ! class \<noteq> []"
  using assms
proof (induction fl "class" i rule: split_blocks.induct)
  case (2 fl cl j)
  show ?case
  proof (cases "Suc j \<le> cl")
    case True
    with "2.prems"(2) have "cl = Suc j" by (rule le_antisym)
    with "2.prems" True show ?thesis by simp
  next
    case False
    from "2.prems"(4) obtain block rest where b: "fl ! Suc j = block # rest" by (cases "fl ! Suc j") auto
    then have "block \<in> set (fl ! Suc j)" by simp
    note step = split_step [OF "2.prems"(1,3) this]
    let ?fl = "fl[j := bset_insert block (bset_insert (block + push_bit j 1) (fl ! j)),
      Suc j := snd (bset_remove block (fl ! Suc j))]"
    have "\<exists>fl'. split_blocks ?fl cl j = (fl', True) \<and> fl_inv n fl' \<and> free_frames fl' = free_frames ?fl
      \<and> length fl' = length ?fl \<and> fl' ! cl \<noteq> []"
    proof (rule "2.IH" [OF False b refl refl])
      show "?fl ! j \<noteq> []" using step(4) by (metis empty_iff list.set(1))
      show "cl \<le> j" using False by simp
      show "j < length ?fl" using "2.prems"(3) by simp
    qed (rule step(1))
    then show ?thesis using False b step by simp
  qed
qed auto

text \<open>
  Allocating a block of class \<^term>\<open>k\<close> fails exactly if no class from \<^term>\<open>k\<close> on has a free block, and then
  changes nothing. Otherwise it removes an aligned block of \<open>2 ^ k\<close> frames from the free frames.
\<close>

lemma alloc_power_of_two_spec:
  assumes inv: "fl_inv n (fa_free_list s)" and k: "k < 64"
  shows "(case alloc_power_of_two s (2 ^ k) of
      (None, s') \<Rightarrow> s' = s \<and> (\<forall>b \<in> fl_blocks (fa_free_list s). fst b < k)
    | (Some p, s') \<Rightarrow> fl_inv n (fa_free_list s') \<and> length (fa_free_list s') = length (fa_free_list s)
        \<and> 2 ^ k dvd unat p \<and> cover (k, unat p) \<subseteq> free_frames (fa_free_list s)
        \<and> free_frames (fa_free_list s') = free_frames (fa_free_list s) - cover (k, unat p)
        \<and> fa_allocated s' = fa_allocated s + 2 ^ k \<and> fa_total s' = fa_total s)"
proof (cases "find_class (fa_free_list s) k")
  case None
  have "j < k" if "(j, p) \<in> fl_blocks (fa_free_list s)" for j p
    using that find_class_None [OF None, of j] by (cases "k \<le> j") (auto simp: fl_blocks_mem)
  then have "\<forall>b \<in> fl_blocks (fa_free_list s). fst b < k" by auto
  with None k show ?thesis by (simp add: alloc_power_of_two_def)
next
  case (Some i)
  from find_class_Some [OF Some] have i: "k \<le> i" "i < length (fa_free_list s)" "fa_free_list s ! i \<noteq> []"
    by auto
  from split_blocks_spec [OF inv i] obtain fl where
    fl: "split_blocks (fa_free_list s) k i = (fl, True)" "fl_inv n fl"
      "free_frames fl = free_frames (fa_free_list s)" "length fl = length (fa_free_list s)" "fl ! k \<noteq> []"
    by blast
  then obtain p ps where p: "fl ! k = p # ps" by (cases "fl ! k") auto
  have kl: "k < length fl" using i fl(4) by simp
  let ?fl = "fl[k := snd (bset_remove p (fl ! k))]"
  have wf: "fl_wf fl" and ok: "blocks_ok n (fl_blocks fl)" using fl(2) by (simp_all add: fl_inv_def)
  have mem: "(k, unat p) \<in> fl_blocks fl" using kl p by (auto simp: fl_blocks_mem)
  have blocks: "fl_blocks ?fl = fl_blocks fl - {(k, unat p)}" using fl_blocks_remove [OF kl wf] .
  have "fl_wf ?fl" using wf kl by (intro fl_wf_update) (simp_all add: fl_wf_nth)
  then have "fl_inv n ?fl"
    using blocks_ok_remove(1) [OF ok mem] fl(2) by (simp add: fl_inv_def blocks)
  moreover have "free_frames ?fl = free_frames (fa_free_list s) - cover (k, unat p)"
    using blocks_ok_remove(2) [OF ok mem] fl(3) by (simp add: free_frames_def blocks)
  moreover have "2 ^ k dvd unat p" using blocks_okD [OF ok mem] by simp
  moreover have "cover (k, unat p) \<subseteq> free_frames fl"
    unfolding free_frames_def frames_def by (rule UN_upper [OF mem])
  then have "cover (k, unat p) \<subseteq> free_frames (fa_free_list s)" by (simp only: fl(3))
  moreover have "alloc_power_of_two s (2 ^ k)
      = (Some p, s\<lparr>fa_free_list := ?fl, fa_allocated := fa_allocated s + 2 ^ k\<rparr>)"
    using k by (simp add: alloc_power_of_two_def Some fl(1) p)
  ultimately show ?thesis using fl(4) by simp
qed

text \<open>The buddy of an aligned block is its neighbour in the block of twice the size.\<close>

lemma xor_power_nat: "(q::nat) XOR 2 ^ c = (if odd (q div 2 ^ c) then q - 2 ^ c else q + 2 ^ c)"
proof -
  have add: "x XOR 2 ^ c = x + 2 ^ c" if "\<not> bit x c" for x :: nat
  proof -
    have "x AND 2 ^ c = 0" using that by (intro bit_eqI) (auto simp: bit_simps)
    then show ?thesis by (simp add: disjunctive_add_eq_xor)
  qed
  show ?thesis
  proof (cases "bit q c")
    case True
    then have "\<not> bit (q XOR 2 ^ c) c" by (simp add: bit_simps)
    from add [OF this] have "q = (q XOR 2 ^ c) + 2 ^ c" by (simp add: xor.assoc)
    then have "q XOR 2 ^ c = q - 2 ^ c" by (metis add_diff_cancel_right')
    with True show ?thesis by (simp add: bit_iff_odd)
  next
    case False
    with add [OF this] show ?thesis by (simp add: bit_iff_odd)
  qed
qed

lemma buddy_spec:
  fixes p :: usize
  assumes c: "c < 64" and al: "2 ^ c dvd unat p"
  defines "m \<equiv> min (unat p) (unat (p XOR push_bit c 1))"
  shows "cover (Suc c, m) = cover (c, unat p) \<union> cover (c, unat (p XOR push_bit c 1))"
    and "2 ^ Suc c dvd m" and "p XOR push_bit c 1 \<noteq> p" and "unat (min p (p XOR push_bit c 1)) = m"
    and "m + 2 ^ Suc c = max (unat p) (unat (p XOR push_bit c 1)) + 2 ^ c"
proof -
  from al obtain q where q: "unat p = 2 ^ c * q" by (elim dvdE)
  have x: "unat (p XOR push_bit c 1) = unat p XOR 2 ^ c"
    using c by (simp add: unsigned_xor_eq)
  have "unat p div 2 ^ c = q" using q by simp
  then have b: "unat (p XOR push_bit c 1) = (if odd q then unat p - 2 ^ c else unat p + 2 ^ c)"
    using x xor_power_nat [of "unat p" c] by simp
  show "unat (min p (p XOR push_bit c 1)) = m"
    by (simp add: m_def min_def word_le_nat_alt)
  have "\<exists>r. m = 2 ^ Suc c * r \<and> (unat p = m \<and> unat (p XOR push_bit c 1) = m + 2 ^ c
      \<or> unat p = m + 2 ^ c \<and> unat (p XOR push_bit c 1) = m)"
  proof (cases "odd q")
    case True
    then obtain r where r: "q = 2 * r + 1" by (elim oddE)
    then have p: "unat p = 2 ^ Suc c * r + 2 ^ c" using q by (simp add: algebra_simps)
    then have "unat (p XOR push_bit c 1) = 2 ^ Suc c * r" using b True by simp
    with p show ?thesis unfolding m_def by (intro exI [of _ r]) simp
  next
    case False
    then obtain r where r: "q = 2 * r" by (auto elim: evenE)
    then have p: "unat p = 2 ^ Suc c * r" using q by simp
    then have "unat (p XOR push_bit c 1) = 2 ^ Suc c * r + 2 ^ c" using b False by simp
    with p show ?thesis unfolding m_def by (intro exI [of _ r]) simp
  qed
  then obtain r where r: "m = 2 ^ Suc c * r" "unat p = m \<and> unat (p XOR push_bit c 1) = m + 2 ^ c
      \<or> unat p = m + 2 ^ c \<and> unat (p XOR push_bit c 1) = m" by blast
  show "2 ^ Suc c dvd m" using r(1) by simp
  have "unat (p XOR push_bit c 1) \<noteq> unat p"
    using r(2) zero_less_power [of "2::nat" c] by linarith
  then show "p XOR push_bit c 1 \<noteq> p" by metis
  have two: "m + 2 ^ Suc c = m + 2 ^ c + 2 ^ c" by simp
  show "m + 2 ^ Suc c = max (unat p) (unat (p XOR push_bit c 1)) + 2 ^ c"
    unfolding two using r(2) by linarith
  show "cover (Suc c, m) = cover (c, unat p) \<union> cover (c, unat (p XOR push_bit c 1))"
    unfolding cover_split using r(2) by (elim disjE conjE) (simp_all only: Un_commute)
qed

lemma merge_free_spec:
  assumes "fl_inv n fl" "n < 2 ^ length fl" "2 ^ c dvd unat p" "unat p + 2 ^ c \<le> n"
    and "cover (c, unat p) \<inter> free_frames fl = {}"
  shows "fl_inv n (merge_free fl p c) \<and> length (merge_free fl p c) = length fl
    \<and> free_frames (merge_free fl p c) = free_frames fl \<union> cover (c, unat p)"
  using assms
proof (induction fl p c rule: merge_free.induct)
  case (1 fl p c)
  let ?b = "p XOR push_bit c 1"
  have "(2::nat) ^ c < 2 ^ length fl" using "1.prems"(2,4) by linarith
  then have c: "c < length fl" by simp
  have wf: "fl_wf fl" and ok: "blocks_ok n (fl_blocks fl)" and n: "n < 2 ^ 64"
    using "1.prems"(1) by (simp_all add: fl_inv_def)
  have c64: "c < 64" using c wf by (simp add: fl_wf_def)
  note buddy = buddy_spec [OF c64 "1.prems"(3)]
  show ?case
  proof (cases "?b \<in> set (fl ! c)")
    case False
    let ?fl = "fl[c := bset_insert p (fl ! c)]"
    have "merge_free fl p c = ?fl"
      using False c by (subst merge_free.simps) (simp add: bset_remove_def)
    moreover have "fl_blocks ?fl = insert (c, unat p) (fl_blocks fl)" using fl_blocks_insert [OF c] .
    moreover have "fl_wf ?fl" using wf c by (intro fl_wf_update) (simp_all add: fl_wf_nth)
    moreover have "cover (c, unat p) \<inter> frames (fl_blocks fl) = {}"
      using "1.prems"(5) by (simp add: free_frames_def)
    ultimately show ?thesis
      using blocks_ok_insert [OF ok, of "(c, unat p)"] "1.prems"(3,4) n
      by (simp add: fl_inv_def free_frames_def)
  next
    case True
    let ?fl = "fl[c := snd (bset_remove ?b (fl ! c))]"
    let ?m = "min p ?b"
    have mem: "(c, unat ?b) \<in> fl_blocks fl" using True c by (auto simp: fl_blocks_mem)
    have blocks: "fl_blocks ?fl = fl_blocks fl - {(c, unat ?b)}" using fl_blocks_remove [OF c wf] .
    have free: "free_frames ?fl = free_frames fl - cover (c, unat ?b)"
      unfolding free_frames_def blocks by (rule blocks_ok_remove(2) [OF ok mem])
    have sub: "cover (c, unat ?b) \<subseteq> free_frames fl"
      unfolding free_frames_def frames_def by (rule UN_upper [OF mem])
    have "fl_wf ?fl" using wf c by (intro fl_wf_update) (simp_all add: fl_wf_nth)
    then have inv: "fl_inv n ?fl"
      using blocks_ok_remove(1) [OF ok mem] n unfolding fl_inv_def blocks by blast
    have cov: "cover (Suc c, unat ?m) = cover (c, unat p) \<union> cover (c, unat ?b)"
      unfolding buddy(4) by (rule buddy(1))
    have top: "unat ?m + 2 ^ Suc c \<le> n"
      using buddy(5) blocks_okD [OF ok mem] "1.prems"(4) unfolding buddy(4) by (simp add: max_def split: if_splits)
    have "fl_inv n (merge_free ?fl ?m (Suc c)) \<and> length (merge_free ?fl ?m (Suc c)) = length ?fl
      \<and> free_frames (merge_free ?fl ?m (Suc c)) = free_frames ?fl \<union> cover (Suc c, unat ?m)"
    proof (rule "1.IH" [OF c refl surjective_pairing [symmetric]])
      show "fst (bset_remove ?b (fl ! c))" using True by simp
      show "n < 2 ^ length ?fl" using "1.prems"(2) by simp
      show "2 ^ Suc c dvd unat ?m" unfolding buddy(4) by (rule buddy(2))
      show "cover (Suc c, unat ?m) \<inter> free_frames ?fl = {}"
        unfolding cov free using "1.prems"(5) by blast
    qed (rule refl inv top)+
    moreover have "merge_free fl p c = merge_free ?fl ?m (Suc c)"
      using True c by (subst merge_free.simps) (simp add: bset_remove_def Let_def)
    ultimately show ?thesis using sub cov free by auto
  qed
qed

section \<open>Adding frames\<close>

lemma prev_power_of_two_spec:
  assumes "0 < num"
  obtains h where "h < 64" "prev_power_of_two num = 2 ^ h" "2 ^ h \<le> unat num"
proof
  let ?b = "bit_length (unat num)"
  have pos: "0 < unat num" using assms by (simp add: unat_gt_0)
  have b: "0 < ?b" "?b \<le> 64"
    using bit_length_pos [OF pos] bit_length_bound [of "unat num" 64] unsigned_less [of num, where 'a = nat]
    by auto
  then show "?b - 1 < 64" by simp
  show "prev_power_of_two num = 2 ^ (?b - 1)"
    using b by (simp add: prev_power_of_two_def leading_zeros_def push_bit_eq_mult)
  show "2 ^ (?b - 1) \<le> unat num" using bit_length_le [OF pos] .
qed

lemma and_uminus_int: "(2 ^ t * (2 * m + 1)) AND - (2 ^ t * (2 * m + 1)) = (2 ^ t :: int)"
proof -
  let ?a = "2 * m + 1"
  have "- ?a = 2 * NOT m + 1" by (simp add: not_int_def)
  then have "?a AND - ?a = 1"
    by (simp add: and_int_rec [of ?a])
  then have "push_bit t ?a AND push_bit t (- ?a) = 2 ^ t"
    unfolding push_bit_and [symmetric] by simp
  moreover have "push_bit t ?a = 2 ^ t * ?a" "push_bit t (- ?a) = - (2 ^ t * ?a)"
    by (simp_all add: push_bit_eq_mult algebra_simps)
  ultimately show ?thesis by (simp only:)
qed

lemma nat_two_power_odd: "0 < n \<Longrightarrow> \<exists>t m. n = 2 ^ t * (2 * m + 1)" for n :: nat
proof (induction n rule: less_induct)
  case (less n)
  show ?case
  proof (cases "even n")
    case True
    then obtain k where k: "n = 2 * k" by (elim evenE)
    with less obtain t m where "k = 2 ^ t * (2 * m + 1)" by fastforce
    with k have "n = 2 ^ Suc t * (2 * m + 1)" by simp
    then show ?thesis by blast
  next
    case False
    then obtain m where "n = 2 * m + 1" by (elim oddE)
    then have "n = 2 ^ 0 * (2 * m + 1)" by simp
    then show ?thesis by blast
  qed
qed

lemma lowbit_spec:
  fixes w :: usize
  assumes "0 < w"
  obtains t where "t < 64" "w AND (NOT w + 1) = 2 ^ t" "2 ^ t dvd unat w"
proof -
  from nat_two_power_odd [of "unat w"] assms obtain t m where
    tm: "unat w = 2 ^ t * (2 * m + 1)" by (auto simp: unat_gt_0)
  then have "2 ^ t \<le> unat w" by simp
  then have "(2::nat) ^ t < 2 ^ 64" using unsigned_less [of w, where 'a = nat] by simp
  then have t: "t < 64" by (rule power_less_imp_less_exp [rotated]) simp
  have w: "w = word_of_int (2 ^ t * (2 * int m + 1))"
    using arg_cong [OF tm, of "word_of_nat :: nat \<Rightarrow> usize"] by (simp add: algebra_simps)
  have "NOT w + 1 = - w" by (simp add: minus_eq_not_plus_1)
  then have "w AND (NOT w + 1) = word_of_int ((2 ^ t * (2 * int m + 1)) AND - (2 ^ t * (2 * int m + 1)))"
    unfolding w by (simp only: wi_hom_neg of_int_and_eq)
  then have "w AND (NOT w + 1) = 2 ^ t" by (simp only: and_uminus_int) simp
  with t tm that show ?thesis by simp
qed

lemma min_power_word: "a < 64 \<Longrightarrow> b < 64 \<Longrightarrow> min (2 ^ a) (2 ^ b) = (2 ^ min a b :: usize)"
  by (auto simp: min_def word_le_nat_alt)

lemma next_block_size_spec:
  assumes lt: "cur < fin" and ord: "0 < order" "order \<le> 64"
  obtains k where "k < order" "next_block_size order cur fin = 2 ^ k"
    "2 ^ k dvd unat cur" "unat cur + 2 ^ k \<le> unat fin"
proof -
  have diff: "unat (fin - cur) = unat fin - unat cur"
    using lt by (simp add: unat_sub)
  have pos: "0 < fin - cur" using lt by (auto simp: word_gt_0)
  obtain h where h: "h < 64" "prev_power_of_two (fin - cur) = 2 ^ h" "2 ^ h \<le> unat (fin - cur)"
    using prev_power_of_two_spec [OF pos] .
  obtain t where t: "t < 64" "(if cur > 0 then cur AND (NOT cur + 1) else 32) = 2 ^ t" "2 ^ t dvd unat cur"
  proof (cases "cur > 0")
    case True
    with lowbit_spec [OF True] that show ?thesis by auto
  next
    case False
    then have "cur = 0" by (simp add: word_gt_0)
    with that [of 5] show ?thesis by simp
  qed
  let ?k = "min (min t h) (order - 1)"
  have "next_block_size order cur fin = min (min (2 ^ t) (2 ^ h)) (2 ^ (order - 1))"
    using t(2) h(2) by (simp add: next_block_size_def Let_def push_bit_eq_mult)
  also have "\<dots> = 2 ^ ?k" using t(1) h(1) ord by (simp add: min_power_word)
  finally have sz: "next_block_size order cur fin = 2 ^ ?k" .
  have "(2::nat) ^ ?k dvd 2 ^ t" by (rule le_imp_power_dvd) simp
  then have "2 ^ ?k dvd unat cur" using t(3) dvd_trans by blast
  moreover have "(2::nat) ^ ?k \<le> 2 ^ h" by (rule power_increasing) simp_all
  then have "unat cur + 2 ^ ?k \<le> unat fin" using h(3) diff lt unfolding word_less_nat_alt by linarith
  ultimately show ?thesis using that [of ?k] sz ord by simp
qed

lemma add_frame_loop_spec:
  assumes "fl_inv n fl" "fl \<noteq> []" "cur \<le> fin" "unat fin \<le> n" "{unat cur ..< unat fin} \<inter> free_frames fl = {}"
  shows "\<exists>fl'. add_frame_loop fl cur fin tot = Some (fl', tot + (fin - cur)) \<and> fl_inv n fl'
    \<and> length fl' = length fl \<and> free_frames fl' = free_frames fl \<union> {unat cur ..< unat fin}"
  using assms
proof (induction "unat fin - unat cur" arbitrary: fl cur tot rule: less_induct)
  case less
  show ?case
  proof (cases "cur < fin")
    case False
    with less.prems(3) have "cur = fin" by simp
    with less.prems(1) show ?thesis by (simp add: add_frame_loop.simps)
  next
    case True
    have wf: "fl_wf fl" and ok: "blocks_ok n (fl_blocks fl)" and n: "n < 2 ^ 64"
      using less.prems(1) by (simp_all add: fl_inv_def)
    have "0 < length fl" "length fl \<le> 64" using less.prems(2) wf by (simp_all add: fl_wf_def)
    from next_block_size_spec [OF True this] obtain k where
      k: "k < length fl" "next_block_size (length fl) cur fin = 2 ^ k" "2 ^ k dvd unat cur"
        "unat cur + 2 ^ k \<le> unat fin" .
    have k64: "k < 64" using k(1) \<open>length fl \<le> 64\<close> by simp
    have next_start: "unat (cur + 2 ^ k) = unat cur + 2 ^ k"
      using k(4) k64 less.prems(4) n by (simp add: unat_word_ariths)
    let ?fl = "fl[k := bset_insert cur (fl ! k)]"
    have blocks: "fl_blocks ?fl = insert (k, unat cur) (fl_blocks fl)" using fl_blocks_insert [OF k(1)] .
    have disj: "cover (k, unat cur) \<inter> frames (fl_blocks fl) = {}"
    proof -
      have "cover (k, unat cur) \<subseteq> {unat cur ..< unat fin}" using k(4) by (auto simp: cover_def)
      with less.prems(5) show ?thesis unfolding free_frames_def by blast
    qed
    have "fl_wf ?fl" using wf k(1) by (intro fl_wf_update) (simp_all add: fl_wf_nth)
    then have inv: "fl_inv n ?fl"
      using blocks_ok_insert(1) [OF ok, of "(k, unat cur)"] disj k(3,4) less.prems(4) n
      by (simp add: fl_inv_def blocks)
    have free: "free_frames ?fl = free_frames fl \<union> cover (k, unat cur)"
      using blocks_ok_insert(2) [OF ok, of "(k, unat cur)"] disj k(3,4) less.prems(4)
      by (simp add: free_frames_def blocks)
    have "\<exists>fl'. add_frame_loop ?fl (cur + 2 ^ k) fin (tot + 2 ^ k) = Some (fl', tot + 2 ^ k + (fin - (cur + 2 ^ k)))
      \<and> fl_inv n fl' \<and> length fl' = length ?fl
      \<and> free_frames fl' = free_frames ?fl \<union> {unat (cur + 2 ^ k) ..< unat fin}"
    proof (rule less.hyps)
      show "unat fin - unat (cur + 2 ^ k) < unat fin - unat cur"
        using True zero_less_power [of "2::nat" k] unfolding next_start word_less_nat_alt by linarith
      show "cur + 2 ^ k \<le> fin" using next_start k(4) by (simp add: word_le_nat_alt)
      show "{unat (cur + 2 ^ k) ..< unat fin} \<inter> free_frames ?fl = {}"
        unfolding free next_start cover_def using less.prems(5) by (auto simp: disjoint_iff)
    qed (use inv less.prems in simp_all)
    moreover have "free_frames ?fl \<union> {unat (cur + 2 ^ k) ..< unat fin}
        = free_frames fl \<union> {unat cur ..< unat fin}"
      unfolding free next_start cover_def using k(4) by auto
    moreover have "add_frame_loop fl cur fin tot = add_frame_loop ?fl (cur + 2 ^ k) fin (tot + 2 ^ k)"
      using True k(1,2) k64 by (subst add_frame_loop.simps) (simp add: slice_get_def Let_def)
    ultimately show ?thesis by simp
  qed
qed

section \<open>Interface: a pool of frames\<close>

text \<open>The frames a request for \<^term>\<open>count\<close> frames occupies from \<^term>\<open>p\<close> on.\<close>

definition range_of :: "usize \<Rightarrow> usize \<Rightarrow> nat set" where
  "range_of p count = {unat p ..< unat p + unat (next_power_of_two count)}"

datatype pool_op = Take usize | Give usize usize

text \<open>
  A client that only gives back what it took. The list holds the ranges it has.
\<close>

fun pool_run :: "('s \<Rightarrow> usize \<Rightarrow> usize option \<times> 's) \<Rightarrow> ('s \<Rightarrow> usize \<Rightarrow> usize \<Rightarrow> 's) \<Rightarrow>
    's \<Rightarrow> (usize \<times> usize) list \<Rightarrow> pool_op list \<Rightarrow> 's \<times> (usize \<times> usize) list" where
  "pool_run take_op give_op s live [] = (s, live)"
| "pool_run take_op give_op s live (Take count # ops) =
     (case take_op s count of
        (None, s') \<Rightarrow> pool_run take_op give_op s' live ops
      | (Some p, s') \<Rightarrow> pool_run take_op give_op s' ((p, count) # live) ops)"
| "pool_run take_op give_op s live (Give p count # ops) =
     (if (p, count) \<in> set live
      then pool_run take_op give_op (give_op s p count) (remove1 (p, count) live) ops
      else pool_run take_op give_op s live ops)"

definition live_frames :: "(usize \<times> usize) list \<Rightarrow> nat set" where
  "live_frames live = (\<Union>(p, count) \<in> set live. range_of p count)"

fun ranges_disjoint :: "(usize \<times> usize) list \<Rightarrow> bool" where
  "ranges_disjoint [] = True"
| "ranges_disjoint ((p, count) # live) \<longleftrightarrow> range_of p count \<inter> live_frames live = {} \<and> ranges_disjoint live"

lemma live_frames_simps [simp]:
  "live_frames [] = {}" "live_frames ((p, c) # live) = range_of p c \<union> live_frames live"
  by (simp_all add: live_frames_def)

lemma ranges_disjoint_remove:
  "ranges_disjoint live \<Longrightarrow> (p, c) \<in> set live \<Longrightarrow>
     ranges_disjoint (remove1 (p, c) live)
   \<and> live_frames live = range_of p c \<union> live_frames (remove1 (p, c) live)
   \<and> range_of p c \<inter> live_frames (remove1 (p, c) live) = {}"
  by (induction live rule: ranges_disjoint.induct) auto

locale frame_pool =
  fixes inv :: "'s \<Rightarrow> bool" and free :: "'s \<Rightarrow> nat set" and valid :: "usize \<Rightarrow> usize \<Rightarrow> bool"
    and take_op :: "'s \<Rightarrow> usize \<Rightarrow> usize option \<times> 's" and give_op :: "'s \<Rightarrow> usize \<Rightarrow> usize \<Rightarrow> 's"
  assumes take_Some: "inv s \<Longrightarrow> take_op s count = (Some p, s') \<Longrightarrow>
      inv s' \<and> valid p count \<and> range_of p count \<subseteq> free s \<and> free s' = free s - range_of p count"
    and take_None: "inv s \<Longrightarrow> take_op s count = (None, s') \<Longrightarrow> s' = s"
    and give: "inv s \<Longrightarrow> valid p count \<Longrightarrow> range_of p count \<inter> free s = {} \<Longrightarrow>
      inv (give_op s p count) \<and> free (give_op s p count) = free s \<union> range_of p count"
begin

lemma run_partition:
  assumes "inv s" "\<forall>(p, count) \<in> set live. valid p count" "ranges_disjoint live"
    and "live_frames live \<inter> free s = {}" "pool_run take_op give_op s live ops = (s', live')"
  shows "inv s' \<and> ranges_disjoint live' \<and> live_frames live' \<inter> free s' = {}
    \<and> live_frames live' \<union> free s' = live_frames live \<union> free s"
  using assms
proof (induction ops arbitrary: s live)
  case (Cons op ops)
  show ?case
  proof (cases op)
    case (Take count)
    obtain r t where t: "take_op s count = (r, t)" by (cases "take_op s count")
    show ?thesis
    proof (cases r)
      case None
      with take_None [OF Cons.prems(1)] t have "t = s" by simp
      with Cons Take t None show ?thesis by simp
    next
      case (Some p)
      note law = take_Some [OF Cons.prems(1), of count p t]
      have "pool_run take_op give_op t ((p, count) # live) ops = (s', live')"
        using Cons.prems(5) Take t Some by simp
      then have "inv s' \<and> ranges_disjoint live' \<and> live_frames live' \<inter> free s' = {}
        \<and> live_frames live' \<union> free s' = live_frames ((p, count) # live) \<union> free t"
        using law t Some Cons.prems(2-4) by (intro Cons.IH) auto
      then show ?thesis using law t Some by auto
    qed
  next
    case (Give p count)
    show ?thesis
    proof (cases "(p, count) \<in> set live")
      case True
      note rm = ranges_disjoint_remove [OF Cons.prems(3) True]
      have valid: "valid p count" using Cons.prems(2) True by auto
      have "range_of p count \<inter> free s = {}" using rm Cons.prems(4) by auto
      note law = give [OF Cons.prems(1) valid this]
      have "pool_run take_op give_op (give_op s p count) (remove1 (p, count) live) ops = (s', live')"
        using Cons.prems(5) Give True by simp
      then have "inv s' \<and> ranges_disjoint live' \<and> live_frames live' \<inter> free s' = {}
        \<and> live_frames live' \<union> free s' = live_frames (remove1 (p, count) live) \<union> free (give_op s p count)"
        using law rm Cons.prems(2,4) by (intro Cons.IH) (auto dest: notin_set_remove1 [rotated] set_remove1_subset [THEN subsetD])
      then show ?thesis using law rm by auto
    next
      case False
      with Cons Give show ?thesis by simp
    qed
  qed
qed auto

end

text \<open>The buddy allocator is a pool.\<close>

definition buddy_ok :: "nat \<Rightarrow> FrameAllocator \<Rightarrow> bool" where
  "buddy_ok n s \<longleftrightarrow> fl_inv n (fa_free_list s) \<and> n < 2 ^ length (fa_free_list s)"

definition buddy_free :: "FrameAllocator \<Rightarrow> nat set" where
  "buddy_free s = free_frames (fa_free_list s)"

definition buddy_valid :: "nat \<Rightarrow> usize \<Rightarrow> usize \<Rightarrow> bool" where
  "buddy_valid n p count \<longleftrightarrow>
     (\<exists>k<64. next_power_of_two count = 2 ^ k \<and> 2 ^ k dvd unat p \<and> unat p + 2 ^ k \<le> n)"

text \<open>Beyond the largest power of two the result wraps to zero.\<close>

lemma next_power_of_two_big:
  fixes count :: usize
  assumes "2 ^ 63 < unat count"
  shows "next_power_of_two count = 0"
proof -
  have big: "2 ^ 63 \<le> unat (count - 1)"
    using assms by (simp add: unat_sub word_le_nat_alt)
  have "\<not> bit_length (unat (count - 1)) \<le> 63"
  proof
    assume "bit_length (unat (count - 1)) \<le> 63"
    then have "(2::nat) ^ bit_length (unat (count - 1)) \<le> 2 ^ 63" by (rule power_increasing) simp
    with bit_length_less [of "unat (count - 1)"] big show False by linarith
  qed
  then have "leading_zeros (count - 1) = 0" by (simp add: leading_zeros_def)
  moreover have "\<not> count \<le> 1" using assms by (simp add: word_le_nat_alt)
  ultimately show ?thesis by (simp add: next_power_of_two_def)
qed

lemma next_power_of_two_cases:
  fixes count :: usize
  obtains "next_power_of_two count = 0"
    | k where "k < 64" "next_power_of_two count = 2 ^ k" "unat count \<le> 2 ^ k"
proof (cases "unat count \<le> 2 ^ 63")
  case True
  show ?thesis
  proof (cases "count = 0")
    case True
    then have "next_power_of_two count = 2 ^ 0" by (simp add: next_power_of_two_def)
    with True that(2) [of 0] show ?thesis by simp
  next
    case False
    with True show ?thesis
      using next_power_of_two_spec [of count] that(2) by auto
  qed
next
  case False
  then show ?thesis using next_power_of_two_big that(1) by (simp add: not_le)
qed

lemma alloc_zero: "length (fa_free_list s) \<le> 64 \<Longrightarrow> alloc_power_of_two s 0 = (None, s)"
  using find_class_unfold(3) [of "fa_free_list s" 64]
  by (simp add: alloc_power_of_two_def trailing_zeros_def)

lemma range_of_cover: "next_power_of_two count = 2 ^ k \<Longrightarrow> k < 64 \<Longrightarrow> range_of p count = cover (k, unat p)"
  by (simp add: range_of_def cover_def)

lemma buddy_alloc_law:
  assumes ok: "buddy_ok n s" and al: "buddy_alloc s count = (Some p, s')"
  shows "buddy_ok n s' \<and> buddy_valid n p count \<and> range_of p count \<subseteq> buddy_free s
    \<and> buddy_free s' = buddy_free s - range_of p count"
proof -
  have inv: "fl_inv n (fa_free_list s)" and len: "n < 2 ^ length (fa_free_list s)"
    using ok by (simp_all add: buddy_ok_def)
  have "next_power_of_two count \<noteq> 0"
    using al inv alloc_zero [of s] by (auto simp: buddy_alloc_def fl_inv_def fl_wf_def)
  with next_power_of_two_cases obtain k where k: "k < 64" "next_power_of_two count = 2 ^ k" by metis
  from alloc_power_of_two_spec [OF inv k(1)] al k(2) have
    spec: "fl_inv n (fa_free_list s')" "length (fa_free_list s') = length (fa_free_list s)"
      "2 ^ k dvd unat p" "cover (k, unat p) \<subseteq> free_frames (fa_free_list s)"
      "free_frames (fa_free_list s') = free_frames (fa_free_list s) - cover (k, unat p)"
    by (simp_all add: buddy_alloc_def)
  have "cover (k, unat p) \<subseteq> {..<n}"
    using spec(4) inv unfolding fl_inv_def blocks_ok_def free_frames_def frames_def cover_def by fastforce
  moreover have "unat p + 2 ^ k - 1 \<in> cover (k, unat p)"
    using zero_less_power [of "2::nat" k] unfolding cover_def fst_conv snd_conv atLeastLessThan_iff by linarith
  ultimately have "unat p + 2 ^ k \<le> n" by auto
  then show ?thesis
    using spec k len range_of_cover [OF k(2,1)] unfolding buddy_ok_def buddy_valid_def buddy_free_def by auto
qed

lemma buddy_alloc_None:
  assumes "buddy_ok n s" "buddy_alloc s count = (None, s')"
  shows "s' = s"
proof -
  have inv: "fl_inv n (fa_free_list s)" using assms(1) by (simp add: buddy_ok_def)
  show ?thesis
  proof (cases rule: next_power_of_two_cases [of count])
    assume "next_power_of_two count = 0"
    with assms(2) inv alloc_zero [of s] show ?thesis
      by (simp add: buddy_alloc_def fl_inv_def fl_wf_def)
  next
    fix k assume "k < 64" "next_power_of_two count = 2 ^ k"
    with alloc_power_of_two_spec [OF inv this(1)] assms(2) show ?thesis by (simp add: buddy_alloc_def)
  qed
qed

lemma buddy_alloc_length:
  assumes "buddy_ok n s" "buddy_alloc s count = (r, s')"
  shows "length (fa_free_list s') = length (fa_free_list s)"
proof (cases r)
  case None
  then have "s' = s" using buddy_alloc_None [OF assms(1)] assms(2) by blast
  then show ?thesis by simp
next
  case (Some p)
  have inv: "fl_inv n (fa_free_list s)" using assms(1) by (simp add: buddy_ok_def)
  show ?thesis
  proof (cases rule: next_power_of_two_cases [of count])
    assume "next_power_of_two count = 0"
    with assms(2) inv alloc_zero [of s] Some show ?thesis
      by (simp add: buddy_alloc_def fl_inv_def fl_wf_def)
  next
    fix k assume "k < 64" "next_power_of_two count = 2 ^ k"
    with alloc_power_of_two_spec [OF inv this(1)] assms(2) Some show ?thesis by (simp add: buddy_alloc_def)
  qed
qed

lemma buddy_dealloc_law:
  assumes "buddy_ok n s" "buddy_valid n p count" "range_of p count \<inter> buddy_free s = {}"
  shows "buddy_ok n (buddy_dealloc s p count)
    \<and> buddy_free (buddy_dealloc s p count) = buddy_free s \<union> range_of p count"
proof -
  from assms(2) obtain k where k: "k < 64" "next_power_of_two count = 2 ^ k" "2 ^ k dvd unat p"
    "unat p + 2 ^ k \<le> n" by (auto simp: buddy_valid_def)
  note rc = range_of_cover [OF k(2,1), of p]
  show ?thesis
    using merge_free_spec [of n "fa_free_list s" k p] assms k
    by (simp add: buddy_dealloc_def dealloc_power_of_two_def buddy_ok_def buddy_free_def rc)
qed

interpretation buddy: frame_pool "buddy_ok n" buddy_free "buddy_valid n" buddy_alloc buddy_dealloc
  for n :: nat
proof
  show "buddy_ok n s' \<and> buddy_valid n p count \<and> range_of p count \<subseteq> buddy_free s
      \<and> buddy_free s' = buddy_free s - range_of p count"
    if "buddy_ok n s" "buddy_alloc s count = (Some p, s')" for s count p s'
    using buddy_alloc_law [OF that] .
qed (use buddy_alloc_None buddy_dealloc_law in blast)+

lemma fl_inv_new:
  "order \<le> 64 \<Longrightarrow> n < 2 ^ 64 \<Longrightarrow> fl_inv n (fa_free_list (FrameAllocator_new order))"
  by (auto simp: fl_inv_def fl_wf_def FrameAllocator_new_def blocks_ok_def fl_blocks_def)

lemma free_frames_new [simp]: "free_frames (fa_free_list (FrameAllocator_new order)) = {}"
  by (auto simp: free_frames_def frames_def fl_blocks_def FrameAllocator_new_def)

lemma add_frame_spec:
  assumes "buddy_ok n s" "fa_free_list s \<noteq> []" "start \<le> fin" "unat fin \<le> n"
    and "{unat start ..< unat fin} \<inter> buddy_free s = {}"
  obtains s' where "add_frame s start fin = Some s'" "buddy_ok n s'"
    and "buddy_free s' = buddy_free s \<union> {unat start ..< unat fin}"
    and "fa_total s' = fa_total s + (fin - start)" "fa_allocated s' = fa_allocated s"
    and "length (fa_free_list s') = length (fa_free_list s)"
proof -
  from add_frame_loop_spec [of n "fa_free_list s" start fin 0] assms obtain fl where
    "add_frame_loop (fa_free_list s) start fin 0 = Some (fl, fin - start)" "fl_inv n fl"
    "length fl = length (fa_free_list s)" "free_frames fl = free_frames (fa_free_list s) \<union> {unat start ..< unat fin}"
    by (auto simp: buddy_ok_def buddy_free_def)
  with assms(1,3) that show ?thesis
    by (simp add: add_frame_def buddy_ok_def buddy_free_def)
qed

section \<open>Properties\<close>

text \<open>
  Property C18. Adding a range of frames to an allocator never panics and makes exactly these frames free, next
  to the ones that were; the free blocks stay aligned and disjoint.
\<close>

theorem add_frame_exact:
  assumes "buddy_ok n s" "fa_free_list s \<noteq> []" "start \<le> fin" "unat fin \<le> n"
    and "{unat start ..< unat fin} \<inter> buddy_free s = {}"
  shows "\<exists>s'. add_frame s start fin = Some s' \<and> buddy_ok n s'
    \<and> buddy_free s' = buddy_free s \<union> {unat start ..< unat fin}
    \<and> fa_total s' = fa_total s + (fin - start)"
  by (rule add_frame_spec [OF assms]) blast

lemma buddy_new_ok: "order \<le> 64 \<Longrightarrow> n < 2 ^ order \<Longrightarrow> buddy_ok n (FrameAllocator_new order)"
proof -
  assume o: "order \<le> 64" "n < 2 ^ order"
  then have "(2::nat) ^ order \<le> 2 ^ 64" by (intro power_increasing) simp_all
  with o have "n < 2 ^ 64" by linarith
  with o fl_inv_new show ?thesis by (simp add: buddy_ok_def FrameAllocator_new_def)
qed

lemma buddy_new_free [simp]: "buddy_free (FrameAllocator_new order) = {}"
  by (simp add: buddy_free_def)

theorem add_frame_exact_witness:
  "\<exists>s'. add_frame (FrameAllocator_new 5) 3 20 = Some s' \<and> buddy_ok 20 s'
     \<and> buddy_free s' = {3 ..< 20} \<and> fa_total s' = 17"
proof -
  have "fa_free_list (FrameAllocator_new 5) \<noteq> []" "fa_total (FrameAllocator_new 5) = 0"
    by (simp_all add: FrameAllocator_new_def)
  with add_frame_exact [OF buddy_new_ok [of 5 20], of 3 20] show ?thesis by simp
qed

text \<open>
  Property C1. Whatever sequence of allocations and deallocations follows, as long as only ranges that were
  allocated are given back, the ranges handed out never overlap each other or a free frame, and
  together with the free frames they are all the frames added: nothing is handed out twice and
  nothing is lost.
\<close>

theorem buddy_partition:
  assumes "0 < order" "order \<le> 64" "start \<le> fin" "unat fin < 2 ^ order"
    and "add_frame (FrameAllocator_new order) start fin = Some s"
    and "pool_run buddy_alloc buddy_dealloc s [] ops = (s', live)"
  shows "ranges_disjoint live \<and> live_frames live \<inter> buddy_free s' = {}
    \<and> live_frames live \<union> buddy_free s' = {unat start ..< unat fin}"
proof -
  have new: "buddy_ok (unat fin) (FrameAllocator_new order)" using assms(2,4) by (rule buddy_new_ok)
  have "fa_free_list (FrameAllocator_new order) \<noteq> []" using assms(1) by (simp add: FrameAllocator_new_def)
  from add_frame_spec [OF new this assms(3)] assms(5) have
    "buddy_ok (unat fin) s" "buddy_free s = {unat start ..< unat fin}" by auto
  with buddy.run_partition [of "unat fin" s "[]" ops s' live] assms(6) show ?thesis by simp
qed

definition buddy_example :: FrameAllocator where
  "buddy_example = the (add_frame (FrameAllocator_new 3) 1 7)"

theorem buddy_partition_witness:
  "(case pool_run buddy_alloc buddy_dealloc buddy_example [] [Take 2, Take 1, Give 2 2] of
     (s', live) \<Rightarrow> length live = 1 \<and> ranges_disjoint live
       \<and> live_frames live \<union> buddy_free s' = {1 ..< 7})"
proof -
  let ?ops = "[Take 2, Take 1, Give 2 2]"
  obtain s' live where run: "pool_run buddy_alloc buddy_dealloc buddy_example [] ?ops = (s', live)"
    by (cases "pool_run buddy_alloc buddy_dealloc buddy_example [] ?ops")
  have "length (snd (pool_run buddy_alloc buddy_dealloc buddy_example [] ?ops)) = 1" by code_simp
  then have len: "length live = 1" by (simp only: run snd_conv)
  have "add_frame (FrameAllocator_new 3) 1 7 \<noteq> None" by code_simp
  then have "add_frame (FrameAllocator_new 3) 1 7 = Some buddy_example"
    by (auto simp: buddy_example_def)
  from buddy_partition [OF _ _ _ _ this run] len run show ?thesis by simp
qed

text \<open>
  Property C19. An allocation of \<^term>\<open>count\<close> frames fails only when every free block is smaller than the
  request rounded up to a power of two, and then leaves the allocator unchanged.
\<close>

theorem buddy_alloc_complete:
  assumes "buddy_ok n s" "count \<noteq> 0" "unat count \<le> 2 ^ 63" "buddy_alloc s count = (None, s')"
  shows "s' = s \<and> (\<forall>(k, p) \<in> fl_blocks (fa_free_list s). 2 ^ k < unat count)"
proof -
  have inv: "fl_inv n (fa_free_list s)" using assms(1) by (simp add: buddy_ok_def)
  obtain k where k: "k < 64" "next_power_of_two count = 2 ^ k" "\<And>j. unat count \<le> 2 ^ j \<Longrightarrow> k \<le> j"
    using next_power_of_two_spec [of count] assms(2,3) by auto
  from alloc_power_of_two_spec [OF inv k(1)] assms(4) k(2) have
    "s' = s" "\<forall>b \<in> fl_blocks (fa_free_list s). fst b < k" by (simp_all add: buddy_alloc_def)
  then show ?thesis using k(3) by (fastforce simp: not_le [symmetric])
qed

theorem buddy_alloc_complete_witness:
  "buddy_alloc (FrameAllocator_new 5) 3 = (None, FrameAllocator_new 5)
   \<and> fl_blocks (fa_free_list (FrameAllocator_new 5)) \<subseteq> {(k, p). 2 ^ k < (3::nat)}"
proof -
  have "fst (buddy_alloc (FrameAllocator_new 5) 3) = None" by code_simp
  then obtain s' where s': "buddy_alloc (FrameAllocator_new 5) 3 = (None, s')"
    by (cases "buddy_alloc (FrameAllocator_new 5) 3") auto
  from buddy_alloc_complete [OF buddy_new_ok [of 5 20] _ _ s'] s' show ?thesis by auto
qed

end
