(* ===== verification/Ram.thy ===== *)
theory Ram
  imports Address
begin

text \<open>
  Memory as the kernel accesses it: bytes at kernel virtual addresses. Physical frames are
  reached through the linear map, so the page of frame \<open>p\<close> starts at \<open>page_addr p\<close>; different
  frames have disjoint pages. Raw accesses of \<^verbatim>\<open>memory/src/address.rs\<close> (\<^verbatim>\<open>as_ref\<close>, \<^verbatim>\<open>as_mut\<close>,
  \<^verbatim>\<open>as_page_ptes\<close>, \<^verbatim>\<open>as_page_bytes\<close>, \<^verbatim>\<open>copy_from\<close>) are reads and writes of byte ranges.
\<close>

type_synonym ram = "usize \<Rightarrow> u8"

definition ram_read :: "ram \<Rightarrow> usize \<Rightarrow> nat \<Rightarrow> u8 list" where
  "ram_read ram a n = map (\<lambda>i. ram (a + word_of_nat i)) [0..<n]"

definition ram_write :: "ram \<Rightarrow> usize \<Rightarrow> u8 list \<Rightarrow> ram" where
  "ram_write ram a bs = (\<lambda>x. if unat (x - a) < length bs then bs ! unat (x - a) else ram x)"

definition ram_fill :: "ram \<Rightarrow> usize \<Rightarrow> usize \<Rightarrow> u8 \<Rightarrow> ram" where
  "ram_fill ram a len byte = (\<lambda>x. if x - a < len then byte else ram x)"

text \<open>Little-endian 64-bit words.\<close>

definition u64_to_bytes :: "u64 \<Rightarrow> u8 list" where
  "u64_to_bytes w = map (\<lambda>i. ucast (drop_bit (8 * i) w)) [0..<8]"

fun u64_of_bytes :: "u8 list \<Rightarrow> u64" where
  "u64_of_bytes [] = 0"
| "u64_of_bytes (b # bs) = ucast b OR push_bit 8 (u64_of_bytes bs)"

definition read_u64 :: "ram \<Rightarrow> usize \<Rightarrow> u64" where
  "read_u64 ram a = u64_of_bytes (ram_read ram a 8)"

definition write_u64 :: "ram \<Rightarrow> usize \<Rightarrow> u64 \<Rightarrow> ram" where
  "write_u64 ram a w = ram_write ram a (u64_to_bytes w)"

lemma length_u64_to_bytes [simp]: "length (u64_to_bytes w) = 8"
  by (simp add: u64_to_bytes_def)

lemma bit_u64_of_bytes:
  "n < 64 \<Longrightarrow> bit (u64_of_bytes bs) n \<longleftrightarrow> n div 8 < length bs \<and> bit (bs ! (n div 8)) (n mod 8)"
proof (induction bs arbitrary: n)
  case (Cons b bs)
  show ?case
  proof (cases "n < 8")
    case True
    then show ?thesis using Cons.prems by (simp add: bit_simps)
  next
    case False
    then have "n div 8 = Suc ((n - 8) div 8)" "n mod 8 = (n - 8) mod 8"
      by (simp_all add: le_div_geq le_mod_geq)
    moreover have "\<not> bit b n" using False bit_imp_le_length [of b n] by auto
    ultimately show ?thesis
      using Cons.prems Cons.IH [of "n - 8"] False by (simp add: bit_simps)
  qed
qed simp

lemma u64_bytes_inverse [simp]: "u64_of_bytes (u64_to_bytes w) = w"
proof (rule bit_eqI)
  fix n assume "possible_bit TYPE(64 word) n"
  then have n: "n < 64" by simp
  then have "n div 8 < 8" by (simp add: div_less_iff_less_mult)
  with n show "bit (u64_of_bytes (u64_to_bytes w)) n \<longleftrightarrow> bit w n"
    by (simp add: bit_u64_of_bytes u64_to_bytes_def bit_simps)
qed

lemma length_ram_read [simp]: "length (ram_read ram a n) = n"
  by (simp add: ram_read_def)

lemma ram_read_write_same:
  assumes "length bs < 2 ^ 64"
  shows "ram_read (ram_write ram a bs) a (length bs) = bs"
proof (rule nth_equalityI)
  fix i assume "i < length (ram_read (ram_write ram a bs) a (length bs))"
  then have i: "i < length bs" by simp
  then have "unat (word_of_nat i :: usize) = i"
    using assms by (simp add: unsigned_of_nat take_bit_nat_eq_self)
  with i show "ram_read (ram_write ram a bs) a (length bs) ! i = bs ! i"
    by (simp add: ram_read_def ram_write_def)
qed simp

lemma ram_read_cong:
  assumes "\<And>i. i < n \<Longrightarrow> ram (a + word_of_nat i) = ram' (a + word_of_nat i)"
  shows "ram_read ram a n = ram_read ram' a n"
  using assms by (simp add: ram_read_def)

lemma read_write_u64_same [simp]: "read_u64 (write_u64 ram a w) a = w"
  using ram_read_write_same [of "u64_to_bytes w" ram a]
  by (simp add: read_u64_def write_u64_def)

text \<open>The first address of the page of a frame.\<close>

definition page_addr :: "PhysPageNum \<Rightarrow> usize" where
  "page_addr ppn = va_val (VirtPageNum_page_start (kernel_ppn_to_vpn ppn))"

text \<open>Frame numbers fit in the 44 bits a page table entry has for them.\<close>

abbreviation ppn_ok :: "PhysPageNum \<Rightarrow> bool" where
  "ppn_ok ppn \<equiv> ppn_val ppn < 2 ^ 44"

lemma drop_bit_page_addr:
  assumes "off < (4096::usize)"
  shows "drop_bit 12 (page_addr ppn + off) = take_bit 52 (ppn_val ppn + PA_TO_VA div PAGE_SIZE)"
proof -
  let ?n = "ppn_val ppn + PA_TO_VA div PAGE_SIZE"
  have a: "page_addr ppn = push_bit 12 ?n"
    by (cases ppn) (simp add: page_addr_def config_simps)
  have off: "off = take_bit 12 off"
    using assms by (simp add: word_eq_iff_unsigned [where ?'a = nat] unsigned_take_bit_eq take_bit_nat_eq_self word_less_nat_alt)
  have "push_bit 12 ?n + take_bit 12 off = push_bit 12 ?n OR take_bit 12 off"
    by (rule disjunctive_add) (auto simp: bit_simps)
  then have "drop_bit 12 (page_addr ppn + off) = drop_bit 12 (push_bit 12 ?n OR take_bit 12 off)"
    using a off by simp
  also have "\<dots> = take_bit 52 ?n" by (rule bit_eqI) (auto simp: bit_simps)
  finally show ?thesis .
qed

lemma page_addr_eqD:
  assumes "page_addr p + off = page_addr q + off'" "off < 4096" "off' < 4096" "ppn_ok p" "ppn_ok q"
  shows "p = q \<and> off = off'"
proof -
  let ?k = "PA_TO_VA div PAGE_SIZE"
  have "take_bit 52 (ppn_val p + ?k) = take_bit 52 (ppn_val q + ?k)"
    using drop_bit_page_addr [OF assms(2)] drop_bit_page_addr [OF assms(3)] assms(1) by metis
  moreover have "unat (take_bit 52 (ppn_val x + ?k)) = (unat (ppn_val x) + 0xFFFFFFFF00000) mod 2 ^ 52"
    "unat (ppn_val x) < 2 ^ 44" if "ppn_ok x" for x
    using that by (simp_all add: config_simps unsigned_take_bit_eq take_bit_eq_mod unat_word_ariths
        word_less_nat_alt mod_mod_cancel)
  ultimately have "(unat (ppn_val p) + 0xFFFFFFFF00000) mod 2 ^ 52 = (unat (ppn_val q) + 0xFFFFFFFF00000) mod 2 ^ 52"
    "unat (ppn_val p) < 2 ^ 44" "unat (ppn_val q) < 2 ^ 44"
    using assms(4,5) by metis+
  then have "unat (ppn_val p) = unat (ppn_val q)" by (simp add: mod_if split: if_splits)
  then have "ppn_val p = ppn_val q" by (simp add: word_unat_eq_iff)
  then have "p = q" by (simp add: PhysPageNum.expand)
  with assms(1) show ?thesis by simp
qed

section \<open>Words in pages\<close>

text \<open>The page of a frame seen as an array of 512 words (\<^verbatim>\<open>as_page_ptes\<close>).\<close>

definition page_word :: "ram \<Rightarrow> PhysPageNum \<Rightarrow> usize \<Rightarrow> u64" where
  "page_word ram ppn i = read_u64 ram (page_addr ppn + 8 * i)"

definition set_page_word :: "ram \<Rightarrow> PhysPageNum \<Rightarrow> usize \<Rightarrow> u64 \<Rightarrow> ram" where
  "set_page_word ram ppn i w = write_u64 ram (page_addr ppn + 8 * i) w"

lemma word_offset:
  assumes "(i::usize) < 512" "k < 8"
  shows "8 * i + word_of_nat k < 4096" "unat (8 * i + word_of_nat k :: usize) = 8 * unat i + k"
proof -
  have i: "unat i < 512" using assms(1) by (simp add: word_less_nat_alt)
  have k: "unat (word_of_nat k :: usize) = k"
    using assms(2) by (simp add: unsigned_of_nat take_bit_nat_eq_self)
  show u: "unat (8 * i + word_of_nat k :: usize) = 8 * unat i + k"
    using i k assms(2) by (simp add: unat_word_ariths)
  show "8 * i + word_of_nat k < 4096"
    unfolding word_less_nat_alt u using i assms(2) by simp
qed

lemma page_word_cong:
  assumes "\<And>off. off < 4096 \<Longrightarrow> ram (page_addr ppn + off) = ram' (page_addr ppn + off)" "i < 512"
  shows "page_word ram ppn i = page_word ram' ppn i"
proof -
  have "ram (page_addr ppn + 8 * i + word_of_nat k) = ram' (page_addr ppn + 8 * i + word_of_nat k)" if "k < 8" for k
    using assms(1) [OF word_offset(1) [OF assms(2) that]] by (simp add: add.assoc)
  then show ?thesis
    unfolding page_word_def read_u64_def by (intro arg_cong [of _ _ u64_of_bytes] ram_read_cong)
qed

lemma page_word_set_same [simp]: "page_word (set_page_word ram p i w) p i = w"
  by (simp add: page_word_def set_page_word_def)

text \<open>Writing a word changes no byte outside it.\<close>

lemma set_page_word_other:
  assumes "x = page_addr q + 8 * j + word_of_nat k" "j < 512" "k < 8" "i < 512" "ppn_ok p" "ppn_ok q"
    and "(p, i) \<noteq> (q, j)"
  shows "set_page_word ram p i w x = ram x"
proof (rule ccontr)
  assume "set_page_word ram p i w x \<noteq> ram x"
  then have m: "unat (x - (page_addr p + 8 * i)) < 8"
    by (auto simp: set_page_word_def write_u64_def ram_write_def split: if_splits)
  let ?m = "unat (x - (page_addr p + 8 * i))"
  have "page_addr p + (8 * i + word_of_nat ?m) = page_addr q + (8 * j + word_of_nat k)"
    using assms(1) by (simp add: algebra_simps)
  note eq = page_addr_eqD [OF this word_offset(1) [OF assms(4) m] word_offset(1) [OF assms(2,3)] assms(5,6)]
  have "p = q" using eq by (rule conjunct1)
  have off: "8 * i + word_of_nat ?m = 8 * j + word_of_nat k" using eq by (rule conjunct2)
  have "8 * unat i + ?m = 8 * unat j + k"
    using arg_cong [OF off, of unat] word_offset(2) [OF assms(4) m] word_offset(2) [OF assms(2,3)] by metis
  then have "unat i = unat j" using m assms(3) by presburger
  with \<open>p = q\<close> assms(7) show False by (simp add: word_unat_eq_iff)
qed

lemma page_word_set_other:
  assumes "i < 512" "j < 512" "ppn_ok p" "ppn_ok q" "(p, i) \<noteq> (q, j)"
  shows "page_word (set_page_word ram p i w) q j = page_word ram q j"
proof -
  have "set_page_word ram p i w (page_addr q + 8 * j + word_of_nat k) = ram (page_addr q + 8 * j + word_of_nat k)"
    if "k < 8" for k
    using assms that by (intro set_page_word_other [where q = q and j = j and k = k and i = i and p = p]) simp_all
  then have "ram_read (set_page_word ram p i w) (page_addr q + 8 * j) 8 = ram_read ram (page_addr q + 8 * j) 8"
    by (rule ram_read_cong)
  then show ?thesis by (simp only: page_word_def read_u64_def)
qed

lemma ram_fill_page:
  assumes "off < 4096" "ppn_ok p" "ppn_ok q"
  shows "ram_fill ram (page_addr p) 4096 b (page_addr q + off) = (if p = q then b else ram (page_addr q + off))"
proof -
  have "page_addr q + off - page_addr p < 4096 \<longleftrightarrow> p = q"
  proof
    assume "page_addr q + off - page_addr p < 4096"
    moreover have "page_addr p + (page_addr q + off - page_addr p) = page_addr q + off" by simp
    ultimately show "p = q" using page_addr_eqD assms by blast
  next
    assume "p = q"
    then have "page_addr q + off - page_addr p = off" by simp
    then show "page_addr q + off - page_addr p < 4096" using assms(1) by (simp only:)
  qed
  then show ?thesis by (simp add: ram_fill_def)
qed

lemma u64_of_zeros: "u64_of_bytes (replicate n 0) = 0"
  by (induction n) simp_all

lemma page_word_fill_same:
  assumes "i < 512" "ppn_ok p"
  shows "page_word (ram_fill ram (page_addr p) 4096 0) p i = 0"
proof -
  have "ram_read (ram_fill ram (page_addr p) 4096 0) (page_addr p + 8 * i) 8 = replicate 8 0"
  proof (rule nth_equalityI)
    fix k assume "k < length (ram_read (ram_fill ram (page_addr p) 4096 0) (page_addr p + 8 * i) 8)"
    then have k: "k < 8" by simp
    from ram_fill_page [OF word_offset(1) [OF assms(1) k] assms(2,2)] k
    show "ram_read (ram_fill ram (page_addr p) 4096 0) (page_addr p + 8 * i) 8 ! k = replicate 8 0 ! k"
      by (simp add: ram_read_def add.assoc)
  qed simp
  then show ?thesis by (simp add: page_word_def read_u64_def u64_of_zeros)
qed

lemma page_word_fill_other:
  "i < 512 \<Longrightarrow> ppn_ok p \<Longrightarrow> ppn_ok q \<Longrightarrow> p \<noteq> q \<Longrightarrow>
     page_word (ram_fill ram (page_addr p) 4096 b) q i = page_word ram q i"
  by (rule page_word_cong) (simp_all add: ram_fill_page)

end
