(* ===== verification/Frame_Alloc.thy ===== *)
theory Frame_Alloc
  imports Buddy Ram
begin

text \<open>
  The kernel's physical frame allocator (\<^verbatim>\<open>memory/src/frame_allocator.rs\<close>): a buddy allocator over
  the frames between the end of the kernel image and the end of memory, frame trackers that
  zero their frames, and the deallocation on drop. It also holds the state every memory
  operation works on.

  Main results: an allocated frame was not in use, lies in physical memory and is zero; and what
  \<^verbatim>\<open>frame_dealloc\<close> does, which is to leave every free list as it is.
\<close>

section \<open>State\<close>

text \<open>The symbols the linker script \<^verbatim>\<open>kernel/linker.ld\<close> defines.\<close>

record linker_symbols =
  stext :: usize
  etext :: usize
  srodata :: usize
  erodata :: usize
  sdata :: usize
  edata :: usize
  sbss_with_stack :: usize
  ebss :: usize
  ekernel :: usize

text \<open>
  Memory, the frame allocator, the root page table register, and for a frame tracker that is
  shared through an \<^verbatim>\<open>Arc\<close> its strong count. A live tracker is identified by its frame.
\<close>

record kernel_mem =
  km_syms :: linker_symbols
  km_ram :: ram
  km_frames :: FrameAllocator
  km_satp :: usize
  km_arcs :: "PhysPageNum \<Rightarrow> nat"

record FrameTracker =
  ft_ppn :: PhysPageNum
  ft_num :: usize

section \<open>Operations\<close>

definition FrameTracker_fill :: "kernel_mem \<Rightarrow> FrameTracker \<Rightarrow> u8 \<Rightarrow> kernel_mem" where
  "FrameTracker_fill km self byte =
     (let va = VirtPageNum_page_start (kernel_ppn_to_vpn (ft_ppn self))
      in km\<lparr>km_ram := ram_fill (km_ram km) (va_val va) (ft_num self * PAGE_SIZE) byte\<rparr>)"

definition FrameTracker_new :: "kernel_mem \<Rightarrow> PhysPageNum \<Rightarrow> usize \<Rightarrow> (FrameTracker \<times> kernel_mem) option" where
  "FrameTracker_new km ppn num = do {
     rust_assert (num \<ge> 1);
     let frame = \<lparr>ft_ppn = ppn, ft_num = num\<rparr>;
     Some (frame, FrameTracker_fill km frame 0) }"

definition BUDDY_ORDER :: nat where
  "BUDDY_ORDER = ilog2 ((MEMORY_SIZE - 1) div PAGE_SIZE) + 1"

definition BuddySystemFrameAllocator_new :: FrameAllocator where
  "BuddySystemFrameAllocator_new = FrameAllocator_new BUDDY_ORDER"

definition physical_memory_begin_frame :: "linker_symbols \<Rightarrow> usize" where
  "physical_memory_begin_frame syms = ppn_val (PhysAddr_ceil (kernel_va_to_pa (VirtAddr (ekernel syms))))"

definition BuddySystemFrameAllocator_alloc :: "linker_symbols \<Rightarrow> FrameAllocator \<Rightarrow> usize \<Rightarrow>
    PhysPageNum option \<times> FrameAllocator" where
  "BuddySystemFrameAllocator_alloc syms self num =
     (let begin_frame = physical_memory_begin_frame syms;
          (r, self) = buddy_alloc self num
      in (map_option (\<lambda>first. PhysPageNum (first + begin_frame)) r, self))"

definition BuddySystemFrameAllocator_dealloc :: "FrameAllocator \<Rightarrow> PhysPageNum \<times> PhysPageNum \<Rightarrow> FrameAllocator" where
  "BuddySystemFrameAllocator_dealloc self r = buddy_dealloc self (ppn_val (fst r)) (ppn_val (snd r))"

definition init_frame_allocator :: "kernel_mem \<Rightarrow> kernel_mem option" where
  "init_frame_allocator km = do {
     let begin_frame = physical_memory_begin_frame (km_syms km);
     fa \<leftarrow> add_frame (km_frames km) 0 (ppn_val (PhysAddr_floor (PhysAddr MEMORY_END)) - begin_frame);
     Some (km\<lparr>km_frames := fa\<rparr>) }"

definition frame_alloc :: "kernel_mem \<Rightarrow> usize \<Rightarrow> (FrameTracker option \<times> kernel_mem) option" where
  "frame_alloc km num =
     (let (r, fa) = BuddySystemFrameAllocator_alloc (km_syms km) (km_frames km) num;
          km = km\<lparr>km_frames := fa\<rparr>
      in case r of
           None \<Rightarrow> Some (None, km)
         | Some ppn \<Rightarrow> do { (frame, km) \<leftarrow> FrameTracker_new km ppn num; Some (Some frame, km) })"

definition frame_dealloc :: "kernel_mem \<Rightarrow> PhysPageNum \<times> PhysPageNum \<Rightarrow> kernel_mem" where
  "frame_dealloc km r = km\<lparr>km_frames := BuddySystemFrameAllocator_dealloc (km_frames km) r\<rparr>"

definition FrameTracker_drop :: "kernel_mem \<Rightarrow> FrameTracker \<Rightarrow> kernel_mem" where
  "FrameTracker_drop km self =
     frame_dealloc km (ft_ppn self, PhysPageNum (ppn_val (ft_ppn self) + ft_num self))"

text \<open>\<^verbatim>\<open>Arc<FrameTracker>\<close>: the last handle drops the tracker.\<close>

definition arc_new :: "kernel_mem \<Rightarrow> FrameTracker \<Rightarrow> kernel_mem" where
  "arc_new km ft = km\<lparr>km_arcs := (km_arcs km)(ft_ppn ft := 1)\<rparr>"

definition arc_clone :: "kernel_mem \<Rightarrow> FrameTracker \<Rightarrow> kernel_mem" where
  "arc_clone km ft = km\<lparr>km_arcs := (km_arcs km)(ft_ppn ft := km_arcs km (ft_ppn ft) + 1)\<rparr>"

definition arc_drop :: "kernel_mem \<Rightarrow> FrameTracker \<Rightarrow> kernel_mem" where
  "arc_drop km ft =
     (let n = km_arcs km (ft_ppn ft);
          km = km\<lparr>km_arcs := (km_arcs km)(ft_ppn ft := n - 1)\<rparr>
      in if n = 1 then FrameTracker_drop km ft else km)"

text \<open>The DMA hooks of the virtio driver (\<^verbatim>\<open>drivers/src/virtio.rs\<close>).\<close>

definition dma_alloc :: "kernel_mem \<Rightarrow> usize \<Rightarrow> ((usize \<times> usize) \<times> kernel_mem) option" where
  "dma_alloc km pages = do {
     (r, km) \<leftarrow> frame_alloc km pages;
     frame \<leftarrow> r;
     let pa_start = pa_val (PhysPageNum_page_start (ft_ppn frame));
     rust_assert (pa_start + PA_TO_VA \<noteq> 0);
     Some ((pa_start, pa_start + PA_TO_VA), km) }"

definition dma_dealloc :: "kernel_mem \<Rightarrow> usize \<Rightarrow> usize \<Rightarrow> i32 \<times> kernel_mem" where
  "dma_dealloc km paddr pages =
     (let ppn = PhysAddr_ppn (PhysAddr paddr)
      in (0, frame_dealloc km (ppn, PhysPageNum (ppn_val ppn + pages))))"

definition mmio_phys_to_virt :: "usize \<Rightarrow> usize option" where
  "mmio_phys_to_virt paddr = do { rust_assert (paddr + PA_TO_VA \<noteq> 0); Some (paddr + PA_TO_VA) }"

definition share :: "usize \<Rightarrow> usize option" where
  "share vaddr = do { rust_assert (vaddr \<ge> PA_TO_VA); Some (vaddr - PA_TO_VA) }"

section \<open>The invariant\<close>

text \<open>What the linker script gives: the image starts at \<^verbatim>\<open>0xffffffff80200000\<close> and fits in memory.\<close>

definition syms_ok :: "linker_symbols \<Rightarrow> bool" where
  "syms_ok syms \<longleftrightarrow> 0xffffffff80200000 \<le> ekernel syms \<and> ekernel syms \<le> MEMORY_END + PA_TO_VA"

definition begin_nat :: "linker_symbols \<Rightarrow> nat" where
  "begin_nat syms = unat (physical_memory_begin_frame syms)"

definition nframes :: "linker_symbols \<Rightarrow> nat" where
  "nframes syms = 0x88000 - begin_nat syms"

definition free_ppns :: "kernel_mem \<Rightarrow> PhysPageNum set" where
  "free_ppns km = (\<lambda>f. PhysPageNum (word_of_nat (f + begin_nat (km_syms km)))) ` buddy_free (km_frames km)"

definition frames_inv :: "kernel_mem \<Rightarrow> PhysPageNum set \<Rightarrow> bool" where
  "frames_inv km used \<longleftrightarrow> syms_ok (km_syms km) \<and> length (fa_free_list (km_frames km)) = BUDDY_ORDER
     \<and> buddy_ok (nframes (km_syms km)) (km_frames km) \<and> used \<inter> free_ppns km = {}"

lemma BUDDY_ORDER_eq: "BUDDY_ORDER = 15"
proof -
  have "unat ((MEMORY_SIZE - 1) div PAGE_SIZE) = 32767" by (simp add: config_simps unat_div)
  moreover have "bit_length 32767 = 15"
  proof (rule antisym)
    show "bit_length 32767 \<le> 15" by (rule bit_length_bound) simp
    have "(2::nat) ^ 14 < 2 ^ bit_length 32767" using bit_length_less [of 32767] by simp
    then show "15 \<le> bit_length 32767" using power_less_imp_less_exp [of "2::nat" 14 "bit_length 32767"] by simp
  qed
  ultimately show ?thesis by (simp add: BUDDY_ORDER_def ilog2_def)
qed

lemma begin_bounds:
  assumes "syms_ok syms"
  shows "0x80200 \<le> begin_nat syms" "begin_nat syms \<le> 0x88000"
proof -
  let ?e = "unat (ekernel syms)"
  have e: "0xffffffff80200000 \<le> ?e" "?e \<le> 0xffffffff88000000"
    using assms by (simp_all add: syms_ok_def word_le_nat_alt config_simps)
  have u: "unat (ekernel syms - 0xFFFFFFFF00000000) = ?e - 0xFFFFFFFF00000000"
    using e by (simp add: unat_sub word_le_nat_alt)
  have "unat (ekernel syms - 0xFFFFFFFF00000000 + 4095) = ?e - 0xFFFFFFFF00000000 + 4095"
    unfolding unat_word_ariths(1) u using e by simp
  then have "begin_nat syms = (?e - 0xFFFFFFFF00000000 + 4095) div 4096"
    by (simp add: begin_nat_def physical_memory_begin_frame_def config_simps unat_div)
  with e show "0x80200 \<le> begin_nat syms" "begin_nat syms \<le> 0x88000" by linarith+
qed

lemma buddy_free_bound: "buddy_ok n s \<Longrightarrow> f \<in> buddy_free s \<Longrightarrow> f < n"
  unfolding buddy_ok_def fl_inv_def blocks_ok_def buddy_free_def free_frames_def frames_def cover_def
  by fastforce

lemma ppn_of_frame:
  assumes "syms_ok syms" "f < nframes syms"
  shows "unat (word_of_nat (f + begin_nat syms) :: usize) = f + begin_nat syms"
    and "ppn_ok (PhysPageNum (word_of_nat (f + begin_nat syms)))"
proof -
  have less: "f + begin_nat syms < 0x88000"
    using assms begin_bounds [OF assms(1)] by (simp add: nframes_def)
  have "unat (word_of_nat n :: usize) = n" if "n < 0x88000" for n
    using that by (simp add: unsigned_of_nat take_bit_nat_eq_self)
  from this [OF less] show u: "unat (word_of_nat (f + begin_nat syms) :: usize) = f + begin_nat syms" .
  show "ppn_ok (PhysPageNum (word_of_nat (f + begin_nat syms)))"
    unfolding word_less_nat_alt PhysPageNum.sel u using less by simp
qed

text \<open>The pages \<open>[ppn, ppn + num)\<close> of a tracker.\<close>

definition tracker_ppns :: "FrameTracker \<Rightarrow> PhysPageNum set" where
  "tracker_ppns ft = {PhysPageNum (ppn_val (ft_ppn ft) + i) | i. i < ft_num ft}"

lemma tracker_first: "ft_num ft = 1 \<Longrightarrow> ft_ppn ft \<in> tracker_ppns ft"
  by (auto simp: tracker_ppns_def intro: exI [of _ 0])

definition phys_ppns :: "kernel_mem \<Rightarrow> PhysPageNum set" where
  "phys_ppns km = {PhysPageNum n | n. physical_memory_begin_frame (km_syms km) \<le> n \<and> n < 0x88000}"

lemma tracker_in_block:
  assumes "buddy_valid n p num"
  shows "tracker_ppns \<lparr>ft_ppn = PhysPageNum (p + c), ft_num = num\<rparr>
    \<subseteq> (\<lambda>f. PhysPageNum (word_of_nat (f + unat c))) ` range_of p num"
proof
  fix x assume "x \<in> tracker_ppns \<lparr>ft_ppn = PhysPageNum (p + c), ft_num = num\<rparr>"
  then obtain i where i: "i < num" "x = PhysPageNum (p + c + i)" by (auto simp: tracker_ppns_def)
  have "next_power_of_two num \<noteq> 0" using assms by (auto simp: buddy_valid_def word_unat_eq_iff)
  then have "unat num \<le> unat (next_power_of_two num)"
    by (cases rule: next_power_of_two_cases [of num]) auto
  with i(1) have "unat p + unat i \<in> range_of p num"
    by (simp add: range_of_def word_less_nat_alt)
  moreover have "x = PhysPageNum (word_of_nat (unat p + unat i + unat c))"
    using i(2) by (simp add: add.commute add.left_commute)
  ultimately show "x \<in> (\<lambda>f. PhysPageNum (word_of_nat (f + unat c))) ` range_of p num" by blast
qed

definition block_ppns :: "kernel_mem \<Rightarrow> usize \<Rightarrow> usize \<Rightarrow> PhysPageNum set" where
  "block_ppns km p num = (\<lambda>f. PhysPageNum (word_of_nat (f + begin_nat (km_syms km)))) ` range_of p num"

lemma frame_alloc_Some:
  assumes inv: "frames_inv km used" and num: "1 \<le> num"
    and al: "buddy_alloc (km_frames km) num = (Some p, fa)"
  defines "ft \<equiv> \<lparr>ft_ppn = PhysPageNum (p + physical_memory_begin_frame (km_syms km)), ft_num = num\<rparr>"
  shows "frame_alloc km num = Some (Some ft, km\<lparr>km_frames := fa,
      km_ram := ram_fill (km_ram km) (page_addr (ft_ppn ft)) (num * PAGE_SIZE) 0\<rparr>)"
    and "tracker_ppns ft \<subseteq> block_ppns km p num" "block_ppns km p num \<subseteq> free_ppns km"
    and "frames_inv (km\<lparr>km_frames := fa\<rparr>) (used \<union> block_ppns km p num)"
    and "free_ppns (km\<lparr>km_frames := fa\<rparr>) = free_ppns km - block_ppns km p num"
proof -
  let ?syms = "km_syms km"
  let ?page = "\<lambda>f. PhysPageNum (word_of_nat (f + begin_nat (km_syms km)))"
  have syms: "syms_ok ?syms" and ok: "buddy_ok (nframes ?syms) (km_frames km)"
    and len: "length (fa_free_list (km_frames km)) = BUDDY_ORDER" and used: "used \<inter> free_ppns km = {}"
    using inv by (simp_all add: frames_inv_def)
  from buddy_alloc_law [OF ok al] have law: "buddy_ok (nframes ?syms) fa"
    "buddy_valid (nframes ?syms) p num" "range_of p num \<subseteq> buddy_free (km_frames km)"
    "buddy_free fa = buddy_free (km_frames km) - range_of p num" by auto
  have "page_addr (ft_ppn ft) = va_val (VirtPageNum_page_start (kernel_ppn_to_vpn (ft_ppn ft)))"
    by (simp add: page_addr_def)
  then show "frame_alloc km num = Some (Some ft, km\<lparr>km_frames := fa,
      km_ram := ram_fill (km_ram km) (page_addr (ft_ppn ft)) (num * PAGE_SIZE) 0\<rparr>)"
    using al num
    by (simp add: frame_alloc_def BuddySystemFrameAllocator_alloc_def FrameTracker_new_def
        FrameTracker_fill_def Let_def ft_def)
  show "tracker_ppns ft \<subseteq> block_ppns km p num"
    using tracker_in_block [OF law(2)] by (simp add: begin_nat_def block_ppns_def ft_def)
  show sub: "block_ppns km p num \<subseteq> free_ppns km"
    unfolding block_ppns_def free_ppns_def using law(3) by (rule image_mono)
  have inj: "inj_on ?page (buddy_free (km_frames km))"
  proof (rule inj_onI)
    fix x y assume "x \<in> buddy_free (km_frames km)" "y \<in> buddy_free (km_frames km)" "?page x = ?page y"
    then show "x = y"
      using buddy_free_bound [OF ok] ppn_of_frame(1) [OF syms] by (metis PhysPageNum.inject add_right_cancel)
  qed
  show free: "free_ppns (km\<lparr>km_frames := fa\<rparr>) = free_ppns km - block_ppns km p num"
    using inj_on_image_set_diff [OF inj Diff_subset law(3)] law(4)
    by (simp add: free_ppns_def block_ppns_def)
  show "frames_inv (km\<lparr>km_frames := fa\<rparr>) (used \<union> block_ppns km p num)"
    unfolding frames_inv_def free using syms law(1) used sub len buddy_alloc_length [OF ok al] by auto
qed

text \<open>A single frame is available as long as any frame is free.\<close>

lemma buddy_alloc_1:
  assumes "buddy_ok n s" "buddy_free s \<noteq> {}"
  obtains p s' where "buddy_alloc s 1 = (Some p, s')" "range_of p 1 = {unat p}"
proof -
  have inv: "fl_inv n (fa_free_list s)" using assms(1) by (simp add: buddy_ok_def)
  have one: "next_power_of_two (1::usize) = 2 ^ 0" by (simp add: next_power_of_two_def)
  obtain r s' where al: "buddy_alloc s 1 = (r, s')" by (cases "buddy_alloc s 1")
  have "r \<noteq> None"
  proof
    assume "r = None"
    with al alloc_power_of_two_spec [OF inv, of 0] one have "fl_blocks (fa_free_list s) = {}"
      by (auto simp: buddy_alloc_def)
    with assms(2) show False by (simp add: buddy_free_def free_frames_def frames_def)
  qed
  with al that show ?thesis by (auto simp: range_of_def one)
qed

lemma frame_alloc_1:
  assumes inv: "frames_inv km used" and free: "free_ppns km \<noteq> {}"
  obtains ppn fa where "frame_alloc km 1 = Some (Some \<lparr>ft_ppn = ppn, ft_num = 1\<rparr>,
      km\<lparr>km_frames := fa, km_ram := ram_fill (km_ram km) (page_addr ppn) 4096 0\<rparr>)"
    and "ppn \<in> free_ppns km" "ppn \<notin> used" "ppn_ok ppn"
    and "frames_inv (km\<lparr>km_frames := fa\<rparr>) (insert ppn used)"
    and "free_ppns (km\<lparr>km_frames := fa\<rparr>) = free_ppns km - {ppn}"
proof -
  have syms: "syms_ok (km_syms km)" and ok: "buddy_ok (nframes (km_syms km)) (km_frames km)"
    and used: "used \<inter> free_ppns km = {}"
    using inv by (simp_all add: frames_inv_def)
  have "buddy_free (km_frames km) \<noteq> {}" using free by (auto simp: free_ppns_def)
  from buddy_alloc_1 [OF ok this] obtain p fa where
    al: "buddy_alloc (km_frames km) 1 = (Some p, fa)" "range_of p 1 = {unat p}" .
  let ?ppn = "PhysPageNum (p + physical_memory_begin_frame (km_syms km))"
  have block: "block_ppns km p 1 = {?ppn}"
    by (simp add: block_ppns_def al(2) begin_nat_def)
  have *: "?ppn \<in> free_ppns km"
    using frame_alloc_Some(3) [OF inv order_refl al(1)] by (simp add: block)
  then have "ppn_ok ?ppn"
    using ppn_of_frame(2) [OF syms] buddy_free_bound [OF ok] by (auto simp: free_ppns_def)
  moreover have "?ppn \<notin> used" using * used by blast
  ultimately show ?thesis
    using that [of ?ppn fa] frame_alloc_Some [OF inv order_refl al(1)] *
    by (simp add: block config_simps)
qed

text \<open>
  \<^verbatim>\<open>frame_dealloc\<close> passes the end of the range where the allocator expects the number of frames.
  Every frame number of the machine is so large that the size class lies beyond the free lists.
\<close>

lemma merge_free_beyond: "length fl \<le> c \<Longrightarrow> merge_free fl p c = fl"
  by (subst merge_free.simps) simp

lemma frame_dealloc_spec:
  assumes "length (fa_free_list (km_frames km)) = BUDDY_ORDER" "2 ^ 15 \<le> unat (ppn_val e)"
  shows "fa_free_list (km_frames (frame_dealloc km (s, e))) = fa_free_list (km_frames km)"
    and "frame_dealloc km (s, e) = km\<lparr>km_frames := (km_frames km)
      \<lparr>fa_allocated := fa_allocated (km_frames km) - next_power_of_two (ppn_val e)\<rparr>\<rparr>"
proof -
  have "BUDDY_ORDER \<le> trailing_zeros (next_power_of_two (ppn_val e))"
  proof (cases rule: next_power_of_two_cases [of "ppn_val e"])
    case 1
    then show ?thesis by (simp add: trailing_zeros_def BUDDY_ORDER_eq)
  next
    case (2 k)
    then have "(2::nat) ^ 15 \<le> 2 ^ k" using assms(2) by linarith
    then have "15 \<le> k" by (rule power_le_imp_le_exp [rotated]) simp
    with 2 show ?thesis by (simp add: BUDDY_ORDER_eq)
  qed
  then have "merge_free (fa_free_list (km_frames km)) p (trailing_zeros (next_power_of_two (ppn_val e)))
      = fa_free_list (km_frames km)" for p
    using assms(1) by (simp add: merge_free_beyond)
  then show "frame_dealloc km (s, e) = km\<lparr>km_frames := (km_frames km)
      \<lparr>fa_allocated := fa_allocated (km_frames km) - next_power_of_two (ppn_val e)\<rparr>\<rparr>"
    by (simp add: frame_dealloc_def BuddySystemFrameAllocator_dealloc_def buddy_dealloc_def
        dealloc_power_of_two_def)
  then show "fa_free_list (km_frames (frame_dealloc km (s, e))) = fa_free_list (km_frames km)" by simp
qed

lemma FrameTracker_drop_inv:
  assumes "frames_inv km used" "2 ^ 15 \<le> unat (ppn_val (ft_ppn ft) + ft_num ft)"
  shows "frames_inv (FrameTracker_drop km ft) used" "free_ppns (FrameTracker_drop km ft) = free_ppns km"
    "km_ram (FrameTracker_drop km ft) = km_ram km" "km_syms (FrameTracker_drop km ft) = km_syms km"
proof -
  have "length (fa_free_list (km_frames km)) = BUDDY_ORDER" using assms(1) by (simp add: frames_inv_def)
  note drop = frame_dealloc_spec(2) [OF this, of "PhysPageNum (ppn_val (ft_ppn ft) + ft_num ft)" "ft_ppn ft"]
  have eq: "FrameTracker_drop km ft = km\<lparr>km_frames := (km_frames km)
      \<lparr>fa_allocated := fa_allocated (km_frames km) - next_power_of_two (ppn_val (ft_ppn ft) + ft_num ft)\<rparr>\<rparr>"
    using drop assms(2) by (simp add: FrameTracker_drop_def)
  show "free_ppns (FrameTracker_drop km ft) = free_ppns km"
    by (simp add: eq free_ppns_def buddy_free_def)
  then show "frames_inv (FrameTracker_drop km ft) used"
    using assms(1) by (simp add: frames_inv_def) (auto simp: eq buddy_ok_def)
qed (simp_all add: FrameTracker_drop_def frame_dealloc_def)

lemma init_frames:
  assumes "syms_ok (km_syms km)" "km_frames km = BuddySystemFrameAllocator_new"
  shows "\<exists>km'. init_frame_allocator km = Some km' \<and> frames_inv km' {} \<and> free_ppns km' = phys_ppns km
    \<and> km_ram km' = km_ram km"
proof -
  let ?b = "physical_memory_begin_frame (km_syms km)" and ?n = "nframes (km_syms km)"
  let ?len = "0x88000 - ?b"
  have bounds: "0x80200 \<le> unat ?b" "unat ?b \<le> 0x88000"
    using begin_bounds [OF assms(1)] by (simp_all add: begin_nat_def)
  then have n: "unat ?len = ?n"
    by (simp add: nframes_def begin_nat_def unat_sub word_le_nat_alt)
  have small: "?n < 2 ^ BUDDY_ORDER" using bounds by (simp add: nframes_def begin_nat_def BUDDY_ORDER_eq)
  have ok: "buddy_ok ?n (km_frames km)"
    unfolding assms(2) BuddySystemFrameAllocator_new_def
    using small by (intro buddy_new_ok) (simp_all add: BUDDY_ORDER_eq)
  have empty: "buddy_free (km_frames km) = {}" "fa_free_list (km_frames km) \<noteq> []"
    "length (fa_free_list (km_frames km)) = BUDDY_ORDER"
    by (simp_all add: assms(2) BuddySystemFrameAllocator_new_def)
      (simp_all add: FrameAllocator_new_def BUDDY_ORDER_eq)
  have range: "0 \<le> ?len" "unat ?len \<le> ?n" "{unat (0::usize) ..< unat ?len} \<inter> buddy_free (km_frames km) = {}"
    using n empty(1) by simp_all
  obtain fa where fa: "add_frame (km_frames km) 0 ?len = Some fa" "buddy_ok ?n fa"
    "buddy_free fa = {0 ..< ?n}" "length (fa_free_list fa) = BUDDY_ORDER"
    by (rule add_frame_spec [OF ok empty(2) range]) (use empty(1,3) n in auto)
  let ?km = "km\<lparr>km_frames := fa\<rparr>"
  have "free_ppns ?km = phys_ppns km"
  proof -
    have iff: "(\<exists>f<?n. x = word_of_nat (f + unat ?b)) \<longleftrightarrow> ?b \<le> x \<and> x < 0x88000" for x
    proof
      assume "\<exists>f<?n. x = word_of_nat (f + unat ?b)"
      then obtain f where "f < ?n" "x = word_of_nat (f + unat ?b)" by blast
      with ppn_of_frame(1) [OF assms(1)] show "?b \<le> x \<and> x < 0x88000"
        using bounds by (simp add: word_le_nat_alt word_less_nat_alt nframes_def begin_nat_def)
    next
      assume "?b \<le> x \<and> x < 0x88000"
      then show "\<exists>f<?n. x = word_of_nat (f + unat ?b)"
        by (intro exI [of _ "unat x - unat ?b"])
          (auto simp: word_le_nat_alt word_less_nat_alt nframes_def begin_nat_def of_nat_diff diff_less_mono)
    qed
    have "free_ppns ?km = {PhysPageNum x | x. \<exists>f<?n. x = word_of_nat (f + unat ?b)}"
      by (auto simp: free_ppns_def fa(3) begin_nat_def image_iff)
    then show ?thesis by (simp only: iff phys_ppns_def)
  qed
  moreover have "PhysAddr_floor (PhysAddr MEMORY_END) = PhysPageNum 0x88000" by (simp add: config_simps)
  ultimately show ?thesis
    using fa assms(1) by (simp add: init_frame_allocator_def frames_inv_def Let_def)
qed

section \<open>Properties\<close>

text \<open>
  Property C20. Initialising the empty allocator does not panic and makes exactly the frames from the end of the
  kernel image to the end of memory available.
\<close>

theorem init_frame_allocator_ok:
  assumes "syms_ok (km_syms km)" "km_frames km = BuddySystemFrameAllocator_new"
  shows "\<exists>km'. init_frame_allocator km = Some km' \<and> frames_inv km' {} \<and> free_ppns km' = phys_ppns km
    \<and> km_ram km' = km_ram km"
  using assms by (rule init_frames)

definition example_syms :: linker_symbols where
  "example_syms = \<lparr>stext = 0xffffffff80200000, etext = 0xffffffff80210000, srodata = 0xffffffff80210000,
     erodata = 0xffffffff80220000, sdata = 0xffffffff80220000, edata = 0xffffffff80230000,
     sbss_with_stack = 0xffffffff80230000, ebss = 0xffffffff80240000, ekernel = 0xffffffff80240000\<rparr>"

definition example_mem :: kernel_mem where
  "example_mem = \<lparr>km_syms = example_syms, km_ram = (\<lambda>_. 0xAA), km_frames = BuddySystemFrameAllocator_new,
     km_satp = 0, km_arcs = (\<lambda>_. 0)\<rparr>"

lemma example_mem_ok: "syms_ok (km_syms example_mem)" "km_frames example_mem = BuddySystemFrameAllocator_new"
  by (simp_all add: example_mem_def example_syms_def syms_ok_def config_simps)

lemma example_begin: "physical_memory_begin_frame (km_syms example_mem) = 0x80240"
  by (simp add: example_mem_def example_syms_def physical_memory_begin_frame_def config_simps)

theorem init_frame_allocator_ok_witness:
  "\<exists>km'. init_frame_allocator example_mem = Some km' \<and> PhysPageNum 0x80240 \<in> free_ppns km'
     \<and> PhysPageNum 0x8023f \<notin> free_ppns km'"
  using init_frame_allocator_ok [OF example_mem_ok] by (auto simp: phys_ppns_def example_begin)

lemma free_ppns_ok: "frames_inv km used \<Longrightarrow> ppn \<in> free_ppns km \<Longrightarrow> ppn_ok ppn"
  using ppn_of_frame(2) buddy_free_bound by (auto simp: frames_inv_def free_ppns_def)

lemma page_addr_add: "page_addr (PhysPageNum (n + i)) = page_addr (PhysPageNum n) + 4096 * i"
  by (simp add: page_addr_def config_simps push_bit_eq_mult algebra_simps)

text \<open>Filling the pages of a tracker reaches these pages and no other.\<close>

lemma ram_fill_pages:
  assumes off: "off < 4096" and num: "num < 2 ^ 44" and ok: "\<And>q. q \<in> tracker_ppns ft \<Longrightarrow> ppn_ok q"
    and ft: "ft_num ft = num" and q: "ppn_ok q"
  shows "ram_fill ram (page_addr (ft_ppn ft)) (num * PAGE_SIZE) b (page_addr q + off)
    = (if q \<in> tracker_ppns ft then b else ram (page_addr q + off))"
proof -
  obtain p where p: "ft_ppn ft = PhysPageNum p" by (cases "ft_ppn ft")
  let ?x = "page_addr q + off - page_addr (ft_ppn ft)"
  have lim: "unat (num * 4096 :: usize) = unat num * 4096"
    using num by (simp add: unat_word_ariths word_less_nat_alt)
  have "?x < num * 4096 \<longleftrightarrow> q \<in> tracker_ppns ft"
  proof
    assume x: "?x < num * 4096"
    let ?i = "?x div 4096" and ?o = "?x mod 4096"
    have i: "?i < num"
      using x lim by (simp add: word_less_nat_alt unat_div less_mult_imp_div_less)
    then have t: "PhysPageNum (p + ?i) \<in> tracker_ppns ft" by (auto simp: tracker_ppns_def p ft)
    have "?o < 4096" by (simp add: word_less_nat_alt unat_mod)
    moreover have "page_addr (PhysPageNum (p + ?i)) + ?o = page_addr q + off"
      using word_mod_div_equality [of ?x 4096] by (simp add: page_addr_add p algebra_simps)
    ultimately have "PhysPageNum (p + ?i) = q"
      using page_addr_eqD ok [OF t] q off by blast
    with t show "q \<in> tracker_ppns ft" by simp
  next
    assume "q \<in> tracker_ppns ft"
    then obtain i where i: "i < num" "q = PhysPageNum (p + i)" by (auto simp: tracker_ppns_def p ft)
    then have x: "?x = 4096 * i + off" by (simp add: page_addr_add p)
    have "unat (4096 * i + off) = 4096 * unat i + unat off"
      using i(1) num off by (simp add: unat_word_ariths word_less_nat_alt)
    then show "?x < num * 4096"
      unfolding x word_less_nat_alt lim using i(1) off by (simp add: word_less_nat_alt)
  qed
  then show ?thesis by (simp add: ram_fill_def config_simps)
qed

text \<open>
  Property C2. A frame tracker returned by \<^verbatim>\<open>frame_alloc\<close> covers the requested number of pages; none of them
  was in use, all are filled with zeros, every other page keeps its content, and they are in use
  from now on.
\<close>

theorem frame_alloc_fresh:
  assumes inv: "frames_inv km used" and num: "1 \<le> num"
    and al: "frame_alloc km num = Some (Some ft, km')"
  shows "ft_num ft = num \<and> tracker_ppns ft \<subseteq> free_ppns km \<and> tracker_ppns ft \<inter> used = {}
    \<and> frames_inv km' (used \<union> tracker_ppns ft)
    \<and> (\<forall>q off. ppn_ok q \<longrightarrow> off < 4096 \<longrightarrow> km_ram km' (page_addr q + off)
         = (if q \<in> tracker_ppns ft then 0 else km_ram km (page_addr q + off)))"
proof -
  have used: "used \<inter> free_ppns km = {}" and ok: "buddy_ok (nframes (km_syms km)) (km_frames km)"
    using inv by (simp_all add: frames_inv_def)
  obtain p fa where ba: "buddy_alloc (km_frames km) num = (Some p, fa)"
    using al by (cases "buddy_alloc (km_frames km) num"; cases "fst (buddy_alloc (km_frames km) num)")
      (auto simp: frame_alloc_def BuddySystemFrameAllocator_alloc_def)
  note spec = frame_alloc_Some [OF inv num ba]
  from al spec(1) have ft: "ft = \<lparr>ft_ppn = PhysPageNum (p + physical_memory_begin_frame (km_syms km)), ft_num = num\<rparr>"
    and km': "km' = km\<lparr>km_frames := fa, km_ram := ram_fill (km_ram km) (page_addr (ft_ppn ft)) (num * PAGE_SIZE) 0\<rparr>"
    by auto
  have free: "tracker_ppns ft \<subseteq> free_ppns km" using spec(2,3) ft by auto
  have okq: "\<And>q. q \<in> tracker_ppns ft \<Longrightarrow> ppn_ok q" using free free_ppns_ok [OF inv] by blast
  have num': "ft_num ft = num" using ft by simp
  have small: "num < 2 ^ 44"
  proof -
    have "buddy_valid (nframes (km_syms km)) p num" using buddy_alloc_law [OF ok ba] by blast
    then have "next_power_of_two num \<noteq> 0" "unat (next_power_of_two num) \<le> 0x88000"
      by (auto simp: buddy_valid_def nframes_def word_unat_eq_iff)
    then have "unat num \<le> 0x88000" by (cases rule: next_power_of_two_cases [of num]) auto
    then show ?thesis by (simp add: word_less_nat_alt)
  qed
  have "km_ram km' (page_addr q + off) = (if q \<in> tracker_ppns ft then 0 else km_ram km (page_addr q + off))"
    if "ppn_ok q" "off < 4096" for q off
    using ram_fill_pages [OF that(2) small okq num' that(1), of "km_ram km" 0] by (simp add: km')
  moreover have "frames_inv km' (used \<union> tracker_ppns ft)"
    using spec(2,4) unfolding ft km' frames_inv_def free_ppns_def by auto
  ultimately show ?thesis using free used ft by auto
qed

lemma example_booted:
  obtains km where "frames_inv km {}" "PhysPageNum 0x80240 \<in> free_ppns km" "km_ram km = (\<lambda>_. 0xAA)"
  using init_frames [OF example_mem_ok] by (auto simp: phys_ppns_def example_begin) (simp add: example_mem_def)

theorem frame_alloc_fresh_witness:
  "\<exists>km ft km'. frame_alloc km 1 = Some (Some ft, km') \<and> km_ram km = (\<lambda>_. 0xAA)
     \<and> ft_num ft = 1 \<and> km_ram km' (page_addr (ft_ppn ft) + 4095) = 0"
proof -
  obtain km where km: "frames_inv km {}" "PhysPageNum 0x80240 \<in> free_ppns km" "km_ram km = (\<lambda>_. 0xAA)"
    by (rule example_booted)
  then have "free_ppns km \<noteq> {}" by blast
  from frame_alloc_1 [OF km(1) this] obtain ft km' where al: "frame_alloc km 1 = Some (Some ft, km')" by metis
  have "ppn_ok (ft_ppn ft)" if "tracker_ppns ft \<subseteq> free_ppns km" "ft_num ft = 1"
    using that free_ppns_ok [OF km(1)] tracker_first [of ft] by auto
  with frame_alloc_fresh [OF km(1) order_refl al] tracker_first [of ft]
  have "ft_num ft = 1" "km_ram km' (page_addr (ft_ppn ft) + 4095) = 0" by auto
  with al km(3) show ?thesis by blast
qed

text \<open>
  Property C21. Dropping a tracker returns no frame to the allocator: whatever range of physical memory is
  deallocated, the free lists stay as they were, and the statistics shrink by a power of two of at
  least \<open>2 ^ 20\<close>.
\<close>

theorem frame_dealloc_leaks:
  assumes "frames_inv km used" "0x80200 \<le> ppn_val s" "ppn_val s < ppn_val e" "ppn_val e \<le> 0x88000"
  shows "free_ppns (frame_dealloc km (s, e)) = free_ppns km
    \<and> fa_free_list (km_frames (frame_dealloc km (s, e))) = fa_free_list (km_frames km)
    \<and> fa_allocated (km_frames (frame_dealloc km (s, e))) = fa_allocated (km_frames km) - 2 ^ 20"
proof -
  have len: "length (fa_free_list (km_frames km)) = BUDDY_ORDER" using assms(1) by (simp add: frames_inv_def)
  have e: "0x80200 < unat (ppn_val e)" "unat (ppn_val e) \<le> 0x88000"
    using assms(2-4) by (simp_all add: word_le_nat_alt word_less_nat_alt)
  have "next_power_of_two (ppn_val e) = 2 ^ 20"
  proof -
    have pos: "ppn_val e \<noteq> 0" "unat (ppn_val e) \<le> 2 ^ (LENGTH(64) - 1)" using e by auto
    obtain k where k: "k < 64" "next_power_of_two (ppn_val e) = 2 ^ k" "unat (ppn_val e) \<le> 2 ^ k"
      "\<And>j. unat (ppn_val e) \<le> 2 ^ j \<Longrightarrow> k \<le> j"
      by (rule next_power_of_two_spec [OF pos]) simp
    have "k \<le> 20" using k(4) [of 20] e by simp
    moreover have "(2::nat) ^ 19 < 2 ^ k" using k(3) e by simp
    then have "19 < k" by (rule power_less_imp_less_exp [rotated]) simp
    ultimately have "k = 20" by simp
    with k show ?thesis by simp
  qed
  moreover have "2 ^ 15 \<le> unat (ppn_val e)" using e by simp
  note frame_dealloc_spec(2) [OF len this, of s]
  ultimately show ?thesis by (simp add: free_ppns_def buddy_free_def)
qed

theorem frame_dealloc_leaks_witness:
  "\<exists>km ft km'. frame_alloc km 1 = Some (Some ft, km')
     \<and> free_ppns (frame_dealloc km' (PhysPageNum 0x80240, PhysPageNum 0x80241)) = free_ppns km'
     \<and> free_ppns km' \<noteq> free_ppns km"
proof -
  obtain km where km: "frames_inv km {}" "PhysPageNum 0x80240 \<in> free_ppns km" "km_ram km = (\<lambda>_. 0xAA)"
    by (rule example_booted)
  then have "free_ppns km \<noteq> {}" by blast
  from frame_alloc_1 [OF km(1) this] obtain ppn fa where
    al: "frame_alloc km 1 = Some (Some \<lparr>ft_ppn = ppn, ft_num = 1\<rparr>,
      km\<lparr>km_frames := fa, km_ram := ram_fill (km_ram km) (page_addr ppn) 4096 0\<rparr>)"
    and ppn: "ppn \<in> free_ppns km" "frames_inv (km\<lparr>km_frames := fa\<rparr>) {ppn}"
      "free_ppns (km\<lparr>km_frames := fa\<rparr>) = free_ppns km - {ppn}" by metis
  let ?km = "km\<lparr>km_frames := fa, km_ram := ram_fill (km_ram km) (page_addr ppn) 4096 0\<rparr>"
  have same: "free_ppns ?km = free_ppns (km\<lparr>km_frames := fa\<rparr>)" by (simp add: free_ppns_def)
  then have "frames_inv ?km {ppn}" using ppn(2) by (simp add: frames_inv_def)
  from frame_dealloc_leaks [OF this, of "PhysPageNum 0x80240" "PhysPageNum 0x80241"]
  have "free_ppns (frame_dealloc ?km (PhysPageNum 0x80240, PhysPageNum 0x80241)) = free_ppns ?km"
    by simp
  moreover have "free_ppns ?km \<noteq> free_ppns km" unfolding same ppn(3) using ppn(1) by blast
  ultimately show ?thesis using al by blast
qed

end
