(* ===== verification/Page_Table.thy ===== *)
theory Page_Table
  imports Frame_Alloc
begin

text \<open>
  Sv39 page tables (\<^verbatim>\<open>memory/src/page_table.rs\<close>): page table entries, the three-level walk, and the
  operations that create, extend and change a table in memory. Table nodes live in frames from
  the frame allocator and are read and written as words of memory.

  Main results: as long as the nodes of a table are pairwise different frames, mapping a page
  changes the translation of that page and of no other, unmapping removes it, and neither
  touches memory outside the nodes.
\<close>

section \<open>Entries\<close>

type_synonym PTEFlags = u8

definition PTE_V :: PTEFlags where "PTE_V = push_bit 0 1"
definition PTE_R :: PTEFlags where "PTE_R = push_bit 1 1"
definition PTE_W :: PTEFlags where "PTE_W = push_bit 2 1"
definition PTE_X :: PTEFlags where "PTE_X = push_bit 3 1"
definition PTE_U :: PTEFlags where "PTE_U = push_bit 4 1"
definition PTE_G :: PTEFlags where "PTE_G = push_bit 5 1"
definition PTE_A :: PTEFlags where "PTE_A = push_bit 6 1"
definition PTE_D :: PTEFlags where "PTE_D = push_bit 7 1"

definition PTEFlags_all :: PTEFlags where
  "PTEFlags_all = PTE_V OR PTE_R OR PTE_W OR PTE_X OR PTE_U OR PTE_G OR PTE_A OR PTE_D"

definition PTEFlags_from :: "u8 \<Rightarrow> PTEFlags" where
  "PTEFlags_from mp = flags_from_bits_truncate PTEFlags_all mp"

datatype PageTableEntry = PageTableEntry (pte_bits: usize)

definition LOW_44_MASK :: usize where "LOW_44_MASK = push_bit 44 1 - 1"

definition PageTableEntry_new :: "PhysPageNum \<Rightarrow> PTEFlags \<Rightarrow> PageTableEntry" where
  "PageTableEntry_new ppn flags = PageTableEntry (push_bit 10 (ppn_val ppn) OR ucast flags)"

definition PageTableEntry_empty :: PageTableEntry where
  "PageTableEntry_empty = PageTableEntry 0"

definition PageTableEntry_ppn :: "PageTableEntry \<Rightarrow> PhysPageNum" where
  "PageTableEntry_ppn self = PhysPageNum (drop_bit 10 (pte_bits self) AND LOW_44_MASK)"

definition PageTableEntry_flags :: "PageTableEntry \<Rightarrow> PTEFlags" where
  "PageTableEntry_flags self = flags_from_bits_truncate PTEFlags_all (ucast (pte_bits self))"

definition PageTableEntry_is_valid :: "PageTableEntry \<Rightarrow> bool" where
  "PageTableEntry_is_valid self = flags_contains (PageTableEntry_flags self) PTE_V"

section \<open>Tables\<close>

record PageTable =
  pt_root_ppn :: PhysPageNum
  pt_frames :: "FrameTracker list"

definition PageTable_with_root :: "kernel_mem \<Rightarrow> (PageTable \<times> kernel_mem) option" where
  "PageTable_with_root km = do {
     (r, km) \<leftarrow> frame_alloc km 1;
     frame \<leftarrow> r;
     Some (\<lparr>pt_root_ppn = ft_ppn frame, pt_frames = [frame]\<rparr>, km) }"

text \<open>Dropping a vector of trackers drops its elements in order.\<close>

definition drop_trackers :: "kernel_mem \<Rightarrow> FrameTracker list \<Rightarrow> kernel_mem" where
  "drop_trackers km fts = foldl FrameTracker_drop km fts"

definition PageTable_clear_except_root :: "kernel_mem \<Rightarrow> PageTable \<Rightarrow> PageTable \<times> kernel_mem" where
  "PageTable_clear_except_root km self =
     (self\<lparr>pt_frames := take 1 (pt_frames self)\<rparr>, drop_trackers km (drop 1 (pt_frames self)))"

definition PageTable_from_token :: "usize \<Rightarrow> PageTable" where
  "PageTable_from_token tok = \<lparr>pt_root_ppn = PhysPageNum (tok AND LOW_44_MASK), pt_frames = []\<rparr>"

text \<open>
  A reference to the page of a frame: the conversion from a pointer panics on the null address.
\<close>

definition page_ref :: "PhysPageNum \<Rightarrow> unit option" where
  "page_ref ppn = rust_assert (page_addr ppn \<noteq> 0)"

definition read_pte :: "kernel_mem \<Rightarrow> PhysPageNum \<Rightarrow> usize \<Rightarrow> PageTableEntry" where
  "read_pte km ppn idx = PageTableEntry (page_word (km_ram km) ppn idx)"

definition write_pte :: "kernel_mem \<Rightarrow> PhysPageNum \<Rightarrow> usize \<Rightarrow> PageTableEntry \<Rightarrow> kernel_mem" where
  "write_pte km ppn idx pte = km\<lparr>km_ram := set_page_word (km_ram km) ppn idx (pte_bits pte)\<rparr>"

definition PageTable_root_pte :: "kernel_mem \<Rightarrow> PageTable \<Rightarrow> usize \<Rightarrow> PageTableEntry option" where
  "PageTable_root_pte km self line = do {
     page_ref (pt_root_ppn self);
     rust_assert (line < PTE_PER_PAGE);
     Some (read_pte km (pt_root_ppn self) line) }"

text \<open>The mutable variants are modelled with the value the caller stores.\<close>

definition PageTable_root_pte_mut :: "kernel_mem \<Rightarrow> PageTable \<Rightarrow> usize \<Rightarrow> PageTableEntry \<Rightarrow> kernel_mem option" where
  "PageTable_root_pte_mut km self line pte = do {
     page_ref (pt_root_ppn self);
     rust_assert (line < PTE_PER_PAGE);
     Some (write_pte km (pt_root_ppn self) line pte) }"

fun find_pte_loop :: "kernel_mem \<Rightarrow> PhysPageNum \<Rightarrow> usize list \<Rightarrow> PageTableEntry option \<Rightarrow>
    PageTableEntry option option" where
  "find_pte_loop km ppn [] ret = Some ret"
| "find_pte_loop km ppn (idx # idxs) ret = do {
     page_ref ppn;
     let pte = read_pte km ppn idx;
     if \<not> PageTableEntry_is_valid pte then Some None
     else find_pte_loop km (PageTableEntry_ppn pte) idxs (Some pte) }"

definition PageTable_find_pte :: "kernel_mem \<Rightarrow> PageTable \<Rightarrow> VirtPageNum \<Rightarrow> PageTableEntry option option" where
  "PageTable_find_pte km self vpn =
     find_pte_loop km (pt_root_ppn self) (VirtPageNum_indexes vpn) None"

text \<open>The entry is returned as its place: the frame of the node and the index in it.\<close>

fun find_pte_create_loop :: "kernel_mem \<Rightarrow> PageTable \<Rightarrow> PhysPageNum \<Rightarrow> nat \<Rightarrow> usize list \<Rightarrow>
    ((PhysPageNum \<times> usize) option \<times> PageTable \<times> kernel_mem) option" where
  "find_pte_create_loop km self ppn i [] = Some (None, self, km)"
| "find_pte_create_loop km self ppn i (idx # idxs) = do {
     page_ref ppn;
     if i = 2 then Some (Some (ppn, idx), self, km)
     else if \<not> PageTableEntry_is_valid (read_pte km ppn idx) then do {
       (r, km) \<leftarrow> frame_alloc km 1;
       frame \<leftarrow> r;
       let km = write_pte km ppn idx (PageTableEntry_new (ft_ppn frame) PTE_V);
       let self = self\<lparr>pt_frames := pt_frames self @ [frame]\<rparr>;
       find_pte_create_loop km self (PageTableEntry_ppn (read_pte km ppn idx)) (i + 1) idxs }
     else find_pte_create_loop km self (PageTableEntry_ppn (read_pte km ppn idx)) (i + 1) idxs }"

definition PageTable_find_pte_create :: "kernel_mem \<Rightarrow> PageTable \<Rightarrow> VirtPageNum \<Rightarrow>
    ((PhysPageNum \<times> usize) option \<times> PageTable \<times> kernel_mem) option" where
  "PageTable_find_pte_create km self vpn =
     find_pte_create_loop km self (pt_root_ppn self) 0 (VirtPageNum_indexes vpn)"

definition PageTable_map :: "kernel_mem \<Rightarrow> PageTable \<Rightarrow> VirtPageNum \<Rightarrow> PhysPageNum \<Rightarrow> PTEFlags \<Rightarrow>
    (PageTable \<times> kernel_mem) option" where
  "PageTable_map km self vpn ppn flags = do {
     (place, self, km) \<leftarrow> PageTable_find_pte_create km self vpn;
     (node, idx) \<leftarrow> place;
     rust_assert (\<not> PageTableEntry_is_valid (read_pte km node idx));
     Some (self, write_pte km node idx (PageTableEntry_new ppn (flags OR PTE_V))) }"

definition PageTable_unmap :: "kernel_mem \<Rightarrow> PageTable \<Rightarrow> VirtPageNum \<Rightarrow> (PageTable \<times> kernel_mem) option" where
  "PageTable_unmap km self vpn = do {
     (place, self, km) \<leftarrow> PageTable_find_pte_create km self vpn;
     (node, idx) \<leftarrow> place;
     rust_assert (PageTableEntry_is_valid (read_pte km node idx));
     Some (self, write_pte km node idx PageTableEntry_empty) }"

definition PageTable_translate :: "kernel_mem \<Rightarrow> PageTable \<Rightarrow> VirtPageNum \<Rightarrow> PhysPageNum option option" where
  "PageTable_translate km self vpn = do {
     pte \<leftarrow> PageTable_find_pte km self vpn;
     Some (map_option PageTableEntry_ppn pte) }"

definition PageTable_trans_va_to_pa :: "kernel_mem \<Rightarrow> PageTable \<Rightarrow> VirtAddr \<Rightarrow> PhysAddr option option" where
  "PageTable_trans_va_to_pa km self va = do {
     pte \<leftarrow> PageTable_find_pte km self (VirtAddr_vpn_floor va);
     Some (map_option (\<lambda>pte.
       PhysAddr_add (PhysPageNum_page_start (PageTableEntry_ppn pte)) (VirtAddr_page_offset va)) pte) }"

definition PageTable_trans_va :: "kernel_mem \<Rightarrow> PageTable \<Rightarrow> VirtAddr \<Rightarrow> VirtAddr Result option" where
  "PageTable_trans_va km self va = do {
     pa \<leftarrow> PageTable_trans_va_to_pa km self va;
     Some (ok_or (map_option kernel_pa_to_va pa) EFAULT) }"

definition PageTable_token :: "PageTable \<Rightarrow> usize" where
  "PageTable_token self = push_bit 60 8 OR ppn_val (pt_root_ppn self)"

text \<open>The table is dropped with its trackers.\<close>

definition PageTable_drop :: "kernel_mem \<Rightarrow> PageTable \<Rightarrow> kernel_mem" where
  "PageTable_drop km self = drop_trackers km (pt_frames self)"

section \<open>Entries encode a frame and flags\<close>

lemmas pte_flag_defs = PTE_V_def PTE_R_def PTE_W_def PTE_X_def PTE_U_def PTE_G_def PTE_A_def PTE_D_def

lemma PTEFlags_all_eq: "PTEFlags_all = - 1"
  by (simp add: PTEFlags_all_def pte_flag_defs)

lemma PTEFlags_from_id [simp]: "PTEFlags_from mp = mp"
  by (simp add: PTEFlags_from_def flags_from_bits_truncate_def PTEFlags_all_eq)

lemma is_valid_bit: "PageTableEntry_is_valid pte \<longleftrightarrow> bit (pte_bits pte) 0"
proof -
  have "bit w 0 \<longleftrightarrow> w AND 1 = 1" for w :: u8
    by (simp add: bit_0 and_one_eq even_iff_mod_2_eq_zero odd_iff_mod_2_eq_one)
  then show ?thesis
    by (simp add: PageTableEntry_is_valid_def PageTableEntry_flags_def flags_contains_def
        flags_from_bits_truncate_def PTEFlags_all_eq PTE_V_def flip: bit_ucast_iff)
      (metis bit_ucast_iff len_gt_0)
qed

lemma LOW_44_MASK_eq: "LOW_44_MASK = mask 44"
  by (simp add: LOW_44_MASK_def mask_eq_exp_minus_1)

lemma PageTableEntry_ppn_new [simp]: "ppn_ok ppn \<Longrightarrow> PageTableEntry_ppn (PageTableEntry_new ppn flags) = ppn"
proof -
  assume "ppn_ok ppn"
  then have "take_bit 44 (ppn_val ppn) = ppn_val ppn"
    by (simp add: word_eq_iff_unsigned [where ?'a = nat] unsigned_take_bit_eq take_bit_nat_eq_self word_less_nat_alt)
  moreover have "drop_bit 10 (push_bit 10 (ppn_val ppn) OR ucast flags) AND mask 44 = take_bit 44 (ppn_val ppn)"
    by (rule bit_eqI) (auto simp: bit_simps dest: bit_imp_le_length)
  ultimately show ?thesis
    by (simp add: PageTableEntry_ppn_def PageTableEntry_new_def LOW_44_MASK_eq)
qed

lemma PageTableEntry_flags_new [simp]: "PageTableEntry_flags (PageTableEntry_new ppn flags) = flags"
proof -
  have "(ucast (push_bit 10 (ppn_val ppn) OR ucast flags :: usize) :: u8) = flags"
    by (rule bit_eqI) (auto simp: bit_simps)
  then show ?thesis
    by (simp add: PageTableEntry_flags_def PageTableEntry_new_def flags_from_bits_truncate_def PTEFlags_all_eq)
qed

lemma is_valid_new [simp]: "PageTableEntry_is_valid (PageTableEntry_new ppn flags) \<longleftrightarrow> bit flags 0"
  by (simp add: is_valid_bit PageTableEntry_new_def bit_simps)

lemma is_valid_PTE_V [simp]: "bit PTE_V 0" "bit (flags OR PTE_V) 0"
  by (simp_all add: PTE_V_def bit_simps)

lemma is_valid_zero [simp]: "\<not> PageTableEntry_is_valid (PageTableEntry 0)"
  "\<not> PageTableEntry_is_valid PageTableEntry_empty"
  by (simp_all add: is_valid_bit PageTableEntry_empty_def)

section \<open>The tree of a table\<close>

text \<open>The frame an entry points to, and the frame at the end of a path of indexes.\<close>

definition child :: "ram \<Rightarrow> PhysPageNum \<Rightarrow> usize \<Rightarrow> PhysPageNum option" where
  "child ram p i = (let pte = PageTableEntry (page_word ram p i)
     in if PageTableEntry_is_valid pte then Some (PageTableEntry_ppn pte) else None)"

fun node :: "ram \<Rightarrow> PhysPageNum \<Rightarrow> usize list \<Rightarrow> PhysPageNum option" where
  "node ram p [] = Some p"
| "node ram p (i # is) = (case child ram p i of None \<Rightarrow> None | Some q \<Rightarrow> node ram q is)"

definition idx_ok :: "usize list \<Rightarrow> bool" where
  "idx_ok is \<longleftrightarrow> (\<forall>i \<in> set is. i < 512)"

text \<open>The valid entry at index \<^term>\<open>i\<close> of the node at the end of a path.\<close>

definition walk :: "ram \<Rightarrow> PhysPageNum \<Rightarrow> usize list \<Rightarrow> usize \<Rightarrow> PageTableEntry option" where
  "walk ram root is i = (case node ram root is of None \<Rightarrow> None | Some q \<Rightarrow>
     (let pte = PageTableEntry (page_word ram q i) in if PageTableEntry_is_valid pte then Some pte else None))"

text \<open>The frames that hold the nodes of the three levels.\<close>

definition table_nodes :: "ram \<Rightarrow> PhysPageNum \<Rightarrow> PhysPageNum set" where
  "table_nodes ram root = {p. \<exists>is. length is \<le> 2 \<and> idx_ok is \<and> node ram root is = Some p}"

definition phys_ok :: "PhysPageNum \<Rightarrow> bool" where
  "phys_ok p \<longleftrightarrow> ppn_val p < 0x88000"

text \<open>The invariant: nodes lie in physical memory, and different paths lead to different nodes.\<close>

definition tree_ok :: "ram \<Rightarrow> PhysPageNum \<Rightarrow> bool" where
  "tree_ok ram root \<longleftrightarrow> (\<forall>p \<in> table_nodes ram root. phys_ok p)
     \<and> (\<forall>is js p. length is \<le> 2 \<longrightarrow> length js \<le> 2 \<longrightarrow> idx_ok is \<longrightarrow> idx_ok js \<longrightarrow>
          node ram root is = Some p \<longrightarrow> node ram root js = Some p \<longrightarrow> is = js)"

lemma idx_ok_simps [simp]:
  "idx_ok []" "idx_ok (i # is) \<longleftrightarrow> i < 512 \<and> idx_ok is" "idx_ok (is @ js) \<longleftrightarrow> idx_ok is \<and> idx_ok js"
  by (auto simp: idx_ok_def)

lemma node_append: "node ram p (is @ js) = (case node ram p is of None \<Rightarrow> None | Some q \<Rightarrow> node ram q js)"
  by (induction ram p "is" rule: node.induct) (auto split: option.splits)

lemma node_snoc: "node ram p (is @ [i]) = (case node ram p is of None \<Rightarrow> None | Some q \<Rightarrow> child ram q i)"
  by (simp add: node_append split: option.splits)

lemma phys_ok_ppn: "phys_ok p \<Longrightarrow> ppn_ok p"
  by (simp add: phys_ok_def word_less_nat_alt)

lemma phys_ok_page_ref: "phys_ok p \<Longrightarrow> page_ref p = Some ()"
proof -
  assume p: "phys_ok p"
  obtain n where n: "p = PhysPageNum n" by (cases p)
  have "push_bit 12 (n + 0xFFFFFFFF00000) \<noteq> (0::usize)"
  proof
    assume z: "push_bit 12 (n + 0xFFFFFFFF00000) = (0::usize)"
    have "unat n < 0x88000" using p n by (simp add: phys_ok_def word_less_nat_alt)
    then have "unat (n + 0xFFFFFFFF00000) = unat n + 0xFFFFFFFF00000" by (simp add: unat_word_ariths)
    then have "unat (push_bit 12 (n + 0xFFFFFFFF00000)) = (unat n + 0xFFFFFFFF00000) * 4096 mod 2 ^ 64"
      by (simp add: push_bit_eq_mult unat_word_ariths mod_simps)
    with z have "(unat n + 0xFFFFFFFF00000) * 4096 mod 2 ^ 64 = 0" by (simp del: push_bit_eq_0_iff)
    with \<open>unat n < 0x88000\<close> show False by (simp add: mod_if split: if_splits)
  qed
  then show ?thesis by (simp add: page_ref_def page_addr_def n config_simps)
qed

text \<open>Two memories that agree on the nodes have the same tree.\<close>

lemma node_cong:
  assumes "\<And>p i. p \<in> table_nodes ram root \<Longrightarrow> i < 512 \<Longrightarrow> page_word ram' p i = page_word ram p i"
    and "length is \<le> 3" "idx_ok is"
  shows "node ram' root is = node ram root is"
  using assms(2,3)
proof (induction "is" rule: rev_induct)
  case (snoc i "is")
  have IH: "node ram' root is = node ram root is" using snoc by simp
  show ?case
  proof (cases "node ram root is")
    case (Some p)
    then have "p \<in> table_nodes ram root" using snoc.prems by (auto simp: table_nodes_def)
    then have "child ram' p i = child ram p i"
      using assms(1) snoc.prems(2) by (simp add: child_def)
    then show ?thesis by (simp add: node_snoc IH Some)
  qed (simp add: node_snoc IH)
qed simp

text \<open>
  Writing one entry of a node changes the tree only below that entry.
\<close>

lemma node_write_other:
  assumes tree: "tree_ok ram root" and q: "node ram root is0 = Some q" "length is0 \<le> 2" "idx_ok is0" "k < 512"
    and "length is \<le> 3" "idx_ok is" "\<not> (\<exists>js. is = is0 @ [k] @ js)"
  shows "node (set_page_word ram q k w) root is = node ram root is"
  using assms(6-8)
proof (induction "is" rule: rev_induct)
  case (snoc i "is")
  let ?ram = "set_page_word ram q k w"
  have "\<not> (\<exists>js. is = is0 @ [k] @ js)"
  proof
    assume "\<exists>js. is = is0 @ [k] @ js"
    then obtain js where "is @ [i] = is0 @ [k] @ (js @ [i])" by auto
    with snoc.prems(3) show False by blast
  qed
  with snoc have IH: "node ?ram root is = node ram root is" by simp
  have nodes: "p \<in> table_nodes ram root" if "node ram root is = Some p" for p
    using that snoc.prems(1,2) by (auto simp: table_nodes_def)
  show ?case
  proof (cases "node ram root is")
    case (Some p)
    have "p \<in> table_nodes ram root" using nodes [OF Some] .
    moreover have "q \<in> table_nodes ram root" using q by (auto simp: table_nodes_def)
    ultimately have ok: "ppn_ok p" "ppn_ok q" using tree phys_ok_ppn by (auto simp: tree_ok_def)
    have "(q, k) \<noteq> (p, i)"
    proof
      assume "(q, k) = (p, i)"
      then have "node ram root is = Some q" "i = k" using Some by simp_all
      then have "is = is0" using tree q snoc.prems(1,2) by (auto simp: tree_ok_def)
      with \<open>i = k\<close> snoc.prems(3) show False by auto
    qed
    then have "page_word ?ram p i = page_word ram p i"
      using page_word_set_other [of k i q p] q(4) snoc.prems(2) ok by auto
    then show ?thesis by (simp add: node_snoc IH Some child_def)
  qed (simp add: node_snoc IH)
qed simp

lemma node_write_at:
  assumes tree: "tree_ok ram root" and q: "node ram root is0 = Some q" "length is0 \<le> 2" "idx_ok is0" "k < 512"
  shows "node (set_page_word ram q k w) root (is0 @ [k]) =
    (if PageTableEntry_is_valid (PageTableEntry w) then Some (PageTableEntry_ppn (PageTableEntry w)) else None)"
proof -
  have "node (set_page_word ram q k w) root is0 = node ram root is0"
    using node_write_other [OF tree q, of is0 w] q(2,3) by auto
  then show ?thesis using q by (simp add: node_snoc child_def Let_def)
qed

text \<open>A fresh zeroed frame changes nothing in the tree.\<close>

lemma node_fill:
  assumes tree: "tree_ok ram root" and f: "f \<notin> table_nodes ram root" "ppn_ok f" and "length is \<le> 3" "idx_ok is"
  shows "node (ram_fill ram (page_addr f) 4096 0) root is = node ram root is"
proof (rule node_cong [OF _ assms(4,5)])
  fix p i assume p: "p \<in> table_nodes ram root" "i < (512::usize)"
  then have "ppn_ok p" using tree phys_ok_ppn by (auto simp: tree_ok_def)
  with p f show "page_word (ram_fill ram (page_addr f) 4096 0) p i = page_word ram p i"
    by (intro page_word_fill_other) auto
qed

lemma tree_ok_cong:
  assumes "tree_ok ram root" "\<And>is. length is \<le> 2 \<Longrightarrow> idx_ok is \<Longrightarrow> node ram' root is = node ram root is"
  shows "tree_ok ram' root" "table_nodes ram' root = table_nodes ram root"
proof -
  show nodes: "table_nodes ram' root = table_nodes ram root"
    using assms(2) by (auto simp: table_nodes_def)
  show "tree_ok ram' root"
    using assms unfolding tree_ok_def nodes by auto
qed

text \<open>Linking a fresh zeroed frame below an empty entry of an upper level adds one node.\<close>

lemma node_link:
  assumes tree: "tree_ok ram root" and q: "node ram root is0 = Some q" "length is0 \<le> 1" "idx_ok is0" "k < 512"
    and empty: "child ram q k = None" and f: "f \<notin> table_nodes ram root" "phys_ok f"
    and zero: "\<And>i. i < 512 \<Longrightarrow> page_word ram f i = 0"
  defines "ram' \<equiv> set_page_word ram q k (pte_bits (PageTableEntry_new f PTE_V))"
  shows "\<And>is. length is \<le> 3 \<Longrightarrow> idx_ok is \<Longrightarrow> is \<noteq> is0 @ [k] \<Longrightarrow> node ram' root is = node ram root is"
    and "node ram' root (is0 @ [k]) = Some f"
    and "tree_ok ram' root" "table_nodes ram' root = insert f (table_nodes ram root)"
proof -
  have q2: "length is0 \<le> 2" using q(2) by simp
  have qn: "q \<in> table_nodes ram root" unfolding table_nodes_def using q(1,3) q2 by blast
  have okq: "ppn_ok q" using qn tree phys_ok_ppn by (auto simp: tree_ok_def)
  have okf: "ppn_ok f" using f(2) phys_ok_ppn by blast
  have "f \<noteq> q" using f(1) qn by auto
  have zero': "child ram' f i = None" if "i < 512" for i
    using page_word_set_other [OF q(4) that okq okf, of ram] zero [OF that] \<open>f \<noteq> q\<close>
    by (simp add: child_def ram'_def)
  show at: "node ram' root (is0 @ [k]) = Some f"
    using node_write_at [OF tree q(1) q2 q(3,4)] okf by (simp add: ram'_def)
  show other: "node ram' root is = node ram root is" if "length is \<le> 3" "idx_ok is" "is \<noteq> is0 @ [k]" for "is"
  proof (cases "\<exists>js. is = is0 @ [k] @ js")
    case False
    then show ?thesis
      unfolding ram'_def using node_write_other [OF tree q(1) q2 q(3,4) that(1,2)] by blast
  next
    case True
    then obtain js where js: "is = (is0 @ [k]) @ js" by auto
    with that(3) obtain i js' where i: "js = i # js'" by (cases js) auto
    have "node ram root (is0 @ [k]) = None" using q(1) empty by (simp add: node_snoc)
    then have "node ram root is = None" unfolding js by (subst node_append) simp
    moreover have "node ram' root is = node ram' f js" unfolding js by (subst node_append) (simp only: at option.case)
    moreover have "node ram' f js = None" using js that(2) by (simp add: i zero')
    ultimately show ?thesis by simp
  qed
  have nodes: "table_nodes ram' root = insert f (table_nodes ram root)"
  proof (intro set_eqI iffI)
    fix p assume "p \<in> table_nodes ram' root"
    then obtain "is" where "is": "length is \<le> 2" "idx_ok is" "node ram' root is = Some p"
      by (auto simp: table_nodes_def)
    show "p \<in> insert f (table_nodes ram root)"
    proof (cases "is = is0 @ [k]")
      case True
      with at "is"(3) show ?thesis by simp
    next
      case False
      with other [of "is"] "is" have "node ram root is = Some p" by simp
      with "is"(1,2) show ?thesis by (auto simp: table_nodes_def)
    qed
  next
    fix p assume p: "p \<in> insert f (table_nodes ram root)"
    show "p \<in> table_nodes ram' root"
    proof (cases "p = f")
      case True
      with at q show ?thesis by (auto simp: table_nodes_def intro!: exI [of _ "is0 @ [k]"])
    next
      case False
      with p obtain "is" where "is": "length is \<le> 2" "idx_ok is" "node ram root is = Some p"
        by (auto simp: table_nodes_def)
      have "is \<noteq> is0 @ [k]" using q(1) empty "is"(3) by (auto simp: node_snoc)
      with other [of "is"] "is" show ?thesis by (auto simp: table_nodes_def)
    qed
  qed
  show "table_nodes ram' root = insert f (table_nodes ram root)" by (rule nodes)
  show "tree_ok ram' root"
    unfolding tree_ok_def nodes
  proof (intro conjI allI impI)
    show "\<forall>p \<in> insert f (table_nodes ram root). phys_ok p" using tree f(2) by (auto simp: tree_ok_def)
    fix "is" js p
    assume a: "length is \<le> 2" "length js \<le> 2" "idx_ok is" "idx_ok js"
      "node ram' root is = Some p" "node ram' root js = Some p"
    have old: "node ram root xs = Some p \<and> p \<noteq> f" if "xs \<noteq> is0 @ [k]" "length xs \<le> 2" "idx_ok xs" "node ram' root xs = Some p" for xs
    proof -
      have "node ram root xs = Some p" using other [of xs] that by simp
      moreover from this that f(1) have "p \<noteq> f" by (auto simp: table_nodes_def)
      ultimately show ?thesis by simp
    qed
    show "is = js"
    proof (cases "p = f")
      case True
      then show ?thesis using old [of "is"] old [of js] a by metis
    next
      case False
      then have "is \<noteq> is0 @ [k]" "js \<noteq> is0 @ [k]" using at a(5,6) by auto
      then show ?thesis using old [of "is"] old [of js] a tree unfolding tree_ok_def by metis
    qed
  qed
qed

lemma node_mem: "node ram root is = Some q \<Longrightarrow> length is \<le> 2 \<Longrightarrow> idx_ok is \<Longrightarrow> q \<in> table_nodes ram root"
  by (auto simp: table_nodes_def)

lemma tree_ok_inj:
  "tree_ok ram root \<Longrightarrow> node ram root is = Some q \<Longrightarrow> node ram root js = Some q \<Longrightarrow>
     length is \<le> 2 \<Longrightarrow> length js \<le> 2 \<Longrightarrow> idx_ok is \<Longrightarrow> idx_ok js \<Longrightarrow> is = js"
  unfolding tree_ok_def by blast

lemma tree_ok_ppn: "tree_ok ram root \<Longrightarrow> p \<in> table_nodes ram root \<Longrightarrow> ppn_ok p \<and> phys_ok p"
  using phys_ok_ppn by (auto simp: tree_ok_def)

lemma walk_fill:
  assumes tree: "tree_ok ram root" and f: "f \<notin> table_nodes ram root" "ppn_ok f"
    and "length is \<le> 2" "idx_ok is" "i < 512"
  shows "walk (ram_fill ram (page_addr f) 4096 0) root is i = walk ram root is i"
proof (cases "node ram root is")
  case (Some q)
  then have q: "q \<in> table_nodes ram root" using assms(4,5) by (rule node_mem)
  then have "page_word (ram_fill ram (page_addr f) 4096 0) q i = page_word ram q i"
    using f tree_ok_ppn [OF tree q] assms(6) by (intro page_word_fill_other) auto
  then show ?thesis using node_fill [OF tree f, of "is"] assms(4,5) by (simp add: walk_def Some)
qed (use node_fill [OF tree f, of "is"] assms(4,5) in \<open>simp add: walk_def\<close>)

lemma walk_write_other:
  assumes tree: "tree_ok ram root" and q: "node ram root is0 = Some q" "length is0 \<le> 2" "idx_ok is0" "k < 512"
    and "is": "length is \<le> 2" "idx_ok is" "i < 512" "\<not> (\<exists>js. is = is0 @ [k] @ js)" "(is, i) \<noteq> (is0, k)"
  shows "walk (set_page_word ram q k w) root is i = walk ram root is i"
proof -
  have same: "node (set_page_word ram q k w) root is = node ram root is"
    using node_write_other [OF tree q] "is"(1,2,4) by simp
  show ?thesis
  proof (cases "node ram root is")
    case (Some p)
    have nodes: "p \<in> table_nodes ram root" "q \<in> table_nodes ram root"
      using node_mem [OF Some "is"(1,2)] node_mem [OF q(1-3)] .
    have "(q, k) \<noteq> (p, i)"
      using tree_ok_inj [OF tree Some] q "is" by auto
    then have "page_word (set_page_word ram q k w) p i = page_word ram p i"
      using tree_ok_ppn [OF tree] nodes q(4) "is"(3) by (intro page_word_set_other) auto
    then show ?thesis by (simp add: walk_def same Some)
  qed (simp add: walk_def same)
qed

lemma walk_write_at:
  assumes tree: "tree_ok ram root" and q: "node ram root is0 = Some q" "length is0 \<le> 2" "idx_ok is0" "k < 512"
  shows "walk (set_page_word ram q k w) root is0 k =
    (if PageTableEntry_is_valid (PageTableEntry w) then Some (PageTableEntry w) else None)"
proof -
  have "node (set_page_word ram q k w) root is0 = node ram root is0"
    using node_write_other [OF tree q, of is0 w] q(2,3) by auto
  then show ?thesis using q by (simp add: walk_def Let_def)
qed

lemma walk_link:
  assumes tree: "tree_ok ram root" and q: "node ram root is0 = Some q" "length is0 \<le> 1" "idx_ok is0" "k < 512"
    and empty: "child ram q k = None" and f: "f \<notin> table_nodes ram root" "phys_ok f"
    and zero: "\<And>i. i < 512 \<Longrightarrow> page_word ram f i = 0"
    and "is": "length is = 2" "idx_ok is" "i < 512"
  shows "walk (set_page_word ram q k (pte_bits (PageTableEntry_new f PTE_V))) root is i = walk ram root is i"
proof -
  let ?ram = "set_page_word ram q k (pte_bits (PageTableEntry_new f PTE_V))"
  have q2: "length is0 \<le> 2" "length is \<le> 2" using q(2) "is"(1) by simp_all
  show ?thesis
  proof (cases "is = is0 @ [k]")
    case True
    have at: "node ?ram root is = Some f"
      unfolding True by (rule node_link(2) [OF tree q empty f zero])
    have "q \<in> table_nodes ram root" using node_mem [OF q(1) q2(1) q(3)] .
    then have "page_word ?ram f i = page_word ram f i"
      using tree_ok_ppn [OF tree] f phys_ok_ppn q(4) "is"(3) by (intro page_word_set_other) auto
    moreover have "node ram root is = None" using q(1) empty by (simp add: True node_snoc)
    ultimately show ?thesis using zero [OF "is"(3)] at by (simp add: walk_def)
  next
    case False
    have "\<not> (\<exists>js. is = is0 @ [k] @ js) \<or> (\<exists>j js. is = is0 @ [k] @ j # js)"
      using False by (metis append_Nil2 neq_Nil_conv)
    then show ?thesis
    proof
      assume "\<not> (\<exists>js. is = is0 @ [k] @ js)"
      then show ?thesis using "is" q by (intro walk_write_other [OF tree q(1) q2(1) q(3,4) q2(2)]) auto
    next
      assume "\<exists>j js. is = is0 @ [k] @ j # js"
      then obtain j js where js: "is = (is0 @ [k]) @ j # js" by auto
      have "node ?ram root is = node ram root is"
        using node_link(1) [OF tree q empty f zero, of "is"] "is" False by auto
      moreover have "node ram root is = None"
        unfolding js node_append using q(1) empty by (simp add: node_snoc)
      ultimately show ?thesis by (simp add: walk_def)
    qed
  qed
qed

section \<open>Operations on a table\<close>

text \<open>
  A usable table: its nodes form a tree, and they are among the frames in use.
\<close>

definition pt_ok :: "kernel_mem \<Rightarrow> PageTable \<Rightarrow> PhysPageNum set \<Rightarrow> bool" where
  "pt_ok km pt used \<longleftrightarrow> frames_inv km used \<and> tree_ok (km_ram km) (pt_root_ppn pt)
     \<and> table_nodes (km_ram km) (pt_root_ppn pt) \<subseteq> used"

text \<open>
  The table grew by the new nodes \<^term>\<open>fs\<close>: no translation changed and no memory outside the nodes.
\<close>

definition table_ext :: "PhysPageNum set \<Rightarrow> kernel_mem \<Rightarrow> PageTable \<Rightarrow> PhysPageNum list \<Rightarrow> kernel_mem \<Rightarrow> PageTable \<Rightarrow> bool" where
  "table_ext used km pt fs km' pt' \<longleftrightarrow>
     pt' = pt\<lparr>pt_frames := pt_frames pt @ map (\<lambda>f. \<lparr>ft_ppn = f, ft_num = 1\<rparr>) fs\<rparr>
   \<and> pt_ok km' pt' (used \<union> set fs) \<and> set fs \<subseteq> free_ppns km \<and> free_ppns km' = free_ppns km - set fs
   \<and> table_nodes (km_ram km') (pt_root_ppn pt) = table_nodes (km_ram km) (pt_root_ppn pt) \<union> set fs
   \<and> (\<forall>is i. length is = 2 \<longrightarrow> idx_ok is \<longrightarrow> i < 512 \<longrightarrow>
        walk (km_ram km') (pt_root_ppn pt) is i = walk (km_ram km) (pt_root_ppn pt) is i)
   \<and> (\<forall>q off. ppn_ok q \<longrightarrow> q \<notin> table_nodes (km_ram km') (pt_root_ppn pt) \<longrightarrow> off < 4096 \<longrightarrow>
        km_ram km' (page_addr q + off) = km_ram km (page_addr q + off))
   \<and> km_syms km' = km_syms km \<and> km_satp km' = km_satp km \<and> km_arcs km' = km_arcs km"

lemma table_ext_refl: "pt_ok km pt used \<Longrightarrow> table_ext used km pt [] km pt"
  by (simp add: table_ext_def)

lemma table_ext_trans:
  assumes "table_ext used km pt fs km1 pt1" "table_ext (used \<union> set fs) km1 pt1 gs km2 pt2"
  shows "table_ext used km pt (fs @ gs) km2 pt2"
  using assms unfolding table_ext_def by (auto simp: Un_assoc)

lemma free_phys:
  assumes "frames_inv km used" "ppn \<in> free_ppns km"
  shows "phys_ok ppn"
proof -
  from assms obtain f where f: "ppn = PhysPageNum (word_of_nat (f + begin_nat (km_syms km)))"
    "f < nframes (km_syms km)" and syms: "syms_ok (km_syms km)"
    using buddy_free_bound by (auto simp: frames_inv_def free_ppns_def)
  show ?thesis
    unfolding phys_ok_def f PhysPageNum.sel word_less_nat_alt ppn_of_frame(1) [OF syms f(2)]
    using f(2) begin_bounds [OF syms] by (simp add: nframes_def)
qed

lemma set_page_word_bytes:
  assumes "off < 4096" "i < 512" "ppn_ok p" "ppn_ok q" "p \<noteq> q"
  shows "set_page_word ram p i w (page_addr q + off) = ram (page_addr q + off)"
proof -
  let ?j = "off div 8" and ?k = "unat (off mod 8)"
  have "unat ?j < 512" using assms(1) by (simp add: unat_div word_less_nat_alt less_mult_imp_div_less)
  moreover have "?k < 8" by (simp add: unat_mod)
  moreover have "page_addr q + off = page_addr q + 8 * ?j + word_of_nat ?k"
    using word_mod_div_equality [of off 8] by (simp add: algebra_simps)
  ultimately show ?thesis
    using assms set_page_word_other [of "page_addr q + off" q ?j ?k i p ram w]
    by (simp add: word_less_nat_alt)
qed

text \<open>One step of the walk that creates missing nodes.\<close>

lemma create_step:
  assumes ok: "pt_ok km pt used" and q: "node (km_ram km) (pt_root_ppn pt) is0 = Some q" "length is0 < 2" "idx_ok is0"
    and k: "k < 512" and free: "child (km_ram km) q k \<noteq> None \<or> free_ppns km \<noteq> {}"
  obtains fs km1 pt1 c where
    "\<And>ks. find_pte_create_loop km pt q (length is0) (k # ks) = find_pte_create_loop km1 pt1 c (length is0 + 1) ks"
    and "table_ext used km pt fs km1 pt1" "node (km_ram km1) (pt_root_ppn pt) (is0 @ [k]) = Some c"
    and "length fs \<le> 1" "child (km_ram km) q k \<noteq> None \<Longrightarrow> fs = [] \<and> km1 = km"
proof (cases "child (km_ram km) q k")
  case (Some c)
  have q2: "length is0 \<le> 2" using q(2) by simp
  have tree: "tree_ok (km_ram km) (pt_root_ppn pt)" using ok by (simp add: pt_ok_def)
  have pr: "page_ref q = Some ()"
    using tree_ok_ppn [OF tree node_mem [OF q(1) q2 q(3)]] phys_ok_page_ref by blast
  have "PageTableEntry_is_valid (read_pte km q k)" "PageTableEntry_ppn (read_pte km q k) = c"
    using Some by (auto simp: child_def read_pte_def Let_def split: if_splits)
  then show ?thesis
    using that [of km pt c "[]"] table_ext_refl [OF ok] q Some pr by (simp add: node_snoc)
next
  case None
  with free have fr: "free_ppns km \<noteq> {}" by simp
  have q1: "length is0 \<le> 1" "length is0 \<le> 2" using q(2) by simp_all
  have tree: "tree_ok (km_ram km) (pt_root_ppn pt)" and inv: "frames_inv km used"
    and sub: "table_nodes (km_ram km) (pt_root_ppn pt) \<subseteq> used"
    using ok by (simp_all add: pt_ok_def)
  obtain f fa where al: "frame_alloc km 1 = Some (Some \<lparr>ft_ppn = f, ft_num = 1\<rparr>,
      km\<lparr>km_frames := fa, km_ram := ram_fill (km_ram km) (page_addr f) 4096 0\<rparr>)"
    and f: "f \<in> free_ppns km" "f \<notin> used" "ppn_ok f"
    and inv1: "frames_inv (km\<lparr>km_frames := fa\<rparr>) (insert f used)"
    and free1: "free_ppns (km\<lparr>km_frames := fa\<rparr>) = free_ppns km - {f}"
    by (rule frame_alloc_1 [OF inv fr])
  have phys: "phys_ok f" using free_phys [OF inv f(1)] .
  have fn: "f \<notin> table_nodes (km_ram km) (pt_root_ppn pt)" using f(2) sub by blast
  let ?filled = "ram_fill (km_ram km) (page_addr f) 4096 0"
  let ?ram = "set_page_word ?filled q k (pte_bits (PageTableEntry_new f PTE_V))"
  have same0: "node ?filled (pt_root_ppn pt) is = node (km_ram km) (pt_root_ppn pt) is"
    if "length is \<le> 3" "idx_ok is" for "is" using node_fill [OF tree fn f(3) that] .
  have tree0': "tree_ok ?filled (pt_root_ppn pt)" "table_nodes ?filled (pt_root_ppn pt) = table_nodes (km_ram km) (pt_root_ppn pt)"
    using tree_ok_cong [OF tree, of ?filled] same0 by auto
  have q0: "node ?filled (pt_root_ppn pt) is0 = Some q" using same0 [of is0] q by simp
  have qn: "q \<in> table_nodes (km_ram km) (pt_root_ppn pt)" using node_mem [OF q(1) q1(2) q(3)] .
  have okq: "ppn_ok q" "page_ref q = Some ()" using tree_ok_ppn [OF tree qn] phys_ok_page_ref by auto
  have "f \<noteq> q" using fn qn by auto
  then have empty: "child ?filled q k = None"
    using None page_word_fill_other [OF k f(3) okq(1), of "km_ram km" 0] by (simp add: child_def)
  have zero: "page_word ?filled f i = 0" if "i < 512" for i using page_word_fill_same [OF that f(3)] .
  have fn0: "f \<notin> table_nodes ?filled (pt_root_ppn pt)" using fn tree0'(2) by simp
  note link = node_link [OF tree0'(1) q0 q1(1) q(3) k empty fn0 phys zero]
  let ?km = "km\<lparr>km_frames := fa, km_ram := ?ram\<rparr>"
  let ?pt = "pt\<lparr>pt_frames := pt_frames pt @ [\<lparr>ft_ppn = f, ft_num = 1\<rparr>]\<rparr>"
  have "walk ?ram (pt_root_ppn pt) is i = walk (km_ram km) (pt_root_ppn pt) is i"
    if "length is = 2" "idx_ok is" "i < 512" for "is" i
    using walk_link [OF tree0'(1) q0 q1(1) q(3) k empty fn0 phys zero that]
      walk_fill [OF tree fn f(3), of "is" i] that by simp
  moreover have "?ram (page_addr p + off) = km_ram km (page_addr p + off)"
    if "ppn_ok p" "p \<notin> table_nodes ?ram (pt_root_ppn pt)" "off < 4096" for p off
  proof -
    have "p \<noteq> q" "p \<noteq> f" using that(2) link(4) tree0'(2) qn by auto
    then show ?thesis
      using set_page_word_bytes [OF that(3) k okq(1) that(1)] ram_fill_page [OF that(3) f(3) that(1)] by simp
  qed
  moreover have "frames_inv ?km (insert f used)" "free_ppns ?km = free_ppns km - {f}"
    using inv1 free1 by (simp_all add: frames_inv_def free_ppns_def)
  ultimately have ext: "table_ext used km pt [f] ?km ?pt"
    using link(3,4) tree0'(2) sub f(1) by (auto simp: table_ext_def pt_ok_def)
  have "\<not> PageTableEntry_is_valid (read_pte km q k)"
    using None by (auto simp: child_def read_pte_def Let_def split: if_splits)
  then have "find_pte_create_loop km pt q (length is0) (k # ks) = find_pte_create_loop ?km ?pt f (length is0 + 1) ks" for ks
    using al q(2) okq(2) f(3) by (simp add: write_pte_def read_pte_def Let_def)
  then show ?thesis
    using that [of ?km ?pt f "[f]"] ext link(2) None by simp
qed

lemma vpn_indexes:
  obtains i j k where "VirtPageNum_indexes vpn = [i, j, k]" "i < 512" "j < 512" "k < 512"
proof -
  obtain n where "vpn = VirtPageNum n" by (cases vpn)
  then have "VirtPageNum_indexes vpn = [drop_bit 18 n AND 511, drop_bit 9 n AND 511, n AND 511]"
    by (simp only: VirtPageNum_indexes_eq)
  moreover have "\<forall>i \<in> set (VirtPageNum_indexes vpn). i < 512"
    using index_less [of _ vpn] unfolding PTE_PER_PAGE_eq by blast
  ultimately show ?thesis using that by simp
qed

lemma find_pte_walk:
  assumes ok: "pt_ok km pt used" and v: "VirtPageNum_indexes vpn = [i, j, k]" "i < 512" "j < 512" "k < 512"
  shows "PageTable_find_pte km pt vpn = Some (walk (km_ram km) (pt_root_ppn pt) [i, j] k)"
proof -
  let ?ram = "km_ram km" and ?root = "pt_root_ppn pt"
  have tree: "tree_ok ?ram ?root" using ok by (simp add: pt_ok_def)
  have ref: "page_ref p = Some ()" if "node ?ram ?root is = Some p" "length is \<le> 2" "idx_ok is" for p "is"
    using tree_ok_ppn [OF tree node_mem [OF that]] phys_ok_page_ref by blast
  have root: "page_ref ?root = Some ()" using ref [of "[]"] by simp
  show ?thesis
  proof (cases "child ?ram ?root i")
    case None
    then show ?thesis
      using root by (auto simp: PageTable_find_pte_def v walk_def child_def read_pte_def Let_def split: if_splits)
  next
    case (Some p)
    then have p: "page_ref p = Some ()" using ref [of "[i]"] v by simp
    show ?thesis
    proof (cases "child ?ram p j")
      case None
      with Some root p show ?thesis
        by (auto simp: PageTable_find_pte_def v walk_def child_def read_pte_def Let_def split: if_splits)
    next
      case (Some q)
      with \<open>child ?ram ?root i = Some p\<close> have "page_ref q = Some ()" using ref [of "[i, j]"] v by simp
      with Some \<open>child ?ram ?root i = Some p\<close> root p show ?thesis
        by (auto simp: PageTable_find_pte_def v walk_def child_def read_pte_def Let_def split: if_splits)
    qed
  qed
qed

lemma finite_free_ppns: "frames_inv km used \<Longrightarrow> finite (free_ppns km)"
proof -
  assume inv: "frames_inv km used"
  then have "buddy_free (km_frames km) \<subseteq> {..<nframes (km_syms km)}"
    using buddy_free_bound by (auto simp: frames_inv_def)
  then show ?thesis unfolding free_ppns_def using finite_subset by blast
qed

lemma find_pte_create_spec:
  assumes ok: "pt_ok km pt used" and v: "VirtPageNum_indexes vpn = [i, j, k]" "i < 512" "j < 512" "k < 512"
    and free: "node (km_ram km) (pt_root_ppn pt) [i, j] \<noteq> None \<or> 2 \<le> card (free_ppns km)"
  obtains fs km1 pt1 q where "PageTable_find_pte_create km pt vpn = Some (Some (q, k), pt1, km1)"
    and "table_ext used km pt fs km1 pt1" "node (km_ram km1) (pt_root_ppn pt) [i, j] = Some q"
    and "length fs \<le> 2" "node (km_ram km) (pt_root_ppn pt) [i, j] \<noteq> None \<Longrightarrow> fs = [] \<and> km1 = km"
proof -
  let ?root = "pt_root_ppn pt"
  have inv: "frames_inv km used" using ok by (simp add: pt_ok_def)
  have fin: "finite (free_ppns km)" using finite_free_ppns [OF inv] .
  have f1: "child (km_ram km) ?root i \<noteq> None \<or> free_ppns km \<noteq> {}"
    using free by (auto split: option.splits)
  have root: "node (km_ram km) ?root [] = Some ?root" by simp
  note step1 = create_step [OF ok root _ _ v(2) f1, simplified]
  obtain fs1 km1 pt1 c where
    s1: "\<And>ks. find_pte_create_loop km pt ?root 0 (i # ks) = find_pte_create_loop km1 pt1 c 1 ks"
    and e1: "table_ext used km pt fs1 km1 pt1" and n1: "node (km_ram km1) ?root [i] = Some c"
    and l1: "length fs1 \<le> 1" "child (km_ram km) ?root i \<noteq> None \<Longrightarrow> fs1 = [] \<and> km1 = km"
    by (rule step1) simp
  have root1: "pt_root_ppn pt1 = ?root" and ok1: "pt_ok km1 pt1 (used \<union> set fs1)"
    and free1: "free_ppns km1 = free_ppns km - set fs1"
    using e1 by (auto simp: table_ext_def)
  have f2: "child (km_ram km1) c j \<noteq> None \<or> free_ppns km1 \<noteq> {}"
  proof (cases "node (km_ram km) ?root [i, j]")
    case None
    with free have "2 \<le> card (free_ppns km)" by simp
    moreover have "card (set fs1) \<le> 1" using l1(1) card_length le_trans by blast
    ultimately have "\<not> free_ppns km \<subseteq> set fs1"
      using card_mono [OF finite_set, of "free_ppns km" fs1] by auto
    then have "free_ppns km1 \<noteq> {}" using free1 by blast
    then show ?thesis ..
  next
    case (Some q)
    then have "child (km_ram km) ?root i \<noteq> None" by (auto split: option.splits)
    with l1(2) have "km1 = km" by simp
    with Some n1 show ?thesis by (auto split: option.splits)
  qed
  have n1': "node (km_ram km1) (pt_root_ppn pt1) [i] = Some c" using n1 root1 by simp
  have i1: "length [i] < 2" "idx_ok [i]" using v by simp_all
  have loop2: "find_pte_create_loop km1 pt1 c (length [i]) (j # ks) = find_pte_create_loop km1 pt1 c 1 (j # ks)" for ks
    by (simp del: find_pte_create_loop.simps)
  note step2 = create_step [OF ok1 n1' i1 v(3) f2, unfolded loop2]
  obtain fs2 km2 pt2 q where
    s2: "\<And>ks. find_pte_create_loop km1 pt1 c 1 (j # ks) = find_pte_create_loop km2 pt2 q 2 ks"
    and e2: "table_ext (used \<union> set fs1) km1 pt1 fs2 km2 pt2"
    and n2: "node (km_ram km2) ?root [i, j] = Some q" and l2: "length fs2 \<le> 1"
      "child (km_ram km1) c j \<noteq> None \<Longrightarrow> fs2 = [] \<and> km2 = km1"
    by (rule step2) (simp add: root1 numeral_2_eq_2 del: find_pte_create_loop.simps node.simps)
  note ext = table_ext_trans [OF e1 e2]
  have "tree_ok (km_ram km2) ?root" using ext by (auto simp: table_ext_def pt_ok_def)
  from tree_ok_ppn [OF this node_mem [OF n2]] have "page_ref q = Some ()"
    using v phys_ok_page_ref by auto
  then have "PageTable_find_pte_create km pt vpn = Some (Some (q, k), pt2, km2)"
    using s1 [of "[j, k]"] s2 [of "[k]"] by (simp add: PageTable_find_pte_create_def v)
  moreover have "fs1 @ fs2 = [] \<and> km2 = km" if "node (km_ram km) ?root [i, j] \<noteq> None"
  proof -
    have "child (km_ram km) ?root i \<noteq> None" using that by (auto split: option.splits)
    with l1(2) have "fs1 = []" "km1 = km" by simp_all
    moreover from this that n1 have "child (km_ram km1) c j \<noteq> None" by (auto split: option.splits)
    ultimately show ?thesis using l2(2) by simp
  qed
  ultimately show ?thesis using that [of q pt2 km2 "fs1 @ fs2"] ext n2 l1(1) l2(1) by auto
qed

text \<open>Storing an entry of the last level changes one translation and no node.\<close>

lemma leaf_write:
  fixes pte :: PageTableEntry
  assumes ok: "pt_ok km pt used" and q: "node (km_ram km) (pt_root_ppn pt) [i, j] = Some q"
    and ijk: "i < 512" "j < 512" "k < 512"
  defines "km' \<equiv> write_pte km q k pte"
  shows "pt_ok km' pt used" "table_nodes (km_ram km') (pt_root_ppn pt) = table_nodes (km_ram km) (pt_root_ppn pt)"
    and "walk (km_ram km') (pt_root_ppn pt) [i, j] k = (if PageTableEntry_is_valid pte then Some pte else None)"
    and "\<And>i' j' k'. i' < 512 \<Longrightarrow> j' < 512 \<Longrightarrow> k' < 512 \<Longrightarrow> [i', j', k'] \<noteq> [i, j, k] \<Longrightarrow>
        walk (km_ram km') (pt_root_ppn pt) [i', j'] k' = walk (km_ram km) (pt_root_ppn pt) [i', j'] k'"
    and "\<And>p off. ppn_ok p \<Longrightarrow> p \<notin> table_nodes (km_ram km) (pt_root_ppn pt) \<Longrightarrow> off < 4096 \<Longrightarrow>
        km_ram km' (page_addr p + off) = km_ram km (page_addr p + off)"
    and "free_ppns km' = free_ppns km"
proof -
  let ?root = "pt_root_ppn pt"
  have tree: "tree_ok (km_ram km) ?root" using ok by (simp add: pt_ok_def)
  have ij: "length [i, j] \<le> 2" "idx_ok [i, j]" using ijk by simp_all
  have ram: "km_ram km' = set_page_word (km_ram km) q k (pte_bits pte)" by (simp add: km'_def write_pte_def)
  have same: "node (km_ram km') ?root is = node (km_ram km) ?root is" if "length is \<le> 2" "idx_ok is" for "is"
    unfolding ram using that by (intro node_write_other [OF tree q ij ijk(3)]) auto
  note tree' = tree_ok_cong [OF tree same]
  have fr: "free_ppns km' = free_ppns km" "frames_inv km' used = frames_inv km used"
    by (simp_all add: km'_def write_pte_def free_ppns_def frames_inv_def)
  show "free_ppns km' = free_ppns km" by (fact fr)
  show nodes: "table_nodes (km_ram km') ?root = table_nodes (km_ram km) ?root" using tree'(2) .
  show "pt_ok km' pt used" using ok tree'(1) nodes fr by (simp add: pt_ok_def)
  show "walk (km_ram km') ?root [i, j] k = (if PageTableEntry_is_valid pte then Some pte else None)"
    unfolding ram using walk_write_at [OF tree q ij ijk(3), of "pte_bits pte"] by simp
  show "walk (km_ram km') ?root [i', j'] k' = walk (km_ram km) ?root [i', j'] k'"
    if "i' < 512" "j' < 512" "k' < 512" "[i', j', k'] \<noteq> [i, j, k]" for i' j' k'
    unfolding ram using that by (intro walk_write_other [OF tree q ij ijk(3)]) auto
  show "km_ram km' (page_addr p + off) = km_ram km (page_addr p + off)"
    if "ppn_ok p" "p \<notin> table_nodes (km_ram km) ?root" "off < 4096" for p off
    unfolding ram using that tree_ok_ppn [OF tree node_mem [OF q ij]] node_mem [OF q ij] ijk(3)
    by (intro set_page_word_bytes) auto
qed

section \<open>A table implements a partial map\<close>

text \<open>
  What a table promises: a map from virtual pages to frames and flags. Pages are told apart by
  the 27 bits that the three levels index.
\<close>

definition vpn_key :: "VirtPageNum \<Rightarrow> usize" where
  "vpn_key vpn = take_bit 27 (vpn_val vpn)"

definition translation :: "kernel_mem \<Rightarrow> PageTable \<Rightarrow> usize \<Rightarrow> (PhysPageNum \<times> PTEFlags) option" where
  "translation km pt key = (if vpn_key (VirtPageNum key) \<noteq> key then None else
     case PageTable_find_pte km pt (VirtPageNum key) of
       Some (Some pte) \<Rightarrow> Some (PageTableEntry_ppn pte, PageTableEntry_flags pte)
     | _ \<Rightarrow> None)"

lemma indexes_key: "VirtPageNum_indexes v = VirtPageNum_indexes w \<longleftrightarrow> vpn_key v = vpn_key w"
proof -
  obtain m n where v: "v = VirtPageNum m" and w: "w = VirtPageNum n" by (cases v, cases w)
  have 511: "(511::usize) = mask 9" by (simp add: mask_eq_exp_minus_1)
  have "VirtPageNum_indexes v = VirtPageNum_indexes w \<longleftrightarrow>
      drop_bit 18 m AND 511 = drop_bit 18 n AND 511 \<and> drop_bit 9 m AND 511 = drop_bit 9 n AND 511 \<and> m AND 511 = n AND 511"
    unfolding v w VirtPageNum_indexes_eq by simp
  also have "\<dots> \<longleftrightarrow> (\<forall>b < 27. bit m b = bit n b)" (is "?l \<longleftrightarrow> ?r")
  proof
    assume l: ?l
    show ?r
    proof (intro allI impI)
      fix b :: nat assume b: "b < 27"
      consider "b < 9" | "9 \<le> b" "b < 18" | "18 \<le> b" by linarith
      then show "bit m b = bit n b"
      proof cases
        case 1
        have "bit (m AND 511) b = bit (n AND 511) b" using l by simp
        with 1 show ?thesis unfolding 511 by (simp add: bit_simps)
      next
        case 2
        have "bit (drop_bit 9 m AND 511) (b - 9) = bit (drop_bit 9 n AND 511) (b - 9)" using l by simp
        moreover have "b - 9 < 9" "b - 9 < 64" using 2 by simp_all
        ultimately show ?thesis unfolding 511 using 2 by (simp add: bit_simps)
      next
        case 3
        have "bit (drop_bit 18 m AND 511) (b - 18) = bit (drop_bit 18 n AND 511) (b - 18)" using l by simp
        moreover have "b - 18 < 9" "b - 18 < 64" using 3 b by simp_all
        ultimately show ?thesis unfolding 511 using 3 by (simp add: bit_simps)
      qed
    qed
  next
    assume ?r
    then show ?l unfolding 511 by (intro conjI bit_eqI) (auto simp: bit_simps)
  qed
  also have "\<dots> \<longleftrightarrow> take_bit 27 m = take_bit 27 n"
  proof
    assume l: "\<forall>b < 27. bit m b = bit n b"
    show "take_bit 27 m = take_bit 27 n" by (rule bit_eqI) (use l in \<open>auto simp: bit_simps\<close>)
  next
    assume eq: "take_bit 27 m = take_bit 27 n"
    show "\<forall>b < 27. bit m b = bit n b"
    proof (intro allI impI)
      fix b :: nat assume "b < 27"
      moreover have "bit (take_bit 27 m) b = bit (take_bit 27 n) b" using eq by simp
      ultimately show "bit m b = bit n b" by (simp add: bit_take_bit_iff)
    qed
  qed
  finally show ?thesis by (simp add: vpn_key_def v w)
qed

lemma vpn_key_idem [simp]: "vpn_key (VirtPageNum (vpn_key vpn)) = vpn_key vpn"
  by (simp add: vpn_key_def)

lemma find_pte_key: "PageTable_find_pte km pt (VirtPageNum (vpn_key vpn)) = PageTable_find_pte km pt vpn"
proof -
  have "VirtPageNum_indexes (VirtPageNum (vpn_key vpn)) = VirtPageNum_indexes vpn"
    unfolding indexes_key by simp
  then show ?thesis by (simp add: PageTable_find_pte_def)
qed

text \<open>
  A change of the entry of one page, seen through \<^const>\<open>PageTable_find_pte\<close>.
\<close>

lemma find_pte_update:
  assumes ok: "pt_ok km pt used" "pt_ok km' pt' used'" and root: "pt_root_ppn pt' = pt_root_ppn pt"
    and v: "VirtPageNum_indexes vpn = [i, j, k]" "i < 512" "j < 512" "k < 512"
    and at: "walk (km_ram km') (pt_root_ppn pt) [i, j] k = r"
    and other: "\<And>i' j' k'. i' < 512 \<Longrightarrow> j' < 512 \<Longrightarrow> k' < 512 \<Longrightarrow> [i', j', k'] \<noteq> [i, j, k] \<Longrightarrow>
        walk (km_ram km') (pt_root_ppn pt) [i', j'] k' = walk (km_ram km) (pt_root_ppn pt) [i', j'] k'"
  shows "PageTable_find_pte km' pt' w = (if vpn_key w = vpn_key vpn then Some r else PageTable_find_pte km pt w)"
proof -
  obtain i' j' k' where w: "VirtPageNum_indexes w = [i', j', k']" "i' < 512" "j' < 512" "k' < 512"
    by (rule vpn_indexes)
  have "vpn_key w = vpn_key vpn \<longleftrightarrow> [i', j', k'] = [i, j, k]"
    unfolding indexes_key [symmetric] w v ..
  then show ?thesis
    using at other [OF w(2-4)] by (auto simp: find_pte_walk [OF ok(2) w] find_pte_walk [OF ok(1) w] root)
qed

lemma translation_key:
  "translation km pt (vpn_key vpn) = (case PageTable_find_pte km pt vpn of
     Some (Some pte) \<Rightarrow> Some (PageTableEntry_ppn pte, PageTableEntry_flags pte) | _ \<Rightarrow> None)"
  by (simp add: translation_def find_pte_key)

lemma translation_update:
  assumes "\<And>w. PageTable_find_pte km' pt' w = (if vpn_key w = vpn_key vpn then Some r else PageTable_find_pte km pt w)"
  shows "translation km' pt' = (translation km pt)
    (vpn_key vpn := map_option (\<lambda>pte. (PageTableEntry_ppn pte, PageTableEntry_flags pte)) r)"
proof
  fix key
  show "translation km' pt' key = ((translation km pt)
    (vpn_key vpn := map_option (\<lambda>pte. (PageTableEntry_ppn pte, PageTableEntry_flags pte)) r)) key"
  proof (cases "key = vpn_key vpn")
    case True
    then show ?thesis by (simp add: translation_key assms split: option.split)
  next
    case False
    then show ?thesis by (simp add: translation_def assms)
  qed
qed

lemma find_pte_total:
  assumes "pt_ok km pt used"
  obtains r where "PageTable_find_pte km pt vpn = Some r"
proof -
  obtain i j k where v: "VirtPageNum_indexes vpn = [i, j, k]" "i < 512" "j < 512" "k < 512"
    by (rule vpn_indexes)
  show ?thesis using that find_pte_walk [OF assms v] by blast
qed

lemma translation_None:
  assumes "pt_ok km pt used"
  shows "translation km pt (vpn_key vpn) = None \<longleftrightarrow> PageTable_find_pte km pt vpn = Some None"
  using find_pte_total [OF assms, of vpn] by (auto simp: translation_key split: option.splits)

lemma PageTable_map_spec:
  assumes ok: "pt_ok km pt used" and unmapped: "PageTable_find_pte km pt vpn = Some None"
    and free: "2 \<le> card (free_ppns km)"
  obtains pt' km' fs where "PageTable_map km pt vpn ppn flags = Some (pt', km')"
    and "pt' = pt\<lparr>pt_frames := pt_frames pt @ map (\<lambda>f. \<lparr>ft_ppn = f, ft_num = 1\<rparr>) fs\<rparr>"
    and "pt_ok km' pt' (used \<union> set fs)" "set fs \<subseteq> free_ppns km" "length fs \<le> 2"
    and "free_ppns km' = free_ppns km - set fs"
    and "\<And>w. PageTable_find_pte km' pt' w = (if vpn_key w = vpn_key vpn
        then Some (Some (PageTableEntry_new ppn (flags OR PTE_V))) else PageTable_find_pte km pt w)"
    and "\<And>p off. ppn_ok p \<Longrightarrow> p \<notin> table_nodes (km_ram km) (pt_root_ppn pt) \<union> set fs \<Longrightarrow> off < 4096 \<Longrightarrow>
        km_ram km' (page_addr p + off) = km_ram km (page_addr p + off)"
    and "km_syms km' = km_syms km" "km_satp km' = km_satp km" "km_arcs km' = km_arcs km"
    and "table_nodes (km_ram km') (pt_root_ppn pt) = table_nodes (km_ram km) (pt_root_ppn pt) \<union> set fs"
proof -
  let ?root = "pt_root_ppn pt" and ?pte = "PageTableEntry_new ppn (flags OR PTE_V)"
  obtain i j k where v: "VirtPageNum_indexes vpn = [i, j, k]" "i < 512" "j < 512" "k < 512"
    by (rule vpn_indexes)
  obtain fs km1 pt1 q where c: "PageTable_find_pte_create km pt vpn = Some (Some (q, k), pt1, km1)"
    and e: "table_ext used km pt fs km1 pt1" and n: "node (km_ram km1) ?root [i, j] = Some q" and l: "length fs \<le> 2"
    using find_pte_create_spec [OF ok v disjI2 [OF free]] by metis
  have root1: "pt_root_ppn pt1 = ?root" and ok1: "pt_ok km1 pt1 (used \<union> set fs)"
    and pt1: "pt1 = pt\<lparr>pt_frames := pt_frames pt @ map (\<lambda>f. \<lparr>ft_ppn = f, ft_num = 1\<rparr>) fs\<rparr>"
    using e by (auto simp: table_ext_def)
  have walk1: "walk (km_ram km1) ?root [i', j'] k' = walk (km_ram km) ?root [i', j'] k'"
    if "i' < 512" "j' < 512" "k' < 512" for i' j' k'
    using e that by (simp add: table_ext_def)
  have n1: "node (km_ram km1) (pt_root_ppn pt1) [i, j] = Some q" using n root1 by simp
  note w = leaf_write [OF ok1 n1 v(2-4), where pte = ?pte, unfolded root1]
  have "walk (km_ram km1) ?root [i, j] k = None"
    using unmapped walk1 v by (simp add: find_pte_walk [OF ok v])
  then have "\<not> PageTableEntry_is_valid (read_pte km1 q k)"
    using n by (auto simp: walk_def read_pte_def Let_def split: if_splits)
  then have "PageTable_map km pt vpn ppn flags = Some (pt1, write_pte km1 q k ?pte)"
    by (simp add: PageTable_map_def c)
  moreover have "PageTable_find_pte (write_pte km1 q k ?pte) pt1 x =
      (if vpn_key x = vpn_key vpn then Some (Some ?pte) else PageTable_find_pte km pt x)" for x
    using w(3,4) walk1 by (intro find_pte_update [OF ok w(1) root1 v]) auto
  ultimately show ?thesis
    using that [of pt1 "write_pte km1 q k ?pte" fs] w(1,2,5,6) e l
    by (auto simp: table_ext_def write_pte_def)
qed

lemma PageTable_unmap_spec:
  assumes ok: "pt_ok km pt used" and mapped: "PageTable_find_pte km pt vpn = Some (Some pte)"
  obtains km' where "PageTable_unmap km pt vpn = Some (pt, km')" "pt_ok km' pt used"
    and "free_ppns km' = free_ppns km"
    and "\<And>w. PageTable_find_pte km' pt w = (if vpn_key w = vpn_key vpn then Some None else PageTable_find_pte km pt w)"
    and "\<And>p off. ppn_ok p \<Longrightarrow> p \<notin> table_nodes (km_ram km) (pt_root_ppn pt) \<Longrightarrow> off < 4096 \<Longrightarrow>
        km_ram km' (page_addr p + off) = km_ram km (page_addr p + off)"
    and "km_syms km' = km_syms km" "km_satp km' = km_satp km" "km_arcs km' = km_arcs km"
    and "table_nodes (km_ram km') (pt_root_ppn pt) = table_nodes (km_ram km) (pt_root_ppn pt)"
proof -
  let ?root = "pt_root_ppn pt"
  obtain i j k where v: "VirtPageNum_indexes vpn = [i, j, k]" "i < 512" "j < 512" "k < 512"
    by (rule vpn_indexes)
  have walk: "walk (km_ram km) ?root [i, j] k = Some pte"
    using mapped by (simp add: find_pte_walk [OF ok v])
  then have node: "node (km_ram km) ?root [i, j] \<noteq> None" by (auto simp: walk_def split: option.splits)
  then obtain pt1 q where c: "PageTable_find_pte_create km pt vpn = Some (Some (q, k), pt1, km)"
    and e: "table_ext used km pt [] km pt1" and n: "node (km_ram km) ?root [i, j] = Some q"
    using find_pte_create_spec [OF ok v disjI1 [OF node]] by metis
  have pt1: "pt1 = pt" using e by (simp add: table_ext_def)
  note w = leaf_write [OF ok n v(2-4), where pte = PageTableEntry_empty]
  have "PageTableEntry_is_valid (read_pte km q k)"
    using walk n by (auto simp: walk_def read_pte_def Let_def split: if_splits)
  then have "PageTable_unmap km pt vpn = Some (pt, write_pte km q k PageTableEntry_empty)"
    by (simp add: PageTable_unmap_def c pt1)
  moreover have "PageTable_find_pte (write_pte km q k PageTableEntry_empty) pt x =
      (if vpn_key x = vpn_key vpn then Some None else PageTable_find_pte km pt x)" for x
    using w(3,4) by (intro find_pte_update [OF ok w(1) refl v]) auto
  ultimately show ?thesis
    using that [of "write_pte km q k PageTableEntry_empty"] w(1,2,5,6) by (auto simp: write_pte_def)
qed

text \<open>A new table is one zeroed node: it translates nothing.\<close>

lemma PageTable_with_root_spec:
  assumes inv: "frames_inv km used" and free: "free_ppns km \<noteq> {}"
  obtains f km' where "PageTable_with_root km = Some (\<lparr>pt_root_ppn = f, pt_frames = [\<lparr>ft_ppn = f, ft_num = 1\<rparr>]\<rparr>, km')"
    and "f \<in> free_ppns km" "free_ppns km' = free_ppns km - {f}"
    and "pt_ok km' \<lparr>pt_root_ppn = f, pt_frames = [\<lparr>ft_ppn = f, ft_num = 1\<rparr>]\<rparr> (insert f used)"
    and "translation km' \<lparr>pt_root_ppn = f, pt_frames = [\<lparr>ft_ppn = f, ft_num = 1\<rparr>]\<rparr> = Map.empty"
    and "table_nodes (km_ram km') f = {f}"
    and "\<And>p off. ppn_ok p \<Longrightarrow> p \<noteq> f \<Longrightarrow> off < 4096 \<Longrightarrow> km_ram km' (page_addr p + off) = km_ram km (page_addr p + off)"
    and "km_syms km' = km_syms km" "km_satp km' = km_satp km" "km_arcs km' = km_arcs km"
proof -
  obtain f fa where al: "frame_alloc km 1 = Some (Some \<lparr>ft_ppn = f, ft_num = 1\<rparr>,
      km\<lparr>km_frames := fa, km_ram := ram_fill (km_ram km) (page_addr f) 4096 0\<rparr>)"
    and f: "f \<in> free_ppns km" "ppn_ok f"
    and inv1: "frames_inv (km\<lparr>km_frames := fa\<rparr>) (insert f used)"
    and free1: "free_ppns (km\<lparr>km_frames := fa\<rparr>) = free_ppns km - {f}"
    using frame_alloc_1 [OF inv free] by metis
  let ?ram = "ram_fill (km_ram km) (page_addr f) 4096 0"
  let ?km = "km\<lparr>km_frames := fa, km_ram := ?ram\<rparr>" and ?pt = "\<lparr>pt_root_ppn = f, pt_frames = [\<lparr>ft_ppn = f, ft_num = 1\<rparr>]\<rparr>"
  have phys: "phys_ok f" using free_phys [OF inv f(1)] .
  have zero: "child ?ram f i = None" if "i < 512" for i
    using page_word_fill_same [of i f] that f(2) by (simp add: child_def)
  have node: "node ?ram f is = Some p \<longleftrightarrow> is = [] \<and> p = f" if "idx_ok is" for "is" p
    using that zero by (cases "is") auto
  have nodes: "table_nodes ?ram f = {f}"
  proof (intro set_eqI iffI)
    fix p assume "p \<in> table_nodes ?ram f"
    then show "p \<in> {f}" using node unfolding table_nodes_def by blast
  qed (auto simp: table_nodes_def intro: exI [of _ "[]"])
  have "tree_ok ?ram f"
    unfolding tree_ok_def nodes
  proof (intro conjI allI impI ballI)
    fix p assume "p \<in> {f}"
    with phys show "phys_ok p" by simp
  next
    fix "is" js p assume "idx_ok is" "idx_ok js" "node ?ram f is = Some p" "node ?ram f js = Some p"
    with node show "is = js" by blast
  qed
  moreover have fr: "free_ppns ?km = free_ppns km - {f}" using free1 by (simp add: free_ppns_def)
  moreover have "frames_inv ?km (insert f used)" using inv1 by (simp add: frames_inv_def free_ppns_def)
  ultimately have ok: "pt_ok ?km ?pt (insert f used)" by (simp add: pt_ok_def nodes)
  have "PageTable_find_pte ?km ?pt v = Some None" for v
  proof -
    obtain i j k where v: "VirtPageNum_indexes v = [i, j, k]" "i < 512" "j < 512" "k < 512"
      by (rule vpn_indexes)
    have "node ?ram f [i, j] = None" using zero [OF v(2)] by simp
    then show ?thesis by (simp add: find_pte_walk [OF ok v] walk_def)
  qed
  then have "translation ?km ?pt = Map.empty" by (auto simp: translation_def)
  moreover have "PageTable_with_root km = Some (?pt, ?km)" by (simp add: PageTable_with_root_def al)
  ultimately show ?thesis using that [of f ?km] f fr ok nodes ram_fill_page [of _ f] by simp
qed

section \<open>Properties\<close>

text \<open>
  Property C3. Mapping refines the update of a partial map. When the page is not mapped and two
  frames are free (for the two lower levels), \<^verbatim>\<open>PageTable::map\<close> returns, the translation of the page
  becomes the given frame with the given flags and the valid bit, every other page keeps its
  translation, the table stays well formed with at most two new nodes taken from the free
  frames, and no byte outside the nodes changes.
\<close>

theorem PageTable_map_refines:
  assumes "pt_ok km pt used" "translation km pt (vpn_key vpn) = None" "ppn_ok ppn" "2 \<le> card (free_ppns km)"
  shows "\<exists>pt' km' fs. PageTable_map km pt vpn ppn flags = Some (pt', km')
    \<and> translation km' pt' = (translation km pt)(vpn_key vpn \<mapsto> (ppn, flags OR PTE_V))
    \<and> pt_ok km' pt' (used \<union> set fs) \<and> set fs \<subseteq> free_ppns km \<and> length fs \<le> 2
    \<and> (\<forall>p off. ppn_ok p \<longrightarrow> p \<notin> table_nodes (km_ram km) (pt_root_ppn pt) \<union> set fs \<longrightarrow> off < 4096 \<longrightarrow>
        km_ram km' (page_addr p + off) = km_ram km (page_addr p + off))"
proof -
  have "PageTable_find_pte km pt vpn = Some None" using assms(2) translation_None [OF assms(1)] by simp
  then obtain pt' km' fs where
    m: "PageTable_map km pt vpn ppn flags = Some (pt', km')" "pt_ok km' pt' (used \<union> set fs)"
      "set fs \<subseteq> free_ppns km" "length fs \<le> 2"
    and f: "\<And>w. PageTable_find_pte km' pt' w = (if vpn_key w = vpn_key vpn
        then Some (Some (PageTableEntry_new ppn (flags OR PTE_V))) else PageTable_find_pte km pt w)"
    and ram: "\<And>p off. ppn_ok p \<Longrightarrow> p \<notin> table_nodes (km_ram km) (pt_root_ppn pt) \<union> set fs \<Longrightarrow> off < 4096 \<Longrightarrow>
        km_ram km' (page_addr p + off) = km_ram km (page_addr p + off)"
    by (rule PageTable_map_spec [OF assms(1) _ assms(4), where ppn = ppn and flags = flags]) blast
  from translation_update [OF f] assms(3)
  have "translation km' pt' = (translation km pt)(vpn_key vpn \<mapsto> (ppn, flags OR PTE_V))" by simp
  with m ram show ?thesis by blast
qed

lemma example_table:
  obtains km pt used where "pt_ok km pt used" "translation km pt = Map.empty" "2 \<le> card (free_ppns km)"
proof -
  from init_frames [OF example_mem_ok] obtain km where km: "frames_inv km {}"
    "free_ppns km = phys_ppns example_mem" by metis
  let ?A = "{PhysPageNum 0x80240, PhysPageNum 0x80241, PhysPageNum 0x80242}"
  have sub: "?A \<subseteq> free_ppns km" unfolding km(2) phys_ppns_def example_begin by simp
  then have "free_ppns km \<noteq> {}" by blast
  from PageTable_with_root_spec [OF km(1) this] obtain f km' where
    r: "free_ppns km' = free_ppns km - {f}"
      "pt_ok km' \<lparr>pt_root_ppn = f, pt_frames = [\<lparr>ft_ppn = f, ft_num = 1\<rparr>]\<rparr> (insert f {})"
      "translation km' \<lparr>pt_root_ppn = f, pt_frames = [\<lparr>ft_ppn = f, ft_num = 1\<rparr>]\<rparr> = Map.empty" by metis
  have "3 \<le> card (free_ppns km)" using card_mono [OF finite_free_ppns [OF km(1)] sub] by simp
  then have "2 \<le> card (free_ppns km')" unfolding r(1) by (auto simp: card_Diff_singleton_if)
  with r(2,3) that show ?thesis by blast
qed

theorem PageTable_map_refines_witness:
  "\<exists>km pt pt' km'. PageTable_map km pt (VirtPageNum 5) (PhysPageNum 0x80300) PTE_R = Some (pt', km')
     \<and> translation km pt 5 = None \<and> translation km' pt' 5 = Some (PhysPageNum 0x80300, PTE_R OR PTE_V)
     \<and> translation km' pt' 6 = None"
proof -
  obtain km pt used where t: "pt_ok km pt used" "translation km pt = Map.empty" "2 \<le> card (free_ppns km)"
    by (rule example_table)
  have key: "vpn_key (VirtPageNum 5) = 5" by (simp add: vpn_key_def)
  have "translation km pt (vpn_key (VirtPageNum 5)) = None" "ppn_ok (PhysPageNum 0x80300)"
    using t(2) by simp_all
  from PageTable_map_refines [OF t(1) this t(3), of PTE_R] obtain pt' km' where
    "PageTable_map km pt (VirtPageNum 5) (PhysPageNum 0x80300) PTE_R = Some (pt', km')"
    "translation km' pt' = (translation km pt)(5 \<mapsto> (PhysPageNum 0x80300, PTE_R OR PTE_V))"
    unfolding key by blast
  then show ?thesis using t(2) by (intro exI [of _ km] exI [of _ pt] exI [of _ pt'] exI [of _ km']) simp
qed

text \<open>
  Property C4. Unmapping refines the removal from a partial map: \<^verbatim>\<open>PageTable::unmap\<close> of a mapped page
  removes its translation and changes no other page's translation, no node and no byte outside the nodes.
\<close>

theorem PageTable_unmap_refines:
  assumes "pt_ok km pt used" "translation km pt (vpn_key vpn) \<noteq> None"
  shows "\<exists>km'. PageTable_unmap km pt vpn = Some (pt, km') \<and> pt_ok km' pt used
    \<and> translation km' pt = (translation km pt)(vpn_key vpn := None) \<and> free_ppns km' = free_ppns km
    \<and> (\<forall>p off. ppn_ok p \<longrightarrow> p \<notin> table_nodes (km_ram km) (pt_root_ppn pt) \<longrightarrow> off < 4096 \<longrightarrow>
        km_ram km' (page_addr p + off) = km_ram km (page_addr p + off))"
proof -
  obtain pte where "PageTable_find_pte km pt vpn = Some (Some pte)"
    using assms(2) by (auto simp: translation_key split: option.splits)
  then obtain km' where
    u: "PageTable_unmap km pt vpn = Some (pt, km')" "pt_ok km' pt used" "free_ppns km' = free_ppns km"
    and f: "\<And>w. PageTable_find_pte km' pt w = (if vpn_key w = vpn_key vpn then Some None else PageTable_find_pte km pt w)"
    and ram: "\<And>p off. ppn_ok p \<Longrightarrow> p \<notin> table_nodes (km_ram km) (pt_root_ppn pt) \<Longrightarrow> off < 4096 \<Longrightarrow>
        km_ram km' (page_addr p + off) = km_ram km (page_addr p + off)"
    by (rule PageTable_unmap_spec [OF assms(1)]) blast
  from translation_update [OF f] have "translation km' pt = (translation km pt)(vpn_key vpn := None)" by simp
  with u ram show ?thesis by blast
qed

lemma example_mapped:
  obtains km pt used where "pt_ok km pt used"
    "translation km pt = [5 \<mapsto> (PhysPageNum 0x80300, PTE_R OR PTE_V)]"
proof -
  obtain km pt used where t: "pt_ok km pt used" "translation km pt = Map.empty" "2 \<le> card (free_ppns km)"
    by (rule example_table)
  have key: "vpn_key (VirtPageNum 5) = 5" by (simp add: vpn_key_def)
  have un: "PageTable_find_pte km pt (VirtPageNum 5) = Some None"
    using t(2) translation_None [OF t(1), of "VirtPageNum 5"] by simp
  obtain pt' km' fs where
    ok: "pt_ok km' pt' (used \<union> set fs)"
    and f: "\<And>w. PageTable_find_pte km' pt' w = (if vpn_key w = vpn_key (VirtPageNum 5)
        then Some (Some (PageTableEntry_new (PhysPageNum 0x80300) (PTE_R OR PTE_V))) else PageTable_find_pte km pt w)"
    by (rule PageTable_map_spec [OF t(1) un t(3), where ppn = "PhysPageNum 0x80300" and flags = PTE_R]) blast
  from translation_update [OF f] t(2) key
  have "translation km' pt' = [5 \<mapsto> (PhysPageNum 0x80300, PTE_R OR PTE_V)]" by simp
  with ok that show ?thesis by blast
qed

theorem PageTable_unmap_refines_witness:
  "\<exists>km pt km'. translation km pt 5 = Some (PhysPageNum 0x80300, PTE_R OR PTE_V)
     \<and> PageTable_unmap km pt (VirtPageNum 5) = Some (pt, km') \<and> translation km' pt 5 = None"
proof -
  obtain km pt used where t: "pt_ok km pt used" "translation km pt = [5 \<mapsto> (PhysPageNum 0x80300, PTE_R OR PTE_V)]"
    by (rule example_mapped)
  have key: "vpn_key (VirtPageNum 5) = 5" by (simp add: vpn_key_def)
  have "translation km pt (vpn_key (VirtPageNum 5)) \<noteq> None" using t(2) by (simp add: key)
  from PageTable_unmap_refines [OF t(1) this] obtain km' where
    "PageTable_unmap km pt (VirtPageNum 5) = Some (pt, km')" "translation km' pt = (translation km pt)(5 := None)"
    unfolding key by blast
  then show ?thesis using t(2) by (intro exI [of _ km] exI [of _ pt] exI [of _ km']) simp
qed

lemma page_addr_eq: "page_addr (PhysPageNum n) = push_bit 12 n + PA_TO_VA"
proof -
  have "page_addr (PhysPageNum n) = push_bit 12 (n + 0xFFFFFFFF00000)"
    by (simp add: page_addr_def config_simps)
  also have "\<dots> = push_bit 12 n + 0xFFFFFFFF00000000"
    by (simp add: push_bit_eq_mult distrib_left)
  finally show ?thesis by (simp add: config_simps)
qed

lemma frame_byte_addr: "kernel_pa_to_va (PhysAddr_add (PhysPageNum_page_start p) off) = VirtAddr (page_addr p + off)"
  by (cases p) (simp add: page_addr_eq PAGE_SIZE_BITS_eq)

text \<open>
  Property C8. Software translation of an address agrees with the map: \<^verbatim>\<open>PageTable::trans_va\<close> never
  panics on a well-formed table; an unmapped page gives \<^verbatim>\<open>EFAULT\<close>, and a mapped one the kernel
  address of the byte at the same offset of the frame the page is mapped to.
\<close>

theorem PageTable_trans_va_correct:
  assumes "pt_ok km pt used"
  shows "PageTable_trans_va km pt va = Some (case translation km pt (vpn_key (VirtAddr_vpn_floor va)) of
      None \<Rightarrow> Inl EFAULT
    | Some (ppn, flags) \<Rightarrow> Inr (VirtAddr (page_addr ppn + VirtAddr_page_offset va)))"
proof -
  obtain r where r: "PageTable_find_pte km pt (VirtAddr_vpn_floor va) = Some r"
    by (rule find_pte_total [OF assms])
  show ?thesis
    unfolding PageTable_trans_va_def PageTable_trans_va_to_pa_def r translation_key
    by (cases r) (simp_all add: ok_or_def frame_byte_addr)
qed

theorem PageTable_trans_va_correct_witness:
  "\<exists>km pt. PageTable_trans_va km pt (VirtAddr 0x5123) = Some (Inr (VirtAddr 0xffffffff80300123))
     \<and> PageTable_trans_va km pt (VirtAddr 0x6123) = Some (Inl EFAULT)"
proof -
  obtain km pt used where t: "pt_ok km pt used" "translation km pt = [5 \<mapsto> (PhysPageNum 0x80300, PTE_R OR PTE_V)]"
    by (rule example_mapped)
  have k: "vpn_key (VirtAddr_vpn_floor (VirtAddr 0x5123)) = 5" "vpn_key (VirtAddr_vpn_floor (VirtAddr 0x6123)) = 6"
    by (simp_all add: vpn_key_def config_simps)
  have a: "page_addr (PhysPageNum 0x80300) = 0xffffffff80300000" by (simp add: page_addr_eq config_simps)
  show ?thesis
    by (rule exI [of _ km], rule exI [of _ pt])
      (simp only: PageTable_trans_va_correct [OF t(1)] k t(2), simp add: a config_simps)
qed

lemma find_pte_create_valid:
  assumes ok: "pt_ok km pt used" and free: "2 \<le> card (free_ppns km)"
  obtains q k pt1 km1 where "PageTable_find_pte_create km pt vpn = Some (Some (q, k), pt1, km1)"
    "translation km pt (vpn_key vpn) = None \<longleftrightarrow> \<not> PageTableEntry_is_valid (read_pte km1 q k)"
proof -
  let ?root = "pt_root_ppn pt"
  obtain i j k where v: "VirtPageNum_indexes vpn = [i, j, k]" "i < 512" "j < 512" "k < 512"
    by (rule vpn_indexes)
  obtain fs km1 pt1 q where c: "PageTable_find_pte_create km pt vpn = Some (Some (q, k), pt1, km1)"
    and e: "table_ext used km pt fs km1 pt1" and n: "node (km_ram km1) ?root [i, j] = Some q"
    using find_pte_create_spec [OF ok v disjI2 [OF free]] by metis
  have "PageTable_find_pte km pt vpn = Some (walk (km_ram km1) ?root [i, j] k)"
    using e v by (simp add: table_ext_def find_pte_walk [OF ok v])
  moreover have "walk (km_ram km1) ?root [i, j] k = None \<longleftrightarrow> \<not> PageTableEntry_is_valid (read_pte km1 q k)"
    using n by (simp add: walk_def read_pte_def Let_def)
  ultimately have "PageTable_find_pte km pt vpn = Some None \<longleftrightarrow> \<not> PageTableEntry_is_valid (read_pte km1 q k)"
    by simp
  then show ?thesis by (intro that [OF c]) (simp add: translation_None [OF ok])
qed

lemma PageTable_map_mapped:
  assumes "pt_ok km pt used" "2 \<le> card (free_ppns km)" "translation km pt (vpn_key vpn) \<noteq> None"
  shows "PageTable_map km pt vpn ppn flags = None"
proof -
  obtain q k pt1 km1 where "PageTable_find_pte_create km pt vpn = Some (Some (q, k), pt1, km1)"
    "translation km pt (vpn_key vpn) = None \<longleftrightarrow> \<not> PageTableEntry_is_valid (read_pte km1 q k)"
    by (rule find_pte_create_valid [OF assms(1,2)])
  then show ?thesis using assms(3) by (simp add: PageTable_map_def rust_assert_def)
qed

text \<open>
  Property C9. The two assertions of the table: mapping a page that is already mapped panics, and so
  does unmapping a page that is not mapped.
\<close>

theorem PageTable_map_unmap_panics:
  assumes ok: "pt_ok km pt used" and free: "2 \<le> card (free_ppns km)"
  shows "(PageTable_map km pt vpn ppn flags = None \<longleftrightarrow> translation km pt (vpn_key vpn) \<noteq> None)
    \<and> (PageTable_unmap km pt vpn = None \<longleftrightarrow> translation km pt (vpn_key vpn) = None)"
proof -
  obtain q k pt1 km1 where "PageTable_find_pte_create km pt vpn = Some (Some (q, k), pt1, km1)"
    "translation km pt (vpn_key vpn) = None \<longleftrightarrow> \<not> PageTableEntry_is_valid (read_pte km1 q k)"
    by (rule find_pte_create_valid [OF ok free])
  then show ?thesis by (simp add: PageTable_map_def PageTable_unmap_def rust_assert_def)
qed

theorem PageTable_map_unmap_panics_witness:
  "\<exists>km pt. PageTable_unmap km pt (VirtPageNum 5) = None
     \<and> PageTable_map km pt (VirtPageNum 5) (PhysPageNum 0x80300) PTE_R \<noteq> None"
proof -
  obtain km pt used where t: "pt_ok km pt used" "translation km pt = Map.empty" "2 \<le> card (free_ppns km)"
    by (rule example_table)
  from PageTable_map_unmap_panics [OF t(1,3), of "VirtPageNum 5"] t(2)
  show ?thesis by (intro exI [of _ km] exI [of _ pt]) simp
qed

end
