(* ===== verification/Memory_Set.thy ===== *)
theory Memory_Set
  imports Page_Table
begin

text \<open>
  Address spaces (\<^verbatim>\<open>memory/src/memory_set.rs\<close>): logical segments of pages, mapped linearly or onto
  frames of their own, and the sets of segments that make the kernel's and the processes' address
  spaces: creation, copying, growing and shrinking, and release.

  Main results: every operation keeps an address space well formed, so that each page of a framed
  segment is mapped onto its own frame and no frame is shared; a new segment is zero; a copied
  address space has the same bytes on other frames.
\<close>

section \<open>Segments\<close>

type_synonym MapPermission = u8

definition MP_R :: MapPermission where "MP_R = push_bit 1 1"
definition MP_W :: MapPermission where "MP_W = push_bit 2 1"
definition MP_X :: MapPermission where "MP_X = push_bit 3 1"
definition MP_U :: MapPermission where "MP_U = push_bit 4 1"

datatype MapType =
  Linear (mt_offset: usize)
| Framed (mt_data_frames: "(VirtPageNum \<times> FrameTracker) list")

definition MapType_new_framed :: MapType where
  "MapType_new_framed = Framed []"

record MapArea =
  ma_start :: VirtPageNum
  ma_end :: VirtPageNum
  ma_map_type :: MapType
  ma_map_perm :: MapPermission

text \<open>The pages of a segment.\<close>

abbreviation ma_range :: "MapArea \<Rightarrow> VirtPageNum list" where
  "ma_range a \<equiv> vpn_range (ma_start a) (ma_end a)"

definition MapArea_new :: "VirtAddr \<Rightarrow> VirtAddr \<Rightarrow> MapType \<Rightarrow> MapPermission \<Rightarrow> MapArea" where
  "MapArea_new start_va end_va map_type map_perm =
     (let start_vpn = VirtAddr_vpn_floor start_va;
          end_vpn = VirtAddr_vpn_ceil end_va
      in \<lparr>ma_start = start_vpn, ma_end = end_vpn, ma_map_type = map_type, ma_map_perm = map_perm\<rparr>)"

definition MapArea_kernel_map :: "PhysAddr \<Rightarrow> PhysAddr \<Rightarrow> MapPermission \<Rightarrow> MapArea" where
  "MapArea_kernel_map start_pa end_pa map_perm =
     (let start_vpn = VirtAddr_vpn_floor (VirtAddr (pa_val start_pa + PA_TO_VA));
          end_vpn = VirtAddr_vpn_ceil (VirtAddr (pa_val end_pa + PA_TO_VA))
      in \<lparr>ma_start = start_vpn, ma_end = end_vpn, ma_map_type = Linear PA_TO_VA, ma_map_perm = map_perm\<rparr>)"

text \<open>
  Cloning a map type clones the handles of its frames; dropping a segment drops them in the order
  of the pages.
\<close>

definition MapType_clone :: "kernel_mem \<Rightarrow> MapType \<Rightarrow> MapType \<times> kernel_mem" where
  "MapType_clone km t = (t, case t of Linear _ \<Rightarrow> km | Framed fs \<Rightarrow> foldl arc_clone km (map snd fs))"

definition MapArea_drop :: "kernel_mem \<Rightarrow> MapArea \<Rightarrow> kernel_mem" where
  "MapArea_drop km a = (case ma_map_type a of Linear _ \<Rightarrow> km | Framed fs \<Rightarrow> foldl arc_drop km (map snd fs))"

definition MapArea_from_another :: "kernel_mem \<Rightarrow> MapArea \<Rightarrow> MapArea \<times> kernel_mem" where
  "MapArea_from_another km another =
     (let (t, km) = MapType_clone km (ma_map_type another)
      in (\<lparr>ma_start = ma_start another, ma_end = ma_end another, ma_map_type = t, ma_map_perm = ma_map_perm another\<rparr>, km))"

definition MapArea_len :: "MapArea \<Rightarrow> usize" where
  "MapArea_len self = saturating_sub (vpn_val (ma_end self)) (vpn_val (ma_start self)) * PAGE_SIZE"

definition MapArea_is_empty :: "MapArea \<Rightarrow> bool" where
  "MapArea_is_empty self \<longleftrightarrow> MapArea_len self = 0"

text \<open>A value of a map that is replaced or removed is dropped.\<close>

definition drop_replaced :: "kernel_mem \<Rightarrow> FrameTracker option \<Rightarrow> kernel_mem" where
  "drop_replaced km r = (case r of None \<Rightarrow> km | Some ft \<Rightarrow> arc_drop km ft)"

definition MapArea_map_one :: "kernel_mem \<Rightarrow> MapArea \<Rightarrow> PageTable \<Rightarrow> VirtPageNum \<Rightarrow>
    (MapArea \<times> PageTable \<times> kernel_mem) option" where
  "MapArea_map_one km self page_table vpn = do {
     (ppn, self, km) \<leftarrow> (case ma_map_type self of
         Linear offset \<Rightarrow> Some (PhysPageNum (vpn_val vpn - offset div PAGE_SIZE), self, km)
       | Framed data_frames \<Rightarrow> do {
           (r, km) \<leftarrow> frame_alloc km 1;
           frame \<leftarrow> r;
           let km = arc_new km frame;
           let km = drop_replaced km (map_of data_frames vpn);
           Some (ft_ppn frame, self\<lparr>ma_map_type := Framed (btree_insert vpn frame data_frames)\<rparr>, km) });
     (page_table, km) \<leftarrow> PageTable_map km page_table vpn ppn (flags_from_bits_truncate PTEFlags_all (ma_map_perm self));
     Some (self, page_table, km) }"

definition MapArea_unmap_one :: "kernel_mem \<Rightarrow> MapArea \<Rightarrow> PageTable \<Rightarrow> VirtPageNum \<Rightarrow>
    (MapArea \<times> PageTable \<times> kernel_mem) option" where
  "MapArea_unmap_one km self page_table vpn = do {
     let (self, km) = (case ma_map_type self of
         Framed data_frames \<Rightarrow>
           (self\<lparr>ma_map_type := Framed (btree_remove vpn data_frames)\<rparr>, drop_replaced km (map_of data_frames vpn))
       | Linear _ \<Rightarrow> (self, km));
     (page_table, km) \<leftarrow> PageTable_unmap km page_table vpn;
     Some (self, page_table, km) }"

text \<open>The loops over pages.\<close>

fun map_pages :: "kernel_mem \<Rightarrow> MapArea \<Rightarrow> PageTable \<Rightarrow> VirtPageNum list \<Rightarrow> (MapArea \<times> PageTable \<times> kernel_mem) option" where
  "map_pages km self page_table [] = Some (self, page_table, km)"
| "map_pages km self page_table (vpn # vpns) = do {
     (self, page_table, km) \<leftarrow> MapArea_map_one km self page_table vpn;
     map_pages km self page_table vpns }"

fun unmap_pages :: "kernel_mem \<Rightarrow> MapArea \<Rightarrow> PageTable \<Rightarrow> VirtPageNum list \<Rightarrow> (MapArea \<times> PageTable \<times> kernel_mem) option" where
  "unmap_pages km self page_table [] = Some (self, page_table, km)"
| "unmap_pages km self page_table (vpn # vpns) = do {
     (self, page_table, km) \<leftarrow> MapArea_unmap_one km self page_table vpn;
     unmap_pages km self page_table vpns }"

definition MapArea_map :: "kernel_mem \<Rightarrow> MapArea \<Rightarrow> PageTable \<Rightarrow> (MapArea \<times> PageTable \<times> kernel_mem) option" where
  "MapArea_map km self page_table = map_pages km self page_table (ma_range self)"

definition MapArea_unmap :: "kernel_mem \<Rightarrow> MapArea \<Rightarrow> PageTable \<Rightarrow> (MapArea \<times> PageTable \<times> kernel_mem) option" where
  "MapArea_unmap km self page_table = unmap_pages km self page_table (ma_range self)"

definition MapArea_end :: "MapArea \<Rightarrow> VirtPageNum" where
  "MapArea_end self = ma_end self"

definition MapArea_shrink :: "kernel_mem \<Rightarrow> MapArea \<Rightarrow> VirtPageNum \<Rightarrow> PageTable \<Rightarrow> (MapArea \<times> PageTable \<times> kernel_mem) option" where
  "MapArea_shrink km self new_end page_table = do {
     (self, page_table, km) \<leftarrow> unmap_pages km self page_table (vpn_range new_end (MapArea_end self));
     Some (self\<lparr>ma_end := new_end\<rparr>, page_table, km) }"

definition MapArea_expand :: "kernel_mem \<Rightarrow> MapArea \<Rightarrow> VirtPageNum \<Rightarrow> PageTable \<Rightarrow> (MapArea \<times> PageTable \<times> kernel_mem) option" where
  "MapArea_expand km self new_end page_table = do {
     (self, page_table, km) \<leftarrow> map_pages km self page_table (vpn_range (MapArea_end self) new_end);
     Some (self\<lparr>ma_end := new_end\<rparr>, page_table, km) }"

definition VirtPageNum_copy_from :: "kernel_mem \<Rightarrow> VirtPageNum \<Rightarrow> usize \<Rightarrow> u8 list \<Rightarrow> kernel_mem" where
  "VirtPageNum_copy_from km self offset src =
     (let va = VirtPageNum_page_start self
      in km\<lparr>km_ram := ram_write (km_ram km) (va_val (VirtAddr_add va offset)) src\<rparr>)"

text \<open>The loop over the chunks of one page each.\<close>

function copy_chunks :: "kernel_mem \<Rightarrow> PageTable \<Rightarrow> VirtPageNum \<Rightarrow> u8 list \<Rightarrow> kernel_mem option" where
  "copy_chunks km page_table curr_vpn rest =
     (if rest = [] then Some km
      else do {
        let chunk = take (unat PAGE_SIZE) rest;
        r \<leftarrow> PageTable_translate km page_table curr_vpn;
        dst \<leftarrow> r;
        let km = VirtPageNum_copy_from km (kernel_ppn_to_vpn dst) 0 chunk;
        copy_chunks km page_table (VirtPageNum (vpn_val curr_vpn + 1)) (drop (unat PAGE_SIZE) rest) })"
  by pat_completeness auto
termination
  by (relation "measure (\<lambda>(_, _, _, rest). length rest)") (auto simp: config_simps)

definition MapArea_copy_data :: "kernel_mem \<Rightarrow> MapArea \<Rightarrow> PageTable \<Rightarrow> usize \<Rightarrow> u8 list \<Rightarrow> kernel_mem option" where
  "MapArea_copy_data km self page_table start_offset data = do {
     rust_assert (case ma_map_type self of Framed _ \<Rightarrow> True | Linear _ \<Rightarrow> False);
     rust_assert (start_offset < PAGE_SIZE);
     rust_assert (length data \<le> unat (MapArea_len self));
     let curr_vpn = ma_start self;
     let mid = min (unat (PAGE_SIZE - start_offset)) (length data);
     let first_block = take mid data;
     let rest = drop mid data;
     r \<leftarrow> PageTable_translate km page_table curr_vpn;
     ppn \<leftarrow> r;
     let km = VirtPageNum_copy_from km (kernel_ppn_to_vpn ppn) start_offset first_block;
     copy_chunks km page_table (VirtPageNum (vpn_val curr_vpn + 1)) rest }"

section \<open>Address spaces\<close>

record MemorySet =
  ms_page_table :: PageTable
  ms_areas :: "(VirtPageNum \<times> MapArea) list"

definition MemorySet_new_bare :: "kernel_mem \<Rightarrow> (MemorySet \<times> kernel_mem) option" where
  "MemorySet_new_bare km = do {
     (pt, km) \<leftarrow> PageTable_with_root km;
     Some (\<lparr>ms_page_table = pt, ms_areas = []\<rparr>, km) }"

fun map_kernel_lines :: "kernel_mem \<Rightarrow> PageTable \<Rightarrow> PageTable \<Rightarrow> usize list \<Rightarrow> kernel_mem option" where
  "map_kernel_lines km pt kernel_pt [] = Some km"
| "map_kernel_lines km pt kernel_pt (line # lines) = do {
     kernel_pte \<leftarrow> PageTable_root_pte km kernel_pt line;
     km \<leftarrow> PageTable_root_pte_mut km pt line kernel_pte;
     map_kernel_lines km pt kernel_pt lines }"

definition MemorySet_map_kernel_areas :: "kernel_mem \<Rightarrow> MemorySet \<Rightarrow> PageTable \<Rightarrow> kernel_mem option" where
  "MemorySet_map_kernel_areas km self kernel_pt = map_kernel_lines km (ms_page_table self) kernel_pt [508, 510, 511]"

definition MemorySet_push :: "kernel_mem \<Rightarrow> MemorySet \<Rightarrow> MapArea \<Rightarrow> usize \<Rightarrow> u8 list option \<Rightarrow> (MemorySet \<times> kernel_mem) option" where
  "MemorySet_push km self map_area start_offset data = do {
     (map_area, pt, km) \<leftarrow> MapArea_map km map_area (ms_page_table self);
     km \<leftarrow> (case data of
         Some data \<Rightarrow> MapArea_copy_data km map_area pt start_offset data
       | None \<Rightarrow> Some km);
     let km = (case map_of (ms_areas self) (ma_start map_area) of None \<Rightarrow> km | Some old \<Rightarrow> MapArea_drop km old);
     Some (self\<lparr>ms_page_table := pt, ms_areas := btree_insert (ma_start map_area) map_area (ms_areas self)\<rparr>, km) }"

definition MemorySet_insert_framed_area :: "kernel_mem \<Rightarrow> MemorySet \<Rightarrow> VirtPageNum \<Rightarrow> VirtPageNum \<Rightarrow> MapPermission \<Rightarrow>
    (MemorySet \<times> kernel_mem) option" where
  "MemorySet_insert_framed_area km self start_vpn end_vpn perm =
     MemorySet_push km self \<lparr>ma_start = start_vpn, ma_end = end_vpn, ma_map_type = MapType_new_framed, ma_map_perm = perm\<rparr> 0 None"

fun push_mmio :: "kernel_mem \<Rightarrow> MemorySet \<Rightarrow> (usize \<times> usize) list \<Rightarrow> (MemorySet \<times> kernel_mem) option" where
  "push_mmio km self [] = Some (self, km)"
| "push_mmio km self ((start, len) # rest) = do {
     (self, km) \<leftarrow> MemorySet_push km self (MapArea_kernel_map (PhysAddr start) (PhysAddr (start + len)) (MP_R OR MP_W)) 0 None;
     push_mmio km self rest }"

definition MemorySet_new_kernel :: "kernel_mem \<Rightarrow> (MemorySet \<times> kernel_mem) option" where
  "MemorySet_new_kernel km = do {
     let syms = km_syms km;
     (ms, km) \<leftarrow> MemorySet_new_bare km;
     (ms, km) \<leftarrow> MemorySet_push km ms (MapArea_kernel_map (kernel_va_to_pa (VirtAddr (stext syms)))
       (kernel_va_to_pa (VirtAddr (etext syms))) (MP_R OR MP_X)) 0 None;
     (ms, km) \<leftarrow> MemorySet_push km ms (MapArea_kernel_map (kernel_va_to_pa (VirtAddr (srodata syms)))
       (kernel_va_to_pa (VirtAddr (erodata syms))) MP_R) 0 None;
     (ms, km) \<leftarrow> MemorySet_push km ms (MapArea_kernel_map (kernel_va_to_pa (VirtAddr (sdata syms)))
       (kernel_va_to_pa (VirtAddr (ebss syms))) (MP_R OR MP_W)) 0 None;
     (ms, km) \<leftarrow> MemorySet_push km ms (MapArea_kernel_map (kernel_va_to_pa (VirtAddr (ekernel syms)))
       (PhysAddr MEMORY_END) (MP_R OR MP_W)) 0 None;
     push_mmio km ms MMIO }"

definition MemorySet_translate :: "kernel_mem \<Rightarrow> MemorySet \<Rightarrow> VirtPageNum \<Rightarrow> PhysPageNum option option" where
  "MemorySet_translate km self vpn = PageTable_translate km (ms_page_table self) vpn"

fun copy_pages :: "kernel_mem \<Rightarrow> MemorySet \<Rightarrow> MemorySet \<Rightarrow> VirtPageNum list \<Rightarrow> kernel_mem option" where
  "copy_pages km user_space memory_set [] = Some km"
| "copy_pages km user_space memory_set (vpn # vpns) = do {
     r \<leftarrow> MemorySet_translate km user_space vpn;
     src_ppn \<leftarrow> r;
     r \<leftarrow> MemorySet_translate km memory_set vpn;
     dst_ppn \<leftarrow> r;
     page_ref dst_ppn;
     page_ref src_ppn;
     let km = km\<lparr>km_ram := ram_write (km_ram km) (page_addr dst_ppn) (ram_read (km_ram km) (page_addr src_ppn) (unat PAGE_SIZE))\<rparr>;
     copy_pages km user_space memory_set vpns }"

fun copy_areas :: "kernel_mem \<Rightarrow> MemorySet \<Rightarrow> MemorySet \<Rightarrow> MapArea list \<Rightarrow> (MemorySet \<times> kernel_mem) option" where
  "copy_areas km user_space memory_set [] = Some (memory_set, km)"
| "copy_areas km user_space memory_set (area # areas) = do {
     let (new_area, km) = MapArea_from_another km area;
     (memory_set, km) \<leftarrow> MemorySet_push km memory_set new_area 0 None;
     km \<leftarrow> copy_pages km user_space memory_set (ma_range area);
     copy_areas km user_space memory_set areas }"

definition MemorySet_from_existed_user :: "kernel_mem \<Rightarrow> MemorySet \<Rightarrow> (MemorySet \<times> kernel_mem) option" where
  "MemorySet_from_existed_user km user_space = do {
     (memory_set, km) \<leftarrow> MemorySet_new_bare km;
     (memory_set, km) \<leftarrow> copy_areas km user_space memory_set (map snd (ms_areas user_space));
     km \<leftarrow> MemorySet_map_kernel_areas km memory_set (ms_page_table user_space);
     Some (memory_set, km) }"

definition MemorySet_token :: "MemorySet \<Rightarrow> usize" where
  "MemorySet_token self = PageTable_token (ms_page_table self)"

definition MemorySet_set_user_brk :: "kernel_mem \<Rightarrow> MemorySet \<Rightarrow> VirtPageNum \<Rightarrow> VirtPageNum \<Rightarrow> (MemorySet \<times> kernel_mem) option" where
  "MemorySet_set_user_brk km self new_end heap_start =
     (case map_of (ms_areas self) heap_start of
        Some map_area \<Rightarrow> do {
          let curr_vpn = MapArea_end map_area;
          (map_area, pt, km) \<leftarrow> (if curr_vpn \<ge> new_end then MapArea_shrink km map_area new_end (ms_page_table self)
            else MapArea_expand km map_area new_end (ms_page_table self));
          Some (self\<lparr>ms_page_table := pt, ms_areas := btree_insert heap_start map_area (ms_areas self)\<rparr>, km) }
      | None \<Rightarrow> MemorySet_insert_framed_area km self heap_start new_end (MP_R OR MP_W OR MP_U))"

text \<open>The search for a hole in front of one of the segments.\<close>

fun find_hole :: "VirtPageNum \<Rightarrow> usize \<Rightarrow> MapArea list \<Rightarrow> VirtPageNum option" where
  "find_hole start len [] = None"
| "find_hole start len (area # areas) =
     (if ma_start area > start \<and> VirtPageNum_add start len \<le> VirtPageNum (drop_bit PAGE_SIZE_BITS LOW_END)
      then (if VirtPageNum_add start len \<le> ma_start area then Some start
            else find_hole (ma_end area) len areas)
      else find_hole start len areas)"

definition MemorySet_try_map :: "kernel_mem \<Rightarrow> MemorySet \<Rightarrow> VirtPageNum \<times> VirtPageNum \<Rightarrow> MapPermission \<Rightarrow> bool \<Rightarrow>
    (isize Result \<times> MemorySet \<times> kernel_mem) option" where
  "MemorySet_try_map km self vpns perm fixed =
     (if fixed then do {
        (self, km) \<leftarrow> MemorySet_insert_framed_area km self (fst vpns) (snd vpns) perm;
        Some (Inr (vpn_val (fst vpns)), self, km) }
      else
        (let start = VirtPageNum (drop_bit PAGE_SIZE_BITS MMAP_START);
             len = vpn_val (snd vpns) - vpn_val (fst vpns)
         in case find_hole start len (map snd (ms_areas self)) of
              Some start \<Rightarrow> do {
                (self, km) \<leftarrow> MemorySet_insert_framed_area km self start (VirtPageNum_add start len) perm;
                Some (Inr (va_val (VirtPageNum_page_start start)), self, km) }
            | None \<Rightarrow> Some (Inl ENOMEM, self, km)))"

definition MemorySet_remove_area_with_start_vpn :: "kernel_mem \<Rightarrow> MemorySet \<Rightarrow> VirtPageNum \<Rightarrow> (MemorySet \<times> kernel_mem) option" where
  "MemorySet_remove_area_with_start_vpn km self start_vpn =
     (case map_of (ms_areas self) start_vpn of
        Some area \<Rightarrow> do {
          (area, pt, km) \<leftarrow> MapArea_unmap km area (ms_page_table self);
          Some (self\<lparr>ms_page_table := pt, ms_areas := btree_remove start_vpn (ms_areas self)\<rparr>, MapArea_drop km area) }
      | None \<Rightarrow> Some (self, km))"

definition MemorySet_activate :: "kernel_mem \<Rightarrow> MemorySet \<Rightarrow> kernel_mem" where
  "MemorySet_activate km self =
     (let old_root = km_satp km;
          new_root = PageTable_token (ms_page_table self)
      in if new_root \<noteq> old_root then km\<lparr>km_satp := new_root\<rparr> else km)"

definition MemorySet_recycle_all_pages :: "kernel_mem \<Rightarrow> MemorySet \<Rightarrow> MemorySet \<times> kernel_mem" where
  "MemorySet_recycle_all_pages km self =
     (self\<lparr>ms_areas := []\<rparr>, foldl MapArea_drop km (map snd (ms_areas self)))"

definition MemorySet_recycle_user_pages :: "kernel_mem \<Rightarrow> MemorySet \<Rightarrow> (MemorySet \<times> kernel_mem) option" where
  "MemorySet_recycle_user_pages km self = do {
     let high = (\<lambda>(vpn, _). vpn_val vpn \<ge> LOW_END div PAGE_SIZE);
     let km = foldl MapArea_drop km (map snd (filter (\<lambda>p. \<not> high p) (ms_areas self)));
     let (pt, km) = PageTable_clear_except_root km (ms_page_table self);
     page_ref (pt_root_ppn pt);
     Some (self\<lparr>ms_page_table := pt, ms_areas := filter high (ms_areas self)\<rparr>,
       km\<lparr>km_ram := ram_fill (km_ram km) (page_addr (pt_root_ppn pt)) (PAGE_SIZE div 2) 0\<rparr>) }"

text \<open>A set of segments is dropped with its page table first.\<close>

definition MemorySet_drop :: "kernel_mem \<Rightarrow> MemorySet \<Rightarrow> kernel_mem" where
  "MemorySet_drop km self = foldl MapArea_drop (PageTable_drop km (ms_page_table self)) (map snd (ms_areas self))"

definition kernel_token :: "MemorySet \<Rightarrow> usize" where
  "kernel_token kernel_space = MemorySet_token kernel_space"

section \<open>Pages\<close>

definition page_bytes :: "kernel_mem \<Rightarrow> PhysPageNum \<Rightarrow> u8 list" where
  "page_bytes km p = ram_read (km_ram km) (page_addr p) 4096"

lemma length_page_bytes [simp]: "length (page_bytes km p) = 4096"
  by (simp add: page_bytes_def)

lemma page_bytes_eq: "page_bytes km' p = page_bytes km p \<longleftrightarrow>
    (\<forall>off < 4096. km_ram km' (page_addr p + off) = km_ram km (page_addr p + off))"
proof
  assume eq: "page_bytes km' p = page_bytes km p"
  show "\<forall>off < 4096. km_ram km' (page_addr p + off) = km_ram km (page_addr p + off)"
  proof (intro allI impI)
    fix off :: usize assume "off < 4096"
    then have "unat off < 4096" by (simp add: word_less_nat_alt)
    then show "km_ram km' (page_addr p + off) = km_ram km (page_addr p + off)"
      using arg_cong [OF eq, of "\<lambda>bs. bs ! unat off"] by (simp add: page_bytes_def ram_read_def)
  qed
next
  assume "\<forall>off < 4096. km_ram km' (page_addr p + off) = km_ram km (page_addr p + off)"
  then show "page_bytes km' p = page_bytes km p"
    unfolding page_bytes_def by (intro ram_read_cong) (simp add: word_less_nat_alt unat_of_nat)
qed

text \<open>
  A step of the memory that takes the frames \<^term>\<open>N\<close> from the free ones and changes no page outside \<^term>\<open>T\<close>.
\<close>

definition mem_step :: "PhysPageNum set \<Rightarrow> kernel_mem \<Rightarrow> kernel_mem \<Rightarrow> PhysPageNum set \<Rightarrow> PhysPageNum set \<Rightarrow> bool" where
  "mem_step used km km' T N \<longleftrightarrow> frames_inv km' (used \<union> N) \<and> N \<subseteq> free_ppns km \<and> free_ppns km' = free_ppns km - N
     \<and> (\<forall>p. ppn_ok p \<longrightarrow> p \<notin> T \<longrightarrow> page_bytes km' p = page_bytes km p)
     \<and> km_syms km' = km_syms km \<and> km_satp km' = km_satp km"

lemma mem_step_refl: "frames_inv km used \<Longrightarrow> mem_step used km km {} {}"
  by (simp add: mem_step_def)

lemma mem_step_trans:
  assumes "mem_step used km1 km2 T1 N1" "mem_step (used \<union> N1) km2 km3 T2 N2"
  shows "mem_step used km1 km3 (T1 \<union> T2) (N1 \<union> N2)"
  using assms unfolding mem_step_def by (auto simp: Un_assoc)

lemma mem_step_mono: "mem_step used km km' T N \<Longrightarrow> T \<subseteq> T' \<Longrightarrow> mem_step used km km' T' N"
  unfolding mem_step_def by blast

text \<open>A table whose nodes are not touched keeps its nodes and translations.\<close>

lemma pt_untouched:
  assumes "pt_ok km pt used" "\<And>p. p \<in> table_nodes (km_ram km) (pt_root_ppn pt) \<Longrightarrow> page_bytes km' p = page_bytes km p"
    and "frames_inv km' used'" "used \<subseteq> used'"
  shows "pt_ok km' pt used'" "translation km' pt = translation km pt"
    "table_nodes (km_ram km') (pt_root_ppn pt) = table_nodes (km_ram km) (pt_root_ppn pt)"
    "\<And>v. PageTable_find_pte km' pt v = PageTable_find_pte km pt v"
proof -
  let ?root = "pt_root_ppn pt"
  have words: "page_word (km_ram km') p i = page_word (km_ram km) p i" if "p \<in> table_nodes (km_ram km) ?root" "i < 512" for p i
    using assms(2) [OF that(1)] that(2) by (intro page_word_cong) (auto simp: page_bytes_eq)
  have tree: "tree_ok (km_ram km) ?root" using assms(1) by (simp add: pt_ok_def)
  have nodes: "node (km_ram km') ?root is = node (km_ram km) ?root is" if "length is \<le> 3" "idx_ok is" for "is"
    using node_cong [OF words that] .
  note t = tree_ok_cong [OF tree, of "km_ram km'"]
  show tn: "table_nodes (km_ram km') ?root = table_nodes (km_ram km) ?root" using t(2) nodes by simp
  moreover have "tree_ok (km_ram km') ?root" using t(1) nodes by simp
  ultimately show ok': "pt_ok km' pt used'" using assms(1,3,4) by (auto simp: pt_ok_def)
  show "PageTable_find_pte km' pt v = PageTable_find_pte km pt v" for v
  proof -
    obtain i j k where v: "VirtPageNum_indexes v = [i, j, k]" "i < 512" "j < 512" "k < 512" by (rule vpn_indexes)
    have "walk (km_ram km') ?root [i, j] k = walk (km_ram km) ?root [i, j] k"
    proof (cases "node (km_ram km) ?root [i, j]")
      case (Some q)
      have "q \<in> table_nodes (km_ram km) ?root" using node_mem [OF Some] v by simp
      then show ?thesis using words v(4) nodes [of "[i, j]"] v(2,3) Some by (simp add: walk_def)
    qed (use nodes [of "[i, j]"] v(2,3) in \<open>simp add: walk_def\<close>)
    then show ?thesis by (simp add: find_pte_walk [OF ok' v] find_pte_walk [OF assms(1) v])
  qed
  then show "translation km' pt = translation km pt" by (simp add: translation_def fun_eq_iff)
qed

section \<open>Mapping pages\<close>

text \<open>What the old handle of a page must satisfy, and the counts after it is replaced.\<close>

definition old_shared :: "kernel_mem \<Rightarrow> FrameTracker option \<Rightarrow> bool" where
  "old_shared km r = (case r of None \<Rightarrow> True | Some ft \<Rightarrow> 2 \<le> km_arcs km (ft_ppn ft) \<and> ft_ppn ft \<notin> free_ppns km)"

definition arcs_replace :: "(PhysPageNum \<Rightarrow> nat) \<Rightarrow> PhysPageNum \<Rightarrow> FrameTracker option \<Rightarrow> PhysPageNum \<Rightarrow> nat" where
  "arcs_replace arcs f r = (case r of None \<Rightarrow> arcs(f := 1) | Some ft \<Rightarrow> arcs(f := 1, ft_ppn ft := arcs (ft_ppn ft) - 1))"

abbreviation frame1 :: "PhysPageNum \<Rightarrow> FrameTracker" where
  "frame1 f \<equiv> \<lparr>ft_ppn = f, ft_num = 1\<rparr>"

lemma frame_alloc_step:
  assumes "pt_ok km pt used" "free_ppns km \<noteq> {}" "old_shared km r"
  obtains f km1 where "frame_alloc km 1 = Some (Some (frame1 f), km1)" "f \<in> free_ppns km"
    "mem_step used km (drop_replaced (arc_new km1 (frame1 f)) r) {f} {f}"
    "pt_ok (drop_replaced (arc_new km1 (frame1 f)) r) pt (insert f used)"
    "translation (drop_replaced (arc_new km1 (frame1 f)) r) pt = translation km pt"
    "table_nodes (km_ram (drop_replaced (arc_new km1 (frame1 f)) r)) (pt_root_ppn pt) = table_nodes (km_ram km) (pt_root_ppn pt)"
    "page_bytes (drop_replaced (arc_new km1 (frame1 f)) r) f = replicate 4096 0"
    "km_arcs (drop_replaced (arc_new km1 (frame1 f)) r) = arcs_replace (km_arcs km) f r"
proof -
  have inv: "frames_inv km used" "tree_ok (km_ram km) (pt_root_ppn pt)" "table_nodes (km_ram km) (pt_root_ppn pt) \<subseteq> used"
    using assms(1) by (simp_all add: pt_ok_def)
  obtain f fa where al: "frame_alloc km 1 = Some (Some (frame1 f), km\<lparr>km_frames := fa, km_ram := ram_fill (km_ram km) (page_addr f) 4096 0\<rparr>)"
    and f: "f \<in> free_ppns km" "f \<notin> used" "ppn_ok f"
    and inv1: "frames_inv (km\<lparr>km_frames := fa\<rparr>) (insert f used)" "free_ppns (km\<lparr>km_frames := fa\<rparr>) = free_ppns km - {f}"
    using frame_alloc_1 [OF inv(1) assms(2)] by metis
  define km1 where "km1 = km\<lparr>km_frames := fa, km_ram := ram_fill (km_ram km) (page_addr f) 4096 0\<rparr>"
  define km2 where "km2 = drop_replaced (arc_new km1 (frame1 f)) r"
  have km2: "km2 = km1\<lparr>km_arcs := arcs_replace (km_arcs km) f r\<rparr>"
    using assms(3) f(1) by (auto simp: km2_def drop_replaced_def old_shared_def arcs_replace_def arc_new_def arc_drop_def km1_def split: option.splits)
  have step: "mem_step used km km2 {f} {f}"
    using inv1 f ram_fill_page [of _ f] by (auto simp: mem_step_def km2 km1_def frames_inv_def free_ppns_def page_bytes_eq)
  have "page_bytes km2 p = page_bytes km p" if "p \<in> table_nodes (km_ram km) (pt_root_ppn pt)" for p
    using step that tree_ok_ppn [OF inv(2) that] inv(3) f(2) by (auto simp: mem_step_def)
  note u = pt_untouched [OF assms(1) this, of "insert f used"]
  have "page_bytes km2 f = replicate 4096 0"
  proof (rule nth_equalityI)
    fix i assume "i < length (page_bytes km2 f)"
    then have i: "i < 4096" by simp
    then have "word_of_nat i < (4096 :: usize)" by (simp add: word_less_nat_alt unat_of_nat)
    with i show "page_bytes km2 f ! i = replicate 4096 0 ! i"
      using ram_fill_page [of "word_of_nat i" f f "km_ram km" 0] f(3) by (simp add: page_bytes_def ram_read_def km2 km1_def)
  qed simp
  moreover have "frames_inv km2 (insert f used)" using step by (simp add: mem_step_def)
  ultimately show ?thesis
    using that [of f km1, folded km2_def] al f(1) step u by (auto simp: km1_def [symmetric] km2)
qed

lemma map_one_framed:
  assumes ok: "pt_ok km pt used" and a: "ma_map_type a = Framed dfs" and unmapped: "translation km pt (vpn_key vpn) = None"
    and free: "3 \<le> card (free_ppns km)" and old: "old_shared km (map_of dfs vpn)"
  obtains f fs km' pt' where
    "MapArea_map_one km a pt vpn = Some (a\<lparr>ma_map_type := Framed (btree_insert vpn (frame1 f) dfs)\<rparr>, pt', km')"
    "f \<notin> set fs" "length fs \<le> 2" "pt_root_ppn pt' = pt_root_ppn pt" "pt_frames pt' = pt_frames pt @ map frame1 fs"
    "mem_step used km km' (table_nodes (km_ram km) (pt_root_ppn pt) \<union> insert f (set fs)) (insert f (set fs))"
    "pt_ok km' pt' (used \<union> insert f (set fs))"
    "table_nodes (km_ram km') (pt_root_ppn pt) = table_nodes (km_ram km) (pt_root_ppn pt) \<union> set fs"
    "translation km' pt' = (translation km pt)(vpn_key vpn \<mapsto> (f, ma_map_perm a OR PTE_V))"
    "page_bytes km' f = replicate 4096 0" "km_arcs km' = arcs_replace (km_arcs km) f (map_of dfs vpn)"
proof -
  let ?root = "pt_root_ppn pt"
  have inv: "frames_inv km used" "table_nodes (km_ram km) ?root \<subseteq> used" "used \<inter> free_ppns km = {}"
    using ok by (simp_all add: pt_ok_def frames_inv_def)
  have fin: "finite (free_ppns km)" using finite_free_ppns [OF inv(1)] .
  have "free_ppns km \<noteq> {}" using free by auto
  from frame_alloc_step [OF ok this old] obtain f km1 where
    f: "frame_alloc km 1 = Some (Some (frame1 f), km1)" "f \<in> free_ppns km"
      "mem_step used km (drop_replaced (arc_new km1 (frame1 f)) (map_of dfs vpn)) {f} {f}"
      "pt_ok (drop_replaced (arc_new km1 (frame1 f)) (map_of dfs vpn)) pt (insert f used)"
      "translation (drop_replaced (arc_new km1 (frame1 f)) (map_of dfs vpn)) pt = translation km pt"
      "table_nodes (km_ram (drop_replaced (arc_new km1 (frame1 f)) (map_of dfs vpn))) ?root = table_nodes (km_ram km) ?root"
      "page_bytes (drop_replaced (arc_new km1 (frame1 f)) (map_of dfs vpn)) f = replicate 4096 0"
      "km_arcs (drop_replaced (arc_new km1 (frame1 f)) (map_of dfs vpn)) = arcs_replace (km_arcs km) f (map_of dfs vpn)" .
  define km2 where "km2 = drop_replaced (arc_new km1 (frame1 f)) (map_of dfs vpn)"
  note f2 = f(3-8) [folded km2_def]
  have "free_ppns km2 = free_ppns km - {f}" using f2(1) by (simp add: mem_step_def)
  then have free2: "2 \<le> card (free_ppns km2)" using free f(2) fin by (simp add: card_Diff_singleton)
  have "PageTable_find_pte km2 pt vpn = Some None" using unmapped translation_None [OF f2(2)] f2(3) by simp
  then obtain pt' km' fs where
    m: "PageTable_map km2 pt vpn f (flags_from_bits_truncate PTEFlags_all (ma_map_perm a)) = Some (pt', km')"
      "pt' = pt\<lparr>pt_frames := pt_frames pt @ map frame1 fs\<rparr>" "pt_ok km' pt' (insert f used \<union> set fs)" "set fs \<subseteq> free_ppns km2" "length fs \<le> 2"
      "free_ppns km' = free_ppns km2 - set fs"
    and pte: "\<And>w. PageTable_find_pte km' pt' w = (if vpn_key w = vpn_key vpn
        then Some (Some (PageTableEntry_new f (flags_from_bits_truncate PTEFlags_all (ma_map_perm a) OR PTE_V))) else PageTable_find_pte km2 pt w)"
    and ram: "\<And>p off. ppn_ok p \<Longrightarrow> p \<notin> table_nodes (km_ram km2) ?root \<union> set fs \<Longrightarrow> off < 4096 \<Longrightarrow>
        km_ram km' (page_addr p + off) = km_ram km2 (page_addr p + off)"
    and same: "km_syms km' = km_syms km2" "km_satp km' = km_satp km2" "km_arcs km' = km_arcs km2"
      "table_nodes (km_ram km') ?root = table_nodes (km_ram km2) ?root \<union> set fs"
    by (rule PageTable_map_spec [OF f2(2) _ free2, where ppn = f and flags = "flags_from_bits_truncate PTEFlags_all (ma_map_perm a)"]) blast
  have ppn: "ppn_ok f" using free_ppns_ok [OF inv(1) f(2)] .
  have step: "mem_step (insert f used) km2 km' (table_nodes (km_ram km) ?root \<union> set fs) (set fs)"
    using m(3,4,6) same(1,2) ram f2(4) by (auto simp: mem_step_def pt_ok_def page_bytes_eq)
  then have step': "mem_step used km km' (table_nodes (km_ram km) ?root \<union> insert f (set fs)) (insert f (set fs))"
    using mem_step_trans [OF f2(1), of km'] by (simp add: insert_commute)
  have nf: "f \<notin> set fs" "f \<notin> table_nodes (km_ram km) ?root" using m(4) \<open>free_ppns km2 = free_ppns km - {f}\<close> inv(2,3) f(2) by auto
  have "page_bytes km' f = replicate 4096 0" using step nf ppn f2(5) by (simp add: mem_step_def)
  moreover have "translation km' pt' = (translation km pt)(vpn_key vpn \<mapsto> (f, ma_map_perm a OR PTE_V))"
    using translation_update [OF pte] ppn f2(3) by (simp add: flags_from_bits_truncate_def PTEFlags_all_eq)
  moreover have "MapArea_map_one km a pt vpn = Some (a\<lparr>ma_map_type := Framed (btree_insert vpn (frame1 f) dfs)\<rparr>, pt', km')"
    using f(1) m(1) a by (simp add: MapArea_map_one_def Let_def km2_def [symmetric])
  ultimately show ?thesis using that [of f pt' km' fs] nf m(2,3,5) step' same f2(4,6) by simp
qed

text \<open>
  A loop over pages that are not mapped, on frames \<^term>\<open>gs\<close> and new nodes \<^term>\<open>fs\<close>. Handles that the segment
  holds for these pages beforehand are shared with another segment, and are given back.
\<close>

definition old_handles :: "(VirtPageNum \<times> FrameTracker) list \<Rightarrow> VirtPageNum list \<Rightarrow> PhysPageNum set" where
  "old_handles dfs vpns = {ft_ppn ft | v ft. v \<in> set vpns \<and> map_of dfs v = Some ft}"

definition olds_ok :: "kernel_mem \<Rightarrow> (VirtPageNum \<times> FrameTracker) list \<Rightarrow> VirtPageNum list \<Rightarrow> bool" where
  "olds_ok km dfs vpns \<longleftrightarrow> (\<forall>v\<in>set vpns. old_shared km (map_of dfs v))
     \<and> (\<forall>v\<in>set vpns. \<forall>w\<in>set vpns. \<forall>ft ft'. map_of dfs v = Some ft \<longrightarrow> map_of dfs w = Some ft' \<longrightarrow> ft_ppn ft = ft_ppn ft' \<longrightarrow> v = w)"

definition mapped_pages :: "PhysPageNum set \<Rightarrow> kernel_mem \<Rightarrow> PageTable \<Rightarrow> MapArea \<Rightarrow> VirtPageNum list \<Rightarrow> PhysPageNum list \<Rightarrow> PhysPageNum list \<Rightarrow>
    kernel_mem \<Rightarrow> PageTable \<Rightarrow> MapArea \<Rightarrow> bool" where
  "mapped_pages used km pt a vpns gs fs km' pt' a' \<longleftrightarrow>
     length gs = length vpns \<and> distinct gs \<and> set gs \<inter> set fs = {} \<and> length fs \<le> 2 * length vpns
     \<and> pt_root_ppn pt' = pt_root_ppn pt \<and> pt_frames pt' = pt_frames pt @ map frame1 fs
     \<and> mem_step used km km' (table_nodes (km_ram km) (pt_root_ppn pt) \<union> set gs \<union> set fs) (set gs \<union> set fs)
     \<and> pt_ok km' pt' (used \<union> set gs \<union> set fs)
     \<and> table_nodes (km_ram km') (pt_root_ppn pt) = table_nodes (km_ram km) (pt_root_ppn pt) \<union> set fs
     \<and> translation km' pt' = translation km pt ++ map_of (zip (map vpn_key vpns) (map (\<lambda>g. (g, ma_map_perm a OR PTE_V)) gs))
     \<and> (\<forall>g\<in>set gs. page_bytes km' g = replicate 4096 0)
     \<and> (\<exists>dfs dfs'. ma_map_type a = Framed dfs \<and> a' = a\<lparr>ma_map_type := Framed dfs'\<rparr> \<and> (btree_wf dfs \<longrightarrow> btree_wf dfs')
          \<and> (btree_wf dfs \<longrightarrow> map_of dfs' = map_of dfs ++ map_of (zip vpns (map frame1 gs)))
          \<and> fst ` set dfs' = fst ` set dfs \<union> set vpns
          \<and> km_arcs km' = (\<lambda>p. if p \<in> set gs then 1 else if p \<in> old_handles dfs vpns then km_arcs km p - 1 else km_arcs km p))"

lemma map_add_upd_left_zip: "k \<notin> set ks \<Longrightarrow> length xs = length ks \<Longrightarrow> m(k \<mapsto> x) ++ map_of (zip ks xs) = m ++ map_of (zip (k # ks) (x # xs))"
  by (rule ext) (auto simp: map_add_def dest: map_of_SomeD set_zip_leftD split: option.splits)

lemma mapped_pages_Cons:
  assumes ok: "pt_ok km pt used" and a: "ma_map_type a = Framed dfs" and m: "f \<notin> set fs" "length fs \<le> 2" "pt_root_ppn pt1 = pt_root_ppn pt" "pt_frames pt1 = pt_frames pt @ map frame1 fs"
      "mem_step used km km1 (table_nodes (km_ram km) (pt_root_ppn pt) \<union> insert f (set fs)) (insert f (set fs))"
      "pt_ok km1 pt1 (used \<union> insert f (set fs))"
      "table_nodes (km_ram km1) (pt_root_ppn pt) = table_nodes (km_ram km) (pt_root_ppn pt) \<union> set fs"
      "translation km1 pt1 = (translation km pt)(vpn_key v \<mapsto> (f, ma_map_perm a OR PTE_V))"
      "page_bytes km1 f = replicate 4096 0" "km_arcs km1 = arcs_replace (km_arcs km) f (map_of dfs v)"
    and nf: "insert f (set fs) \<subseteq> free_ppns km" "free_ppns km1 = free_ppns km - insert f (set fs)"
    and v: "v \<notin> set vpns" "vpn_key v \<notin> vpn_key ` set vpns" and wf: "btree_wf dfs"
    and mp: "mapped_pages (used \<union> insert f (set fs)) km1 pt1 (a\<lparr>ma_map_type := Framed (btree_insert v (frame1 f) dfs)\<rparr>) vpns gs fs2 km2 pt2 a2"
    and old: "\<And>w ft. w \<in> set (v # vpns) \<Longrightarrow> map_of dfs w = Some ft \<Longrightarrow> ft_ppn ft \<notin> free_ppns km"
      "\<And>w ft ft'. w \<in> set vpns \<Longrightarrow> map_of dfs w = Some ft \<Longrightarrow> map_of dfs v = Some ft' \<Longrightarrow> ft_ppn ft \<noteq> ft_ppn ft'"
  shows "mapped_pages used km pt a (v # vpns) (f # gs) (fs @ fs2) km2 pt2 a2"
proof -
  let ?dfs = "btree_insert v (frame1 f) dfs" and ?nodes = "table_nodes (km_ram km) (pt_root_ppn pt)"
  from mp obtain dfs2 where
    2: "length gs = length vpns" "distinct gs" "set gs \<inter> set fs2 = {}" "length fs2 \<le> 2 * length vpns"
      "pt_root_ppn pt2 = pt_root_ppn pt" "pt_frames pt2 = pt_frames pt1 @ map frame1 fs2"
      "mem_step (used \<union> insert f (set fs)) km1 km2 (?nodes \<union> set fs \<union> set gs \<union> set fs2) (set gs \<union> set fs2)"
      "pt_ok km2 pt2 (used \<union> insert f (set fs) \<union> set gs \<union> set fs2)"
      "table_nodes (km_ram km2) (pt_root_ppn pt) = ?nodes \<union> set fs \<union> set fs2"
      "translation km2 pt2 = translation km1 pt1 ++ map_of (zip (map vpn_key vpns) (map (\<lambda>g. (g, ma_map_perm a OR PTE_V)) gs))"
      "\<forall>g\<in>set gs. page_bytes km2 g = replicate 4096 0"
      "a2 = a\<lparr>ma_map_type := Framed dfs2\<rparr>" "btree_wf dfs2" "map_of dfs2 = map_of ?dfs ++ map_of (zip vpns (map frame1 gs))"
      "fst ` set dfs2 = fst ` set ?dfs \<union> set vpns"
      "km_arcs km2 = (\<lambda>p. if p \<in> set gs then 1 else if p \<in> old_handles ?dfs vpns then km_arcs km1 p - 1 else km_arcs km1 p)"
    unfolding mapped_pages_def using m(3,7) wf by auto
  have inv: "frames_inv km used" "?nodes \<subseteq> used" "used \<inter> free_ppns km = {}" using ok by (simp_all add: pt_ok_def frames_inv_def)
  have n2: "set gs \<union> set fs2 \<subseteq> free_ppns km1" using 2(7) by (simp add: mem_step_def)
  then have d: "f \<notin> set gs" "f \<notin> set fs2" "set gs \<inter> set fs = {}" using nf(2) by auto
  have step: "mem_step used km km2 (?nodes \<union> set (f # gs) \<union> set (fs @ fs2)) (set (f # gs) \<union> set (fs @ fs2))"
  proof -
    have eq: "insert f (set fs) \<union> (set gs \<union> set fs2) = set (f # gs) \<union> set (fs @ fs2)"
      "(?nodes \<union> insert f (set fs)) \<union> (?nodes \<union> set fs \<union> set gs \<union> set fs2) = ?nodes \<union> set (f # gs) \<union> set (fs @ fs2)" by auto
    show ?thesis using mem_step_trans [OF m(5) 2(7)] unfolding eq .
  qed
  have "page_bytes km2 f = replicate 4096 0"
  proof -
    have "f \<notin> ?nodes" "ppn_ok f" using nf(1) free_ppns_ok [OF inv(1)] inv(2,3) by auto
    then show ?thesis using 2(7) d m(1,9) by (simp add: mem_step_def)
  qed
  moreover have "translation km2 pt2 = translation km pt ++ map_of (zip (map vpn_key (v # vpns)) (map (\<lambda>g. (g, ma_map_perm a OR PTE_V)) (f # gs)))"
    using map_add_upd_left_zip [of "vpn_key v" "map vpn_key vpns" "map (\<lambda>g. (g, ma_map_perm a OR PTE_V)) gs" "translation km pt"
        "(f, ma_map_perm a OR PTE_V)"] v(2) 2(1) unfolding 2(10) m(8) by simp
  moreover have "map_of dfs2 = map_of dfs ++ map_of (zip (v # vpns) (map frame1 (f # gs)))"
    using map_add_upd_left_zip [of v vpns "map frame1 gs" "map_of dfs" "frame1 f"] v(1) 2(1) wf unfolding 2(14) by simp
  moreover have "km_arcs km2 = (\<lambda>p. if p \<in> set (f # gs) then 1 else if p \<in> old_handles dfs (v # vpns) then km_arcs km p - 1 else km_arcs km p)"
  proof
    fix p
    have olds: "old_handles ?dfs vpns = old_handles dfs vpns"
      "old_handles dfs (v # vpns) = old_handles dfs vpns \<union> {ft_ppn ft | ft. map_of dfs v = Some ft}"
      using v(1) wf by (auto simp: old_handles_def)
    have "f \<notin> old_handles dfs (v # vpns)" "\<And>ft. map_of dfs v = Some ft \<Longrightarrow> ft_ppn ft \<notin> old_handles dfs vpns"
      "old_handles dfs (v # vpns) \<inter> set gs = {}"
      using old nf n2 unfolding old_handles_def by fastforce+
    then show "km_arcs km2 p = (if p \<in> set (f # gs) then 1 else if p \<in> old_handles dfs (v # vpns) then km_arcs km p - 1 else km_arcs km p)"
      using d(1) unfolding 2(16) m(10) olds by (cases "map_of dfs v") (auto simp: arcs_replace_def)
  qed
  ultimately show ?thesis
    unfolding mapped_pages_def using 2 m d step a wf by (auto simp: insert_commute Un_assoc Un_commute Un_left_commute)
qed

lemma map_pages_framed:
  assumes "pt_ok km pt used" "ma_map_type a = Framed dfs" "btree_wf dfs" "distinct (map vpn_key vpns)"
    "\<forall>v\<in>set vpns. translation km pt (vpn_key v) = None" "3 * length vpns \<le> card (free_ppns km)" "olds_ok km dfs vpns"
  shows "\<exists>gs fs km' pt' a'. map_pages km a pt vpns = Some (a', pt', km') \<and> mapped_pages used km pt a vpns gs fs km' pt' a'"
  using assms
proof (induction vpns arbitrary: km pt a dfs used)
  case Nil
  then have "mapped_pages used km pt a [] [] [] km pt a"
    using mem_step_mono [OF mem_step_refl] Nil.prems(2)
    by (cases a) (auto simp: mapped_pages_def pt_ok_def old_handles_def)
  then show ?case by (intro exI) auto
next
  case (Cons v vpns)
  have inv: "frames_inv km used" using Cons.prems(1) by (simp add: pt_ok_def)
  have "translation km pt (vpn_key v) = None" "3 \<le> card (free_ppns km)" "old_shared km (map_of dfs v)"
    using Cons.prems by (simp_all add: olds_ok_def)
  from map_one_framed [OF Cons.prems(1,2) this] obtain f fs km1 pt1 where
    m: "MapArea_map_one km a pt v = Some (a\<lparr>ma_map_type := Framed (btree_insert v (frame1 f) dfs)\<rparr>, pt1, km1)"
      "f \<notin> set fs" "length fs \<le> 2" "pt_root_ppn pt1 = pt_root_ppn pt" "pt_frames pt1 = pt_frames pt @ map frame1 fs"
      "mem_step used km km1 (table_nodes (km_ram km) (pt_root_ppn pt) \<union> insert f (set fs)) (insert f (set fs))"
      "pt_ok km1 pt1 (used \<union> insert f (set fs))"
      "table_nodes (km_ram km1) (pt_root_ppn pt) = table_nodes (km_ram km) (pt_root_ppn pt) \<union> set fs"
      "translation km1 pt1 = (translation km pt)(vpn_key v \<mapsto> (f, ma_map_perm a OR PTE_V))"
      "page_bytes km1 f = replicate 4096 0" "km_arcs km1 = arcs_replace (km_arcs km) f (map_of dfs v)" .
  let ?a = "a\<lparr>ma_map_type := Framed (btree_insert v (frame1 f) dfs)\<rparr>" and ?dfs = "btree_insert v (frame1 f) dfs"
  have nf: "insert f (set fs) \<subseteq> free_ppns km" "free_ppns km1 = free_ppns km - insert f (set fs)" using m(6) by (simp_all add: mem_step_def)
  have v: "v \<notin> set vpns" "vpn_key v \<notin> vpn_key ` set vpns" using Cons.prems(4) by auto
  have "card (insert f (set fs)) \<le> 3"
    using m(3) card_insert_le_m1 [of 3 "set fs" f] card_length [of fs] by simp
  then have c: "3 * length vpns \<le> card (free_ppns km1)"
    using Cons.prems(6) card_Diff_subset [OF finite_subset [OF nf(1) finite_free_ppns [OF inv]] nf(1)] nf(2) by simp
  have tr: "\<forall>w\<in>set vpns. translation km1 pt1 (vpn_key w) = None"
  proof
    fix w assume w: "w \<in> set vpns"
    then have "vpn_key w \<noteq> vpn_key v" using v(2) by (metis imageI)
    then show "translation km1 pt1 (vpn_key w) = None" using Cons.prems(5) w m(9) by simp
  qed
  have olds: "olds_ok km1 ?dfs vpns"
  proof -
    have "map_of ?dfs w = map_of dfs w" if "w \<in> set vpns" for w using that v Cons.prems(3) by auto
    moreover have "old_shared km1 (map_of dfs w)" if w: "w \<in> set vpns" for w
    proof (cases "map_of dfs w")
      case (Some ft)
      have "2 \<le> km_arcs km (ft_ppn ft)" "ft_ppn ft \<notin> free_ppns km" using Cons.prems(7) w Some by (auto simp: olds_ok_def old_shared_def)
      moreover have "ft_ppn ft \<noteq> ft_ppn ft'" if "map_of dfs v = Some ft'" for ft'
        using Cons.prems(7) w Some that v(1) unfolding olds_ok_def by (metis list.set_intros)
      ultimately show ?thesis using Some nf m(11) by (auto simp: old_shared_def arcs_replace_def split: option.splits)
    qed (simp add: old_shared_def)
    ultimately show ?thesis using Cons.prems(7) unfolding olds_ok_def by (metis list.set_intros(2))
  qed
  have "distinct (map vpn_key vpns)" "ma_map_type ?a = Framed ?dfs" "btree_wf ?dfs" using Cons.prems by simp_all
  from Cons.IH [OF m(7) this(2,3,1) tr c olds] obtain gs fs2 km2 pt2 a2 where
    r: "map_pages km1 ?a pt1 vpns = Some (a2, pt2, km2)" and mp: "mapped_pages (used \<union> insert f (set fs)) km1 pt1 ?a vpns gs fs2 km2 pt2 a2" by blast
  have o1: "ft_ppn ft \<notin> free_ppns km" if "w \<in> set (v # vpns)" "map_of dfs w = Some ft" for w ft
    using Cons.prems(7) that by (fastforce simp: olds_ok_def old_shared_def)
  have o2: "ft_ppn ft \<noteq> ft_ppn ft'" if "w \<in> set vpns" "map_of dfs w = Some ft" "map_of dfs v = Some ft'" for w ft ft'
    using Cons.prems(7) that v(1) unfolding olds_ok_def by (metis list.set_intros)
  have "mapped_pages used km pt a (v # vpns) (f # gs) (fs @ fs2) km2 pt2 a2"
    using mapped_pages_Cons [OF Cons.prems(1,2) m(2-11) nf v Cons.prems(3) mp o1 o2] .
  moreover have "map_pages km a pt (v # vpns) = Some (a2, pt2, km2)" using m(1) r by simp
  ultimately show ?case by blast
qed

section \<open>Ranges of pages\<close>

lemma vpn_range_sorted: "sorted_wrt (<) (vpn_range s e)"
proof -
  obtain m n where mn: "s = VirtPageNum m" "e = VirtPageNum n" by (cases s, cases e)
  have "VirtPageNum (word_of_nat a) < VirtPageNum (word_of_nat b)" if "a < b" "b < unat n" for a b
    using that unsigned_less [of n, where 'a = nat] by (simp add: less_VirtPageNum_def word_less_nat_alt unat_of_nat take_bit_nat_eq_self)
  moreover have "sorted_wrt (<) [unat m ..< unat n]" by simp
  ultimately show ?thesis unfolding mn vpn_range.simps sorted_wrt_map
    by (elim sorted_wrt_mono_rel [rotated]) auto
qed

lemma strict_sorted_eq:
  fixes xs ys :: "'a :: linorder list"
  assumes "sorted_wrt (<) xs" "sorted_wrt (<) ys" "set xs = set ys"
  shows "xs = ys"
  using assms by (intro sorted_distinct_set_unique) (simp_all add: strict_sorted_iff)

lemma vpn_range_append: "s \<le> m \<Longrightarrow> m \<le> e \<Longrightarrow> vpn_range s e = vpn_range s m @ vpn_range m e"
  by (intro strict_sorted_eq) (auto simp: vpn_range_sorted sorted_wrt_append set_vpn_range)

lemma length_vpn_range: "length (vpn_range s e) = unat (vpn_val e) - unat (vpn_val s)"
  by (cases s; cases e) simp

lemma map_of_list_eq:
  assumes "map fst xs = map fst ys" "distinct (map fst xs)" "map_of xs = map_of ys"
  shows "xs = ys"
proof (rule nth_equalityI)
  show len: "length xs = length ys" using arg_cong [OF assms(1), of length] by simp
  fix i assume i: "i < length xs"
  have "fst (xs ! i) = fst (ys ! i)" using arg_cong [OF assms(1), of "\<lambda>l. l ! i"] i len by simp
  moreover have "map_of xs (fst (xs ! i)) = Some (snd (xs ! i))" "map_of ys (fst (ys ! i)) = Some (snd (ys ! i))"
    using assms(1,2) i len nth_mem by (auto intro!: map_of_is_SomeI)
  ultimately show "xs ! i = ys ! i" using assms(3) by (simp add: prod_eq_iff)
qed

text \<open>The pages of the lower half: their numbers are the keys of the table.\<close>

abbreviation USER_PAGES :: usize where "USER_PAGES \<equiv> 0x4000000"

lemma user_key: "vpn_val v < USER_PAGES \<Longrightarrow> vpn_key v = vpn_val v"
  by (simp add: vpn_key_def word_unat_eq_iff unsigned_take_bit_eq take_bit_nat_eq_self word_less_nat_alt)

section \<open>Well-formed address spaces\<close>

text \<open>The frames behind the kernel image.\<close>

definition ram_ppn :: "PhysPageNum \<Rightarrow> bool" where
  "ram_ppn p \<longleftrightarrow> 0x80200 \<le> ppn_val p \<and> ppn_val p < 0x88000"

lemma ram_ppn_phys: "ram_ppn p \<Longrightarrow> phys_ok p"
  by (simp add: ram_ppn_def phys_ok_def)

lemma free_ram:
  assumes "frames_inv km used" "ppn \<in> free_ppns km"
  shows "ram_ppn ppn"
proof -
  from assms obtain f where f: "ppn = PhysPageNum (word_of_nat (f + begin_nat (km_syms km)))"
    "f < nframes (km_syms km)" and syms: "syms_ok (km_syms km)"
    using buddy_free_bound by (auto simp: frames_inv_def free_ppns_def)
  have "0x80200 \<le> ppn_val ppn"
    unfolding f PhysPageNum.sel word_le_nat_alt ppn_of_frame(1) [OF syms f(2)] using begin_bounds [OF syms] by simp
  then show ?thesis using free_phys [OF assms] by (simp add: ram_ppn_def phys_ok_def)
qed

definition area_frames :: "MapArea \<Rightarrow> PhysPageNum list" where
  "area_frames a = (case ma_map_type a of Framed dfs \<Rightarrow> map (\<lambda>(v, ft). ft_ppn ft) dfs | Linear _ \<Rightarrow> [])"

text \<open>
  A segment of the lower half: it has one frame for each of its pages, which is not shared, and
  the table maps the page onto it.
\<close>

definition area_ok :: "kernel_mem \<Rightarrow> PageTable \<Rightarrow> MapArea \<Rightarrow> bool" where
  "area_ok km pt a \<longleftrightarrow> vpn_val (ma_end a) \<le> USER_PAGES \<and> (\<exists>dfs. ma_map_type a = Framed dfs \<and> map fst dfs = ma_range a
     \<and> (\<forall>(v, ft)\<in>set dfs. ft_num ft = 1 \<and> km_arcs km (ft_ppn ft) = 1
          \<and> translation km pt (vpn_key v) = Some (ft_ppn ft, ma_map_perm a OR PTE_V)))"

definition areas_pages :: "(VirtPageNum \<times> MapArea) list \<Rightarrow> VirtPageNum list" where
  "areas_pages areas = concat (map (\<lambda>(k, a). ma_range a) areas)"

lemma areas_pages_simps [simp]: "areas_pages [] = []" "areas_pages ((k, a) # areas) = ma_range a @ areas_pages areas"
  by (simp_all add: areas_pages_def)

definition areas_frames :: "(VirtPageNum \<times> MapArea) list \<Rightarrow> PhysPageNum list" where
  "areas_frames areas = concat (map (\<lambda>(k, a). area_frames a) areas)"

lemma areas_frames_simps [simp]: "areas_frames [] = []" "areas_frames ((k, a) # areas) = area_frames a @ areas_frames areas"
  by (simp_all add: areas_frames_def)

lemma areas_append [simp]: "areas_pages (us @ vs) = areas_pages us @ areas_pages vs" "areas_frames (us @ vs) = areas_frames us @ areas_frames vs"
  by (simp_all add: areas_pages_def areas_frames_def)

lemma areas_mem: "(k, a) \<in> set areas \<Longrightarrow> set (area_frames a) \<subseteq> set (areas_frames areas)"
  "(k, a) \<in> set areas \<Longrightarrow> set (ma_range a) \<subseteq> set (areas_pages areas)"
  by (auto simp: areas_pages_def areas_frames_def)

lemma areas_page_area: "v \<in> set (areas_pages areas) \<Longrightarrow> \<exists>k a. (k, a) \<in> set areas \<and> v \<in> set (ma_range a)"
  by (auto simp: areas_pages_def)

definition ms_pages :: "MemorySet \<Rightarrow> VirtPageNum list" where
  "ms_pages ms = areas_pages (ms_areas ms)"

definition ms_frames :: "MemorySet \<Rightarrow> PhysPageNum list" where
  "ms_frames ms = areas_frames (ms_areas ms)"

definition areas_ok :: "kernel_mem \<Rightarrow> PageTable \<Rightarrow> (VirtPageNum \<times> MapArea) list \<Rightarrow> bool" where
  "areas_ok km pt areas \<longleftrightarrow> btree_wf areas \<and> (\<forall>(k, a)\<in>set areas. k = ma_start a \<and> area_ok km pt a)"

definition ms_ok :: "kernel_mem \<Rightarrow> MemorySet \<Rightarrow> PhysPageNum set \<Rightarrow> bool" where
  "ms_ok km ms used \<longleftrightarrow> pt_ok km (ms_page_table ms) used \<and> areas_ok km (ms_page_table ms) (ms_areas ms)
     \<and> distinct (ms_pages ms) \<and> distinct (ms_frames ms) \<and> set (ms_frames ms) \<subseteq> used \<inter> Collect ram_ppn
     \<and> set (ms_frames ms) \<inter> table_nodes (km_ram km) (pt_root_ppn (ms_page_table ms)) = {}
     \<and> (\<forall>key < USER_PAGES. translation km (ms_page_table ms) key \<noteq> None \<longrightarrow> VirtPageNum key \<in> set (ms_pages ms))"

text \<open>What a process sees of the lower half: the bytes of each page and its permissions.\<close>

definition space_view :: "kernel_mem \<Rightarrow> MemorySet \<Rightarrow> usize \<Rightarrow> (u8 list \<times> PTEFlags) option" where
  "space_view km ms key = (if key < USER_PAGES
     then map_option (\<lambda>(p, fl). (page_bytes km p, fl)) (translation km (ms_page_table ms) key) else None)"

lemma area_ok_cong:
  assumes "area_ok km pt a" "\<And>p. p \<in> set (area_frames a) \<Longrightarrow> km_arcs km' p = km_arcs km p"
    "\<And>v. v \<in> set (ma_range a) \<Longrightarrow> translation km' pt' (vpn_key v) = translation km pt (vpn_key v)"
  shows "area_ok km' pt' a"
proof -
  from assms(1) obtain dfs where d: "vpn_val (ma_end a) \<le> USER_PAGES" "ma_map_type a = Framed dfs" "map fst dfs = ma_range a"
    "\<forall>(v, ft)\<in>set dfs. ft_num ft = 1 \<and> km_arcs km (ft_ppn ft) = 1 \<and> translation km pt (vpn_key v) = Some (ft_ppn ft, ma_map_perm a OR PTE_V)"
    unfolding area_ok_def by blast
  have "ft_ppn ft \<in> set (area_frames a)" "v \<in> set (ma_range a)" if "(v, ft) \<in> set dfs" for v ft
    using that d(2) arg_cong [OF d(3), of set] by (force simp: area_frames_def)+
  with d assms(2,3) show ?thesis unfolding area_ok_def by fastforce
qed

lemma area_frame_of:
  assumes "area_ok km pt a" "v \<in> set (ma_range a)"
  obtains f where "translation km pt (vpn_key v) = Some (f, ma_map_perm a OR PTE_V)" "f \<in> set (area_frames a)" "vpn_val v < USER_PAGES"
proof -
  from assms(1) obtain dfs where d: "vpn_val (ma_end a) \<le> USER_PAGES" "ma_map_type a = Framed dfs" "map fst dfs = ma_range a"
    "\<forall>(v, ft)\<in>set dfs. ft_num ft = 1 \<and> km_arcs km (ft_ppn ft) = 1 \<and> translation km pt (vpn_key v) = Some (ft_ppn ft, ma_map_perm a OR PTE_V)"
    unfolding area_ok_def by blast
  from assms(2) obtain ft where "(v, ft) \<in> set dfs" unfolding d(3) [symmetric] by auto
  moreover have "vpn_val v < USER_PAGES" using assms(2) d(1) by (auto simp: set_vpn_range less_VirtPageNum_def)
  ultimately show ?thesis using that [of "ft_ppn ft"] d(2,4) by (force simp: area_frames_def)
qed

lemma ms_frame_of:
  assumes "ms_ok km ms used" "key < USER_PAGES" "translation km (ms_page_table ms) key = Some (p, fl)"
  shows "p \<in> set (ms_frames ms)"
proof -
  have "VirtPageNum key \<in> set (ms_pages ms)" using assms by (auto simp: ms_ok_def)
  then obtain k a where a: "(k, a) \<in> set (ms_areas ms)" "VirtPageNum key \<in> set (ma_range a)"
    using areas_page_area [of "VirtPageNum key" "ms_areas ms"] by (auto simp: ms_pages_def)
  then have "area_ok km (ms_page_table ms) a" using assms(1) by (auto simp: ms_ok_def areas_ok_def)
  from area_frame_of [OF this a(2)] obtain f where
    "translation km (ms_page_table ms) (vpn_key (VirtPageNum key)) = Some (f, ma_map_perm a OR PTE_V)" "f \<in> set (area_frames a)" by blast
  then show ?thesis using assms(2,3) areas_mem(1) [OF a(1)] user_key [of "VirtPageNum key"] by (auto simp: ms_frames_def)
qed

lemma ms_frame_ok: "ms_ok km ms used \<Longrightarrow> p \<in> set (ms_frames ms) \<Longrightarrow> ppn_ok p"
  using phys_ok_ppn ram_ppn_phys by (auto simp: ms_ok_def)

lemma btree_insert_new:
  assumes "btree_wf xs" "k \<notin> fst ` set xs"
  obtains us vs where "xs = us @ vs" "btree_insert k v xs = us @ (k, v) # vs"
proof -
  have "\<exists>us vs. xs = us @ vs \<and> btree_insert k v xs = us @ (k, v) # vs" using assms
  proof (induction xs)
    case (Cons x xs)
    obtain k' v' where x: "x = (k', v')" by (cases x)
    show ?case
    proof (cases "k < k'")
      case True
      then show ?thesis using x by (intro exI [of _ "[]"] exI [of _ "x # xs"]) simp
    next
      case False
      from Cons obtain us vs where "xs = us @ vs" "btree_insert k v xs = us @ (k, v) # vs" by (auto simp: btree_wf_def)
      then show ?thesis using x False Cons.prems(2) by (intro exI [of _ "x # us"] exI [of _ vs]) auto
    qed
  qed simp
  then show ?thesis using that by blast
qed

lemma btree_insert_old:
  assumes "btree_wf xs" "map_of xs k = Some v0"
  obtains us vs where "xs = us @ (k, v0) # vs" "btree_insert k v xs = us @ (k, v) # vs"
proof -
  have "\<exists>us vs. xs = us @ (k, v0) # vs \<and> btree_insert k v xs = us @ (k, v) # vs" using assms
  proof (induction xs)
    case (Cons x xs)
    obtain k' v' where x: "x = (k', v')" by (cases x)
    show ?case
    proof (cases "k = k'")
      case True
      then show ?thesis using x Cons.prems(2) by (intro exI [of _ "[]"] exI [of _ xs]) simp
    next
      case False
      with Cons x obtain us vs where "xs = us @ (k, v0) # vs" "btree_insert k v xs = us @ (k, v) # vs" by (auto simp: btree_wf_def)
      moreover have "k' < k" using Cons.prems x False by (fastforce simp: btree_wf_def dest: map_of_SomeD)
      ultimately show ?thesis using x by (intro exI [of _ "x # us"] exI [of _ vs]) auto
    qed
  qed simp
  then show ?thesis using that by blast
qed

section \<open>Adding a segment\<close>

lemma zip_tracker_frames: "length gs = length vs \<Longrightarrow> map (\<lambda>(v, ft). ft_ppn ft) (zip vs (map frame1 gs)) = gs"
  by (induction gs vs rule: list_induct2) simp_all

lemma mapped_area_frames:
  assumes "ma_map_type a = Framed dfs" "btree_wf dfs" "fst ` set dfs \<subseteq> set (ma_range a)"
    "mapped_pages used km pt a (ma_range a) gs fs km' pt' a'"
  shows "a' = a\<lparr>ma_map_type := Framed (zip (ma_range a) (map frame1 gs))\<rparr>" "area_frames a' = gs"
proof -
  from assms obtain dfs' where d: "a' = a\<lparr>ma_map_type := Framed dfs'\<rparr>" "btree_wf dfs'"
    "map_of dfs' = map_of dfs ++ map_of (zip (ma_range a) (map frame1 gs))" "fst ` set dfs' = fst ` set dfs \<union> set (ma_range a)"
    "length gs = length (ma_range a)" unfolding mapped_pages_def by auto
  have keys: "map fst dfs' = ma_range a"
    using d(2,4) assms(3) by (intro strict_sorted_eq vpn_range_sorted) (auto simp: btree_wf_def)
  moreover have "map_of dfs' = map_of (zip (ma_range a) (map frame1 gs))"
  proof
    fix v
    have "map_of dfs v = None" if "map_of (zip (ma_range a) (map frame1 gs)) v = None"
    proof -
      have "v \<notin> set (ma_range a)" using that map_of_zip_is_None [of "ma_range a" "map frame1 gs" v] d(5) by simp
      then show ?thesis using assms(3) by (auto simp: map_of_eq_None_iff)
    qed
    then show "map_of dfs' v = map_of (zip (ma_range a) (map frame1 gs)) v"
      unfolding d(3) map_add_def by (cases "map_of (zip (ma_range a) (map frame1 gs)) v") simp_all
  qed
  ultimately have "dfs' = zip (ma_range a) (map frame1 gs)"
    using d(5) distinct_vpn_range by (intro map_of_list_eq) simp_all
  then show "a' = a\<lparr>ma_map_type := Framed (zip (ma_range a) (map frame1 gs))\<rparr>" "area_frames a' = gs"
    using d(1,5) zip_tracker_frames by (simp_all add: area_frames_def)
qed

text \<open>The translations after a range of pages of the lower half is mapped.\<close>

lemma user_range_keys:
  assumes "vpn_val e \<le> USER_PAGES"
  shows "map vpn_key (vpn_range s e) = map vpn_val (vpn_range s e)" "distinct (map vpn_key (vpn_range s e))"
    "\<And>v. v \<in> set (vpn_range s e) \<Longrightarrow> vpn_val v < USER_PAGES"
proof -
  show user: "vpn_val v < USER_PAGES" if "v \<in> set (vpn_range s e)" for v
    using that assms by (auto simp: set_vpn_range less_VirtPageNum_def)
  then show keys: "map vpn_key (vpn_range s e) = map vpn_val (vpn_range s e)" using user_key by simp
  show "distinct (map vpn_key (vpn_range s e))"
    unfolding keys using distinct_vpn_range by (simp add: distinct_map inj_on_def VirtPageNum.expand)
qed

lemma mapped_translation:
  assumes mp: "mapped_pages used km pt a (vpn_range s e) gs fs km' pt' a'" and e: "vpn_val e \<le> USER_PAGES"
  shows "\<And>i. i < length gs \<Longrightarrow> translation km' pt' (vpn_key (vpn_range s e ! i)) = Some (gs ! i, ma_map_perm a OR PTE_V)"
    "\<And>key. VirtPageNum key \<notin> set (vpn_range s e) \<Longrightarrow> translation km' pt' key = translation km pt key"
proof -
  note k = user_range_keys [OF e, of s]
  have m: "length gs = length (vpn_range s e)"
      "translation km' pt' = translation km pt ++ map_of (zip (map vpn_key (vpn_range s e)) (map (\<lambda>g. (g, ma_map_perm a OR PTE_V)) gs))"
    using mp by (simp_all add: mapped_pages_def)
  show "translation km' pt' (vpn_key (vpn_range s e ! i)) = Some (gs ! i, ma_map_perm a OR PTE_V)" if "i < length gs" for i
    using that m(1) map_of_zip_nth [of "map vpn_key (vpn_range s e)" "map (\<lambda>g. (g, ma_map_perm a OR PTE_V)) gs" i] k(2)
    unfolding m(2) by (simp add: map_add_def)
  show "translation km' pt' key = translation km pt key" if "VirtPageNum key \<notin> set (vpn_range s e)" for key
  proof -
    have "key \<notin> set (map vpn_key (vpn_range s e))" unfolding k(1) using that by (auto simp: image_iff)
    then have "map_of (zip (map vpn_key (vpn_range s e)) (map (\<lambda>g. (g, ma_map_perm a OR PTE_V)) gs)) key = None"
      using m(1) by (simp add: map_of_zip_is_None)
    then show ?thesis unfolding m(2) by (simp add: map_add_def)
  qed
qed

lemma mapped_space_view:
  assumes ok: "ms_ok km ms used" and mp: "mapped_pages used km (ms_page_table ms) a (vpn_range s e) gs fs km' pt' a'"
    and e: "vpn_val e \<le> USER_PAGES" and pt: "ms_page_table ms' = pt'"
  shows "space_view km' ms' = (\<lambda>key. if VirtPageNum key \<in> set (vpn_range s e) then Some (replicate 4096 0, ma_map_perm a OR PTE_V) else space_view km ms key)"
proof
  fix key
  note t = mapped_translation [OF mp e]
  have m: "length gs = length (vpn_range s e)" "\<forall>g\<in>set gs. page_bytes km' g = replicate 4096 0"
    "mem_step used km km' (table_nodes (km_ram km) (pt_root_ppn (ms_page_table ms)) \<union> set gs \<union> set fs) (set gs \<union> set fs)"
    using mp by (simp_all add: mapped_pages_def)
  show "space_view km' ms' key = (if VirtPageNum key \<in> set (vpn_range s e) then Some (replicate 4096 0, ma_map_perm a OR PTE_V) else space_view km ms key)"
  proof (cases "VirtPageNum key \<in> set (vpn_range s e)")
    case True
    then obtain i where i: "i < length gs" "vpn_range s e ! i = VirtPageNum key" using m(1) by (metis in_set_conv_nth)
    have key: "key < USER_PAGES" "vpn_key (VirtPageNum key) = key"
      using user_range_keys(3) [OF e True] user_key [of "VirtPageNum key"] by simp_all
    have "translation km' pt' key = Some (gs ! i, ma_map_perm a OR PTE_V)" using t(1) [OF i(1)] i(2) key(2) by simp
    then show ?thesis using True key(1) m(2) i(1) nth_mem by (simp add: space_view_def pt)
  next
    case False
    have "page_bytes km' p = page_bytes km p" if "key < USER_PAGES" "translation km (ms_page_table ms) key = Some (p, fl)" for p fl
    proof -
      have p: "p \<in> set (ms_frames ms)" using ms_frame_of [OF ok that] .
      have "(set gs \<union> set fs) \<inter> used = {}" using m(3) ok by (auto simp: mem_step_def ms_ok_def pt_ok_def frames_inv_def)
      then have "p \<notin> table_nodes (km_ram km) (pt_root_ppn (ms_page_table ms)) \<union> set gs \<union> set fs" using p ok by (auto simp: ms_ok_def)
      then show ?thesis using m(3) ms_frame_ok [OF ok p] by (simp add: mem_step_def)
    qed
    then show ?thesis using False t(2) [OF False] by (cases "translation km (ms_page_table ms) key") (auto simp: space_view_def pt)
  qed
qed

text \<open>
  The segments \<^term>\<open>mid\<close> (none, or one that grows) are replaced by a segment with the new pages.
\<close>

lemma ms_grow:
  assumes ok: "ms_ok km ms used" and mp: "mapped_pages used km (ms_page_table ms) a (vpn_range s e) gs fs km' pt' a1"
    and e: "vpn_val e \<le> USER_PAGES" and new: "set (vpn_range s e) \<inter> set (ms_pages ms) = {}"
    and a: "ma_map_type a = Framed dfs" "old_handles dfs (vpn_range s e) \<inter> set (ms_frames ms) = {}"
    and areas: "ms_areas ms = us @ mid @ vs" "ms_areas ms' = us @ (k, a') # vs" "ms_page_table ms' = pt'" "btree_wf (ms_areas ms')" "k = ma_start a'"
    and a': "ma_range a' = areas_pages mid @ vpn_range s e" "area_frames a' = areas_frames mid @ gs" "area_ok km' pt' a'"
  shows "ms_ok km' ms' (used \<union> set gs \<union> set fs)" "set (ms_frames ms') = set gs \<union> set (ms_frames ms)"
    "set (ms_pages ms') = set (vpn_range s e) \<union> set (ms_pages ms)"
proof -
  let ?pt = "ms_page_table ms"
  show pages: "set (ms_pages ms') = set (vpn_range s e) \<union> set (ms_pages ms)" and frames: "set (ms_frames ms') = set gs \<union> set (ms_frames ms)"
    by (auto simp: ms_pages_def ms_frames_def areas a')
  have o: "pt_ok km ?pt used" "areas_ok km ?pt (ms_areas ms)" "distinct (ms_pages ms)" "distinct (ms_frames ms)" "set (ms_frames ms) \<subseteq> used \<inter> Collect ram_ppn"
      "set (ms_frames ms) \<inter> table_nodes (km_ram km) (pt_root_ppn ?pt) = {}"
      "\<forall>key < USER_PAGES. translation km ?pt key \<noteq> None \<longrightarrow> VirtPageNum key \<in> set (ms_pages ms)"
    using ok unfolding ms_ok_def by blast+
  from mp have m: "distinct gs" "set gs \<inter> set fs = {}" "pt_root_ppn pt' = pt_root_ppn ?pt"
      "mem_step used km km' (table_nodes (km_ram km) (pt_root_ppn ?pt) \<union> set gs \<union> set fs) (set gs \<union> set fs)"
      "pt_ok km' pt' (used \<union> set gs \<union> set fs)"
      "table_nodes (km_ram km') (pt_root_ppn ?pt) = table_nodes (km_ram km) (pt_root_ppn ?pt) \<union> set fs"
      "km_arcs km' = (\<lambda>p. if p \<in> set gs then 1 else if p \<in> old_handles dfs (vpn_range s e) then km_arcs km p - 1 else km_arcs km p)"
    unfolding mapped_pages_def using a(1) by auto
  note other = mapped_translation(2) [OF mp e]
  have free: "(set gs \<union> set fs) \<inter> used = {}" using m(4) o(1) by (auto simp: mem_step_def pt_ok_def frames_inv_def)
  have fr: "set gs \<inter> set (ms_frames ms) = {}" using free o(5) by auto
  show "ms_ok km' ms' (used \<union> set gs \<union> set fs)"
    unfolding ms_ok_def areas(3)
  proof (intro conjI)
    have "area_ok km' pt' b" if b: "(k, b) \<in> set (ms_areas ms)" for k b
    proof (rule area_ok_cong)
      show "area_ok km ?pt b" using o(2) b by (auto simp: areas_ok_def)
      show "km_arcs km' p = km_arcs km p" if "p \<in> set (area_frames b)" for p
        using that areas_mem(1) [OF b] fr a(2) m(7) by (auto simp: ms_frames_def)
      show "translation km' pt' (vpn_key v) = translation km ?pt (vpn_key v)" if "v \<in> set (ma_range b)" for v
      proof (rule other)
        have "vpn_key v = vpn_val v" using area_frame_of [OF \<open>area_ok km ?pt b\<close> that] user_key by blast
        then show "VirtPageNum (vpn_key v) \<notin> set (vpn_range s e)" using that new areas_mem(2) [OF b] by (auto simp: ms_pages_def)
      qed
    qed
    moreover have "l = ma_start b" if "(l, b) \<in> set us \<union> set vs" for l b using that o(2) areas(1) by (auto simp: areas_ok_def)
    ultimately show "areas_ok km' pt' (ms_areas ms')" using areas a'(3) unfolding areas_ok_def by auto
    show "\<forall>key < USER_PAGES. translation km' pt' key \<noteq> None \<longrightarrow> VirtPageNum key \<in> set (ms_pages ms')"
      unfolding pages using o(7) other by force
    have "set gs \<subseteq> Collect ram_ppn" using m(4) free_ram o(1) by (auto simp: mem_step_def pt_ok_def)
    then show "set (ms_frames ms') \<subseteq> (used \<union> set gs \<union> set fs) \<inter> Collect ram_ppn" using o(5) unfolding frames by blast
    show "set (ms_frames ms') \<inter> table_nodes (km_ram km') (pt_root_ppn pt') = {}"
      using o(1,5,6) m(2) free unfolding frames m(3,6) by (auto simp: pt_ok_def)
    show "distinct (ms_frames ms')" "distinct (ms_pages ms')"
      using o(3,4) m(1) new fr distinct_vpn_range by (auto simp: ms_pages_def ms_frames_def areas a')
  qed (use m(5) in simp)
qed

lemma ms_add_area:
  assumes ok: "ms_ok km ms used" and a: "ma_map_type a = Framed dfs" "btree_wf dfs" "fst ` set dfs \<subseteq> set (ma_range a)"
      "vpn_val (ma_end a) \<le> USER_PAGES"
    and new: "set (ma_range a) \<inter> set (ms_pages ms) = {}" "ma_start a \<notin> fst ` set (ms_areas ms)"
    and olds: "old_handles dfs (ma_range a) \<inter> set (ms_frames ms) = {}"
    and mp: "mapped_pages used km (ms_page_table ms) a (ma_range a) gs fs km' pt' a'"
  defines "ms' \<equiv> ms\<lparr>ms_page_table := pt', ms_areas := btree_insert (ma_start a) a' (ms_areas ms)\<rparr>"
  shows "ms_ok km' ms' (used \<union> set gs \<union> set fs)" "set (ms_frames ms') = set gs \<union> set (ms_frames ms)"
    "set (ms_pages ms') = set (ma_range a) \<union> set (ms_pages ms)"
    "space_view km' ms' = (\<lambda>key. if VirtPageNum key \<in> set (ma_range a) then Some (replicate 4096 0, ma_map_perm a OR PTE_V) else space_view km ms key)"
    "\<And>key. VirtPageNum key \<notin> set (ma_range a) \<Longrightarrow> translation km' (ms_page_table ms') key = translation km (ms_page_table ms) key"
proof -
  note a' = mapped_area_frames [OF a(1-3) mp] and t = mapped_translation [OF mp a(4)]
  have wf: "btree_wf (ms_areas ms)" using ok by (simp add: ms_ok_def areas_ok_def)
  obtain us vs where us: "ms_areas ms = us @ vs" "btree_insert (ma_start a) a' (ms_areas ms) = us @ (ma_start a, a') # vs"
    by (rule btree_insert_new [OF wf new(2), of a'])
  have areas: "ms_areas ms' = us @ (ma_start a, a') # vs" "ms_page_table ms' = pt'" "btree_wf (ms_areas ms')"
    using us(2) btree_wf_insert [OF wf, of "ma_start a" a'] by (simp_all add: ms'_def)
  have range: "ma_range a' = ma_range a" "ma_start a' = ma_start a" "ma_map_perm a' = ma_map_perm a" using a'(1) by simp_all
  have m: "length gs = length (ma_range a)" "\<forall>g\<in>set gs. km_arcs km' g = 1" using mp by (auto simp: mapped_pages_def)
  have area: "area_ok km' pt' a'"
    unfolding area_ok_def
  proof (intro conjI exI [of _ "zip (ma_range a) (map frame1 gs)"])
    show "\<forall>(v, ft)\<in>set (zip (ma_range a) (map frame1 gs)). ft_num ft = 1 \<and> km_arcs km' (ft_ppn ft) = 1
        \<and> translation km' pt' (vpn_key v) = Some (ft_ppn ft, ma_map_perm a' OR PTE_V)"
      using t(1) m range(3) by (auto simp: set_zip)
  qed (use a(4) a'(1) m(1) in simp_all)
  have "ms_areas ms = us @ [] @ vs" "ma_start a = ma_start a'" "ma_range a' = areas_pages [] @ ma_range a" "area_frames a' = areas_frames [] @ gs"
    using us(1) range a'(2) by (simp_all del: vpn_range.simps)
  note g = ms_grow [OF ok mp a(4) new(1) a(1) olds this(1) areas this(2-4) area]
  show "ms_ok km' ms' (used \<union> set gs \<union> set fs)" "set (ms_frames ms') = set gs \<union> set (ms_frames ms)"
    "set (ms_pages ms') = set (ma_range a) \<union> set (ms_pages ms)" using g .
  show "space_view km' ms' = (\<lambda>key. if VirtPageNum key \<in> set (ma_range a) then Some (replicate 4096 0, ma_map_perm a OR PTE_V) else space_view km ms key)"
    using mapped_space_view [OF ok mp a(4) areas(2)] .
  show "translation km' (ms_page_table ms') key = translation km (ms_page_table ms) key" if "VirtPageNum key \<notin> set (ma_range a)" for key
    using t(2) [OF that] areas(2) by simp
qed

text \<open>A new segment on frames of its own.\<close>

lemma user_range_unmapped:
  assumes "ms_ok km ms used" "vpn_val e \<le> USER_PAGES" "set (vpn_range s e) \<inter> set (ms_pages ms) = {}"
  shows "distinct (map vpn_key (vpn_range s e))" "\<forall>v\<in>set (vpn_range s e). translation km (ms_page_table ms) (vpn_key v) = None"
proof -
  note user = user_range_keys(3) [OF assms(2)]
  show "distinct (map vpn_key (vpn_range s e))" using user_range_keys(2) [OF assms(2)] .
  show "\<forall>v\<in>set (vpn_range s e). translation km (ms_page_table ms) (vpn_key v) = None"
  proof
    fix v assume v: "v \<in> set (vpn_range s e)"
    then have "v \<notin> set (ms_pages ms)" using assms(3) by blast
    moreover have "VirtPageNum (vpn_val v) = v" by simp
    ultimately show "translation km (ms_page_table ms) (vpn_key v) = None"
      using assms(1) user [OF v] user_key [OF user [OF v]] unfolding ms_ok_def by metis
  qed
qed

lemma insert_framed_area_ok:
  assumes ok: "ms_ok km ms used" and e: "vpn_val e \<le> USER_PAGES" "set (vpn_range s e) \<inter> set (ms_pages ms) = {}" "s \<notin> fst ` set (ms_areas ms)"
    and free: "3 * length (vpn_range s e) \<le> card (free_ppns km)"
  obtains ms' km' N where "MemorySet_insert_framed_area km ms s e perm = Some (ms', km')" "ms_ok km' ms' (used \<union> N)"
    "mem_step used km km' (table_nodes (km_ram km) (pt_root_ppn (ms_page_table ms)) \<union> N) N" "card N \<le> 3 * length (vpn_range s e)"
    "set (ms_frames ms) \<subseteq> set (ms_frames ms')" "set (ms_frames ms') \<subseteq> set (ms_frames ms) \<union> N"
    "set (ms_pages ms') = set (vpn_range s e) \<union> set (ms_pages ms)"
    "space_view km' ms' = (\<lambda>key. if VirtPageNum key \<in> set (vpn_range s e) then Some (replicate 4096 0, perm OR PTE_V) else space_view km ms key)"
    "\<exists>a'. ms_areas ms' = btree_insert s a' (ms_areas ms) \<and> ma_start a' = s \<and> ma_end a' = e \<and> ma_map_perm a' = perm"
proof -
  define a where "a = \<lparr>ma_start = s, ma_end = e, ma_map_type = Framed [], ma_map_perm = perm\<rparr>"
  have a: "ma_map_type a = Framed []" "ma_start a = s" "ma_end a = e" "ma_map_perm a = perm" by (simp_all add: a_def)
  note u = user_range_unmapped [OF ok e(1,2)]
  have pt: "pt_ok km (ms_page_table ms) used" using ok by (simp add: ms_ok_def)
  have "olds_ok km [] (vpn_range s e)" by (simp add: olds_ok_def old_shared_def)
  from map_pages_framed [OF pt a(1) btree_wf_Nil u free this] obtain gs fs km' pt' a' where
    m: "map_pages km a (ms_page_table ms) (vpn_range s e) = Some (a', pt', km')"
      "mapped_pages used km (ms_page_table ms) a (vpn_range s e) gs fs km' pt' a'" by blast
  have start: "ma_start a' = s" "ma_end a' = e" "ma_map_perm a' = perm" using m(2) a by (auto simp: mapped_pages_def)
  have "old_handles [] (vpn_range s e) \<inter> set (ms_frames ms) = {}" by (simp add: old_handles_def)
  note r = ms_add_area [OF ok a(1) btree_wf_Nil, unfolded a(2-4), OF _ e this m(2), simplified]
  let ?ms = "ms\<lparr>ms_page_table := pt', ms_areas := btree_insert s a' (ms_areas ms)\<rparr>"
  have "MemorySet_insert_framed_area km ms s e perm = Some (?ms, km')"
  proof -
    have "map_of (ms_areas ms) s = None" using e(3) by (simp add: map_of_eq_None_iff)
    then show ?thesis using m(1) start(1)
      by (simp add: MemorySet_insert_framed_area_def MemorySet_push_def MapArea_map_def MapType_new_framed_def a_def [symmetric] a Let_def)
  qed
  moreover have "card (set gs \<union> set fs) \<le> 3 * length (vpn_range s e)"
    using m(2) card_Un_le [of "set gs" "set fs"] card_length [of gs] card_length [of fs] by (auto simp: mapped_pages_def)
  moreover have "mem_step used km km' (table_nodes (km_ram km) (pt_root_ppn (ms_page_table ms)) \<union> (set gs \<union> set fs)) (set gs \<union> set fs)"
    using m(2) by (simp add: mapped_pages_def Un_assoc)
  ultimately show ?thesis using that [of ?ms km' "set gs \<union> set fs"] r start by (auto simp: Un_assoc)
qed

section \<open>Copying bytes into pages\<close>

lemma ram_write_page:
  assumes "unat off + length bs \<le> 4096" "ppn_ok p" "ppn_ok q"
  shows "page_bytes (km\<lparr>km_ram := ram_write (km_ram km) (page_addr q + off) bs\<rparr>) p
    = (if p = q then overwrite (page_bytes km q) (unat off) bs else page_bytes km p)"
proof -
  have at: "ram_write (km_ram km) (page_addr q + off) bs (page_addr p + word_of_nat i)
      = (if p = q \<and> unat off \<le> i \<and> i < unat off + length bs then bs ! (i - unat off) else km_ram km (page_addr p + word_of_nat i))"
    if i: "i < 4096" for i
  proof -
    define d where "d = page_addr p + word_of_nat i - (page_addr q + off)"
    have ui: "unat (word_of_nat i :: usize) = i" using i by (simp add: unat_of_nat take_bit_nat_eq_self)
    have "p = q \<and> unat off \<le> i \<and> i < unat off + length bs \<and> unat d = i - unat off" if d: "unat d < length bs"
    proof -
      have sum: "unat (off + d) = unat off + unat d" using d assms(1) by (intro unat_add_lem [THEN iffD1]) simp
      have "page_addr q + (off + d) = page_addr p + word_of_nat i" by (simp add: d_def)
      moreover have "off + d < 4096" unfolding word_less_nat_alt sum using d assms(1) by simp
      moreover have "word_of_nat i < (4096 :: usize)" unfolding word_less_nat_alt ui using i by simp
      ultimately have "q = p \<and> off + d = word_of_nat i" by (intro page_addr_eqD assms)
      then have "q = p" "unat (off + d) = unat (word_of_nat i :: usize)" by simp_all
      then have "q = p" "i = unat off + unat d" using sum ui by linarith+
      with d show ?thesis by simp
    qed
    moreover have "unat d < length bs" if "p = q" "unat off \<le> i" "i < unat off + length bs"
    proof -
      have "d = word_of_nat i - off" using that(1) by (simp add: d_def)
      moreover have "off \<le> word_of_nat i" using that(2) ui by (simp add: word_le_nat_alt)
      ultimately have "unat d = i - unat off" using ui by (simp add: unat_sub)
      with that show ?thesis by simp
    qed
    ultimately show ?thesis unfolding ram_write_def d_def [symmetric] by auto
  qed
  have len: "length (if p = q then overwrite (page_bytes km q) (unat off) bs else page_bytes km p) = 4096" using assms(1) by simp
  show ?thesis
  proof (rule nth_equalityI)
    fix i assume "i < length (page_bytes (km\<lparr>km_ram := ram_write (km_ram km) (page_addr q + off) bs\<rparr>) p)"
    then have i: "i < 4096" by simp
    show "page_bytes (km\<lparr>km_ram := ram_write (km_ram km) (page_addr q + off) bs\<rparr>) p ! i
        = (if p = q then overwrite (page_bytes km q) (unat off) bs else page_bytes km p) ! i"
      using at [OF i] i assms(1) by (cases "p = q") (simp_all add: nth_overwrite, simp_all add: page_bytes_def ram_read_def)
  qed (simp add: len)
qed

lemma page_write:
  assumes "length bs = 4096" "ppn_ok p" "ppn_ok q"
  shows "page_bytes (km\<lparr>km_ram := ram_write (km_ram km) (page_addr q) bs\<rparr>) p = (if p = q then bs else page_bytes km p)"
  using ram_write_page [of 0 bs p q km] assms by (simp add: overwrite_def)

text \<open>Copying the pages \<^term>\<open>vpns\<close> of one space, on the frames \<^term>\<open>P\<close>, to the frames \<^term>\<open>Q\<close> of another.\<close>

lemma translate_Some:
  assumes "pt_ok km pt used" "translation km pt (vpn_key v) = Some (p, fl)"
  shows "PageTable_translate km pt v = Some (Some p)"
  using assms(2) by (auto simp: PageTable_translate_def translation_key split: option.splits)

lemma copy_pages_ok:
  assumes "pt_ok km (ms_page_table src) used" "pt_ok km (ms_page_table dst) used" "distinct vpns"
    "\<forall>v\<in>set vpns. \<exists>fl. translation km (ms_page_table src) (vpn_key v) = Some (P v, fl)"
    "\<forall>v\<in>set vpns. \<exists>fl. translation km (ms_page_table dst) (vpn_key v) = Some (Q v, fl)"
    "\<forall>v\<in>set vpns. phys_ok (P v) \<and> phys_ok (Q v)" "inj_on Q (set vpns)" "Q ` set vpns \<inter> P ` set vpns = {}"
    "Q ` set vpns \<inter> (table_nodes (km_ram km) (pt_root_ppn (ms_page_table src)) \<union> table_nodes (km_ram km) (pt_root_ppn (ms_page_table dst))) = {}"
  shows "\<exists>ram'. copy_pages km src dst vpns = Some (km\<lparr>km_ram := ram'\<rparr>)
    \<and> (\<forall>v\<in>set vpns. page_bytes (km\<lparr>km_ram := ram'\<rparr>) (Q v) = page_bytes km (P v))
    \<and> (\<forall>p. ppn_ok p \<longrightarrow> p \<notin> Q ` set vpns \<longrightarrow> page_bytes (km\<lparr>km_ram := ram'\<rparr>) p = page_bytes km p)"
  using assms
proof (induction vpns arbitrary: km)
  case Nil
  show ?case by (intro exI [of _ "km_ram km"]) simp
next
  case (Cons v vpns)
  let ?s = "ms_page_table src" and ?d = "ms_page_table dst"
  have pq: "phys_ok (P v)" "phys_ok (Q v)" "ppn_ok (P v)" "ppn_ok (Q v)" using Cons.prems(6) phys_ok_ppn by auto
  define km1 where "km1 = km\<lparr>km_ram := ram_write (km_ram km) (page_addr (Q v)) (page_bytes km (P v))\<rparr>"
  have bytes: "page_bytes km1 p = (if p = Q v then page_bytes km (P v) else page_bytes km p)" if "ppn_ok p" for p
    unfolding km1_def using page_write [OF length_page_bytes that pq(4)] .
  have inv1: "frames_inv km1 used" using Cons.prems(1) by (simp add: km1_def pt_ok_def frames_inv_def free_ppns_def)
  have keep: "page_bytes km1 p = page_bytes km p" if "p \<in> table_nodes (km_ram km) (pt_root_ppn ?s) \<union> table_nodes (km_ram km) (pt_root_ppn ?d)" for p
  proof -
    have "ppn_ok p" using that Cons.prems(1,2) tree_ok_ppn by (auto simp: pt_ok_def)
    then show ?thesis using bytes that Cons.prems(9) by auto
  qed
  note us = pt_untouched [OF Cons.prems(1) keep inv1 order_refl, simplified] and ud = pt_untouched [OF Cons.prems(2) keep inv1 order_refl, simplified]
  have "\<exists>ram'. copy_pages km1 src dst vpns = Some (km1\<lparr>km_ram := ram'\<rparr>)
    \<and> (\<forall>w\<in>set vpns. page_bytes (km1\<lparr>km_ram := ram'\<rparr>) (Q w) = page_bytes km1 (P w))
    \<and> (\<forall>p. ppn_ok p \<longrightarrow> p \<notin> Q ` set vpns \<longrightarrow> page_bytes (km1\<lparr>km_ram := ram'\<rparr>) p = page_bytes km1 p)"
    using Cons.prems us ud by (intro Cons.IH) auto
  then obtain ram' where r: "copy_pages km1 src dst vpns = Some (km1\<lparr>km_ram := ram'\<rparr>)"
    "\<forall>w\<in>set vpns. page_bytes (km1\<lparr>km_ram := ram'\<rparr>) (Q w) = page_bytes km1 (P w)"
    "\<forall>p. ppn_ok p \<longrightarrow> p \<notin> Q ` set vpns \<longrightarrow> page_bytes (km1\<lparr>km_ram := ram'\<rparr>) p = page_bytes km1 p" by blast
  have ram: "km1\<lparr>km_ram := ram'\<rparr> = km\<lparr>km_ram := ram'\<rparr>" by (simp add: km1_def)
  have tr: "PageTable_translate km ?s v = Some (Some (P v))" "PageTable_translate km ?d v = Some (Some (Q v))"
    using Cons.prems(4,5) translate_Some [OF Cons.prems(1)] translate_Some [OF Cons.prems(2)] by auto
  have run: "copy_pages km src dst (v # vpns) = Some (km\<lparr>km_ram := ram'\<rparr>)"
    using tr r(1) pq(1,2) phys_ok_page_ref
    by (simp add: MemorySet_translate_def ram Let_def km1_def page_bytes_def config_simps)
  have "Q v \<notin> Q ` set vpns" using Cons.prems(3,7) by (auto simp: inj_on_def)
  moreover have "\<forall>w\<in>set vpns. P w \<noteq> Q v"
    using Cons.prems(8) by (metis IntI empty_iff imageI list.set_intros)
  moreover have "ppn_ok (P w)" if "w \<in> set vpns" for w using that Cons.prems(6) phys_ok_ppn by auto
  ultimately have "\<forall>w\<in>set (v # vpns). page_bytes (km\<lparr>km_ram := ram'\<rparr>) (Q w) = page_bytes km (P w)"
    using r(2,3) bytes pq(4) unfolding ram by auto
  with run show ?case using r(3) bytes unfolding ram by (intro exI [of _ ram']) auto
qed

end
