(* ===== verification/Memory_Fork.thy ===== *)
theory Memory_Fork
  imports Memory_Set
begin

text \<open>
  Copies of address spaces (\<^verbatim>\<open>MemorySet::from_existed_user\<close>, which \<^verbatim>\<open>fork\<close> uses): the copy shows the same
  bytes and permissions as the original, on frames of its own, and the original is not changed.
\<close>

section \<open>Address spaces that are not touched\<close>

lemma ms_untouched:
  assumes ok: "ms_ok km ms used" and inv: "frames_inv km' used'" "used \<subseteq> used'"
    and nodes: "\<And>p. p \<in> table_nodes (km_ram km) (pt_root_ppn (ms_page_table ms)) \<Longrightarrow> page_bytes km' p = page_bytes km p"
    and arcs: "\<And>p. p \<in> set (ms_frames ms) \<Longrightarrow> km_arcs km' p = km_arcs km p"
  shows "ms_ok km' ms used'" "table_nodes (km_ram km') (pt_root_ppn (ms_page_table ms)) = table_nodes (km_ram km) (pt_root_ppn (ms_page_table ms))"
    "translation km' (ms_page_table ms) = translation km (ms_page_table ms)"
    "(\<And>p. p \<in> set (ms_frames ms) \<Longrightarrow> page_bytes km' p = page_bytes km p) \<Longrightarrow> space_view km' ms = space_view km ms"
proof -
  have pt: "pt_ok km (ms_page_table ms) used" using ok by (simp add: ms_ok_def)
  note u = pt_untouched [OF pt nodes inv, simplified]
  show "table_nodes (km_ram km') (pt_root_ppn (ms_page_table ms)) = table_nodes (km_ram km) (pt_root_ppn (ms_page_table ms))"
    and "translation km' (ms_page_table ms) = translation km (ms_page_table ms)" using u by simp_all
  have "area_ok km' (ms_page_table ms) a" if "(k, a) \<in> set (ms_areas ms)" for k a
  proof (rule area_ok_cong)
    show "area_ok km (ms_page_table ms) a" using that ok by (auto simp: ms_ok_def areas_ok_def)
    show "km_arcs km' p = km_arcs km p" if "p \<in> set (area_frames a)" for p
      using that \<open>(k, a) \<in> set (ms_areas ms)\<close> areas_mem(1) by (intro arcs) (auto simp: ms_frames_def)
  qed (simp add: u(2))
  then have "areas_ok km' (ms_page_table ms) (ms_areas ms)" using ok by (auto simp: ms_ok_def areas_ok_def)
  then show "ms_ok km' ms used'" using ok u inv(2) by (auto simp: ms_ok_def)
  show "space_view km' ms = space_view km ms" if bytes: "\<And>p. p \<in> set (ms_frames ms) \<Longrightarrow> page_bytes km' p = page_bytes km p"
  proof
    fix key
    show "space_view km' ms key = space_view km ms key"
    proof (cases "translation km (ms_page_table ms) key")
      case (Some r)
      obtain p fl where "r = (p, fl)" by (cases r)
      then show ?thesis using Some bytes ms_frame_of [OF ok, of key p fl] by (auto simp: space_view_def u(2))
    qed (simp add: space_view_def u(2))
  qed
qed

section \<open>Sharing handles\<close>

lemma clone_arcs:
  assumes "distinct (map ft_ppn fts)"
  shows "foldl arc_clone km fts = km\<lparr>km_arcs := (\<lambda>p. if p \<in> ft_ppn ` set fts then km_arcs km p + 1 else km_arcs km p)\<rparr>"
  using assms
proof (induction fts arbitrary: km)
  case (Cons ft fts)
  then show ?case by (auto simp: arc_clone_def fun_eq_iff intro!: arg_cong [of _ _ "\<lambda>f. km\<lparr>km_arcs := f\<rparr>"])
qed simp

lemma pt_ok_arcs: "pt_ok km pt used \<Longrightarrow> pt_ok (km\<lparr>km_arcs := arcs\<rparr>) pt used"
  "pt_ok km pt used \<Longrightarrow> translation (km\<lparr>km_arcs := arcs\<rparr>) pt = translation km pt"
proof -
  assume ok: "pt_ok km pt used"
  have "frames_inv (km\<lparr>km_arcs := arcs\<rparr>) used" using ok by (simp add: pt_ok_def frames_inv_def free_ppns_def)
  from pt_untouched [OF ok _ this order_refl] show "pt_ok (km\<lparr>km_arcs := arcs\<rparr>) pt used"
    "translation (km\<lparr>km_arcs := arcs\<rparr>) pt = translation km pt" by (simp_all add: page_bytes_def)
qed

section \<open>Copying one segment\<close>

definition spaces_apart :: "kernel_mem \<Rightarrow> MemorySet \<Rightarrow> MemorySet \<Rightarrow> bool" where
  "spaces_apart km src dst \<longleftrightarrow>
     (set (ms_frames src) \<union> table_nodes (km_ram km) (pt_root_ppn (ms_page_table src)))
     \<inter> (set (ms_frames dst) \<union> table_nodes (km_ram km) (pt_root_ppn (ms_page_table dst))) = {}"

lemma area_okE:
  assumes "area_ok km pt a"
  obtains dfs where "ma_map_type a = Framed dfs" "map fst dfs = ma_range a" "btree_wf dfs" "area_frames a = map ft_ppn (map snd dfs)"
    "\<forall>(v, ft)\<in>set dfs. ft_num ft = 1 \<and> km_arcs km (ft_ppn ft) = 1 \<and> translation km pt (vpn_key v) = Some (ft_ppn ft, ma_map_perm a OR PTE_V)"
    "vpn_val (ma_end a) \<le> USER_PAGES"
proof -
  from assms obtain dfs where d: "ma_map_type a = Framed dfs" "map fst dfs = ma_range a" "vpn_val (ma_end a) \<le> USER_PAGES"
    "\<forall>(v, ft)\<in>set dfs. ft_num ft = 1 \<and> km_arcs km (ft_ppn ft) = 1 \<and> translation km pt (vpn_key v) = Some (ft_ppn ft, ma_map_perm a OR PTE_V)"
    unfolding area_ok_def by blast
  have "btree_wf dfs" using d(2) vpn_range_sorted by (simp add: btree_wf_def)
  moreover have "area_frames a = map ft_ppn (map snd dfs)" using d(1) by (simp add: area_frames_def case_prod_beta)
  ultimately show ?thesis using that d by blast
qed

lemma ms_area_parts:
  assumes "ms_ok km ms used" "(k, a) \<in> set (ms_areas ms)"
  shows "k = ma_start a" "area_ok km (ms_page_table ms) a" "distinct (area_frames a)" "set (area_frames a) \<subseteq> set (ms_frames ms)"
    "set (ma_range a) \<subseteq> set (ms_pages ms)"
proof -
  show "k = ma_start a" "area_ok km (ms_page_table ms) a" using assms by (auto simp: ms_ok_def areas_ok_def)
  show "set (area_frames a) \<subseteq> set (ms_frames ms)" "set (ma_range a) \<subseteq> set (ms_pages ms)"
    using areas_mem [OF assms(2)] by (auto simp: ms_frames_def ms_pages_def)
  obtain us vs where "ms_areas ms = us @ (k, a) # vs" using assms(2) by (auto dest: split_list)
  then show "distinct (area_frames a)" using assms(1) by (auto simp: ms_ok_def ms_frames_def)
qed

lemma push_copy:
  assumes src: "ms_ok km src used" and dst: "ms_ok km dst used" and apart: "spaces_apart km src dst"
    and a: "(k, a) \<in> set (ms_areas src)" "k \<notin> fst ` set (ms_areas dst)" "set (ma_range a) \<inter> set (ms_pages dst) = {}"
    and free: "3 * length (ma_range a) \<le> card (free_ppns km)"
  obtains km1 dst' km2 gs fs where "MapArea_from_another km a = (a, km1)" "MemorySet_push km1 dst a 0 None = Some (dst', km2)"
    "ms_ok km2 src (used \<union> set gs \<union> set fs)" "ms_ok km2 dst' (used \<union> set gs \<union> set fs)"
    "mem_step used km km2 (table_nodes (km_ram km) (pt_root_ppn (ms_page_table dst)) \<union> set gs \<union> set fs) (set gs \<union> set fs)"
    "length fs \<le> 2 * length (ma_range a)" "length gs = length (ma_range a)" "distinct gs" "set gs \<inter> set fs = {}"
    "set (ms_frames dst') = set gs \<union> set (ms_frames dst)" "set (ms_pages dst') = set (ma_range a) \<union> set (ms_pages dst)"
    "fst ` set (ms_areas dst') = insert k (fst ` set (ms_areas dst))" "pt_root_ppn (ms_page_table dst') = pt_root_ppn (ms_page_table dst)"
    "table_nodes (km_ram km2) (pt_root_ppn (ms_page_table dst)) = table_nodes (km_ram km) (pt_root_ppn (ms_page_table dst)) \<union> set fs"
    "\<And>i. i < length gs \<Longrightarrow> translation km2 (ms_page_table dst') (vpn_key (ma_range a ! i)) = Some (gs ! i, ma_map_perm a OR PTE_V)"
    "space_view km2 src = space_view km src"
    "space_view km2 dst' = (\<lambda>key. if VirtPageNum key \<in> set (ma_range a) then Some (replicate 4096 0, ma_map_perm a OR PTE_V) else space_view km dst key)"
    "\<And>key. VirtPageNum key \<notin> set (ma_range a) \<Longrightarrow> translation km2 (ms_page_table dst') key = translation km (ms_page_table dst) key"
    "table_nodes (km_ram km2) (pt_root_ppn (ms_page_table src)) = table_nodes (km_ram km) (pt_root_ppn (ms_page_table src))"
proof -
  note pa = ms_area_parts [OF src a(1)]
  obtain dfs where d: "ma_map_type a = Framed dfs" "map fst dfs = ma_range a" "btree_wf dfs" "area_frames a = map ft_ppn (map snd dfs)"
    "\<forall>(v, ft)\<in>set dfs. ft_num ft = 1 \<and> km_arcs km (ft_ppn ft) = 1 \<and> translation km (ms_page_table src) (vpn_key v) = Some (ft_ppn ft, ma_map_perm a OR PTE_V)"
    "vpn_val (ma_end a) \<le> USER_PAGES" by (rule area_okE [OF pa(2)])
  define km1 where "km1 = km\<lparr>km_arcs := (\<lambda>p. if p \<in> set (area_frames a) then km_arcs km p + 1 else km_arcs km p)\<rparr>"
  have another: "MapArea_from_another km a = (a, km1)"
    using clone_arcs [of "map snd dfs" km] pa(3) d(1,4) by (cases a) (simp add: MapArea_from_another_def MapType_clone_def km1_def image_image)
  have inv1: "frames_inv km1 used" using dst by (simp add: km1_def ms_ok_def pt_ok_def frames_inv_def free_ppns_def)
  have arcs1: "km_arcs km1 p = km_arcs km p" if "p \<in> set (ms_frames dst)" for p
    using that apart pa(4) by (auto simp: km1_def spaces_apart_def)
  have dst1: "ms_ok km1 dst used" and view1: "space_view km1 dst = space_view km dst"
    using ms_untouched(1,4) [OF dst inv1 order_refl _ arcs1] by (simp_all add: km1_def page_bytes_def)
  have ram1: "km_ram km1 = km_ram km" "free_ppns km1 = free_ppns km" "\<And>p. page_bytes km1 p = page_bytes km p"
    by (simp_all add: km1_def free_ppns_def page_bytes_def)
  have pt1: "pt_ok km1 (ms_page_table dst) used" using dst1 by (simp add: ms_ok_def)
  have mem: "(v, ft) \<in> set dfs" if "map_of dfs v = Some ft" for v ft using that by (rule map_of_SomeD)
  have inj: "v = w" if "(v, ft) \<in> set dfs" "(w, ft') \<in> set dfs" "ft_ppn ft = ft_ppn ft'" for v w ft ft'
    using pa(3) that unfolding d(4) by (force simp: distinct_map inj_on_def)
  have frame: "ft_ppn ft \<in> set (area_frames a)" if "(v, ft) \<in> set dfs" for v ft using that unfolding d(4) by force
  have olds: "olds_ok km1 dfs (ma_range a)"
    unfolding olds_ok_def
  proof (intro conjI ballI allI impI)
    fix v assume "v \<in> set (ma_range a)"
    show "old_shared km1 (map_of dfs v)"
    proof (cases "map_of dfs v")
      case (Some ft)
      have "ft_ppn ft \<in> used" "used \<inter> free_ppns km = {}" using frame [OF mem [OF Some]] pa(4) src by (auto simp: ms_ok_def pt_ok_def frames_inv_def)
      then show ?thesis using Some d(5) mem [OF Some] frame [OF mem [OF Some]] ram1(2) by (auto simp: old_shared_def km1_def)
    qed (simp add: old_shared_def)
  qed (use inj mem in blast)
  have keys: "fst ` set dfs = set (ma_range a)" using arg_cong [OF d(2), of set] by simp
  have handles: "old_handles dfs (ma_range a) = set (area_frames a)"
  proof -
    have "distinct (map fst dfs)" using d(2) distinct_vpn_range by simp
    then show ?thesis unfolding old_handles_def d(4) keys [symmetric] by (force simp: map_of_eq_Some_iff)
  qed
  from map_pages_framed [OF pt1 d(1,3) user_range_unmapped [OF dst1 d(6) a(3)] free [folded ram1(2)] olds] obtain gs fs km2 pt' a' where
    m: "map_pages km1 a (ms_page_table dst) (ma_range a) = Some (a', pt', km2)"
      "mapped_pages used km1 (ms_page_table dst) a (ma_range a) gs fs km2 pt' a'" by blast
  have "set (area_frames a) \<inter> set (ms_frames dst) = {}" using apart pa(4) by (auto simp: spaces_apart_def)
  note r = ms_add_area [OF dst1 d(1,3) equalityD1 [OF keys] d(6) a(3) a(2) [unfolded pa(1)] this [folded handles] m(2)]
  let ?dst = "dst\<lparr>ms_page_table := pt', ms_areas := btree_insert (ma_start a) a' (ms_areas dst)\<rparr>"
  have mp: "length gs = length (ma_range a)" "distinct gs" "set gs \<inter> set fs = {}" "length fs \<le> 2 * length (ma_range a)"
      "pt_root_ppn pt' = pt_root_ppn (ms_page_table dst)"
      "mem_step used km1 km2 (table_nodes (km_ram km1) (pt_root_ppn (ms_page_table dst)) \<union> set gs \<union> set fs) (set gs \<union> set fs)"
      "table_nodes (km_ram km2) (pt_root_ppn (ms_page_table dst)) = table_nodes (km_ram km1) (pt_root_ppn (ms_page_table dst)) \<union> set fs"
      "translation km2 pt' = translation km1 (ms_page_table dst) ++ map_of (zip (map vpn_key (ma_range a)) (map (\<lambda>g. (g, ma_map_perm a OR PTE_V)) gs))"
      "km_arcs km2 = (\<lambda>p. if p \<in> set gs then 1 else if p \<in> set (area_frames a) then km_arcs km1 p - 1 else km_arcs km1 p)"
    using m(2) d(1) unfolding mapped_pages_def handles [symmetric] by auto
  have step: "mem_step used km km2 (table_nodes (km_ram km) (pt_root_ppn (ms_page_table dst)) \<union> set gs \<union> set fs) (set gs \<union> set fs)"
    using mp(6) unfolding mem_step_def ram1 by (simp add: km1_def)
  have new: "(set gs \<union> set fs) \<inter> used = {}" using step src by (auto simp: mem_step_def ms_ok_def pt_ok_def frames_inv_def)
  have push: "MemorySet_push km1 dst a 0 None = Some (?dst, km2)"
  proof -
    have "map_of (ms_areas dst) (ma_start a) = None" using a(2) pa(1) by (simp add: map_of_eq_None_iff)
    moreover have "ma_start a' = ma_start a" using m(2) by (auto simp: mapped_pages_def)
    ultimately show ?thesis using m(1) by (simp add: MemorySet_push_def MapArea_map_def Let_def)
  qed
  have in_used: "set (ms_frames src) \<union> table_nodes (km_ram km) (pt_root_ppn (ms_page_table src)) \<subseteq> used"
    using src by (auto simp: ms_ok_def pt_ok_def)
  have keep: "page_bytes km2 p = page_bytes km p" if "p \<in> set (ms_frames src) \<union> table_nodes (km_ram km) (pt_root_ppn (ms_page_table src))" for p
  proof -
    have "ppn_ok p" using that ms_frame_ok [OF src] tree_ok_ppn src by (auto simp: ms_ok_def pt_ok_def)
    moreover have "p \<notin> table_nodes (km_ram km) (pt_root_ppn (ms_page_table dst)) \<union> set gs \<union> set fs"
      using that apart new in_used by (auto simp: spaces_apart_def)
    ultimately show ?thesis using step by (simp add: mem_step_def)
  qed
  have "frames_inv km2 (used \<union> set gs \<union> set fs)" using step by (simp add: mem_step_def Un_assoc)
  note u = ms_untouched [OF src this]
  have arcs: "km_arcs km2 p = km_arcs km p" if "p \<in> set (ms_frames src)" for p
    using that new in_used mp(9) by (auto simp: km1_def)
  have "distinct (map vpn_key (ma_range a))" using user_range_unmapped(1) [OF dst1 d(6) a(3)] .
  then have at: "translation km2 pt' (vpn_key (ma_range a ! i)) = Some (gs ! i, ma_map_perm a OR PTE_V)" if "i < length gs" for i
    using that mp(1) map_of_zip_nth [of "map vpn_key (ma_range a)" "map (\<lambda>g. (g, ma_map_perm a OR PTE_V)) gs" i]
    unfolding mp(8) by (simp add: map_add_def)
  show ?thesis
  proof (rule that [OF another push])
    show "ms_ok km2 src (used \<union> set gs \<union> set fs)" "space_view km2 src = space_view km src" using u keep arcs by auto
    show "table_nodes (km_ram km2) (pt_root_ppn (ms_page_table src)) = table_nodes (km_ram km) (pt_root_ppn (ms_page_table src))" using u(2) keep arcs by auto
    show "translation km2 (ms_page_table ?dst) key = translation km (ms_page_table dst) key" if "VirtPageNum key \<notin> set (ma_range a)" for key
      using r(5) [OF that] ms_untouched(3) [OF dst inv1 order_refl _ arcs1] by (simp add: ram1(3))
    show "space_view km2 ?dst = (\<lambda>key. if VirtPageNum key \<in> set (ma_range a) then Some (replicate 4096 0, ma_map_perm a OR PTE_V) else space_view km dst key)"
      using r(4) unfolding view1 .
  qed (use r mp step at pa(1) in \<open>simp_all add: ram1(1)\<close>)
qed

lemma copy_area_step:
  assumes src: "ms_ok km src used" and dst: "ms_ok km dst used" and apart: "spaces_apart km src dst"
    and a: "(k, a) \<in> set (ms_areas src)" "k \<notin> fst ` set (ms_areas dst)" "set (ma_range a) \<inter> set (ms_pages dst) = {}"
    and free: "3 * length (ma_range a) \<le> card (free_ppns km)"
  obtains km1 dst' km2 km3 N where "MapArea_from_another km a = (a, km1)" "MemorySet_push km1 dst a 0 None = Some (dst', km2)"
    "copy_pages km2 src dst' (ma_range a) = Some km3"
    "ms_ok km3 src (used \<union> N)" "ms_ok km3 dst' (used \<union> N)" "spaces_apart km3 src dst'"
    "mem_step used km km3 (table_nodes (km_ram km) (pt_root_ppn (ms_page_table dst)) \<union> N) N" "card N \<le> 3 * length (ma_range a)"
    "set (ms_pages dst') = set (ma_range a) \<union> set (ms_pages dst)" "fst ` set (ms_areas dst') = insert k (fst ` set (ms_areas dst))"
    "table_nodes (km_ram km3) (pt_root_ppn (ms_page_table dst')) \<subseteq> table_nodes (km_ram km) (pt_root_ppn (ms_page_table dst)) \<union> N"
    "pt_root_ppn (ms_page_table dst') = pt_root_ppn (ms_page_table dst)" "space_view km3 src = space_view km src"
    "space_view km3 dst' = (\<lambda>key. if VirtPageNum key \<in> set (ma_range a) then space_view km src key else space_view km dst key)"
proof -
  obtain km1 dst' km2 gs fs where
    p: "MapArea_from_another km a = (a, km1)" "MemorySet_push km1 dst a 0 None = Some (dst', km2)"
    "ms_ok km2 src (used \<union> set gs \<union> set fs)" "ms_ok km2 dst' (used \<union> set gs \<union> set fs)"
    "mem_step used km km2 (table_nodes (km_ram km) (pt_root_ppn (ms_page_table dst)) \<union> set gs \<union> set fs) (set gs \<union> set fs)"
    "length fs \<le> 2 * length (ma_range a)" "length gs = length (ma_range a)" "distinct gs" "set gs \<inter> set fs = {}"
    "set (ms_frames dst') = set gs \<union> set (ms_frames dst)" "set (ms_pages dst') = set (ma_range a) \<union> set (ms_pages dst)"
    "fst ` set (ms_areas dst') = insert k (fst ` set (ms_areas dst))" "pt_root_ppn (ms_page_table dst') = pt_root_ppn (ms_page_table dst)"
    "table_nodes (km_ram km2) (pt_root_ppn (ms_page_table dst)) = table_nodes (km_ram km) (pt_root_ppn (ms_page_table dst)) \<union> set fs"
    and at: "\<And>i. i < length gs \<Longrightarrow> translation km2 (ms_page_table dst') (vpn_key (ma_range a ! i)) = Some (gs ! i, ma_map_perm a OR PTE_V)"
    and view: "space_view km2 src = space_view km src"
    "space_view km2 dst' = (\<lambda>key. if VirtPageNum key \<in> set (ma_range a) then Some (replicate 4096 0, ma_map_perm a OR PTE_V) else space_view km dst key)"
    and other: "\<And>key. VirtPageNum key \<notin> set (ma_range a) \<Longrightarrow> translation km2 (ms_page_table dst') key = translation km (ms_page_table dst) key"
    and nodes: "table_nodes (km_ram km2) (pt_root_ppn (ms_page_table src)) = table_nodes (km_ram km) (pt_root_ppn (ms_page_table src))"
    by (rule push_copy [OF assms]) blast
  note pa = ms_area_parts [OF p(3) a(1)]
  define P where "P v = fst (the (translation km2 (ms_page_table src) (vpn_key v)))" for v
  define Q where "Q v = fst (the (translation km2 (ms_page_table dst') (vpn_key v)))" for v
  have P: "translation km2 (ms_page_table src) (vpn_key v) = Some (P v, ma_map_perm a OR PTE_V) \<and> P v \<in> set (ms_frames src) \<and> vpn_val v < USER_PAGES"
    if v: "v \<in> set (ma_range a)" for v
  proof -
    obtain f where f: "translation km2 (ms_page_table src) (vpn_key v) = Some (f, ma_map_perm a OR PTE_V)" "f \<in> set (area_frames a)" "vpn_val v < USER_PAGES"
      by (rule area_frame_of [OF pa(2) v])
    then have "P v = f" by (simp add: P_def)
    with f pa(4) show ?thesis by blast
  qed
  have Qi: "Q (ma_range a ! i) = gs ! i" if "i < length gs" for i using at [OF that] by (simp add: Q_def)
  have Q: "translation km2 (ms_page_table dst') (vpn_key v) = Some (Q v, ma_map_perm a OR PTE_V) \<and> Q v \<in> set gs" if v: "v \<in> set (ma_range a)" for v
  proof -
    obtain i where i: "i < length gs" "v = ma_range a ! i" using v p(7) by (auto simp: in_set_conv_nth)
    then show ?thesis using at [OF i(1)] Qi [OF i(1)] by simp
  qed
  have "map Q (ma_range a) = gs" using Qi p(7) by (intro nth_equalityI) simp_all
  then have img: "Q ` set (ma_range a) = set gs" by (metis list.set_map)
  have inj: "inj_on Q (set (ma_range a))"
    using p(7,8) img distinct_vpn_range [of "ma_start a" "ma_end a"] by (intro eq_card_imp_inj_on) (simp_all add: distinct_card)
  have new: "(set gs \<union> set fs) \<inter> used = {}" using p(5) src by (auto simp: mem_step_def ms_ok_def pt_ok_def frames_inv_def)
  have in_used: "set (ms_frames src) \<union> table_nodes (km_ram km) (pt_root_ppn (ms_page_table src)) \<subseteq> used"
    "set (ms_frames dst) \<union> table_nodes (km_ram km) (pt_root_ppn (ms_page_table dst)) \<subseteq> used"
    using src dst by (auto simp: ms_ok_def pt_ok_def)
  have nodes2: "table_nodes (km_ram km2) (pt_root_ppn (ms_page_table dst')) = table_nodes (km_ram km) (pt_root_ppn (ms_page_table dst)) \<union> set fs"
    using p(13,14) by simp
  have "\<exists>ram'. copy_pages km2 src dst' (ma_range a) = Some (km2\<lparr>km_ram := ram'\<rparr>)
    \<and> (\<forall>v\<in>set (ma_range a). page_bytes (km2\<lparr>km_ram := ram'\<rparr>) (Q v) = page_bytes km2 (P v))
    \<and> (\<forall>p. ppn_ok p \<longrightarrow> p \<notin> Q ` set (ma_range a) \<longrightarrow> page_bytes (km2\<lparr>km_ram := ram'\<rparr>) p = page_bytes km2 p)"
  proof (rule copy_pages_ok)
    show "pt_ok km2 (ms_page_table src) (used \<union> set gs \<union> set fs)" "pt_ok km2 (ms_page_table dst') (used \<union> set gs \<union> set fs)"
      using p(3,4) by (simp_all add: ms_ok_def)
    have "set (ms_frames src) \<subseteq> Collect phys_ok" "set gs \<subseteq> Collect phys_ok" using p(3,4,10) ram_ppn_phys by (auto simp: ms_ok_def)
    then show "\<forall>v\<in>set (ma_range a). phys_ok (P v) \<and> phys_ok (Q v)" using P Q by blast
    show "Q ` set (ma_range a) \<inter> P ` set (ma_range a) = {}" unfolding img using P new in_used(1) by blast
    show "Q ` set (ma_range a) \<inter> (table_nodes (km_ram km2) (pt_root_ppn (ms_page_table src))
        \<union> table_nodes (km_ram km2) (pt_root_ppn (ms_page_table dst'))) = {}"
      unfolding img nodes nodes2 using new in_used p(9) by blast
  qed (use P Q inj distinct_vpn_range in blast)+
  then obtain ram' where c: "copy_pages km2 src dst' (ma_range a) = Some (km2\<lparr>km_ram := ram'\<rparr>)"
    "\<forall>v\<in>set (ma_range a). page_bytes (km2\<lparr>km_ram := ram'\<rparr>) (Q v) = page_bytes km2 (P v)"
    "\<forall>p. ppn_ok p \<longrightarrow> p \<notin> set gs \<longrightarrow> page_bytes (km2\<lparr>km_ram := ram'\<rparr>) p = page_bytes km2 p" unfolding img by blast
  define km3 where "km3 = km2\<lparr>km_ram := ram'\<rparr>"
  note c3 = c [folded km3_def]
  have inv3: "frames_inv km3 (used \<union> set gs \<union> set fs)" using p(3) by (simp add: km3_def ms_ok_def pt_ok_def frames_inv_def free_ppns_def)
  have okp: "ppn_ok p" if "p \<in> table_nodes (km_ram km2) (pt_root_ppn (ms_page_table src)) \<union> table_nodes (km_ram km2) (pt_root_ppn (ms_page_table dst'))
      \<union> set (ms_frames src) \<union> set (ms_frames dst)" for p
    using that tree_ok_ppn p(3,4) ms_frame_ok [OF src] ms_frame_ok [OF dst] by (auto simp: ms_ok_def pt_ok_def)
  have keep: "page_bytes km3 p = page_bytes km2 p" if "p \<in> table_nodes (km_ram km2) (pt_root_ppn (ms_page_table src)) \<union>
      table_nodes (km_ram km2) (pt_root_ppn (ms_page_table dst')) \<union> set (ms_frames src) \<union> set (ms_frames dst)" for p
  proof -
    have "p \<notin> set gs" using that new in_used p(9) unfolding nodes nodes2 by blast
    then show ?thesis using c3(3) okp [OF that] by blast
  qed
  have arcs: "km_arcs km3 p = km_arcs km2 p" for p by (simp add: km3_def)
  note us = ms_untouched [OF p(3) inv3 order_refl] and ud = ms_untouched [OF p(4) inv3 order_refl]
  have n3: "table_nodes (km_ram km3) (pt_root_ppn (ms_page_table src)) = table_nodes (km_ram km) (pt_root_ppn (ms_page_table src))"
    "table_nodes (km_ram km3) (pt_root_ppn (ms_page_table dst')) = table_nodes (km_ram km) (pt_root_ppn (ms_page_table dst)) \<union> set fs"
    using us(2) ud(2) keep arcs nodes nodes2 by simp_all
  have vs: "space_view km3 src = space_view km src" using us(4) keep arcs view(1) by simp
  have td: "translation km3 (ms_page_table dst') = translation km2 (ms_page_table dst')" using ud(3) keep arcs by simp
  have vd: "space_view km3 dst' = (\<lambda>key. if VirtPageNum key \<in> set (ma_range a) then space_view km src key else space_view km dst key)"
  proof
    fix key
    show "space_view km3 dst' key = (if VirtPageNum key \<in> set (ma_range a) then space_view km src key else space_view km dst key)"
    proof (cases "VirtPageNum key \<in> set (ma_range a)")
      case True
      note PQ = P [OF True] Q [OF True]
      have key: "vpn_key (VirtPageNum key) = key" using user_key PQ(1) by auto
      show ?thesis using True PQ c3(2) unfolding view(1) [symmetric] space_view_def td key by simp
    next
      case False
      have "space_view km2 dst' key = space_view km dst key" using False view(2) by simp
      moreover have "space_view km3 dst' key = space_view km2 dst' key"
      proof (cases "key < USER_PAGES \<and> translation km2 (ms_page_table dst') key \<noteq> None")
        case True
        then obtain p fl where t: "translation km2 (ms_page_table dst') key = Some (p, fl)" by auto
        then have "p \<in> set (ms_frames dst)" using ms_frame_of [OF dst] True other [OF False] by auto
        then show ?thesis using keep t by (simp add: space_view_def td)
      next
        case unmapped: False
        then show ?thesis by (cases "translation km2 (ms_page_table dst') key") (auto simp: space_view_def td)
      qed
      ultimately show ?thesis using False by simp
    qed
  qed
  have step: "mem_step used km km3 (table_nodes (km_ram km) (pt_root_ppn (ms_page_table dst)) \<union> (set gs \<union> set fs)) (set gs \<union> set fs)"
  proof -
    have "free_ppns km3 = free_ppns km2" "km_syms km3 = km_syms km2" "km_satp km3 = km_satp km2" by (simp_all add: km3_def free_ppns_def)
    then show ?thesis using p(5) c3(3) inv3 unfolding mem_step_def by (simp add: Un_assoc)
  qed
  have apart3: "spaces_apart km3 src dst'"
    using apart new in_used unfolding spaces_apart_def n3 p(10) by blast
  have "card (set gs \<union> set fs) \<le> 3 * length (ma_range a)"
    using card_Un_le [of "set gs" "set fs"] card_length [of gs] card_length [of fs] p(6,7) by linarith
  then show ?thesis
    using that [OF p(1,2) c3(1), of "set gs \<union> set fs"] us(1) ud(1) keep arcs apart3 step p(11-13) n3(2) vs vd by (auto simp: Un_assoc)
qed

section \<open>Copying all segments\<close>

lemma copy_areas_ok:
  assumes "ms_ok km src used" "ms_ok km dst used" "spaces_apart km src dst" "set areas \<subseteq> set (ms_areas src)" "distinct (map fst areas)"
    "fst ` set areas \<inter> fst ` set (ms_areas dst) = {}" "distinct (areas_pages areas)"
    "set (areas_pages areas) \<inter> set (ms_pages dst) = {}"
    "3 * length (areas_pages areas) \<le> card (free_ppns km)"
  shows "\<exists>dst' km' N. copy_areas km src dst (map snd areas) = Some (dst', km') \<and> ms_ok km' src (used \<union> N) \<and> ms_ok km' dst' (used \<union> N)
    \<and> spaces_apart km' src dst' \<and> mem_step used km km' (table_nodes (km_ram km) (pt_root_ppn (ms_page_table dst)) \<union> N) N
    \<and> card N \<le> 3 * length (areas_pages areas)
    \<and> fst ` set (ms_areas dst') = fst ` set areas \<union> fst ` set (ms_areas dst)
    \<and> set (ms_pages dst') = set (areas_pages areas) \<union> set (ms_pages dst)
    \<and> table_nodes (km_ram km') (pt_root_ppn (ms_page_table dst')) \<subseteq> table_nodes (km_ram km) (pt_root_ppn (ms_page_table dst)) \<union> N
    \<and> pt_root_ppn (ms_page_table dst') = pt_root_ppn (ms_page_table dst) \<and> space_view km' src = space_view km src
    \<and> space_view km' dst' = (\<lambda>key. if VirtPageNum key \<in> set (areas_pages areas) then space_view km src key else space_view km dst key)"
  using assms
proof (induction areas arbitrary: km dst used)
  case Nil
  have "mem_step used km km (table_nodes (km_ram km) (pt_root_ppn (ms_page_table dst)) \<union> {}) {}"
    using Nil.prems(1) by (intro mem_step_mono [OF mem_step_refl]) (auto simp: ms_ok_def pt_ok_def)
  then show ?case using Nil.prems by (intro exI [of _ dst] exI [of _ km] exI [of _ "{}"]) auto
next
  case (Cons x areas)
  obtain k a where x: "x = (k, a)" by (cases x)
  let ?rest = "areas_pages areas"
  have a: "(k, a) \<in> set (ms_areas src)" "k \<notin> fst ` set (ms_areas dst)" "set (ma_range a) \<inter> set (ms_pages dst) = {}"
    "3 * length (ma_range a) \<le> card (free_ppns km)" using Cons.prems x by auto
  obtain km1 dst1 km2 km3 N where
    s: "MapArea_from_another km a = (a, km1)" "MemorySet_push km1 dst a 0 None = Some (dst1, km2)" "copy_pages km2 src dst1 (ma_range a) = Some km3"
    "ms_ok km3 src (used \<union> N)" "ms_ok km3 dst1 (used \<union> N)" "spaces_apart km3 src dst1"
    "mem_step used km km3 (table_nodes (km_ram km) (pt_root_ppn (ms_page_table dst)) \<union> N) N" "card N \<le> 3 * length (ma_range a)"
    "set (ms_pages dst1) = set (ma_range a) \<union> set (ms_pages dst)" "fst ` set (ms_areas dst1) = insert k (fst ` set (ms_areas dst))"
    "table_nodes (km_ram km3) (pt_root_ppn (ms_page_table dst1)) \<subseteq> table_nodes (km_ram km) (pt_root_ppn (ms_page_table dst)) \<union> N"
    "pt_root_ppn (ms_page_table dst1) = pt_root_ppn (ms_page_table dst)" "space_view km3 src = space_view km src"
    "space_view km3 dst1 = (\<lambda>key. if VirtPageNum key \<in> set (ma_range a) then space_view km src key else space_view km dst key)"
    by (rule copy_area_step [OF Cons.prems(1-3) a])
  have N: "N \<subseteq> free_ppns km" "free_ppns km3 = free_ppns km - N" using s(7) by (simp_all add: mem_step_def)
  have fin: "finite N" using finite_subset [OF N(1)] finite_free_ppns Cons.prems(1) by (auto simp: ms_ok_def pt_ok_def)
  have free3: "3 * length ?rest \<le> card (free_ppns km3)"
    using Cons.prems(9) x s(8) card_Diff_subset [OF fin N(1)] N(2) by simp
  have "distinct (map fst areas)" "set areas \<subseteq> set (ms_areas src)" "fst ` set areas \<inter> fst ` set (ms_areas dst1) = {}" "distinct ?rest"
    "set ?rest \<inter> set (ms_pages dst1) = {}" using Cons.prems x s(9,10) by auto
  from Cons.IH [OF s(4-6) this(2,1,3-5) free3] obtain dst' km' M where
    i: "copy_areas km3 src dst1 (map snd areas) = Some (dst', km')" "ms_ok km' src (used \<union> N \<union> M)" "ms_ok km' dst' (used \<union> N \<union> M)"
      "spaces_apart km' src dst'" "mem_step (used \<union> N) km3 km' (table_nodes (km_ram km3) (pt_root_ppn (ms_page_table dst1)) \<union> M) M"
      "card M \<le> 3 * length ?rest" "fst ` set (ms_areas dst') = fst ` set areas \<union> fst ` set (ms_areas dst1)"
      "set (ms_pages dst') = set ?rest \<union> set (ms_pages dst1)"
      "table_nodes (km_ram km') (pt_root_ppn (ms_page_table dst')) \<subseteq> table_nodes (km_ram km3) (pt_root_ppn (ms_page_table dst1)) \<union> M"
      "pt_root_ppn (ms_page_table dst') = pt_root_ppn (ms_page_table dst1)" "space_view km' src = space_view km3 src"
      "space_view km' dst' = (\<lambda>key. if VirtPageNum key \<in> set ?rest then space_view km3 src key else space_view km3 dst1 key)" by blast
  have step: "mem_step used km km' (table_nodes (km_ram km) (pt_root_ppn (ms_page_table dst)) \<union> (N \<union> M)) (N \<union> M)"
    using mem_step_trans [OF s(7) i(5)] by (rule mem_step_mono) (use s(11) in blast)
  have "card (N \<union> M) \<le> 3 * length (areas_pages (x # areas))"
    using card_Un_le [of N M] s(8) i(6) x by simp
  then show ?case using x s(1-3) i(1-4) step
    by (intro exI [of _ dst'] exI [of _ km'] exI [of _ "N \<union> M"]) (use s i in \<open>auto simp: Un_assoc\<close>)
qed

section \<open>Sharing the kernel's part\<close>

text \<open>The nodes of a table below one entry of its root.\<close>

definition line_nodes :: "ram \<Rightarrow> PhysPageNum \<Rightarrow> usize \<Rightarrow> PhysPageNum set" where
  "line_nodes ram root i = {p. \<exists>js. length js \<le> 1 \<and> idx_ok js \<and> node ram root (i # js) = Some p}"

lemma line_nodes_subset: "i < 512 \<Longrightarrow> line_nodes ram root i \<subseteq> table_nodes ram root"
  unfolding line_nodes_def table_nodes_def by (fastforce simp del: node.simps intro: exI [of _ "i # _"])

lemma line_nodes_disjoint:
  assumes "tree_ok ram root" "i < 512" "j < 512" "i \<noteq> j"
  shows "line_nodes ram root i \<inter> line_nodes ram root j = {}"
  using tree_ok_inj [OF assms(1), of "i # _" _ "j # _"] assms(2-4) by (auto simp: line_nodes_def)

text \<open>
  One entry of a root is set to the entry of another table: below it the two tables are the same.
\<close>

lemma graft_line:
  assumes ok: "pt_ok km pt used" and kok: "pt_ok km kpt used" and i: "i < 512"
    and apart: "line_nodes (km_ram km) (pt_root_ppn kpt) i \<inter> table_nodes (km_ram km) (pt_root_ppn pt) = {}"
    and root: "pt_root_ppn pt \<notin> table_nodes (km_ram km) (pt_root_ppn kpt)"
  defines "km' \<equiv> write_pte km (pt_root_ppn pt) i (read_pte km (pt_root_ppn kpt) i)"
  shows "pt_ok km' pt used" "pt_ok km' kpt used" "\<And>v. PageTable_find_pte km' kpt v = PageTable_find_pte km kpt v"
    "table_nodes (km_ram km') (pt_root_ppn kpt) = table_nodes (km_ram km) (pt_root_ppn kpt)"
    "table_nodes (km_ram km') (pt_root_ppn pt) \<subseteq> table_nodes (km_ram km) (pt_root_ppn pt) \<union> line_nodes (km_ram km) (pt_root_ppn kpt) i"
    "\<And>v. PageTable_find_pte km' pt v = (if hd (VirtPageNum_indexes v) = i then PageTable_find_pte km kpt v else PageTable_find_pte km pt v)"
    "\<And>p. ppn_ok p \<Longrightarrow> p \<noteq> pt_root_ppn pt \<Longrightarrow> page_bytes km' p = page_bytes km p"
    "\<And>j. j < 512 \<Longrightarrow> line_nodes (km_ram km') (pt_root_ppn kpt) j = line_nodes (km_ram km) (pt_root_ppn kpt) j"
proof -
  let ?r = "pt_root_ppn pt" and ?k = "pt_root_ppn kpt" and ?ram = "km_ram km" and ?ram' = "km_ram km'"
  have tree: "tree_ok ?ram ?r" "tree_ok ?ram ?k" using ok kok by (simp_all add: pt_ok_def)
  have rk: "?r \<in> table_nodes ?ram ?r" "?k \<in> table_nodes ?ram ?k" by (auto simp: table_nodes_def intro: exI [of _ "[]"])
  then have phys: "ppn_ok ?r" "ppn_ok ?k" using tree_ok_ppn tree by blast+
  have ram': "?ram' = set_page_word ?ram ?r i (page_word ?ram ?k i)" by (simp add: km'_def write_pte_def read_pte_def)
  show bytes: "page_bytes km' p = page_bytes km p" if "ppn_ok p" "p \<noteq> ?r" for p
    using that phys(1) i set_page_word_bytes [of _ i ?r p] by (auto simp: page_bytes_eq ram')
  have inv': "frames_inv km' used" using ok by (simp add: km'_def write_pte_def pt_ok_def frames_inv_def free_ppns_def)
  have keep: "page_bytes km' p = page_bytes km p" if "p \<in> table_nodes ?ram ?k" for p
    using that bytes tree_ok_ppn [OF tree(2) that] root by metis
  note u = pt_untouched [OF kok keep inv' order_refl, simplified]
  show "pt_ok km' kpt used" "\<And>v. PageTable_find_pte km' kpt v = PageTable_find_pte km kpt v" "table_nodes ?ram' ?k = table_nodes ?ram ?k" using u by simp_all
  have words: "page_word ?ram' p j = page_word ?ram p j" if "p \<in> table_nodes ?ram ?k" "j < 512" for p j
    using keep [OF that(1)] that(2) by (intro page_word_cong) (auto simp: page_bytes_eq)
  have nk: "node ?ram' ?k is = node ?ram ?k is" if "length is \<le> 3" "idx_ok is" for "is" using node_cong [OF words that] .
  have ch: "child ?ram' ?r i = child ?ram' ?k i" using words [OF rk(2) i] by (simp add: child_def ram')
  have under: "node ?ram' ?r (i # js) = node ?ram ?k (i # js)" if "length js \<le> 2" "idx_ok js" for js
    using nk [of "i # js"] that i ch by simp
  have other: "node ?ram' ?r is = node ?ram ?r is" if "length is \<le> 3" "idx_ok is" "is = [] \<or> hd is \<noteq> i" for "is"
    using node_write_other [OF tree(1), of "[]" ?r i "is"] that i by (cases "is") (auto simp: ram')
  show lines: "line_nodes ?ram' ?k j = line_nodes ?ram ?k j" if "j < 512" for j
  proof -
    have "node ?ram' ?k (j # js) = node ?ram ?k (j # js)" if "length js \<le> 1" "idx_ok js" for js using nk [of "j # js"] that \<open>j < 512\<close> by simp
    then show ?thesis unfolding line_nodes_def by (auto simp del: node.simps)
  qed
  show sub: "table_nodes ?ram' ?r \<subseteq> table_nodes ?ram ?r \<union> line_nodes ?ram ?k i"
  proof
    fix p assume "p \<in> table_nodes ?ram' ?r"
    then obtain "is" where "is": "length is \<le> 2" "idx_ok is" "node ?ram' ?r is = Some p" by (auto simp: table_nodes_def)
    show "p \<in> table_nodes ?ram ?r \<union> line_nodes ?ram ?k i"
    proof (cases "is = [] \<or> hd is \<noteq> i")
      case True
      then show ?thesis using "is" other [of "is"] by (auto simp: table_nodes_def)
    next
      case False
      then obtain js where "is = i # js" by (cases "is") auto
      then show ?thesis using "is" under [of js] by (auto simp: line_nodes_def)
    qed
  qed
  have cases: "(\<exists>ks. is = i # ks \<and> node ?ram' ?r is = node ?ram ?k is) \<or> node ?ram' ?r is = node ?ram ?r is \<and> (is = [] \<or> hd is \<noteq> i)"
    if "length is \<le> 2" "idx_ok is" for "is"
  proof (cases "is = [] \<or> hd is \<noteq> i")
    case False
    then obtain ks where "is = i # ks" by (cases "is") auto
    then show ?thesis using under [of ks] that by simp
  qed (use other [of "is"] that in simp)
  have "tree_ok ?ram' ?r"
    unfolding tree_ok_def
  proof (intro conjI ballI allI impI)
    show "phys_ok p" if "p \<in> table_nodes ?ram' ?r" for p
      using that sub tree_ok_ppn [OF tree(1)] tree_ok_ppn [OF tree(2)] line_nodes_subset [OF i] by blast
    fix "is" js p assume l: "length is \<le> 2" "length js \<le> 2" "idx_ok is" "idx_ok js" and n: "node ?ram' ?r is = Some p" "node ?ram' ?r js = Some p"
    have mem: "p \<in> line_nodes ?ram ?k i" if "node ?ram ?k (i # ks) = Some p" "length (i # ks) \<le> 2" "idx_ok (i # ks)" for ks
      using that by (auto simp: line_nodes_def simp del: node.simps)
    have mem': "p \<in> table_nodes ?ram ?r" if "node ?ram ?r ks = Some p" "length ks \<le> 2" "idx_ok ks" for ks using node_mem that .
    from cases [OF l(1,3)] cases [OF l(2,4)] show "is = js"
      using n l mem mem' apart tree_ok_inj [OF tree(1), of "is" p js] tree_ok_inj [OF tree(2), of "is" p js] by (metis disjoint_iff)
  qed
  moreover have "table_nodes ?ram' ?r \<subseteq> used" using sub ok kok line_nodes_subset [OF i, of ?ram ?k] by (auto simp: pt_ok_def)
  ultimately show ok': "pt_ok km' pt used" using inv' by (simp add: pt_ok_def)
  show "PageTable_find_pte km' pt v = (if hd (VirtPageNum_indexes v) = i then PageTable_find_pte km kpt v else PageTable_find_pte km pt v)" for v
  proof -
    obtain a b c where v: "VirtPageNum_indexes v = [a, b, c]" "a < 512" "b < 512" "c < 512" by (rule vpn_indexes)
    have "walk ?ram' ?r [a, b] c = (if a = i then walk ?ram ?k [a, b] c else walk ?ram ?r [a, b] c)"
    proof (cases "a = i")
      case True
      have n: "node ?ram' ?r [a, b] = node ?ram ?k [a, b]" using under [of "[b]"] True v by simp
      show ?thesis
      proof (cases "node ?ram ?k [a, b]")
        case (Some q)
        have "q \<in> table_nodes ?ram ?k" using node_mem [OF Some] v by simp
        then show ?thesis using words v(4) n Some True by (simp add: walk_def del: node.simps)
      qed (use n True in \<open>simp add: walk_def del: node.simps\<close>)
    next
      case False
      then show ?thesis using walk_write_other [OF tree(1), of "[]" ?r i "[a, b]" c "page_word ?ram ?k i"] v i by (simp add: ram')
    qed
    then show ?thesis unfolding find_pte_walk [OF ok' v] find_pte_walk [OF ok v] find_pte_walk [OF kok v] using v(1) by simp
  qed
qed

lemma map_kernel_lines_ok:
  assumes "pt_ok km pt used" "pt_ok km kpt used" "distinct ls" "\<forall>i\<in>set ls. i < 512"
    "\<forall>i\<in>set ls. line_nodes (km_ram km) (pt_root_ppn kpt) i \<inter> table_nodes (km_ram km) (pt_root_ppn pt) = {}"
    "pt_root_ppn pt \<notin> table_nodes (km_ram km) (pt_root_ppn kpt)"
  shows "\<exists>ram'. map_kernel_lines km pt kpt ls = Some (km\<lparr>km_ram := ram'\<rparr>) \<and> pt_ok (km\<lparr>km_ram := ram'\<rparr>) pt used
    \<and> table_nodes ram' (pt_root_ppn pt) \<subseteq> table_nodes (km_ram km) (pt_root_ppn pt) \<union> table_nodes (km_ram km) (pt_root_ppn kpt)
    \<and> (\<forall>v. PageTable_find_pte (km\<lparr>km_ram := ram'\<rparr>) pt v
         = (if hd (VirtPageNum_indexes v) \<in> set ls then PageTable_find_pte km kpt v else PageTable_find_pte km pt v))
    \<and> (\<forall>p. ppn_ok p \<longrightarrow> p \<noteq> pt_root_ppn pt \<longrightarrow> page_bytes (km\<lparr>km_ram := ram'\<rparr>) p = page_bytes km p)"
  using assms
proof (induction ls arbitrary: km)
  case Nil
  then show ?case by (intro exI [of _ "km_ram km"]) auto
next
  case (Cons i ls)
  let ?r = "pt_root_ppn pt" and ?k = "pt_root_ppn kpt"
  have i: "i < 512" "line_nodes (km_ram km) ?k i \<inter> table_nodes (km_ram km) ?r = {}" using Cons.prems(4,5) by auto
  define km1 where "km1 = write_pte km ?r i (read_pte km ?k i)"
  note g = graft_line [OF Cons.prems(1,2) i Cons.prems(6), folded km1_def]
  have tree: "tree_ok (km_ram km) ?k" "tree_ok (km_ram km) ?r" using Cons.prems(1,2) by (simp_all add: pt_ok_def)
  have "\<forall>j\<in>set ls. line_nodes (km_ram km1) ?k j \<inter> table_nodes (km_ram km1) ?r = {}"
  proof
    fix j assume j: "j \<in> set ls"
    then have "j < 512" "i \<noteq> j" "line_nodes (km_ram km) ?k j \<inter> table_nodes (km_ram km) ?r = {}" using Cons.prems(3-5) by auto
    then show "line_nodes (km_ram km1) ?k j \<inter> table_nodes (km_ram km1) ?r = {}"
      using g(5,8) line_nodes_disjoint [OF tree(1) i(1), of j] by auto
  qed
  moreover have "?r \<notin> table_nodes (km_ram km1) ?k" using Cons.prems(6) g(4) by simp
  ultimately obtain ram' where r: "map_kernel_lines km1 pt kpt ls = Some (km1\<lparr>km_ram := ram'\<rparr>)" "pt_ok (km1\<lparr>km_ram := ram'\<rparr>) pt used"
      "table_nodes ram' ?r \<subseteq> table_nodes (km_ram km1) ?r \<union> table_nodes (km_ram km1) ?k"
      "\<forall>v. PageTable_find_pte (km1\<lparr>km_ram := ram'\<rparr>) pt v
         = (if hd (VirtPageNum_indexes v) \<in> set ls then PageTable_find_pte km1 kpt v else PageTable_find_pte km1 pt v)"
      "\<forall>p. ppn_ok p \<longrightarrow> p \<noteq> ?r \<longrightarrow> page_bytes (km1\<lparr>km_ram := ram'\<rparr>) p = page_bytes km1 p"
    using Cons.IH [OF g(1,2)] Cons.prems(3,4) by auto
  have ram: "km1\<lparr>km_ram := ram'\<rparr> = km\<lparr>km_ram := ram'\<rparr>" by (simp add: km1_def write_pte_def)
  have "?r \<in> table_nodes (km_ram km) ?r" "?k \<in> table_nodes (km_ram km) ?k" by (auto simp: table_nodes_def intro: exI [of _ "[]"])
  then have "page_ref ?r = Some ()" "page_ref ?k = Some ()" using tree_ok_ppn tree phys_ok_page_ref by blast+
  then have "map_kernel_lines km pt kpt (i # ls) = Some (km\<lparr>km_ram := ram'\<rparr>)"
    using r(1) i(1) by (simp add: PageTable_root_pte_def PageTable_root_pte_mut_def km1_def [symmetric] ram PTE_PER_PAGE_eq)
  then show ?case
    using r(2-5) g(3-7) line_nodes_subset [OF i(1), of "km_ram km" ?k] unfolding ram by (intro exI [of _ ram']) auto
qed

section \<open>The copy of an address space\<close>

lemma new_bare_ok:
  assumes "frames_inv km used" "free_ppns km \<noteq> {}"
  obtains ms km' f where "MemorySet_new_bare km = Some (ms, km')" "ms_ok km' ms (insert f used)" "mem_step used km km' {f} {f}"
    "ms_areas ms = []" "translation km' (ms_page_table ms) = Map.empty" "table_nodes (km_ram km') (pt_root_ppn (ms_page_table ms)) = {f}"
    "pt_root_ppn (ms_page_table ms) = f" "km_arcs km' = km_arcs km"
proof -
  obtain f km' where r: "PageTable_with_root km = Some (\<lparr>pt_root_ppn = f, pt_frames = [frame1 f]\<rparr>, km')" "f \<in> free_ppns km" "free_ppns km' = free_ppns km - {f}"
    "pt_ok km' \<lparr>pt_root_ppn = f, pt_frames = [frame1 f]\<rparr> (insert f used)"
    "translation km' \<lparr>pt_root_ppn = f, pt_frames = [frame1 f]\<rparr> = Map.empty" "table_nodes (km_ram km') f = {f}"
    and bytes: "\<And>p off. ppn_ok p \<Longrightarrow> p \<noteq> f \<Longrightarrow> off < 4096 \<Longrightarrow> km_ram km' (page_addr p + off) = km_ram km (page_addr p + off)"
    and same: "km_syms km' = km_syms km" "km_satp km' = km_satp km" "km_arcs km' = km_arcs km"
    by (rule PageTable_with_root_spec [OF assms]) blast
  let ?ms = "\<lparr>ms_page_table = \<lparr>pt_root_ppn = f, pt_frames = [frame1 f]\<rparr>, ms_areas = []\<rparr>"
  have "mem_step used km km' {f} {f}" using r(2-4) bytes same by (auto simp: mem_step_def pt_ok_def page_bytes_eq)
  moreover have "ms_ok km' ?ms (insert f used)" using r(4,5) by (simp add: ms_ok_def areas_ok_def ms_pages_def ms_frames_def)
  moreover have "MemorySet_new_bare km = Some (?ms, km')" by (simp add: MemorySet_new_bare_def r(1))
  ultimately show ?thesis using that [of ?ms km' f] r(5,6) same(3) by simp
qed

text \<open>The pages of the upper half that a process shares with the kernel.\<close>

definition kernel_page :: "VirtPageNum \<Rightarrow> bool" where
  "kernel_page v \<longleftrightarrow> hd (VirtPageNum_indexes v) \<in> {508, 510, 511}"

lemma user_not_kernel: "vpn_val v < USER_PAGES \<Longrightarrow> \<not> kernel_page v"
proof -
  assume v: "vpn_val v < USER_PAGES"
  have "drop_bit 18 (vpn_val v) AND 511 < 256"
  proof -
    have "unat (drop_bit 18 (vpn_val v)) < 256" using v by (simp add: unat_drop_bit word_less_nat_alt)
    then have "drop_bit 18 (vpn_val v) < 256" by (simp add: word_less_nat_alt)
    then show ?thesis using word_and_le2 [of "drop_bit 18 (vpn_val v)" 511] by (rule order.strict_trans1 [rotated])
  qed
  then show ?thesis by (cases v) (auto simp: kernel_page_def VirtPageNum_indexes_eq simp del: VirtPageNum_indexes.simps)
qed

lemma share_kernel_part:
  assumes src: "ms_ok km src used" and dst: "ms_ok km dst used" and apart: "spaces_apart km src dst"
  obtains km' where "MemorySet_map_kernel_areas km dst (ms_page_table src) = Some km'" "ms_ok km' src used" "ms_ok km' dst used"
    "space_view km' src = space_view km src" "space_view km' dst = space_view km dst" "free_ppns km' = free_ppns km"
    "\<forall>v. kernel_page v \<longrightarrow> PageTable_find_pte km' (ms_page_table dst) v = PageTable_find_pte km (ms_page_table src) v"
    "\<forall>v. \<not> kernel_page v \<longrightarrow> PageTable_find_pte km' (ms_page_table dst) v = PageTable_find_pte km (ms_page_table dst) v"
proof -
  let ?s = "ms_page_table src" and ?d = "ms_page_table dst"
  have ok: "pt_ok km ?s used" "pt_ok km ?d used" using src dst by (simp_all add: ms_ok_def)
  have nodes: "table_nodes (km_ram km) (pt_root_ppn ?s) \<inter> table_nodes (km_ram km) (pt_root_ppn ?d) = {}"
    "set (ms_frames dst) \<inter> table_nodes (km_ram km) (pt_root_ppn ?s) = {}" "set (ms_frames src) \<inter> table_nodes (km_ram km) (pt_root_ppn ?d) = {}"
    using apart by (auto simp: spaces_apart_def)
  have root: "pt_root_ppn ?d \<in> table_nodes (km_ram km) (pt_root_ppn ?d)" by (auto simp: table_nodes_def intro: exI [of _ "[]"])
  have "\<forall>i\<in>set [508, 510, 511]. line_nodes (km_ram km) (pt_root_ppn ?s) i \<inter> table_nodes (km_ram km) (pt_root_ppn ?d) = {}"
  proof
    fix i :: usize assume "i \<in> set [508, 510, 511]"
    then have "i < 512" by auto
    from line_nodes_subset [OF this, of "km_ram km" "pt_root_ppn ?s"] nodes(1)
    show "line_nodes (km_ram km) (pt_root_ppn ?s) i \<inter> table_nodes (km_ram km) (pt_root_ppn ?d) = {}" by blast
  qed
  then obtain ram' where g: "map_kernel_lines km ?d ?s [508, 510, 511] = Some (km\<lparr>km_ram := ram'\<rparr>)" "pt_ok (km\<lparr>km_ram := ram'\<rparr>) ?d used"
      "table_nodes ram' (pt_root_ppn ?d) \<subseteq> table_nodes (km_ram km) (pt_root_ppn ?d) \<union> table_nodes (km_ram km) (pt_root_ppn ?s)"
      "\<forall>v. PageTable_find_pte (km\<lparr>km_ram := ram'\<rparr>) ?d v
         = (if hd (VirtPageNum_indexes v) \<in> set [508, 510, 511] then PageTable_find_pte km ?s v else PageTable_find_pte km ?d v)"
      "\<forall>p. ppn_ok p \<longrightarrow> p \<noteq> pt_root_ppn ?d \<longrightarrow> page_bytes (km\<lparr>km_ram := ram'\<rparr>) p = page_bytes km p"
    using map_kernel_lines_ok [OF ok(2,1), of "[508, 510, 511]"] nodes(1) root by auto
  define km' where "km' = km\<lparr>km_ram := ram'\<rparr>"
  note g' = g(1,2,4,5) [folded km'_def]
  have inv: "frames_inv km' used" "km_arcs km' = km_arcs km" "free_ppns km' = free_ppns km" "km_ram km' = ram'"
    using ok(1) by (simp_all add: km'_def pt_ok_def frames_inv_def free_ppns_def)
  have keep: "page_bytes km' p = page_bytes km p" if "p \<in> set (ms_frames src) \<union> table_nodes (km_ram km) (pt_root_ppn ?s) \<union> set (ms_frames dst)" for p
  proof -
    have "ppn_ok p" using that ms_frame_ok [OF src] ms_frame_ok [OF dst] tree_ok_ppn ok by (auto simp: pt_ok_def)
    moreover have "p \<noteq> pt_root_ppn ?d" using that nodes root dst by (auto simp: ms_ok_def)
    ultimately show ?thesis using g'(4) by blast
  qed
  note us = ms_untouched [OF src inv(1) order_refl]
  have find: "PageTable_find_pte km' ?d v = (if kernel_page v then PageTable_find_pte km ?s v else PageTable_find_pte km ?d v)" for v
    using g'(3) by (simp add: kernel_page_def)
  have tr: "translation km' ?d key = translation km ?d key" if "key < USER_PAGES" for key
    using user_not_kernel [of "VirtPageNum key"] that by (simp add: translation_def find)
  have "ms_ok km' dst used"
    unfolding ms_ok_def
  proof (intro conjI)
    have "area_ok km' ?d a" if "(k, a) \<in> set (ms_areas dst)" for k a
    proof (rule area_ok_cong)
      show a: "area_ok km ?d a" using that dst by (auto simp: ms_ok_def areas_ok_def)
      show "translation km' ?d (vpn_key v) = translation km ?d (vpn_key v)" if v: "v \<in> set (ma_range a)" for v
      proof -
        have "vpn_val v < USER_PAGES" by (rule area_frame_of [OF a v])
        then show ?thesis using tr user_key by simp
      qed
    qed (simp add: inv(2))
    then show "areas_ok km' ?d (ms_areas dst)" using dst by (auto simp: ms_ok_def areas_ok_def)
    show "set (ms_frames dst) \<inter> table_nodes (km_ram km') (pt_root_ppn ?d) = {}" using g(3) dst nodes(2) inv(4) by (auto simp: ms_ok_def)
  qed (use dst g'(2) tr in \<open>auto simp: ms_ok_def\<close>)
  moreover have "space_view km' dst = space_view km dst"
  proof
    fix key
    show "space_view km' dst key = space_view km dst key"
      using tr [of key] ms_frame_of [OF dst, of key] keep by (cases "translation km ?d key") (auto simp: space_view_def)
  qed
  ultimately show ?thesis using that [of km'] g'(1) us(1,4) keep inv(2,3) find by (simp add: MemorySet_map_kernel_areas_def)
qed

text \<open>
  Property C5. A copied address space. For a well-formed address space, and with enough free frames,
  \<^verbatim>\<open>from_existed_user\<close> returns a well-formed address space that shows the same bytes with the same
  permissions on every page of the lower half, on frames that the original does not have. The
  original is well formed still and shows what it did. The kernel's pages are those of the original.
\<close>

theorem from_existed_user_copies:
  assumes src: "ms_ok km src used" and free: "3 * length (ms_pages src) < card (free_ppns km)"
  shows "\<exists>dst km' N. MemorySet_from_existed_user km src = Some (dst, km') \<and> ms_ok km' dst (used \<union> N) \<and> ms_ok km' src (used \<union> N)
    \<and> N \<subseteq> free_ppns km \<and> space_view km' dst = space_view km src \<and> space_view km' src = space_view km src
    \<and> set (ms_frames dst) \<inter> set (ms_frames src) = {}
    \<and> (\<forall>v. kernel_page v \<longrightarrow> PageTable_find_pte km' (ms_page_table dst) v = PageTable_find_pte km (ms_page_table src) v)"
proof -
  let ?s = "ms_page_table src"
  have inv: "frames_inv km used" "free_ppns km \<noteq> {}" and ok: "pt_ok km ?s used" using src free by (auto simp: ms_ok_def pt_ok_def)
  obtain bare km0 f where b: "MemorySet_new_bare km = Some (bare, km0)" "ms_ok km0 bare (insert f used)" "mem_step used km km0 {f} {f}"
    "ms_areas bare = []" "translation km0 (ms_page_table bare) = Map.empty" "table_nodes (km_ram km0) (pt_root_ppn (ms_page_table bare)) = {f}"
    "pt_root_ppn (ms_page_table bare) = f" "km_arcs km0 = km_arcs km" by (rule new_bare_ok [OF inv])
  have f: "f \<in> free_ppns km" "f \<notin> used" "free_ppns km0 = free_ppns km - {f}" "frames_inv km0 (insert f used)"
    using b(3) inv(1) by (auto simp: mem_step_def frames_inv_def)
  have in_used: "set (ms_frames src) \<union> table_nodes (km_ram km) (pt_root_ppn ?s) \<subseteq> used" using src by (auto simp: ms_ok_def pt_ok_def)
  have okp: "ppn_ok p" if "p \<in> set (ms_frames src) \<union> table_nodes (km_ram km) (pt_root_ppn ?s)" for p
    using that ms_frame_ok [OF src] tree_ok_ppn ok by (auto simp: pt_ok_def)
  have keep0: "page_bytes km0 p = page_bytes km p" if "p \<in> set (ms_frames src) \<union> table_nodes (km_ram km) (pt_root_ppn ?s)" for p
    using b(3) okp [OF that] that in_used f(2) by (auto simp: mem_step_def)
  note u = ms_untouched [OF src f(4) subset_insertI]
  have src0: "ms_ok km0 src (insert f used)" "space_view km0 src = space_view km src"
    "table_nodes (km_ram km0) (pt_root_ppn ?s) = table_nodes (km_ram km) (pt_root_ppn ?s)" using u(1,2,4) keep0 b(8) by simp_all
  have pages: "areas_pages (ms_areas src) = ms_pages src" by (simp add: ms_pages_def)
  have bare: "ms_pages bare = []" "ms_frames bare = []" "\<And>key. space_view km0 bare key = None"
    using b(4,5) by (simp_all add: ms_pages_def ms_frames_def space_view_def)
  have "spaces_apart km0 src bare" unfolding spaces_apart_def src0(3) b(6) using in_used f(2) bare(2) by auto
  moreover have "3 * length (ms_pages src) \<le> card (free_ppns km0)"
    using free f(1,3) finite_free_ppns [OF inv(1)] by (simp add: card_Diff_singleton)
  moreover have "distinct (map fst (ms_areas src))" "distinct (ms_pages src)" using src btree_wf_distinct by (auto simp: ms_ok_def areas_ok_def)
  ultimately obtain dst km1 N where
    c: "copy_areas km0 src bare (map snd (ms_areas src)) = Some (dst, km1)" "ms_ok km1 src (insert f used \<union> N)" "ms_ok km1 dst (insert f used \<union> N)"
      "spaces_apart km1 src dst" "mem_step (insert f used) km0 km1 (insert f N) N" "space_view km1 src = space_view km0 src"
      "space_view km1 dst = (\<lambda>key. if VirtPageNum key \<in> set (ms_pages src) then space_view km0 src key else None)"
    using copy_areas_ok [OF src0(1) b(2), of "ms_areas src"] b(4,6) unfolding pages by (auto simp: bare cong: if_cong)
  obtain km2 where k: "MemorySet_map_kernel_areas km1 dst ?s = Some km2" "ms_ok km2 src (insert f used \<union> N)" "ms_ok km2 dst (insert f used \<union> N)"
    "space_view km2 src = space_view km1 src" "space_view km2 dst = space_view km1 dst" "free_ppns km2 = free_ppns km1"
    "\<forall>v. kernel_page v \<longrightarrow> PageTable_find_pte km2 (ms_page_table dst) v = PageTable_find_pte km1 ?s v"
    by (rule share_kernel_part [OF c(2-4)]) blast
  have "mem_step used km km1 (insert f N) (insert f N)"
    using mem_step_trans [of used km km0 "{f}" "{f}" km1 "insert f N" N] b(3) c(5) by simp
  then have N: "insert f N \<subseteq> free_ppns km" "\<forall>p. ppn_ok p \<longrightarrow> p \<notin> insert f N \<longrightarrow> page_bytes km1 p = page_bytes km p" "frames_inv km1 (used \<union> insert f N)"
    by (simp_all add: mem_step_def)
  have "page_bytes km1 p = page_bytes km p" if "p \<in> table_nodes (km_ram km) (pt_root_ppn ?s)" for p
  proof -
    have "p \<notin> insert f N" using N(1) that in_used inv(1) by (auto simp: frames_inv_def)
    then show ?thesis using N(2) okp that by blast
  qed
  from pt_untouched(4) [OF ok this N(3)] have find: "PageTable_find_pte km1 ?s v = PageTable_find_pte km ?s v" for v by blast
  have "space_view km src key = None" if "VirtPageNum key \<notin> set (ms_pages src)" for key
    using src that by (auto simp: ms_ok_def space_view_def)
  then have "space_view km2 dst = space_view km src" using k(5) c(7) src0(2) by (auto simp: fun_eq_iff)
  moreover have "MemorySet_from_existed_user km src = Some (dst, km2)" using b(1) c(1) k(1) by (simp add: MemorySet_from_existed_user_def)
  moreover have "set (ms_frames dst) \<inter> set (ms_frames src) = {}" using c(4) by (auto simp: spaces_apart_def)
  ultimately show ?thesis using k(2-4,7) c(6) src0(2) N(1) find
    by (intro exI [of _ dst] exI [of _ km2] exI [of _ "insert f N"]) simp
qed

lemma example_space:
  obtains km ms used a where "ms_ok km ms used" "ms_areas ms = [(VirtPageNum 0x10, a)]" "ma_start a = VirtPageNum 0x10" "ma_end a = VirtPageNum 0x12"
    "ma_map_perm a = MP_R OR MP_U" "space_view km ms 0x10 = Some (replicate 4096 0, (MP_R OR MP_U) OR PTE_V)" "20 \<le> card (free_ppns km)"
proof -
  from init_frames [OF example_mem_ok] obtain km0 where km0: "frames_inv km0 {}" "free_ppns km0 = phys_ppns example_mem" by metis
  let ?A = "(\<lambda>n. PhysPageNum (0x80240 + word_of_nat n)) ` {..<30}"
  have sub: "?A \<subseteq> free_ppns km0"
  proof
    fix p assume "p \<in> ?A"
    then obtain n where n: "p = PhysPageNum (0x80240 + word_of_nat n)" "n < 30" by auto
    have "unat (0x80240 + word_of_nat n :: usize) = 0x80240 + n" using n(2) by (simp add: unat_word_ariths unat_of_nat take_bit_nat_eq_self)
    then show "p \<in> free_ppns km0" using n unfolding km0(2) phys_ppns_def example_begin by (simp add: word_le_nat_alt word_less_nat_alt)
  qed
  have "inj_on (\<lambda>n. PhysPageNum (0x80240 + word_of_nat n)) {..<30}"
    by (auto simp: inj_on_def word_of_nat_eq_iff take_bit_nat_eq_self)
  then have "30 \<le> card (free_ppns km0)" using card_mono [OF finite_free_ppns [OF km0(1)] sub] by (simp add: card_image)
  moreover from this have "free_ppns km0 \<noteq> {}" by auto
  then obtain bare km1 f where b: "ms_ok km1 bare (insert f {})" "mem_step {} km0 km1 {f} {f}" "ms_areas bare = []"
    by (rule new_bare_ok [OF km0(1)])
  ultimately have free1: "29 \<le> card (free_ppns km1)" by (simp add: mem_step_def card_Diff_singleton_if)
  have rng: "length (vpn_range (VirtPageNum 0x10) (VirtPageNum 0x12)) = 2" by (simp add: length_vpn_range)
  have "vpn_val (VirtPageNum 0x12) \<le> USER_PAGES" "set (vpn_range (VirtPageNum 0x10) (VirtPageNum 0x12)) \<inter> set (ms_pages bare) = {}"
    "VirtPageNum 0x10 \<notin> fst ` set (ms_areas bare)" "3 * length (vpn_range (VirtPageNum 0x10) (VirtPageNum 0x12)) \<le> card (free_ppns km1)"
    unfolding rng using b(3) free1 by (simp_all add: ms_pages_def)
  then obtain ms km N where i: "ms_ok km ms (insert f {} \<union> N)" "mem_step (insert f {}) km1 km (table_nodes (km_ram km1) (pt_root_ppn (ms_page_table bare)) \<union> N) N"
    "card N \<le> 3 * length (vpn_range (VirtPageNum 0x10) (VirtPageNum 0x12))"
    "space_view km ms = (\<lambda>key. if VirtPageNum key \<in> set (vpn_range (VirtPageNum 0x10) (VirtPageNum 0x12)) then Some (replicate 4096 0, (MP_R OR MP_U) OR PTE_V) else space_view km1 bare key)"
    "\<exists>a. ms_areas ms = btree_insert (VirtPageNum 0x10) a (ms_areas bare) \<and> ma_start a = VirtPageNum 0x10 \<and> ma_end a = VirtPageNum 0x12 \<and> ma_map_perm a = MP_R OR MP_U"
    by (rule insert_framed_area_ok [OF b(1)])
  from i(5) b(3) obtain a where "ms_areas ms = [(VirtPageNum 0x10, a)]" "ma_start a = VirtPageNum 0x10" "ma_end a = VirtPageNum 0x12" "ma_map_perm a = MP_R OR MP_U" by auto
  moreover have "space_view km ms 0x10 = Some (replicate 4096 0, (MP_R OR MP_U) OR PTE_V)"
    using i(4) by (simp add: set_vpn_range less_eq_VirtPageNum_def less_VirtPageNum_def del: vpn_range.simps)
  moreover have "20 \<le> card (free_ppns km)"
  proof -
    have N: "N \<subseteq> free_ppns km1" "free_ppns km = free_ppns km1 - N" using i(2) by (simp_all add: mem_step_def)
    have "frames_inv km1 (insert f {})" using b(1) by (simp add: ms_ok_def pt_ok_def)
    then have "finite N" using finite_subset [OF N(1) finite_free_ppns] by blast
    then have "card (free_ppns km1) - card N \<le> card (free_ppns km)" unfolding N(2) by (rule diff_card_le_card_Diff)
    then show ?thesis using i(3) free1 unfolding rng by linarith
  qed
  ultimately show ?thesis using that i(1) by blast
qed

theorem from_existed_user_copies_witness:
  "\<exists>km src dst km'. MemorySet_from_existed_user km src = Some (dst, km')
     \<and> space_view km src 0x10 = Some (replicate 4096 0, (MP_R OR MP_U) OR PTE_V)
     \<and> space_view km' dst 0x10 = Some (replicate 4096 0, (MP_R OR MP_U) OR PTE_V)
     \<and> set (ms_frames dst) \<inter> set (ms_frames src) = {}"
proof -
  obtain km ms used a where e: "ms_ok km ms used" "ms_areas ms = [(VirtPageNum 0x10, a)]" "ma_start a = VirtPageNum 0x10" "ma_end a = VirtPageNum 0x12"
    "space_view km ms 0x10 = Some (replicate 4096 0, (MP_R OR MP_U) OR PTE_V)" "20 \<le> card (free_ppns km)"
    by (rule example_space)
  have "length (ms_pages ms) = 2" using e(2-4) by (simp add: ms_pages_def length_vpn_range)
  then have "3 * length (ms_pages ms) < card (free_ppns km)" using e(6) by simp
  from from_existed_user_copies [OF e(1) this] e(5) show ?thesis by metis
qed

end
