(* ===== verification/Memory_Brk.thy ===== *)
theory Memory_Brk
  imports Memory_Fork
begin

text \<open>
  Growing, shrinking and removing segments (\<^verbatim>\<open>set_user_brk\<close>, \<^verbatim>\<open>remove_area_with_start_vpn\<close>,
  \<^verbatim>\<open>try_map\<close> in \<^verbatim>\<open>memory/src/memory_set.rs\<close>), with what a process sees before and after.
\<close>

section \<open>Unmapping pages\<close>

lemma unmap_one_framed:
  assumes ok: "pt_ok km pt used" and a: "ma_map_type a = Framed dfs" "map_of dfs v = Some ft"
    and ft: "km_arcs km (ft_ppn ft) = 1" "ft_num ft = 1" "ram_ppn (ft_ppn ft)" and mapped: "translation km pt (vpn_key v) \<noteq> None"
  obtains km' where "MapArea_unmap_one km a pt v = Some (a\<lparr>ma_map_type := Framed (btree_remove v dfs)\<rparr>, pt, km')"
    "pt_ok km' pt used" "mem_step used km km' (table_nodes (km_ram km) (pt_root_ppn pt)) {}"
    "table_nodes (km_ram km') (pt_root_ppn pt) = table_nodes (km_ram km) (pt_root_ppn pt)"
    "translation km' pt = (translation km pt)(vpn_key v := None)" "km_arcs km' = (km_arcs km)(ft_ppn ft := 0)"
proof -
  define km0 where "km0 = km\<lparr>km_arcs := (km_arcs km)(ft_ppn ft := 0)\<rparr>"
  define km1 where "km1 = FrameTracker_drop km0 ft"
  have inv0: "frames_inv km0 used" using ok by (simp add: km0_def pt_ok_def frames_inv_def free_ppns_def)
  have "2 ^ 15 \<le> unat (ppn_val (ft_ppn ft) + ft_num ft)"
  proof -
    have "unat (ppn_val (ft_ppn ft)) < 0x88000" "0x80200 \<le> unat (ppn_val (ft_ppn ft))" using ft(3) by (simp_all add: ram_ppn_def word_less_nat_alt word_le_nat_alt)
    then show ?thesis using ft(2) by (simp add: unat_word_ariths)
  qed
  note d = FrameTracker_drop_inv [OF inv0 this, folded km1_def]
  have same: "km_arcs km1 = (km_arcs km)(ft_ppn ft := 0)" "km_satp km1 = km_satp km" "km_ram km1 = km_ram km" "free_ppns km1 = free_ppns km" "km_syms km1 = km_syms km"
    using d(2-4) by (simp_all add: km1_def FrameTracker_drop_def frame_dealloc_def km0_def free_ppns_def)
  have bytes1: "page_bytes km1 p = page_bytes km p" for p by (simp add: page_bytes_def same(3))
  note u = pt_untouched [OF ok bytes1 d(1) order_refl]
  obtain pte where "PageTable_find_pte km1 pt v = Some (Some pte)"
    using mapped u(4) by (auto simp: translation_key split: option.splits)
  then obtain km' where m: "PageTable_unmap km1 pt v = Some (pt, km')" "pt_ok km' pt used" "free_ppns km' = free_ppns km1"
    and f: "\<And>w. PageTable_find_pte km' pt w = (if vpn_key w = vpn_key v then Some None else PageTable_find_pte km1 pt w)"
    and ram: "\<And>p off. ppn_ok p \<Longrightarrow> p \<notin> table_nodes (km_ram km1) (pt_root_ppn pt) \<Longrightarrow> off < 4096 \<Longrightarrow>
        km_ram km' (page_addr p + off) = km_ram km1 (page_addr p + off)"
    and s: "km_syms km' = km_syms km1" "km_satp km' = km_satp km1" "km_arcs km' = km_arcs km1"
      "table_nodes (km_ram km') (pt_root_ppn pt) = table_nodes (km_ram km1) (pt_root_ppn pt)"
    by (rule PageTable_unmap_spec [OF u(1)]) blast
  have "drop_replaced km (map_of dfs v) = km1" using a(2) ft(1) by (simp add: drop_replaced_def arc_drop_def km1_def km0_def)
  then have "MapArea_unmap_one km a pt v = Some (a\<lparr>ma_map_type := Framed (btree_remove v dfs)\<rparr>, pt, km')"
    using a(1) m(1) by (simp add: MapArea_unmap_one_def)
  moreover have "translation km' pt = (translation km pt)(vpn_key v := None)" using translation_update [OF f] u(2) by simp
  moreover have "mem_step used km km' (table_nodes (km_ram km) (pt_root_ppn pt)) {}"
    using m(2,3) s(1,2) ram same bytes1 by (auto simp: mem_step_def pt_ok_def page_bytes_eq)
  ultimately show ?thesis using that [of km'] m(2) s(3,4) same by simp
qed

definition unmapped_pages :: "PhysPageNum set \<Rightarrow> kernel_mem \<Rightarrow> PageTable \<Rightarrow> VirtPageNum list \<Rightarrow> PhysPageNum set \<Rightarrow> kernel_mem \<Rightarrow> bool" where
  "unmapped_pages used km pt vpns F km' \<longleftrightarrow> pt_ok km' pt used \<and> mem_step used km km' (table_nodes (km_ram km) (pt_root_ppn pt)) {}
     \<and> table_nodes (km_ram km') (pt_root_ppn pt) = table_nodes (km_ram km) (pt_root_ppn pt)
     \<and> translation km' pt = (\<lambda>key. if key \<in> vpn_key ` set vpns then None else translation km pt key)
     \<and> km_arcs km' = (\<lambda>p. if p \<in> F then 0 else km_arcs km p)"

lemma unmap_pages_framed:
  assumes "pt_ok km pt used" "ma_map_type a = Framed dfs" "distinct vpns" "set vpns \<subseteq> fst ` set dfs" "distinct (map fst dfs)"
    "\<forall>(v, ft)\<in>set dfs. ft_num ft = 1 \<and> km_arcs km (ft_ppn ft) = 1 \<and> ram_ppn (ft_ppn ft) \<and> translation km pt (vpn_key v) \<noteq> None"
    "distinct (map (\<lambda>(v, ft). ft_ppn ft) dfs)" "inj_on vpn_key (fst ` set dfs)"
  shows "\<exists>km'. unmap_pages km a pt vpns = Some (a\<lparr>ma_map_type := Framed (filter (\<lambda>(v, ft). v \<notin> set vpns) dfs)\<rparr>, pt, km')
    \<and> unmapped_pages used km pt vpns {ft_ppn ft | v ft. (v, ft) \<in> set dfs \<and> v \<in> set vpns} km'"
  using assms
proof (induction vpns arbitrary: km a dfs)
  case Nil
  have "mem_step used km km (table_nodes (km_ram km) (pt_root_ppn pt)) {}"
    using Nil.prems(1) by (intro mem_step_mono [OF mem_step_refl]) (auto simp: pt_ok_def)
  then show ?case using Nil.prems(1,2) by (cases a) (auto simp: unmapped_pages_def)
next
  case (Cons v vpns)
  obtain ft where ft: "(v, ft) \<in> set dfs" using Cons.prems(4) by auto
  then have m: "map_of dfs v = Some ft" using Cons.prems(5) by simp
  have "km_arcs km (ft_ppn ft) = 1" "ft_num ft = 1" "ram_ppn (ft_ppn ft)" "translation km pt (vpn_key v) \<noteq> None" using ft Cons.prems(6) by auto
  from unmap_one_framed [OF Cons.prems(1,2) m this] obtain km1 where
    u: "MapArea_unmap_one km a pt v = Some (a\<lparr>ma_map_type := Framed (btree_remove v dfs)\<rparr>, pt, km1)"
      "pt_ok km1 pt used" "mem_step used km km1 (table_nodes (km_ram km) (pt_root_ppn pt)) {}"
      "table_nodes (km_ram km1) (pt_root_ppn pt) = table_nodes (km_ram km) (pt_root_ppn pt)"
      "translation km1 pt = (translation km pt)(vpn_key v := None)" "km_arcs km1 = (km_arcs km)(ft_ppn ft := 0)" .
  let ?dfs = "btree_remove v dfs" and ?a = "a\<lparr>ma_map_type := Framed (btree_remove v dfs)\<rparr>"
  have sub: "set ?dfs = {(w, ft'). (w, ft') \<in> set dfs \<and> w \<noteq> v}" by (auto simp: btree_remove_def)
  have other: "ft_ppn ft' \<noteq> ft_ppn ft" "vpn_key w \<noteq> vpn_key v" if "(w, ft') \<in> set dfs" "w \<noteq> v" for w ft'
  proof -
    have "inj_on (\<lambda>(v, ft). ft_ppn ft) (set dfs)" using Cons.prems(7) by (simp add: distinct_map)
    then show "ft_ppn ft' \<noteq> ft_ppn ft" using that ft by (auto simp: inj_on_def)
    show "vpn_key w \<noteq> vpn_key v" using Cons.prems(8) that ft by (force simp: inj_on_def)
  qed
  have vs: "v \<notin> set vpns" "distinct vpns" using Cons.prems(3) by simp_all
  have "set vpns \<subseteq> fst ` set ?dfs"
  proof
    fix w assume w: "w \<in> set vpns"
    then have "w \<in> fst ` set dfs" "w \<noteq> v" using Cons.prems(4) vs(1) by auto
    then show "w \<in> fst ` set ?dfs" unfolding sub by force
  qed
  moreover have "distinct (map fst ?dfs)" "distinct (map (\<lambda>(v, ft). ft_ppn ft) ?dfs)"
    using Cons.prems(5,7) by (simp_all add: btree_remove_def distinct_map_filter)
  moreover have "inj_on vpn_key (fst ` set ?dfs)" using Cons.prems(8) by (rule inj_on_subset) (auto simp: sub)
  moreover have "\<forall>(w, ft')\<in>set ?dfs. ft_num ft' = 1 \<and> km_arcs km1 (ft_ppn ft') = 1 \<and> ram_ppn (ft_ppn ft') \<and> translation km1 pt (vpn_key w) \<noteq> None"
    using Cons.prems(6) other u(5,6) unfolding sub by fastforce
  ultimately obtain km' where i: "unmap_pages km1 ?a pt vpns = Some (?a\<lparr>ma_map_type := Framed (filter (\<lambda>(v, ft). v \<notin> set vpns) ?dfs)\<rparr>, pt, km')"
    "unmapped_pages used km1 pt vpns {ft_ppn ft | v ft. (v, ft) \<in> set ?dfs \<and> v \<in> set vpns} km'"
    using Cons.IH [OF u(2), of ?a ?dfs] vs(2) by auto
  have "filter (\<lambda>(w, ft). w \<notin> set vpns) ?dfs = filter (\<lambda>(w, ft). w \<notin> set (v # vpns)) dfs"
    unfolding btree_remove_def filter_filter by (rule filter_cong) auto
  then have run: "unmap_pages km a pt (v # vpns) = Some (a\<lparr>ma_map_type := Framed (filter (\<lambda>(w, ft). w \<notin> set (v # vpns)) dfs)\<rparr>, pt, km')"
    using u(1) i(1) by simp
  have F: "{ft_ppn ft | w ft. (w, ft) \<in> set dfs \<and> w \<in> set (v # vpns)} = insert (ft_ppn ft) {ft_ppn ft | w ft. (w, ft) \<in> set ?dfs \<and> w \<in> set vpns}"
  proof -
    have uniq: "ft' = ft" if "(v, ft') \<in> set dfs" for ft' using eq_key_imp_eq_value [OF Cons.prems(5) that ft] .
    have "w = v \<and> ft' = ft \<or> (w, ft') \<in> set ?dfs \<and> w \<in> set vpns" if "(w, ft') \<in> set dfs" "w \<in> set (v # vpns)" for w ft'
      using that uniq unfolding sub by auto
    moreover have "(w, ft') \<in> set dfs" if "(w, ft') \<in> set ?dfs" for w ft' using that unfolding sub by simp
    ultimately show ?thesis using ft by (intro set_eqI) (auto; blast)
  qed
  have "mem_step used km km' (table_nodes (km_ram km) (pt_root_ppn pt)) {}"
    using mem_step_trans [OF u(3), of km' "table_nodes (km_ram km1) (pt_root_ppn pt)" "{}"] i(2) u(4) by (simp add: unmapped_pages_def)
  then have "unmapped_pages used km pt (v # vpns) {ft_ppn ft | w ft. (w, ft) \<in> set dfs \<and> w \<in> set (v # vpns)} km'"
    using i(2) u(4-6) unfolding F unmapped_pages_def by (auto simp: fun_eq_iff)
  with run show ?case by blast
qed

section \<open>Taking pages away\<close>

text \<open>
  The segment \<^term>\<open>a\<close> is replaced by \<^term>\<open>mid\<close>, a shorter one or none, after its pages \<^term>\<open>R\<close> are unmapped.
\<close>

lemma ms_take_away:
  assumes ok: "ms_ok km ms used" and un: "unmapped_pages used km (ms_page_table ms) R (set F) km'"
    and areas: "ms_areas ms = us @ (k, a) # vs" "ms_areas ms' = us @ mid @ vs" "ms_page_table ms' = ms_page_table ms" "btree_wf (ms_areas ms')"
    and a: "ma_range a = areas_pages mid @ R" "area_frames a = areas_frames mid @ F"
    and mid: "\<forall>(l, b)\<in>set mid. l = ma_start b \<and> area_ok km' (ms_page_table ms) b"
  shows "ms_ok km' ms' used" "space_view km' ms' = (\<lambda>key. if VirtPageNum key \<in> set R then None else space_view km ms key)"
    "set (ms_pages ms') = set (ms_pages ms) - set R"
proof -
  let ?pt = "ms_page_table ms"
  have o: "pt_ok km ?pt used" "areas_ok km ?pt (ms_areas ms)" "distinct (ms_pages ms)" "distinct (ms_frames ms)" "set (ms_frames ms) \<subseteq> used \<inter> Collect ram_ppn"
      "set (ms_frames ms) \<inter> table_nodes (km_ram km) (pt_root_ppn ?pt) = {}"
      "\<forall>key < USER_PAGES. translation km ?pt key \<noteq> None \<longrightarrow> VirtPageNum key \<in> set (ms_pages ms)"
    using ok unfolding ms_ok_def by blast+
  have m: "pt_ok km' ?pt used" "mem_step used km km' (table_nodes (km_ram km) (pt_root_ppn ?pt)) {}"
     "table_nodes (km_ram km') (pt_root_ppn ?pt) = table_nodes (km_ram km) (pt_root_ppn ?pt)"
     "translation km' ?pt = (\<lambda>key. if key \<in> vpn_key ` set R then None else translation km ?pt key)"
     "km_arcs km' = (\<lambda>p. if p \<in> set F then 0 else km_arcs km p)"
    using un by (simp_all add: unmapped_pages_def)
  show pages: "set (ms_pages ms') = set (ms_pages ms) - set R" using o(3) a(1) by (auto simp: ms_pages_def areas)
  have frames: "set (ms_frames ms') \<subseteq> set (ms_frames ms)" "distinct (ms_frames ms')" "distinct (ms_pages ms')"
    using o(3,4) a by (auto simp: ms_frames_def ms_pages_def areas)
  have aok: "area_ok km ?pt a" using o(2) areas(1) by (auto simp: areas_ok_def)
  have user: "vpn_key v = vpn_val v" if "v \<in> set R" for v
    using area_frame_of [OF aok, of v] that a(1) user_key by auto
  then have keys: "key \<in> vpn_key ` set R \<longleftrightarrow> VirtPageNum key \<in> set R" for key by (force simp: image_iff)
  have "area_ok km' ?pt b" "l = ma_start b" if b: "(l, b) \<in> set (us @ vs)" for l b
  proof -
    have b': "(l, b) \<in> set (ms_areas ms)" using b areas(1) by auto
    show "l = ma_start b" using o(2) b' by (auto simp: areas_ok_def)
    have bok: "area_ok km ?pt b" using o(2) b' by (auto simp: areas_ok_def)
    have d: "set (area_frames b) \<inter> set F = {}" "set (ma_range b) \<inter> set R = {}"
      using o(3,4) areas_mem [OF b] a by (auto simp: ms_frames_def ms_pages_def areas(1))
    show "area_ok km' ?pt b"
    proof (rule area_ok_cong [OF bok])
      show "km_arcs km' p = km_arcs km p" if "p \<in> set (area_frames b)" for p using that d(1) m(5) by auto
      show "translation km' ?pt (vpn_key v) = translation km ?pt (vpn_key v)" if v: "v \<in> set (ma_range b)" for v
      proof -
        have "vpn_key v = vpn_val v" using area_frame_of [OF bok v] user_key by blast
        then have "vpn_key v \<notin> vpn_key ` set R" using v d(2) keys [of "vpn_key v"] by auto
        then show ?thesis by (simp add: m(4))
      qed
    qed
  qed
  then have "areas_ok km' ?pt (ms_areas ms')" using mid areas unfolding areas_ok_def by auto
  moreover have "\<forall>key < USER_PAGES. translation km' ?pt key \<noteq> None \<longrightarrow> VirtPageNum key \<in> set (ms_pages ms')"
    using o(7) m(4) keys unfolding pages by auto
  moreover have "set (ms_frames ms') \<inter> table_nodes (km_ram km') (pt_root_ppn ?pt) = {}" using frames(1) o(6) m(3) by blast
  moreover have "set (ms_frames ms') \<subseteq> used \<inter> Collect ram_ppn" using frames(1) o(5) by blast
  ultimately show "ms_ok km' ms' used" using m(1) frames(2,3) areas(3) by (simp add: ms_ok_def)
  show "space_view km' ms' = (\<lambda>key. if VirtPageNum key \<in> set R then None else space_view km ms key)"
  proof
    fix key
    have "page_bytes km' p = page_bytes km p" if "key < USER_PAGES" "translation km ?pt key = Some (p, fl)" for p fl
    proof -
      have p: "p \<in> set (ms_frames ms)" using ms_frame_of [OF ok that] .
      then have "p \<notin> table_nodes (km_ram km) (pt_root_ppn ?pt)" using o(6) by blast
      then show ?thesis using m(2) ms_frame_ok [OF ok p] by (simp add: mem_step_def)
    qed
    then show "space_view km' ms' key = (if VirtPageNum key \<in> set R then None else space_view km ms key)"
      by (cases "translation km ?pt key") (auto simp: space_view_def areas(3) m(4) keys)
  qed
qed

text \<open>Unmapping the last pages \<^term>\<open>R\<close> of a segment.\<close>

lemma unmap_suffix:
  assumes ok: "ms_ok km ms used" and a: "(k, a) \<in> set (ms_areas ms)" "ma_range a = K @ R"
  obtains km' dK FR where "unmap_pages km a (ms_page_table ms) R = Some (a\<lparr>ma_map_type := Framed dK\<rparr>, ms_page_table ms, km')"
    "unmapped_pages used km (ms_page_table ms) R (set FR) km'" "area_frames a = map (\<lambda>(v, ft). ft_ppn ft) dK @ FR" "map fst dK = K"
    "\<forall>(v, ft)\<in>set dK. ft_num ft = 1 \<and> km_arcs km' (ft_ppn ft) = 1
       \<and> translation km' (ms_page_table ms) (vpn_key v) = Some (ft_ppn ft, ma_map_perm a OR PTE_V)"
proof -
  let ?pt = "ms_page_table ms"
  note pa = ms_area_parts [OF ok a(1)]
  obtain dfs where d: "ma_map_type a = Framed dfs" "map fst dfs = ma_range a" "btree_wf dfs" "area_frames a = map ft_ppn (map snd dfs)"
    "\<forall>(v, ft)\<in>set dfs. ft_num ft = 1 \<and> km_arcs km (ft_ppn ft) = 1 \<and> translation km ?pt (vpn_key v) = Some (ft_ppn ft, ma_map_perm a OR PTE_V)"
    "vpn_val (ma_end a) \<le> USER_PAGES" by (rule area_okE [OF pa(2)])
  have pt: "pt_ok km ?pt used" and ram: "set (area_frames a) \<subseteq> Collect ram_ppn" using ok pa(4) by (auto simp: ms_ok_def)
  have frames: "area_frames a = map (\<lambda>(v, ft). ft_ppn ft) dfs" unfolding d(4) by (simp add: case_prod_beta)
  have keys: "fst ` set dfs = set (ma_range a)" using arg_cong [OF d(2), of set] by simp
  have dist: "distinct (map fst dfs)" "distinct (K @ R)" using distinct_vpn_range [of "ma_start a" "ma_end a"] unfolding d(2) a(2) by simp_all
  define dK where "dK = take (length K) dfs"
  define dR where "dR = drop (length K) dfs"
  have split: "dfs = dK @ dR" "map fst dK = K" "map fst dR = R" using d(2) a(2) by (simp_all add: dK_def dR_def take_map [symmetric] drop_map [symmetric])
  have sK: "fst p \<notin> set R" if "p \<in> set dK" for p
  proof -
    have "fst p \<in> set K" using that unfolding split(2) [symmetric] by simp
    then show ?thesis using dist(2) by auto
  qed
  have sR: "fst p \<in> set R" if "p \<in> set dR" for p using that split(3) by auto
  then have filt: "filter (\<lambda>(v, ft). v \<notin> set R) dfs = dK"
    unfolding split(1) using sK by (simp add: case_prod_beta filter_id_conv filter_empty_conv)
  have FR: "{ft_ppn ft | v ft. (v, ft) \<in> set dfs \<and> v \<in> set R} = set (map (\<lambda>(v, ft). ft_ppn ft) dR)"
  proof -
    have mem: "(v, ft) \<in> set dfs \<and> v \<in> set R \<longleftrightarrow> (v, ft) \<in> set dR" for v ft
      using sK [of "(v, ft)"] sR [of "(v, ft)"] unfolding split(1) by auto
    have "{f v ft | v ft. (v, ft) \<in> A} = (\<lambda>(v, ft). f v ft) ` A" for f :: "VirtPageNum \<Rightarrow> FrameTracker \<Rightarrow> PhysPageNum" and A
      by (auto simp: image_iff)
    then show ?thesis unfolding mem set_map .
  qed
  have inj: "inj_on vpn_key (fst ` set dfs)" using user_range_keys(2) [OF d(6), of "ma_start a"] unfolding keys by (simp add: distinct_map)
  have handles: "\<forall>(v, ft)\<in>set dfs. ft_num ft = 1 \<and> km_arcs km (ft_ppn ft) = 1 \<and> ram_ppn (ft_ppn ft) \<and> translation km ?pt (vpn_key v) \<noteq> None"
    using d(5) ram unfolding frames by fastforce
  have "distinct (map (\<lambda>(v, ft). ft_ppn ft) dfs)" "distinct R" "set R \<subseteq> fst ` set dfs" using pa(3) dist(2) unfolding frames keys a(2) by auto
  then obtain km' where u: "unmap_pages km a ?pt R = Some (a\<lparr>ma_map_type := Framed dK\<rparr>, ?pt, km')"
    "unmapped_pages used km ?pt R (set (map (\<lambda>(v, ft). ft_ppn ft) dR)) km'"
    using unmap_pages_framed [OF pt d(1) _ _ dist(1) handles _ inj, of R] unfolding filt FR by blast
  have apart: "ft_ppn ft \<notin> set (map (\<lambda>(v, ft). ft_ppn ft) dR) \<and> vpn_key v \<notin> vpn_key ` set R" if v: "(v, ft) \<in> set dK" for v ft
  proof
    have "distinct (map (\<lambda>(v, ft). ft_ppn ft) dK @ map (\<lambda>(v, ft). ft_ppn ft) dR)" using pa(3) unfolding frames split(1) by simp
    moreover have "ft_ppn ft \<in> set (map (\<lambda>(v, ft). ft_ppn ft) dK)" using v by force
    ultimately show "ft_ppn ft \<notin> set (map (\<lambda>(v, ft). ft_ppn ft) dR)" unfolding distinct_append by blast
    have "v \<in> set K" using v unfolding split(2) [symmetric] by force
    moreover have "v \<notin> set R" using sK [OF v] by simp
    moreover have "inj_on vpn_key (set (K @ R))" using inj unfolding keys a(2) .
    ultimately show "vpn_key v \<notin> vpn_key ` set R" by (auto dest: inj_onD)
  qed
  have "ft_num ft = 1 \<and> km_arcs km' (ft_ppn ft) = 1
       \<and> translation km' ?pt (vpn_key v) = Some (ft_ppn ft, ma_map_perm a OR PTE_V)" if v: "(v, ft) \<in> set dK" for v ft
    using apart [OF v] bspec [OF d(5), of "(v, ft)"] v u(2) unfolding split(1) unmapped_pages_def by simp
  then have "\<forall>(v, ft)\<in>set dK. ft_num ft = 1 \<and> km_arcs km' (ft_ppn ft) = 1
       \<and> translation km' ?pt (vpn_key v) = Some (ft_ppn ft, ma_map_perm a OR PTE_V)" by blast
  moreover have "area_frames a = map (\<lambda>(v, ft). ft_ppn ft) dK @ map (\<lambda>(v, ft). ft_ppn ft) dR" unfolding frames split(1) by simp
  ultimately show ?thesis by (intro that [OF u _ split(2)])
qed

lemma btree_remove_split:
  assumes "btree_wf (us @ (k, a) # vs)"
  shows "btree_remove k (us @ (k, a) # vs) = us @ vs"
proof -
  have "distinct (map fst (us @ (k, a) # vs))" using btree_wf_distinct [OF assms] .
  then have "\<forall>p\<in>set us. fst p \<noteq> k" "\<forall>p\<in>set vs. fst p \<noteq> k" by auto
  then show ?thesis by (simp add: btree_remove_def)
qed

lemma shrink_ok:
  assumes ok: "ms_ok km ms used" and a: "map_of (ms_areas ms) h = Some a" and m: "h \<le> m" "m \<le> ma_end a"
  obtains a' km' where "MapArea_shrink km a m (ms_page_table ms) = Some (a', ms_page_table ms, km')"
    "ms_ok km' (ms\<lparr>ms_areas := btree_insert h a' (ms_areas ms)\<rparr>) used" "mem_step used km km' (table_nodes (km_ram km) (pt_root_ppn (ms_page_table ms))) {}"
    "space_view km' (ms\<lparr>ms_areas := btree_insert h a' (ms_areas ms)\<rparr>)
       = (\<lambda>key. if VirtPageNum key \<in> set (vpn_range m (ma_end a)) then None else space_view km ms key)"
    "set (ms_pages (ms\<lparr>ms_areas := btree_insert h a' (ms_areas ms)\<rparr>)) = set (ms_pages ms) - set (vpn_range m (ma_end a))"
proof -
  let ?pt = "ms_page_table ms"
  have wf: "btree_wf (ms_areas ms)" using ok by (simp add: ms_ok_def areas_ok_def)
  have mem: "(h, a) \<in> set (ms_areas ms)" using a by (rule map_of_SomeD)
  note pa = ms_area_parts [OF ok mem]
  have range: "ma_range a = vpn_range h m @ vpn_range m (ma_end a)" using vpn_range_append [OF m] pa(1) by simp
  obtain km' dK FR where u: "unmap_pages km a ?pt (vpn_range m (ma_end a)) = Some (a\<lparr>ma_map_type := Framed dK\<rparr>, ?pt, km')"
    "unmapped_pages used km ?pt (vpn_range m (ma_end a)) (set FR) km'" "area_frames a = map (\<lambda>(v, ft). ft_ppn ft) dK @ FR" "map fst dK = vpn_range h m"
    "\<forall>(v, ft)\<in>set dK. ft_num ft = 1 \<and> km_arcs km' (ft_ppn ft) = 1 \<and> translation km' ?pt (vpn_key v) = Some (ft_ppn ft, ma_map_perm a OR PTE_V)"
    by (rule unmap_suffix [OF ok mem range])
  define a' where "a' = a\<lparr>ma_map_type := Framed dK, ma_end := m\<rparr>"
  obtain us vs where areas: "ms_areas ms = us @ (h, a) # vs" "btree_insert h a' (ms_areas ms) = us @ (h, a') # vs"
    by (rule btree_insert_old [OF wf a])
  have wf': "btree_wf (us @ (h, a') # vs)" using btree_wf_insert [OF wf, of h a'] unfolding areas(2) .
  have sel: "ma_start a' = h" "ma_range a' = vpn_range h m" "area_frames a' = map (\<lambda>(v, ft). ft_ppn ft) dK" "ma_map_perm a' = ma_map_perm a"
    using pa(1) by (simp_all add: a'_def area_frames_def)
  have "vpn_val m \<le> USER_PAGES" using m(2) pa(2) by (auto simp: area_ok_def less_eq_VirtPageNum_def)
  then have "area_ok km' ?pt a'" using u(4,5) sel pa(1) by (auto simp: area_ok_def a'_def)
  then have mid: "\<forall>(l, b)\<in>set [(h, a')]. l = ma_start b \<and> area_ok km' ?pt b" using sel(1) by simp
  let ?ms = "ms\<lparr>ms_areas := us @ (h, a') # vs\<rparr>"
  have split: "ma_range a = areas_pages [(h, a')] @ vpn_range m (ma_end a)" "area_frames a = areas_frames [(h, a')] @ FR"
    "ms_areas ?ms = us @ [(h, a')] @ vs" "ms_page_table ?ms = ?pt" "btree_wf (ms_areas ?ms)"
    using range sel u(3) wf' by simp_all
  note t = ms_take_away [OF ok u(2) areas(1) split(3-5,1,2) mid]
  have "MapArea_shrink km a m ?pt = Some (a', ?pt, km')" using u(1) by (simp add: MapArea_shrink_def MapArea_end_def a'_def)
  moreover have "mem_step used km km' (table_nodes (km_ram km) (pt_root_ppn ?pt)) {}" using u(2) by (simp add: unmapped_pages_def)
  ultimately show ?thesis by (rule that [OF _ t(1) [folded areas(2)] _ t(2,3) [folded areas(2)]])
qed

lemma remove_area_ok:
  assumes ok: "ms_ok km ms used" and a: "map_of (ms_areas ms) h = Some a"
  obtains ms' km' where "MemorySet_remove_area_with_start_vpn km ms h = Some (ms', km')" "ms_ok km' ms' used"
    "mem_step used km km' (table_nodes (km_ram km) (pt_root_ppn (ms_page_table ms))) {}"
    "space_view km' ms' = (\<lambda>key. if VirtPageNum key \<in> set (ma_range a) then None else space_view km ms key)"
    "set (ms_pages ms') = set (ms_pages ms) - set (ma_range a)"
proof -
  let ?pt = "ms_page_table ms"
  have wf: "btree_wf (ms_areas ms)" using ok by (simp add: ms_ok_def areas_ok_def)
  have mem: "(h, a) \<in> set (ms_areas ms)" using a by (rule map_of_SomeD)
  have range: "ma_range a = [] @ ma_range a" by simp
  obtain km' dK FR where u: "unmap_pages km a ?pt (ma_range a) = Some (a\<lparr>ma_map_type := Framed dK\<rparr>, ?pt, km')"
    "unmapped_pages used km ?pt (ma_range a) (set FR) km'" "area_frames a = map (\<lambda>(v, ft). ft_ppn ft) dK @ FR" "map fst dK = []"
    by (rule unmap_suffix [OF ok mem range])
  obtain us vs where areas: "ms_areas ms = us @ (h, a) # vs" by (rule btree_insert_old [OF wf a, of a])
  have rem: "btree_remove h (ms_areas ms) = us @ vs" using btree_remove_split [OF wf [unfolded areas]] unfolding areas .
  let ?ms = "ms\<lparr>ms_areas := us @ vs\<rparr>"
  have split: "ma_range a = areas_pages [] @ ma_range a" "area_frames a = areas_frames [] @ FR"
    "ms_areas ?ms = us @ [] @ vs" "ms_page_table ?ms = ?pt" "btree_wf (ms_areas ?ms)"
    using u(3,4) btree_wf_remove [OF wf, of h] unfolding rem by simp_all
  note t = ms_take_away [OF ok u(2) areas split(3-5,1,2)]
  have "MemorySet_remove_area_with_start_vpn km ms h = Some (?ms, km')"
    using a u(1,4) by (simp add: MemorySet_remove_area_with_start_vpn_def MapArea_unmap_def MapArea_drop_def rem)
  moreover have "mem_step used km km' (table_nodes (km_ram km) (pt_root_ppn ?pt)) {}" using u(2) by (simp add: unmapped_pages_def)
  ultimately show ?thesis using t by (intro that) auto
qed

section \<open>Growing a segment\<close>

lemma mapped_suffix:
  assumes d: "ma_map_type a = Framed dfs" "map fst dfs = vpn_range s e" and le: "s \<le> e" "e \<le> m"
    and mp: "mapped_pages used km pt a (vpn_range e m) gs fs km' pt' a1"
  shows "a1 = a\<lparr>ma_map_type := Framed (dfs @ zip (vpn_range e m) (map frame1 gs))\<rparr>"
proof -
  let ?new = "zip (vpn_range e m) (map frame1 gs)"
  have wf: "btree_wf dfs" unfolding btree_wf_def d(2) by (rule vpn_range_sorted)
  from mp d(1) wf obtain dfs' where d': "a1 = a\<lparr>ma_map_type := Framed dfs'\<rparr>" "btree_wf dfs'" "map_of dfs' = map_of dfs ++ map_of ?new"
    "fst ` set dfs' = fst ` set dfs \<union> set (vpn_range e m)" "length gs = length (vpn_range e m)" unfolding mapped_pages_def by auto
  have fst_new: "map fst ?new = vpn_range e m" using d'(5) by simp
  have keys: "map fst (dfs @ ?new) = vpn_range s m" using vpn_range_append [OF le] d(2) fst_new by simp
  have "fst ` set dfs = set (vpn_range s e)" using arg_cong [OF d(2), of set] by simp
  then have "set (map fst dfs') = set (vpn_range s m)" using d'(4) vpn_range_append [OF le] by simp
  then have keys': "map fst dfs' = vpn_range s m" using d'(2) by (intro strict_sorted_eq vpn_range_sorted) (auto simp: btree_wf_def)
  have dist: "distinct (map fst (dfs @ ?new))" unfolding keys by (rule distinct_vpn_range)
  then have "fst ` set dfs \<inter> fst ` set ?new = {}" by simp
  then have "dom (map_of dfs) \<inter> dom (map_of ?new) = {}" unfolding dom_map_of_conv_image_fst .
  then have "map_of dfs' = map_of (dfs @ ?new)" unfolding d'(3) map_of_append by (rule map_add_comm)
  then have "dfs' = dfs @ ?new" using keys keys' dist by (intro map_of_list_eq) simp_all
  then show ?thesis using d'(1) by simp
qed

lemma expanded_area_ok:
  assumes ok: "ms_ok km ms used" and mem: "(h, a) \<in> set (ms_areas ms)" and d: "ma_map_type a = Framed dfs" "map fst dfs = ma_range a"
      "\<forall>(v, ft)\<in>set dfs. ft_num ft = 1 \<and> km_arcs km (ft_ppn ft) = 1 \<and> translation km (ms_page_table ms) (vpn_key v) = Some (ft_ppn ft, ma_map_perm a OR PTE_V)"
    and new: "set (vpn_range s e) \<inter> set (ms_pages ms) = {}"
    and mp: "mapped_pages used km (ms_page_table ms) a (vpn_range s e) gs fs km' pt' a1" and e: "vpn_val e \<le> USER_PAGES"
    and a': "ma_range a' = ma_range a @ vpn_range s e" "ma_map_perm a' = ma_map_perm a" "ma_end a' = e"
      "ma_map_type a' = Framed (dfs @ zip (vpn_range s e) (map frame1 gs))"
  shows "area_ok km' pt' a'"
  unfolding area_ok_def
proof (intro conjI exI [of _ "dfs @ zip (vpn_range s e) (map frame1 gs)"])
  note pa = ms_area_parts [OF ok mem] and t = mapped_translation [OF mp e]
  have len: "length gs = length (vpn_range s e)" "\<forall>g\<in>set gs. km_arcs km' g = 1" "set gs \<subseteq> free_ppns km"
    and arcs: "km_arcs km' = (\<lambda>p. if p \<in> set gs then 1 else if p \<in> old_handles dfs (vpn_range s e) then km_arcs km p - 1 else km_arcs km p)"
    using mp d(1) by (auto simp: mapped_pages_def mem_step_def)
  show "map fst (dfs @ zip (vpn_range s e) (map frame1 gs)) = ma_range a'" using d(2) len(1) a'(1) by simp
  have dK: "fst ` set dfs = set (ma_range a)" using arg_cong [OF d(2), of set] by simp
  have rng: "set (ma_range a) \<subseteq> set (ms_pages ms)" using areas_mem(2) [OF mem] by (simp add: ms_pages_def)
  have frames: "area_frames a = map ft_ppn (map snd dfs)" using d(1) by (simp add: area_frames_def case_prod_beta)
  have old: "ft_num ft = 1 \<and> km_arcs km' (ft_ppn ft) = 1 \<and> translation km' pt' (vpn_key v) = Some (ft_ppn ft, ma_map_perm a OR PTE_V)"
    if v: "(v, ft) \<in> set dfs" for v ft
  proof -
    have vr: "v \<in> set (ma_range a)" using v dK by force
    have "vpn_key v = vpn_val v" using area_frame_of [OF pa(2) vr] user_key by blast
    then have vn: "VirtPageNum (vpn_key v) \<notin> set (vpn_range s e)" using vr rng new by auto
    have "ft_ppn ft \<in> ft_ppn ` snd ` set dfs" using v by force
    then have fr: "ft_ppn ft \<in> set (ms_frames ms)" using areas_mem(1) [OF mem] unfolding frames ms_frames_def by auto
    have "map_of dfs w = None" if "w \<in> set (vpn_range s e)" for w
      using that new rng dK by (auto simp: map_of_eq_None_iff)
    then have "old_handles dfs (vpn_range s e) = {}" by (auto simp: old_handles_def)
    moreover have "free_ppns km \<inter> used = {}" "set (ms_frames ms) \<subseteq> used" using ok by (auto simp: ms_ok_def pt_ok_def frames_inv_def)
    ultimately have "ft_ppn ft \<notin> set gs" "ft_ppn ft \<notin> old_handles dfs (vpn_range s e)" using fr len(3) by auto
    then show ?thesis using bspec [OF d(3) v] t(2) [OF vn] by (simp add: arcs)
  qed
  have "ft_num ft = 1 \<and> km_arcs km' (ft_ppn ft) = 1 \<and> translation km' pt' (vpn_key v) = Some (ft_ppn ft, ma_map_perm a OR PTE_V)"
    if v: "(v, ft) \<in> set (zip (vpn_range s e) (map frame1 gs))" for v ft
    using v t(1) len(1,2) by (auto simp: set_zip)
  with old show "\<forall>(v, ft)\<in>set (dfs @ zip (vpn_range s e) (map frame1 gs)). ft_num ft = 1 \<and> km_arcs km' (ft_ppn ft) = 1
      \<and> translation km' pt' (vpn_key v) = Some (ft_ppn ft, ma_map_perm a' OR PTE_V)" unfolding a'(2) set_append by blast
qed (use e a' in simp_all)

lemma expand_ok:
  assumes ok: "ms_ok km ms used" and a: "map_of (ms_areas ms) h = Some a" and m: "h \<le> ma_end a" "ma_end a \<le> m" "vpn_val m \<le> USER_PAGES"
    and new: "set (vpn_range (ma_end a) m) \<inter> set (ms_pages ms) = {}" and free: "3 * length (vpn_range (ma_end a) m) \<le> card (free_ppns km)"
  obtains a' pt' km' N where "MapArea_expand km a m (ms_page_table ms) = Some (a', pt', km')"
    "ms_ok km' (ms\<lparr>ms_page_table := pt', ms_areas := btree_insert h a' (ms_areas ms)\<rparr>) (used \<union> N)"
    "mem_step used km km' (table_nodes (km_ram km) (pt_root_ppn (ms_page_table ms)) \<union> N) N"
    "space_view km' (ms\<lparr>ms_page_table := pt', ms_areas := btree_insert h a' (ms_areas ms)\<rparr>)
       = (\<lambda>key. if VirtPageNum key \<in> set (vpn_range (ma_end a) m) then Some (replicate 4096 0, ma_map_perm a OR PTE_V) else space_view km ms key)"
    "set (ms_pages (ms\<lparr>ms_page_table := pt', ms_areas := btree_insert h a' (ms_areas ms)\<rparr>)) = set (vpn_range (ma_end a) m) \<union> set (ms_pages ms)"
proof -
  let ?pt = "ms_page_table ms" and ?new = "vpn_range (ma_end a) m"
  have wf: "btree_wf (ms_areas ms)" and pt: "pt_ok km ?pt used" using ok by (simp_all add: ms_ok_def areas_ok_def)
  have mem: "(h, a) \<in> set (ms_areas ms)" using a by (rule map_of_SomeD)
  note pa = ms_area_parts [OF ok mem]
  obtain dfs where d: "ma_map_type a = Framed dfs" "map fst dfs = ma_range a" "btree_wf dfs" "area_frames a = map ft_ppn (map snd dfs)"
    "\<forall>(v, ft)\<in>set dfs. ft_num ft = 1 \<and> km_arcs km (ft_ppn ft) = 1 \<and> translation km ?pt (vpn_key v) = Some (ft_ppn ft, ma_map_perm a OR PTE_V)"
    by (rule area_okE [OF pa(2)])
  have s: "ma_start a = h" using pa(1) by simp
  have dK: "fst ` set dfs = set (ma_range a)" using arg_cong [OF d(2), of set] by simp
  have rng: "set (ma_range a) \<subseteq> set (ms_pages ms)" using areas_mem(2) [OF mem] by (simp add: ms_pages_def)
  have fresh: "map_of dfs v = None" if "v \<in> set ?new" for v
    using that new rng dK by (auto simp: map_of_eq_None_iff)
  then have olds: "olds_ok km dfs ?new" "old_handles dfs ?new \<inter> set (ms_frames ms) = {}"
    by (auto simp: olds_ok_def old_shared_def old_handles_def)
  note u = user_range_unmapped [OF ok m(3) new]
  from map_pages_framed [OF pt d(1,3) u free olds(1)] obtain gs fs km' pt' a1 where
    mp: "map_pages km a ?pt ?new = Some (a1, pt', km')" "mapped_pages used km ?pt a ?new gs fs km' pt' a1" by blast
  have le: "ma_start a \<le> ma_end a" using s m(1) by simp
  note a1 = mapped_suffix [OF d(1,2) le m(2) mp(2)]
  define a' where "a' = a1\<lparr>ma_end := m\<rparr>"
  have len: "length gs = length ?new" "mem_step used km km' (table_nodes (km_ram km) (pt_root_ppn ?pt) \<union> set gs \<union> set fs) (set gs \<union> set fs)"
    using mp(2) by (simp_all add: mapped_pages_def)
  have sel: "ma_start a' = h" "ma_range a' = ma_range a @ ?new" "area_frames a' = area_frames a @ gs" "ma_map_perm a' = ma_map_perm a" "ma_end a' = m"
    "ma_map_type a' = Framed (dfs @ zip ?new (map frame1 gs))"
    using a1 s vpn_range_append [OF m(1,2)] zip_tracker_frames [OF len(1)] d(1) by (simp_all add: a'_def area_frames_def)
  have "area_ok km' pt' a'" by (rule expanded_area_ok [OF ok mem d(1,2,5) new mp(2) m(3) sel(2,4-6)])
  moreover obtain us vs where areas: "ms_areas ms = us @ (h, a) # vs" "btree_insert h a' (ms_areas ms) = us @ (h, a') # vs"
    by (rule btree_insert_old [OF wf a])
  let ?ms = "ms\<lparr>ms_page_table := pt', ms_areas := btree_insert h a' (ms_areas ms)\<rparr>"
  have "ms_areas ms = us @ [(h, a)] @ vs" "ms_areas ?ms = us @ (h, a') # vs" "ms_page_table ?ms = pt'" "btree_wf (ms_areas ?ms)" "h = ma_start a'"
    "ma_range a' = areas_pages [(h, a)] @ ?new" "area_frames a' = areas_frames [(h, a)] @ gs"
    using areas btree_wf_insert [OF wf, of h a'] sel(1-3) by simp_all
  ultimately have g: "ms_ok km' ?ms (used \<union> (set gs \<union> set fs))" "set (ms_pages ?ms) = set ?new \<union> set (ms_pages ms)"
    using ms_grow [OF ok mp(2) m(3) new d(1) olds(2), of us "[(h, a)]" vs ?ms h a'] unfolding Un_assoc by blast+
  have run: "MapArea_expand km a m ?pt = Some (a', pt', km')" using mp(1) by (simp add: MapArea_expand_def MapArea_end_def a'_def)
  have "ms_page_table ?ms = pt'" by simp
  note view = mapped_space_view [OF ok mp(2) m(3) this]
  show ?thesis by (rule that [OF run g(1) len(2) [unfolded Un_assoc] view g(2)])
qed

section \<open>The heap\<close>

definition heap_end :: "MemorySet \<Rightarrow> VirtPageNum \<Rightarrow> VirtPageNum" where
  "heap_end ms h = (case map_of (ms_areas ms) h of Some a \<Rightarrow> ma_end a | None \<Rightarrow> h)"

definition heap_perm :: "MemorySet \<Rightarrow> VirtPageNum \<Rightarrow> MapPermission" where
  "heap_perm ms h = (case map_of (ms_areas ms) h of Some a \<Rightarrow> ma_map_perm a | None \<Rightarrow> MP_R OR MP_W OR MP_U)"

lemma vpn_range_empty: "e \<le> s \<Longrightarrow> vpn_range s e = []"
  by (cases s; cases e) (auto simp: less_eq_VirtPageNum_def word_le_nat_alt)

text \<open>
  Property C6. Moving the program break. With the break at \<^verbatim>\<open>heap_end\<close>, \<^verbatim>\<open>set_user_brk\<close> to
  \<^term>\<open>m\<close> keeps the address space well formed. The pages between the old and the new break become
  zeroed pages with the permissions of the heap when the break grows. They are unmapped when it
  shrinks. All other pages show the bytes and the permissions they did.
\<close>

theorem set_user_brk_moves:
  assumes ok: "ms_ok km ms used" and h: "h \<le> heap_end ms h" "h \<le> m" "vpn_val m \<le> USER_PAGES"
    and new: "set (vpn_range (heap_end ms h) m) \<inter> set (ms_pages ms) = {}"
    and free: "3 * length (vpn_range (heap_end ms h) m) \<le> card (free_ppns km)"
  shows "\<exists>ms' km' N. MemorySet_set_user_brk km ms m h = Some (ms', km') \<and> ms_ok km' ms' (used \<union> N) \<and> N \<subseteq> free_ppns km
    \<and> space_view km' ms' = (\<lambda>key. if VirtPageNum key \<in> set (vpn_range (heap_end ms h) m) then Some (replicate 4096 0, heap_perm ms h OR PTE_V)
         else if VirtPageNum key \<in> set (vpn_range m (heap_end ms h)) then None else space_view km ms key)"
proof (cases "map_of (ms_areas ms) h")
  case None
  then have e: "heap_end ms h = h" "heap_perm ms h = MP_R OR MP_W OR MP_U" "h \<notin> fst ` set (ms_areas ms)"
    by (simp_all add: heap_end_def heap_perm_def map_of_eq_None_iff [symmetric])
  obtain ms' km' N where i: "MemorySet_insert_framed_area km ms h m (MP_R OR MP_W OR MP_U) = Some (ms', km')" "ms_ok km' ms' (used \<union> N)"
    "mem_step used km km' (table_nodes (km_ram km) (pt_root_ppn (ms_page_table ms)) \<union> N) N"
    "space_view km' ms' = (\<lambda>key. if VirtPageNum key \<in> set (vpn_range h m) then Some (replicate 4096 0, (MP_R OR MP_W OR MP_U) OR PTE_V) else space_view km ms key)"
    by (rule insert_framed_area_ok [OF ok h(3) new [unfolded e(1)] e(3) free [unfolded e(1)]])
  have "N \<subseteq> free_ppns km" using i(3) by (simp add: mem_step_def)
  then show ?thesis unfolding e(1,2) vpn_range_empty [OF h(2)]
    using i(1,2,4) None by (intro exI [of _ ms'] exI [of _ km'] exI [of _ N]) (simp add: MemorySet_set_user_brk_def cong: if_cong)
next
  case (Some a)
  then have e: "heap_end ms h = ma_end a" "heap_perm ms h = ma_map_perm a" by (simp_all add: heap_end_def heap_perm_def)
  show ?thesis
  proof (cases "m \<le> ma_end a")
    case True
    obtain a' km' where i: "MapArea_shrink km a m (ms_page_table ms) = Some (a', ms_page_table ms, km')"
      "ms_ok km' (ms\<lparr>ms_areas := btree_insert h a' (ms_areas ms)\<rparr>) used"
      "space_view km' (ms\<lparr>ms_areas := btree_insert h a' (ms_areas ms)\<rparr>)
       = (\<lambda>key. if VirtPageNum key \<in> set (vpn_range m (ma_end a)) then None else space_view km ms key)"
      by (rule shrink_ok [OF ok Some h(2) True])
    have same: "ms\<lparr>ms_page_table := ms_page_table ms, ms_areas := btree_insert h a' (ms_areas ms)\<rparr> = ms\<lparr>ms_areas := btree_insert h a' (ms_areas ms)\<rparr>" by simp
    have "MemorySet_set_user_brk km ms m h = Some (ms\<lparr>ms_areas := btree_insert h a' (ms_areas ms)\<rparr>, km')"
      using Some True i(1) by (simp add: MemorySet_set_user_brk_def MapArea_end_def same)
    then show ?thesis unfolding e vpn_range_empty [OF True] using i(2,3)
      by (intro exI [of _ "ms\<lparr>ms_areas := btree_insert h a' (ms_areas ms)\<rparr>"] exI [of _ km'] exI [of _ "{}"]) (simp cong: if_cong)
  next
    case False
    then have le: "ma_end a \<le> m" by simp
    obtain a' pt' km' N where i: "MapArea_expand km a m (ms_page_table ms) = Some (a', pt', km')"
      "ms_ok km' (ms\<lparr>ms_page_table := pt', ms_areas := btree_insert h a' (ms_areas ms)\<rparr>) (used \<union> N)"
      "mem_step used km km' (table_nodes (km_ram km) (pt_root_ppn (ms_page_table ms)) \<union> N) N"
      "space_view km' (ms\<lparr>ms_page_table := pt', ms_areas := btree_insert h a' (ms_areas ms)\<rparr>)
       = (\<lambda>key. if VirtPageNum key \<in> set (vpn_range (ma_end a) m) then Some (replicate 4096 0, ma_map_perm a OR PTE_V) else space_view km ms key)"
      by (rule expand_ok [OF ok Some h(1) [unfolded e] le h(3) new [unfolded e] free [unfolded e]])
    have "N \<subseteq> free_ppns km" using i(3) by (simp add: mem_step_def)
    moreover have "MemorySet_set_user_brk km ms m h = Some (ms\<lparr>ms_page_table := pt', ms_areas := btree_insert h a' (ms_areas ms)\<rparr>, km')"
      using Some False i(1) by (simp add: MemorySet_set_user_brk_def MapArea_end_def)
    ultimately show ?thesis unfolding e vpn_range_empty [OF le] using i(2,4)
      by (intro exI [of _ "ms\<lparr>ms_page_table := pt', ms_areas := btree_insert h a' (ms_areas ms)\<rparr>"] exI [of _ km'] exI [of _ N]) (simp cong: if_cong)
  qed
qed

theorem set_user_brk_moves_witness:
  "\<exists>km ms ms' km'. MemorySet_set_user_brk km ms (VirtPageNum 0x11) (VirtPageNum 0x10) = Some (ms', km')
     \<and> space_view km ms 0x10 = Some (replicate 4096 0, (MP_R OR MP_U) OR PTE_V)
     \<and> space_view km' ms' 0x10 = Some (replicate 4096 0, (MP_R OR MP_U) OR PTE_V) \<and> space_view km' ms' 0x11 = None"
proof -
  obtain km ms used a where e: "ms_ok km ms used" "ms_areas ms = [(VirtPageNum 0x10, a)]" "ma_start a = VirtPageNum 0x10" "ma_end a = VirtPageNum 0x12"
    "space_view km ms 0x10 = Some (replicate 4096 0, (MP_R OR MP_U) OR PTE_V)" "20 \<le> card (free_ppns km)"
    by (rule example_space)
  have h: "heap_end ms (VirtPageNum 0x10) = VirtPageNum 0x12" using e(2,4) by (simp add: heap_end_def)
  have r: "vpn_range (VirtPageNum 0x12) (VirtPageNum 0x11) = []" "set (vpn_range (VirtPageNum 0x11) (VirtPageNum 0x12)) = {v. VirtPageNum 0x11 \<le> v \<and> v < VirtPageNum 0x12}"
    by (rule vpn_range_empty, simp add: less_eq_VirtPageNum_def) (rule set_vpn_range)
  have "VirtPageNum 0x10 \<le> heap_end ms (VirtPageNum 0x10)" "VirtPageNum 0x10 \<le> VirtPageNum 0x11" "vpn_val (VirtPageNum 0x11) \<le> USER_PAGES"
    "set (vpn_range (heap_end ms (VirtPageNum 0x10)) (VirtPageNum 0x11)) \<inter> set (ms_pages ms) = {}"
    "3 * length (vpn_range (heap_end ms (VirtPageNum 0x10)) (VirtPageNum 0x11)) \<le> card (free_ppns km)"
    unfolding h r by (simp_all add: less_eq_VirtPageNum_def)
  from set_user_brk_moves [OF e(1) this] obtain ms' km' N where
    i: "MemorySet_set_user_brk km ms (VirtPageNum 0x11) (VirtPageNum 0x10) = Some (ms', km')"
    "space_view km' ms' = (\<lambda>key. if VirtPageNum key \<in> set [] then Some (replicate 4096 0, heap_perm ms (VirtPageNum 0x10) OR PTE_V)
       else if VirtPageNum key \<in> {v. VirtPageNum 0x11 \<le> v \<and> v < VirtPageNum 0x12} then None else space_view km ms key)"
    unfolding h r by blast
  have "space_view km' ms' 0x10 = space_view km ms 0x10" "space_view km' ms' 0x11 = None"
    unfolding i(2) by (simp_all add: less_eq_VirtPageNum_def less_VirtPageNum_def)
  then show ?thesis using i(1) e(5) by (intro exI [of _ km] exI [of _ ms] exI [of _ ms'] exI [of _ km']) (simp only: simp_thms)
qed

text \<open>
  Property C35. Unmapping a segment. \<^verbatim>\<open>remove_area_with_start_vpn\<close> of a segment unmaps exactly its
  pages: they show nothing afterwards, every other page shows what it did, and the address
  space stays well formed.
\<close>

theorem remove_area_unmaps:
  assumes "ms_ok km ms used" "map_of (ms_areas ms) h = Some a"
  shows "\<exists>ms' km'. MemorySet_remove_area_with_start_vpn km ms h = Some (ms', km') \<and> ms_ok km' ms' used
    \<and> set (ms_pages ms') = set (ms_pages ms) - set (ma_range a)
    \<and> space_view km' ms' = (\<lambda>key. if VirtPageNum key \<in> set (ma_range a) then None else space_view km ms key)"
  by (rule remove_area_ok [OF assms]) blast

theorem remove_area_unmaps_witness:
  "\<exists>km ms ms' km'. MemorySet_remove_area_with_start_vpn km ms (VirtPageNum 0x10) = Some (ms', km')
     \<and> space_view km ms 0x10 = Some (replicate 4096 0, (MP_R OR MP_U) OR PTE_V) \<and> space_view km' ms' 0x10 = None"
proof -
  obtain km ms used a where e: "ms_ok km ms used" "ms_areas ms = [(VirtPageNum 0x10, a)]" "ma_start a = VirtPageNum 0x10" "ma_end a = VirtPageNum 0x12"
    "space_view km ms 0x10 = Some (replicate 4096 0, (MP_R OR MP_U) OR PTE_V)" "20 \<le> card (free_ppns km)"
    by (rule example_space)
  have "map_of (ms_areas ms) (VirtPageNum 0x10) = Some a" using e(2) by simp
  from remove_area_unmaps [OF e(1) this] obtain ms' km' where
    r: "MemorySet_remove_area_with_start_vpn km ms (VirtPageNum 0x10) = Some (ms', km')"
    "space_view km' ms' = (\<lambda>key. if VirtPageNum key \<in> set (ma_range a) then None else space_view km ms key)" by blast
  have "VirtPageNum 0x10 \<in> set (ma_range a)" unfolding e(3,4) set_vpn_range by (simp add: less_eq_VirtPageNum_def less_VirtPageNum_def)
  then show ?thesis using r e(5) by (intro exI [of _ km] exI [of _ ms] exI [of _ ms'] exI [of _ km']) simp
qed

section \<open>Mapping over mapped pages\<close>

lemma map_one_mapped:
  assumes ok: "pt_ok km pt used" and a: "ma_map_type a = Framed []" and free: "3 \<le> card (free_ppns km)"
    and mapped: "translation km pt (vpn_key vpn) \<noteq> None"
  shows "MapArea_map_one km a pt vpn = None"
proof -
  have fin: "finite (free_ppns km)" using ok finite_free_ppns by (auto simp: pt_ok_def)
  have "free_ppns km \<noteq> {}" "old_shared km None" using free by (auto simp: old_shared_def)
  then obtain f km1 where f: "frame_alloc km 1 = Some (Some (frame1 f), km1)" "f \<in> free_ppns km"
      "mem_step used km (drop_replaced (arc_new km1 (frame1 f)) None) {f} {f}"
      "pt_ok (drop_replaced (arc_new km1 (frame1 f)) None) pt (insert f used)"
      "translation (drop_replaced (arc_new km1 (frame1 f)) None) pt = translation km pt"
    by (rule frame_alloc_step [OF ok])
  have "free_ppns (drop_replaced (arc_new km1 (frame1 f)) None) = free_ppns km - {f}" using f(3) by (simp add: mem_step_def)
  then have "2 \<le> card (free_ppns (drop_replaced (arc_new km1 (frame1 f)) None))" using free f(2) fin by (simp add: card_Diff_singleton)
  from PageTable_map_mapped [OF f(4) this] mapped f(5) show ?thesis by (simp add: MapArea_map_one_def a f(1))
qed

lemma insert_framed_area_mapped:
  assumes ok: "ms_ok km ms used" and s: "s \<in> set (ms_pages ms)" "s < e" and free: "3 \<le> card (free_ppns km)"
  shows "MemorySet_insert_framed_area km ms s e perm = None"
proof -
  obtain k a where a: "(k, a) \<in> set (ms_areas ms)" "s \<in> set (ma_range a)" using areas_page_area s(1) by (metis ms_pages_def)
  have "areas_ok km (ms_page_table ms) (ms_areas ms)" using ok unfolding ms_ok_def by blast
  then have "area_ok km (ms_page_table ms) a" using a(1) unfolding areas_ok_def by blast
  then obtain dfs :: "(VirtPageNum \<times> FrameTracker) list" where d: "map fst dfs = ma_range a"
    "\<forall>(v, ft)\<in>set dfs. ft_num ft = 1 \<and> km_arcs km (ft_ppn ft) = 1 \<and> translation km (ms_page_table ms) (vpn_key v) = Some (ft_ppn ft, ma_map_perm a OR PTE_V)"
    unfolding area_ok_def by blast
  have "s \<in> fst ` set dfs" using a(2) unfolding d(1) [symmetric] set_map .
  then obtain ft where "(s, ft) \<in> set dfs" by auto
  from bspec [OF d(2) this] have mapped: "translation km (ms_page_table ms) (vpn_key s) \<noteq> None" unfolding prod.case by (simp only: option.distinct simp_thms)
  have s': "s \<in> set (vpn_range s e)" using s(2) unfolding set_vpn_range by simp
  obtain vs where vs: "vpn_range s e = s # vs"
  proof (cases "vpn_range s e")
    case Nil
    then show ?thesis using s' unfolding Nil by simp
  next
    case (Cons v vs)
    have "v \<in> set (vpn_range s e)" unfolding Cons by simp
    then have "s \<le> v" unfolding set_vpn_range by simp
    moreover have "\<forall>w\<in>set vs. v < w" using vpn_range_sorted [of s e] unfolding Cons by simp
    moreover have "s = v \<or> s \<in> set vs" using s' unfolding Cons by simp
    ultimately have "v = s" by (metis leD)
    then show ?thesis using that Cons by (simp only:)
  qed
  have "pt_ok km (ms_page_table ms) used" using ok by (simp add: ms_ok_def)
  from map_one_mapped [OF this _ free mapped] show ?thesis
    by (simp add: MemorySet_insert_framed_area_def MemorySet_push_def MapArea_map_def vs MapType_new_framed_def del: vpn_range.simps)
qed

lemma card_free_ppns: "frames_inv km used \<Longrightarrow> card (free_ppns km) \<le> 0x88000"
proof -
  assume inv: "frames_inv km used"
  then have "buddy_free (km_frames km) \<subseteq> {..<nframes (km_syms km)}" using buddy_free_bound by (auto simp: frames_inv_def)
  then have "card (buddy_free (km_frames km)) \<le> nframes (km_syms km)" using card_mono [OF finite_lessThan] by fastforce
  moreover have "card (free_ppns km) \<le> card (buddy_free (km_frames km))" unfolding free_ppns_def
    using finite_subset [OF \<open>buddy_free (km_frames km) \<subseteq> _\<close>] by (intro card_image_le) simp
  ultimately show ?thesis by (simp add: nframes_def)
qed

section \<open>Finding a place for a mapping\<close>

text \<open>
  Page numbers as natural numbers. A hole for \<^term>\<open>len\<close> pages is a range of the mapping area, below the end of the
  lower half and in front of some segment, that no segment reaches into.
\<close>

abbreviation page_no :: "VirtPageNum \<Rightarrow> nat" where "page_no v \<equiv> unat (vpn_val v)"

definition MMAP_PAGE :: nat where "MMAP_PAGE = unat MMAP_START div 4096"

definition mmap_hole :: "MapArea list \<Rightarrow> nat \<Rightarrow> nat \<Rightarrow> bool" where
  "mmap_hole areas len p \<longleftrightarrow> MMAP_PAGE \<le> p \<and> p + len \<le> unat LOW_END div 4096
     \<and> (\<forall>a\<in>set areas. page_no (ma_end a) \<le> p \<or> p + len \<le> page_no (ma_start a)) \<and> (\<exists>a\<in>set areas. p + len \<le> page_no (ma_start a))"

definition covers :: "MapArea \<Rightarrow> nat \<Rightarrow> bool" where
  "covers a p \<longleftrightarrow> page_no (ma_start a) \<le> p \<and> p < page_no (ma_end a)"

lemma page_no_add: "page_no s \<le> 0x4000000 \<Longrightarrow> unat len \<le> 0x4000000 \<Longrightarrow> page_no (VirtPageNum_add s len) = page_no s + unat len"
  by (cases s) (simp add: unat_word_ariths)

lemma page_no_less: "a < b \<longleftrightarrow> page_no a < page_no b" "a \<le> b \<longleftrightarrow> page_no a \<le> page_no b"
  by (simp_all add: less_VirtPageNum_def less_eq_VirtPageNum_def word_less_nat_alt word_le_nat_alt)

lemma find_hole_Cons:
  assumes "page_no start \<le> 0x4000000" "unat len \<le> 0x4000000"
  shows "find_hole start len (a # areas) =
    (if page_no start < page_no (ma_start a) \<and> page_no start + unat len \<le> 0x4000000
     then (if page_no start + unat len \<le> page_no (ma_start a) then Some start else find_hole (ma_end a) len areas)
     else find_hole start len areas)"
  using page_no_add [OF assms] by (simp add: page_no_less config_simps)

text \<open>The search never goes past a hole, so it finds something in front of it or at it.\<close>

lemma find_hole_least:
  assumes "page_no start \<le> p" "p + unat len \<le> 0x4000000" "0 < unat len"
    "\<forall>a\<in>set areas. page_no (ma_end a) \<le> p \<or> p + unat len \<le> page_no (ma_start a)" "\<exists>a\<in>set areas. p + unat len \<le> page_no (ma_start a)"
  shows "\<exists>s. find_hole start len areas = Some s \<and> page_no s \<le> p"
  using assms
proof (induction areas arbitrary: start)
  case (Cons a areas)
  have b: "page_no start \<le> 0x4000000" "unat len \<le> 0x4000000" using Cons.prems(1,2) by simp_all
  consider (here) "page_no start < page_no (ma_start a)" "page_no start + unat len \<le> page_no (ma_start a)"
    | (later) "page_no start < page_no (ma_start a)" "page_no (ma_start a) < page_no start + unat len"
    | (skip) "page_no (ma_start a) \<le> page_no start" by linarith
  then show ?case
  proof cases
    case here
    then show ?thesis using Cons.prems(1,2) unfolding find_hole_Cons [OF b] by simp
  next
    case later
    then have "page_no (ma_end a) \<le> p" "\<exists>a\<in>set areas. p + unat len \<le> page_no (ma_start a)" using Cons.prems(1,4,5) by auto
    from Cons.IH [OF this(1) Cons.prems(2,3) _ this(2)] Cons.prems(1,2,4) later show ?thesis unfolding find_hole_Cons [OF b] by simp
  next
    case skip
    then have "\<exists>a\<in>set areas. p + unat len \<le> page_no (ma_start a)" using Cons.prems(1,3,5) by auto
    from Cons.IH [OF Cons.prems(1-3) _ this] Cons.prems(4) skip show ?thesis unfolding find_hole_Cons [OF b] by simp
  qed
qed simp

text \<open>
  What the search returns is a hole, or lies inside a segment that the search has skipped: it skips every segment
  that begins at or before the place where it looks.
\<close>

lemma find_hole_result:
  assumes "find_hole start len areas = Some s" "page_no start \<le> 0x4000000" "unat len \<le> 0x4000000"
    "sorted_wrt (\<lambda>a b. page_no (ma_start a) < page_no (ma_start b)) areas"
    "\<forall>a\<in>set areas. page_no (ma_start a) < page_no (ma_end a) \<and> page_no (ma_end a) \<le> 0x4000000"
  shows "page_no start \<le> page_no s \<and> page_no s + unat len \<le> 0x4000000 \<and> (s = start \<or> (\<exists>a\<in>set areas. s = ma_end a))
    \<and> (\<forall>a\<in>set areas. page_no (ma_end a) \<le> page_no s \<or> page_no s + unat len \<le> page_no (ma_start a) \<or> covers a (page_no s))
    \<and> (\<exists>a\<in>set areas. page_no s + unat len \<le> page_no (ma_start a))"
  using assms
proof (induction areas arbitrary: start)
  case (Cons a areas)
  note b = Cons.prems(2,3)
  have so: "sorted_wrt (\<lambda>a b. page_no (ma_start a) < page_no (ma_start b)) areas" "\<forall>b\<in>set areas. page_no (ma_start a) < page_no (ma_start b)"
    and ne: "\<forall>a\<in>set areas. page_no (ma_start a) < page_no (ma_end a) \<and> page_no (ma_end a) \<le> 0x4000000"
      "page_no (ma_start a) < page_no (ma_end a)" "page_no (ma_end a) \<le> 0x4000000" using Cons.prems(4,5) by simp_all
  consider (here) "s = start" "page_no start + unat len \<le> page_no (ma_start a)" "page_no start + unat len \<le> 0x4000000"
    | (later) "page_no start < page_no (ma_start a)" "find_hole (ma_end a) len areas = Some s"
    | (skip) "page_no (ma_start a) \<le> page_no start \<or> 0x4000000 < page_no start + unat len" "find_hole start len areas = Some s"
  proof (cases "page_no start < page_no (ma_start a) \<and> page_no start + unat len \<le> 0x4000000")
    case True
    have "(if page_no start + unat len \<le> page_no (ma_start a) then Some start else find_hole (ma_end a) len areas) = Some s"
      using Cons.prems(1) unfolding find_hole_Cons [OF b] if_P [OF True] .
    then show ?thesis using True that(1,2) by (cases "page_no start + unat len \<le> page_no (ma_start a)") simp_all
  next
    case False
    have "find_hole start len areas = Some s" using Cons.prems(1) unfolding find_hole_Cons [OF b] if_not_P [OF False] .
    then show ?thesis using False that(3) by linarith
  qed
  then show ?case
  proof cases
    case here
    have "page_no s + unat len \<le> page_no (ma_start b)" if "b \<in> set (a # areas)" for b
      using that so(2) here(1,2) by (cases "b = a") (simp, fastforce)
    then show ?thesis using here(1,3) by (metis list.set_intros(1) order_refl)
  next
    case later
    note i = Cons.IH [OF later(2) ne(3) b(2) so(1) ne(1)]
    then have "page_no (ma_end a) \<le> page_no s" by blast
    then have "page_no start \<le> page_no s" "page_no (ma_end a) \<le> page_no s" using later(1) ne(2) by linarith+
    then show ?thesis using i unfolding list.set(2) by blast
  next
    case skip
    note i = Cons.IH [OF skip(2) b so(1) ne(1)]
    then have "page_no start \<le> page_no s" "page_no s + unat len \<le> 0x4000000" by blast+
    then have "page_no (ma_start a) \<le> page_no s" using skip(1) by linarith
    then have "page_no (ma_end a) \<le> page_no s \<or> covers a (page_no s)" unfolding covers_def by linarith
    then show ?thesis using i unfolding list.set(2) by blast
  qed
qed simp

lemma find_hole_at_start:
  assumes "page_no start + unat len \<le> 0x4000000" "\<exists>a\<in>set areas. page_no start < page_no (ma_start a)"
    "\<forall>a\<in>set areas. page_no start < page_no (ma_start a) \<longrightarrow> page_no start + unat len \<le> page_no (ma_start a)"
  shows "find_hole start len areas = Some start"
  using assms(2,3)
proof (induction areas)
  case (Cons a areas)
  have b: "page_no start \<le> 0x4000000" "unat len \<le> 0x4000000" using assms(1) by simp_all
  show ?case using Cons assms(1) unfolding find_hole_Cons [OF b] by auto
qed simp

lemma MMAP_PAGE_eq: "MMAP_PAGE = 0x2000000" "unat LOW_END div 4096 = 0x4000000" "page_no (VirtPageNum (drop_bit PAGE_SIZE_BITS MMAP_START)) = 0x2000000"
  by (simp_all add: MMAP_PAGE_def config_simps)

lemma ms_areas_sorted:
  assumes "ms_ok km ms used"
  shows "sorted_wrt (\<lambda>a b. page_no (ma_start a) < page_no (ma_start b)) (map snd (ms_areas ms))"
    "\<forall>a\<in>set (map snd (ms_areas ms)). page_no (ma_end a) \<le> 0x4000000"
proof -
  have ok: "areas_ok km (ms_page_table ms) (ms_areas ms)" using assms unfolding ms_ok_def by blast
  then have k: "fst x = ma_start (snd x)" "area_ok km (ms_page_table ms) (snd x)" if "x \<in> set (ms_areas ms)" for x
  proof -
    have "\<forall>(k, a)\<in>set (ms_areas ms). k = ma_start a \<and> area_ok km (ms_page_table ms) a" using ok unfolding areas_ok_def by blast
    from bspec [OF this that] show "fst x = ma_start (snd x)" "area_ok km (ms_page_table ms) (snd x)" by (simp_all add: case_prod_beta)
  qed
  have "sorted_wrt (\<lambda>x y. fst x < fst y) (ms_areas ms)" using ok unfolding areas_ok_def btree_wf_def sorted_wrt_map by blast
  then have "sorted_wrt (\<lambda>x y. page_no (ma_start (snd x)) < page_no (ma_start (snd y))) (ms_areas ms)"
    by (rule sorted_wrt_mono_rel [rotated]) (simp add: k(1) page_no_less(1))
  then show "sorted_wrt (\<lambda>a b. page_no (ma_start a) < page_no (ma_start b)) (map snd (ms_areas ms))" unfolding sorted_wrt_map .
  show "\<forall>a\<in>set (map snd (ms_areas ms)). page_no (ma_end a) \<le> 0x4000000"
  proof
    fix a assume "a \<in> set (map snd (ms_areas ms))"
    then obtain x where "x \<in> set (ms_areas ms)" "a = snd x" by auto
    then have "vpn_val (ma_end a) \<le> USER_PAGES" using k(2) unfolding area_ok_def by blast
    then show "page_no (ma_end a) \<le> 0x4000000" by (simp add: word_le_nat_alt)
  qed
qed

lemma covers_page:
  assumes "a \<in> set (map snd (ms_areas ms))" "covers a (page_no s)"
  shows "s \<in> set (ms_pages ms)"
proof -
  obtain k where "(k, a) \<in> set (ms_areas ms)" using assms(1) by auto
  moreover have "s \<in> set (ma_range a)" unfolding set_vpn_range using assms(2) by (simp add: covers_def page_no_less)
  ultimately show ?thesis using areas_mem(2) unfolding ms_pages_def by blast
qed

lemma hole_free:
  assumes "ms_ok km ms used" "e = VirtPageNum_add s len" "page_no e = page_no s + unat len" "0 < unat len"
    and a: "\<forall>a\<in>set (map snd (ms_areas ms)). page_no (ma_end a) \<le> page_no s \<or> page_no e \<le> page_no (ma_start a)"
    and ne: "\<forall>a\<in>set (map snd (ms_areas ms)). ma_start a < ma_end a"
  shows "set (vpn_range s e) \<inter> set (ms_pages ms) = {}" "s \<notin> fst ` set (ms_areas ms)"
proof -
  show "set (vpn_range s e) \<inter> set (ms_pages ms) = {}"
  proof (rule equals0I)
    fix v assume "v \<in> set (vpn_range s e) \<inter> set (ms_pages ms)"
    then have v: "v \<in> set (vpn_range s e)" "v \<in> set (areas_pages (ms_areas ms))" by (simp_all add: ms_pages_def del: vpn_range.simps)
    obtain k b where b: "(k, b) \<in> set (ms_areas ms)" "v \<in> set (ma_range b)" using areas_page_area [OF v(2)] by blast
    have "page_no s \<le> page_no v" "page_no v < page_no e" "page_no (ma_start b) \<le> page_no v" "page_no v < page_no (ma_end b)"
      using v(1) b(2) unfolding set_vpn_range by (simp_all add: page_no_less)
    moreover have "b \<in> set (map snd (ms_areas ms))" using b(1) by force
    ultimately show False using a by fastforce
  qed
  show "s \<notin> fst ` set (ms_areas ms)"
  proof
    assume "s \<in> fst ` set (ms_areas ms)"
    then obtain b where b: "(s, b) \<in> set (ms_areas ms)" by auto
    have "areas_ok km (ms_page_table ms) (ms_areas ms)" using assms(1) unfolding ms_ok_def by blast
    then have "s = ma_start b" using b unfolding areas_ok_def by blast
    moreover have "b \<in> set (map snd (ms_areas ms))" using b by force
    ultimately show False using a ne assms(3,4) by (fastforce simp: page_no_less)
  qed
qed

lemma try_map_at:
  assumes ok: "ms_ok km ms used" and ne: "\<forall>a\<in>set (map snd (ms_areas ms)). ma_start a < ma_end a"
    and len: "len = vpn_val (snd vpns) - vpn_val (fst vpns)" "0 < unat len" "3 * unat len \<le> card (free_ppns km)"
    and hole: "find_hole (VirtPageNum (drop_bit PAGE_SIZE_BITS MMAP_START)) len (map snd (ms_areas ms)) = Some s"
  shows "if \<exists>a\<in>set (map snd (ms_areas ms)). covers a (page_no s) then MemorySet_try_map km ms vpns perm False = None
    else \<exists>ms' km' N a. MemorySet_try_map km ms vpns perm False = Some (Inr (word_of_nat (page_no s * 4096)), ms', km')
      \<and> ms_ok km' ms' (used \<union> N) \<and> N \<subseteq> free_ppns km \<and> free_ppns km' = free_ppns km - N \<and> card N \<le> 3 * unat len
      \<and> ms_areas ms' = btree_insert s a (ms_areas ms) \<and> page_no (ma_start a) = page_no s \<and> page_no (ma_end a) = page_no s + unat len
      \<and> space_view km' ms' = (\<lambda>key. if page_no s \<le> unat key \<and> unat key < page_no s + unat len then Some (replicate 4096 0, perm OR PTE_V) else space_view km ms key)"
proof -
  let ?as = "map snd (ms_areas ms)" and ?e = "VirtPageNum_add s len"
  have "frames_inv km used" using ok by (simp add: ms_ok_def pt_ok_def)
  from card_free_ppns [OF this] have small: "unat len \<le> 0x4000000" using len(3) by simp
  have ne': "\<forall>a\<in>set ?as. page_no (ma_start a) < page_no (ma_end a) \<and> page_no (ma_end a) \<le> 0x4000000"
    using ne ms_areas_sorted(2) [OF ok] by (simp add: page_no_less)
  have "page_no (VirtPageNum (drop_bit PAGE_SIZE_BITS MMAP_START)) \<le> 0x4000000" unfolding MMAP_PAGE_eq(3) by simp
  note f = find_hole_result [OF hole this small ms_areas_sorted(1) [OF ok] ne']
  have e: "page_no ?e = page_no s + unat len" using f small by (intro page_no_add) linarith+
  have run: "MemorySet_try_map km ms vpns perm False = do {
      (self, km) \<leftarrow> MemorySet_insert_framed_area km ms s ?e perm; Some (Inr (va_val (VirtPageNum_page_start s)), self, km) }"
    using hole by (simp add: MemorySet_try_map_def len(1) Let_def)
  show ?thesis
  proof (cases "\<exists>a\<in>set ?as. covers a (page_no s)")
    case True
    then have "s \<in> set (ms_pages ms)" using covers_page by blast
    moreover have "s < ?e" "3 \<le> card (free_ppns km)" using e len(2,3) by (simp_all add: page_no_less)
    ultimately have "MemorySet_insert_framed_area km ms s ?e perm = None" using insert_framed_area_mapped [OF ok] by blast
    then show ?thesis unfolding if_P [OF True] run by simp
  next
    case False
    then have "\<forall>a\<in>set ?as. page_no (ma_end a) \<le> page_no s \<or> page_no ?e \<le> page_no (ma_start a)" using f unfolding e by blast
    note h = hole_free [OF ok refl e len(2) this ne]
    have "vpn_val ?e \<le> USER_PAGES" using f e by (simp add: word_le_nat_alt)
    moreover have "3 * length (vpn_range s ?e) \<le> card (free_ppns km)" unfolding length_vpn_range e using len(3) by simp
    ultimately obtain ms' km' N where i: "MemorySet_insert_framed_area km ms s ?e perm = Some (ms', km')" "ms_ok km' ms' (used \<union> N)"
      "mem_step used km km' (table_nodes (km_ram km) (pt_root_ppn (ms_page_table ms)) \<union> N) N" "card N \<le> 3 * length (vpn_range s ?e)"
      "space_view km' ms' = (\<lambda>key. if VirtPageNum key \<in> set (vpn_range s ?e) then Some (replicate 4096 0, perm OR PTE_V) else space_view km ms key)"
      "\<exists>a'. ms_areas ms' = btree_insert s a' (ms_areas ms) \<and> ma_start a' = s \<and> ma_end a' = ?e \<and> ma_map_perm a' = perm"
      by (rule insert_framed_area_ok [OF ok _ h])
    have "card N \<le> 3 * unat len" using i(4) unfolding length_vpn_range e by simp
    moreover have "N \<subseteq> free_ppns km" "free_ppns km' = free_ppns km - N" using i(3) by (simp_all add: mem_step_def)
    moreover have "VirtPageNum key \<in> set (vpn_range s ?e) \<longleftrightarrow> page_no s \<le> unat key \<and> unat key < page_no s + unat len" for key
      unfolding set_vpn_range by (simp add: page_no_less e)
    moreover have "va_val (VirtPageNum_page_start s) = word_of_nat (page_no s * 4096)"
      by (cases s) (simp add: config_simps push_bit_eq_mult)
    then have "MemorySet_try_map km ms vpns perm False = Some (Inr (word_of_nat (page_no s * 4096)), ms', km')" unfolding run i(1) by simp
    moreover obtain a' where "ms_areas ms' = btree_insert s a' (ms_areas ms)" "page_no (ma_start a') = page_no s" "page_no (ma_end a') = page_no s + unat len"
      using i(6) e by auto
    ultimately show ?thesis unfolding if_not_P [OF False] using i(2,5)
      by (intro exI [of _ ms'] exI [of _ km'] exI [of _ N] exI [of _ a']) (simp del: vpn_range.simps)
  qed
qed

text \<open>
  Property C7. An anonymous mapping of \<^term>\<open>len\<close> pages, with enough free frames, in an address space whose segments have
  at least one page each. When \<^verbatim>\<open>try_map\<close> without a fixed address succeeds, it returns the address of the lowest hole
  between \<^verbatim>\<open>MMAP_START\<close> and \<^verbatim>\<open>LOW_END\<close> in front of a segment: its pages are zeroed and form a new segment, all other
  pages show what they did, and the address space stays well formed. It returns \<^verbatim>\<open>ENOMEM\<close> only when there is no such hole,
  and changes nothing then. It panics only when a segment covers the first page of the mapping area or
  the page right behind another segment. And it does panic when a segment covers the first page of the mapping area and the next segment
  leaves room for \<^term>\<open>len\<close> pages counted from there, as after a first mapping: its pages are offered again.
\<close>

theorem try_map_first_fit:
  assumes ok: "ms_ok km ms used" and areas: "areas = map snd (ms_areas ms)" "\<forall>a\<in>set areas. ma_start a < ma_end a"
    and len: "len = vpn_val (snd vpns) - vpn_val (fst vpns)" "0 < len" "3 * unat len \<le> card (free_ppns km)"
  shows "(case MemorySet_try_map km ms vpns perm False of
      Some (Inr addr, ms', km') \<Rightarrow> \<exists>s N a. mmap_hole areas (unat len) s \<and> (\<forall>p. mmap_hole areas (unat len) p \<longrightarrow> s \<le> p) \<and> addr = word_of_nat (s * 4096)
        \<and> ms_ok km' ms' (used \<union> N) \<and> N \<subseteq> free_ppns km \<and> free_ppns km' = free_ppns km - N \<and> card N \<le> 3 * unat len
        \<and> ms_areas ms' = btree_insert (VirtPageNum (word_of_nat s)) a (ms_areas ms) \<and> page_no (ma_start a) = s \<and> page_no (ma_end a) = s + unat len
        \<and> space_view km' ms' = (\<lambda>key. if s \<le> unat key \<and> unat key < s + unat len then Some (replicate 4096 0, perm OR PTE_V) else space_view km ms key)
    | Some (Inl err, ms', km') \<Rightarrow> err = ENOMEM \<and> ms' = ms \<and> km' = km \<and> (\<forall>p. \<not> mmap_hole areas (unat len) p)
    | None \<Rightarrow> \<exists>p. MMAP_PAGE \<le> p \<and> (p = MMAP_PAGE \<or> (\<exists>a\<in>set areas. p = page_no (ma_end a))) \<and> (\<exists>a\<in>set areas. covers a p))
    \<and> ((\<exists>a\<in>set areas. covers a MMAP_PAGE) \<and> MMAP_PAGE + unat len \<le> unat LOW_END div 4096 \<and> (\<exists>a\<in>set areas. MMAP_PAGE < page_no (ma_start a))
       \<and> (\<forall>a\<in>set areas. MMAP_PAGE < page_no (ma_start a) \<longrightarrow> MMAP_PAGE + unat len \<le> page_no (ma_start a))
       \<longrightarrow> MemorySet_try_map km ms vpns perm False = None)" (is "?A \<and> _")
proof -
  let ?M = "VirtPageNum (drop_bit PAGE_SIZE_BITS MMAP_START)"
  note ne = areas(2) [unfolded areas(1)]
  have pos: "0 < unat len" using len(2) by (simp add: unat_gt_0 word_gt_0)
  note at = try_map_at [OF ok ne len(1) pos len(3)]
  have "frames_inv km used" using ok by (simp add: ms_ok_def pt_ok_def)
  from card_free_ppns [OF this] have small: "unat len \<le> 0x4000000" using len(3) by simp
  have least: "\<exists>s. find_hole ?M len areas = Some s \<and> page_no s \<le> p" if "mmap_hole areas (unat len) p" for p
    using that pos find_hole_least [of ?M p len areas, unfolded MMAP_PAGE_eq(3)] unfolding mmap_hole_def MMAP_PAGE_eq by blast
  have again: "MemorySet_try_map km ms vpns perm False = None"
    if "\<exists>a\<in>set areas. covers a MMAP_PAGE" "MMAP_PAGE + unat len \<le> unat LOW_END div 4096" "\<exists>a\<in>set areas. MMAP_PAGE < page_no (ma_start a)"
      "\<forall>a\<in>set areas. MMAP_PAGE < page_no (ma_start a) \<longrightarrow> MMAP_PAGE + unat len \<le> page_no (ma_start a)"
  proof -
    have "find_hole ?M len areas = Some ?M"
      by (rule find_hole_at_start) (unfold MMAP_PAGE_eq(3), use that(2-4) in \<open>simp_all only: MMAP_PAGE_eq\<close>)
    from at [OF this [unfolded areas(1)]] that(1) show ?thesis unfolding MMAP_PAGE_eq(3) areas(1) MMAP_PAGE_eq(1) by simp
  qed
  have ?A
  proof (cases "find_hole ?M len areas")
    case None
    then have "MemorySet_try_map km ms vpns perm False = Some (Inl ENOMEM, ms, km)" by (simp add: MemorySet_try_map_def len(1) areas(1) Let_def)
    then show ?thesis using least None by auto
  next
    case (Some s)
    have "\<forall>a\<in>set areas. page_no (ma_start a) < page_no (ma_end a) \<and> page_no (ma_end a) \<le> 0x4000000"
      using areas(2) ms_areas_sorted(2) [OF ok, folded areas(1)] by (simp add: page_no_less)
    moreover have "page_no ?M \<le> 0x4000000" unfolding MMAP_PAGE_eq(3) by simp
    ultimately have f: "0x2000000 \<le> page_no s" "page_no s + unat len \<le> 0x4000000" "s = ?M \<or> (\<exists>a\<in>set areas. s = ma_end a)"
      "\<forall>a\<in>set areas. page_no (ma_end a) \<le> page_no s \<or> page_no s + unat len \<le> page_no (ma_start a) \<or> covers a (page_no s)"
      "\<exists>a\<in>set areas. page_no s + unat len \<le> page_no (ma_start a)"
      using find_hole_result [OF Some _ small ms_areas_sorted(1) [OF ok, folded areas(1)]] unfolding MMAP_PAGE_eq(3) by blast+
    show ?thesis
    proof (cases "\<exists>a\<in>set areas. covers a (page_no s)")
      case True
      then have "MemorySet_try_map km ms vpns perm False = None" using at [OF Some [unfolded areas(1)]] unfolding areas(1) by simp
      moreover have "page_no s = MMAP_PAGE \<or> (\<exists>a\<in>set areas. page_no s = page_no (ma_end a))" using f(3) MMAP_PAGE_eq(1,3) by metis
      ultimately show ?thesis using True f(1) unfolding MMAP_PAGE_eq(1) by auto
    next
      case False
      then have "mmap_hole areas (unat len) (page_no s)" using f unfolding mmap_hole_def MMAP_PAGE_eq by blast
      moreover have "\<forall>p. mmap_hole areas (unat len) p \<longrightarrow> page_no s \<le> p" using least Some by fastforce
      moreover have s: "VirtPageNum (word_of_nat (page_no s)) = s" by (cases s) simp
      moreover obtain ms' km' N a where "MemorySet_try_map km ms vpns perm False = Some (Inr (word_of_nat (page_no s * 4096)), ms', km')"
        "ms_ok km' ms' (used \<union> N) \<and> N \<subseteq> free_ppns km \<and> free_ppns km' = free_ppns km - N \<and> card N \<le> 3 * unat len
        \<and> ms_areas ms' = btree_insert s a (ms_areas ms) \<and> page_no (ma_start a) = page_no s \<and> page_no (ma_end a) = page_no s + unat len
        \<and> space_view km' ms' = (\<lambda>key. if page_no s \<le> unat key \<and> unat key < page_no s + unat len then Some (replicate 4096 0, perm OR PTE_V) else space_view km ms key)"
        using at [OF Some [unfolded areas(1)], of perm, folded areas(1), unfolded if_not_P [OF False]] by blast
      ultimately show ?thesis by (simp only: option.case prod.case sum.case) (intro exI [of _ "page_no s"] exI [of _ N] exI [of _ a], simp only: s simp_thms)
    qed
  qed
  then show ?thesis using again by blast
qed

lemma example_two_areas:
  obtains km ms used a b where "ms_ok km ms used" "ms_areas ms = [(VirtPageNum 0x10, a), (VirtPageNum 0x3000000, b)]"
    "ma_start a = VirtPageNum 0x10" "ma_end a = VirtPageNum 0x12" "ma_start b = VirtPageNum 0x3000000" "ma_end b = VirtPageNum 0x3000001"
    "10 \<le> card (free_ppns km)"
proof -
  obtain km0 ms0 used0 a where e: "ms_ok km0 ms0 used0" "ms_areas ms0 = [(VirtPageNum 0x10, a)]" "ma_start a = VirtPageNum 0x10" "ma_end a = VirtPageNum 0x12"
    "20 \<le> card (free_ppns km0)"
    by (rule example_space)
  have rng: "length (vpn_range (VirtPageNum 0x3000000) (VirtPageNum 0x3000001)) = 1" by (simp add: length_vpn_range)
  have pages: "set (ms_pages ms0) = {v. VirtPageNum 0x10 \<le> v \<and> v < VirtPageNum 0x12}"
    unfolding ms_pages_def e(2) areas_pages_simps e(3,4) append_Nil2 by (rule set_vpn_range)
  have "vpn_val (VirtPageNum 0x3000001) \<le> USER_PAGES" "set (vpn_range (VirtPageNum 0x3000000) (VirtPageNum 0x3000001)) \<inter> set (ms_pages ms0) = {}"
    "VirtPageNum 0x3000000 \<notin> fst ` set (ms_areas ms0)" "3 * length (vpn_range (VirtPageNum 0x3000000) (VirtPageNum 0x3000001)) \<le> card (free_ppns km0)"
    unfolding rng pages set_vpn_range using e(2,5) by (auto simp: less_eq_VirtPageNum_def less_VirtPageNum_def word_le_nat_alt word_less_nat_alt)
  then obtain ms km N where i: "ms_ok km ms (used0 \<union> N)" "mem_step used0 km0 km (table_nodes (km_ram km0) (pt_root_ppn (ms_page_table ms0)) \<union> N) N"
    "card N \<le> 3 * length (vpn_range (VirtPageNum 0x3000000) (VirtPageNum 0x3000001))"
    "\<exists>b. ms_areas ms = btree_insert (VirtPageNum 0x3000000) b (ms_areas ms0) \<and> ma_start b = VirtPageNum 0x3000000 \<and> ma_end b = VirtPageNum 0x3000001 \<and> ma_map_perm b = MP_R"
    by (rule insert_framed_area_ok [OF e(1)])
  have N: "N \<subseteq> free_ppns km0" "free_ppns km = free_ppns km0 - N" using i(2) by (simp_all add: mem_step_def)
  have "frames_inv km0 used0" using e(1) by (simp add: ms_ok_def pt_ok_def)
  then have "finite N" using finite_subset [OF N(1) finite_free_ppns] by blast
  then have "card (free_ppns km0) - card N \<le> card (free_ppns km)" unfolding N(2) by (rule diff_card_le_card_Diff)
  then have "10 \<le> card (free_ppns km)" using i(3) e(5) unfolding rng by linarith
  moreover from i(4) obtain b where "ms_areas ms = btree_insert (VirtPageNum 0x3000000) b (ms_areas ms0)" "ma_start b = VirtPageNum 0x3000000" "ma_end b = VirtPageNum 0x3000001" by blast
  moreover have "btree_insert (VirtPageNum 0x3000000) b (ms_areas ms0) = [(VirtPageNum 0x10, a), (VirtPageNum 0x3000000, b)]" for b
    unfolding e(2) by (simp add: less_VirtPageNum_def)
  ultimately show ?thesis using that [OF i(1)] e(3,4) by metis
qed

theorem try_map_first_fit_witness:
  "\<exists>km ms ms1 km1. MemorySet_try_map km ms (VirtPageNum 0, VirtPageNum 1) MP_R False = Some (Inr 0x2000000000, ms1, km1)
     \<and> space_view km1 ms1 0x2000000 = Some (replicate 4096 0, MP_R OR PTE_V)
     \<and> MemorySet_try_map km1 ms1 (VirtPageNum 0, VirtPageNum 1) MP_R False = None"
proof -
  obtain km ms used a b where e: "ms_ok km ms used" "ms_areas ms = [(VirtPageNum 0x10, a), (VirtPageNum 0x3000000, b)]"
    "ma_start a = VirtPageNum 0x10" "ma_end a = VirtPageNum 0x12" "ma_start b = VirtPageNum 0x3000000" "ma_end b = VirtPageNum 0x3000001"
    "10 \<le> card (free_ppns km)" by (rule example_two_areas)
  let ?v = "(VirtPageNum 0, VirtPageNum 1)"
  have len: "1 = vpn_val (snd ?v) - vpn_val (fst ?v)" "0 < (1 :: usize)" "3 * unat (1 :: usize) \<le> card (free_ppns km)" using e(7) by simp_all
  have areas: "[a, b] = map snd (ms_areas ms)" "\<forall>a\<in>set [a, b]. ma_start a < ma_end a" using e(2-6) by (simp_all add: page_no_less)
  note t = try_map_first_fit [OF e(1) areas len, of MP_R, THEN conjunct1]
  have hole: "mmap_hole [a, b] (unat (1 :: usize)) 0x2000000" using e(3-6) by (simp add: mmap_hole_def MMAP_PAGE_eq)
  have clear: "\<not> (\<exists>p. MMAP_PAGE \<le> p \<and> (p = MMAP_PAGE \<or> (\<exists>a\<in>set [a, b]. p = page_no (ma_end a))) \<and> (\<exists>a\<in>set [a, b]. covers a p))"
    using e(3-6) by (auto simp: covers_def MMAP_PAGE_eq)
  obtain addr ms1 km1 where r: "MemorySet_try_map km ms ?v MP_R False = Some (Inr addr, ms1, km1)"
  proof (cases "MemorySet_try_map km ms ?v MP_R False")
    case None
    then show ?thesis using t clear by simp
  next
    case (Some x)
    obtain y ms1 km1 where x: "x = (y, ms1, km1)" by (cases x)
    show ?thesis using t hole that [of _ ms1 km1] unfolding Some x by (cases y) auto
  qed
  obtain s N c where s: "mmap_hole [a, b] (unat (1 :: usize)) s" "\<forall>p. mmap_hole [a, b] (unat (1 :: usize)) p \<longrightarrow> s \<le> p" "addr = word_of_nat (s * 4096)"
    "ms_ok km1 ms1 (used \<union> N)" "N \<subseteq> free_ppns km" "free_ppns km1 = free_ppns km - N" "card N \<le> 3 * unat (1 :: usize)"
    "ms_areas ms1 = btree_insert (VirtPageNum (word_of_nat s)) c (ms_areas ms)" "page_no (ma_start c) = s" "page_no (ma_end c) = s + unat (1 :: usize)"
    "space_view km1 ms1 = (\<lambda>key. if s \<le> unat key \<and> unat key < s + unat (1 :: usize) then Some (replicate 4096 0, MP_R OR PTE_V) else space_view km ms key)"
    using t unfolding r option.case prod.case sum.case by blast
  have "0x2000000 \<le> s" "s \<le> 0x2000000" using s(1,2) hole by (simp_all add: mmap_hole_def MMAP_PAGE_eq)
  then have p: "s = 0x2000000" by simp
  have areas1: "[a, c, b] = map snd (ms_areas ms1)" unfolding s(8) e(2) p by (simp add: page_no_less)
  have ne1: "\<forall>a\<in>set [a, c, b]. ma_start a < ma_end a" using areas(2) s(9,10) by (simp add: page_no_less)
  have "frames_inv km used" using e(1) by (simp add: ms_ok_def pt_ok_def)
  then have "finite N" using finite_subset [OF s(5) finite_free_ppns] by blast
  then have "card (free_ppns km) - card N \<le> card (free_ppns km1)" unfolding s(6) by (rule diff_card_le_card_Diff)
  then have "3 * unat (1 :: usize) \<le> card (free_ppns km1)" using s(7) e(7) by simp
  note t1 = try_map_first_fit [OF s(4) areas1 ne1 len(1,2) this, of MP_R, THEN conjunct2]
  have "MemorySet_try_map km1 ms1 ?v MP_R False = None"
    by (rule mp [OF t1]) (use e(3-6) s(9,10) in \<open>simp add: covers_def MMAP_PAGE_eq p\<close>)
  moreover have "addr = 0x2000000000" "space_view km1 ms1 0x2000000 = Some (replicate 4096 0, MP_R OR PTE_V)" unfolding s(3,11) p by simp_all
  ultimately show ?thesis using r by blast
qed


end
