(* ===== verification/Fat_Io.thy ===== *)
theory Fat_Io
  imports Disk_Driver
begin

text \<open>
  Streams of the FAT library (\<^verbatim>\<open>rust-fatfs/src/io.rs\<close>, \<^verbatim>\<open>error.rs\<close>): the traits \<^verbatim>\<open>Read\<close>, \<^verbatim>\<open>Write\<close> and
  \<^verbatim>\<open>Seek\<close> with their derived operations, and the disk driver of the kernel as such a stream.

  The library is generic in its storage; a stream is a record of operations on a state. The
  interface \<^verbatim>\<open>byte_io\<close> is what the library relies on, an array of bytes with a cursor, and the
  disk driver over the block cache implements it.
\<close>

section \<open>Errors\<close>

text \<open>
  The error type of the library at the error type \<^verbatim>\<open>()\<close> of the kernel's storage. An error of the
  storage becomes \<^verbatim>\<open>Io\<close> through the \<^verbatim>\<open>From\<close> conversion of the \<^verbatim>\<open>?\<close> operator.
\<close>

datatype Error = Io | UnexpectedEof | WriteZero | InvalidInput | NotFound | AlreadyExists
  | DirectoryIsNotEmpty | CorruptedFileSystem | NotEnoughSpace | InvalidFileNameLength
  | UnsupportedFileNameCharacter

definition Error_is_interrupted :: "Error \<Rightarrow> bool" where
  "Error_is_interrupted self = (case self of Io \<Rightarrow> False | _ \<Rightarrow> False)"

section \<open>Computations\<close>

text \<open>
  A fallible operation on a state \<^typ>\<open>'s\<close>: \<^term>\<open>None\<close> is a panic or a loop that does not end; an error
  leaves the state as far as the operation got.
\<close>

type_synonym ('s, 'a) fat_io = "'s \<Rightarrow> ((Error + 'a) \<times> 's) option"

definition io_return :: "'a \<Rightarrow> ('s, 'a) fat_io" where
  "io_return x s = Some (Inr x, s)"

definition io_err :: "Error \<Rightarrow> ('s, 'a) fat_io" where
  "io_err e s = Some (Inl e, s)"

definition io_panic :: "('s, 'a) fat_io" where
  "io_panic s = None"

text \<open>Sequencing with the \<^verbatim>\<open>?\<close> operator.\<close>

definition io_bind :: "('s, 'a) fat_io \<Rightarrow> ('a \<Rightarrow> ('s, 'b) fat_io) \<Rightarrow> ('s, 'b) fat_io" where
  "io_bind m f s = do {
     (r, s) \<leftarrow> m s;
     (case r of Inl e \<Rightarrow> Some (Inl e, s) | Inr x \<Rightarrow> f x s) }"

text \<open>The result as a value, for a \<^verbatim>\<open>match\<close> on it.\<close>

definition io_try :: "('s, 'a) fat_io \<Rightarrow> (Error + 'a \<Rightarrow> ('s, 'b) fat_io) \<Rightarrow> ('s, 'b) fat_io" where
  "io_try m f s = do { (r, s) \<leftarrow> m s; f r s }"

definition io_assert :: "bool \<Rightarrow> ('s, unit) fat_io" where
  "io_assert b = (if b then io_return () else io_panic)"

definition io_of_result :: "Error + 'a \<Rightarrow> ('s, 'a) fat_io" where
  "io_of_result r s = Some (r, s)"

text \<open>A sequence of writes.\<close>

fun io_seq :: "('s, unit) fat_io list \<Rightarrow> ('s, unit) fat_io" where
  "io_seq [] = io_return ()"
| "io_seq (m # ms) = io_bind m (\<lambda>_. io_seq ms)"

lemma io_bind_mono [partial_function_mono]:
  fixes B :: "_ \<Rightarrow> 's \<Rightarrow> ((Error + 'a) \<times> 's) option" and C :: "_ \<Rightarrow> _ \<Rightarrow> 's \<Rightarrow> ((Error + 'b) \<times> 's) option"
  assumes "mono_option (\<lambda>f. B f s)" "\<And>y s. mono_option (\<lambda>f. C y f s)"
  shows "mono_option (\<lambda>f. io_bind (B f) (\<lambda>y. C y f) s)"
  unfolding io_bind_def
proof (rule bind_mono [OF assms(1)])
  fix y :: "(Error + 'a) \<times> 's"
  obtain r s' where y: "y = (r, s')" by (cases y)
  show "mono_option (\<lambda>f. case y of (r, s) \<Rightarrow> (case r of Inl e \<Rightarrow> Some (Inl e, s) | Inr x \<Rightarrow> C x f s))"
    using assms(2) by (cases r) (simp_all add: y option.const_mono)
qed

lemma io_try_mono [partial_function_mono]:
  fixes B :: "_ \<Rightarrow> 's \<Rightarrow> ((Error + 'a) \<times> 's) option" and C :: "_ \<Rightarrow> _ \<Rightarrow> 's \<Rightarrow> ((Error + 'b) \<times> 's) option"
  assumes "mono_option (\<lambda>f. B f s)" "\<And>y s. mono_option (\<lambda>f. C y f s)"
  shows "mono_option (\<lambda>f. io_try (B f) (\<lambda>y. C y f) s)"
  unfolding io_try_def
proof (rule bind_mono [OF assms(1)])
  fix y :: "(Error + 'a) \<times> 's"
  obtain r s' where y: "y = (r, s')" by (cases y)
  show "mono_option (\<lambda>f. case y of (r, s) \<Rightarrow> C r f s)" using assms(2) by (simp add: y)
qed

lemma io_simps [simp]:
  "io_return x s = Some (Inr x, s)" "io_err e s = Some (Inl e, s)" "io_panic s = None"
  "io_of_result r s = Some (r, s)" "io_assert True s = Some (Inr (), s)" "io_assert False s = None"
  by (simp_all add: io_return_def io_err_def io_panic_def io_of_result_def io_assert_def)

lemma io_bind_step [simp]:
  "m s = Some (Inr x, s') \<Longrightarrow> io_bind m f s = f x s'"
  "m s = Some (Inl e, s') \<Longrightarrow> io_bind m f s = Some (Inl e, s')"
  "m s = None \<Longrightarrow> io_bind m f s = None"
  by (simp_all add: io_bind_def)

lemma io_try_step [simp]: "m s = Some (r, s') \<Longrightarrow> io_try m f s = f r s'"
  "m s = None \<Longrightarrow> io_try m f s = None"
  by (simp_all add: io_try_def)

section \<open>Streams\<close>

text \<open>
  The operations of a type that implements \<^verbatim>\<open>Read\<close>, \<^verbatim>\<open>Write\<close> and \<^verbatim>\<open>Seek\<close>. A read into a buffer of \<^term>\<open>n\<close>
  bytes returns the bytes it put at the front of the buffer. The last two fields are the errors
  \<^verbatim>\<open>new_unexpected_eof_error\<close> and \<^verbatim>\<open>new_write_zero_error\<close> of the stream's error type.
\<close>

record 's stream =
  st_read :: "nat \<Rightarrow> ('s, u8 list) fat_io"
  st_write :: "u8 list \<Rightarrow> ('s, nat) fat_io"
  st_flush :: "('s, unit) fat_io"
  st_seek :: "SeekFrom \<Rightarrow> ('s, u64) fat_io"
  st_eof :: Error
  st_zero :: Error

text \<open>
  \<^verbatim>\<open>read_exact\<close>: \<^term>\<open>n\<close> is what is left of the buffer. Slicing past the end of the buffer panics.
\<close>

partial_function (option) read_exact_loop :: "'s stream \<Rightarrow> nat \<Rightarrow> u8 list \<Rightarrow> ('s, u8 list) fat_io" where
  "read_exact_loop st n acc s =
     (if n = 0 then io_return acc s
      else io_try (st_read st n) (\<lambda>r s. case r of
          Inr bs \<Rightarrow>
            if bs = [] then io_err (st_eof st) s
            else if length bs > n then None
            else read_exact_loop st (n - length bs) (acc @ bs) s
        | Inl e \<Rightarrow> if Error_is_interrupted e then read_exact_loop st n acc s else io_err e s) s)"

definition read_exact :: "'s stream \<Rightarrow> nat \<Rightarrow> ('s, u8 list) fat_io" where
  "read_exact st n = read_exact_loop st n []"

partial_function (option) write_all :: "'s stream \<Rightarrow> u8 list \<Rightarrow> ('s, unit) fat_io" where
  "write_all st buf s =
     (if buf = [] then io_return () s
      else io_try (st_write st buf) (\<lambda>r s. case r of
          Inr n \<Rightarrow>
            if n = 0 then io_err (st_zero st) s
            else if n > length buf then None
            else write_all st (drop n buf) s
        | Inl e \<Rightarrow> if Error_is_interrupted e then write_all st buf s else io_err e s) s)"

declare read_exact_loop.simps [code] write_all.simps [code]

definition u16_from_le_bytes :: "u8 list \<Rightarrow> u16" where
  "u16_from_le_bytes bs = ucast (bs ! 0) OR push_bit 8 (ucast (bs ! 1))"

definition u32_from_le_bytes :: "u8 list \<Rightarrow> u32" where
  "u32_from_le_bytes bs = ucast (bs ! 0) OR push_bit 8 (ucast (bs ! 1))
     OR push_bit 16 (ucast (bs ! 2)) OR push_bit 24 (ucast (bs ! 3))"

definition u16_to_le_bytes :: "u16 \<Rightarrow> u8 list" where
  "u16_to_le_bytes n = [ucast n, ucast (drop_bit 8 n)]"

definition u32_to_le_bytes :: "u32 \<Rightarrow> u8 list" where
  "u32_to_le_bytes n = [ucast n, ucast (drop_bit 8 n), ucast (drop_bit 16 n), ucast (drop_bit 24 n)]"

definition read_u8 :: "'s stream \<Rightarrow> ('s, u8) fat_io" where
  "read_u8 st = io_bind (read_exact st 1) (\<lambda>buf. io_return (buf ! 0))"

definition read_u16_le :: "'s stream \<Rightarrow> ('s, u16) fat_io" where
  "read_u16_le st = io_bind (read_exact st 2) (\<lambda>buf. io_return (u16_from_le_bytes buf))"

definition read_u32_le :: "'s stream \<Rightarrow> ('s, u32) fat_io" where
  "read_u32_le st = io_bind (read_exact st 4) (\<lambda>buf. io_return (u32_from_le_bytes buf))"

definition write_u8 :: "'s stream \<Rightarrow> u8 \<Rightarrow> ('s, unit) fat_io" where
  "write_u8 st n = write_all st [n]"

definition write_u16_le :: "'s stream \<Rightarrow> u16 \<Rightarrow> ('s, unit) fat_io" where
  "write_u16_le st n = write_all st (u16_to_le_bytes n)"

definition write_u32_le :: "'s stream \<Rightarrow> u32 \<Rightarrow> ('s, unit) fat_io" where
  "write_u32_le st n = write_all st (u32_to_le_bytes n)"

section \<open>The disk driver as a stream\<close>

type_synonym 'd disk_state = "'d DiskDriver \<times> 'd block_sys"

definition disk_stream :: "'d disk_state stream" where
  "disk_stream = \<lparr>
     st_read = (\<lambda>n (self, s). do {
       (nread, buf, self, s) \<leftarrow> DiskDriver_read self s (replicate n 0);
       Some (Inr (take nread buf), (self, s)) }),
     st_write = (\<lambda>buf (self, s). do {
       (nwrite, self, s) \<leftarrow> DiskDriver_write self s buf;
       Some (Inr nwrite, (self, s)) }),
     st_flush = (\<lambda>(self, s). do {
       s \<leftarrow> DiskDriver_flush s;
       Some (Inr (), (self, s)) }),
     st_seek = (\<lambda>pos (self, s). do {
       r \<leftarrow> DiskDriver_seek self pos;
       (case r of Inl _ \<Rightarrow> Some (Inl Io, (self, s)) | Inr (offset, self) \<Rightarrow> Some (Inr offset, (self, s))) }),
     st_eof = Io, st_zero = Io\<rparr>"

section \<open>Little-endian words\<close>

lemma length_le_bytes [simp]: "length (u16_to_le_bytes n) = 2" "length (u32_to_le_bytes m) = 4"
  by (simp_all add: u16_to_le_bytes_def u32_to_le_bytes_def)

lemma u16_le_bytes [simp]: "u16_from_le_bytes (u16_to_le_bytes n) = n"
  by (rule bit_eqI) (auto simp: u16_from_le_bytes_def u16_to_le_bytes_def bit_simps)

lemma u32_le_bytes [simp]: "u32_from_le_bytes (u32_to_le_bytes n) = n"
proof (rule bit_word_eqI)
  fix k assume "k < LENGTH(32)"
  then have "k < 32" by simp
  then consider "k < 8" | "8 \<le> k" "k < 16" | "16 \<le> k" "k < 24" | "24 \<le> k" "k < 32" by linarith
  then show "bit (u32_from_le_bytes (u32_to_le_bytes n)) k = bit n k"
    by cases (auto simp: u32_from_le_bytes_def u32_to_le_bytes_def bit_simps)
qed

lemma list_2: "length xs = 2 \<Longrightarrow> \<exists>a b. xs = [a, b]"
  by (auto simp: numeral_2_eq_2 length_Suc_conv)

lemma list_4: "length xs = 4 \<Longrightarrow> \<exists>a b c d. xs = [a, b, c, d]"
  by (auto simp: eval_nat_numeral length_Suc_conv)

lemma u8_high_bits [simp]: "\<not> bit (a :: u8) (8 + n)" "\<not> bit a (16 + n)" "\<not> bit a (24 + n)"
  by (auto dest: bit_imp_le_length)

lemma le_bytes_u16 [simp]: "length bs = 2 \<Longrightarrow> u16_to_le_bytes (u16_from_le_bytes bs) = bs"
  by (drule list_2) (auto simp: u16_from_le_bytes_def u16_to_le_bytes_def bit_simps intro!: bit_eqI)

lemma le_bytes_u32 [simp]: "length bs = 4 \<Longrightarrow> u32_to_le_bytes (u32_from_le_bytes bs) = bs"
  by (drule list_4) (auto simp: u32_from_le_bytes_def u32_to_le_bytes_def bit_simps intro!: bit_eqI)

section \<open>The interface of the storage\<close>

text \<open>The bytes of \<^term>\<open>f\<close> with \<^term>\<open>buf\<close> put at address \<^term>\<open>p\<close>.\<close>

definition patch :: "(nat \<Rightarrow> u8) \<Rightarrow> nat \<Rightarrow> u8 list \<Rightarrow> nat \<Rightarrow> u8" where
  "patch f p buf a = (if p \<le> a \<and> a < p + length buf then buf ! (a - p) else f a)"

definition bytes_at :: "(nat \<Rightarrow> u8) \<Rightarrow> nat \<Rightarrow> nat \<Rightarrow> u8 list" where
  "bytes_at f p n = map f [p ..< p + n]"

lemma length_bytes_at [simp]: "length (bytes_at f p n) = n"
  by (simp add: bytes_at_def)

lemma bytes_at_0 [simp]: "bytes_at f p 0 = []"
  by (simp add: bytes_at_def)

lemma nth_bytes_at [simp]: "i < n \<Longrightarrow> bytes_at f p n ! i = f (p + i)"
  by (simp add: bytes_at_def)

lemma bytes_at_cong: "(\<And>a. p \<le> a \<Longrightarrow> a < p + n \<Longrightarrow> f a = g a) \<Longrightarrow> bytes_at f p n = bytes_at g p n"
  by (simp add: bytes_at_def)

lemma bytes_at_add: "bytes_at f p (m + n) = bytes_at f p m @ bytes_at f (p + m) n"
  by (rule nth_equalityI) (auto simp: nth_append)

lemma bytes_at_patch: "n = length buf \<Longrightarrow> bytes_at (patch f p buf) p n = buf"
  by (rule nth_equalityI) (simp_all add: patch_def)

lemma bytes_at_patch_other: "q + n \<le> p \<or> p + length buf \<le> q \<Longrightarrow> bytes_at (patch f p buf) q n = bytes_at f q n"
  by (rule bytes_at_cong) (auto simp: patch_def)

lemma patch_append: "patch (patch f p bs) (p + length bs) cs = patch f p (bs @ cs)"
  by (rule ext) (auto simp: patch_def nth_append)

lemma patch_Nil [simp]: "patch f p [] = f"
  by (rule ext) (auto simp: patch_def)

text \<open>
  What a computation does at the cursor: it reads the bytes \<^term>\<open>bs\<close> and returns \<^term>\<open>v\<close>, or it
  writes the bytes \<^term>\<open>bs\<close>. Both leave the cursor behind the bytes.
\<close>

definition parses :: "('s \<Rightarrow> bool) \<Rightarrow> ('s \<Rightarrow> nat \<Rightarrow> u8) \<Rightarrow> ('s \<Rightarrow> nat) \<Rightarrow> nat \<Rightarrow> ('s, 'a) fat_io \<Rightarrow> u8 list \<Rightarrow> 'a \<Rightarrow> bool" where
  "parses ok img pos cap m bs v \<longleftrightarrow> (\<forall>s. ok s \<longrightarrow> pos s + length bs \<le> cap \<longrightarrow> length bs < 2 ^ 32 \<longrightarrow>
     bytes_at (img s) (pos s) (length bs) = bs \<longrightarrow>
     (\<exists>s'. m s = Some (Inr v, s') \<and> ok s' \<and> pos s' = pos s + length bs \<and> img s' = img s))"

definition emits :: "('s \<Rightarrow> bool) \<Rightarrow> ('s \<Rightarrow> nat \<Rightarrow> u8) \<Rightarrow> ('s \<Rightarrow> nat) \<Rightarrow> nat \<Rightarrow> ('s, unit) fat_io \<Rightarrow> u8 list \<Rightarrow> bool" where
  "emits ok img pos cap m bs \<longleftrightarrow> (\<forall>s. ok s \<longrightarrow> pos s + length bs \<le> cap \<longrightarrow> length bs < 2 ^ 32 \<longrightarrow>
     (\<exists>s'. m s = Some (Inr (), s') \<and> ok s' \<and> pos s' = pos s + length bs \<and> img s' = patch (img s) (pos s) bs))"

lemma parsesD:
  assumes "parses ok img pos cap m bs v" "ok s" "pos s + length bs \<le> cap" "length bs < 2 ^ 32"
    "bytes_at (img s) (pos s) (length bs) = bs"
  obtains s' where "m s = Some (Inr v, s')" "ok s'" "pos s' = pos s + length bs" "img s' = img s"
  using assms unfolding parses_def by blast

lemma emitsD:
  assumes "emits ok img pos cap m bs" "ok s" "pos s + length bs \<le> cap" "length bs < 2 ^ 32"
  obtains s' where "m s = Some (Inr (), s')" "ok s'" "pos s' = pos s + length bs" "img s' = patch (img s) (pos s) bs"
  using assms unfolding emits_def by blast

lemma parses_return: "parses ok img pos cap (io_return v) [] v"
  by (simp add: parses_def)

lemma parses_bind:
  assumes m: "parses ok img pos cap m bs x" and k: "parses ok img pos cap (k x) cs v"
  shows "parses ok img pos cap (io_bind m k) (bs @ cs) v"
  unfolding parses_def
proof (intro allI impI)
  fix s assume s: "ok s" "pos s + length (bs @ cs) \<le> cap" "length (bs @ cs) < 2 ^ 32"
    "bytes_at (img s) (pos s) (length (bs @ cs)) = bs @ cs"
  have "bytes_at (img s) (pos s) (length bs) = bs" "bytes_at (img s) (pos s + length bs) (length cs) = cs"
    using s(4) by (simp_all add: bytes_at_add)
  with s obtain s1 where s1: "m s = Some (Inr x, s1)" "ok s1" "pos s1 = pos s + length bs" "img s1 = img s"
    by (auto elim!: parsesD [OF m, of s])
  have "pos s1 + length cs \<le> cap" "length cs < 2 ^ 32" "bytes_at (img s1) (pos s1) (length cs) = cs"
    using s s1 \<open>bytes_at (img s) (pos s + length bs) (length cs) = cs\<close> by simp_all
  from parsesD [OF k s1(2) this] obtain s2 where "k x s1 = Some (Inr v, s2)" "ok s2"
    "pos s2 = pos s1 + length cs" "img s2 = img s1" .
  with s1 show "\<exists>s'. io_bind m k s = Some (Inr v, s') \<and> ok s' \<and> pos s' = pos s + length (bs @ cs) \<and> img s' = img s"
    by simp
qed

lemma parses_bind_return: "parses ok img pos cap m bs x \<Longrightarrow> v = f x \<Longrightarrow>
    parses ok img pos cap (io_bind m (\<lambda>x. io_return (f x))) bs v"
  using parses_bind [of ok img pos cap m bs x "\<lambda>x. io_return (f x)" "[]" v] by (simp add: parses_return)

lemma emits_bind:
  assumes m: "emits ok img pos cap m bs" and k: "emits ok img pos cap k cs"
  shows "emits ok img pos cap (io_bind m (\<lambda>_. k)) (bs @ cs)"
  unfolding emits_def
proof (intro allI impI)
  fix s assume s: "ok s" "pos s + length (bs @ cs) \<le> cap" "length (bs @ cs) < 2 ^ 32"
  then obtain s1 where s1: "m s = Some (Inr (), s1)" "ok s1" "pos s1 = pos s + length bs" "img s1 = patch (img s) (pos s) bs"
    by (auto elim!: emitsD [OF m, of s])
  have "pos s1 + length cs \<le> cap" "length cs < 2 ^ 32" using s s1 by simp_all
  from emitsD [OF k s1(2) this] obtain s2 where s2: "k s1 = Some (Inr (), s2)" "ok s2"
    "pos s2 = pos s1 + length cs" "img s2 = patch (img s1) (pos s1) cs" .
  show "\<exists>s'. io_bind m (\<lambda>_. k) s = Some (Inr (), s') \<and> ok s' \<and> pos s' = pos s + length (bs @ cs)
      \<and> img s' = patch (img s) (pos s) (bs @ cs)"
    using s1 s2 by (simp add: patch_append)
qed

lemma emits_seq:
  "list_all2 (emits ok img pos cap) ms bss \<Longrightarrow> emits ok img pos cap (io_seq ms) (concat bss)"
proof (induction ms bss rule: list_all2_induct)
  case Nil
  show ?case by (simp add: emits_def)
next
  case (Cons m ms bs bss)
  then show ?case by (simp add: emits_bind)
qed

text \<open>A stream whose \<^verbatim>\<open>read_exact\<close> reads at the cursor, and one whose \<^verbatim>\<open>write_all\<close> writes there.\<close>

locale exact_reader =
  fixes st :: "'s stream" and ok :: "'s \<Rightarrow> bool" and img :: "'s \<Rightarrow> nat \<Rightarrow> u8" and pos :: "'s \<Rightarrow> nat" and cap :: nat
  assumes read_exact_law: "ok s \<Longrightarrow> n < 2 ^ 32 \<Longrightarrow> pos s + n \<le> cap \<Longrightarrow>
      \<exists>s'. read_exact st n s = Some (Inr (bytes_at (img s) (pos s) n), s') \<and> ok s' \<and> pos s' = pos s + n \<and> img s' = img s"
begin

lemma parses_read_exact: "length bs = n \<Longrightarrow> parses ok img pos cap (read_exact st n) bs bs"
  unfolding parses_def using read_exact_law by metis

lemma parses_u8: "parses ok img pos cap (read_u8 st) [n] n"
  unfolding read_u8_def by (rule parses_bind_return [OF parses_read_exact [of "[n]"]]) simp_all

lemma parses_u16: "parses ok img pos cap (read_u16_le st) (u16_to_le_bytes n) n"
  unfolding read_u16_le_def by (rule parses_bind_return [OF parses_read_exact]) simp_all

lemma parses_u32: "parses ok img pos cap (read_u32_le st) (u32_to_le_bytes n) n"
  unfolding read_u32_le_def by (rule parses_bind_return [OF parses_read_exact]) simp_all

end

locale exact_writer =
  fixes st :: "'s stream" and ok :: "'s \<Rightarrow> bool" and img :: "'s \<Rightarrow> nat \<Rightarrow> u8" and pos :: "'s \<Rightarrow> nat" and cap :: nat
  assumes emits_write_all: "emits ok img pos cap (write_all st bs) bs"
begin

lemma emits_words: "emits ok img pos cap (write_u8 st a) [a]"
  "emits ok img pos cap (write_u16_le st b) (u16_to_le_bytes b)"
  "emits ok img pos cap (write_u32_le st c) (u32_to_le_bytes c)"
  by (simp_all add: write_u8_def write_u16_le_def write_u32_le_def emits_write_all)

end

text \<open>
  An array of \<^term>\<open>cap\<close> bytes with a cursor. A write may disturb the bytes at the addresses \<^term>\<open>vol\<close>,
  and where it leaves the cursor is not promised; \<^verbatim>\<open>byte_stream\<close> promises both. Nothing changes \<^term>\<open>keep\<close>.
\<close>

locale byte_io =
  fixes st :: "'s stream" and ok :: "'s \<Rightarrow> bool" and img :: "'s \<Rightarrow> nat \<Rightarrow> u8" and pos :: "'s \<Rightarrow> nat"
    and cap :: nat and vol :: "nat set" and keep :: "'s \<Rightarrow> 'k"
  assumes seek_law: "ok s \<Longrightarrow>
      \<exists>s'. st_seek st (Start x) s = Some (Inr x, s') \<and> ok s' \<and> pos s' = unat x \<and> img s' = img s \<and> keep s' = keep s"
    and read_law: "ok s \<Longrightarrow> n < 2 ^ 32 \<Longrightarrow> pos s + n \<le> cap \<Longrightarrow>
      \<exists>s'. st_read st n s = Some (Inr (bytes_at (img s) (pos s) n), s') \<and> ok s' \<and> pos s' = pos s + n \<and> img s' = img s
        \<and> keep s' = keep s"
    and write_law: "ok s \<Longrightarrow> length buf < 2 ^ 32 \<Longrightarrow> pos s + length buf \<le> cap \<Longrightarrow>
      \<exists>s'. st_write st buf s = Some (Inr (length buf), s') \<and> ok s'
        \<and> (\<forall>a. a \<notin> vol \<longrightarrow> img s' a = patch (img s) (pos s) buf a) \<and> keep s' = keep s"
    and flush_law: "ok s \<Longrightarrow> \<exists>s'. st_flush st s = Some (Inr (), s') \<and> ok s' \<and> img s' = img s \<and> keep s' = keep s"
begin

lemma read_exact_ok:
  assumes "ok s" "n < 2 ^ 32" "pos s + n \<le> cap"
  obtains s' where "read_exact st n s = Some (Inr (bytes_at (img s) (pos s) n), s')" "ok s'"
    "pos s' = pos s + n" "img s' = img s" "keep s' = keep s"
proof (cases "n = 0")
  case True
  then show ?thesis using that [of s] assms by (simp add: read_exact_def read_exact_loop.simps)
next
  case False
  from read_law [OF assms] obtain s' where s': "st_read st n s = Some (Inr (bytes_at (img s) (pos s) n), s')"
    "ok s'" "pos s' = pos s + n" "img s' = img s" "keep s' = keep s" by blast
  have "bytes_at (img s) (pos s) n \<noteq> []" using False length_bytes_at [of "img s" "pos s" n] by force
  then have "read_exact st n s = Some (Inr (bytes_at (img s) (pos s) n), s')"
    using False s'(1) unfolding read_exact_def
    by (subst read_exact_loop.simps) (simp add: read_exact_loop.simps)
  with s' that show ?thesis by blast
qed

lemma write_all_ok:
  assumes "ok s" "length buf < 2 ^ 32" "pos s + length buf \<le> cap"
  obtains s' where "write_all st buf s = Some (Inr (), s')" "ok s'"
    "\<And>a. a \<notin> vol \<Longrightarrow> img s' a = patch (img s) (pos s) buf a" "keep s' = keep s"
proof (cases "buf = []")
  case True
  then show ?thesis using that [of s] assms by (simp add: write_all.simps)
next
  case False
  from write_law [OF assms] obtain s' where s': "st_write st buf s = Some (Inr (length buf), s')"
    "ok s'" "\<And>a. a \<notin> vol \<Longrightarrow> img s' a = patch (img s) (pos s) buf a" "keep s' = keep s" by blast
  have "write_all st buf s = Some (Inr (), s')"
    using False s'(1) by (subst write_all.simps) (simp add: write_all.simps)
  with s' that show ?thesis by blast
qed

end

sublocale byte_io \<subseteq> exact_reader st ok img pos cap
  using read_exact_ok by unfold_locales metis

text \<open>A storage whose writes disturb nothing else and leave the cursor behind the bytes written.\<close>

locale byte_stream = byte_io +
  assumes vol_empty: "vol = {}"
    and write_pos: "ok s \<Longrightarrow> length buf < 2 ^ 32 \<Longrightarrow> pos s + length buf \<le> cap \<Longrightarrow>
      st_write st buf s = Some (r, s') \<Longrightarrow> pos s' = pos s + length buf"
begin

lemma write_all_stream:
  assumes "ok s" "length buf < 2 ^ 32" "pos s + length buf \<le> cap"
  obtains s' where "write_all st buf s = Some (Inr (), s')" "ok s'"
    "img s' = patch (img s) (pos s) buf" "pos s' = pos s + length buf"
proof (cases "buf = []")
  case True
  then show ?thesis using that [of s] assms by (simp add: write_all.simps)
next
  case False
  from write_law [OF assms] obtain s' where s': "st_write st buf s = Some (Inr (length buf), s')"
    "ok s'" "\<And>a. a \<notin> vol \<Longrightarrow> img s' a = patch (img s) (pos s) buf a" by blast
  have "write_all st buf s = Some (Inr (), s')"
    using False s'(1) by (subst write_all.simps) (simp add: write_all.simps)
  moreover have "img s' = patch (img s) (pos s) buf" using s'(3) vol_empty by blast
  ultimately show ?thesis using that [of s'] s'(1,2) write_pos [OF assms] by blast
qed

end

sublocale byte_stream \<subseteq> exact_writer st ok img pos cap
  using write_all_stream by unfold_locales (metis emits_def)

context byte_stream
begin

text \<open>What was written at a place is read back from there.\<close>

lemma write_then_read:
  assumes "emits ok img pos cap w bs" "parses ok img pos cap r bs v" "ok s" "pos s + length bs \<le> cap" "length bs < 2 ^ 32" "pos s < 2 ^ 64"
  shows "\<exists>s1 s2 s3. w s = Some (Inr (), s1) \<and> img s1 = patch (img s) (pos s) bs
    \<and> st_seek st (Start (word_of_nat (pos s))) s1 = Some (Inr (word_of_nat (pos s)), s2)
    \<and> r s2 = Some (Inr v, s3) \<and> img s3 = img s1"
proof -
  from emitsD [OF assms(1,3,4,5)] obtain s1 where s1: "w s = Some (Inr (), s1)" "ok s1" "img s1 = patch (img s) (pos s) bs" .
  let ?p = "word_of_nat (pos s) :: u64"
  have p: "unat ?p = pos s" using assms(6) by (simp add: unsigned_of_nat take_bit_nat_eq_self)
  obtain s2 where s2: "st_seek st (Start ?p) s1 = Some (Inr ?p, s2)" "ok s2" "pos s2 = pos s" "img s2 = img s1"
    using seek_law [OF s1(2), of ?p] p by auto
  have "bytes_at (img s2) (pos s2) (length bs) = bs" "pos s2 + length bs \<le> cap" using s1 s2 assms(4) by (simp_all add: bytes_at_patch)
  from parsesD [OF assms(2) s2(2) this(2) assms(5) this(1)] obtain s3 where "r s2 = Some (Inr v, s3)" "img s3 = img s2" by metis
  with s1 s2 show ?thesis by metis
qed

end

section \<open>The disk driver implements the interface\<close>

definition disk_img :: "'d VirtIOBlk \<Rightarrow> u64 \<Rightarrow> 'd disk_state \<Rightarrow> nat \<Rightarrow> u8" where
  "disk_img dev cap st a = (if a < 512 * unat cap then disk_byte dev (snd st) a else 0)"

definition disk_ok :: "'d VirtIOBlk \<Rightarrow> u64 \<Rightarrow> 'd disk_state \<Rightarrow> bool" where
  "disk_ok dev cap st \<longleftrightarrow> dd_device (fst st) = dev \<and> driver_ok (fst st) cap (snd st)"

definition disk_cursor :: "'d disk_state \<Rightarrow> nat" where
  "disk_cursor st = driver_pos (fst st)"

interpretation disk: byte_stream disk_stream "disk_ok dev cap" "disk_img dev cap" disk_cursor "512 * unat cap" "{}" "\<lambda>_. ()"
  for dev :: "'d VirtIOBlk" and cap :: u64
proof
  fix s :: "'d disk_state" assume ok: "disk_ok dev cap s"
  obtain self b where s: "s = (self, b)" by (cases s)
  have drv: "driver_ok self cap b" "dd_device self = dev" using ok by (simp_all add: disk_ok_def s)
  show "\<exists>s'. st_seek disk_stream (Start x) s = Some (Inr x, s') \<and> disk_ok dev cap s'
      \<and> disk_cursor s' = unat x \<and> disk_img dev cap s' = disk_img dev cap s \<and> () = ()" for x
    using DiskDriver_seek_Start [of self x] drv
    by (auto simp: disk_stream_def s disk_ok_def disk_cursor_def driver_ok_def disk_img_def fun_eq_iff)
  show "\<exists>s'. st_read disk_stream n s = Some (Inr (bytes_at (disk_img dev cap s) (disk_cursor s) n), s')
      \<and> disk_ok dev cap s' \<and> disk_cursor s' = disk_cursor s + n \<and> disk_img dev cap s' = disk_img dev cap s \<and> () = ()"
    if n: "n < 2 ^ 32" "disk_cursor s + n \<le> 512 * unat cap" for n
  proof -
    have "length (replicate n (0::u8)) < 2 ^ 32" "driver_pos self + length (replicate n (0::u8)) \<le> 512 * unat cap"
      using n by (simp_all add: disk_cursor_def s)
    from DiskDriver_read_spec [OF drv(1) this] obtain self' b' where
      r: "DiskDriver_read self b (replicate n 0) = Some (length (replicate n (0::u8)),
        map (disk_byte (dd_device self) b) [driver_pos self ..< driver_pos self + length (replicate n (0::u8))], self', b')"
        "driver_ok self' cap b'" "dd_device self' = dd_device self"
        "driver_pos self' = driver_pos self + length (replicate n (0::u8))"
      and same: "\<And>a. a < 512 * unat cap \<Longrightarrow> disk_byte (dd_device self) b' a = disk_byte (dd_device self) b a" by metis
    have "map (disk_byte dev b) [driver_pos self ..< driver_pos self + n] = bytes_at (disk_img dev cap s) (disk_cursor s) n"
      using n(2) by (auto simp: bytes_at_def disk_img_def disk_cursor_def s)
    moreover have "disk_img dev cap (self', b') = disk_img dev cap s"
      using same drv(2) by (auto simp: disk_img_def s)
    ultimately show ?thesis
      using r drv(2) by (intro exI [of _ "(self', b')"]) (simp add: disk_stream_def s disk_ok_def disk_cursor_def)
  qed
  have wr: "\<exists>self' b'. st_write disk_stream buf s = Some (Inr (length buf), (self', b')) \<and> disk_ok dev cap (self', b')
      \<and> disk_cursor (self', b') = disk_cursor s + length buf
      \<and> (\<forall>a. disk_img dev cap (self', b') a = patch (disk_img dev cap s) (disk_cursor s) buf a)"
    if n: "length buf < 2 ^ 32" "disk_cursor s + length buf \<le> 512 * unat cap" for buf
  proof -
    have fit: "driver_pos self + length buf \<le> 512 * unat cap" using n by (simp add: disk_cursor_def s)
    from DiskDriver_write_spec [OF drv(1) n(1) fit] obtain self' b' where
      w: "DiskDriver_write self b buf = Some (length buf, self', b')" "driver_ok self' cap b'"
        "dd_device self' = dd_device self" "driver_pos self' = driver_pos self + length buf"
      and bytes: "\<And>a. a < 512 * unat cap \<Longrightarrow> disk_byte (dd_device self) b' a =
        (if driver_pos self \<le> a \<and> a < driver_pos self + length buf then buf ! (a - driver_pos self)
         else disk_byte (dd_device self) b a)" by metis
    have "disk_img dev cap (self', b') a = patch (disk_img dev cap s) (disk_cursor s) buf a" for a
      using bytes [of a] drv(2) fit by (auto simp: disk_img_def patch_def disk_cursor_def s)
    then show ?thesis
      using w drv(2) by (intro exI [of _ self'] exI [of _ b'])
        (simp add: disk_stream_def s disk_ok_def disk_cursor_def)
  qed
  show "\<exists>s'. st_write disk_stream buf s = Some (Inr (length buf), s') \<and> disk_ok dev cap s'
      \<and> (\<forall>a. a \<notin> {} \<longrightarrow> disk_img dev cap s' a = patch (disk_img dev cap s) (disk_cursor s) buf a) \<and> () = ()"
    if "length buf < 2 ^ 32" "disk_cursor s + length buf \<le> 512 * unat cap" for buf
    using wr [OF that] by blast
  show "\<exists>s'. st_flush disk_stream s = Some (Inr (), s') \<and> disk_ok dev cap s' \<and> disk_img dev cap s' = disk_img dev cap s \<and> () = ()"
  proof -
    have inv: "cache_inv dev cap b" "\<forall>k. handles b k = 0" using drv by (simp_all add: driver_ok_def cache_idle_def)
    from block_cache_sync_all_spec [OF inv(1)] obtain b' where
      b': "block_cache_sync_all b = Some b'" "cache_inv dev cap b'" "\<And>k. handles b' k = handles b k"
        "\<And>k. k < cap \<Longrightarrow> logical dev b' k = logical dev b k" by metis
    have "disk_byte dev b' a = disk_byte dev b a" if "a < 512 * unat cap" for a
      unfolding disk_byte_def using b'(4) that by (rule byte_at_cong)
    then have "disk_img dev cap (self, b') = disk_img dev cap s" by (auto simp: disk_img_def s)
    moreover have "disk_ok dev cap (self, b')"
      using drv b' inv by (simp add: disk_ok_def driver_ok_def cache_idle_def)
    ultimately show ?thesis using b'(1) by (simp add: disk_stream_def s DiskDriver_flush_def)
  qed
  show "disk_cursor s' = disk_cursor s + length buf"
    if "length buf < 2 ^ 32" "disk_cursor s + length buf \<le> 512 * unat cap"
      "st_write disk_stream buf s = Some (r, s')" for buf r s'
    using wr [OF that(1,2)] that(3) by auto
qed simp

end
