(* ===== verification/Fat_Types.thy ===== *)
theory Fat_Types
  imports Prelude
begin

text \<open>
  Small types of the FAT library: the FAT width (\<^verbatim>\<open>FatType\<close> in \<^verbatim>\<open>rust-fatfs/src/fs.rs\<close>), volume status
  flags, and DOS dates and times (\<^verbatim>\<open>time.rs\<close>). Main results: the volume flags, dates and times
  survive being encoded and decoded, up to the resolution of the encoding.
\<close>

section \<open>FAT width\<close>

datatype FatType = Fat12 | Fat16 | Fat32

definition FAT16_MIN_CLUSTERS :: u32 where "FAT16_MIN_CLUSTERS = 4085"
definition FAT32_MIN_CLUSTERS :: u32 where "FAT32_MIN_CLUSTERS = 65525"
definition FAT32_MAX_CLUSTERS :: u32 where "FAT32_MAX_CLUSTERS = 0x0FFFFFF4"

definition FatType_from_clusters :: "u32 \<Rightarrow> FatType" where
  "FatType_from_clusters total_clusters =
     (if total_clusters < FAT16_MIN_CLUSTERS then Fat12
      else if total_clusters < FAT32_MIN_CLUSTERS then Fat16
      else Fat32)"

definition bits_per_fat_entry :: "FatType \<Rightarrow> u32" where
  "bits_per_fat_entry self = (case self of Fat12 \<Rightarrow> 12 | Fat16 \<Rightarrow> 16 | Fat32 \<Rightarrow> 32)"

definition min_clusters :: "FatType \<Rightarrow> u32" where
  "min_clusters self = (case self of Fat12 \<Rightarrow> 0 | Fat16 \<Rightarrow> FAT16_MIN_CLUSTERS | Fat32 \<Rightarrow> FAT32_MIN_CLUSTERS)"

definition max_clusters :: "FatType \<Rightarrow> u32" where
  "max_clusters self = (case self of
       Fat12 \<Rightarrow> FAT16_MIN_CLUSTERS - 1
     | Fat16 \<Rightarrow> FAT32_MIN_CLUSTERS - 1
     | Fat32 \<Rightarrow> FAT32_MAX_CLUSTERS)"

section \<open>Volume status flags\<close>

record FsStatusFlags =
  sf_dirty :: bool
  sf_io_error :: bool

definition FsStatusFlags_encode :: "FsStatusFlags \<Rightarrow> u8" where
  "FsStatusFlags_encode self =
     (let res = 0;
          res = (if sf_dirty self then res OR 1 else res);
          res = (if sf_io_error self then res OR 2 else res)
      in res)"

definition FsStatusFlags_decode :: "u8 \<Rightarrow> FsStatusFlags" where
  "FsStatusFlags_decode flags = \<lparr>sf_dirty = (flags AND 1 \<noteq> 0), sf_io_error = (flags AND 2 \<noteq> 0)\<rparr>"

lemma FsStatusFlags_decode_encode [simp]: "FsStatusFlags_decode (FsStatusFlags_encode f) = f"
  by (cases f) (simp add: FsStatusFlags_decode_def FsStatusFlags_encode_def)

section \<open>Dates and times\<close>

definition MIN_YEAR :: u16 where "MIN_YEAR = 1980"
definition MAX_YEAR :: u16 where "MAX_YEAR = 2107"
definition MIN_MONTH :: u16 where "MIN_MONTH = 1"
definition MAX_MONTH :: u16 where "MAX_MONTH = 12"
definition MIN_DAY :: u16 where "MIN_DAY = 1"
definition MAX_DAY :: u16 where "MAX_DAY = 31"

record Date =
  d_year :: u16
  d_month :: u16
  d_day :: u16

definition Date_new :: "u16 \<Rightarrow> u16 \<Rightarrow> u16 \<Rightarrow> Date option" where
  "Date_new year month day = do {
     rust_assert (MIN_YEAR \<le> year \<and> year \<le> MAX_YEAR);
     rust_assert (MIN_MONTH \<le> month \<and> month \<le> MAX_MONTH);
     rust_assert (MIN_DAY \<le> day \<and> day \<le> MAX_DAY);
     Some \<lparr>d_year = year, d_month = month, d_day = day\<rparr> }"

definition Date_decode :: "u16 \<Rightarrow> Date" where
  "Date_decode dos_date = \<lparr>d_year = drop_bit 9 dos_date + MIN_YEAR,
     d_month = drop_bit 5 dos_date AND 0xF, d_day = dos_date AND 0x1F\<rparr>"

definition Date_encode :: "Date \<Rightarrow> u16" where
  "Date_encode self = push_bit 9 (d_year self - MIN_YEAR) OR push_bit 5 (d_month self) OR d_day self"

record Time =
  t_hour :: u16
  t_min :: u16
  t_sec :: u16
  t_millis :: u16

definition Time_new :: "u16 \<Rightarrow> u16 \<Rightarrow> u16 \<Rightarrow> u16 \<Rightarrow> Time option" where
  "Time_new hour mins sec millis = do {
     rust_assert (hour \<le> 23);
     rust_assert (mins \<le> 59);
     rust_assert (sec \<le> 59);
     rust_assert (millis \<le> 999);
     Some \<lparr>t_hour = hour, t_min = mins, t_sec = sec, t_millis = millis\<rparr> }"

definition Time_decode :: "u16 \<Rightarrow> u8 \<Rightarrow> Time" where
  "Time_decode dos_time dos_time_hi_res = \<lparr>
     t_hour = drop_bit 11 dos_time,
     t_min = drop_bit 5 dos_time AND 0x3F,
     t_sec = (dos_time AND 0x1F) * 2 + ucast (dos_time_hi_res div 100),
     t_millis = ucast (dos_time_hi_res mod 100) * 10\<rparr>"

definition Time_encode :: "Time \<Rightarrow> u16 \<times> u8" where
  "Time_encode self =
     (let dos_time = push_bit 11 (t_hour self) OR push_bit 5 (t_min self) OR (t_sec self div 2);
          dos_time_hi_res = t_millis self div 10 + (t_sec self mod 2) * 100
      in (dos_time, ucast dos_time_hi_res))"

record DateTime =
  dt_date :: Date
  dt_time :: Time

definition DateTime_new :: "Date \<Rightarrow> Time \<Rightarrow> DateTime" where
  "DateTime_new date time = \<lparr>dt_date = date, dt_time = time\<rparr>"

definition DateTime_decode :: "u16 \<Rightarrow> u16 \<Rightarrow> u8 \<Rightarrow> DateTime" where
  "DateTime_decode dos_date dos_time dos_time_hi_res =
     DateTime_new (Date_decode dos_date) (Time_decode dos_time dos_time_hi_res)"

text \<open>The time provider of the kernel always returns the first date of the encoding.\<close>

definition get_current_date :: Date where
  "get_current_date = Date_decode 0"

definition get_current_date_time :: DateTime where
  "get_current_date_time = DateTime_decode 0 0 0"

section \<open>Round trips\<close>

lemma unat_ucast_up:
  fixes x :: "'a::len word"
  assumes "LENGTH('a) \<le> LENGTH('b)"
  shows "unat (ucast x :: 'b::len word) = unat x"
proof -
  have "unat x < 2 ^ LENGTH('a)" by (rule unsigned_less)
  also have "\<dots> \<le> 2 ^ LENGTH('b)" using assms by (intro power_increasing) simp_all
  finally have "unat x < 2 ^ LENGTH('b)" .
  then show ?thesis by (simp add: unsigned_ucast_eq take_bit_nat_eq_self)
qed

lemma take_bit_word_less:
  fixes w :: "'a::len word"
  assumes "w < 2 ^ k" "k < LENGTH('a)"
  shows "take_bit k w = w"
  using assms by (simp add: word_eq_iff_unsigned [where ?'a = nat] unsigned_take_bit_eq take_bit_nat_eq_self
      word_less_nat_alt unat_power_word)

lemma date_fields:
  fixes y m d :: u16
  assumes "y < 128" "m < 16" "d < 32"
  shows "drop_bit 9 (push_bit 9 y OR push_bit 5 m OR d) = y"
    and "drop_bit 5 (push_bit 9 y OR push_bit 5 m OR d) AND 15 = m"
    and "(push_bit 9 y OR push_bit 5 m OR d) AND 31 = d"
proof -
  have bits: "bit y k \<Longrightarrow> k < 7" "bit m k \<Longrightarrow> k < 4" "bit d k \<Longrightarrow> k < 5" for k
  proof -
    have "take_bit 7 y = y" "take_bit 4 m = m" "take_bit 5 d = d"
      using assms by (simp_all add: take_bit_word_less)
    then show "bit y k \<Longrightarrow> k < 7" "bit m k \<Longrightarrow> k < 4" "bit d k \<Longrightarrow> k < 5"
      by (metis bit_take_bit_iff)+
  qed
  have masks: "(15::u16) = mask 4" "(31::u16) = mask 5" by (simp_all add: mask_eq_exp_minus_1)
  show "drop_bit 9 (push_bit 9 y OR push_bit 5 m OR d) = y"
    by (rule bit_word_eqI) (auto simp: bit_simps dest: bits)
  show "drop_bit 5 (push_bit 9 y OR push_bit 5 m OR d) AND 15 = m"
    unfolding masks by (rule bit_word_eqI) (auto simp: bit_simps dest: bits)
  show "(push_bit 9 y OR push_bit 5 m OR d) AND 31 = d"
    unfolding masks by (rule bit_word_eqI) (auto simp: bit_simps dest: bits)
qed

lemma time_fields:
  fixes h m s :: u16
  assumes "h < 32" "m < 64" "s < 32"
  shows "drop_bit 11 (push_bit 11 h OR push_bit 5 m OR s) = h"
    and "drop_bit 5 (push_bit 11 h OR push_bit 5 m OR s) AND 63 = m"
    and "(push_bit 11 h OR push_bit 5 m OR s) AND 31 = s"
proof -
  have bits: "bit h k \<Longrightarrow> k < 5" "bit m k \<Longrightarrow> k < 6" "bit s k \<Longrightarrow> k < 5" for k
  proof -
    have "take_bit 5 h = h" "take_bit 6 m = m" "take_bit 5 s = s"
      using assms by (simp_all add: take_bit_word_less)
    then show "bit h k \<Longrightarrow> k < 5" "bit m k \<Longrightarrow> k < 6" "bit s k \<Longrightarrow> k < 5"
      by (metis bit_take_bit_iff)+
  qed
  have masks: "(63::u16) = mask 6" "(31::u16) = mask 5" by (simp_all add: mask_eq_exp_minus_1)
  show "drop_bit 11 (push_bit 11 h OR push_bit 5 m OR s) = h"
    by (rule bit_word_eqI) (auto simp: bit_simps dest: bits)
  show "drop_bit 5 (push_bit 11 h OR push_bit 5 m OR s) AND 63 = m"
    unfolding masks by (rule bit_word_eqI) (auto simp: bit_simps dest: bits)
  show "(push_bit 11 h OR push_bit 5 m OR s) AND 31 = s"
    unfolding masks by (rule bit_word_eqI) (auto simp: bit_simps dest: bits)
qed

lemma Date_decode_encode:
  assumes "Date_new y m d = Some x"
  shows "Date_decode (Date_encode x) = x"
proof -
  have x: "x = \<lparr>d_year = y, d_month = m, d_day = d\<rparr>" and b: "1980 \<le> y" "y \<le> 2107" "m \<le> 12" "d \<le> 31"
    using assms by (auto simp: Date_new_def MIN_YEAR_def MAX_YEAR_def MIN_MONTH_def MAX_MONTH_def
        MIN_DAY_def MAX_DAY_def split: bind_splits)
  have "unat (y - 1980) = unat y - 1980" using b(1) by (simp add: unat_sub word_le_nat_alt)
  then have "y - 1980 < 128" "m < 16" "d < 32"
    using b by (simp_all add: word_le_nat_alt word_less_nat_alt)
  from date_fields [OF this] show ?thesis
    by (simp add: x Date_decode_def Date_encode_def MIN_YEAR_def)
qed

text \<open>The low-resolution fields hold two seconds and the high-resolution byte ten milliseconds.\<close>

lemma Time_decode_encode:
  assumes "Time_new h m s ms = Some t"
  shows "(case Time_encode t of (dos, hi) \<Rightarrow> Time_decode dos hi) = t\<lparr>t_millis := t_millis t div 10 * 10\<rparr>"
proof -
  have t: "t = \<lparr>t_hour = h, t_min = m, t_sec = s, t_millis = ms\<rparr>"
    and b: "unat h \<le> 23" "unat m \<le> 59" "unat s \<le> 59" "unat ms \<le> 999"
    using assms by (auto simp: Time_new_def word_le_nat_alt split: bind_splits)
  have "h < 32" "m < 64" "s div 2 < 32"
    using b by (simp_all add: word_less_nat_alt unat_div)
  note f = time_fields [OF this]
  define hi where "hi = ms div 10 + s mod 2 * 100"
  define b where "b = (ucast hi :: u8)"
  have ms: "unat ms div 10 < 100" using b(4) by simp
  have "unat hi = unat ms div 10 + unat s mod 2 * 100"
    using b by (simp add: hi_def unat_word_ariths unat_div unat_mod)
  moreover have "unat s mod 2 * 100 \<le> 100" by simp
  ultimately have bb: "unat b = unat ms div 10 + unat s mod 2 * 100"
    using ms unfolding b_def unsigned_ucast_eq by (simp add: take_bit_nat_eq_self)
  have "unat (b div 100) = unat s mod 2" "unat (b mod 100) = unat ms div 10"
    using ms by (simp_all add: unat_div unat_mod bb)
  moreover have "unat (ucast (x :: u8) :: u16) = unat x" for x
    using unsigned_less [of x, where 'a = nat] by (simp add: unsigned_ucast_eq take_bit_nat_eq_self)
  ultimately have q: "ucast (b div 100) = s mod 2" "ucast (b mod 100) = ms div 10"
    by (simp_all only: word_unat_eq_iff unat_div unat_mod) simp_all
  have "s div 2 * 2 + s mod 2 = s" by (rule word_mod_div_equality)
  with f q show ?thesis by (simp add: t Time_encode_def Time_decode_def Let_def b_def hi_def)
qed

text \<open>
  Property C28. A date and time accepted by the constructors is recovered from its on-disk encoding:
  the date exactly, the time up to a multiple of ten milliseconds.
\<close>

theorem DateTime_roundtrip:
  assumes "Date_new y m d = Some date" "Time_new h mins s ms = Some time"
  shows "DateTime_decode (Date_encode date) (fst (Time_encode time)) (snd (Time_encode time))
    = DateTime_new date (time\<lparr>t_millis := t_millis time div 10 * 10\<rparr>)"
  using Date_decode_encode [OF assms(1)] Time_decode_encode [OF assms(2)]
  by (simp add: DateTime_decode_def DateTime_new_def split: prod.splits)

theorem DateTime_roundtrip_witness:
  "\<exists>date time. Date_new 2055 7 23 = Some date \<and> Time_new 15 3 29 995 = Some time \<and> Date_encode date = 38647
     \<and> DateTime_decode (Date_encode date) (fst (Time_encode time)) (snd (Time_encode time))
       = DateTime_new date (time\<lparr>t_millis := 990\<rparr>)"
proof -
  have d: "Date_new 2055 7 23 = Some \<lparr>d_year = 2055, d_month = 7, d_day = 23\<rparr>" by code_simp
  have t: "Time_new 15 3 29 995 = Some \<lparr>t_hour = 15, t_min = 3, t_sec = 29, t_millis = 995\<rparr>" by code_simp
  have "Date_encode \<lparr>d_year = 2055, d_month = 7, d_day = 23\<rparr> = 38647" by code_simp
  moreover have "t_millis \<lparr>t_hour = 15, t_min = 3, t_sec = 29, t_millis = 995\<rparr> div 10 * 10 = 990" by simp
  ultimately show ?thesis using d t DateTime_roundtrip [OF d t] by metis
qed

end
