(* ===== verification/Fat_Boot.thy ===== *)
theory Fat_Boot
  imports Fat_Io Fat_Types
begin

text \<open>
  The boot sector of a FAT volume (\<^verbatim>\<open>rust-fatfs/src/boot_sector.rs\<close>): the BIOS parameter block, its
  reading, writing and validation, the geometry derived from it, and the computation of a boot
  sector for a new volume. Main results: writing and reading the boot sector are inverse, the
  sector is 512 bytes long, and the FAT size chosen for a new volume holds an entry for every cluster.
\<close>

section \<open>The BIOS parameter block\<close>

definition BITS_PER_BYTE :: u32 where "BITS_PER_BYTE = 8"
definition KB_32 :: u32 where "KB_32 = 1024"
definition KB_64 :: u64 where "KB_64 = 1024"
definition MB_64 :: u64 where "MB_64 = KB_64 * 1024"
definition GB_64 :: u64 where "GB_64 = MB_64 * 1024"

definition DIR_ENTRY_SIZE :: u32 where "DIR_ENTRY_SIZE = 32"
definition RESERVED_FAT_ENTRIES :: u32 where "RESERVED_FAT_ENTRIES = 2"

record BiosParameterBlock =
  bpb_bytes_per_sector :: u16
  bpb_sectors_per_cluster :: u8
  bpb_reserved_sectors :: u16
  bpb_fats :: u8
  bpb_root_entries :: u16
  bpb_total_sectors_16 :: u16
  bpb_media :: u8
  bpb_sectors_per_fat_16 :: u16
  bpb_sectors_per_track :: u16
  bpb_heads :: u16
  bpb_hidden_sectors :: u32
  bpb_total_sectors_32 :: u32
  bpb_sectors_per_fat_32 :: u32
  bpb_extended_flags :: u16
  bpb_fs_version :: u16
  bpb_root_dir_first_cluster :: u32
  bpb_fs_info_sector :: u16
  bpb_backup_boot_sector :: u16
  bpb_reserved_0 :: "u8 list"
  bpb_drive_num :: u8
  bpb_reserved_1 :: u8
  bpb_ext_sig :: u8
  bpb_volume_id :: u32
  bpb_volume_label :: "u8 list"
  bpb_fs_type_label :: "u8 list"

definition BiosParameterBlock_default :: BiosParameterBlock where
  "BiosParameterBlock_default = \<lparr>
     bpb_bytes_per_sector = 0, bpb_sectors_per_cluster = 0, bpb_reserved_sectors = 0, bpb_fats = 0,
     bpb_root_entries = 0, bpb_total_sectors_16 = 0, bpb_media = 0, bpb_sectors_per_fat_16 = 0,
     bpb_sectors_per_track = 0, bpb_heads = 0, bpb_hidden_sectors = 0, bpb_total_sectors_32 = 0,
     bpb_sectors_per_fat_32 = 0, bpb_extended_flags = 0, bpb_fs_version = 0,
     bpb_root_dir_first_cluster = 0, bpb_fs_info_sector = 0, bpb_backup_boot_sector = 0,
     bpb_reserved_0 = replicate 12 0, bpb_drive_num = 0, bpb_reserved_1 = 0, bpb_ext_sig = 0,
     bpb_volume_id = 0, bpb_volume_label = replicate 11 0, bpb_fs_type_label = replicate 8 0\<rparr>"

definition BPB_is_fat32 :: "BiosParameterBlock \<Rightarrow> bool" where
  "BPB_is_fat32 self \<longleftrightarrow> bpb_sectors_per_fat_16 self = 0"

definition BPB_deserialize :: "'s stream \<Rightarrow> ('s, BiosParameterBlock) fat_io" where
  "BPB_deserialize rdr =
     io_bind (read_u16_le rdr) (\<lambda>bytes_per_sector.
     io_bind (read_u8 rdr) (\<lambda>sectors_per_cluster.
     io_bind (read_u16_le rdr) (\<lambda>reserved_sectors.
     io_bind (read_u8 rdr) (\<lambda>fats.
     io_bind (read_u16_le rdr) (\<lambda>root_entries.
     io_bind (read_u16_le rdr) (\<lambda>total_sectors_16.
     io_bind (read_u8 rdr) (\<lambda>media.
     io_bind (read_u16_le rdr) (\<lambda>sectors_per_fat_16.
     io_bind (read_u16_le rdr) (\<lambda>sectors_per_track.
     io_bind (read_u16_le rdr) (\<lambda>heads.
     io_bind (read_u32_le rdr) (\<lambda>hidden_sectors.
     io_bind (read_u32_le rdr) (\<lambda>total_sectors_32.
     let bpb = BiosParameterBlock_default\<lparr>
       bpb_bytes_per_sector := bytes_per_sector, bpb_sectors_per_cluster := sectors_per_cluster,
       bpb_reserved_sectors := reserved_sectors, bpb_fats := fats, bpb_root_entries := root_entries,
       bpb_total_sectors_16 := total_sectors_16, bpb_media := media,
       bpb_sectors_per_fat_16 := sectors_per_fat_16, bpb_sectors_per_track := sectors_per_track,
       bpb_heads := heads, bpb_hidden_sectors := hidden_sectors, bpb_total_sectors_32 := total_sectors_32\<rparr>
     in
     io_bind (if BPB_is_fat32 bpb then
         io_bind (read_u32_le rdr) (\<lambda>sectors_per_fat_32.
         io_bind (read_u16_le rdr) (\<lambda>extended_flags.
         io_bind (read_u16_le rdr) (\<lambda>fs_version.
         io_bind (read_u32_le rdr) (\<lambda>root_dir_first_cluster.
         io_bind (read_u16_le rdr) (\<lambda>fs_info_sector.
         io_bind (read_u16_le rdr) (\<lambda>backup_boot_sector.
         io_bind (read_exact rdr 12) (\<lambda>reserved_0.
         io_return (bpb\<lparr>bpb_sectors_per_fat_32 := sectors_per_fat_32, bpb_extended_flags := extended_flags,
           bpb_fs_version := fs_version, bpb_root_dir_first_cluster := root_dir_first_cluster,
           bpb_fs_info_sector := fs_info_sector, bpb_backup_boot_sector := backup_boot_sector,
           bpb_reserved_0 := reserved_0\<rparr>))))))))
       else io_return bpb) (\<lambda>bpb.
     io_bind (read_u8 rdr) (\<lambda>drive_num.
     io_bind (read_u8 rdr) (\<lambda>reserved_1.
     io_bind (read_u8 rdr) (\<lambda>ext_sig.
     io_bind (read_u32_le rdr) (\<lambda>volume_id.
     io_bind (read_exact rdr 11) (\<lambda>volume_label.
     io_bind (read_exact rdr 8) (\<lambda>fs_type_label.
     let bpb = bpb\<lparr>bpb_drive_num := drive_num, bpb_reserved_1 := reserved_1, bpb_ext_sig := ext_sig,
       bpb_volume_id := volume_id, bpb_volume_label := volume_label, bpb_fs_type_label := fs_type_label\<rparr>;
       bpb = (if bpb_ext_sig bpb \<noteq> 0x29
         then bpb\<lparr>bpb_volume_id := 0, bpb_volume_label := replicate 11 0, bpb_fs_type_label := replicate 8 0\<rparr>
         else bpb)
     in io_return bpb)))))))))))))))))))"

definition BPB_serialize :: "BiosParameterBlock \<Rightarrow> 's stream \<Rightarrow> ('s, unit) fat_io" where
  "BPB_serialize self wrt = io_seq
     ([write_u16_le wrt (bpb_bytes_per_sector self),
       write_u8 wrt (bpb_sectors_per_cluster self),
       write_u16_le wrt (bpb_reserved_sectors self),
       write_u8 wrt (bpb_fats self),
       write_u16_le wrt (bpb_root_entries self),
       write_u16_le wrt (bpb_total_sectors_16 self),
       write_u8 wrt (bpb_media self),
       write_u16_le wrt (bpb_sectors_per_fat_16 self),
       write_u16_le wrt (bpb_sectors_per_track self),
       write_u16_le wrt (bpb_heads self),
       write_u32_le wrt (bpb_hidden_sectors self),
       write_u32_le wrt (bpb_total_sectors_32 self)]
    @ (if BPB_is_fat32 self then
        [write_u32_le wrt (bpb_sectors_per_fat_32 self),
         write_u16_le wrt (bpb_extended_flags self),
         write_u16_le wrt (bpb_fs_version self),
         write_u32_le wrt (bpb_root_dir_first_cluster self),
         write_u16_le wrt (bpb_fs_info_sector self),
         write_u16_le wrt (bpb_backup_boot_sector self),
         write_all wrt (bpb_reserved_0 self)]
       else [])
    @ [write_u8 wrt (bpb_drive_num self),
       write_u8 wrt (bpb_reserved_1 self),
       write_u8 wrt (bpb_ext_sig self),
       write_u32_le wrt (bpb_volume_id self),
       write_all wrt (bpb_volume_label self),
       write_all wrt (bpb_fs_type_label self)])"

section \<open>Geometry\<close>

text \<open>Integer division panics on a zero divisor; \<^verbatim>\<open>count_ones\<close> is the number of bits set.\<close>

definition div_panic :: "'a::len word \<Rightarrow> 'a word \<Rightarrow> 'a word option" where
  "div_panic a b = (if b = 0 then None else Some (a div b))"

definition mod_panic :: "'a::len word \<Rightarrow> 'a word \<Rightarrow> 'a word option" where
  "mod_panic a b = (if b = 0 then None else Some (a mod b))"

definition count_ones :: "'a::len word \<Rightarrow> nat" where
  "count_ones w = length (filter (bit w) [0 ..< LENGTH('a)])"

definition io_lift :: "'a option \<Rightarrow> ('s, 'a) fat_io" where
  "io_lift x s = (case x of None \<Rightarrow> None | Some a \<Rightarrow> Some (Inr a, s))"

definition BPB_mirroring_enabled :: "BiosParameterBlock \<Rightarrow> bool" where
  "BPB_mirroring_enabled self \<longleftrightarrow> bpb_extended_flags self AND 0x80 = 0"

definition BPB_active_fat :: "BiosParameterBlock \<Rightarrow> u16" where
  "BPB_active_fat self = (if BPB_mirroring_enabled self then 0 else bpb_extended_flags self AND 0x0F)"

definition BPB_status_flags :: "BiosParameterBlock \<Rightarrow> FsStatusFlags" where
  "BPB_status_flags self = FsStatusFlags_decode (bpb_reserved_1 self)"

definition BPB_sectors_per_fat :: "BiosParameterBlock \<Rightarrow> u32" where
  "BPB_sectors_per_fat self =
     (if BPB_is_fat32 self then bpb_sectors_per_fat_32 self else ucast (bpb_sectors_per_fat_16 self))"

definition BPB_total_sectors :: "BiosParameterBlock \<Rightarrow> u32" where
  "BPB_total_sectors self =
     (if bpb_total_sectors_16 self = 0 then bpb_total_sectors_32 self else ucast (bpb_total_sectors_16 self))"

definition BPB_reserved_sectors :: "BiosParameterBlock \<Rightarrow> u32" where
  "BPB_reserved_sectors self = ucast (bpb_reserved_sectors self)"

definition BPB_root_dir_sectors :: "BiosParameterBlock \<Rightarrow> u32 option" where
  "BPB_root_dir_sectors self =
     (let root_dir_bytes = ucast (bpb_root_entries self) * DIR_ENTRY_SIZE
      in div_panic (root_dir_bytes + ucast (bpb_bytes_per_sector self) - 1) (ucast (bpb_bytes_per_sector self)))"

definition BPB_sectors_per_all_fats :: "BiosParameterBlock \<Rightarrow> u32" where
  "BPB_sectors_per_all_fats self = ucast (bpb_fats self) * BPB_sectors_per_fat self"

definition BPB_first_data_sector :: "BiosParameterBlock \<Rightarrow> u32 option" where
  "BPB_first_data_sector self = do {
     root_dir_sectors \<leftarrow> BPB_root_dir_sectors self;
     let fat_sectors = BPB_sectors_per_all_fats self;
     Some (BPB_reserved_sectors self + fat_sectors + root_dir_sectors) }"

definition BPB_total_clusters :: "BiosParameterBlock \<Rightarrow> u32 option" where
  "BPB_total_clusters self = do {
     let total_sectors = BPB_total_sectors self;
     first_data_sector \<leftarrow> BPB_first_data_sector self;
     let data_sectors = total_sectors - first_data_sector;
     div_panic data_sectors (ucast (bpb_sectors_per_cluster self)) }"

definition BPB_bytes_from_sectors :: "BiosParameterBlock \<Rightarrow> u32 \<Rightarrow> u64" where
  "BPB_bytes_from_sectors self sectors = ucast sectors * ucast (bpb_bytes_per_sector self)"

definition BPB_sectors_from_clusters :: "BiosParameterBlock \<Rightarrow> u32 \<Rightarrow> u32" where
  "BPB_sectors_from_clusters self clusters = clusters * ucast (bpb_sectors_per_cluster self)"

definition BPB_cluster_size :: "BiosParameterBlock \<Rightarrow> u32" where
  "BPB_cluster_size self = ucast (bpb_sectors_per_cluster self) * ucast (bpb_bytes_per_sector self)"

definition BPB_clusters_from_bytes :: "BiosParameterBlock \<Rightarrow> u64 \<Rightarrow> u32 option" where
  "BPB_clusters_from_bytes self bytes = do {
     let cluster_size = ucast (BPB_cluster_size self);
     n \<leftarrow> div_panic (bytes + cluster_size - 1) cluster_size;
     Some (ucast n) }"

definition BPB_fs_info_sector :: "BiosParameterBlock \<Rightarrow> u32" where
  "BPB_fs_info_sector self = ucast (bpb_fs_info_sector self)"

definition BPB_backup_boot_sector :: "BiosParameterBlock \<Rightarrow> u32" where
  "BPB_backup_boot_sector self = ucast (bpb_backup_boot_sector self)"

section \<open>Validation\<close>

text \<open>Messages to the log are not modelled; a check that only warns has no effect.\<close>

definition corrupted_if :: "bool \<Rightarrow> ('s, unit) fat_io" where
  "corrupted_if b = (if b then io_err CorruptedFileSystem else io_return ())"

definition validate_bytes_per_sector :: "BiosParameterBlock \<Rightarrow> ('s, unit) fat_io" where
  "validate_bytes_per_sector self =
     io_bind (corrupted_if (count_ones (bpb_bytes_per_sector self) \<noteq> 1)) (\<lambda>_.
     corrupted_if (bpb_bytes_per_sector self < 512 \<or> bpb_bytes_per_sector self > 4096))"

definition validate_sectors_per_cluster :: "BiosParameterBlock \<Rightarrow> ('s, unit) fat_io" where
  "validate_sectors_per_cluster self =
     io_bind (corrupted_if (count_ones (bpb_sectors_per_cluster self) \<noteq> 1)) (\<lambda>_.
     corrupted_if (bpb_sectors_per_cluster self < 1 \<or> bpb_sectors_per_cluster self > 128))"

definition validate_reserved_sectors :: "BiosParameterBlock \<Rightarrow> ('s, unit) fat_io" where
  "validate_reserved_sectors self =
     (let is_fat32 = BPB_is_fat32 self in
      io_bind (corrupted_if (bpb_reserved_sectors self < 1)) (\<lambda>_.
      io_bind (corrupted_if (is_fat32 \<and> bpb_backup_boot_sector self \<ge> bpb_reserved_sectors self)) (\<lambda>_.
      corrupted_if (is_fat32 \<and> bpb_fs_info_sector self \<ge> bpb_reserved_sectors self))))"

definition validate_fats :: "BiosParameterBlock \<Rightarrow> ('s, unit) fat_io" where
  "validate_fats self = corrupted_if (bpb_fats self = 0)"

definition validate_root_entries :: "BiosParameterBlock \<Rightarrow> ('s, unit) fat_io" where
  "validate_root_entries self =
     (let is_fat32 = BPB_is_fat32 self in
      io_bind (corrupted_if (is_fat32 \<and> bpb_root_entries self \<noteq> 0)) (\<lambda>_.
      io_bind (corrupted_if (\<not> is_fat32 \<and> bpb_root_entries self = 0)) (\<lambda>_.
      io_bind (io_lift (mod_panic (ucast (bpb_root_entries self) * DIR_ENTRY_SIZE)
        (ucast (bpb_bytes_per_sector self) :: u32))) (\<lambda>_.
      io_return ()))))"

definition validate_total_sectors :: "BiosParameterBlock \<Rightarrow> ('s, unit) fat_io" where
  "validate_total_sectors self =
     (let is_fat32 = BPB_is_fat32 self in
      io_bind (corrupted_if (is_fat32 \<and> bpb_total_sectors_16 self \<noteq> 0)) (\<lambda>_.
      io_bind (corrupted_if ((bpb_total_sectors_16 self = 0) = (bpb_total_sectors_32 self = 0))) (\<lambda>_.
      let total_sectors = BPB_total_sectors self in
      io_bind (io_lift (BPB_first_data_sector self)) (\<lambda>first_data_sector.
      corrupted_if (total_sectors \<le> first_data_sector)))))"

definition validate_sectors_per_fat :: "BiosParameterBlock \<Rightarrow> ('s, unit) fat_io" where
  "validate_sectors_per_fat self =
     corrupted_if (BPB_is_fat32 self \<and> bpb_sectors_per_fat_32 self = 0)"

definition validate_total_clusters :: "BiosParameterBlock \<Rightarrow> ('s, unit) fat_io" where
  "validate_total_clusters self =
     (let is_fat32 = BPB_is_fat32 self in
      io_bind (io_lift (BPB_total_clusters self)) (\<lambda>total_clusters.
      let fat_type = FatType_from_clusters total_clusters in
      io_bind (corrupted_if (is_fat32 \<noteq> (fat_type = Fat32))) (\<lambda>_.
      corrupted_if (fat_type = Fat32 \<and> total_clusters > 0x0FFFFFFF))))"

definition BPB_validate :: "BiosParameterBlock \<Rightarrow> ('s, unit) fat_io" where
  "BPB_validate self = io_seq
     [corrupted_if (bpb_fs_version self \<noteq> 0),
      validate_bytes_per_sector self,
      validate_sectors_per_cluster self,
      validate_reserved_sectors self,
      validate_fats self,
      validate_root_entries self,
      validate_total_sectors self,
      validate_sectors_per_fat self,
      validate_total_clusters self]"

section \<open>The boot sector\<close>

record BootSector =
  boot_bootjmp :: "u8 list"
  boot_oem_name :: "u8 list"
  boot_bpb :: BiosParameterBlock
  boot_boot_code :: "u8 list"
  boot_boot_sig :: "u8 list"

definition BootSector_default :: BootSector where
  "BootSector_default = \<lparr>boot_bootjmp = replicate 3 0, boot_oem_name = replicate 8 0,
     boot_bpb = BiosParameterBlock_default, boot_boot_code = replicate 448 0, boot_boot_sig = replicate 2 0\<rparr>"

definition BootSector_deserialize :: "'s stream \<Rightarrow> ('s, BootSector) fat_io" where
  "BootSector_deserialize rdr =
     io_bind (read_exact rdr 3) (\<lambda>bootjmp.
     io_bind (read_exact rdr 8) (\<lambda>oem_name.
     io_bind (BPB_deserialize rdr) (\<lambda>bpb.
     io_bind (read_exact rdr (if BPB_is_fat32 bpb then 420 else 448)) (\<lambda>code.
     io_bind (read_exact rdr 2) (\<lambda>boot_sig.
     io_return (BootSector_default\<lparr>boot_bootjmp := bootjmp, boot_oem_name := oem_name, boot_bpb := bpb,
       boot_boot_code := overwrite (boot_boot_code BootSector_default) 0 code, boot_boot_sig := boot_sig\<rparr>))))))"

definition BootSector_serialize :: "BootSector \<Rightarrow> 's stream \<Rightarrow> ('s, unit) fat_io" where
  "BootSector_serialize self wrt = io_seq
     [write_all wrt (boot_bootjmp self),
      write_all wrt (boot_oem_name self),
      BPB_serialize (boot_bpb self) wrt,
      write_all wrt (take (if BPB_is_fat32 (boot_bpb self) then 420 else 448) (boot_boot_code self)),
      write_all wrt (boot_boot_sig self)]"

definition BootSector_validate :: "BootSector \<Rightarrow> ('s, unit) fat_io" where
  "BootSector_validate self =
     io_bind (corrupted_if (boot_boot_sig self \<noteq> [0x55, 0xAA])) (\<lambda>_.
     BPB_validate (boot_bpb self))"

section \<open>The boot sector of a new volume\<close>

record FormatVolumeOptions =
  fo_bytes_per_sector :: "u16 option"
  fo_total_sectors :: "u32 option"
  fo_bytes_per_cluster :: "u32 option"
  fo_fat_type :: "FatType option"
  fo_max_root_dir_entries :: "u16 option"
  fo_fats :: "u8 option"
  fo_media :: "u8 option"
  fo_sectors_per_track :: "u16 option"
  fo_heads :: "u16 option"
  fo_drive_num :: "u8 option"
  fo_volume_id :: "u32 option"
  fo_volume_label :: "u8 list option"

definition unwrap_or :: "'a option \<Rightarrow> 'a \<Rightarrow> 'a" where
  "unwrap_or x d = (case x of None \<Rightarrow> d | Some a \<Rightarrow> a)"

definition estimate_fat_type :: "u64 \<Rightarrow> FatType" where
  "estimate_fat_type total_bytes =
     (if total_bytes < 4 * MB_64 then Fat12
      else if total_bytes < 512 * MB_64 then Fat16
      else Fat32)"

definition determine_bytes_per_cluster :: "u64 \<Rightarrow> u16 \<Rightarrow> FatType option \<Rightarrow> u32" where
  "determine_bytes_per_cluster total_bytes bytes_per_sector fat_type =
     (let max_cluster_size = 32 * KB_32;
          fat_type = unwrap_or fat_type (estimate_fat_type total_bytes);
          bytes_per_cluster = (case fat_type of
              Fat12 \<Rightarrow> ucast (next_power_of_two total_bytes div MB_64 * 512)
            | Fat16 \<Rightarrow>
                if total_bytes \<le> 16 * MB_64 then KB_32
                else if total_bytes \<le> 128 * MB_64 then 2 * KB_32
                else ucast (next_power_of_two total_bytes div (64 * MB_64)) * KB_32
            | Fat32 \<Rightarrow>
                if total_bytes \<le> 260 * MB_64 then 512
                else if total_bytes \<le> 8 * GB_64 then 4 * KB_32
                else ucast (next_power_of_two total_bytes div (2 * GB_64)) * KB_32)
      in min (max bytes_per_cluster (ucast bytes_per_sector)) max_cluster_size)"

definition determine_sectors_per_fat :: "u32 \<Rightarrow> u16 \<Rightarrow> u8 \<Rightarrow> FatType \<Rightarrow> u16 \<Rightarrow> u32 \<Rightarrow> u8 \<Rightarrow> u32 option" where
  "determine_sectors_per_fat total_sectors bytes_per_sector sectors_per_cluster fat_type reserved_sectors root_dir_sectors fats = do {
     let t0 = total_sectors - ucast reserved_sectors - root_dir_sectors;
     let t1 = ucast t0 + ucast (2 * ucast sectors_per_cluster :: u32);
     let bits_per_cluster = ucast sectors_per_cluster * ucast bytes_per_sector * BITS_PER_BYTE;
     let t2 = ucast (bits_per_cluster div bits_per_fat_entry fat_type + ucast fats);
     sectors_per_fat \<leftarrow> div_panic (t1 + t2 - 1) (t2 :: u64);
     Some (ucast sectors_per_fat) }"

definition try_fs_geometry :: "u32 \<Rightarrow> u16 \<Rightarrow> u8 \<Rightarrow> FatType \<Rightarrow> u32 \<Rightarrow> u8 \<Rightarrow> (Error + u16 \<times> u32) option" where
  "try_fs_geometry total_sectors bytes_per_sector sectors_per_cluster fat_type root_dir_sectors fats = (
     let reserved_sectors = (if fat_type = Fat32 then 8 else 1 :: u16) in
     if total_sectors \<le> ucast reserved_sectors + root_dir_sectors + 8 then Some (Inl InvalidInput)
     else do {
       sectors_per_fat \<leftarrow> determine_sectors_per_fat total_sectors bytes_per_sector sectors_per_cluster
         fat_type reserved_sectors root_dir_sectors fats;
       let data_sectors = total_sectors - ucast reserved_sectors - root_dir_sectors - sectors_per_fat * ucast fats;
       total_clusters \<leftarrow> div_panic data_sectors (ucast sectors_per_cluster);
       if fat_type \<noteq> FatType_from_clusters total_clusters then Some (Inl InvalidInput)
       else if total_clusters > max_clusters fat_type then Some (Inl InvalidInput)
       else Some (Inr (reserved_sectors, sectors_per_fat)) })"

definition determine_root_dir_sectors :: "u16 \<Rightarrow> u16 \<Rightarrow> FatType \<Rightarrow> u32 option" where
  "determine_root_dir_sectors root_dir_entries bytes_per_sector fat_type =
     (if fat_type = Fat32 then Some 0
      else
        let root_dir_bytes = ucast root_dir_entries * DIR_ENTRY_SIZE
        in div_panic (root_dir_bytes + ucast bytes_per_sector - 1) (ucast bytes_per_sector))"

fun determine_fs_geometry_loop :: "u32 \<Rightarrow> u16 \<Rightarrow> u8 \<Rightarrow> u16 \<Rightarrow> u8 \<Rightarrow> FatType list \<Rightarrow>
    (Error + FatType \<times> u16 \<times> u32) option" where
  "determine_fs_geometry_loop total_sectors bytes_per_sector sectors_per_cluster root_dir_entries fats [] =
     Some (Inl InvalidInput)"
| "determine_fs_geometry_loop total_sectors bytes_per_sector sectors_per_cluster root_dir_entries fats (fat_type # ts) = do {
     root_dir_sectors \<leftarrow> determine_root_dir_sectors root_dir_entries bytes_per_sector fat_type;
     r \<leftarrow> try_fs_geometry total_sectors bytes_per_sector sectors_per_cluster fat_type root_dir_sectors fats;
     (case r of
        Inr (reserved_sectors, sectors_per_fat) \<Rightarrow> Some (Inr (fat_type, reserved_sectors, sectors_per_fat))
      | Inl _ \<Rightarrow>
          determine_fs_geometry_loop total_sectors bytes_per_sector sectors_per_cluster root_dir_entries fats ts) }"

definition determine_fs_geometry :: "u32 \<Rightarrow> u16 \<Rightarrow> u8 \<Rightarrow> u16 \<Rightarrow> u8 \<Rightarrow> (Error + FatType \<times> u16 \<times> u32) option" where
  "determine_fs_geometry total_sectors bytes_per_sector sectors_per_cluster root_dir_entries fats =
     determine_fs_geometry_loop total_sectors bytes_per_sector sectors_per_cluster root_dir_entries fats
       [Fat32, Fat16, Fat12]"

definition format_bpb :: "FormatVolumeOptions \<Rightarrow> u32 \<Rightarrow> u16 \<Rightarrow> (Error + BiosParameterBlock \<times> FatType) option" where
  "format_bpb options total_sectors bytes_per_sector = do {
     let bytes_per_cluster = (case fo_bytes_per_cluster options of
         Some n \<Rightarrow> n
       | None \<Rightarrow>
           let total_bytes = ucast total_sectors * ucast bytes_per_sector
           in determine_bytes_per_cluster total_bytes bytes_per_sector (fo_fat_type options));
     sectors_per_cluster \<leftarrow> div_panic bytes_per_cluster (ucast bytes_per_sector);
     rust_assert (sectors_per_cluster \<le> 255);
     let sectors_per_cluster = ucast sectors_per_cluster;
     let fats = unwrap_or (fo_fats options) 2;
     let root_dir_entries = unwrap_or (fo_max_root_dir_entries options) 512;
     r \<leftarrow> determine_fs_geometry total_sectors bytes_per_sector sectors_per_cluster root_dir_entries fats;
     (case r of
        Inl e \<Rightarrow> Some (Inl e)
      | Inr (fat_type, reserved_sectors, sectors_per_fat) \<Rightarrow> do {
          let drive_num = unwrap_or (fo_drive_num options) (if fat_type = Fat12 then 0 else 0x80);
          let volume_label = unwrap_or (fo_volume_label options) (bytes_of ''NO NAME    '');
          let fs_type_label = (case fat_type of
              Fat12 \<Rightarrow> bytes_of ''FAT12   '' | Fat16 \<Rightarrow> bytes_of ''FAT16   '' | Fat32 \<Rightarrow> bytes_of ''FAT32   '');
          let is_fat32 = (fat_type = Fat32);
          let bpb = \<lparr>
            bpb_bytes_per_sector = bytes_per_sector,
            bpb_sectors_per_cluster = sectors_per_cluster,
            bpb_reserved_sectors = reserved_sectors,
            bpb_fats = fats,
            bpb_root_entries = (if is_fat32 then 0 else root_dir_entries),
            bpb_total_sectors_16 = (if total_sectors < 0x10000 then ucast total_sectors else 0),
            bpb_media = unwrap_or (fo_media options) 0xF8,
            bpb_sectors_per_fat_16 = (if is_fat32 then 0 else ucast sectors_per_fat),
            bpb_sectors_per_track = unwrap_or (fo_sectors_per_track options) 0x20,
            bpb_heads = unwrap_or (fo_heads options) 0x40,
            bpb_hidden_sectors = 0,
            bpb_total_sectors_32 = (if total_sectors \<ge> 0x10000 then total_sectors else 0),
            bpb_sectors_per_fat_32 = (if is_fat32 then sectors_per_fat else 0),
            bpb_extended_flags = 0,
            bpb_fs_version = 0,
            bpb_root_dir_first_cluster = (if is_fat32 then 2 else 0),
            bpb_fs_info_sector = (if is_fat32 then 1 else 0),
            bpb_backup_boot_sector = (if is_fat32 then 6 else 0),
            bpb_reserved_0 = replicate 12 0,
            bpb_drive_num = drive_num,
            bpb_reserved_1 = 0,
            bpb_ext_sig = 0x29,
            bpb_volume_id = unwrap_or (fo_volume_id options) 0x12345678,
            bpb_volume_label = volume_label,
            bpb_fs_type_label = fs_type_label\<rparr>;
          total_clusters \<leftarrow> BPB_total_clusters bpb;
          (if FatType_from_clusters total_clusters \<noteq> fat_type then Some (Inl InvalidInput)
           else Some (Inr (bpb, fat_type))) }) }"

definition default_boot_code :: "u8 list" where
  "default_boot_code = [
    0x0E, 0x1F, 0xBE, 0x77, 0x7C, 0xAC, 0x22, 0xC0, 0x74, 0x0B, 0x56, 0xB4, 0x0E, 0xBB, 0x07, 0x00, 0xCD, 0x10,
    0x5E, 0xEB, 0xF0, 0x32, 0xE4, 0xCD, 0x16, 0xCD, 0x19, 0xEB, 0xFE, 0x54, 0x68, 0x69, 0x73, 0x20, 0x69, 0x73,
    0x20, 0x6E, 0x6F, 0x74, 0x20, 0x61, 0x20, 0x62, 0x6F, 0x6F, 0x74, 0x61, 0x62, 0x6C, 0x65, 0x20, 0x64, 0x69,
    0x73, 0x6B, 0x2E, 0x20, 0x20, 0x50, 0x6C, 0x65, 0x61, 0x73, 0x65, 0x20, 0x69, 0x6E, 0x73, 0x65, 0x72, 0x74,
    0x20, 0x61, 0x20, 0x62, 0x6F, 0x6F, 0x74, 0x61, 0x62, 0x6C, 0x65, 0x20, 0x66, 0x6C, 0x6F, 0x70, 0x70, 0x79,
    0x20, 0x61, 0x6E, 0x64, 0x0D, 0x0A, 0x70, 0x72, 0x65, 0x73, 0x73, 0x20, 0x61, 0x6E, 0x79, 0x20, 0x6B, 0x65,
    0x79, 0x20, 0x74, 0x6F, 0x20, 0x74, 0x72, 0x79, 0x20, 0x61, 0x67, 0x61, 0x69, 0x6E, 0x20, 0x2E, 0x2E, 0x2E,
    0x20, 0x0D, 0x0A]"

definition format_boot_sector :: "FormatVolumeOptions \<Rightarrow> u32 \<Rightarrow> u16 \<Rightarrow> (Error + BootSector \<times> FatType) option" where
  "format_boot_sector options total_sectors bytes_per_sector = do {
     r \<leftarrow> format_bpb options total_sectors bytes_per_sector;
     (case r of
        Inl e \<Rightarrow> Some (Inl e)
      | Inr (bpb, fat_type) \<Rightarrow>
          let boot = BootSector_default\<lparr>
                boot_bpb := bpb,
                boot_oem_name := bytes_of ''MSWIN4.1'',
                boot_bootjmp := [0xEB, 0x58, 0x90],
                boot_boot_code := overwrite (boot_boot_code BootSector_default) 0 default_boot_code,
                boot_boot_sig := [0x55, 0xAA]\<rparr>;
              boot = (if fat_type \<noteq> Fat32 then
                  let boot_code_offset = 0x36 + 8;
                      message_offset = 29;
                      message_offset_in_sector = ucast (boot_code_offset :: u8) + message_offset + 0x7c00
                  in boot\<lparr>
                    boot_bootjmp := (boot_bootjmp boot)[1 := boot_code_offset - 2],
                    boot_boot_code := (boot_boot_code boot)
                      [3 := ucast (message_offset_in_sector AND 0xff :: u16),
                       4 := ucast (drop_bit 8 message_offset_in_sector)]\<rparr>
                else boot)
          in Some (Inr (boot, fat_type))) }"

section \<open>The layout of the boot sector\<close>

definition BPB_bytes :: "BiosParameterBlock \<Rightarrow> u8 list" where
  "BPB_bytes b =
     u16_to_le_bytes (bpb_bytes_per_sector b) @ [bpb_sectors_per_cluster b]
   @ u16_to_le_bytes (bpb_reserved_sectors b) @ [bpb_fats b] @ u16_to_le_bytes (bpb_root_entries b)
   @ u16_to_le_bytes (bpb_total_sectors_16 b) @ [bpb_media b] @ u16_to_le_bytes (bpb_sectors_per_fat_16 b)
   @ u16_to_le_bytes (bpb_sectors_per_track b) @ u16_to_le_bytes (bpb_heads b)
   @ u32_to_le_bytes (bpb_hidden_sectors b) @ u32_to_le_bytes (bpb_total_sectors_32 b)
   @ (if BPB_is_fat32 b then u32_to_le_bytes (bpb_sectors_per_fat_32 b) @ u16_to_le_bytes (bpb_extended_flags b)
        @ u16_to_le_bytes (bpb_fs_version b) @ u32_to_le_bytes (bpb_root_dir_first_cluster b)
        @ u16_to_le_bytes (bpb_fs_info_sector b) @ u16_to_le_bytes (bpb_backup_boot_sector b) @ bpb_reserved_0 b
      else [])
   @ [bpb_drive_num b] @ [bpb_reserved_1 b] @ [bpb_ext_sig b] @ u32_to_le_bytes (bpb_volume_id b)
   @ bpb_volume_label b @ bpb_fs_type_label b"

definition BootSector_bytes :: "BootSector \<Rightarrow> u8 list" where
  "BootSector_bytes b = boot_bootjmp b @ boot_oem_name b @ BPB_bytes (boot_bpb b)
     @ take (if BPB_is_fat32 (boot_bpb b) then 420 else 448) (boot_boot_code b) @ boot_boot_sig b"

text \<open>
  Parameter blocks that the format can express: array fields have their length, a block that is not
  FAT32 has the default in the fields that only FAT32 stores, and without the extended signature
  the fields behind it are zero.
\<close>

definition BPB_wf :: "BiosParameterBlock \<Rightarrow> bool" where
  "BPB_wf b \<longleftrightarrow> length (bpb_reserved_0 b) = 12 \<and> length (bpb_volume_label b) = 11 \<and> length (bpb_fs_type_label b) = 8
   \<and> (\<not> BPB_is_fat32 b \<longrightarrow> bpb_sectors_per_fat_32 b = 0 \<and> bpb_extended_flags b = 0 \<and> bpb_fs_version b = 0
        \<and> bpb_root_dir_first_cluster b = 0 \<and> bpb_fs_info_sector b = 0 \<and> bpb_backup_boot_sector b = 0
        \<and> bpb_reserved_0 b = replicate 12 0)
   \<and> (bpb_ext_sig b \<noteq> 0x29 \<longrightarrow> bpb_volume_id b = 0 \<and> bpb_volume_label b = replicate 11 0
        \<and> bpb_fs_type_label b = replicate 8 0)"

definition BootSector_wf :: "BootSector \<Rightarrow> bool" where
  "BootSector_wf b \<longleftrightarrow> BPB_wf (boot_bpb b) \<and> length (boot_bootjmp b) = 3 \<and> length (boot_oem_name b) = 8
   \<and> length (boot_boot_code b) = 448 \<and> length (boot_boot_sig b) = 2
   \<and> (BPB_is_fat32 (boot_bpb b) \<longrightarrow> drop 420 (boot_boot_code b) = replicate 28 0)"

lemma length_BPB_bytes: "BPB_wf b \<Longrightarrow> length (BPB_bytes b) = (if BPB_is_fat32 b then 79 else 51)"
  by (simp add: BPB_bytes_def BPB_wf_def)

lemma length_BootSector_bytes: "BootSector_wf b \<Longrightarrow> length (BootSector_bytes b) = 512"
  by (simp add: BootSector_bytes_def BootSector_wf_def length_BPB_bytes)

context byte_stream
begin

lemma BPB_serialize_emits: "emits ok img pos cap (BPB_serialize b st) (BPB_bytes b)"
proof -
  let ?bss = "[u16_to_le_bytes (bpb_bytes_per_sector b), [bpb_sectors_per_cluster b],
    u16_to_le_bytes (bpb_reserved_sectors b), [bpb_fats b], u16_to_le_bytes (bpb_root_entries b),
    u16_to_le_bytes (bpb_total_sectors_16 b), [bpb_media b], u16_to_le_bytes (bpb_sectors_per_fat_16 b),
    u16_to_le_bytes (bpb_sectors_per_track b), u16_to_le_bytes (bpb_heads b),
    u32_to_le_bytes (bpb_hidden_sectors b), u32_to_le_bytes (bpb_total_sectors_32 b)]
  @ (if BPB_is_fat32 b then [u32_to_le_bytes (bpb_sectors_per_fat_32 b), u16_to_le_bytes (bpb_extended_flags b),
      u16_to_le_bytes (bpb_fs_version b), u32_to_le_bytes (bpb_root_dir_first_cluster b),
      u16_to_le_bytes (bpb_fs_info_sector b), u16_to_le_bytes (bpb_backup_boot_sector b), bpb_reserved_0 b]
     else [])
  @ [[bpb_drive_num b], [bpb_reserved_1 b], [bpb_ext_sig b], u32_to_le_bytes (bpb_volume_id b),
    bpb_volume_label b, bpb_fs_type_label b]"
  have "emits ok img pos cap (BPB_serialize b st) (concat ?bss)"
    unfolding BPB_serialize_def by (rule emits_seq) (simp add: emits_words emits_write_all)
  moreover have "concat ?bss = BPB_bytes b" by (simp add: BPB_bytes_def)
  ultimately show ?thesis by (simp only:)
qed

lemma BootSector_serialize_emits: "emits ok img pos cap (BootSector_serialize b st) (BootSector_bytes b)"
proof -
  let ?bss = "[boot_bootjmp b, boot_oem_name b, BPB_bytes (boot_bpb b),
    take (if BPB_is_fat32 (boot_bpb b) then 420 else 448) (boot_boot_code b), boot_boot_sig b]"
  have "emits ok img pos cap (BootSector_serialize b st) (concat ?bss)"
    unfolding BootSector_serialize_def
    by (rule emits_seq) (simp add: emits_write_all BPB_serialize_emits)
  moreover have "concat ?bss = BootSector_bytes b" by (simp add: BootSector_bytes_def)
  ultimately show ?thesis by (simp only:)
qed

end

context byte_io
begin

lemma BPB_deserialize_parses:
  assumes wf: "BPB_wf b"
  shows "parses ok img pos cap (BPB_deserialize st) (BPB_bytes b) b"
proof -
  have len: "length (bpb_reserved_0 b) = 12" "length (bpb_volume_label b) = 11" "length (bpb_fs_type_label b) = 8"
    using wf by (simp_all add: BPB_wf_def)
  note words = parses_u8 parses_u16 parses_u32
  show ?thesis
  proof (cases "BPB_is_fat32 b")
    case True
    show ?thesis
      unfolding BPB_deserialize_def BPB_bytes_def if_P [OF True] Let_def
      apply (rule parses_bind, rule words)+
      apply (rule parses_bind)
       apply (subst if_P)
        apply (use True in \<open>simp add: BPB_is_fat32_def\<close>)
       apply (rule parses_bind, rule words)+
       apply (rule parses_bind_return [OF parses_read_exact [OF len(1)] refl])
      apply (rule parses_bind, rule words)+
      apply (rule parses_bind, rule parses_read_exact [OF len(2)])
      apply (rule parses_bind_return [OF parses_read_exact [OF len(3)]])
      using wf by (cases b) (auto simp: BPB_wf_def BiosParameterBlock_default_def)
  next
    case False
    show ?thesis
      unfolding BPB_deserialize_def BPB_bytes_def if_not_P [OF False] Let_def
      apply (rule parses_bind, rule words)+
      apply (rule parses_bind)
       apply (subst if_not_P)
        apply (use False in \<open>simp add: BPB_is_fat32_def\<close>)
       apply (rule parses_return)
      apply (rule parses_bind, rule words)+
      apply (rule parses_bind, rule parses_read_exact [OF len(2)])
      apply (rule parses_bind_return [OF parses_read_exact [OF len(3)]])
      using wf False by (cases b) (auto simp: BPB_wf_def BiosParameterBlock_default_def BPB_is_fat32_def)
  qed
qed

lemma BootSector_deserialize_parses:
  assumes wf: "BootSector_wf b"
  shows "parses ok img pos cap (BootSector_deserialize st) (BootSector_bytes b) b"
proof -
  let ?n = "if BPB_is_fat32 (boot_bpb b) then 420 else 448"
  have len: "length (boot_bootjmp b) = 3" "length (boot_oem_name b) = 8" "length (take ?n (boot_boot_code b)) = ?n"
    "length (boot_boot_sig b) = 2" "BPB_wf (boot_bpb b)"
    using wf by (simp_all add: BootSector_wf_def)
  have code: "overwrite (replicate 448 0) 0 (take ?n (boot_boot_code b)) = boot_boot_code b"
  proof (cases "BPB_is_fat32 (boot_bpb b)")
    case True
    then have "boot_boot_code b = take 420 (boot_boot_code b) @ replicate 28 0"
      using wf append_take_drop_id [of 420 "boot_boot_code b"] by (simp add: BootSector_wf_def)
    moreover have "overwrite (replicate 448 0) 0 (take ?n (boot_boot_code b)) = take 420 (boot_boot_code b) @ replicate 28 0"
      using True wf by (simp add: overwrite_def BootSector_wf_def)
    ultimately show ?thesis by simp
  qed (use wf in \<open>simp add: overwrite_def BootSector_wf_def\<close>)
  show ?thesis
    unfolding BootSector_deserialize_def BootSector_bytes_def
    apply (rule parses_bind, rule parses_read_exact [OF len(1)])
    apply (rule parses_bind, rule parses_read_exact [OF len(2)])
    apply (rule parses_bind, rule BPB_deserialize_parses [OF len(5)])
    apply (rule parses_bind, rule parses_read_exact [OF len(3)])
    apply (rule parses_bind_return [OF parses_read_exact [OF len(4)]])
    using code by (cases b) (simp add: BootSector_default_def)
qed

end

section \<open>The size of the FAT of a new volume\<close>

lemma fat_size_fits:
  fixes t0 S B F bits k spf :: nat
  assumes k: "k = S * B * 8 div bits" and S: "0 < S" and bits: "0 < bits" "bits \<le> 32" and B: "512 \<le> B"
    and F: "F \<le> 2" and t0: "9 \<le> t0" and spf: "spf = (t0 + 2 * S + (k + F) - 1) div (k + F)"
  shows "spf * F \<le> t0" "((t0 - spf * F) div S + 2) * bits \<le> spf * B * 8" "128 \<le> k"
proof -
  have "S * 128 * bits \<le> S * B * 8" using bits(2) B by (simp add: mult.assoc mult_le_mono)
  then have k_ge: "128 * S \<le> k" using bits(1) unfolding k by (simp add: less_eq_div_iff_mult_less_eq ac_simps)
  then show "128 \<le> k" using S by linarith
  then have pos: "0 < k + F" by linarith
  have "spf * (k + F) \<le> t0 + 2 * S + (k + F) - 1" unfolding spf by (rule div_times_less_eq_dividend)
  then have up: "spf * k + spf * F \<le> t0 + 2 * S + k + F - 1" by (simp add: distrib_left add.assoc)
  have "t0 + 2 * S \<le> spf * (k + F)"
  proof -
    have "t0 + 2 * S + (k + F) - 1 < (spf + 1) * (k + F)" unfolding spf using pos
      by (metis Suc_eq_plus1 add.commute dividend_less_div_times mult_Suc)
    then show ?thesis using pos by (simp add: add_mult_distrib)
  qed
  then have low: "t0 + 2 * S \<le> spf * k + spf * F" by (simp add: distrib_left)
  show le: "spf * F \<le> t0"
  proof (rule ccontr)
    assume "\<not> spf * F \<le> t0"
    then have gt: "t0 < spf * F" by simp
    then have "9 < spf * 2" using t0 F by (meson le_less_trans less_le_trans mult_le_mono2)
    then have "5 \<le> spf" by simp
    then have "5 * k \<le> spf * k" by simp
    with up gt k_ge F S show False by linarith
  qed
  let ?c = "(t0 - spf * F) div S"
  have "(?c + 2) * S \<le> t0 - spf * F + 2 * S" by (simp add: add_mult_distrib)
  also have "\<dots> \<le> spf * k" using low le by linarith
  finally have "(?c + 2) * S * bits \<le> spf * k * bits" by (rule mult_le_mono1)
  also have "\<dots> \<le> spf * (S * B * 8)" unfolding k mult.assoc by (simp add: div_times_less_eq_dividend mult.assoc)
  finally have "S * ((?c + 2) * bits) \<le> S * (spf * B * 8)" by (simp only: ac_simps)
  then show "(?c + 2) * bits \<le> spf * B * 8" using S by simp
qed

lemma try_fs_geometry_fits:
  assumes geo: "try_fs_geometry tot bps spc ft root fats = Some (Inr (res, spf))"
    and spc: "spc \<noteq> 0" "spc \<le> 128" and bps: "512 \<le> bps" "bps \<le> 4096"
    and fats: "fats \<le> 2" and root: "root \<le> 0x10000"
  shows "unat res + unat root + unat spf * unat fats \<le> unat tot
    \<and> ((unat tot - (unat res + unat root + unat spf * unat fats)) div unat spc + 2) * unat (bits_per_fat_entry ft)
      \<le> unat spf * unat bps * 8"
proof -
  have res: "res = (if ft = Fat32 then 8 else 1)" and tt: "\<not> tot \<le> ucast res + root + 8"
    and det: "determine_sectors_per_fat tot bps spc ft res root fats = Some spf"
    using geo by (auto simp: try_fs_geometry_def Let_def bind_eq_Some_conv split: if_splits)
  have N: "0 < unat spc" "unat spc \<le> 128" "512 \<le> unat bps" "unat bps \<le> 4096" "unat fats \<le> 2" "unat root \<le> 65536"
    "unat res \<le> 8" "0 < unat res"
    using spc bps fats root res by (simp_all add: word_le_nat_alt unat_gt_0)
  have "unat (ucast res + root + 8 :: u32) = unat res + unat root + 8"
    using N by (simp add: unat_word_ariths unat_ucast_up)
  then have T: "unat res + unat root + 8 < unat tot" using tt by (simp add: word_le_nat_alt)
  define t0 where "t0 = tot - ucast res - root"
  have t0: "unat t0 = unat tot - unat res - unat root"
    using T by (simp add: t0_def unat_sub_if_size unat_ucast_up)
  define bits where "bits = unat (bits_per_fat_entry ft)"
  have bits: "0 < bits" "bits \<le> 32" by (cases ft; simp add: bits_def bits_per_fat_entry_def)+
  define k where "k = unat spc * unat bps * 8 div bits"
  let ?bpc = "ucast spc * ucast bps * BITS_PER_BYTE :: u32"
  have mul: "unat spc * unat bps \<le> 128 * 4096" using N by (intro mult_le_mono) auto
  then have "unat spc * unat bps * 8 < 4294967296" by linarith
  then have "unat ?bpc = unat spc * unat bps * 8"
    using N mul by (simp add: BITS_PER_BYTE_def unat_word_ariths unat_ucast_up mod_less)
  then have q: "unat (?bpc div bits_per_fat_entry ft) = k" by (simp add: unat_div k_def bits_def)
  have "unat spc * unat bps * 8 \<le> 4194304" using mul by linarith
  then have k_le: "k \<le> 4194304" unfolding k_def using div_le_dividend le_trans by blast
  let ?t1 = "ucast t0 + ucast (2 * ucast spc :: u32) :: u64"
  let ?t2 = "ucast (?bpc div bits_per_fat_entry ft + ucast fats) :: u64"
  have t1: "unat ?t1 = unat t0 + 2 * unat spc"
    using N unsigned_less [of t0, where 'a = nat]
    by (simp add: unat_word_ariths unat_ucast_up)
  have t2: "unat ?t2 = k + unat fats"
    using N k_le q by (simp add: unat_word_ariths unat_ucast_up)
  have t2nz: "?t2 \<noteq> 0" and spf: "spf = ucast ((?t1 + ?t2 - 1) div ?t2)"
    using det by (auto simp: determine_sectors_per_fat_def Let_def div_panic_def t0_def split: if_splits)
  have t0_9: "9 \<le> unat t0" using t0 T by linarith
  define n where "n = (unat t0 + 2 * unat spc + (k + unat fats) - 1) div (k + unat fats)"
  note fit = fat_size_fits [OF k_def N(1) bits N(3,5) t0_9 n_def]
  have sum: "unat (?t1 + ?t2 - 1) = unat t0 + 2 * unat spc + (k + unat fats) - 1"
  proof -
    have "unat (?t1 + ?t2) = unat t0 + 2 * unat spc + (k + unat fats)"
      using N k_le unsigned_less [of t0, where 'a = nat]
      by (subst unat_word_ariths(1)) (simp add: t1 t2)
    then show ?thesis using fit(3) by (simp add: unat_sub word_le_nat_alt)
  qed
  have "n < 2 ^ 32"
  proof -
    have "n \<le> (unat t0 + 2 * unat spc + (k + unat fats) - 1) div 128"
      unfolding n_def using fit(3) by (intro div_le_mono2) auto
    then show ?thesis using N k_le unsigned_less [of t0, where 'a = nat] by simp
  qed
  moreover have "unat ((?t1 + ?t2 - 1) div ?t2) = n" by (simp only: unat_div sum t2 n_def)
  ultimately have "unat spf = n"
    unfolding spf unsigned_ucast_eq by (simp add: take_bit_nat_eq_self)
  then show ?thesis using fit t0 T by (simp add: bits_def)
qed

section \<open>Properties\<close>

text \<open>
  Property C26. The boot sector round trip on the kernel's disk: a boot sector that the format can express is
  written as 512 bytes at the cursor, every other byte of the disk keeps its value, and reading
  from the same place gives the same boot sector back.
\<close>

theorem BootSector_roundtrip:
  assumes "BootSector_wf boot" "disk_ok dev cap s" "disk_cursor s + 512 \<le> 512 * unat cap" "disk_cursor s < 2 ^ 64"
  shows "\<exists>s1 s2 s3. BootSector_serialize boot disk_stream s = Some (Inr (), s1)
    \<and> disk_img dev cap s1 = patch (disk_img dev cap s) (disk_cursor s) (BootSector_bytes boot)
    \<and> length (BootSector_bytes boot) = 512
    \<and> st_seek disk_stream (Start (word_of_nat (disk_cursor s))) s1 = Some (Inr (word_of_nat (disk_cursor s)), s2)
    \<and> BootSector_deserialize disk_stream s2 = Some (Inr boot, s3) \<and> disk_img dev cap s3 = disk_img dev cap s1"
  using disk.write_then_read [OF disk.BootSector_serialize_emits disk.BootSector_deserialize_parses [OF assms(1)] assms(2) _ _ assms(4)]
    length_BootSector_bytes [OF assms(1)] assms(3) by auto

definition default_format_options :: FormatVolumeOptions where
  "default_format_options = \<lparr>fo_bytes_per_sector = None, fo_total_sectors = None, fo_bytes_per_cluster = None,
     fo_fat_type = None, fo_max_root_dir_entries = None, fo_fats = None, fo_media = None,
     fo_sectors_per_track = None, fo_heads = None, fo_drive_num = None, fo_volume_id = None,
     fo_volume_label = None\<rparr>"

definition example_boot :: BootSector where
  "example_boot = (case format_boot_sector default_format_options 131072 512 of
     Some (Inr (boot, _)) \<Rightarrow> boot | _ \<Rightarrow> BootSector_default)"

lemma example_boot_wf: "BootSector_wf example_boot"
  by code_simp

lemma ram_disk_ok: "disk_ok ram_device cap (ram_driver, ram_sys)"
  by (simp add: disk_ok_def ram_driver_ok) (simp add: ram_driver_def)

theorem BootSector_roundtrip_witness:
  "\<exists>s1 s2 s3. BootSector_serialize example_boot disk_stream (ram_driver, ram_sys) = Some (Inr (), s1)
    \<and> st_seek disk_stream (Start 510) s1 = Some (Inr 510, s2)
    \<and> BootSector_deserialize disk_stream s2 = Some (Inr example_boot, s3)"
proof -
  have c: "disk_cursor (ram_driver, ram_sys) = 510" by (simp add: disk_cursor_def ram_driver_pos)
  have "disk_cursor (ram_driver, ram_sys) + 512 \<le> 512 * unat (4::u64)" "disk_cursor (ram_driver, ram_sys) < 2 ^ 64"
    by (simp_all add: c)
  from BootSector_roundtrip [OF example_boot_wf ram_disk_ok this] show ?thesis by (auto simp: c)
qed

text \<open>
  Property C27. The FAT of a new volume is large enough. For every geometry that \<^verbatim>\<open>try_fs_geometry\<close> accepts, with
  one or two FATs and the sector and cluster sizes the format allows, the reserved area, the root
  directory and the FATs fit into the volume, and each FAT has an entry for every cluster of the
  remaining space and the two reserved ones, at 12, 16 or 32 bits per entry.
\<close>

theorem format_fat_large_enough:
  assumes "try_fs_geometry total_sectors bytes_per_sector sectors_per_cluster fat_type root_dir_sectors fats
      = Some (Inr (reserved_sectors, sectors_per_fat))"
    and "sectors_per_cluster \<noteq> 0" "sectors_per_cluster \<le> 128" "512 \<le> bytes_per_sector" "bytes_per_sector \<le> 4096"
    and "fats \<le> 2" "root_dir_sectors \<le> 0x10000"
  shows "unat reserved_sectors + unat root_dir_sectors + unat sectors_per_fat * unat fats \<le> unat total_sectors
    \<and> ((unat total_sectors - (unat reserved_sectors + unat root_dir_sectors + unat sectors_per_fat * unat fats))
        div unat sectors_per_cluster + 2) * unat (bits_per_fat_entry fat_type)
      \<le> unat sectors_per_fat * unat bytes_per_sector * 8"
  using assms by (rule try_fs_geometry_fits)

theorem format_fat_large_enough_witness:
  "try_fs_geometry 131072 512 4 Fat16 32 2 = Some (Inr (1, 128))
   \<and> ((131072 - (1 + 32 + 128 * 2)) div 4 + 2) * 16 \<le> (128 * 512 * 8 :: nat)"
proof -
  have "try_fs_geometry 131072 512 4 Fat16 32 2 = Some (Inr (1, 128))" by code_simp
  with format_fat_large_enough [OF this] show ?thesis by (simp add: bits_per_fat_entry_def)
qed

end
