(* ===== verification/Fat_Slice.thy ===== *)
theory Fat_Slice
  imports Fat_Boot
begin

text \<open>
  A window of the storage as a stream of its own (\<^verbatim>\<open>DiskSlice\<close> of \<^verbatim>\<open>rust-fatfs/src/fs.rs\<close>): the file
  allocation table, whose writes go to all its copies, and the root directory of FAT12 and FAT16.

  The interface \<^verbatim>\<open>region\<close> is what the table and directory code relies on: an array of bytes of a
  fixed size with a cursor, short reads and writes at its end, and nothing else touched. A slice of
  any storage that implements \<^verbatim>\<open>byte_io\<close> implements it.
\<close>

section \<open>Slices\<close>

record DiskSlice =
  ds_begin :: u64
  ds_size :: u64
  ds_offset :: u64
  ds_mirrors :: u8

definition DiskSlice_new :: "u64 \<Rightarrow> u64 \<Rightarrow> u8 \<Rightarrow> DiskSlice" where
  "DiskSlice_new begin sz mirrors = \<lparr>ds_begin = begin, ds_size = sz, ds_offset = 0, ds_mirrors = mirrors\<rparr>"

definition DiskSlice_from_sectors :: "u32 \<Rightarrow> u32 \<Rightarrow> u8 \<Rightarrow> BiosParameterBlock \<Rightarrow> DiskSlice" where
  "DiskSlice_from_sectors first_sector sector_count mirrors bpb =
     DiskSlice_new (BPB_bytes_from_sectors bpb first_sector) (BPB_bytes_from_sectors bpb sector_count) mirrors"

definition DiskSlice_abs_pos :: "DiskSlice \<Rightarrow> u64" where
  "DiskSlice_abs_pos self = ds_begin self + ds_offset self"

text \<open>A computation on the inner stream, run below the slice.\<close>

definition io_inner :: "('s, 'a) fat_io \<Rightarrow> ('t \<times> 's, 'a) fat_io" where
  "io_inner m = (\<lambda>(self, s). do { (r, s) \<leftarrow> m s; Some (r, (self, s)) })"

definition io_self :: "('t \<Rightarrow> 't) \<Rightarrow> ('t \<times> 's, unit) fat_io" where
  "io_self f = (\<lambda>(self, s). Some (Inr (), (f self, s)))"

definition DiskSlice_read :: "'s stream \<Rightarrow> nat \<Rightarrow> (DiskSlice \<times> 's, u8 list) fat_io" where
  "DiskSlice_read st len = (\<lambda>(self, s). (
     let offset = ds_begin self + ds_offset self;
         read_size = unat (min (ds_size self - ds_offset self) (word_of_nat len)) in
     io_bind (io_inner (st_seek st (Start offset))) (\<lambda>_.
     io_bind (io_inner (st_read st read_size)) (\<lambda>buf.
     io_bind (io_self (\<lambda>self. self\<lparr>ds_offset := ds_offset self + word_of_nat (length buf)\<rparr>)) (\<lambda>_.
     io_return buf)))) (self, s))"

fun write_mirrors :: "'s stream \<Rightarrow> u64 \<Rightarrow> u64 \<Rightarrow> u8 list \<Rightarrow> nat list \<Rightarrow> ('s, unit) fat_io" where
  "write_mirrors st offset sz buf [] = io_return ()"
| "write_mirrors st offset sz buf (i # is) =
     io_bind (st_seek st (Start (offset + word_of_nat i * sz))) (\<lambda>_.
     io_bind (write_all st buf) (\<lambda>_.
     write_mirrors st offset sz buf is))"

definition DiskSlice_write :: "'s stream \<Rightarrow> u8 list \<Rightarrow> (DiskSlice \<times> 's, nat) fat_io" where
  "DiskSlice_write st buf = (\<lambda>(self, s). (
     let offset = ds_begin self + ds_offset self;
         write_size = unat (min (ds_size self - ds_offset self) (word_of_nat (length buf))) in
     if write_size = 0 then io_return 0
     else
       io_bind (io_inner (write_mirrors st offset (ds_size self) (take write_size buf) [0 ..< unat (ds_mirrors self)])) (\<lambda>_.
       io_bind (io_self (\<lambda>self. self\<lparr>ds_offset := ds_offset self + word_of_nat write_size\<rparr>)) (\<lambda>_.
       io_return write_size))) (self, s))"

definition DiskSlice_flush :: "'s stream \<Rightarrow> (DiskSlice \<times> 's, unit) fat_io" where
  "DiskSlice_flush st = io_inner (st_flush st)"

text \<open>
  \<^verbatim>\<open>i64::try_from\<close>, the checked signed addition and \<^verbatim>\<open>u64::try_from\<close>, on the mathematical values.
\<close>

definition u64_add_i64 :: "u64 \<Rightarrow> u64 \<Rightarrow> u64 option" where
  "u64_add_i64 n x =
     (if unat n < 2 ^ 63 \<and> int (unat n) + sint x < 2 ^ 63 \<and> 0 \<le> int (unat n) + sint x
      then Some (word_of_int (int (unat n) + sint x)) else None)"

definition DiskSlice_seek :: "SeekFrom \<Rightarrow> (DiskSlice \<times> 's, u64) fat_io" where
  "DiskSlice_seek pos = (\<lambda>(self, s).
     case (case pos of
         Current x \<Rightarrow> u64_add_i64 (ds_offset self) x
       | Start x \<Rightarrow> Some x
       | End x \<Rightarrow> u64_add_i64 (ds_size self) x) of
       Some new_offset \<Rightarrow>
         if new_offset > ds_size self then Some (Inl InvalidInput, (self, s))
         else Some (Inr new_offset, (self\<lparr>ds_offset := new_offset\<rparr>, s))
     | None \<Rightarrow> Some (Inl InvalidInput, (self, s)))"

definition slice_stream :: "'s stream \<Rightarrow> (DiskSlice \<times> 's) stream" where
  "slice_stream st = \<lparr>st_read = DiskSlice_read st, st_write = DiskSlice_write st, st_flush = DiskSlice_flush st,
     st_seek = DiskSlice_seek, st_eof = UnexpectedEof, st_zero = WriteZero\<rparr>"

text \<open>The slice of the active file allocation table and its copies.\<close>

definition fat_slice :: "BiosParameterBlock \<Rightarrow> DiskSlice" where
  "fat_slice bpb =
     (let sectors_per_fat = BPB_sectors_per_fat bpb;
          mirroring_enabled = BPB_mirroring_enabled bpb;
          (fat_first_sector, mirrors) =
            (if mirroring_enabled then (BPB_reserved_sectors bpb, bpb_fats bpb)
             else
               let active_fat = ucast (BPB_active_fat bpb);
                   fat_first_sector = BPB_reserved_sectors bpb + active_fat * sectors_per_fat in
               (fat_first_sector, 1)) in
      DiskSlice_from_sectors fat_first_sector sectors_per_fat mirrors bpb)"

section \<open>The interface of a region\<close>

text \<open>
  An array of \<^term>\<open>sz\<close> bytes with a cursor. Reads and writes stop at its end, seeks beyond it are
  refused, and no operation changes \<^term>\<open>rest\<close>, what lies outside the region.
\<close>

locale region =
  fixes st :: "'s stream" and ok :: "'s \<Rightarrow> bool" and byte :: "'s \<Rightarrow> nat \<Rightarrow> u8" and off :: "'s \<Rightarrow> nat"
    and sz :: nat and rest :: "'s \<Rightarrow> 'r"
  assumes off_le: "ok s \<Longrightarrow> off s \<le> sz"
    and seek_in: "ok s \<Longrightarrow> unat x \<le> sz \<Longrightarrow> \<exists>s'. st_seek st (Start x) s = Some (Inr x, s') \<and> ok s'
      \<and> off s' = unat x \<and> byte s' = byte s \<and> rest s' = rest s"
    and seek_out: "ok s \<Longrightarrow> sz < unat x \<Longrightarrow> st_seek st (Start x) s = Some (Inl InvalidInput, s)"
    and read_law: "ok s \<Longrightarrow> n < 2 ^ 32 \<Longrightarrow> k = min n (sz - off s) \<Longrightarrow>
      \<exists>s'. st_read st n s = Some (Inr (bytes_at (byte s) (off s) k), s') \<and> ok s' \<and> off s' = off s + k
        \<and> byte s' = byte s \<and> rest s' = rest s"
    and write_law: "ok s \<Longrightarrow> length buf < 2 ^ 32 \<Longrightarrow> k = min (length buf) (sz - off s) \<Longrightarrow>
      \<exists>s'. st_write st buf s = Some (Inr k, s') \<and> ok s' \<and> off s' = off s + k
        \<and> byte s' = patch (byte s) (off s) (take k buf) \<and> rest s' = rest s"
    and flush_law: "ok s \<Longrightarrow> \<exists>s'. st_flush st s = Some (Inr (), s') \<and> ok s' \<and> off s' = off s
        \<and> byte s' = byte s \<and> rest s' = rest s"
begin

lemma read_exact_in:
  assumes "ok s" "n < 2 ^ 32" "off s + n \<le> sz"
  obtains s' where "read_exact st n s = Some (Inr (bytes_at (byte s) (off s) n), s')" "ok s'"
    "off s' = off s + n" "byte s' = byte s" "rest s' = rest s"
proof (cases "n = 0")
  case True
  then show ?thesis using that [of s] assms by (simp add: read_exact_def read_exact_loop.simps)
next
  case False
  have "n = min n (sz - off s)" using assms by simp
  from read_law [OF assms(1,2) this] obtain s' where s': "st_read st n s = Some (Inr (bytes_at (byte s) (off s) n), s')"
    "ok s'" "off s' = off s + n" "byte s' = byte s" "rest s' = rest s" by blast
  have "bytes_at (byte s) (off s) n \<noteq> []" using False length_bytes_at [of "byte s" "off s" n] by force
  then have "read_exact st n s = Some (Inr (bytes_at (byte s) (off s) n), s')"
    using False s'(1) unfolding read_exact_def
    by (subst read_exact_loop.simps) (simp add: read_exact_loop.simps)
  with s' that show ?thesis by blast
qed

lemma write_all_in:
  assumes "ok s" "length buf < 2 ^ 32" "off s + length buf \<le> sz"
  obtains s' where "write_all st buf s = Some (Inr (), s')" "ok s'" "off s' = off s + length buf"
    "byte s' = patch (byte s) (off s) buf" "rest s' = rest s"
proof (cases "buf = []")
  case True
  then show ?thesis using that [of s] assms by (simp add: write_all.simps)
next
  case False
  have "length buf = min (length buf) (sz - off s)" using assms by simp
  from write_law [OF assms(1,2) this] obtain s' where s': "st_write st buf s = Some (Inr (length buf), s')"
    "ok s'" "off s' = off s + length buf" "byte s' = patch (byte s) (off s) buf" "rest s' = rest s" by auto
  have "write_all st buf s = Some (Inr (), s')"
    using False s'(1) by (subst write_all.simps) (simp add: write_all.simps)
  with s' that show ?thesis by blast
qed

lemma read_u8_in:
  assumes "ok s" "off s + 1 \<le> sz"
  obtains s' where "read_u8 st s = Some (Inr (byte s (off s)), s')" "ok s'"
    "off s' = off s + 1" "byte s' = byte s" "rest s' = rest s"
proof -
  from read_exact_in [OF assms(1) _ assms(2)] obtain s' where
    s': "read_exact st 1 s = Some (Inr (bytes_at (byte s) (off s) 1), s')" "ok s'"
      "off s' = off s + 1" "byte s' = byte s" "rest s' = rest s" by (metis one_less_power one_less_numeral_iff semiring_norm(76) zero_less_numeral)
  then show ?thesis by (intro that [of s']) (simp_all add: read_u8_def)
qed

lemma read_u16_in:
  assumes "ok s" "off s + 2 \<le> sz"
  obtains s' where "read_u16_le st s = Some (Inr (u16_from_le_bytes (bytes_at (byte s) (off s) 2)), s')" "ok s'"
    "off s' = off s + 2" "byte s' = byte s" "rest s' = rest s"
proof -
  have "(2::nat) < 2 ^ 32" by simp
  from read_exact_in [OF assms(1) this assms(2)] obtain s' where
    s': "read_exact st 2 s = Some (Inr (bytes_at (byte s) (off s) 2), s')" "ok s'"
      "off s' = off s + 2" "byte s' = byte s" "rest s' = rest s" .
  then show ?thesis by (intro that [of s']) (simp_all add: read_u16_le_def)
qed

lemma read_u32_in:
  assumes "ok s" "off s + 4 \<le> sz"
  obtains s' where "read_u32_le st s = Some (Inr (u32_from_le_bytes (bytes_at (byte s) (off s) 4)), s')" "ok s'"
    "off s' = off s + 4" "byte s' = byte s" "rest s' = rest s"
proof -
  have "(4::nat) < 2 ^ 32" by simp
  from read_exact_in [OF assms(1) this assms(2)] obtain s' where
    s': "read_exact st 4 s = Some (Inr (bytes_at (byte s) (off s) 4), s')" "ok s'"
      "off s' = off s + 4" "byte s' = byte s" "rest s' = rest s" .
  then show ?thesis by (intro that [of s']) (simp_all add: read_u32_le_def)
qed

end

section \<open>A slice is a region\<close>

text \<open>The bytes \<^term>\<open>f\<close> with \<^term>\<open>buf\<close> put at \<^term>\<open>p\<close> in each of the copies, which are \<^term>\<open>z\<close> bytes long.\<close>

fun patches :: "(nat \<Rightarrow> u8) \<Rightarrow> nat \<Rightarrow> nat \<Rightarrow> u8 list \<Rightarrow> nat list \<Rightarrow> nat \<Rightarrow> u8" where
  "patches f p z buf [] = f"
| "patches f p z buf (i # is) = patches (patch f (p + i * z) buf) p z buf is"

lemma patches_cong: "f a = g a \<Longrightarrow> patches f p z buf is a = patches g p z buf is a"
proof (induction "is" arbitrary: f g)
  case (Cons i "is")
  have "patch f (p + i * z) buf a = patch g (p + i * z) buf a" using Cons.prems by (simp add: patch_def)
  from Cons.IH [of "patch f (p + i * z) buf" "patch g (p + i * z) buf", OF this] show ?case by simp
qed simp

lemma patches_out:
  "(\<And>i. i \<in> set is \<Longrightarrow> \<not> (p + i * z \<le> a \<and> a < p + i * z + length buf)) \<Longrightarrow> patches f p z buf is a = f a"
  by (induction "is" arbitrary: f) (auto simp: patch_def)

lemma patches_in:
  assumes "\<And>i. i \<in> set is \<Longrightarrow> p + i * z \<le> a \<Longrightarrow> a < p + i * z + length buf \<Longrightarrow> buf ! (a - (p + i * z)) = v"
    and "f a = v \<or> (\<exists>i\<in>set is. p + i * z \<le> a \<and> a < p + i * z + length buf)"
  shows "patches f p z buf is a = v"
  using assms
proof (induction "is" arbitrary: f)
  case (Cons i "is")
  have "patches (patch f (p + i * z) buf) p z buf is a = v"
  proof (rule Cons.IH)
    show "patch f (p + i * z) buf a = v \<or> (\<exists>i\<in>set is. p + i * z \<le> a \<and> a < p + i * z + length buf)"
      using Cons.prems by (auto simp: patch_def)
  qed (use Cons.prems in auto)
  then show ?case by simp
qed simp

context byte_io
begin

lemma write_mirrors_ok:
  assumes "ok s" "length buf < 2 ^ 32"
    and "\<And>i. i \<in> set is \<Longrightarrow> unat offset + i * unat z + length buf \<le> cap \<and> unat offset + i * unat z < 2 ^ 64"
  shows "\<exists>s'. write_mirrors st offset z buf is s = Some (Inr (), s') \<and> ok s' \<and> keep s' = keep s
    \<and> (\<forall>a. a \<notin> vol \<longrightarrow> img s' a = patches (img s) (unat offset) (unat z) buf is a)"
  using assms
proof (induction "is" arbitrary: s)
  case (Cons i "is")
  let ?p = "offset + word_of_nat i * z"
  have fit: "unat offset + i * unat z + length buf \<le> cap" "unat offset + i * unat z < 2 ^ 64"
    using Cons.prems(3) by simp_all
  have "?p = word_of_nat (unat offset + i * unat z)" by simp
  then have "unat ?p = (unat offset + i * unat z) mod 2 ^ LENGTH(64)" by (metis unat_of_nat)
  then have p: "unat ?p = unat offset + i * unat z" using fit(2) by simp
  from seek_law [OF Cons.prems(1), of ?p] obtain s1 where s1: "st_seek st (Start ?p) s = Some (Inr ?p, s1)" "ok s1"
    "pos s1 = unat ?p" "img s1 = img s" "keep s1 = keep s" by blast
  have "pos s1 + length buf \<le> cap" using s1 p fit by simp
  from write_all_ok [OF s1(2) Cons.prems(2) this] obtain s2 where s2: "write_all st buf s1 = Some (Inr (), s2)" "ok s2"
    "\<And>a. a \<notin> vol \<Longrightarrow> img s2 a = patch (img s1) (pos s1) buf a" "keep s2 = keep s1" by blast
  have "unat offset + j * unat z + length buf \<le> cap \<and> unat offset + j * unat z < 2 ^ 64" if "j \<in> set is" for j
    using Cons.prems(3) that by simp
  from Cons.IH [OF s2(2) Cons.prems(2) this] obtain s3 where
    s3: "write_mirrors st offset z buf is s2 = Some (Inr (), s3)" "ok s3" "keep s3 = keep s2"
      "\<And>a. a \<notin> vol \<Longrightarrow> img s3 a = patches (img s2) (unat offset) (unat z) buf is a" by blast
  have "img s3 a = patches (img s) (unat offset) (unat z) buf (i # is) a" if "a \<notin> vol" for a
  proof -
    have "img s2 a = patch (img s) (unat offset + i * unat z) buf a"
      using s2(3) [OF that] s1 p by simp
    then have "patches (img s2) (unat offset) (unat z) buf is a
        = patches (patch (img s) (unat offset + i * unat z) buf) (unat offset) (unat z) buf is a"
      by (rule patches_cong)
    then show ?thesis using s3(4) [OF that] by simp
  qed
  moreover have "write_mirrors st offset z buf (i # is) s = Some (Inr (), s3)" using s1(1) s2(1) s3(1) by simp
  ultimately show ?case using s1(5) s2(4) s3(2,3) by metis
qed simp

end

text \<open>
  The slice of \<^term>\<open>z\<close> bytes from \<^term>\<open>b\<close> on, in \<^term>\<open>m\<close> copies one behind the other, which hold the same
  bytes. The copies lie within the storage and apart from the addresses a write may disturb.
\<close>

definition slice_area :: "u64 \<Rightarrow> u64 \<Rightarrow> u8 \<Rightarrow> nat \<Rightarrow> bool" where
  "slice_area b z m a \<longleftrightarrow> unat b \<le> a \<and> a < unat b + unat m * unat z"

definition slice_fits :: "u64 \<Rightarrow> u64 \<Rightarrow> u8 \<Rightarrow> nat \<Rightarrow> nat set \<Rightarrow> bool" where
  "slice_fits b z m cap vol \<longleftrightarrow> m \<noteq> 0 \<and> unat b + unat m * unat z \<le> cap \<and> unat b + unat m * unat z < 2 ^ 64
     \<and> (\<forall>a\<in>vol. \<not> slice_area b z m a)"

definition slice_ok :: "('s \<Rightarrow> bool) \<Rightarrow> ('s \<Rightarrow> nat \<Rightarrow> u8) \<Rightarrow> nat \<Rightarrow> nat set \<Rightarrow> u64 \<Rightarrow> u64 \<Rightarrow> u8 \<Rightarrow> DiskSlice \<times> 's \<Rightarrow> bool" where
  "slice_ok ok img cap vol b z m = (\<lambda>(self, s). ds_begin self = b \<and> ds_size self = z \<and> ds_mirrors self = m
     \<and> ds_offset self \<le> z \<and> slice_fits b z m cap vol \<and> ok s
     \<and> (\<forall>i<unat m. \<forall>a<unat z. img s (unat b + i * unat z + a) = img s (unat b + a)))"

definition slice_byte :: "('s \<Rightarrow> nat \<Rightarrow> u8) \<Rightarrow> u64 \<Rightarrow> u64 \<Rightarrow> DiskSlice \<times> 's \<Rightarrow> nat \<Rightarrow> u8" where
  "slice_byte img b z = (\<lambda>(self, s) a. if a < unat z then img s (unat b + a) else 0)"

definition slice_off :: "DiskSlice \<times> 's \<Rightarrow> nat" where
  "slice_off = (\<lambda>(self, s). unat (ds_offset self))"

definition slice_rest :: "('s \<Rightarrow> nat \<Rightarrow> u8) \<Rightarrow> ('s \<Rightarrow> 'k) \<Rightarrow> nat set \<Rightarrow> u64 \<Rightarrow> u64 \<Rightarrow> u8 \<Rightarrow> DiskSlice \<times> 's \<Rightarrow> 'k \<times> (nat \<Rightarrow> u8)" where
  "slice_rest img keep vol b z m = (\<lambda>(self, s). (keep s, \<lambda>a. if a \<in> vol \<or> slice_area b z m a then 0 else img s a))"

lemmas slice_defs = slice_ok_def slice_byte_def slice_off_def slice_rest_def

lemma mirror_address:
  fixes i j z :: nat
  assumes "i * z + a = j * z + b" "a < z" "b < z"
  shows "i = j" "a = b"
proof -
  have "(i * z + a) div z = i" using assms(2) by simp
  moreover have "(j * z + b) div z = j" using assms(3) by simp
  ultimately show "i = j" using assms(1) by metis
  then show "a = b" using assms(1) by simp
qed

lemma mirror_fits:
  fixes i m z :: nat
  assumes "i < m" "a \<le> z"
  shows "i * z + a \<le> m * z"
proof -
  have "Suc i * z \<le> m * z" using assms(1) by (intro mult_le_mono1) simp
  then show ?thesis using assms(2) by simp
qed

text \<open>A write at the offset \<^term>\<open>q\<close> of each copy, byte by byte.\<close>

lemma patches_mirrors:
  assumes "q + length buf \<le> z" "i < m" "a < z"
  shows "patches f (b + q) z buf [0 ..< m] (b + i * z + a)
    = (if q \<le> a \<and> a < q + length buf then buf ! (a - q) else f (b + i * z + a))"
proof (cases "q \<le> a \<and> a < q + length buf")
  case True
  have v: "buf ! (b + i * z + a - (b + q + j * z)) = buf ! (a - q)"
    if "b + q + j * z \<le> b + i * z + a" "b + i * z + a < b + q + j * z + length buf" for j
  proof -
    define d where "d = b + i * z + a - (b + q + j * z)"
    have "i * z + a = j * z + (q + d)" "q + d < z" using that assms(1) by (simp_all add: d_def)
    then have "i = j" "a = q + d" using mirror_address [of i z a j "q + d"] assms(3) by simp_all
    then show ?thesis by simp
  qed
  have "b + q + i * z \<le> b + i * z + a \<and> b + i * z + a < b + q + i * z + length buf" using True by simp
  with assms(2) have "\<exists>j\<in>set [0..<m]. b + q + j * z \<le> b + i * z + a \<and> b + i * z + a < b + q + j * z + length buf"
    by (intro bexI [of _ i]) simp_all
  with v have "patches f (b + q) z buf [0 ..< m] (b + i * z + a) = buf ! (a - q)" by (intro patches_in) simp_all
  with True show ?thesis by simp
next
  case False
  have "\<not> (b + q + j * z \<le> b + i * z + a \<and> b + i * z + a < b + q + j * z + length buf)" for j
  proof
    assume in_range: "b + q + j * z \<le> b + i * z + a \<and> b + i * z + a < b + q + j * z + length buf"
    define d where "d = b + i * z + a - (b + q + j * z)"
    have d: "i * z + a = j * z + (q + d)" "d < length buf" using in_range unfolding d_def by linarith+
    then have "a = q + d" using mirror_address(2) [of i z a j "q + d"] assms(1,3) by simp
    with d(2) False show False by simp
  qed
  then have "patches f (b + q) z buf [0 ..< m] (b + i * z + a) = f (b + i * z + a)" by (intro patches_out) blast
  with False show ?thesis by auto
qed

lemma patches_beside:
  assumes "q + length buf \<le> z" "a < b \<or> b + m * z \<le> a"
  shows "patches f (b + q) z buf [0 ..< m] a = f a"
proof (rule patches_out)
  fix i assume "i \<in> set [0 ..< m]"
  then have "i * z + (q + length buf) \<le> m * z" using mirror_fits [of i m "q + length buf" z] assms(1) by simp
  then show "\<not> (b + q + i * z \<le> a \<and> a < b + q + i * z + length buf)" using assms(2) by linarith
qed

lemma slice_fits_first:
  assumes "slice_fits b z m cap vol"
  shows "unat b + unat z \<le> cap" "unat b + unat z < 2 ^ 64"
proof -
  have "0 < unat m" using assms by (simp add: slice_fits_def unat_gt_0)
  then have "0 * unat z + unat z \<le> unat m * unat z" by (intro mirror_fits) simp_all
  with assms show "unat b + unat z \<le> cap" "unat b + unat z < 2 ^ 64" unfolding slice_fits_def by linarith+
qed

context byte_io
begin

lemma slice_seek:
  assumes "slice_ok ok img cap vol b z m s"
  shows "unat x \<le> unat z \<Longrightarrow> \<exists>s'. st_seek (slice_stream st) (Start x) s = Some (Inr x, s') \<and> slice_ok ok img cap vol b z m s'
      \<and> slice_off s' = unat x \<and> slice_byte img b z s' = slice_byte img b z s \<and> slice_rest img keep vol b z m s' = slice_rest img keep vol b z m s"
    and "unat z < unat x \<Longrightarrow> st_seek (slice_stream st) (Start x) s = Some (Inl InvalidInput, s)"
  using assms
  by (cases s; simp add: slice_stream_def DiskSlice_seek_def slice_defs word_le_nat_alt word_less_nat_alt)+

lemma slice_read:
  assumes ok: "slice_ok ok img cap vol b z m s" and n: "n < 2 ^ 32" and k: "k = min n (unat z - slice_off s)"
  shows "\<exists>s'. st_read (slice_stream st) n s = Some (Inr (bytes_at (slice_byte img b z s) (slice_off s) k), s') \<and> slice_ok ok img cap vol b z m s'
    \<and> slice_off s' = slice_off s + k \<and> slice_byte img b z s' = slice_byte img b z s \<and> slice_rest img keep vol b z m s' = slice_rest img keep vol b z m s"
proof -
  obtain self t where s: "s = (self, t)" by (cases s)
  have self: "ds_begin self = b" "ds_size self = z" "ds_mirrors self = m" "ds_offset self \<le> z" "slice_fits b z m cap vol" "ok t"
    and sync: "\<forall>i<unat m. \<forall>a<unat z. img t (unat b + i * unat z + a) = img t (unat b + a)"
    using ok by (simp_all add: s slice_ok_def)
  note fits = slice_fits_first [OF self(5)]
  have o: "unat (ds_offset self) \<le> unat z" using self(4) by (simp add: word_le_nat_alt)
  let ?p = "b + ds_offset self"
  have p: "unat ?p = unat b + unat (ds_offset self)" using o fits(2) by (simp add: unat_word_ariths)
  have "unat (word_of_nat n :: u64) = n" using n by (simp add: unat_of_nat take_bit_nat_eq_self)
  moreover have "unat (z - ds_offset self) = unat z - unat (ds_offset self)" using self(4) by (simp add: unat_sub)
  ultimately have rs: "unat (min (z - ds_offset self) (word_of_nat n)) = k"
    using k by (auto simp: min_def word_le_nat_alt s slice_off_def)
  from seek_law [OF self(6), of ?p] obtain t1 where t1: "st_seek st (Start ?p) t = Some (Inr ?p, t1)" "ok t1"
    "pos t1 = unat ?p" "img t1 = img t" "keep t1 = keep t" by blast
  have kz: "unat (ds_offset self) + k \<le> unat z" using k o by (simp add: s slice_off_def)
  then have "k < 2 ^ 32" "pos t1 + k \<le> cap" using n k p t1(3) fits by simp_all
  from byte_io.read_law [OF byte_io_axioms t1(2) this] obtain t2 where t2: "st_read st k t1 = Some (Inr (bytes_at (img t1) (pos t1) k), t2)" "ok t2"
    "img t2 = img t1" "keep t2 = keep t1" by blast
  define self2 where "self2 = self\<lparr>ds_offset := ds_offset self + word_of_nat k\<rparr>"
  have "ds_offset self + word_of_nat k = word_of_nat (unat (ds_offset self) + k)" by simp
  moreover have "unat (ds_offset self) + k < 2 ^ 64" using kz unsigned_less [of z, where 'a = nat] by simp
  ultimately have off2: "unat (ds_offset self2) = unat (ds_offset self) + k"
    by (simp add: self2_def unat_of_nat del: of_nat_add)
  have "bytes_at (img t1) (pos t1) k = bytes_at (slice_byte img b z s) (slice_off s) k"
    using kz p t1(3,4) by (intro nth_equalityI) (simp_all add: slice_byte_def slice_off_def s ac_simps)
  then have run: "st_read (slice_stream st) n s = Some (Inr (bytes_at (slice_byte img b z s) (slice_off s) k), (self2, t2))"
    using t1(1) t2(1) self rs by (simp add: slice_stream_def DiskSlice_read_def s Let_def io_inner_def io_self_def io_bind_def self2_def)
  have "slice_ok ok img cap vol b z m (self2, t2)"
    using self sync t1 t2 kz off2 by (simp add: slice_ok_def self2_def word_le_nat_alt)
  moreover have "slice_off (self2, t2) = slice_off s + k" using off2 by (simp add: slice_off_def s)
  ultimately show ?thesis using run t1 t2 by (intro exI [of _ "(self2, t2)"]) (simp add: slice_byte_def slice_rest_def s cong: if_cong)
qed

lemma slice_write:
  assumes ok: "slice_ok ok img cap vol b z m s" and n: "length buf < 2 ^ 32" and k: "k = min (length buf) (unat z - slice_off s)"
  shows "\<exists>s'. st_write (slice_stream st) buf s = Some (Inr k, s') \<and> slice_ok ok img cap vol b z m s' \<and> slice_off s' = slice_off s + k
    \<and> slice_byte img b z s' = patch (slice_byte img b z s) (slice_off s) (take k buf) \<and> slice_rest img keep vol b z m s' = slice_rest img keep vol b z m s"
proof -
  obtain self t where s: "s = (self, t)" by (cases s)
  have self: "ds_begin self = b" "ds_size self = z" "ds_mirrors self = m" "ds_offset self \<le> z" "slice_fits b z m cap vol" "ok t"
    and sync: "\<And>i a. i < unat m \<Longrightarrow> a < unat z \<Longrightarrow> img t (unat b + i * unat z + a) = img t (unat b + a)"
    using ok by (simp_all add: s slice_ok_def)
  have m: "0 < unat m" using self(5) by (simp add: slice_fits_def unat_gt_0)
  note fits = slice_fits_first [OF self(5)]
  define q where "q = unat (ds_offset self)"
  have q: "slice_off s = q" "q \<le> unat z" using self(4) by (simp_all add: s slice_off_def q_def word_le_nat_alt)
  have p: "unat (b + ds_offset self) = unat b + q" using q(2) fits(2) by (simp add: unat_word_ariths q_def)
  have "unat (word_of_nat (length buf) :: u64) = length buf" using n by (simp add: unat_of_nat take_bit_nat_eq_self)
  moreover have "unat (z - ds_offset self) = unat z - q" using self(4) by (simp add: unat_sub q_def)
  ultimately have ws: "unat (min (z - ds_offset self) (word_of_nat (length buf))) = k"
    using k q(1) by (auto simp: min_def word_le_nat_alt)
  have kz: "q + k \<le> unat z" "k \<le> length buf" using k q by simp_all
  show ?thesis
  proof (cases "k = 0")
    case True
    then have "st_write (slice_stream st) buf s = Some (Inr k, s)"
      using ws self by (simp add: slice_stream_def DiskSlice_write_def s Let_def)
    with True ok show ?thesis by (intro exI [of _ s]) simp
  next
    case False
    let ?buf = "take k buf"
    have len: "length ?buf = k" "length ?buf < 2 ^ 32" using kz n by simp_all
    have bnd: "unat (b + ds_offset self) + i * unat z + length ?buf \<le> cap \<and> unat (b + ds_offset self) + i * unat z < 2 ^ 64"
      if "i \<in> set [0 ..< unat m]" for i
      using mirror_fits [of i "unat m" "q + k" "unat z"] that kz(1) self(5) len(1) unfolding p slice_fits_def by auto
    from write_mirrors_ok [OF self(6) len(2) bnd] obtain t' where
      t': "write_mirrors st (b + ds_offset self) z ?buf [0 ..< unat m] t = Some (Inr (), t')" "ok t'" "keep t' = keep t"
        "\<And>a. a \<notin> vol \<Longrightarrow> img t' a = patches (img t) (unat b + q) (unat z) ?buf [0 ..< unat m] a" unfolding p by blast
    define self2 where "self2 = self\<lparr>ds_offset := ds_offset self + word_of_nat k\<rparr>"
    have "ds_offset self + word_of_nat k = word_of_nat (q + k)" by (simp add: q_def)
    moreover have "q + k < 2 ^ 64" using kz unsigned_less [of z, where 'a = nat] by simp
    ultimately have off2: "unat (ds_offset self2) = q + k" by (simp add: self2_def unat_of_nat del: of_nat_add)
    have run: "st_write (slice_stream st) buf s = Some (Inr k, (self2, t'))"
      using t'(1) self ws False
      by (simp add: slice_stream_def DiskSlice_write_def s Let_def io_inner_def io_self_def io_bind_def self2_def)
    have novol: "unat b + i * unat z + a \<notin> vol" if "i < unat m" "a < unat z" for i a
      using mirror_fits [of i "unat m" "Suc a" "unat z"] that self(5) by (auto simp: slice_fits_def slice_area_def)
    have img': "img t' (unat b + i * unat z + a) = (if q \<le> a \<and> a < q + k then ?buf ! (a - q) else img t (unat b + a))"
      if "i < unat m" "a < unat z" for i a
      using t'(4) [OF novol [OF that]] patches_mirrors [of q ?buf "unat z" i "unat m" a "img t" "unat b"] that kz len(1) sync [OF that]
      by simp
    have first: "img t' (unat b + a) = (if q \<le> a \<and> a < q + k then ?buf ! (a - q) else img t (unat b + a))" if "a < unat z" for a
      using img' [OF m that] by simp
    have "slice_ok ok img cap vol b z m (self2, t')"
      using self t'(2) kz(1) off2 img' first by (simp add: slice_ok_def self2_def word_le_nat_alt)
    moreover have "slice_off (self2, t') = slice_off s + k" using off2 q by (simp add: slice_off_def)
    moreover have "slice_byte img b z (self2, t') = patch (slice_byte img b z s) (slice_off s) ?buf"
      using first kz len(1) q by (auto simp: fun_eq_iff slice_byte_def s patch_def)
    moreover have "img t' a = img t a" if "a \<notin> vol" "\<not> slice_area b z m a" for a
      using t'(4) [OF that(1)] patches_beside [of q ?buf "unat z" a "unat b" "unat m" "img t"] that(2) kz len(1)
      by (auto simp: slice_area_def not_le not_less)
    then have "slice_rest img keep vol b z m (self2, t') = slice_rest img keep vol b z m s"
      using t'(3) by (auto simp: slice_rest_def s fun_eq_iff)
    ultimately show ?thesis using run by blast
  qed
qed

lemma slice_flush:
  assumes "slice_ok ok img cap vol b z m s"
  shows "\<exists>s'. st_flush (slice_stream st) s = Some (Inr (), s') \<and> slice_ok ok img cap vol b z m s' \<and> slice_off s' = slice_off s
    \<and> slice_byte img b z s' = slice_byte img b z s \<and> slice_rest img keep vol b z m s' = slice_rest img keep vol b z m s"
proof -
  obtain self t where s: "s = (self, t)" by (cases s)
  have "ok t" using assms by (simp add: s slice_ok_def)
  from flush_law [OF this] obtain t' where "st_flush st t = Some (Inr (), t')" "ok t'" "img t' = img t" "keep t' = keep t" by blast
  with assms show ?thesis by (intro exI [of _ "(self, t')"]) (simp add: s slice_stream_def DiskSlice_flush_def io_inner_def slice_defs cong: if_cong)
qed

end

sublocale byte_io \<subseteq> slice: region "slice_stream st" "slice_ok ok img cap vol b z m" "slice_byte img b z" slice_off
    "unat z" "slice_rest img keep vol b z m" for b z m
proof
  fix s assume ok: "slice_ok ok img cap vol b z m s"
  show "slice_off s \<le> unat z" using ok by (auto simp: slice_ok_def slice_off_def word_le_nat_alt split: prod.splits)
qed (fact slice_seek slice_read slice_write slice_flush)+

end
