(* ===== verification/Fat_Table.thy ===== *)
theory Fat_Table
  imports Fat_Slice
begin

text \<open>
  The file allocation table (\<^verbatim>\<open>rust-fatfs/src/table.rs\<close>): entries of 12, 16 and 32 bits, the search
  for free clusters, allocation, and the iterator that walks, truncates and frees cluster chains.

  The table is read and written through a stream. In the interface \<^verbatim>\<open>region\<close> every operation is
  shown to act on the table as a function from clusters to values.
\<close>

section \<open>Entries\<close>

datatype FatValue = Free | Data u32 | Bad | EndOfChain

text \<open>The three instances of \<^verbatim>\<open>FatTrait\<close>.\<close>

definition Fat12_get_raw :: "'s stream \<Rightarrow> u32 \<Rightarrow> ('s, u32) fat_io" where
  "Fat12_get_raw fat cluster =
     (let fat_offset = cluster + cluster div 2 in
      io_bind (st_seek fat (Start (ucast fat_offset))) (\<lambda>_.
      io_bind (read_u16_le fat) (\<lambda>packed_val.
      io_return (ucast (if cluster AND 1 = 0 then packed_val AND 0x0FFF else drop_bit 4 packed_val)))))"

definition Fat12_get :: "'s stream \<Rightarrow> u32 \<Rightarrow> ('s, FatValue) fat_io" where
  "Fat12_get fat cluster =
     io_bind (Fat12_get_raw fat cluster) (\<lambda>val.
     io_return (if val = 0 then Free
       else if val = 0xFF7 then Bad
       else if 0xFF8 \<le> val \<and> val \<le> 0xFFF then EndOfChain
       else Data val))"

definition Fat12_set_raw :: "'s stream \<Rightarrow> u32 \<Rightarrow> u32 \<Rightarrow> ('s, unit) fat_io" where
  "Fat12_set_raw fat cluster raw_val =
     (let fat_offset = cluster + cluster div 2 in
      io_bind (st_seek fat (Start (ucast fat_offset))) (\<lambda>_.
      io_bind (read_u16_le fat) (\<lambda>old_packed.
      io_bind (st_seek fat (Start (ucast fat_offset))) (\<lambda>_.
      (let new_packed = (if cluster AND 1 = 0 then (old_packed AND 0xF000) OR ucast raw_val
           else (old_packed AND 0x000F) OR push_bit 4 (ucast raw_val)) in
       write_u16_le fat new_packed)))))"

definition Fat12_set :: "'s stream \<Rightarrow> u32 \<Rightarrow> FatValue \<Rightarrow> ('s, unit) fat_io" where
  "Fat12_set fat cluster val =
     (let raw_val = (case val of Free \<Rightarrow> 0 | Bad \<Rightarrow> 0xFF7 | EndOfChain \<Rightarrow> 0xFFF | Data n \<Rightarrow> n) in
      Fat12_set_raw fat cluster raw_val)"

partial_function (option) Fat12_find_free_loop :: "'s stream \<Rightarrow> u32 \<Rightarrow> u32 \<Rightarrow> u16 \<Rightarrow> ('s, u32) fat_io" where
  "Fat12_find_free_loop fat end_cluster cluster packed_val s =
     (let val = (if cluster AND 1 = 0 then packed_val AND 0x0FFF else drop_bit 4 packed_val) in
      if val = 0 then io_return cluster s
      else
        let cluster = cluster + 1 in
        if cluster = end_cluster then io_err NotEnoughSpace s
        else
          io_bind (if cluster AND 1 = 0 then read_u16_le fat
            else io_bind (read_u8 fat) (\<lambda>next_byte. io_return (drop_bit 8 packed_val OR push_bit 8 (ucast next_byte))))
            (\<lambda>packed_val. Fat12_find_free_loop fat end_cluster cluster packed_val) s)"

definition Fat12_find_free :: "'s stream \<Rightarrow> u32 \<Rightarrow> u32 \<Rightarrow> ('s, u32) fat_io" where
  "Fat12_find_free fat start_cluster end_cluster =
     (let cluster = start_cluster;
          fat_offset = cluster + cluster div 2 in
      io_bind (st_seek fat (Start (ucast fat_offset))) (\<lambda>_.
      io_bind (read_u16_le fat) (\<lambda>packed_val.
      Fat12_find_free_loop fat end_cluster cluster packed_val)))"

partial_function (option) Fat12_count_free_loop :: "'s stream \<Rightarrow> u32 \<Rightarrow> u32 \<Rightarrow> u16 \<Rightarrow> u32 \<Rightarrow> ('s, u32) fat_io" where
  "Fat12_count_free_loop fat end_cluster cluster prev_packed_val count s =
     (if cluster < end_cluster then
        io_bind (if cluster AND 1 = 0 then read_u16_le fat
          else io_bind (read_u8 fat) (\<lambda>n. io_return (ucast n)))
          (\<lambda>packed_val s.
            let val = (if cluster AND 1 = 0 then packed_val AND 0x0FFF
                  else push_bit 8 packed_val OR drop_bit 12 prev_packed_val);
                prev_packed_val = packed_val;
                count = (if val = 0 then count + 1 else count) in
            Fat12_count_free_loop fat end_cluster (cluster + 1) prev_packed_val count s) s
      else io_return count s)"

definition Fat12_count_free :: "'s stream \<Rightarrow> u32 \<Rightarrow> ('s, u32) fat_io" where
  "Fat12_count_free fat end_cluster =
     (let count = 0; cluster = RESERVED_FAT_ENTRIES in
      io_bind (st_seek fat (Start (ucast (cluster * 3 div 2)))) (\<lambda>_.
      let prev_packed_val = 0 in
      Fat12_count_free_loop fat end_cluster cluster prev_packed_val count))"

definition Fat16_get_raw :: "'s stream \<Rightarrow> u32 \<Rightarrow> ('s, u32) fat_io" where
  "Fat16_get_raw fat cluster =
     io_bind (st_seek fat (Start (ucast (cluster * 2)))) (\<lambda>_.
     io_bind (read_u16_le fat) (\<lambda>n. io_return (ucast n)))"

definition Fat16_get :: "'s stream \<Rightarrow> u32 \<Rightarrow> ('s, FatValue) fat_io" where
  "Fat16_get fat cluster =
     io_bind (Fat16_get_raw fat cluster) (\<lambda>val.
     io_return (if val = 0 then Free
       else if val = 0xFFF7 then Bad
       else if 0xFFF8 \<le> val \<and> val \<le> 0xFFFF then EndOfChain
       else Data val))"

definition Fat16_set_raw :: "'s stream \<Rightarrow> u32 \<Rightarrow> u32 \<Rightarrow> ('s, unit) fat_io" where
  "Fat16_set_raw fat cluster raw_value =
     io_bind (st_seek fat (Start (ucast (cluster * 2)))) (\<lambda>_.
     write_u16_le fat (ucast raw_value))"

definition Fat16_set :: "'s stream \<Rightarrow> u32 \<Rightarrow> FatValue \<Rightarrow> ('s, unit) fat_io" where
  "Fat16_set fat cluster val =
     (let raw_value = (case val of Free \<Rightarrow> 0 | Bad \<Rightarrow> 0xFFF7 | EndOfChain \<Rightarrow> 0xFFFF | Data n \<Rightarrow> n) in
      Fat16_set_raw fat cluster raw_value)"

partial_function (option) Fat16_find_free_loop :: "'s stream \<Rightarrow> u32 \<Rightarrow> u32 \<Rightarrow> ('s, u32) fat_io" where
  "Fat16_find_free_loop fat end_cluster cluster s =
     (if cluster < end_cluster then
        io_bind (read_u16_le fat) (\<lambda>val s.
          if val = 0 then io_return cluster s
          else Fat16_find_free_loop fat end_cluster (cluster + 1) s) s
      else io_err NotEnoughSpace s)"

definition Fat16_find_free :: "'s stream \<Rightarrow> u32 \<Rightarrow> u32 \<Rightarrow> ('s, u32) fat_io" where
  "Fat16_find_free fat start_cluster end_cluster =
     io_bind (st_seek fat (Start (ucast (start_cluster * 2)))) (\<lambda>_.
     Fat16_find_free_loop fat end_cluster start_cluster)"

partial_function (option) Fat16_count_free_loop :: "'s stream \<Rightarrow> u32 \<Rightarrow> u32 \<Rightarrow> u32 \<Rightarrow> ('s, u32) fat_io" where
  "Fat16_count_free_loop fat end_cluster cluster count s =
     (if cluster < end_cluster then
        io_bind (read_u16_le fat) (\<lambda>val s.
          let count = (if val = 0 then count + 1 else count) in
          Fat16_count_free_loop fat end_cluster (cluster + 1) count s) s
      else io_return count s)"

definition Fat16_count_free :: "'s stream \<Rightarrow> u32 \<Rightarrow> ('s, u32) fat_io" where
  "Fat16_count_free fat end_cluster =
     (let count = 0; cluster = RESERVED_FAT_ENTRIES in
      io_bind (st_seek fat (Start (ucast (cluster * 2)))) (\<lambda>_.
      Fat16_count_free_loop fat end_cluster cluster count))"

definition Fat32_get_raw :: "'s stream \<Rightarrow> u32 \<Rightarrow> ('s, u32) fat_io" where
  "Fat32_get_raw fat cluster =
     io_bind (st_seek fat (Start (ucast (cluster * 4)))) (\<lambda>_.
     read_u32_le fat)"

text \<open>The cluster numbers that are special values in the entries of a FAT32.\<close>

definition special_cluster :: "u32 \<Rightarrow> bool" where
  "special_cluster cluster \<longleftrightarrow> 0x0FFFFFF7 \<le> cluster \<and> cluster \<le> 0x0FFFFFFF"

definition Fat32_get :: "'s stream \<Rightarrow> u32 \<Rightarrow> ('s, FatValue) fat_io" where
  "Fat32_get fat cluster =
     io_bind (Fat32_get_raw fat cluster) (\<lambda>n.
     let val = n AND 0x0FFFFFFF in
     io_return (if val = 0 \<and> special_cluster cluster then Bad
       else if val = 0 then Free
       else if val = 0x0FFFFFF7 then Bad
       else if 0x0FFFFFF8 \<le> val \<and> val \<le> 0x0FFFFFFF then EndOfChain
       else if special_cluster cluster then Bad
       else Data val))"

definition Fat32_set_raw :: "'s stream \<Rightarrow> u32 \<Rightarrow> u32 \<Rightarrow> ('s, unit) fat_io" where
  "Fat32_set_raw fat cluster raw_value =
     io_bind (st_seek fat (Start (ucast (cluster * 4)))) (\<lambda>_.
     write_u32_le fat raw_value)"

definition Fat32_set :: "'s stream \<Rightarrow> u32 \<Rightarrow> FatValue \<Rightarrow> ('s, unit) fat_io" where
  "Fat32_set fat cluster val =
     io_bind (Fat32_get_raw fat cluster) (\<lambda>n.
     let old_reserved_bits = n AND 0xF0000000 in
     if val = Free \<and> special_cluster cluster then io_panic
     else
       let raw_val = (case val of Free \<Rightarrow> 0 | Bad \<Rightarrow> 0x0FFFFFF7 | EndOfChain \<Rightarrow> 0x0FFFFFFF | Data n \<Rightarrow> n);
           raw_val = raw_val OR old_reserved_bits in
       Fat32_set_raw fat cluster raw_val)"

partial_function (option) Fat32_find_free_loop :: "'s stream \<Rightarrow> u32 \<Rightarrow> u32 \<Rightarrow> ('s, u32) fat_io" where
  "Fat32_find_free_loop fat end_cluster cluster s =
     (if cluster < end_cluster then
        io_bind (read_u32_le fat) (\<lambda>n s.
          let val = n AND 0x0FFFFFFF in
          if val = 0 then io_return cluster s
          else Fat32_find_free_loop fat end_cluster (cluster + 1) s) s
      else io_err NotEnoughSpace s)"

definition Fat32_find_free :: "'s stream \<Rightarrow> u32 \<Rightarrow> u32 \<Rightarrow> ('s, u32) fat_io" where
  "Fat32_find_free fat start_cluster end_cluster =
     io_bind (st_seek fat (Start (ucast (start_cluster * 4)))) (\<lambda>_.
     Fat32_find_free_loop fat end_cluster start_cluster)"

partial_function (option) Fat32_count_free_loop :: "'s stream \<Rightarrow> u32 \<Rightarrow> u32 \<Rightarrow> u32 \<Rightarrow> ('s, u32) fat_io" where
  "Fat32_count_free_loop fat end_cluster cluster count s =
     (if cluster < end_cluster then
        io_bind (read_u32_le fat) (\<lambda>n s.
          let val = n AND 0x0FFFFFFF;
              count = (if val = 0 then count + 1 else count) in
          Fat32_count_free_loop fat end_cluster (cluster + 1) count s) s
      else io_return count s)"

definition Fat32_count_free :: "'s stream \<Rightarrow> u32 \<Rightarrow> ('s, u32) fat_io" where
  "Fat32_count_free fat end_cluster =
     (let count = 0; cluster = RESERVED_FAT_ENTRIES in
      io_bind (st_seek fat (Start (ucast (cluster * 4)))) (\<lambda>_.
      Fat32_count_free_loop fat end_cluster cluster count))"

declare Fat12_find_free_loop.simps [code] Fat12_count_free_loop.simps [code] Fat16_find_free_loop.simps [code]
  Fat16_count_free_loop.simps [code] Fat32_find_free_loop.simps [code] Fat32_count_free_loop.simps [code]

section \<open>The table\<close>

definition read_fat :: "'s stream \<Rightarrow> FatType \<Rightarrow> u32 \<Rightarrow> ('s, FatValue) fat_io" where
  "read_fat fat fat_type cluster =
     (case fat_type of
        Fat12 \<Rightarrow> Fat12_get fat cluster
      | Fat16 \<Rightarrow> Fat16_get fat cluster
      | Fat32 \<Rightarrow> Fat32_get fat cluster)"

definition write_fat :: "'s stream \<Rightarrow> FatType \<Rightarrow> u32 \<Rightarrow> FatValue \<Rightarrow> ('s, unit) fat_io" where
  "write_fat fat fat_type cluster val =
     (case fat_type of
        Fat12 \<Rightarrow> Fat12_set fat cluster val
      | Fat16 \<Rightarrow> Fat16_set fat cluster val
      | Fat32 \<Rightarrow> Fat32_set fat cluster val)"

definition get_next_cluster :: "'s stream \<Rightarrow> FatType \<Rightarrow> u32 \<Rightarrow> ('s, u32 option) fat_io" where
  "get_next_cluster fat fat_type cluster =
     io_bind (read_fat fat fat_type cluster) (\<lambda>val.
     io_return (case val of Data n \<Rightarrow> Some n | _ \<Rightarrow> None))"

definition find_free_cluster :: "'s stream \<Rightarrow> FatType \<Rightarrow> u32 \<Rightarrow> u32 \<Rightarrow> ('s, u32) fat_io" where
  "find_free_cluster fat fat_type start_cluster end_cluster =
     (case fat_type of
        Fat12 \<Rightarrow> Fat12_find_free fat start_cluster end_cluster
      | Fat16 \<Rightarrow> Fat16_find_free fat start_cluster end_cluster
      | Fat32 \<Rightarrow> Fat32_find_free fat start_cluster end_cluster)"

definition alloc_cluster :: "'s stream \<Rightarrow> FatType \<Rightarrow> u32 option \<Rightarrow> u32 option \<Rightarrow> u32 \<Rightarrow> ('s, u32) fat_io" where
  "alloc_cluster fat fat_type prev_cluster hint total_clusters =
     (let end_cluster = total_clusters + RESERVED_FAT_ENTRIES;
          start_cluster = (case hint of
              Some n \<Rightarrow> if n < end_cluster then n else RESERVED_FAT_ENTRIES
            | None \<Rightarrow> RESERVED_FAT_ENTRIES) in
      io_bind (io_try (find_free_cluster fat fat_type start_cluster end_cluster) (\<lambda>r. case r of
          Inr n \<Rightarrow> io_return n
        | Inl e \<Rightarrow>
            if start_cluster > RESERVED_FAT_ENTRIES
            then find_free_cluster fat fat_type RESERVED_FAT_ENTRIES start_cluster
            else io_err e)) (\<lambda>new_cluster.
      io_bind (write_fat fat fat_type new_cluster EndOfChain) (\<lambda>_.
      io_bind (case prev_cluster of
          Some n \<Rightarrow> write_fat fat fat_type n (Data new_cluster)
        | None \<Rightarrow> io_return ()) (\<lambda>_.
      io_return new_cluster))))"

definition read_fat_flags :: "'s stream \<Rightarrow> FatType \<Rightarrow> ('s, FsStatusFlags) fat_io" where
  "read_fat_flags fat fat_type =
     io_bind (case fat_type of
         Fat12 \<Rightarrow> io_return 0xFFF
       | Fat16 \<Rightarrow> Fat16_get_raw fat 1
       | Fat32 \<Rightarrow> Fat32_get_raw fat 1) (\<lambda>val.
     let dirty = (case fat_type of
             Fat12 \<Rightarrow> False
           | Fat16 \<Rightarrow> val AND push_bit 15 1 = 0
           | Fat32 \<Rightarrow> val AND push_bit 27 1 = 0);
         io_error = (case fat_type of
             Fat12 \<Rightarrow> False
           | Fat16 \<Rightarrow> val AND push_bit 14 1 = 0
           | Fat32 \<Rightarrow> val AND push_bit 26 1 = 0) in
     io_return \<lparr>sf_dirty = dirty, sf_io_error = io_error\<rparr>)"

definition count_free_clusters :: "'s stream \<Rightarrow> FatType \<Rightarrow> u32 \<Rightarrow> ('s, u32) fat_io" where
  "count_free_clusters fat fat_type total_clusters =
     (let end_cluster = total_clusters + RESERVED_FAT_ENTRIES in
      case fat_type of
        Fat12 \<Rightarrow> Fat12_count_free fat end_cluster
      | Fat16 \<Rightarrow> Fat16_count_free fat end_cluster
      | Fat32 \<Rightarrow> Fat32_count_free fat end_cluster)"

text \<open>\<^verbatim>\<open>for cluster in start..end { write_fat(.., value)? }\<close>.\<close>

partial_function (option) write_fat_range :: "'s stream \<Rightarrow> FatType \<Rightarrow> FatValue \<Rightarrow> u32 \<Rightarrow> u32 \<Rightarrow> ('s, unit) fat_io" where
  "write_fat_range fat fat_type val cluster end_cluster s =
     (if cluster < end_cluster then
        io_bind (write_fat fat fat_type cluster val) (\<lambda>_ s.
          write_fat_range fat fat_type val (cluster + 1) end_cluster s) s
      else io_return () s)"

declare write_fat_range.simps [code]

definition format_fat :: "'s stream \<Rightarrow> FatType \<Rightarrow> u8 \<Rightarrow> u64 \<Rightarrow> u32 \<Rightarrow> ('s, unit) fat_io" where
  "format_fat fat fat_type media bytes_per_fat total_clusters =
     io_bind (case fat_type of
         Fat12 \<Rightarrow> io_bind (write_u8 fat media) (\<lambda>_. write_u16_le fat 0xFFFF)
       | Fat16 \<Rightarrow> io_bind (write_u16_le fat (ucast media OR 0xFF00)) (\<lambda>_. write_u16_le fat 0xFFFF)
       | Fat32 \<Rightarrow> io_bind (write_u32_le fat (ucast media OR 0xFFFFF00)) (\<lambda>_. write_u32_le fat 0xFFFFFFFF)) (\<lambda>_.
     let start_cluster = total_clusters + RESERVED_FAT_ENTRIES;
         end_cluster = ucast (bytes_per_fat * 8 div ucast (bits_per_fat_entry fat_type)) in
     io_bind (write_fat_range fat fat_type EndOfChain start_cluster end_cluster) (\<lambda>_.
     if end_cluster > 0x0FFFFFF0 then
       let end_bad_cluster = min (0x0FFFFFFF + 1) end_cluster in
       write_fat_range fat fat_type Bad 0x0FFFFFF0 end_bad_cluster
     else io_return ()))"

section \<open>Cluster chains\<close>

record ClusterIterator =
  ci_fat_type :: FatType
  ci_cluster :: "u32 option"
  ci_err :: bool

definition ClusterIterator_new :: "FatType \<Rightarrow> u32 \<Rightarrow> ClusterIterator" where
  "ClusterIterator_new fat_type cluster = \<lparr>ci_fat_type = fat_type, ci_cluster = Some cluster, ci_err = False\<rparr>"

text \<open>
  The iterator and its item; \<^verbatim>\<open>next\<close> itself does not fail, an error is an item. The stream the
  iterator owns is the state of the computation.
\<close>

definition ClusterIterator_next :: "'s stream \<Rightarrow> ClusterIterator \<Rightarrow> ('s, ClusterIterator \<times> (Error + u32) option) fat_io" where
  "ClusterIterator_next fat self =
     (if ci_err self then io_return (self, None)
      else case ci_cluster self of
          Some current_cluster \<Rightarrow>
            io_try (get_next_cluster fat (ci_fat_type self) current_cluster) (\<lambda>r. case r of
                Inr next_cluster \<Rightarrow>
                  io_return (self\<lparr>ci_cluster := next_cluster\<rparr>, map_option Inr next_cluster)
              | Inl err \<Rightarrow> io_return (self\<lparr>ci_err := True\<rparr>, Some (Inl err)))
        | None \<Rightarrow> io_return (self, None))"

partial_function (option) ClusterIterator_free_loop :: "'s stream \<Rightarrow> ClusterIterator \<Rightarrow> u32 \<Rightarrow> ('s, u32) fat_io" where
  "ClusterIterator_free_loop fat self num_free s =
     (case ci_cluster self of
        Some n \<Rightarrow>
          io_bind (ClusterIterator_next fat self) (\<lambda>(self, item) s.
            io_bind (write_fat fat (ci_fat_type self) n Free) (\<lambda>_ s.
              ClusterIterator_free_loop fat self (num_free + 1) s) s) s
      | None \<Rightarrow> io_return num_free s)"

declare ClusterIterator_free_loop.simps [code]

definition ClusterIterator_free :: "'s stream \<Rightarrow> ClusterIterator \<Rightarrow> ('s, u32) fat_io" where
  "ClusterIterator_free fat self = ClusterIterator_free_loop fat self 0"

definition ClusterIterator_truncate :: "'s stream \<Rightarrow> ClusterIterator \<Rightarrow> ('s, u32) fat_io" where
  "ClusterIterator_truncate fat self =
     (case ci_cluster self of
        Some n \<Rightarrow>
          io_bind (ClusterIterator_next fat self) (\<lambda>(self, item).
          io_bind (write_fat fat (ci_fat_type self) n EndOfChain) (\<lambda>_.
          ClusterIterator_free fat self))
      | None \<Rightarrow> io_return 0)"

section \<open>The table as a function\<close>

text \<open>
  The entry of a cluster in the bytes of the table. An entry that fits has a cluster number below
  the special ones and lies within the \<^term>\<open>sz\<close> bytes of the table.
\<close>

definition fat_off :: "FatType \<Rightarrow> nat \<Rightarrow> nat" where
  "fat_off ft c = (case ft of Fat12 \<Rightarrow> c + c div 2 | Fat16 \<Rightarrow> 2 * c | Fat32 \<Rightarrow> 4 * c)"

definition fat_width :: "FatType \<Rightarrow> nat" where
  "fat_width ft = (case ft of Fat12 \<Rightarrow> 2 | Fat16 \<Rightarrow> 2 | Fat32 \<Rightarrow> 4)"

definition fat_in :: "FatType \<Rightarrow> nat \<Rightarrow> u32 \<Rightarrow> bool" where
  "fat_in ft sz c \<longleftrightarrow> c < 0x0FFFFFF7 \<and> fat_off ft (unat c) + fat_width ft \<le> sz"

definition fat_raw :: "FatType \<Rightarrow> (nat \<Rightarrow> u8) \<Rightarrow> u32 \<Rightarrow> u32" where
  "fat_raw ft b c = (case ft of
       Fat12 \<Rightarrow> let p = u16_from_le_bytes (bytes_at b (fat_off ft (unat c)) 2) in
         ucast (if c AND 1 = 0 then p AND 0x0FFF else drop_bit 4 p)
     | Fat16 \<Rightarrow> ucast (u16_from_le_bytes (bytes_at b (fat_off ft (unat c)) 2))
     | Fat32 \<Rightarrow> u32_from_le_bytes (bytes_at b (fat_off ft (unat c)) 4))"

definition fat_value :: "FatType \<Rightarrow> u32 \<Rightarrow> FatValue" where
  "fat_value ft n = (case ft of
       Fat12 \<Rightarrow> if n = 0 then Free else if n = 0xFF7 then Bad else if 0xFF8 \<le> n \<and> n \<le> 0xFFF then EndOfChain else Data n
     | Fat16 \<Rightarrow> if n = 0 then Free else if n = 0xFFF7 then Bad else if 0xFFF8 \<le> n \<and> n \<le> 0xFFFF then EndOfChain else Data n
     | Fat32 \<Rightarrow> let n = n AND 0x0FFFFFFF in
         if n = 0 then Free else if n = 0x0FFFFFF7 then Bad else if 0x0FFFFFF8 \<le> n \<and> n \<le> 0x0FFFFFFF then EndOfChain else Data n)"

definition fat_get :: "FatType \<Rightarrow> (nat \<Rightarrow> u8) \<Rightarrow> u32 \<Rightarrow> FatValue" where
  "fat_get ft b c = fat_value ft (fat_raw ft b c)"

definition fat_code :: "FatType \<Rightarrow> FatValue \<Rightarrow> u32" where
  "fat_code ft v = (case v of
       Free \<Rightarrow> 0
     | Bad \<Rightarrow> (case ft of Fat12 \<Rightarrow> 0xFF7 | Fat16 \<Rightarrow> 0xFFF7 | Fat32 \<Rightarrow> 0x0FFFFFF7)
     | EndOfChain \<Rightarrow> (case ft of Fat12 \<Rightarrow> 0xFFF | Fat16 \<Rightarrow> 0xFFFF | Fat32 \<Rightarrow> 0x0FFFFFFF)
     | Data n \<Rightarrow> n)"

definition fat_put :: "FatType \<Rightarrow> (nat \<Rightarrow> u8) \<Rightarrow> u32 \<Rightarrow> FatValue \<Rightarrow> nat \<Rightarrow> u8" where
  "fat_put ft b c v = (let o' = fat_off ft (unat c); raw = fat_code ft v in case ft of
       Fat12 \<Rightarrow> let p = u16_from_le_bytes (bytes_at b o' 2) in
         patch b o' (u16_to_le_bytes (if c AND 1 = 0 then (p AND 0xF000) OR ucast raw
           else (p AND 0x000F) OR push_bit 4 (ucast raw)))
     | Fat16 \<Rightarrow> patch b o' (u16_to_le_bytes (ucast raw))
     | Fat32 \<Rightarrow> patch b o' (u32_to_le_bytes (raw OR (u32_from_le_bytes (bytes_at b o' 4) AND 0xF0000000))))"

text \<open>The values an entry can hold: a link is to a data cluster.\<close>

definition fat_limit :: "FatType \<Rightarrow> u32" where
  "fat_limit ft = (case ft of Fat12 \<Rightarrow> 0xFF7 | Fat16 \<Rightarrow> 0xFFF7 | Fat32 \<Rightarrow> 0x0FFFFFF7)"

definition fat_storable :: "FatType \<Rightarrow> FatValue \<Rightarrow> bool" where
  "fat_storable ft v \<longleftrightarrow> (case v of Data n \<Rightarrow> n \<noteq> 0 \<and> n < fat_limit ft | _ \<Rightarrow> True)"

text \<open>The bytes as a sequence of bits, in which the entries follow each other.\<close>

definition gbit :: "(nat \<Rightarrow> u8) \<Rightarrow> nat \<Rightarrow> bool" where
  "gbit b i = bit (b (i div 8)) (i mod 8)"

lemma gbit_u16:
  assumes "m < 16"
  shows "bit (u16_from_le_bytes (bytes_at b p 2)) m = gbit b (8 * p + m)"
proof (cases "m < 8")
  case True
  then show ?thesis by (auto simp: u16_from_le_bytes_def gbit_def bit_simps)
next
  case False
  then have "(8 * p + m) div 8 = Suc p" "(8 * p + m) mod 8 = m - 8" using assms by presburger+
  with False assms show ?thesis by (auto simp: u16_from_le_bytes_def gbit_def bit_simps dest: bit_imp_le_length)
qed

lemma gbit_u32:
  assumes "m < 32"
  shows "bit (u32_from_le_bytes (bytes_at b p 4)) m = gbit b (8 * p + m)"
proof -
  consider "m < 8" | "8 \<le> m" "m < 16" | "16 \<le> m" "m < 24" | "24 \<le> m" "m < 32" using assms by linarith
  then show ?thesis
  proof cases
    case 1
    then show ?thesis by (auto simp: u32_from_le_bytes_def gbit_def bit_simps)
  next
    case 2
    then have "(8 * p + m) div 8 = Suc p" "(8 * p + m) mod 8 = m - 8" by presburger+
    with 2 show ?thesis by (auto simp: u32_from_le_bytes_def gbit_def bit_simps dest: bit_imp_le_length)
  next
    case 3
    then have "(8 * p + m) div 8 = p + 2" "(8 * p + m) mod 8 = m - 16" by presburger+
    with 3 show ?thesis by (auto simp: u32_from_le_bytes_def gbit_def bit_simps dest: bit_imp_le_length)
  next
    case 4
    then have "(8 * p + m) div 8 = p + 3" "(8 * p + m) mod 8 = m - 24" by presburger+
    with 4 show ?thesis by (auto simp: u32_from_le_bytes_def gbit_def bit_simps dest: bit_imp_le_length)
  qed
qed

lemma nth_u16_to_le_bytes: "i < 2 \<Longrightarrow> u16_to_le_bytes w ! i = ucast (drop_bit (8 * i) w)"
  by (auto simp: u16_to_le_bytes_def less_2_cases_iff)

lemma nth_u32_to_le_bytes:
  assumes "i < 4"
  shows "u32_to_le_bytes w ! i = ucast (drop_bit (8 * i) w)"
proof -
  have "i = 0 \<or> i = 1 \<or> i = 2 \<or> i = 3" using assms by linarith
  then show ?thesis by (elim disjE) (simp_all add: u32_to_le_bytes_def)
qed

lemma gbit_patch:
  assumes "length bs = n" "\<And>i. i < n \<Longrightarrow> bs ! i = ucast (drop_bit (8 * i) w)"
  shows "gbit (patch b p bs) i = (if 8 * p \<le> i \<and> i < 8 * p + 8 * n then bit w (i - 8 * p) else gbit b i)"
    (is "_ = (if ?in then _ else _)")
proof (cases ?in)
  case True
  define k where "k = i div 8 - p"
  have "p \<le> i div 8" "i div 8 < p + n"
    using True by (simp_all add: less_eq_div_iff_mult_less_eq div_less_iff_less_mult mult.commute algebra_simps)
  then have k: "i div 8 = p + k" "k < n" by (simp_all add: k_def)
  have "8 * (i div 8) + i mod 8 = i" by simp
  then have "8 * k + i mod 8 = i - 8 * p" using k(1) by linarith
  then have "bit (bs ! k) (i mod 8) = bit w (i - 8 * p)"
    using assms(2) [OF k(2)] by (simp add: bit_simps)
  with True k show ?thesis by (simp add: gbit_def patch_def assms(1))
next
  case False
  then have "\<not> (p \<le> i div 8 \<and> i div 8 < p + n)"
    by (simp add: less_eq_div_iff_mult_less_eq div_less_iff_less_mult algebra_simps)
  with False show ?thesis by (auto simp: gbit_def patch_def assms(1))
qed

lemmas gbit_patch16 = gbit_patch [where n = 2, OF _ nth_u16_to_le_bytes, simplified]
lemmas gbit_patch32 = gbit_patch [where n = 4, OF _ nth_u32_to_le_bytes, simplified]

text \<open>Entry \<^term>\<open>c\<close> is the bits from \<^term>\<open>fat_bits ft * unat c\<close> on; a write keeps the four reserved bits of FAT32.\<close>

definition fat_bits :: "FatType \<Rightarrow> nat" where
  "fat_bits ft = (case ft of Fat12 \<Rightarrow> 12 | Fat16 \<Rightarrow> 16 | Fat32 \<Rightarrow> 32)"

definition fat_used :: "FatType \<Rightarrow> nat" where
  "fat_used ft = (case ft of Fat12 \<Rightarrow> 12 | Fat16 \<Rightarrow> 16 | Fat32 \<Rightarrow> 28)"

lemma and_1_even: "c AND 1 = 0 \<longleftrightarrow> even (unat c)" for c :: "'a::len word"
  using bit_unsigned_iff [of c 0, where 'a = nat] by (simp add: and_one_eq mod2_eq_if bit_0)

lemma fat12_bit_pos:
  "even (unat c) \<Longrightarrow> 8 * fat_off Fat12 (unat c) = 12 * unat c"
  "odd (unat c) \<Longrightarrow> 8 * fat_off Fat12 (unat c) + 4 = 12 * unat c"
  by (auto simp: fat_off_def elim!: evenE oddE)

lemma mask_bits:
  "bit (0xFFF :: int) n \<longleftrightarrow> n < 12" "bit (0xF :: int) n \<longleftrightarrow> n < 4"
  "bit (0xF000 :: int) n \<longleftrightarrow> 12 \<le> n \<and> n < 16" "bit (0xF0000000 :: int) n \<longleftrightarrow> 28 \<le> n \<and> n < 32"
proof -
  have "(0xFFF :: int) = mask 12" "(0xF :: int) = mask 4" "(0xF000 :: int) = push_bit 12 (mask 4)"
    "(0xF0000000 :: int) = push_bit 28 (mask 4)" by (simp_all add: mask_eq_exp_minus_1)
  then show "bit (0xFFF :: int) n \<longleftrightarrow> n < 12" "bit (0xF :: int) n \<longleftrightarrow> n < 4"
    "bit (0xF000 :: int) n \<longleftrightarrow> 12 \<le> n \<and> n < 16" "bit (0xF0000000 :: int) n \<longleftrightarrow> 28 \<le> n \<and> n < 32"
    by (auto simp only: bit_push_bit_iff bit_mask_iff possible_bit_def) auto
qed

lemma u16_high_bit: "16 \<le> n \<Longrightarrow> \<not> bit (w :: u16) n"
  by (auto dest: bit_imp_le_length)

lemma u32_high_bit: "32 \<le> n \<Longrightarrow> \<not> bit (w :: u32) n"
  by (auto dest: bit_imp_le_length)

lemma fat12_read_bit:
  "bit (u16_from_le_bytes (bytes_at b p 2) AND 0xFFF) n \<longleftrightarrow> n < 12 \<and> gbit b (8 * p + n)"
  "bit (drop_bit 4 (u16_from_le_bytes (bytes_at b p 2))) n \<longleftrightarrow> n < 12 \<and> gbit b (8 * p + 4 + n)"
proof -
  show "bit (u16_from_le_bytes (bytes_at b p 2) AND 0xFFF) n \<longleftrightarrow> n < 12 \<and> gbit b (8 * p + n)"
    using gbit_u16 [of n b p] by (auto simp: bit_and_iff mask_bits)
  show "bit (drop_bit 4 (u16_from_le_bytes (bytes_at b p 2))) n \<longleftrightarrow> n < 12 \<and> gbit b (8 * p + 4 + n)"
  proof (cases "n < 12")
    case True
    then show ?thesis using gbit_u16 [of "4 + n" b p] by (simp add: bit_drop_bit_eq add.assoc)
  next
    case False
    then show ?thesis by (simp add: bit_drop_bit_eq u16_high_bit)
  qed
qed

lemma fat12_write_bit:
  assumes "\<And>n. 12 \<le> n \<Longrightarrow> \<not> bit r n" "q = u16_from_le_bytes (bytes_at b p 2)"
  shows "gbit (patch b p (u16_to_le_bytes ((q AND 0xF000) OR r))) i
      = (if 8 * p \<le> i \<and> i < 8 * p + 12 then bit r (i - 8 * p) else gbit b i)"
    and "gbit (patch b p (u16_to_le_bytes ((q AND 0xF) OR push_bit 4 r))) i
      = (if 8 * p + 4 \<le> i \<and> i < 8 * p + 16 then bit r (i - (8 * p + 4)) else gbit b i)"
proof -
  have old: "bit q (i - 8 * p) = gbit b i" if "8 * p \<le> i" "i < 8 * p + 16"
    using gbit_u16 [of "i - 8 * p" b p] that assms(2) by simp
  show "gbit (patch b p (u16_to_le_bytes ((q AND 0xF000) OR r))) i
      = (if 8 * p \<le> i \<and> i < 8 * p + 12 then bit r (i - 8 * p) else gbit b i)"
    using old assms(1) [of "i - 8 * p"] by (auto simp: gbit_patch16 bit_or_iff bit_and_iff mask_bits)
  show "gbit (patch b p (u16_to_le_bytes ((q AND 0xF) OR push_bit 4 r))) i
      = (if 8 * p + 4 \<le> i \<and> i < 8 * p + 16 then bit r (i - (8 * p + 4)) else gbit b i)"
    using old by (auto simp: gbit_patch16 bit_or_iff bit_and_iff bit_push_bit_iff mask_bits)
qed

lemma fat32_write_bit:
  assumes "\<And>n. 28 \<le> n \<Longrightarrow> \<not> bit r n" "q = u32_from_le_bytes (bytes_at b p 4)"
  shows "gbit (patch b p (u32_to_le_bytes (r OR (q AND 0xF0000000)))) i
      = (if 8 * p \<le> i \<and> i < 8 * p + 28 then bit r (i - 8 * p) else gbit b i)"
proof -
  have old: "bit q (i - 8 * p) = gbit b i" if "8 * p \<le> i" "i < 8 * p + 32"
    using gbit_u32 [of "i - 8 * p" b p] that assms(2) by simp
  show ?thesis
    using old assms(1) [of "i - 8 * p"] by (auto simp: gbit_patch32 bit_or_iff bit_and_iff mask_bits)
qed

lemma fat_raw_bit: "bit (fat_raw ft b c) n \<longleftrightarrow> n < fat_bits ft \<and> gbit b (fat_bits ft * unat c + n)"
proof (cases ft)
  case Fat12
  show ?thesis
  proof (cases "even (unat c)")
    case True
    then show ?thesis using fat12_bit_pos(1) [OF True]
      by (auto simp: Fat12 fat_raw_def Let_def and_1_even fat_bits_def bit_ucast_iff fat12_read_bit)
  next
    case False
    then show ?thesis using fat12_bit_pos(2) [OF False]
      by (auto simp: Fat12 fat_raw_def Let_def and_1_even fat_bits_def bit_ucast_iff fat12_read_bit)
  qed
next
  case Fat16
  then show ?thesis using gbit_u16 [of n b "2 * unat c"]
    by (cases "n < 16") (simp_all add: fat_raw_def fat_off_def fat_bits_def bit_ucast_iff u16_high_bit)
next
  case Fat32
  then show ?thesis using gbit_u32 [of n b "4 * unat c"]
    by (cases "n < 32") (simp_all add: fat_raw_def fat_off_def fat_bits_def u32_high_bit)
qed

lemma fat_put_bit:
  assumes "\<And>n. fat_used ft \<le> n \<Longrightarrow> \<not> bit (fat_code ft v) n"
  shows "gbit (fat_put ft b c v) i = (if fat_bits ft * unat c \<le> i \<and> i < fat_bits ft * unat c + fat_used ft
    then bit (fat_code ft v) (i - fat_bits ft * unat c) else gbit b i)"
proof (cases ft)
  case Fat12
  have hi: "\<not> bit (ucast (fat_code Fat12 v) :: u16) m" if "12 \<le> m" for m
    using assms [of m] that Fat12 by (simp add: fat_used_def bit_ucast_iff)
  show ?thesis
  proof (cases "even (unat c)")
    case True
    then show ?thesis using fat12_bit_pos(1) [OF True] fat12_write_bit(1) [OF hi refl]
      by (simp add: Fat12 fat_put_def Let_def and_1_even fat_bits_def fat_used_def bit_ucast_iff cong: if_cong) auto
  next
    case False
    then show ?thesis using fat12_bit_pos(2) [OF False] fat12_write_bit(2) [OF hi refl]
      by (simp add: Fat12 fat_put_def Let_def and_1_even fat_bits_def fat_used_def bit_ucast_iff cong: if_cong) auto
  qed
next
  case Fat16
  then show ?thesis
    by (auto simp: fat_put_def Let_def fat_off_def fat_bits_def fat_used_def gbit_patch16 bit_ucast_iff)
next
  case Fat32
  have "\<not> bit (fat_code Fat32 v) m" if "28 \<le> m" for m using assms [of m] that Fat32 by (simp add: fat_used_def)
  from fat32_write_bit [OF this refl, where p = "4 * unat c" and b = b and i = i] show ?thesis
    by (simp add: Fat32 fat_put_def Let_def fat_off_def fat_bits_def fat_used_def)
qed

lemma fat_code_bits:
  assumes "fat_storable ft v" "fat_used ft \<le> n"
  shows "\<not> bit (fat_code ft v) n"
proof -
  have "unat (fat_code ft v) < 2 ^ fat_used ft"
    using assms(1) by (cases ft; cases v) (auto simp: fat_storable_def fat_limit_def fat_code_def fat_used_def word_less_nat_alt)
  then have "take_bit (fat_used ft) (unat (fat_code ft v)) = unat (fat_code ft v)" by (simp add: take_bit_nat_eq_self)
  then have "\<not> bit (unat (fat_code ft v)) n" using assms(2) by (metis bit_take_bit_iff not_le)
  then show ?thesis by (auto simp: bit_unsigned_iff dest: bit_imp_le_length)
qed

text \<open>A write changes one entry.\<close>

lemma fat_get_put_same:
  assumes "fat_storable ft v"
  shows "fat_get ft (fat_put ft b c v) c = v"
proof -
  note put = fat_put_bit [OF fat_code_bits [OF assms]]
  have low: "bit (fat_raw ft (fat_put ft b c v) c) n = bit (fat_code ft v) n" if "n < fat_used ft" for n
    using that put [where b = b and c = c and i = "fat_bits ft * unat c + n"]
    by (cases ft) (simp_all add: fat_raw_bit fat_bits_def fat_used_def)
  have "fat_raw ft (fat_put ft b c v) c = fat_code ft v" if "ft \<noteq> Fat32"
  proof (rule bit_eqI)
    fix n show "bit (fat_raw ft (fat_put ft b c v) c) n = bit (fat_code ft v) n"
    proof (cases "n < fat_used ft")
      case False
      then have "\<not> n < fat_bits ft" using that by (cases ft) (simp_all add: fat_bits_def fat_used_def)
      with False show ?thesis using fat_code_bits [OF assms, of n] by (simp add: fat_raw_bit)
    qed (rule low)
  qed
  moreover have "fat_raw ft (fat_put ft b c v) c AND mask 28 = fat_code ft v" if "ft = Fat32"
  proof (rule bit_eqI)
    fix n
    show "bit (fat_raw ft (fat_put ft b c v) c AND mask 28) n = bit (fat_code ft v) n"
      using low [of n] fat_code_bits [OF assms, of n] that
      by (cases "n < 28") (simp_all add: bit_and_iff bit_mask_iff fat_used_def)
  qed
  then have "fat_raw ft (fat_put ft b c v) c AND 0x0FFFFFFF = fat_code ft v" if "ft = Fat32"
    using that by (simp add: mask_eq_exp_minus_1)
  ultimately show ?thesis using assms
    by (cases ft; cases v) (auto simp: fat_get_def fat_value_def fat_code_def fat_storable_def fat_limit_def Let_def word_le_nat_alt word_less_nat_alt)
qed

lemma fat_raw_put_other:
  assumes "fat_storable ft v" "c' \<noteq> c"
  shows "fat_raw ft (fat_put ft b c v) c' = fat_raw ft b c'"
proof (rule bit_eqI)
  fix n
  have w: "fat_used ft \<le> fat_bits ft" by (cases ft) (simp_all add: fat_bits_def fat_used_def)
  show "bit (fat_raw ft (fat_put ft b c v) c') n = bit (fat_raw ft b c') n"
  proof (cases "n < fat_bits ft")
    case True
    have "unat c' < unat c \<or> unat c < unat c'" using assms(2) by (simp add: word_unat_eq_iff linorder_neq_iff [symmetric])
    then have "\<not> (fat_bits ft * unat c \<le> fat_bits ft * unat c' + n \<and> fat_bits ft * unat c' + n < fat_bits ft * unat c + fat_used ft)"
    proof
      assume "unat c' < unat c"
      then have "fat_bits ft * Suc (unat c') \<le> fat_bits ft * unat c" by (intro mult_le_mono2) simp
      then show ?thesis using True by simp
    next
      assume "unat c < unat c'"
      then have "fat_bits ft * Suc (unat c) \<le> fat_bits ft * unat c'" by (intro mult_le_mono2) simp
      then show ?thesis using w by simp
    qed
    then show ?thesis by (auto simp: fat_raw_bit fat_put_bit [OF fat_code_bits [OF assms(1)]])
  qed (simp add: fat_raw_bit)
qed

lemma fat_get_put:
  "fat_storable ft v \<Longrightarrow> fat_get ft (fat_put ft b c v) c' = (if c' = c then v else fat_get ft b c')"
  by (simp add: fat_get_put_same fat_get_def fat_raw_put_other) (simp add: fat_get_def [symmetric] fat_get_put_same)

section \<open>The operations on a region\<close>

lemma fat_off_word:
  assumes "fat_in ft sz c"
  shows "unat (ucast (case ft of Fat12 \<Rightarrow> c + c div 2 | Fat16 \<Rightarrow> c * 2 | Fat32 \<Rightarrow> c * 4) :: u64) = fat_off ft (unat c)"
proof -
  have "unat c < 0x0FFFFFF7" using assms by (simp add: fat_in_def word_less_nat_alt)
  then have "unat c + unat c div 2 < 2 ^ 32" "unat c * 2 < 2 ^ 32" "unat c * 4 < 2 ^ 32" by simp_all
  then show ?thesis by (cases ft) (simp_all add: fat_off_def unat_ucast_up unat_word_ariths unat_div)
qed

text \<open>The outcome of a search for a free entry among the clusters from \<^term>\<open>a\<close> up to \<^term>\<open>e\<close>.\<close>

definition free_result :: "FatType \<Rightarrow> (nat \<Rightarrow> u8) \<Rightarrow> u32 \<Rightarrow> u32 \<Rightarrow> Error + u32 \<Rightarrow> bool" where
  "free_result ft b a e r = (case r of
       Inr c \<Rightarrow> a \<le> c \<and> c < e \<and> fat_get ft b c = Free \<and> (\<forall>d. a \<le> d \<and> d < c \<longrightarrow> fat_get ft b d \<noteq> Free)
     | Inl err \<Rightarrow> err = NotEnoughSpace \<and> (\<forall>d. a \<le> d \<and> d < e \<longrightarrow> fat_get ft b d \<noteq> Free))"

definition free_count :: "FatType \<Rightarrow> (nat \<Rightarrow> u8) \<Rightarrow> u32 \<Rightarrow> u32 \<Rightarrow> nat" where
  "free_count ft b a e = card {c. a \<le> c \<and> c < e \<and> fat_get ft b c = Free}"

definition fat_table :: "FatType \<Rightarrow> nat \<Rightarrow> u32 \<Rightarrow> bool" where
  "fat_table ft sz e \<longleftrightarrow> e \<le> fat_limit ft \<and> (\<forall>c<e. fat_in ft sz c)"

lemma fat_get_free:
  "fat_get Fat12 b c = Free \<longleftrightarrow> fat_raw Fat12 b c = 0" "fat_get Fat16 b c = Free \<longleftrightarrow> fat_raw Fat16 b c = 0"
  "fat_get Fat32 b c = Free \<longleftrightarrow> fat_raw Fat32 b c AND 0x0FFFFFFF = 0"
  by (simp_all add: fat_get_def fat_value_def Let_def)

lemma ucast_0_iff16: "(ucast (w :: u16) :: u32) = 0 \<longleftrightarrow> w = 0"
proof -
  have "unat (ucast w :: u32) = unat w" by (rule unat_ucast_up) simp
  then show ?thesis by (metis unsigned_eq_0_iff)
qed

lemma word_Suc:
  fixes c e :: "'a::len word"
  assumes "c < e"
  shows "unat (c + 1) = Suc (unat c)" "c + 1 \<le> e" "d < c + 1 \<longleftrightarrow> d \<le> c" "c + 1 \<le> d \<longleftrightarrow> c < d"
proof -
  have "unat c < unat e" using assms by (simp add: word_less_nat_alt)
  moreover from this have "Suc (unat c) < 2 ^ LENGTH('a)"
    using unsigned_less [of e, where 'a = nat] by linarith
  ultimately show *: "unat (c + 1) = Suc (unat c)" by (simp add: unat_word_ariths(1))
  show "c + 1 \<le> e" "d < c + 1 \<longleftrightarrow> d \<le> c" "c + 1 \<le> d \<longleftrightarrow> c < d"
    using * \<open>unat c < unat e\<close> by (auto simp: word_le_nat_alt word_less_nat_alt)
qed

lemma free_result_here: "a < e \<Longrightarrow> fat_get ft b a = Free \<Longrightarrow> free_result ft b a e (Inr a)"
  by (auto simp: free_result_def)

lemma free_result_next:
  assumes "a < e" "fat_get ft b a \<noteq> Free" "free_result ft b (a + 1) e r"
  shows "free_result ft b a e r"
  using assms(2,3) word_Suc(4) [OF assms(1)]
  by (auto simp: free_result_def split: sum.splits) (metis order_le_imp_less_or_eq order_less_imp_le)+

lemma free_result_end: "\<not> a < e \<Longrightarrow> free_result ft b a e (Inl NotEnoughSpace)"
  by (auto simp: free_result_def)

lemma free_count_step:
  assumes "a < e"
  shows "free_count ft b a e = (if fat_get ft b a = Free then 1 else 0) + free_count ft b (a + 1) e"
proof -
  define A where "A = {c. a + 1 \<le> c \<and> c < e \<and> fat_get ft b c = Free}"
  have "{c. a \<le> c \<and> c < e \<and> fat_get ft b c = Free} = (if fat_get ft b a = Free then {a} else {}) \<union> A"
    using word_Suc(4) [OF assms] assms by (auto simp: A_def order_le_less)
  moreover have "a \<notin> A" using word_Suc(4) [OF assms] by (simp add: A_def)
  ultimately show ?thesis by (simp add: free_count_def A_def [symmetric])
qed

lemma free_count_end: "\<not> a < e \<Longrightarrow> free_count ft b a e = 0"
proof -
  assume "\<not> a < e"
  then have "{c. a \<le> c \<and> c < e \<and> fat_get ft b c = Free} = {}" by auto
  then show ?thesis by (simp add: free_count_def)
qed

lemma u16_shift:
  "drop_bit 8 (u16_from_le_bytes (bytes_at b p 2)) OR push_bit 8 (ucast (b (p + 2)))
    = u16_from_le_bytes (bytes_at b (Suc p) 2)"
proof (rule bit_word_eqI)
  fix n assume "n < LENGTH(16)"
  then have "n < 8 \<or> 8 \<le> n \<and> n < 16" by auto
  then show "bit (drop_bit 8 (u16_from_le_bytes (bytes_at b p 2)) OR push_bit 8 (ucast (b (p + 2)))) n
      = bit (u16_from_le_bytes (bytes_at b (Suc p) 2)) n"
    by (auto simp: u16_from_le_bytes_def bit_simps dest: bit_imp_le_length)
qed

lemma fat12_odd_zero:
  "push_bit 8 (ucast (b (p + 2))) OR drop_bit 12 (u16_from_le_bytes (bytes_at b p 2)) = (0 :: u16)
    \<longleftrightarrow> drop_bit 4 (u16_from_le_bytes (bytes_at b (Suc p) 2)) = 0"
proof -
  have "drop_bit 4 (u16_from_le_bytes (bytes_at b (Suc p) 2)) = 0 \<longleftrightarrow> (\<forall>n<12. \<not> gbit b (8 * Suc p + 4 + n))"
    using fat12_read_bit(2) [of b "Suc p"] by (auto simp: bit_eq_iff [of _ 0])
  moreover have "push_bit 8 (ucast (b (p + 2))) OR drop_bit 12 (u16_from_le_bytes (bytes_at b p 2)) = (0 :: u16)
      \<longleftrightarrow> (\<forall>n<12. \<not> gbit b (8 * Suc p + 4 + n))" (is "?l = 0 \<longleftrightarrow> ?r")
  proof -
    have lo: "bit ?l n \<longleftrightarrow> gbit b (8 * Suc p + 4 + n)" if "n < 4" for n
      using that gbit_u16 [of "12 + n" b p] by (simp add: bit_or_iff bit_push_bit_iff bit_drop_bit_eq ac_simps)
    have mid: "\<not> bit ?l n" if "4 \<le> n" "n < 8" for n
      using that by (simp add: bit_or_iff bit_push_bit_iff bit_drop_bit_eq u16_high_bit)
    have hi: "bit ?l (n + 4) \<longleftrightarrow> gbit b (8 * Suc p + 4 + n)" if "4 \<le> n" "n < 12" for n
    proof -
      have "(8 * Suc p + 4 + n) div 8 = p + 2" "(8 * Suc p + 4 + n) mod 8 = n - 4" using that by presburger+
      moreover have "n - 4 < 16" using that by simp
      ultimately show ?thesis using that
        by (simp add: gbit_def bit_or_iff bit_push_bit_iff bit_drop_bit_eq bit_ucast_iff u16_high_bit)
    qed
    show ?thesis
    proof
      assume "?l = 0"
      then show ?r using lo hi by (metis bit_0_eq bot_apply bot_bool_def not_le)
    next
      assume r: ?r
      show "?l = 0"
      proof (rule bit_word_eqI)
        fix n assume n: "n < LENGTH(16)"
        consider "n < 4" | "4 \<le> n" "n < 8" | "8 \<le> n" by linarith
        then show "bit ?l n = bit (0 :: u16) n"
        proof cases
          case 1
          then have "\<not> gbit b (8 * Suc p + 4 + n)" using r by simp
          with lo [OF 1] show ?thesis by (simp only: bit_0_eq bot_apply bot_bool_def)
        next
          case 2
          with mid [of n] show ?thesis by (simp only: bit_0_eq bot_apply bot_bool_def)
        next
          case 3
          then have "4 \<le> n - 4" "n - 4 < 12" "n - 4 + 4 = n" using n by simp_all
          with hi [of "n - 4"] r have "\<not> bit ?l n" by metis
          then show ?thesis by (simp only: bit_0_eq bot_apply bot_bool_def)
        qed
      qed
    qed
  qed
  ultimately show ?thesis by simp
qed

text \<open>A chain: each entry links to the next, and the last one does not link on.\<close>

fun fat_chain :: "(u32 \<Rightarrow> FatValue) \<Rightarrow> u32 list \<Rightarrow> bool" where
  "fat_chain t [] \<longleftrightarrow> False"
| "fat_chain t [c] \<longleftrightarrow> (\<forall>n. t c \<noteq> Data n)"
| "fat_chain t (c # d # cs) \<longleftrightarrow> t c = Data d \<and> fat_chain t (d # cs)"

lemma fat_chain_unique: "fat_chain t (c # xs) \<Longrightarrow> fat_chain t (c # ys) \<Longrightarrow> xs = ys"
proof (induction xs arbitrary: c ys)
  case Nil
  then show ?case by (cases ys) auto
next
  case (Cons x xs)
  then obtain y zs where "ys = y # zs" by (cases ys) auto
  with Cons.prems have "x = y" by simp
  with Cons.prems \<open>ys = y # zs\<close> Cons.IH [of y zs] show ?case by simp
qed

lemma fat_chain_suffix: "fat_chain t (us @ c # vs) \<Longrightarrow> fat_chain t (c # vs)"
proof (induction us)
  case (Cons u us)
  then show ?case by (cases us) simp_all
qed simp

lemma fat_chain_distinct: "fat_chain t cs \<Longrightarrow> distinct cs"
proof (induction cs)
  case (Cons c cs)
  have "c \<notin> set cs"
  proof
    assume "c \<in> set cs"
    then obtain us vs where "cs = us @ c # vs" by (auto simp: in_set_conv_decomp)
    then have "fat_chain t (c # vs)" using fat_chain_suffix [of t "c # us" c vs] Cons.prems by simp
    from fat_chain_unique [OF this Cons.prems] \<open>cs = us @ c # vs\<close> have "length vs = length us + Suc (length vs)"
      by (metis length_append length_Cons)
    then show False by simp
  qed
  moreover have "distinct cs"
    using Cons by (cases cs) simp_all
  ultimately show ?case by simp
qed simp

lemma fat_chain_cong: "(\<And>c. c \<in> set cs \<Longrightarrow> t c = t' c) \<Longrightarrow> fat_chain t cs = fat_chain t' cs"
  by (induction t cs rule: fat_chain.induct) auto

context region
begin

lemma get_raw_in:
  assumes "ok s" "fat_in ft sz c"
  obtains s' where "(case ft of Fat12 \<Rightarrow> Fat12_get_raw st c | Fat16 \<Rightarrow> Fat16_get_raw st c | Fat32 \<Rightarrow> Fat32_get_raw st c) s
      = Some (Inr (fat_raw ft (byte s) c), s')" "ok s'" "byte s' = byte s" "rest s' = rest s"
proof -
  let ?x = "ucast (case ft of Fat12 \<Rightarrow> c + c div 2 | Fat16 \<Rightarrow> c * 2 | Fat32 \<Rightarrow> c * 4) :: u64"
  have x: "unat ?x = fat_off ft (unat c)" by (rule fat_off_word [OF assms(2)])
  have room: "fat_off ft (unat c) + fat_width ft \<le> sz" using assms(2) by (simp add: fat_in_def)
  from seek_in [OF assms(1), of ?x] x room obtain s1 where
    s1: "st_seek st (Start ?x) s = Some (Inr ?x, s1)" "ok s1" "off s1 = fat_off ft (unat c)" "byte s1 = byte s" "rest s1 = rest s"
    by auto
  show thesis
  proof (cases "ft = Fat32")
    case True
    then have "off s1 + 4 \<le> sz" using s1(3) room by (simp add: fat_width_def)
    from read_u32_in [OF s1(2) this] obtain s2 where
      s2: "read_u32_le st s1 = Some (Inr (u32_from_le_bytes (bytes_at (byte s1) (off s1) 4)), s2)" "ok s2"
        "byte s2 = byte s1" "rest s2 = rest s1" .
    show ?thesis using True s1 s2 by (intro that [of s2]) (simp_all add: Fat32_get_raw_def fat_raw_def)
  next
    case False
    then have "off s1 + 2 \<le> sz" using s1(3) room by (cases ft) (simp_all add: fat_width_def)
    from read_u16_in [OF s1(2) this] obtain s2 where
      s2: "read_u16_le st s1 = Some (Inr (u16_from_le_bytes (bytes_at (byte s1) (off s1) 2)), s2)" "ok s2"
        "byte s2 = byte s1" "rest s2 = rest s1" .
    show ?thesis using False s1 s2
      by (intro that [of s2]) (cases ft; simp add: Fat12_get_raw_def Fat16_get_raw_def fat_raw_def Let_def)+
  qed
qed

lemma read_fat_in:
  assumes "ok s" "fat_in ft sz c"
  obtains s' where "read_fat st ft c s = Some (Inr (fat_get ft (byte s) c), s')" "ok s'" "byte s' = byte s" "rest s' = rest s"
proof -
  from get_raw_in [OF assms] obtain s' where
    s': "(case ft of Fat12 \<Rightarrow> Fat12_get_raw st c | Fat16 \<Rightarrow> Fat16_get_raw st c | Fat32 \<Rightarrow> Fat32_get_raw st c) s
      = Some (Inr (fat_raw ft (byte s) c), s')" "ok s'" "byte s' = byte s" "rest s' = rest s" .
  have "\<not> special_cluster c" using assms(2) by (auto simp: fat_in_def special_cluster_def)
  with s' show ?thesis
    by (intro that [of s'])
      (cases ft; simp add: read_fat_def Fat12_get_def Fat16_get_def Fat32_get_def fat_get_def fat_value_def Let_def)+
qed

lemma write_fat_in:
  assumes "ok s" "fat_in ft sz c"
  obtains s' where "write_fat st ft c v s = Some (Inr (), s')" "ok s'" "byte s' = fat_put ft (byte s) c v" "rest s' = rest s"
proof -
  let ?x = "ucast (case ft of Fat12 \<Rightarrow> c + c div 2 | Fat16 \<Rightarrow> c * 2 | Fat32 \<Rightarrow> c * 4) :: u64"
  have x: "unat ?x = fat_off ft (unat c)" by (rule fat_off_word [OF assms(2)])
  have room: "fat_off ft (unat c) + fat_width ft \<le> sz" using assms(2) by (simp add: fat_in_def)
  have seek: "\<exists>s1. st_seek st (Start ?x) t = Some (Inr ?x, s1) \<and> ok s1 \<and> off s1 = fat_off ft (unat c) \<and> byte s1 = byte t \<and> rest s1 = rest t"
    if "ok t" for t using seek_in [OF that, of ?x] x room by auto
  show thesis
  proof (cases ft)
    case Fat12
    from seek [OF assms(1)] obtain s1 where
      s1: "st_seek st (Start ?x) s = Some (Inr ?x, s1)" "ok s1" "off s1 = fat_off ft (unat c)" "byte s1 = byte s" "rest s1 = rest s" by blast
    have r: "fat_off ft (unat c) + 2 \<le> sz" using room Fat12 by (simp add: fat_width_def)
    from read_u16_in [OF s1(2)] s1(3) r obtain s2 where
      s2: "read_u16_le st s1 = Some (Inr (u16_from_le_bytes (bytes_at (byte s1) (off s1) 2)), s2)" "ok s2"
        "byte s2 = byte s1" "rest s2 = rest s1" by metis
    from seek [OF s2(2)] obtain s3 where
      s3: "st_seek st (Start ?x) s2 = Some (Inr ?x, s3)" "ok s3" "off s3 = fat_off ft (unat c)" "byte s3 = byte s2" "rest s3 = rest s2" by blast
    define p where "p = u16_from_le_bytes (bytes_at (byte s1) (off s1) 2)"
    define q where "q = (if c AND 1 = 0 then (p AND 0xF000) OR ucast (fat_code ft v) else (p AND 0x000F) OR push_bit 4 (ucast (fat_code ft v)))"
    have "length (u16_to_le_bytes q) < 2 ^ 32" "off s3 + length (u16_to_le_bytes q) \<le> sz" using s3(3) r by simp_all
    from write_all_in [OF s3(2) this] obtain s4 where
      s4: "write_all st (u16_to_le_bytes q) s3 = Some (Inr (), s4)" "ok s4" "byte s4 = patch (byte s3) (off s3) (u16_to_le_bytes q)" "rest s4 = rest s3" .
    have "write_fat st ft c v s = Some (Inr (), s4)"
      using Fat12 s1(1) s2(1) s3(1) s4(1)
      by (simp add: write_fat_def Fat12_set_def Fat12_set_raw_def Let_def write_u16_le_def p_def [symmetric] fat_code_def q_def cong: if_cong FatValue.case_cong)
    moreover have "byte s4 = fat_put ft (byte s) c v"
      using s1 s2 s3 s4 Fat12 by (simp add: fat_put_def Let_def q_def p_def)
    ultimately show ?thesis using that s1 s2 s3 s4 by simp
  next
    case Fat16
    from seek [OF assms(1)] obtain s1 where
      s1: "st_seek st (Start ?x) s = Some (Inr ?x, s1)" "ok s1" "off s1 = fat_off ft (unat c)" "byte s1 = byte s" "rest s1 = rest s" by blast
    let ?bs = "u16_to_le_bytes (ucast (fat_code ft v))"
    have "length ?bs < 2 ^ 32" "off s1 + length ?bs \<le> sz" using s1(3) room Fat16 by (simp_all add: fat_width_def)
    from write_all_in [OF s1(2) this] obtain s2 where
      s2: "write_all st ?bs s1 = Some (Inr (), s2)" "ok s2" "byte s2 = patch (byte s1) (off s1) ?bs" "rest s2 = rest s1" .
    have "write_fat st ft c v s = Some (Inr (), s2)"
      using Fat16 s1(1) s2(1) by (simp add: write_fat_def Fat16_set_def Fat16_set_raw_def write_u16_le_def fat_code_def Let_def cong: FatValue.case_cong)
    moreover have "byte s2 = fat_put ft (byte s) c v" using s1 s2 Fat16 by (simp add: fat_put_def Let_def)
    ultimately show ?thesis using that s1 s2 by simp
  next
    case Fat32
    from get_raw_in [OF assms] obtain s0 where
      s0: "Fat32_get_raw st c s = Some (Inr (fat_raw ft (byte s) c), s0)" "ok s0" "byte s0 = byte s" "rest s0 = rest s" using Fat32 by auto
    from seek [OF s0(2)] obtain s1 where
      s1: "st_seek st (Start ?x) s0 = Some (Inr ?x, s1)" "ok s1" "off s1 = fat_off ft (unat c)" "byte s1 = byte s0" "rest s1 = rest s0" by blast
    let ?bs = "u32_to_le_bytes (fat_code ft v OR (fat_raw ft (byte s) c AND 0xF0000000))"
    have "length ?bs < 2 ^ 32" "off s1 + length ?bs \<le> sz" using s1(3) room Fat32 by (simp_all add: fat_width_def)
    from write_all_in [OF s1(2) this] obtain s2 where
      s2: "write_all st ?bs s1 = Some (Inr (), s2)" "ok s2" "byte s2 = patch (byte s1) (off s1) ?bs" "rest s2 = rest s1" .
    have "\<not> special_cluster c" using assms(2) by (auto simp: fat_in_def special_cluster_def)
    then have "write_fat st ft c v s = Some (Inr (), s2)"
      using Fat32 s0(1) s1(1) s2(1) by (simp add: write_fat_def Fat32_set_def Fat32_set_raw_def write_u32_le_def fat_code_def Let_def cong: FatValue.case_cong)
    moreover have "byte s2 = fat_put ft (byte s) c v" using s0 s1 s2 Fat32 by (simp add: fat_put_def Let_def fat_raw_def)
    ultimately show ?thesis using that s0 s1 s2 by simp
  qed
qed

lemma Fat16_find_free_loop_in:
  assumes "ok s" "off s = 2 * unat c" "fat_table Fat16 sz e"
  shows "\<exists>r s'. Fat16_find_free_loop st e c s = Some (r, s') \<and> free_result Fat16 (byte s) c e r \<and> ok s' \<and> byte s' = byte s \<and> rest s' = rest s"
  using assms(1,2)
proof (induction "unat e - unat c" arbitrary: c s rule: less_induct)
  case less
  show ?case
  proof (cases "c < e")
    case True
    then have "fat_in Fat16 sz c" using assms(3) by (simp add: fat_table_def)
    then have "off s + 2 \<le> sz" using less.prems(2) by (simp add: fat_in_def fat_off_def fat_width_def)
    from read_u16_in [OF less.prems(1) this] obtain s1 where
      s1: "read_u16_le st s = Some (Inr (u16_from_le_bytes (bytes_at (byte s) (off s) 2)), s1)" "ok s1"
        "off s1 = off s + 2" "byte s1 = byte s" "rest s1 = rest s" .
    let ?v = "u16_from_le_bytes (bytes_at (byte s) (off s) 2)"
    have v: "fat_get Fat16 (byte s) c = Free \<longleftrightarrow> ?v = 0"
      using less.prems(2) by (simp add: fat_get_free fat_raw_def fat_off_def ucast_0_iff16)
    show ?thesis
    proof (cases "?v = 0")
      case True': True
      then show ?thesis using True s1 v free_result_here [OF True]
        by (subst Fat16_find_free_loop.simps) (auto simp: io_bind_def)
    next
      case False
      have "unat e - unat (c + 1) < unat e - unat c" "off s1 = 2 * unat (c + 1)"
        using word_Suc(1) [OF True] True less.prems(2) s1(3) by (simp_all add: word_less_nat_alt)
      from less.hyps [OF this(1) s1(2) this(2)] obtain r s' where
        r: "Fat16_find_free_loop st e (c + 1) s1 = Some (r, s')" "free_result Fat16 (byte s1) (c + 1) e r" "ok s'" "byte s' = byte s1" "rest s' = rest s1"
        by blast
      then show ?thesis using True False s1 v free_result_next [OF True, where r = r]
        by (subst Fat16_find_free_loop.simps) (auto simp: io_bind_def)
    qed
  next
    case False
    then show ?thesis using less.prems by (subst Fat16_find_free_loop.simps) (simp add: free_result_end)
  qed
qed

lemma Fat32_find_free_loop_in:
  assumes "ok s" "off s = 4 * unat c" "fat_table Fat32 sz e"
  shows "\<exists>r s'. Fat32_find_free_loop st e c s = Some (r, s') \<and> free_result Fat32 (byte s) c e r \<and> ok s' \<and> byte s' = byte s \<and> rest s' = rest s"
  using assms(1,2)
proof (induction "unat e - unat c" arbitrary: c s rule: less_induct)
  case less
  show ?case
  proof (cases "c < e")
    case True
    then have "fat_in Fat32 sz c" using assms(3) by (simp add: fat_table_def)
    then have "off s + 4 \<le> sz" using less.prems(2) by (simp add: fat_in_def fat_off_def fat_width_def)
    from read_u32_in [OF less.prems(1) this] obtain s1 where
      s1: "read_u32_le st s = Some (Inr (u32_from_le_bytes (bytes_at (byte s) (off s) 4)), s1)" "ok s1"
        "off s1 = off s + 4" "byte s1 = byte s" "rest s1 = rest s" .
    let ?v = "u32_from_le_bytes (bytes_at (byte s) (off s) 4)"
    have v: "fat_get Fat32 (byte s) c = Free \<longleftrightarrow> ?v AND 0x0FFFFFFF = 0"
      using less.prems(2) by (simp add: fat_get_free fat_raw_def fat_off_def)
    show ?thesis
    proof (cases "?v AND 0x0FFFFFFF = 0")
      case True': True
      then show ?thesis using True s1 v free_result_here [OF True]
        by (subst Fat32_find_free_loop.simps) (auto simp: io_bind_def Let_def)
    next
      case False
      have "unat e - unat (c + 1) < unat e - unat c" "off s1 = 4 * unat (c + 1)"
        using word_Suc(1) [OF True] True less.prems(2) s1(3) by (simp_all add: word_less_nat_alt)
      from less.hyps [OF this(1) s1(2) this(2)] obtain r s' where
        r: "Fat32_find_free_loop st e (c + 1) s1 = Some (r, s')" "free_result Fat32 (byte s1) (c + 1) e r" "ok s'" "byte s' = byte s1" "rest s' = rest s1"
        by blast
      then show ?thesis using True False s1 v free_result_next [OF True, where r = r]
        by (subst Fat32_find_free_loop.simps) (auto simp: io_bind_def Let_def)
    qed
  next
    case False
    then show ?thesis using less.prems by (subst Fat32_find_free_loop.simps) (simp add: free_result_end)
  qed
qed

lemma Fat12_find_free_loop_in:
  assumes "ok s" "off s = fat_off Fat12 (unat c) + 2" "fat_table Fat12 sz e" "c < e"
    and "p = u16_from_le_bytes (bytes_at (byte s) (fat_off Fat12 (unat c)) 2)"
  shows "\<exists>r s'. Fat12_find_free_loop st e c p s = Some (r, s') \<and> free_result Fat12 (byte s) c e r \<and> ok s' \<and> byte s' = byte s \<and> rest s' = rest s"
  using assms(1,2,4,5)
proof (induction "unat e - unat c" arbitrary: c s p rule: less_induct)
  case less
  let ?v = "if c AND 1 = 0 then p AND 0x0FFF else drop_bit 4 p"
  have v: "fat_get Fat12 (byte s) c = Free \<longleftrightarrow> ?v = 0"
    using less.prems(4) by (simp add: fat_get_free fat_raw_def Let_def ucast_0_iff16)
  note unfold = Fat12_find_free_loop.simps [of st e c p s]
  show ?case
  proof (cases "?v = 0")
    case True
    then show ?thesis using v free_result_here [OF less.prems(3)] less.prems(1) by (subst unfold) (simp add: Let_def)
  next
    case nz: False
    note suc = word_Suc [OF less.prems(3)]
    show ?thesis
    proof (cases "c + 1 = e")
      case True
      then have "free_result Fat12 (byte s) (c + 1) e (Inl NotEnoughSpace)" by (intro free_result_end) simp
      from free_result_next [OF less.prems(3) _ this] nz v show ?thesis
        using less.prems(1) True by (subst unfold) (simp add: Let_def)
    next
      case False
      then have e: "c + 1 < e" using suc(2) by simp
      let ?o = "fat_off Fat12 (unat (c + 1))"
      have "fat_in Fat12 sz (c + 1)" using assms(3) e by (simp add: fat_table_def)
      then have room: "?o + 2 \<le> sz" by (simp add: fat_in_def fat_width_def)
      have even_iff: "(c + 1) AND 1 = 0 \<longleftrightarrow> odd (unat c)" by (simp add: and_1_even suc(1))
      let ?m = "if (c + 1) AND 1 = 0 then read_u16_le st
          else io_bind (read_u8 st) (\<lambda>next_byte. io_return (drop_bit 8 p OR push_bit 8 (ucast next_byte)))"
      have "\<exists>s1. ?m s = Some (Inr (u16_from_le_bytes (bytes_at (byte s) ?o 2)), s1) \<and> ok s1 \<and> off s1 = ?o + 2 \<and> byte s1 = byte s \<and> rest s1 = rest s"
      proof (cases "odd (unat c)")
        case True
        then have "off s = ?o" using less.prems(2) suc(1) by (auto simp: fat_off_def elim!: oddE)
        then have "off s + 2 \<le> sz" using room by simp
        from read_u16_in [OF less.prems(1) this] obtain s1 where
          "read_u16_le st s = Some (Inr (u16_from_le_bytes (bytes_at (byte s) (off s) 2)), s1)" "ok s1"
          "off s1 = off s + 2" "byte s1 = byte s" "rest s1 = rest s" .
        then show ?thesis using True even_iff \<open>off s = ?o\<close> by (intro exI [of _ s1]) simp
      next
        case False
        then have o: "?o = Suc (fat_off Fat12 (unat c))" "off s = Suc ?o" using less.prems(2) suc(1) by (auto simp: fat_off_def)
        then have "off s + 1 \<le> sz" using room by simp
        from read_u8_in [OF less.prems(1) this] obtain s1 where
          s1: "read_u8 st s = Some (Inr (byte s (off s)), s1)" "ok s1" "off s1 = off s + 1" "byte s1 = byte s" "rest s1 = rest s" .
        have "drop_bit 8 p OR push_bit 8 (ucast (byte s (off s))) = u16_from_le_bytes (bytes_at (byte s) ?o 2)"
          using u16_shift [of "byte s" "fat_off Fat12 (unat c)"] o less.prems(2,4) by simp
        then show ?thesis using s1 False even_iff o by (intro exI [of _ s1]) simp
      qed
      then obtain s1 where s1: "?m s = Some (Inr (u16_from_le_bytes (bytes_at (byte s) ?o 2)), s1)" "ok s1" "off s1 = ?o + 2"
        "byte s1 = byte s" "rest s1 = rest s" by blast
      have "unat e - unat (c + 1) < unat e - unat c" using suc(1) less.prems(3) by (simp add: word_less_nat_alt)
      from less.hyps [OF this s1(2,3) e refl, unfolded s1(4,5)] obtain r s' where
        r: "Fat12_find_free_loop st e (c + 1) (u16_from_le_bytes (bytes_at (byte s) ?o 2)) s1 = Some (r, s')"
          "free_result Fat12 (byte s) (c + 1) e r" "ok s'" "byte s' = byte s" "rest s' = rest s" by blast
      have "Fat12_find_free_loop st e c p s = Some (r, s')"
        using nz False s1(1) r(1) by (subst unfold) (simp add: Let_def)
      moreover have "free_result Fat12 (byte s) c e r" using nz v by (intro free_result_next [OF less.prems(3) _ r(2)]) blast
      ultimately show ?thesis using r(3-5) by blast
    qed
  qed
qed

lemma Fat16_count_free_loop_in:
  assumes "ok s" "off s = 2 * unat c" "fat_table Fat16 sz e"
  shows "\<exists>s'. Fat16_count_free_loop st e c k s = Some (Inr (k + word_of_nat (free_count Fat16 (byte s) c e)), s')
    \<and> ok s' \<and> byte s' = byte s \<and> rest s' = rest s"
  using assms(1,2)
proof (induction "unat e - unat c" arbitrary: c s k rule: less_induct)
  case less
  show ?case
  proof (cases "c < e")
    case True
    then have "fat_in Fat16 sz c" using assms(3) by (simp add: fat_table_def)
    then have "off s + 2 \<le> sz" using less.prems(2) by (simp add: fat_in_def fat_off_def fat_width_def)
    from read_u16_in [OF less.prems(1) this] obtain s1 where
      s1: "read_u16_le st s = Some (Inr (u16_from_le_bytes (bytes_at (byte s) (off s) 2)), s1)" "ok s1"
        "off s1 = off s + 2" "byte s1 = byte s" "rest s1 = rest s" .
    let ?v = "u16_from_le_bytes (bytes_at (byte s) (off s) 2)"
    let ?k = "if ?v = 0 then k + 1 else k"
    have v: "fat_get Fat16 (byte s) c = Free \<longleftrightarrow> ?v = 0"
      using less.prems(2) by (simp add: fat_get_free fat_raw_def fat_off_def ucast_0_iff16)
    have "unat e - unat (c + 1) < unat e - unat c" "off s1 = 2 * unat (c + 1)"
      using word_Suc(1) [OF True] True less.prems(2) s1(3) by (simp_all add: word_less_nat_alt)
    from less.hyps [OF this(1) s1(2) this(2), of ?k] obtain s' where
      r: "Fat16_count_free_loop st e (c + 1) ?k s1 = Some (Inr (?k + word_of_nat (free_count Fat16 (byte s1) (c + 1) e)), s')"
        "ok s'" "byte s' = byte s1" "rest s' = rest s1" by blast
    have "Fat16_count_free_loop st e c k s = Fat16_count_free_loop st e (c + 1) ?k s1"
      using True s1(1) by (subst Fat16_count_free_loop.simps) (simp add: Let_def)
    moreover have "k + word_of_nat (free_count Fat16 (byte s) c e) = ?k + word_of_nat (free_count Fat16 (byte s1) (c + 1) e)"
      using v s1(4) by (simp add: free_count_step [OF True])
    ultimately show ?thesis using r s1 by simp
  next
    case False
    then show ?thesis using less.prems by (subst Fat16_count_free_loop.simps) (simp add: free_count_end)
  qed
qed

lemma Fat32_count_free_loop_in:
  assumes "ok s" "off s = 4 * unat c" "fat_table Fat32 sz e"
  shows "\<exists>s'. Fat32_count_free_loop st e c k s = Some (Inr (k + word_of_nat (free_count Fat32 (byte s) c e)), s')
    \<and> ok s' \<and> byte s' = byte s \<and> rest s' = rest s"
  using assms(1,2)
proof (induction "unat e - unat c" arbitrary: c s k rule: less_induct)
  case less
  show ?case
  proof (cases "c < e")
    case True
    then have "fat_in Fat32 sz c" using assms(3) by (simp add: fat_table_def)
    then have "off s + 4 \<le> sz" using less.prems(2) by (simp add: fat_in_def fat_off_def fat_width_def)
    from read_u32_in [OF less.prems(1) this] obtain s1 where
      s1: "read_u32_le st s = Some (Inr (u32_from_le_bytes (bytes_at (byte s) (off s) 4)), s1)" "ok s1"
        "off s1 = off s + 4" "byte s1 = byte s" "rest s1 = rest s" .
    let ?v = "u32_from_le_bytes (bytes_at (byte s) (off s) 4)"
    let ?k = "if ?v AND 0x0FFFFFFF = 0 then k + 1 else k"
    have v: "fat_get Fat32 (byte s) c = Free \<longleftrightarrow> ?v AND 0x0FFFFFFF = 0"
      using less.prems(2) by (simp add: fat_get_free fat_raw_def fat_off_def)
    have "unat e - unat (c + 1) < unat e - unat c" "off s1 = 4 * unat (c + 1)"
      using word_Suc(1) [OF True] True less.prems(2) s1(3) by (simp_all add: word_less_nat_alt)
    from less.hyps [OF this(1) s1(2) this(2), of ?k] obtain s' where
      r: "Fat32_count_free_loop st e (c + 1) ?k s1 = Some (Inr (?k + word_of_nat (free_count Fat32 (byte s1) (c + 1) e)), s')"
        "ok s'" "byte s' = byte s1" "rest s' = rest s1" by blast
    have "Fat32_count_free_loop st e c k s = Fat32_count_free_loop st e (c + 1) ?k s1"
      using True s1(1) by (subst Fat32_count_free_loop.simps) (simp add: Let_def)
    moreover have "k + word_of_nat (free_count Fat32 (byte s) c e) = ?k + word_of_nat (free_count Fat32 (byte s1) (c + 1) e)"
      using v s1(4) by (simp add: free_count_step [OF True])
    ultimately show ?thesis using r s1 by simp
  next
    case False
    then show ?thesis using less.prems by (subst Fat32_count_free_loop.simps) (simp add: free_count_end)
  qed
qed

text \<open>
  The 12-bit loop reads two bytes at an even cluster and one more at an odd one; the two bytes of
  an odd entry are tested for zero with a gap between them.
\<close>

lemma Fat12_count_free_loop_in:
  assumes "ok s" "off s = fat_off Fat12 (unat c) + (if even (unat c) then 0 else 1)" "fat_table Fat12 sz e"
    and "even (unat c) \<or> p = u16_from_le_bytes (bytes_at (byte s) (fat_off Fat12 (unat c) - 1) 2)"
  shows "\<exists>s'. Fat12_count_free_loop st e c p k s = Some (Inr (k + word_of_nat (free_count Fat12 (byte s) c e)), s')
    \<and> ok s' \<and> byte s' = byte s \<and> rest s' = rest s"
  using assms(1,2,4)
proof (induction "unat e - unat c" arbitrary: c s p k rule: less_induct)
  case less
  show ?case
  proof (cases "c < e")
    case True
    let ?o = "fat_off Fat12 (unat c)"
    let ?m = "if c AND 1 = 0 then read_u16_le st else io_bind (read_u8 st) (\<lambda>n. io_return (ucast n))"
    let ?val = "\<lambda>q. if c AND 1 = 0 then q AND 0x0FFF else push_bit 8 q OR drop_bit 12 p"
    have "fat_in Fat12 sz c" using assms(3) True by (simp add: fat_table_def)
    then have room: "?o + 2 \<le> sz" by (simp add: fat_in_def fat_width_def)
    have "\<exists>q s1. ?m s = Some (Inr q, s1) \<and> (?val q = 0 \<longleftrightarrow> fat_get Fat12 (byte s) c = Free)
        \<and> (even (unat c) \<longrightarrow> q = u16_from_le_bytes (bytes_at (byte s) ?o 2))
        \<and> ok s1 \<and> off s1 = ?o + 2 \<and> byte s1 = byte s \<and> rest s1 = rest s"
    proof (cases "even (unat c)")
      case True
      then have "off s + 2 \<le> sz" using less.prems(2) room by simp
      from read_u16_in [OF less.prems(1) this] obtain s1 where
        "read_u16_le st s = Some (Inr (u16_from_le_bytes (bytes_at (byte s) (off s) 2)), s1)" "ok s1"
        "off s1 = off s + 2" "byte s1 = byte s" "rest s1 = rest s" .
      then show ?thesis using True less.prems(2)
        by (intro exI [of _ "u16_from_le_bytes (bytes_at (byte s) ?o 2)"] exI [of _ s1])
          (simp add: and_1_even fat_get_free fat_raw_def Let_def ucast_0_iff16)
    next
      case False
      then have "off s + 1 \<le> sz" using less.prems(2) room by simp
      from read_u8_in [OF less.prems(1) this] obtain s1 where
        s1: "read_u8 st s = Some (Inr (byte s (off s)), s1)" "ok s1" "off s1 = off s + 1" "byte s1 = byte s" "rest s1 = rest s" .
      have "?o \<noteq> 0" using odd_pos [OF False] by (simp add: fat_off_def)
      then have "(push_bit 8 (ucast (byte s (Suc ?o))) OR drop_bit 12 p = (0 :: u16)) = (drop_bit 4 (u16_from_le_bytes (bytes_at (byte s) ?o 2)) = 0)"
        using less.prems(3) False fat12_odd_zero [of "byte s" "?o - 1"] by simp
      then show ?thesis using False less.prems(2) s1
        by (intro exI [of _ "ucast (byte s (off s))"] exI [of _ s1])
          (simp add: and_1_even fat_get_free fat_raw_def Let_def ucast_0_iff16)
    qed
    then obtain q s1 where s1: "?m s = Some (Inr q, s1)" "?val q = 0 \<longleftrightarrow> fat_get Fat12 (byte s) c = Free"
      "even (unat c) \<Longrightarrow> q = u16_from_le_bytes (bytes_at (byte s) ?o 2)" "ok s1" "off s1 = ?o + 2" "byte s1 = byte s" "rest s1 = rest s" by blast
    note suc = word_Suc(1) [OF True]
    let ?k = "if ?val q = 0 then k + 1 else k"
    have less': "unat e - unat (c + 1) < unat e - unat c" using suc True by (simp add: word_less_nat_alt)
    have off': "off s1 = fat_off Fat12 (unat (c + 1)) + (if even (unat (c + 1)) then 0 else 1)"
      using s1(5) suc by (auto simp: fat_off_def elim!: oddE)
    have p': "even (unat (c + 1)) \<or> q = u16_from_le_bytes (bytes_at (byte s1) (fat_off Fat12 (unat (c + 1)) - 1) 2)"
      using s1(3,6) suc by (auto simp: fat_off_def)
    from less.hyps [OF less' s1(4) off' p', of ?k] obtain s' where
      r: "Fat12_count_free_loop st e (c + 1) q ?k s1 = Some (Inr (?k + word_of_nat (free_count Fat12 (byte s1) (c + 1) e)), s')"
        "ok s'" "byte s' = byte s1" "rest s' = rest s1" by blast
    have "Fat12_count_free_loop st e c p k s = Fat12_count_free_loop st e (c + 1) q ?k s1"
      using True s1(1) by (subst Fat12_count_free_loop.simps) (simp add: Let_def)
    moreover have "k + word_of_nat (free_count Fat12 (byte s) c e) = ?k + word_of_nat (free_count Fat12 (byte s1) (c + 1) e)"
      using s1(2,6) by (simp add: free_count_step [OF True])
    ultimately show ?thesis using r s1(6,7) by simp
  next
    case False
    then show ?thesis using less.prems by (subst Fat12_count_free_loop.simps) (simp add: free_count_end)
  qed
qed

lemma find_free_cluster_in:
  assumes "ok s" "fat_table ft sz e" "a < e"
  obtains r s' where "find_free_cluster st ft a e s = Some (r, s')" "free_result ft (byte s) a e r" "ok s'" "byte s' = byte s" "rest s' = rest s"
proof -
  let ?x = "ucast (case ft of Fat12 \<Rightarrow> a + a div 2 | Fat16 \<Rightarrow> a * 2 | Fat32 \<Rightarrow> a * 4) :: u64"
  have a: "fat_in ft sz a" using assms(2,3) by (simp add: fat_table_def)
  note x = fat_off_word [OF a]
  have room: "fat_off ft (unat a) + fat_width ft \<le> sz" using a by (simp add: fat_in_def)
  from seek_in [OF assms(1), of ?x] x room obtain s1 where
    s1: "st_seek st (Start ?x) s = Some (Inr ?x, s1)" "ok s1" "off s1 = fat_off ft (unat a)" "byte s1 = byte s" "rest s1 = rest s" by auto
  have "\<exists>r s'. find_free_cluster st ft a e s = Some (r, s') \<and> free_result ft (byte s) a e r \<and> ok s' \<and> byte s' = byte s \<and> rest s' = rest s"
  proof (cases ft)
    case Fat12
    have "off s1 + 2 \<le> sz" using s1(3) room Fat12 by (simp add: fat_width_def)
    from read_u16_in [OF s1(2) this] obtain s2 where
      s2: "read_u16_le st s1 = Some (Inr (u16_from_le_bytes (bytes_at (byte s1) (off s1) 2)), s2)" "ok s2"
        "off s2 = off s1 + 2" "byte s2 = byte s1" "rest s2 = rest s1" .
    have off2: "off s2 = fat_off Fat12 (unat a) + 2" using s1(3) s2(3) Fat12 by simp
    from Fat12_find_free_loop_in [OF s2(2) off2 assms(2) [unfolded Fat12] assms(3) refl] s1 s2 Fat12 show ?thesis
      by (simp add: find_free_cluster_def Fat12_find_free_def Let_def)
  next
    case Fat16
    from Fat16_find_free_loop_in [OF s1(2) _ assms(2) [unfolded Fat16], of a] s1 Fat16 show ?thesis
      by (simp add: find_free_cluster_def Fat16_find_free_def fat_off_def)
  next
    case Fat32
    from Fat32_find_free_loop_in [OF s1(2) _ assms(2) [unfolded Fat32], of a] s1 Fat32 show ?thesis
      by (simp add: find_free_cluster_def Fat32_find_free_def fat_off_def)
  qed
  then show thesis using that by blast
qed

lemma count_free_clusters_in:
  assumes "ok s" "fat_table ft sz (tot + 2)" "2 < tot + 2"
  obtains s' where "count_free_clusters st ft tot s = Some (Inr (word_of_nat (free_count ft (byte s) 2 (tot + 2))), s')"
    "ok s'" "byte s' = byte s" "rest s' = rest s"
proof -
  let ?x = "(case ft of Fat12 \<Rightarrow> 3 | Fat16 \<Rightarrow> 4 | Fat32 \<Rightarrow> 8) :: u64"
  have a: "fat_in ft sz 2" using assms(2,3) by (simp add: fat_table_def)
  have room: "fat_off ft 2 + fat_width ft \<le> sz" using a by (simp add: fat_in_def)
  have x: "unat ?x = fat_off ft 2" by (cases ft) (simp_all add: fat_off_def)
  from seek_in [OF assms(1), of ?x] x room obtain s1 where
    s1: "st_seek st (Start ?x) s = Some (Inr ?x, s1)" "ok s1" "off s1 = fat_off ft 2" "byte s1 = byte s" "rest s1 = rest s" by auto
  have "\<exists>s'. count_free_clusters st ft tot s = Some (Inr (word_of_nat (free_count ft (byte s) 2 (tot + 2))), s')
      \<and> ok s' \<and> byte s' = byte s \<and> rest s' = rest s"
  proof (cases ft)
    case Fat12
    from Fat12_count_free_loop_in [OF s1(2) _ assms(2) [unfolded Fat12], of 2 0 0] s1 Fat12 show ?thesis
      by (simp add: count_free_clusters_def Fat12_count_free_def Let_def fat_off_def RESERVED_FAT_ENTRIES_def)
  next
    case Fat16
    from Fat16_count_free_loop_in [OF s1(2) _ assms(2) [unfolded Fat16], of 2 0] s1 Fat16 show ?thesis
      by (simp add: count_free_clusters_def Fat16_count_free_def Let_def fat_off_def RESERVED_FAT_ENTRIES_def)
  next
    case Fat32
    from Fat32_count_free_loop_in [OF s1(2) _ assms(2) [unfolded Fat32], of 2 0] s1 Fat32 show ?thesis
      by (simp add: count_free_clusters_def Fat32_count_free_def Let_def fat_off_def RESERVED_FAT_ENTRIES_def)
  qed
  then show thesis using that by blast
qed

lemma alloc_cluster_in:
  assumes "ok s" "fat_table ft sz (tot + 2)" "2 < tot + 2" "pred_option (\<lambda>p. p < tot + 2) prev" "pred_option (\<lambda>h. 2 \<le> h) hint"
  obtains
    (found) c s' where "alloc_cluster st ft prev hint tot s = Some (Inr c, s')" "2 \<le> c" "c < tot + 2" "fat_get ft (byte s) c = Free"
      "ok s'" "rest s' = rest s"
      "byte s' = (let b = fat_put ft (byte s) c EndOfChain in case prev of Some p \<Rightarrow> fat_put ft b p (Data c) | None \<Rightarrow> b)"
  | (full) s' where "alloc_cluster st ft prev hint tot s = Some (Inl NotEnoughSpace, s')" "ok s'" "byte s' = byte s" "rest s' = rest s"
      "\<And>d. 2 \<le> d \<Longrightarrow> d < tot + 2 \<Longrightarrow> fat_get ft (byte s) d \<noteq> Free"
proof -
  let ?e = "tot + 2"
  define a where "a = (case hint of Some n \<Rightarrow> if n < ?e then n else 2 | None \<Rightarrow> 2)"
  have a: "a < ?e" "2 \<le> a" using assms(3,5) by (auto simp: a_def split: option.splits)
  let ?find = "io_try (find_free_cluster st ft a ?e) (\<lambda>r. case r of Inr n \<Rightarrow> io_return n
    | Inl e \<Rightarrow> if 2 < a then find_free_cluster st ft 2 a else io_err e)"
  have alloc: "alloc_cluster st ft prev hint tot s = io_bind ?find (\<lambda>c. io_bind (write_fat st ft c EndOfChain)
      (\<lambda>_. io_bind (case prev of Some n \<Rightarrow> write_fat st ft n (Data c) | None \<Rightarrow> io_return ()) (\<lambda>_. io_return c))) s"
    unfolding alloc_cluster_def Let_def RESERVED_FAT_ENTRIES_def a_def by (rule refl)
  have "\<exists>r s1. ?find s = Some (r, s1) \<and> ok s1 \<and> byte s1 = byte s \<and> rest s1 = rest s \<and>
      (case r of Inr c \<Rightarrow> 2 \<le> c \<and> c < ?e \<and> fat_get ft (byte s) c = Free
        | Inl err \<Rightarrow> err = NotEnoughSpace \<and> (\<forall>d. 2 \<le> d \<and> d < ?e \<longrightarrow> fat_get ft (byte s) d \<noteq> Free))"
  proof -
    from find_free_cluster_in [OF assms(1,2) a(1)] obtain r s1 where
      r: "find_free_cluster st ft a ?e s = Some (r, s1)" "free_result ft (byte s) a ?e r" "ok s1" "byte s1 = byte s" "rest s1 = rest s" .
    show ?thesis
    proof (cases r)
      case (Inr c)
      then show ?thesis using r a by (auto simp: free_result_def)
    next
      case (Inl err)
      then have err: "err = NotEnoughSpace" "\<forall>d. a \<le> d \<and> d < ?e \<longrightarrow> fat_get ft (byte s) d \<noteq> Free" using r(2) by (auto simp: free_result_def)
      show ?thesis
      proof (cases "2 < a")
        case True
        have "fat_table ft sz a" using assms(2) a(1) by (auto simp: fat_table_def)
        from find_free_cluster_in [OF r(3) this True] obtain r' s2 where
          r': "find_free_cluster st ft 2 a s1 = Some (r', s2)" "free_result ft (byte s1) 2 a r'" "ok s2" "byte s2 = byte s1" "rest s2 = rest s1" .
        then show ?thesis using r Inl True a(1) err(2)
          by (cases r') (auto simp: free_result_def not_less [symmetric])
      next
        case False
        then have "a = 2" using a(2) by simp
        then show ?thesis using r Inl err by simp
      qed
    qed
  qed
  then obtain r s1 where r: "?find s = Some (r, s1)" "ok s1" "byte s1 = byte s" "rest s1 = rest s"
    "case r of Inr c \<Rightarrow> 2 \<le> c \<and> c < ?e \<and> fat_get ft (byte s) c = Free
      | Inl err \<Rightarrow> err = NotEnoughSpace \<and> (\<forall>d. 2 \<le> d \<and> d < ?e \<longrightarrow> fat_get ft (byte s) d \<noteq> Free)" by blast
  show thesis
  proof (cases r)
    case (Inl err)
    then show ?thesis using r alloc by (intro full [of s1]) auto
  next
    case (Inr c)
    then have c: "2 \<le> c" "c < ?e" "fat_get ft (byte s) c = Free" using r(5) by simp_all
    have "fat_in ft sz c" using assms(2) c(2) by (simp add: fat_table_def)
    from write_fat_in [OF r(2) this, where v = EndOfChain] obtain s2 where
      s2: "write_fat st ft c EndOfChain s1 = Some (Inr (), s2)" "ok s2" "byte s2 = fat_put ft (byte s1) c EndOfChain" "rest s2 = rest s1" .
    show ?thesis
    proof (cases prev)
      case None
      then show ?thesis using r s2 Inr c alloc by (intro found [of c s2]) (simp_all add: Let_def)
    next
      case (Some p)
      then have "fat_in ft sz p" using assms(2,4) by (simp add: fat_table_def)
      from write_fat_in [OF s2(2) this, where v = "Data c"] obtain s3 where
        s3: "write_fat st ft p (Data c) s2 = Some (Inr (), s3)" "ok s3" "byte s3 = fat_put ft (byte s2) p (Data c)" "rest s3 = rest s2" .
      then show ?thesis using r s2 Inr c alloc Some by (intro found [of c s3]) (simp_all add: Let_def)
    qed
  qed
qed

lemma ClusterIterator_next_in:
  assumes "ok s" "fat_in (ci_fat_type self) sz c" "ci_cluster self = Some c" "\<not> ci_err self"
  obtains s' where "ClusterIterator_next st self s
      = (let n = (case fat_get (ci_fat_type self) (byte s) c of Data n \<Rightarrow> Some n | _ \<Rightarrow> None) in
         Some (Inr (self\<lparr>ci_cluster := n\<rparr>, map_option Inr n), s'))"
    "ok s'" "byte s' = byte s" "rest s' = rest s"
proof -
  from read_fat_in [OF assms(1,2)] obtain s' where
    s': "read_fat st (ci_fat_type self) c s = Some (Inr (fat_get (ci_fat_type self) (byte s) c), s')" "ok s'" "byte s' = byte s" "rest s' = rest s" .
  then show ?thesis using assms
    by (intro that [of s']) (simp_all add: ClusterIterator_next_def get_next_cluster_def Let_def)
qed

text \<open>One round of the loop that frees a chain.\<close>

lemma free_loop_step:
  assumes "ok s" "fat_in ft sz c" "self = \<lparr>ci_fat_type = ft, ci_cluster = Some c, ci_err = False\<rparr>"
  obtains s' where "ClusterIterator_free_loop st self k s
      = ClusterIterator_free_loop st (self\<lparr>ci_cluster := (case fat_get ft (byte s) c of Data n \<Rightarrow> Some n | _ \<Rightarrow> None)\<rparr>) (k + 1) s'"
    "ok s'" "byte s' = fat_put ft (byte s) c Free" "rest s' = rest s"
proof -
  have self: "fat_in (ci_fat_type self) sz c" "ci_cluster self = Some c" "\<not> ci_err self" using assms by simp_all
  from ClusterIterator_next_in [OF assms(1) self] obtain s1 where
    s1: "ClusterIterator_next st self s
      = (let n = (case fat_get (ci_fat_type self) (byte s) c of Data n \<Rightarrow> Some n | _ \<Rightarrow> None) in
         Some (Inr (self\<lparr>ci_cluster := n\<rparr>, map_option Inr n), s1))" "ok s1" "byte s1 = byte s" "rest s1 = rest s" .
  from write_fat_in [OF s1(2) assms(2), where v = Free] obtain s2 where
    s2: "write_fat st ft c Free s1 = Some (Inr (), s2)" "ok s2" "byte s2 = fat_put ft (byte s1) c Free" "rest s2 = rest s1" .
  show ?thesis using assms(3) s1 s2
    by (intro that [of s2]) (subst ClusterIterator_free_loop.simps, simp_all add: Let_def)
qed

lemma free_loop_None: "ci_cluster self = None \<Longrightarrow> ClusterIterator_free_loop st self k s = Some (Inr k, s)"
  by (subst ClusterIterator_free_loop.simps) simp

lemma free_chain_in:
  assumes "ok s" "fat_table ft sz e" "fat_chain (fat_get ft (byte s)) (c # cs)" "set (c # cs) \<subseteq> {..<e}"
  obtains s' where "ClusterIterator_free_loop st \<lparr>ci_fat_type = ft, ci_cluster = Some c, ci_err = False\<rparr> k s
      = Some (Inr (k + word_of_nat (length (c # cs))), s')"
    "ok s'" "rest s' = rest s" "\<And>d. fat_get ft (byte s') d = (if d \<in> set (c # cs) then Free else fat_get ft (byte s) d)"
proof -
  have "\<exists>s'. ClusterIterator_free_loop st \<lparr>ci_fat_type = ft, ci_cluster = Some c, ci_err = False\<rparr> k s
      = Some (Inr (k + word_of_nat (length (c # cs))), s') \<and> ok s' \<and> rest s' = rest s
      \<and> (\<forall>d. fat_get ft (byte s') d = (if d \<in> set (c # cs) then Free else fat_get ft (byte s) d))"
    using assms(1,3,4)
  proof (induction cs arbitrary: c k s)
    case Nil
    have "fat_in ft sz c" using Nil.prems(3) assms(2) by (simp add: fat_table_def)
    from free_loop_step [OF Nil.prems(1) this refl, of k] obtain s1 where
      s1: "ClusterIterator_free_loop st \<lparr>ci_fat_type = ft, ci_cluster = Some c, ci_err = False\<rparr> k s
        = ClusterIterator_free_loop st (\<lparr>ci_fat_type = ft, ci_cluster = Some c, ci_err = False\<rparr>\<lparr>ci_cluster :=
            (case fat_get ft (byte s) c of Data n \<Rightarrow> Some n | _ \<Rightarrow> None)\<rparr>) (k + 1) s1"
        "ok s1" "byte s1 = fat_put ft (byte s) c Free" "rest s1 = rest s" .
    have "(case fat_get ft (byte s) c of Data n \<Rightarrow> Some n | _ \<Rightarrow> None) = None"
      using Nil.prems(2) by (auto split: FatValue.splits)
    then show ?case using s1 by (intro exI [of _ s1]) (simp add: free_loop_None fat_get_put fat_storable_def)
  next
    case (Cons c' cs)
    have "fat_in ft sz c" using Cons.prems(3) assms(2) by (simp add: fat_table_def)
    from free_loop_step [OF Cons.prems(1) this refl, of k] obtain s1 where
      s1: "ClusterIterator_free_loop st \<lparr>ci_fat_type = ft, ci_cluster = Some c, ci_err = False\<rparr> k s
        = ClusterIterator_free_loop st (\<lparr>ci_fat_type = ft, ci_cluster = Some c, ci_err = False\<rparr>\<lparr>ci_cluster :=
            (case fat_get ft (byte s) c of Data n \<Rightarrow> Some n | _ \<Rightarrow> None)\<rparr>) (k + 1) s1"
        "ok s1" "byte s1 = fat_put ft (byte s) c Free" "rest s1 = rest s" .
    have c: "fat_get ft (byte s) c = Data c'" "c \<notin> set (c' # cs)"
      using Cons.prems(2) fat_chain_distinct [OF Cons.prems(2)] by simp_all
    have get1: "fat_get ft (byte s1) d = (if d = c then Free else fat_get ft (byte s) d)" for d
      using s1(3) by (simp add: fat_get_put fat_storable_def)
    have "fat_chain (fat_get ft (byte s1)) (c' # cs) \<longleftrightarrow> fat_chain (fat_get ft (byte s)) (c' # cs)"
      using c(2) by (intro fat_chain_cong) (auto simp: get1)
    then have "fat_chain (fat_get ft (byte s1)) (c' # cs)" using Cons.prems(2) by simp
    from Cons.IH [OF s1(2) this, of "k + 1"] Cons.prems(3) obtain s' where
      s': "ClusterIterator_free_loop st \<lparr>ci_fat_type = ft, ci_cluster = Some c', ci_err = False\<rparr> (k + 1) s1
          = Some (Inr (k + 1 + word_of_nat (length (c' # cs))), s')" "ok s'" "rest s' = rest s1"
        "\<And>d. fat_get ft (byte s') d = (if d \<in> set (c' # cs) then Free else fat_get ft (byte s1) d)" by auto
    show ?case
      using s1(1,4) s' c(1) by (intro exI [of _ s']) (simp add: get1)
  qed
  then show thesis using that by blast
qed

lemma truncate_chain_in:
  assumes "ok s" "fat_table ft sz e" "fat_chain (fat_get ft (byte s)) (c # cs)" "set (c # cs) \<subseteq> {..<e}"
  obtains s' where "ClusterIterator_truncate st (ClusterIterator_new ft c) s = Some (Inr (word_of_nat (length cs)), s')"
    "ok s'" "rest s' = rest s"
    "\<And>d. fat_get ft (byte s') d = (if d = c then EndOfChain else if d \<in> set cs then Free else fat_get ft (byte s) d)"
proof -
  let ?self = "ClusterIterator_new ft c"
  let ?n = "case fat_get ft (byte s) c of Data n \<Rightarrow> Some n | _ \<Rightarrow> None"
  have c: "fat_in ft sz c" using assms(2,4) by (simp add: fat_table_def)
  have self: "fat_in (ci_fat_type ?self) sz c" "ci_cluster ?self = Some c" "\<not> ci_err ?self"
    using c by (simp_all add: ClusterIterator_new_def)
  from ClusterIterator_next_in [OF assms(1) self] obtain s1 where
    s1: "ClusterIterator_next st ?self s
      = (let n = (case fat_get (ci_fat_type ?self) (byte s) c of Data n \<Rightarrow> Some n | _ \<Rightarrow> None) in
         Some (Inr (?self\<lparr>ci_cluster := n\<rparr>, map_option Inr n), s1))" "ok s1" "byte s1 = byte s" "rest s1 = rest s" .
  from write_fat_in [OF s1(2) c, where v = EndOfChain] obtain s2 where
    s2: "write_fat st ft c EndOfChain s1 = Some (Inr (), s2)" "ok s2" "byte s2 = fat_put ft (byte s1) c EndOfChain" "rest s2 = rest s1" .
  have get2: "fat_get ft (byte s2) d = (if d = c then EndOfChain else fat_get ft (byte s) d)" for d
    using s1(3) s2(3) by (simp add: fat_get_put fat_storable_def)
  have run: "ClusterIterator_truncate st ?self s
      = ClusterIterator_free_loop st \<lparr>ci_fat_type = ft, ci_cluster = ?n, ci_err = False\<rparr> 0 s2"
    using s1(1) s2(1) by (simp add: ClusterIterator_truncate_def ClusterIterator_new_def ClusterIterator_free_def Let_def)
  show thesis
  proof (cases cs)
    case Nil
    then have "?n = None" using assms(3) by (auto split: FatValue.splits)
    then show ?thesis using Nil run s1(4) s2(2,4) by (intro that [of s2]) (simp_all add: free_loop_None get2)
  next
    case (Cons c' cs')
    have c': "?n = Some c'" "c \<notin> set (c' # cs')"
      using assms(3) fat_chain_distinct [OF assms(3)] Cons by simp_all
    have "fat_chain (fat_get ft (byte s2)) (c' # cs') \<longleftrightarrow> fat_chain (fat_get ft (byte s)) (c' # cs')"
      using c'(2) by (intro fat_chain_cong) (auto simp: get2)
    then have "fat_chain (fat_get ft (byte s2)) (c' # cs')" using assms(3) Cons by simp
    from free_chain_in [OF s2(2) assms(2) this, of 0] assms(4) Cons obtain s' where
      s': "ClusterIterator_free_loop st \<lparr>ci_fat_type = ft, ci_cluster = Some c', ci_err = False\<rparr> 0 s2
          = Some (Inr (0 + word_of_nat (length (c' # cs'))), s')" "ok s'" "rest s' = rest s2"
        "\<And>d. fat_get ft (byte s') d = (if d \<in> set (c' # cs') then Free else fat_get ft (byte s2) d)" by auto
    show ?thesis using run c' s' s1(4) s2(4) Cons by (intro that [of s']) (auto simp: get2)
  qed
qed

text \<open>
  Freeing ends on every table whose links stay inside it, loops included: each round turns a link
  into a free entry or stops.
\<close>

lemma free_loop_ends:
  assumes "ok s" "fat_table ft sz e" "\<And>c n. c < e \<Longrightarrow> fat_get ft (byte s) c = Data n \<Longrightarrow> n < e" "c < e"
  shows "\<exists>n s'. ClusterIterator_free_loop st \<lparr>ci_fat_type = ft, ci_cluster = Some c, ci_err = False\<rparr> k s = Some (Inr n, s')
    \<and> ok s' \<and> rest s' = rest s \<and> (\<forall>d. fat_get ft (byte s') d = fat_get ft (byte s) d \<or> fat_get ft (byte s') d = Free)
    \<and> fat_get ft (byte s') c = Free"
  using assms(1,3,4)
proof (induction "card {d. d < e \<and> (\<exists>n. fat_get ft (byte s) d = Data n)}" arbitrary: c k s rule: less_induct)
  case less
  have "fat_in ft sz c" using less.prems(3) assms(2) by (simp add: fat_table_def)
  from free_loop_step [OF less.prems(1) this refl, of k] obtain s1 where
    s1: "ClusterIterator_free_loop st \<lparr>ci_fat_type = ft, ci_cluster = Some c, ci_err = False\<rparr> k s
      = ClusterIterator_free_loop st (\<lparr>ci_fat_type = ft, ci_cluster = Some c, ci_err = False\<rparr>\<lparr>ci_cluster :=
          (case fat_get ft (byte s) c of Data n \<Rightarrow> Some n | _ \<Rightarrow> None)\<rparr>) (k + 1) s1"
      "ok s1" "byte s1 = fat_put ft (byte s) c Free" "rest s1 = rest s" .
  have get1: "fat_get ft (byte s1) d = (if d = c then Free else fat_get ft (byte s) d)" for d
    using s1(3) by (simp add: fat_get_put fat_storable_def)
  show ?case
  proof (cases "\<exists>n. fat_get ft (byte s) c = Data n")
    case False
    then have "(case fat_get ft (byte s) c of Data n \<Rightarrow> Some n | _ \<Rightarrow> None) = None" by (auto split: FatValue.splits)
    then show ?thesis using s1(1,2,4) by (intro exI [of _ "k + 1"] exI [of _ s1]) (simp add: free_loop_None get1)
  next
    case True
    then obtain n where n: "fat_get ft (byte s) c = Data n" by blast
    have sub: "{d. d < e \<and> (\<exists>n. fat_get ft (byte s1) d = Data n)} \<subset> {d. d < e \<and> (\<exists>n. fat_get ft (byte s) d = Data n)}"
      using n less.prems(3) by (auto simp: get1)
    have "card {d. d < e \<and> (\<exists>n. fat_get ft (byte s1) d = Data n)} < card {d. d < e \<and> (\<exists>n. fat_get ft (byte s) d = Data n)}"
      by (rule psubset_card_mono [OF _ sub]) simp
    moreover have "m < e" if "d < e" "fat_get ft (byte s1) d = Data m" for d m
      using that less.prems(2) by (auto simp: get1 split: if_splits)
    moreover have "n < e" using n less.prems(2,3) by blast
    ultimately obtain m s' where
      s': "ClusterIterator_free_loop st \<lparr>ci_fat_type = ft, ci_cluster = Some n, ci_err = False\<rparr> (k + 1) s1 = Some (Inr m, s')"
        "ok s'" "rest s' = rest s1" "\<And>d. fat_get ft (byte s') d = fat_get ft (byte s1) d \<or> fat_get ft (byte s') d = Free"
      using less.hyps [OF _ s1(2), of n "k + 1"] by blast
    have "fat_get ft (byte s') d = fat_get ft (byte s) d \<or> fat_get ft (byte s') d = Free" for d
      using s'(4) [of d] by (auto simp: get1 split: if_splits)
    moreover have "fat_get ft (byte s') c = Free" using s'(4) [of c] by (simp add: get1)
    ultimately show ?thesis using s1 s' n by simp
  qed
qed

end

end
