(* ===== verification/Fat_Fs.thy ===== *)
theory Fat_Fs
  imports Fat_Table
begin

text \<open>
  The mounted file system (\<^verbatim>\<open>rust-fatfs/src/fs.rs\<close>): the FS information sector, mounting, the
  allocation and release of clusters, the status flags and unmounting, and formatting.

  The storage is a stream \<^term>\<open>st\<close> on the field \<^term>\<open>fs_disk\<close>. A \<^verbatim>\<open>RefCell\<close> or \<^verbatim>\<open>Cell\<close> field is a field of
  the record: the code never holds two borrows of one cell at a time. The OEM code page converter
  and the time provider of the kernel have no state.
\<close>

section \<open>FS information sector\<close>

record FsInfoSector =
  fi_free_cluster_count :: "u32 option"
  fi_next_free_cluster :: "u32 option"
  fi_dirty :: bool

definition FsInfoSector_default :: FsInfoSector where
  "FsInfoSector_default = \<lparr>fi_free_cluster_count = None, fi_next_free_cluster = None, fi_dirty = False\<rparr>"

definition LEAD_SIG :: u32 where "LEAD_SIG = 0x41615252"
definition STRUC_SIG :: u32 where "STRUC_SIG = 0x61417272"
definition TRAIL_SIG :: u32 where "TRAIL_SIG = 0xAA550000"

definition FsInfoSector_deserialize :: "'s stream \<Rightarrow> ('s, FsInfoSector) fat_io" where
  "FsInfoSector_deserialize rdr =
     io_bind (read_u32_le rdr) (\<lambda>lead_sig.
     if lead_sig \<noteq> LEAD_SIG then io_err CorruptedFileSystem
     else
     io_bind (read_exact rdr 480) (\<lambda>_.
     io_bind (read_u32_le rdr) (\<lambda>struc_sig.
     if struc_sig \<noteq> STRUC_SIG then io_err CorruptedFileSystem
     else
     io_bind (read_u32_le rdr) (\<lambda>n.
     let free_cluster_count = (if n = 0xFFFFFFFF then None else Some n) in
     io_bind (read_u32_le rdr) (\<lambda>n.
     let next_free_cluster = (if n = 0xFFFFFFFF then None else if n = 0 \<or> n = 1 then None else Some n) in
     io_bind (read_exact rdr 12) (\<lambda>_.
     io_bind (read_u32_le rdr) (\<lambda>trail_sig.
     if trail_sig \<noteq> TRAIL_SIG then io_err CorruptedFileSystem
     else
     io_return \<lparr>fi_free_cluster_count = free_cluster_count, fi_next_free_cluster = next_free_cluster,
       fi_dirty = False\<rparr>)))))))"

definition FsInfoSector_serialize :: "FsInfoSector \<Rightarrow> 's stream \<Rightarrow> ('s, unit) fat_io" where
  "FsInfoSector_serialize self wrt = io_seq [
     write_u32_le wrt LEAD_SIG,
     write_all wrt (replicate 480 0),
     write_u32_le wrt STRUC_SIG,
     write_u32_le wrt (unwrap_or (fi_free_cluster_count self) 0xFFFFFFFF),
     write_u32_le wrt (unwrap_or (fi_next_free_cluster self) 0xFFFFFFFF),
     write_all wrt (replicate 12 0),
     write_u32_le wrt TRAIL_SIG]"

definition FsInfoSector_validate_and_fix :: "FsInfoSector \<Rightarrow> u32 \<Rightarrow> FsInfoSector" where
  "FsInfoSector_validate_and_fix self total_clusters =
     (let max_valid_cluster_number = total_clusters + RESERVED_FAT_ENTRIES;
          self = (case fi_free_cluster_count self of
              Some n \<Rightarrow> if n > total_clusters then self\<lparr>fi_free_cluster_count := None\<rparr> else self
            | None \<Rightarrow> self) in
      case fi_next_free_cluster self of
        Some n \<Rightarrow> if n > max_valid_cluster_number then self\<lparr>fi_next_free_cluster := None\<rparr> else self
      | None \<Rightarrow> self)"

definition FsInfoSector_map_free_clusters :: "(u32 \<Rightarrow> u32) \<Rightarrow> FsInfoSector \<Rightarrow> FsInfoSector" where
  "FsInfoSector_map_free_clusters map_fn self =
     (case fi_free_cluster_count self of
        Some n \<Rightarrow> self\<lparr>fi_free_cluster_count := Some (map_fn n), fi_dirty := True\<rparr>
      | None \<Rightarrow> self)"

definition FsInfoSector_set_next_free_cluster :: "u32 \<Rightarrow> FsInfoSector \<Rightarrow> FsInfoSector" where
  "FsInfoSector_set_next_free_cluster cluster self =
     self\<lparr>fi_next_free_cluster := Some cluster, fi_dirty := True\<rparr>"

definition FsInfoSector_set_free_cluster_count :: "u32 \<Rightarrow> FsInfoSector \<Rightarrow> FsInfoSector" where
  "FsInfoSector_set_free_cluster_count free_cluster_count self =
     self\<lparr>fi_free_cluster_count := Some free_cluster_count, fi_dirty := True\<rparr>"

section \<open>The file system\<close>

record FsOptions =
  fso_update_accessed_date :: bool

definition FsOptions_new :: FsOptions where
  "FsOptions_new = \<lparr>fso_update_accessed_date = False\<rparr>"

definition FsOptions_update_accessed_date :: "FsOptions \<Rightarrow> bool \<Rightarrow> FsOptions" where
  "FsOptions_update_accessed_date self enabled = self\<lparr>fso_update_accessed_date := enabled\<rparr>"

record FileSystemStats =
  stats_cluster_size :: u32
  stats_total_clusters :: u32
  stats_free_clusters :: u32

record 's FileSystem =
  fs_disk :: 's
  fs_options :: FsOptions
  fs_fat_type :: FatType
  fs_bpb :: BiosParameterBlock
  fs_first_data_sector :: u32
  fs_root_dir_sectors :: u32
  fs_total_clusters :: u32
  fs_fs_info :: FsInfoSector
  fs_current_status_flags :: FsStatusFlags

text \<open>A computation on the storage, and on a temporary slice.\<close>

definition io_disk :: "('s, 'a) fat_io \<Rightarrow> ('s FileSystem, 'a) fat_io" where
  "io_disk m self = do { (r, d) \<leftarrow> m (fs_disk self); Some (r, self\<lparr>fs_disk := d\<rparr>) }"

definition io_get :: "('s \<Rightarrow> 'a) \<Rightarrow> ('s, 'a) fat_io" where
  "io_get f s = Some (Inr (f s), s)"

definition io_modify :: "('s \<Rightarrow> 's) \<Rightarrow> ('s, unit) fat_io" where
  "io_modify f s = Some (Inr (), f s)"

definition with_slice :: "DiskSlice \<Rightarrow> (DiskSlice \<times> 's, 'a) fat_io \<Rightarrow> ('s, 'a) fat_io" where
  "with_slice sl m s = do { (r, (_, s)) \<leftarrow> m (sl, s); Some (r, s) }"

text \<open>\<^verbatim>\<open>new\<close> moves the storage into the file system.\<close>

definition FileSystem_new :: "'s stream \<Rightarrow> FsOptions \<Rightarrow> ('s, 's FileSystem) fat_io" where
  "FileSystem_new st options =
     io_bind (BootSector_deserialize st) (\<lambda>boot.
     io_bind (BootSector_validate boot) (\<lambda>_.
     let bpb = boot_bpb boot in
     io_bind (io_lift (BPB_root_dir_sectors bpb)) (\<lambda>root_dir_sectors.
     io_bind (io_lift (BPB_first_data_sector bpb)) (\<lambda>first_data_sector.
     io_bind (io_lift (BPB_total_clusters bpb)) (\<lambda>total_clusters.
     let fat_type = FatType_from_clusters total_clusters in
     io_bind (if fat_type = Fat32 then
         io_bind (st_seek st (Start (BPB_bytes_from_sectors bpb (BPB_fs_info_sector bpb)))) (\<lambda>_.
         FsInfoSector_deserialize st)
       else io_return FsInfoSector_default) (\<lambda>fs_info.
     let fs_info = (if sf_dirty (BPB_status_flags bpb) then fs_info\<lparr>fi_free_cluster_count := None\<rparr> else fs_info);
         fs_info = FsInfoSector_validate_and_fix fs_info total_clusters;
         status_flags = BPB_status_flags bpb in
     (\<lambda>disk. io_return \<lparr>fs_disk = disk, fs_options = options, fs_fat_type = fat_type, fs_bpb = bpb,
       fs_first_data_sector = first_data_sector, fs_root_dir_sectors = root_dir_sectors,
       fs_total_clusters = total_clusters, fs_fs_info = fs_info, fs_current_status_flags = status_flags\<rparr> disk)))))))"

definition rposition_end :: "('a \<Rightarrow> bool) \<Rightarrow> 'a list \<Rightarrow> nat" where
  "rposition_end p xs = length (dropWhile (\<lambda>x. \<not> p x) (rev xs))"

definition SFN_PADDING :: u8 where "SFN_PADDING = 0x20"

definition FileSystem_volume_id :: "'s FileSystem \<Rightarrow> u32" where
  "FileSystem_volume_id self = bpb_volume_id (fs_bpb self)"

definition FileSystem_volume_label_as_bytes :: "'s FileSystem \<Rightarrow> u8 list" where
  "FileSystem_volume_label_as_bytes self =
     (let full_label_slice = bpb_volume_label (fs_bpb self);
          len = rposition_end (\<lambda>b. b \<noteq> SFN_PADDING) full_label_slice in
      take len full_label_slice)"

definition offset_from_sector :: "'s FileSystem \<Rightarrow> u32 \<Rightarrow> u64" where
  "offset_from_sector self sector = BPB_bytes_from_sectors (fs_bpb self) sector"

definition sector_from_cluster :: "'s FileSystem \<Rightarrow> u32 \<Rightarrow> u32" where
  "sector_from_cluster self cluster =
     fs_first_data_sector self + BPB_sectors_from_clusters (fs_bpb self) (cluster - RESERVED_FAT_ENTRIES)"

definition FileSystem_cluster_size :: "'s FileSystem \<Rightarrow> u32" where
  "FileSystem_cluster_size self = BPB_cluster_size (fs_bpb self)"

definition offset_from_cluster :: "'s FileSystem \<Rightarrow> u32 \<Rightarrow> u64" where
  "offset_from_cluster self cluster = offset_from_sector self (sector_from_cluster self cluster)"

definition bytes_from_clusters :: "'s FileSystem \<Rightarrow> u32 \<Rightarrow> u64" where
  "bytes_from_clusters self clusters =
     BPB_bytes_from_sectors (fs_bpb self) (BPB_sectors_from_clusters (fs_bpb self) clusters)"

definition clusters_from_bytes :: "'s FileSystem \<Rightarrow> u64 \<Rightarrow> u32 option" where
  "clusters_from_bytes self bytes = BPB_clusters_from_bytes (fs_bpb self) bytes"

section \<open>Access to the storage\<close>

definition set_dirty_flag :: "'s stream \<Rightarrow> bool \<Rightarrow> ('s FileSystem, unit) fat_io" where
  "set_dirty_flag st dirty self = (
     let flags = BPB_status_flags (fs_bpb self);
         flags = flags\<lparr>sf_dirty := sf_dirty flags \<or> dirty\<rparr>;
         current_flags = fs_current_status_flags self in
     if flags = current_flags then io_return () self
     else
       let encoded = FsStatusFlags_encode flags;
           offset = (if fs_fat_type self = Fat32 then 0x041 else 0x025) in
       io_bind (io_disk (st_seek st (Start offset))) (\<lambda>_.
       io_bind (io_disk (write_u8 st encoded)) (\<lambda>_.
       io_modify (\<lambda>self. self\<lparr>fs_current_status_flags := flags\<rparr>))) self)"

definition FsIoAdapter :: "'s stream \<Rightarrow> 's FileSystem stream" where
  "FsIoAdapter st = \<lparr>
     st_read = (\<lambda>n. io_disk (st_read st n)),
     st_write = (\<lambda>buf.
       io_bind (io_disk (st_write st buf)) (\<lambda>sz.
       io_bind (if sz > 0 then set_dirty_flag st True else io_return ()) (\<lambda>_.
       io_return sz))),
     st_flush = io_disk (st_flush st),
     st_seek = (\<lambda>pos. io_disk (st_seek st pos)),
     st_eof = st_eof st, st_zero = st_zero st\<rparr>"

text \<open>A computation on the slice of the file allocation table.\<close>

definition with_fat :: "(DiskSlice \<times> 's FileSystem, 'a) fat_io \<Rightarrow> ('s FileSystem, 'a) fat_io" where
  "with_fat m self = with_slice (fat_slice (fs_bpb self)) m self"

partial_function (option) write_zeros :: "'s stream \<Rightarrow> u64 \<Rightarrow> ('s, unit) fat_io" where
  "write_zeros disk len s =
     (if len > 0 then
        let write_size = min len 512 in
        io_bind (write_all disk (replicate (unat write_size) 0)) (\<lambda>_ s. write_zeros disk (len - write_size) s) s
      else io_return () s)"

declare write_zeros.simps [code]

section \<open>Clusters\<close>

definition truncate_cluster_chain :: "'s stream \<Rightarrow> u32 \<Rightarrow> ('s FileSystem, unit) fat_io" where
  "truncate_cluster_chain st cluster =
     io_bind (io_get fs_fat_type) (\<lambda>fat_type.
     io_bind (with_fat (ClusterIterator_truncate (slice_stream (FsIoAdapter st)) (ClusterIterator_new fat_type cluster))) (\<lambda>num_free.
     io_modify (\<lambda>self. self\<lparr>fs_fs_info := FsInfoSector_map_free_clusters (\<lambda>n. n + num_free) (fs_fs_info self)\<rparr>)))"

definition free_cluster_chain :: "'s stream \<Rightarrow> u32 \<Rightarrow> ('s FileSystem, unit) fat_io" where
  "free_cluster_chain st cluster =
     io_bind (io_get fs_fat_type) (\<lambda>fat_type.
     io_bind (with_fat (ClusterIterator_free (slice_stream (FsIoAdapter st)) (ClusterIterator_new fat_type cluster))) (\<lambda>num_free.
     io_modify (\<lambda>self. self\<lparr>fs_fs_info := FsInfoSector_map_free_clusters (\<lambda>n. n + num_free) (fs_fs_info self)\<rparr>)))"

definition FileSystem_alloc_cluster :: "'s stream \<Rightarrow> u32 option \<Rightarrow> bool \<Rightarrow> ('s FileSystem, u32) fat_io" where
  "FileSystem_alloc_cluster st prev_cluster zero self = (
     let hint = fi_next_free_cluster (fs_fs_info self) in
     io_bind (with_fat (alloc_cluster (slice_stream (FsIoAdapter st)) (fs_fat_type self) prev_cluster hint (fs_total_clusters self))) (\<lambda>cluster.
     io_bind (if zero then
         io_bind (io_disk (st_seek st (Start (offset_from_cluster self cluster)))) (\<lambda>_.
         io_disk (write_zeros st (ucast (FileSystem_cluster_size self))))
       else io_return ()) (\<lambda>_.
     io_bind (io_modify (\<lambda>self. self\<lparr>fs_fs_info :=
         FsInfoSector_map_free_clusters (\<lambda>n. n - 1) (FsInfoSector_set_next_free_cluster (cluster + 1) (fs_fs_info self))\<rparr>)) (\<lambda>_.
     io_return cluster))) self)"

definition read_status_flags :: "'s stream \<Rightarrow> ('s FileSystem, FsStatusFlags) fat_io" where
  "read_status_flags st self = (
     let bpb_status = BPB_status_flags (fs_bpb self) in
     io_bind (with_fat (read_fat_flags (slice_stream (FsIoAdapter st)) (fs_fat_type self))) (\<lambda>fat_status.
     io_return \<lparr>sf_dirty = sf_dirty bpb_status \<or> sf_dirty fat_status,
       sf_io_error = sf_io_error bpb_status \<or> sf_io_error fat_status\<rparr>) self)"

definition recalc_free_clusters :: "'s stream \<Rightarrow> ('s FileSystem, u32) fat_io" where
  "recalc_free_clusters st self =
     io_bind (with_fat (count_free_clusters (slice_stream (FsIoAdapter st)) (fs_fat_type self) (fs_total_clusters self))) (\<lambda>free_cluster_count.
     io_bind (io_modify (\<lambda>self. self\<lparr>fs_fs_info := FsInfoSector_set_free_cluster_count free_cluster_count (fs_fs_info self)\<rparr>)) (\<lambda>_.
     io_return free_cluster_count)) self"

definition FileSystem_stats :: "'s stream \<Rightarrow> ('s FileSystem, FileSystemStats) fat_io" where
  "FileSystem_stats st self = (
     let free_clusters_option = fi_free_cluster_count (fs_fs_info self) in
     io_bind (case free_clusters_option of Some n \<Rightarrow> io_return n | None \<Rightarrow> recalc_free_clusters st) (\<lambda>free_clusters.
     io_return \<lparr>stats_cluster_size = FileSystem_cluster_size self, stats_total_clusters = fs_total_clusters self,
       stats_free_clusters = free_clusters\<rparr>) self)"

section \<open>Unmounting\<close>

definition flush_fs_info :: "'s stream \<Rightarrow> ('s FileSystem, unit) fat_io" where
  "flush_fs_info st self = (
     if fs_fat_type self = Fat32 \<and> fi_dirty (fs_fs_info self) then
       let fs_info_sector_offset = offset_from_sector self (ucast (bpb_fs_info_sector (fs_bpb self))) in
       io_bind (io_disk (st_seek st (Start fs_info_sector_offset))) (\<lambda>_.
       io_bind (io_disk (FsInfoSector_serialize (fs_fs_info self) st)) (\<lambda>_.
       io_modify (\<lambda>self. self\<lparr>fs_fs_info := (fs_fs_info self)\<lparr>fi_dirty := False\<rparr>\<rparr>))) self
     else io_return () self)"

definition unmount_internal :: "'s stream \<Rightarrow> ('s FileSystem, unit) fat_io" where
  "unmount_internal st =
     io_bind (flush_fs_info st) (\<lambda>_.
     set_dirty_flag st False)"

definition FileSystem_drop :: "'s stream \<Rightarrow> 's FileSystem \<Rightarrow> 's option" where
  "FileSystem_drop st self = do { (_, self) \<leftarrow> unmount_internal st self; Some (fs_disk self) }"

definition unmount :: "'s stream \<Rightarrow> 's FileSystem \<Rightarrow> ((Error + unit) \<times> 's) option" where
  "unmount st self = do { (r, self) \<leftarrow> unmount_internal st self; d \<leftarrow> FileSystem_drop st self; Some (r, d) }"

section \<open>OEM code page\<close>

text \<open>Characters are their code points.\<close>

type_synonym rchar = u32

definition LossyOemCpConverter_decode :: "u8 \<Rightarrow> rchar" where
  "LossyOemCpConverter_decode oem_char = (if oem_char \<le> 0x7F then ucast oem_char else 0xFFFD)"

definition LossyOemCpConverter_encode :: "rchar \<Rightarrow> u8 option" where
  "LossyOemCpConverter_encode uni_char = (if uni_char \<le> 0x7F then Some (ucast uni_char) else None)"

definition FileSystem_volume_label :: "'s FileSystem \<Rightarrow> rchar list" where
  "FileSystem_volume_label self = map LossyOemCpConverter_decode (FileSystem_volume_label_as_bytes self)"

section \<open>The adapter as a storage\<close>

text \<open>
  The adapter reads and writes the storage and marks the volume dirty at the first write. The
  byte of the boot sector that holds the flag is the only one it disturbs.
\<close>

definition dirty_addr :: "FatType \<Rightarrow> nat" where
  "dirty_addr ft = (if ft = Fat32 then 0x41 else 0x25)"

definition adapter_ok :: "('s \<Rightarrow> bool) \<Rightarrow> nat \<Rightarrow> FatType \<Rightarrow> 's FileSystem \<Rightarrow> bool" where
  "adapter_ok ok cap ft fs \<longleftrightarrow> ok (fs_disk fs) \<and> fs_fat_type fs = ft \<and> dirty_addr ft < cap"

definition fs_static :: "'s FileSystem \<Rightarrow> FsOptions \<times> BiosParameterBlock \<times> u32 \<times> u32 \<times> u32 \<times> FsInfoSector" where
  "fs_static fs = (fs_options fs, fs_bpb fs, fs_first_data_sector fs, fs_root_dir_sectors fs, fs_total_clusters fs, fs_fs_info fs)"

lemma io_disk_step [simp]: "m (fs_disk fs) = Some (r, d) \<Longrightarrow> io_disk m fs = Some (r, fs\<lparr>fs_disk := d\<rparr>)"
  by (simp add: io_disk_def)

lemma io_get_simp [simp]: "io_get f s = Some (Inr (f s), s)"
  by (simp add: io_get_def)

lemma io_modify_simp [simp]: "io_modify f s = Some (Inr (), f s)"
  by (simp add: io_modify_def)

context byte_stream
begin

lemma write_u8_at:
  assumes "ok s" "unat p + 1 \<le> cap"
  obtains s1 s2 where "st_seek st (Start p) s = Some (Inr p, s1)" "write_u8 st b s1 = Some (Inr (), s2)" "ok s2"
    "img s2 = patch (img s) (unat p) [b]"
proof -
  from seek_law [OF assms(1), of p] obtain s1 where s1: "st_seek st (Start p) s = Some (Inr p, s1)" "ok s1" "pos s1 = unat p" "img s1 = img s"
    by blast
  have "length [b] < 2 ^ 32" "pos s1 + length [b] \<le> cap" using s1(3) assms(2) by simp_all
  from write_all_stream [OF s1(2) this] obtain s2 where "write_all st [b] s1 = Some (Inr (), s2)" "ok s2"
    "img s2 = patch (img s1) (pos s1) [b]" by metis
  then show ?thesis using s1 that by (simp add: write_u8_def)
qed

lemma set_dirty_flag_ok:
  assumes "adapter_ok ok cap ft fs"
  obtains fs' where "set_dirty_flag st dirty fs = Some (Inr (), fs')" "adapter_ok ok cap ft fs'" "fs_static fs' = fs_static fs"
    "\<And>a. a \<noteq> dirty_addr ft \<Longrightarrow> img (fs_disk fs') a = img (fs_disk fs) a"
proof -
  let ?flags = "(BPB_status_flags (fs_bpb fs))\<lparr>sf_dirty := sf_dirty (BPB_status_flags (fs_bpb fs)) \<or> dirty\<rparr>"
  let ?off = "if fs_fat_type fs = Fat32 then 0x041 else 0x025 :: u64"
  show thesis
  proof (cases "?flags = fs_current_status_flags fs")
    case True
    then show ?thesis using assms that [of fs] by (simp add: set_dirty_flag_def Let_def)
  next
    case False
    have "ok (fs_disk fs)" "unat ?off + 1 \<le> cap" "unat ?off = dirty_addr ft"
      using assms by (auto simp: adapter_ok_def dirty_addr_def)
    from write_u8_at [OF this(1,2), of "FsStatusFlags_encode ?flags"] this(3) obtain s1 s2 where
      s: "st_seek st (Start ?off) (fs_disk fs) = Some (Inr ?off, s1)"
        "write_u8 st (FsStatusFlags_encode ?flags) s1 = Some (Inr (), s2)" "ok s2"
        "img s2 = patch (img (fs_disk fs)) (dirty_addr ft) [FsStatusFlags_encode ?flags]" by metis
    have "set_dirty_flag st dirty fs = Some (Inr (), fs\<lparr>fs_disk := s2, fs_current_status_flags := ?flags\<rparr>)"
      using False s(1,2) by (simp add: set_dirty_flag_def Let_def)
    moreover have "img s2 a = img (fs_disk fs) a" if "a \<noteq> dirty_addr ft" for a
      using s(4) that by (auto simp: patch_def)
    ultimately show ?thesis using s(3) assms that by (simp add: adapter_ok_def fs_static_def)
  qed
qed

lemma adapter_write:
  assumes "adapter_ok ok cap ft fs" "length buf < 2 ^ 32" "pos (fs_disk fs) + length buf \<le> cap"
  shows "\<exists>fs'. st_write (FsIoAdapter st) buf fs = Some (Inr (length buf), fs') \<and> adapter_ok ok cap ft fs'
    \<and> (\<forall>a. a \<notin> {dirty_addr ft} \<longrightarrow> img (fs_disk fs') a = patch (img (fs_disk fs)) (pos (fs_disk fs)) buf a) \<and> fs_static fs' = fs_static fs"
proof -
  have "ok (fs_disk fs)" using assms(1) by (simp add: adapter_ok_def)
  from write_law [OF this assms(2,3)] obtain s1 where s1: "st_write st buf (fs_disk fs) = Some (Inr (length buf), s1)" "ok s1"
    "\<And>a. img s1 a = patch (img (fs_disk fs)) (pos (fs_disk fs)) buf a" using vol_empty by auto
  let ?fs1 = "fs\<lparr>fs_disk := s1\<rparr>"
  have ok1: "adapter_ok ok cap ft ?fs1" "fs_static ?fs1 = fs_static fs" using s1(2) assms(1) by (simp_all add: adapter_ok_def fs_static_def)
  from set_dirty_flag_ok [OF ok1(1), of True] obtain fs2 where
    fs2: "set_dirty_flag st True ?fs1 = Some (Inr (), fs2)" "adapter_ok ok cap ft fs2" "fs_static fs2 = fs_static ?fs1"
      "\<And>a. a \<noteq> dirty_addr ft \<Longrightarrow> img (fs_disk fs2) a = img (fs_disk ?fs1) a" by blast
  show ?thesis
  proof (cases "buf = []")
    case True
    then show ?thesis using s1 ok1 by (intro exI [of _ ?fs1]) (simp add: FsIoAdapter_def)
  next
    case False
    then show ?thesis using s1 ok1 fs2 by (intro exI [of _ fs2]) (simp add: FsIoAdapter_def)
  qed
qed

end

sublocale byte_stream \<subseteq> adapter: byte_io "FsIoAdapter st" "adapter_ok ok cap ft" "\<lambda>fs. img (fs_disk fs)" "\<lambda>fs. pos (fs_disk fs)"
    cap "{dirty_addr ft}" fs_static for ft
proof
  fix fs assume a: "adapter_ok ok cap ft fs"
  then have ok: "ok (fs_disk fs)" by (simp add: adapter_ok_def)
  show "\<exists>s'. st_seek (FsIoAdapter st) (Start x) fs = Some (Inr x, s') \<and> adapter_ok ok cap ft s' \<and> pos (fs_disk s') = unat x
      \<and> img (fs_disk s') = img (fs_disk fs) \<and> fs_static s' = fs_static fs" for x
    using seek_law [OF ok, of x] a by (auto simp: FsIoAdapter_def adapter_ok_def fs_static_def)
  show "\<exists>s'. st_read (FsIoAdapter st) n fs = Some (Inr (bytes_at (img (fs_disk fs)) (pos (fs_disk fs)) n), s') \<and> adapter_ok ok cap ft s'
      \<and> pos (fs_disk s') = pos (fs_disk fs) + n \<and> img (fs_disk s') = img (fs_disk fs) \<and> fs_static s' = fs_static fs"
    if "n < 2 ^ 32" "pos (fs_disk fs) + n \<le> cap" for n
    using read_law [OF ok that] a by (auto simp: FsIoAdapter_def adapter_ok_def fs_static_def)
  show "\<exists>s'. st_flush (FsIoAdapter st) fs = Some (Inr (), s') \<and> adapter_ok ok cap ft s' \<and> img (fs_disk s') = img (fs_disk fs)
      \<and> fs_static s' = fs_static fs"
    using flush_law [OF ok] a by (auto simp: FsIoAdapter_def adapter_ok_def fs_static_def)
qed (rule adapter_write)

section \<open>Volumes\<close>

text \<open>
  The layout of a volume on a storage of \<^term>\<open>cap\<close> bytes: the file allocation tables between the boot
  sector (and on FAT32 the FS information sector) and the root directory, then the clusters, all
  inside the storage, and an entry of the table for every cluster.
\<close>

definition fs_spc :: "'s FileSystem \<Rightarrow> nat" where "fs_spc fs = unat (bpb_sectors_per_cluster (fs_bpb fs))"
definition fs_bps :: "'s FileSystem \<Rightarrow> nat" where "fs_bps fs = unat (bpb_bytes_per_sector (fs_bpb fs))"
definition fs_cs :: "'s FileSystem \<Rightarrow> nat" where "fs_cs fs = fs_spc fs * fs_bps fs"
definition fs_fat :: "'s FileSystem \<Rightarrow> DiskSlice" where "fs_fat fs = fat_slice (fs_bpb fs)"
definition fs_end :: "'s FileSystem \<Rightarrow> u32" where "fs_end fs = fs_total_clusters fs + 2"

definition fs_data_start :: "'s FileSystem \<Rightarrow> nat" where
  "fs_data_start fs = unat (fs_first_data_sector fs) * fs_bps fs"

definition fs_layout :: "nat \<Rightarrow> 's FileSystem \<Rightarrow> bool" where
  "fs_layout cap fs \<longleftrightarrow>
     (let b = ds_begin (fs_fat fs); z = ds_size (fs_fat fs); m = ds_mirrors (fs_fat fs); ft = fs_fat_type fs in
      1 \<le> fs_spc fs \<and> fs_spc fs \<le> 128 \<and> 512 \<le> fs_bps fs \<and> fs_bps fs \<le> 4096
      \<and> slice_fits b z m cap {dirty_addr ft} \<and> dirty_addr ft < unat b
      \<and> fs_total_clusters fs \<noteq> 0 \<and> fat_table ft (unat z) (fs_end fs) \<and> fs_total_clusters fs < 0x0FFFFFF7
      \<and> unat (fs_first_data_sector fs) + unat (fs_total_clusters fs) * fs_spc fs < 2 ^ 32
      \<and> (unat (fs_first_data_sector fs) + unat (fs_total_clusters fs) * fs_spc fs) * fs_bps fs \<le> cap
      \<and> fs_root_dir_sectors fs \<le> fs_first_data_sector fs
      \<and> unat b + unat m * unat z \<le> unat (fs_first_data_sector fs - fs_root_dir_sectors fs) * fs_bps fs
      \<and> (ft = Fat32 \<longrightarrow> 512 \<le> unat (offset_from_sector fs (ucast (bpb_fs_info_sector (fs_bpb fs))))
           \<and> unat (offset_from_sector fs (ucast (bpb_fs_info_sector (fs_bpb fs)))) + 512 \<le> unat b)
      \<and> (\<forall>h. fi_next_free_cluster (fs_fs_info fs) = Some h \<longrightarrow> 2 \<le> h))"

abbreviation fs_slice_ok :: "('s \<Rightarrow> bool) \<Rightarrow> ('s \<Rightarrow> nat \<Rightarrow> u8) \<Rightarrow> nat \<Rightarrow> 's FileSystem \<Rightarrow> DiskSlice \<times> 's FileSystem \<Rightarrow> bool" where
  "fs_slice_ok ok img cap fs \<equiv> slice_ok (adapter_ok ok cap (fs_fat_type fs)) (\<lambda>fs. img (fs_disk fs)) cap
     {dirty_addr (fs_fat_type fs)} (ds_begin (fs_fat fs)) (ds_size (fs_fat fs)) (ds_mirrors (fs_fat fs))"

abbreviation fs_slice_byte :: "('s \<Rightarrow> nat \<Rightarrow> u8) \<Rightarrow> 's FileSystem \<Rightarrow> DiskSlice \<times> 's FileSystem \<Rightarrow> nat \<Rightarrow> u8" where
  "fs_slice_byte img fs \<equiv> slice_byte (\<lambda>fs. img (fs_disk fs)) (ds_begin (fs_fat fs)) (ds_size (fs_fat fs))"

abbreviation fs_slice_rest :: "('s \<Rightarrow> nat \<Rightarrow> u8) \<Rightarrow> 's FileSystem \<Rightarrow> DiskSlice \<times> 's FileSystem
    \<Rightarrow> (FsOptions \<times> BiosParameterBlock \<times> u32 \<times> u32 \<times> u32 \<times> FsInfoSector) \<times> (nat \<Rightarrow> u8)" where
  "fs_slice_rest img fs \<equiv> slice_rest (\<lambda>fs. img (fs_disk fs)) fs_static {dirty_addr (fs_fat_type fs)} (ds_begin (fs_fat fs))
     (ds_size (fs_fat fs)) (ds_mirrors (fs_fat fs))"

definition fs_ok :: "('s \<Rightarrow> bool) \<Rightarrow> ('s \<Rightarrow> nat \<Rightarrow> u8) \<Rightarrow> nat \<Rightarrow> 's FileSystem \<Rightarrow> bool" where
  "fs_ok ok img cap fs \<longleftrightarrow> fs_layout cap fs \<and>
     fs_slice_ok ok img cap fs (fs_fat fs, fs)"

text \<open>What a volume holds: the table, and the bytes of a cluster.\<close>

definition fs_fat_bytes :: "('s \<Rightarrow> nat \<Rightarrow> u8) \<Rightarrow> 's FileSystem \<Rightarrow> nat \<Rightarrow> u8" where
  "fs_fat_bytes img fs = fs_slice_byte img fs (fs_fat fs, fs)"

definition fs_table :: "('s \<Rightarrow> nat \<Rightarrow> u8) \<Rightarrow> 's FileSystem \<Rightarrow> u32 \<Rightarrow> FatValue" where
  "fs_table img fs = fat_get (fs_fat_type fs) (fs_fat_bytes img fs)"

definition cluster_addr :: "'s FileSystem \<Rightarrow> u32 \<Rightarrow> nat" where
  "cluster_addr fs c = fs_data_start fs + (unat c - 2) * fs_cs fs"

definition fs_cluster :: "('s \<Rightarrow> nat \<Rightarrow> u8) \<Rightarrow> 's FileSystem \<Rightarrow> u32 \<Rightarrow> u8 list" where
  "fs_cluster img fs c = bytes_at (img (fs_disk fs)) (cluster_addr fs c) (fs_cs fs)"

definition valid_cluster :: "'s FileSystem \<Rightarrow> u32 \<Rightarrow> bool" where
  "valid_cluster fs c \<longleftrightarrow> 2 \<le> c \<and> c < fs_end fs"

lemma fs_end_unat: "fs_layout cap fs \<Longrightarrow> unat (fs_end fs) = unat (fs_total_clusters fs) + 2 \<and> 2 < fs_end fs"
proof -
  assume "fs_layout cap fs"
  then have "unat (fs_total_clusters fs) < 0x0FFFFFF7" "0 < unat (fs_total_clusters fs)"
    by (simp_all add: fs_layout_def Let_def word_less_nat_alt unat_gt_0)
  then show ?thesis by (simp add: fs_end_def unat_word_ariths word_less_nat_alt)
qed

lemma valid_cluster_unat:
  "fs_layout cap fs \<Longrightarrow> valid_cluster fs c \<longleftrightarrow> 2 \<le> unat c \<and> unat c < unat (fs_total_clusters fs) + 2"
  using fs_end_unat [of cap fs] by (simp add: valid_cluster_def word_le_nat_alt word_less_nat_alt)

lemma cluster_sector_bound:
  assumes "fs_layout cap fs" "valid_cluster fs c"
  shows "unat (fs_first_data_sector fs) + (unat c - 2) * fs_spc fs + fs_spc fs
    \<le> unat (fs_first_data_sector fs) + unat (fs_total_clusters fs) * fs_spc fs"
proof -
  have "Suc (unat c - 2) \<le> unat (fs_total_clusters fs)" using assms valid_cluster_unat [OF assms(1)] by auto
  then have "Suc (unat c - 2) * fs_spc fs \<le> unat (fs_total_clusters fs) * fs_spc fs" by (rule mult_le_mono1)
  then show ?thesis by simp
qed

lemma cluster_addr_bounds:
  assumes "fs_layout cap fs" "valid_cluster fs c"
  shows "cluster_addr fs c + fs_cs fs \<le> cap" "fs_data_start fs \<le> cluster_addr fs c"
proof -
  have "(unat (fs_first_data_sector fs) + (unat c - 2) * fs_spc fs + fs_spc fs) * fs_bps fs
      \<le> (unat (fs_first_data_sector fs) + unat (fs_total_clusters fs) * fs_spc fs) * fs_bps fs"
    using cluster_sector_bound [OF assms] by (rule mult_le_mono1)
  also have "\<dots> \<le> cap" using assms(1) by (simp add: fs_layout_def Let_def)
  finally show "cluster_addr fs c + fs_cs fs \<le> cap"
    by (simp add: cluster_addr_def fs_data_start_def fs_cs_def algebra_simps)
  show "fs_data_start fs \<le> cluster_addr fs c" by (simp add: cluster_addr_def)
qed

lemma unat_bytes_from_sectors:
  "unat (BPB_bytes_from_sectors bpb n) = unat n * unat (bpb_bytes_per_sector bpb)"
proof -
  have "unat n * unat (bpb_bytes_per_sector bpb) < 2 ^ 32 * 2 ^ 16"
    using unsigned_less [of n, where 'a = nat] unsigned_less [of "bpb_bytes_per_sector bpb", where 'a = nat]
    by (intro mult_strict_mono) simp_all
  also have "\<dots> < 2 ^ 64" by simp
  finally show ?thesis by (simp add: BPB_bytes_from_sectors_def unat_word_ariths unat_ucast_up)
qed

lemma offset_from_cluster_addr:
  assumes "fs_layout cap fs" "valid_cluster fs c"
  shows "unat (offset_from_cluster fs c) = cluster_addr fs c"
proof -
  have c: "2 \<le> unat c" "unat c < unat (fs_total_clusters fs) + 2" using assms valid_cluster_unat [OF assms(1)] by auto
  have "unat (fs_first_data_sector fs) + unat (fs_total_clusters fs) * fs_spc fs < 2 ^ 32" "1 \<le> fs_spc fs"
    using assms(1) by (simp_all add: fs_layout_def Let_def)
  with cluster_sector_bound [OF assms] have lt: "unat (fs_first_data_sector fs) + (unat c - 2) * fs_spc fs < 2 ^ 32" by linarith
  have "unat (c - 2) = unat c - 2" using c(1) by (simp add: unat_sub word_le_nat_alt)
  then have "unat (sector_from_cluster fs c) = unat (fs_first_data_sector fs) + (unat c - 2) * fs_spc fs"
    using lt by (simp add: sector_from_cluster_def BPB_sectors_from_clusters_def RESERVED_FAT_ENTRIES_def unat_word_ariths
        unat_ucast_up fs_spc_def mod_add_right_eq)
  then show ?thesis
    by (simp add: offset_from_cluster_def offset_from_sector_def unat_bytes_from_sectors cluster_addr_def fs_data_start_def
        fs_cs_def fs_bps_def [symmetric] algebra_simps)
qed

lemma cluster_addr_disjoint:
  assumes "fs_layout cap fs" "valid_cluster fs c" "valid_cluster fs d" "c \<noteq> d"
  shows "cluster_addr fs c + fs_cs fs \<le> cluster_addr fs d \<or> cluster_addr fs d + fs_cs fs \<le> cluster_addr fs c"
proof -
  have *: "cluster_addr fs c + fs_cs fs \<le> cluster_addr fs d" if "2 \<le> unat c" "unat c < unat d" for c d
  proof -
    have "Suc (unat c - 2) * fs_cs fs \<le> (unat d - 2) * fs_cs fs" using that by (intro mult_le_mono1) simp
    then show ?thesis by (simp add: cluster_addr_def)
  qed
  have "2 \<le> unat c" "2 \<le> unat d" "unat c \<noteq> unat d"
    using assms valid_cluster_unat [OF assms(1)] by (auto simp: word_unat_eq_iff)
  then show ?thesis using * [of c d] * [of d c] by linarith
qed

text \<open>The data area lies behind the tables and the flag byte.\<close>

lemma fs_data_behind:
  assumes "fs_layout cap fs" "fs_data_start fs \<le> a"
  shows "a \<noteq> dirty_addr (fs_fat_type fs)" "\<not> slice_area (ds_begin (fs_fat fs)) (ds_size (fs_fat fs)) (ds_mirrors (fs_fat fs)) a"
proof -
  let ?b = "ds_begin (fs_fat fs)" and ?z = "ds_size (fs_fat fs)" and ?m = "ds_mirrors (fs_fat fs)"
  have l: "dirty_addr (fs_fat_type fs) < unat ?b"
    "unat ?b + unat ?m * unat ?z \<le> unat (fs_first_data_sector fs - fs_root_dir_sectors fs) * fs_bps fs"
    "fs_root_dir_sectors fs \<le> fs_first_data_sector fs"
    using assms(1) by (simp_all add: fs_layout_def Let_def)
  have "unat (fs_first_data_sector fs - fs_root_dir_sectors fs) * fs_bps fs \<le> fs_data_start fs"
    using l(3) by (simp add: fs_data_start_def unat_sub)
  with l(2) have "unat ?b + unat ?m * unat ?z \<le> a" using assms(2) by linarith
  with l(1) show "a \<noteq> dirty_addr (fs_fat_type fs)" "\<not> slice_area ?b ?z ?m a" by (auto simp: slice_area_def)
qed

text \<open>Operations keep the description of the volume; only the disk, the flags and the counters change.\<close>

definition fs_frame :: "'s FileSystem \<Rightarrow> 's FileSystem \<Rightarrow> bool" where
  "fs_frame fs fs' \<longleftrightarrow> fs_options fs' = fs_options fs \<and> fs_fat_type fs' = fs_fat_type fs \<and> fs_bpb fs' = fs_bpb fs
     \<and> fs_first_data_sector fs' = fs_first_data_sector fs \<and> fs_root_dir_sectors fs' = fs_root_dir_sectors fs
     \<and> fs_total_clusters fs' = fs_total_clusters fs"

lemma fs_frame_refl [simp]: "fs_frame fs fs"
  by (simp add: fs_frame_def)

lemma fs_frame_trans: "fs_frame a b \<Longrightarrow> fs_frame b c \<Longrightarrow> fs_frame a c"
  by (simp add: fs_frame_def)

lemma fs_frame_simps:
  assumes "fs_frame fs fs'"
  shows "fs_spc fs' = fs_spc fs" "fs_bps fs' = fs_bps fs" "fs_cs fs' = fs_cs fs" "fs_fat fs' = fs_fat fs" "fs_end fs' = fs_end fs"
    "fs_data_start fs' = fs_data_start fs" "cluster_addr fs' c = cluster_addr fs c" "valid_cluster fs' c = valid_cluster fs c"
    "fs_fat_type fs' = fs_fat_type fs" "offset_from_sector fs' n = offset_from_sector fs n" "offset_from_cluster fs' c = offset_from_cluster fs c"
    "fs_total_clusters fs' = fs_total_clusters fs" "FileSystem_cluster_size fs' = FileSystem_cluster_size fs"
    "fs_bpb fs' = fs_bpb fs" "fs_options fs' = fs_options fs"
  using assms
  by (simp_all add: fs_frame_def fs_spc_def fs_bps_def fs_cs_def fs_fat_def fs_end_def fs_data_start_def cluster_addr_def
      valid_cluster_def offset_from_sector_def offset_from_cluster_def sector_from_cluster_def FileSystem_cluster_size_def)

lemma fs_frame_layout:
  assumes "fs_frame fs fs'" "\<And>h. fi_next_free_cluster (fs_fs_info fs') = Some h \<Longrightarrow> 2 \<le> h" "fs_layout cap fs"
  shows "fs_layout cap fs'"
proof -
  have "fs_first_data_sector fs' = fs_first_data_sector fs" "fs_root_dir_sectors fs' = fs_root_dir_sectors fs"
    using assms(1) by (simp_all add: fs_frame_def)
  with assms(2,3) show ?thesis unfolding fs_layout_def Let_def by (simp add: fs_frame_simps [OF assms(1)])
qed

lemma fs_frame_ok:
  assumes "fs_frame fs fs'" "fs_disk fs' = fs_disk fs" "\<And>h. fi_next_free_cluster (fs_fs_info fs') = Some h \<Longrightarrow> 2 \<le> h"
    and "fs_ok ok img cap fs"
  shows "fs_ok ok img cap fs'"
proof -
  have "fs_layout cap fs'" using fs_frame_layout [OF assms(1,3)] assms(4) by (simp add: fs_ok_def)
  with assms(2,4) show ?thesis unfolding fs_ok_def slice_ok_def adapter_ok_def by (simp add: fs_frame_simps [OF assms(1)])
qed

lemma fs_frame_table:
  assumes "fs_frame fs fs'" "fs_disk fs' = fs_disk fs"
  shows "fs_table img fs' = fs_table img fs" "fs_cluster img fs' = fs_cluster img fs"
  using assms(2) by (simp_all add: fs_table_def fs_fat_bytes_def slice_byte_def fs_cluster_def fun_eq_iff fs_frame_simps [OF assms(1)] cong: if_cong)

text \<open>The bytes outside the tables and the flag byte are the same.\<close>

definition fs_same_data :: "('s \<Rightarrow> nat \<Rightarrow> u8) \<Rightarrow> 's FileSystem \<Rightarrow> 's FileSystem \<Rightarrow> bool" where
  "fs_same_data img fs fs' \<longleftrightarrow> (\<forall>a. a \<noteq> dirty_addr (fs_fat_type fs) \<longrightarrow>
     \<not> slice_area (ds_begin (fs_fat fs)) (ds_size (fs_fat fs)) (ds_mirrors (fs_fat fs)) a \<longrightarrow>
     img (fs_disk fs') a = img (fs_disk fs) a)"

lemma fs_same_data_cluster:
  assumes "fs_layout cap fs" "fs_frame fs fs'" "fs_same_data img fs fs'" "valid_cluster fs c"
  shows "fs_cluster img fs' c = fs_cluster img fs c"
  unfolding fs_cluster_def fs_frame_simps [OF assms(2)]
proof (rule bytes_at_cong)
  fix a assume "cluster_addr fs c \<le> a"
  then have "fs_data_start fs \<le> a" using cluster_addr_bounds(2) [OF assms(1,4)] by simp
  from fs_data_behind [OF assms(1) this] assms(3) show "img (fs_disk fs') a = img (fs_disk fs) a" by (simp add: fs_same_data_def)
qed

context byte_stream
begin

lemma with_fat_ok:
  assumes "fs_ok ok img cap fs" "m (fs_fat fs, fs) = Some (r, t)"
    and "fs_slice_ok ok img cap fs t"
    and "fs_slice_rest img fs t
      = fs_slice_rest img fs (fs_fat fs, fs)"
  obtains fs' where "with_fat m fs = Some (r, fs')" "fs_ok ok img cap fs'" "fs_frame fs fs'" "fs_same_data img fs fs'"
    "fs_fs_info fs' = fs_fs_info fs"
    "fs_fat_bytes img fs' = fs_slice_byte img fs t"
proof -
  obtain sl fs' where t: "t = (sl, fs')" by (cases t)
  have "fs_static fs' = fs_static fs" using assms(4) by (simp add: t slice_rest_def)
  moreover have "fs_fat_type fs' = fs_fat_type fs" using assms(3) by (simp add: t slice_ok_def adapter_ok_def)
  ultimately have frame: "fs_frame fs fs'" "fs_fs_info fs' = fs_fs_info fs" by (simp_all add: fs_frame_def fs_static_def)
  have "fs_same_data img fs fs'" using assms(4) by (auto simp: t slice_rest_def fs_same_data_def fun_eq_iff split: if_splits)
  moreover have "fs_layout cap fs'"
  proof (rule fs_frame_layout [OF frame(1)])
    show "2 \<le> h" if "fi_next_free_cluster (fs_fs_info fs') = Some h" for h
      using that assms(1) frame(2) by (simp add: fs_ok_def fs_layout_def Let_def)
  qed (use assms(1) in \<open>simp add: fs_ok_def\<close>)
  then have "fs_ok ok img cap fs'"
    using assms(1,3) unfolding fs_ok_def by (simp add: fs_frame_simps [OF frame(1)] slice_ok_def t)
  moreover have "with_fat m fs = Some (r, fs')"
    using assms(2) by (simp add: with_fat_def with_slice_def fs_fat_def t)
  moreover have "fs_fat_bytes img fs' = fs_slice_byte img fs t"
    by (simp add: fs_fat_bytes_def fs_frame_simps [OF frame(1)] slice_byte_def t)
  ultimately show ?thesis using frame that by blast
qed

lemma fs_layoutD:
  assumes "fs_ok ok img cap fs"
  shows "fs_layout cap fs" "fat_table (fs_fat_type fs) (unat (ds_size (fs_fat fs))) (fs_total_clusters fs + 2)" "2 < fs_total_clusters fs + 2"
    "fs_slice_ok ok img cap fs (fs_fat fs, fs)" "ok (fs_disk fs)"
  using assms fs_end_unat [of cap fs] by (auto simp: fs_ok_def fs_layout_def Let_def fs_end_def slice_ok_def adapter_ok_def)

lemma with_fat_table:
  assumes "fs_ok ok img cap fs" "m (fs_fat fs, fs) = Some (r, t)"
    and "fs_slice_ok ok img cap fs t"
    and "fs_slice_rest img fs t
      = fs_slice_rest img fs (fs_fat fs, fs)"
    and "\<And>d. fat_get (fs_fat_type fs) (fs_slice_byte img fs t) d = tab d"
  obtains fs' where "with_fat m fs = Some (r, fs')" "fs_ok ok img cap fs'" "fs_frame fs fs'" "fs_same_data img fs fs'"
    "fs_fs_info fs' = fs_fs_info fs" "fs_table img fs' = tab"
proof -
  from with_fat_ok [where m = m, OF assms(1-4)] obtain fs' where fs': "with_fat m fs = Some (r, fs')" "fs_ok ok img cap fs'" "fs_frame fs fs'"
    "fs_same_data img fs fs'" "fs_fs_info fs' = fs_fs_info fs"
    "fs_fat_bytes img fs' = fs_slice_byte img fs t" .
  moreover have "fs_table img fs' = tab"
    using assms(5) by (simp add: fs_table_def fs'(6) fs_frame_simps [OF fs'(3)] fun_eq_iff)
  ultimately show ?thesis using that by blast
qed

lemma map_free_hint:
  "fi_next_free_cluster (FsInfoSector_map_free_clusters f fi) = fi_next_free_cluster fi"
  by (simp add: FsInfoSector_map_free_clusters_def split: option.splits)

lemma fs_info_update:
  assumes "fs_ok ok img cap fs" "fi_next_free_cluster fi = fi_next_free_cluster (fs_fs_info fs)"
  shows "fs_ok ok img cap (fs\<lparr>fs_fs_info := fi\<rparr>)" "fs_frame fs (fs\<lparr>fs_fs_info := fi\<rparr>)"
    "fs_table img (fs\<lparr>fs_fs_info := fi\<rparr>) = fs_table img fs"
proof -
  let ?fs = "fs\<lparr>fs_fs_info := fi\<rparr>"
  show f: "fs_frame fs ?fs" by (simp add: fs_frame_def)
  show "fs_ok ok img cap ?fs"
  proof (rule fs_frame_ok [OF f _ _ assms(1)])
    show "2 \<le> h" if "fi_next_free_cluster (fs_fs_info ?fs) = Some h" for h
      using that assms by (simp add: fs_ok_def fs_layout_def Let_def)
  qed simp
  show "fs_table img ?fs = fs_table img fs" by (rule fs_frame_table [OF f]) simp
qed

lemma truncate_cluster_chain_ok:
  assumes "fs_ok ok img cap fs" "fat_chain (fs_table img fs) (c # cs)" "\<And>d. d \<in> set (c # cs) \<Longrightarrow> valid_cluster fs d"
  obtains fs' where "truncate_cluster_chain st c fs = Some (Inr (), fs')" "fs_ok ok img cap fs'" "fs_frame fs fs'" "fs_same_data img fs fs'"
    "fs_fs_info fs' = FsInfoSector_map_free_clusters (\<lambda>n. n + word_of_nat (length cs)) (fs_fs_info fs)"
    "fs_table img fs' = (\<lambda>d. if d = c then EndOfChain else if d \<in> set cs then Free else fs_table img fs d)"
proof -
  note l = fs_layoutD [OF assms(1)]
  have chain: "fat_chain (fat_get (fs_fat_type fs) (fs_slice_byte img fs (fs_fat fs, fs))) (c # cs)"
    using assms(2) by (simp add: fs_table_def fs_fat_bytes_def)
  have sub: "set (c # cs) \<subseteq> {..<fs_total_clusters fs + 2}" using assms(3) by (auto simp: valid_cluster_def fs_end_def)
  let ?tab = "\<lambda>d. if d = c then EndOfChain else if d \<in> set cs then Free else fs_table img fs d"
  from adapter.slice.truncate_chain_in [OF l(4) l(2) chain sub] obtain t where
    t: "ClusterIterator_truncate (slice_stream (FsIoAdapter st)) (ClusterIterator_new (fs_fat_type fs) c) (fs_fat fs, fs) = Some (Inr (word_of_nat (length cs)), t)"
      "fs_slice_ok ok img cap fs t"
      "fs_slice_rest img fs t
        = fs_slice_rest img fs (fs_fat fs, fs)"
      "\<And>d. fat_get (fs_fat_type fs) (fs_slice_byte img fs t) d = ?tab d"
    unfolding fs_table_def fs_fat_bytes_def by metis
  from with_fat_table [where m = "ClusterIterator_truncate (slice_stream (FsIoAdapter st)) (ClusterIterator_new (fs_fat_type fs) c)", OF assms(1) t] obtain fs1 where
    fs1: "with_fat (ClusterIterator_truncate (slice_stream (FsIoAdapter st)) (ClusterIterator_new (fs_fat_type fs) c)) fs = Some (Inr (word_of_nat (length cs)), fs1)"
      "fs_ok ok img cap fs1" "fs_frame fs fs1" "fs_same_data img fs fs1" "fs_fs_info fs1 = fs_fs_info fs" "fs_table img fs1 = ?tab" .
  from fs_info_update [OF fs1(2) map_free_hint [where f = "\<lambda>n. n + word_of_nat (length cs)"]] show ?thesis
    using fs1 by (intro that [OF _ _ _ _ _ trans [OF _ fs1(6)]])
      (auto simp: truncate_cluster_chain_def fs_same_data_def intro: fs_frame_trans)
qed

lemma free_cluster_chain_ok:
  assumes "fs_ok ok img cap fs" "fat_chain (fs_table img fs) (c # cs)" "\<And>d. d \<in> set (c # cs) \<Longrightarrow> valid_cluster fs d"
  obtains fs' where "free_cluster_chain st c fs = Some (Inr (), fs')" "fs_ok ok img cap fs'" "fs_frame fs fs'" "fs_same_data img fs fs'"
    "fs_fs_info fs' = FsInfoSector_map_free_clusters (\<lambda>n. n + word_of_nat (length (c # cs))) (fs_fs_info fs)"
    "fs_table img fs' = (\<lambda>d. if d \<in> set (c # cs) then Free else fs_table img fs d)"
proof -
  note l = fs_layoutD [OF assms(1)]
  let ?m = "ClusterIterator_free (slice_stream (FsIoAdapter st)) (ClusterIterator_new (fs_fat_type fs) c)"
  let ?tab = "\<lambda>d. if d \<in> set (c # cs) then Free else fs_table img fs d"
  have chain: "fat_chain (fat_get (fs_fat_type fs) (fs_slice_byte img fs (fs_fat fs, fs))) (c # cs)"
    using assms(2) by (simp add: fs_table_def fs_fat_bytes_def)
  have sub: "set (c # cs) \<subseteq> {..<fs_total_clusters fs + 2}" using assms(3) by (auto simp: valid_cluster_def fs_end_def)
  from adapter.slice.free_chain_in [OF l(4) l(2) chain sub, of 0] obtain t where
    t: "?m (fs_fat fs, fs) = Some (Inr (word_of_nat (length (c # cs))), t)" "fs_slice_ok ok img cap fs t"
      "fs_slice_rest img fs t = fs_slice_rest img fs (fs_fat fs, fs)" "\<And>d. fat_get (fs_fat_type fs) (fs_slice_byte img fs t) d = ?tab d"
    unfolding fs_table_def fs_fat_bytes_def ClusterIterator_free_def ClusterIterator_new_def by (metis add_0)
  from with_fat_table [where m = ?m, OF assms(1) t] obtain fs1 where
    fs1: "with_fat ?m fs = Some (Inr (word_of_nat (length (c # cs))), fs1)"
      "fs_ok ok img cap fs1" "fs_frame fs fs1" "fs_same_data img fs fs1" "fs_fs_info fs1 = fs_fs_info fs" "fs_table img fs1 = ?tab" .
  from fs_info_update [OF fs1(2) map_free_hint [where f = "\<lambda>n. n + word_of_nat (length (c # cs))"]] show ?thesis
    using fs1 by (intro that [OF _ _ _ _ _ trans [OF _ fs1(6)]])
      (auto simp: free_cluster_chain_def fs_same_data_def intro: fs_frame_trans)
qed

text \<open>Freeing returns for every table whose links stay inside it.\<close>

lemma free_cluster_chain_ends:
  assumes "fs_ok ok img cap fs" "\<And>d n. d < fs_end fs \<Longrightarrow> fs_table img fs d = Data n \<Longrightarrow> n < fs_end fs" "c < fs_end fs"
  shows "\<exists>fs'. free_cluster_chain st c fs = Some (Inr (), fs') \<and> fs_ok ok img cap fs' \<and> fs_frame fs fs' \<and> fs_same_data img fs fs'
    \<and> fs_table img fs' c = Free \<and> (\<forall>d. fs_table img fs' d = fs_table img fs d \<or> fs_table img fs' d = Free)"
proof -
  note l = fs_layoutD [OF assms(1)]
  let ?m = "ClusterIterator_free (slice_stream (FsIoAdapter st)) (ClusterIterator_new (fs_fat_type fs) c)"
  have closed: "d < fs_total_clusters fs + 2 \<Longrightarrow> fat_get (fs_fat_type fs) (fs_slice_byte img fs (fs_fat fs, fs)) d = Data n \<Longrightarrow> n < fs_total_clusters fs + 2" for d n
    using assms(2) by (simp add: fs_table_def fs_fat_bytes_def fs_end_def)
  from adapter.slice.free_loop_ends [OF l(4) l(2) _ assms(3) [unfolded fs_end_def], where k = 0] closed obtain k t where
    t: "?m (fs_fat fs, fs) = Some (Inr k, t)" "fs_slice_ok ok img cap fs t" "fs_slice_rest img fs t = fs_slice_rest img fs (fs_fat fs, fs)"
      "\<And>d. fat_get (fs_fat_type fs) (fs_slice_byte img fs t) d = fs_table img fs d \<or> fat_get (fs_fat_type fs) (fs_slice_byte img fs t) d = Free"
      "fat_get (fs_fat_type fs) (fs_slice_byte img fs t) c = Free"
    unfolding fs_table_def fs_fat_bytes_def ClusterIterator_free_def ClusterIterator_new_def by blast
  from with_fat_table [where m = ?m, OF assms(1) t(1-3) refl] obtain fs1 where
    fs1: "with_fat ?m fs = Some (Inr k, fs1)" "fs_ok ok img cap fs1" "fs_frame fs fs1" "fs_same_data img fs fs1"
      "fs_table img fs1 = (\<lambda>d. fat_get (fs_fat_type fs) (fs_slice_byte img fs t) d)" .
  from fs_info_update [OF fs1(2) map_free_hint [where f = "\<lambda>n. n + k"]] show ?thesis
    using fs1 t(4,5) by (intro exI [of _ "fs1\<lparr>fs_fs_info := FsInfoSector_map_free_clusters (\<lambda>n. n + k) (fs_fs_info fs1)\<rparr>"])
      (auto simp: free_cluster_chain_def fs_same_data_def intro: fs_frame_trans)
qed

lemma write_zeros_ok:
  assumes "ok s" "pos s + unat len \<le> cap"
  obtains s' where "write_zeros st len s = Some (Inr (), s')" "ok s'" "img s' = patch (img s) (pos s) (replicate (unat len) 0)"
proof -
  have "\<exists>s'. write_zeros st len s = Some (Inr (), s') \<and> ok s' \<and> img s' = patch (img s) (pos s) (replicate (unat len) 0)"
    using assms
  proof (induction "unat len" arbitrary: len s rule: less_induct)
    case less
    show ?case
    proof (cases "len = 0")
      case True
      then show ?thesis using less.prems by (subst write_zeros.simps) simp
    next
      case False
      let ?n = "min len 512"
      have n: "unat ?n = min (unat len) 512" "0 < unat ?n" using False by (auto simp: min_def word_le_nat_alt unat_gt_0)
      have "length (replicate (unat ?n) (0::u8)) < 2 ^ 32" "pos s + length (replicate (unat ?n) (0::u8)) \<le> cap"
        using n less.prems(2) by simp_all
      from write_all_stream [OF less.prems(1) this] obtain s1 where
        s1: "write_all st (replicate (unat ?n) 0) s = Some (Inr (), s1)" "ok s1"
          "img s1 = patch (img s) (pos s) (replicate (unat ?n) 0)" "pos s1 = pos s + unat ?n" by auto
      have sub: "unat (len - ?n) = unat len - unat ?n" by (simp add: unat_sub)
      have "unat (len - ?n) < unat len" "pos s1 + unat (len - ?n) \<le> cap"
        using n s1(4) less.prems(2) sub unat_gt_0 [of len] False by auto
      from less.hyps [OF this(1) s1(2) this(2)] obtain s2 where
        s2: "write_zeros st (len - ?n) s1 = Some (Inr (), s2)" "ok s2" "img s2 = patch (img s1) (pos s1) (replicate (unat (len - ?n)) 0)" by blast
      have "write_zeros st len s = Some (Inr (), s2)"
        using False s1(1) s2(1) by (subst write_zeros.simps) (simp add: Let_def word_gt_0)
      moreover have "img s2 = patch (img s) (pos s) (replicate (unat len) 0)"
      proof -
        have "replicate (unat len) 0 = replicate (unat ?n) 0 @ replicate (unat (len - ?n)) (0::u8)"
          using sub n by (simp add: replicate_add [symmetric])
        then show ?thesis using s1(3,4) s2(3) patch_append [of "img s" "pos s" "replicate (unat ?n) 0"] by simp
      qed
      ultimately show ?thesis using s2(2) by blast
    qed
  qed
  then show ?thesis using that by blast
qed

lemma cluster_size_unat:
  assumes "fs_layout cap fs"
  shows "unat (FileSystem_cluster_size fs) = fs_cs fs" "0 < fs_cs fs" "fs_cs fs \<le> 524288"
proof -
  have b: "1 \<le> fs_spc fs" "fs_spc fs \<le> 128" "512 \<le> fs_bps fs" "fs_bps fs \<le> 4096"
    using assms by (simp_all add: fs_layout_def Let_def)
  have "fs_spc fs * fs_bps fs \<le> 128 * 4096" using b by (intro mult_le_mono)
  then show "fs_cs fs \<le> 524288" by (simp add: fs_cs_def)
  then show "unat (FileSystem_cluster_size fs) = fs_cs fs"
    by (simp add: FileSystem_cluster_size_def BPB_cluster_size_def fs_cs_def fs_spc_def fs_bps_def unat_word_ariths unat_ucast_up)
  show "0 < fs_cs fs" using b by (simp add: fs_cs_def)
qed

lemma zero_cluster_ok:
  assumes "fs_ok ok img cap fs" "valid_cluster fs c"
  obtains s1 s2 where "st_seek st (Start (offset_from_cluster fs c)) (fs_disk fs) = Some (Inr (offset_from_cluster fs c), s1)"
    "write_zeros st (ucast (FileSystem_cluster_size fs)) s1 = Some (Inr (), s2)" "ok s2"
    "img s2 = patch (img (fs_disk fs)) (cluster_addr fs c) (replicate (fs_cs fs) 0)"
proof -
  note l = fs_layoutD [OF assms(1)]
  note off = offset_from_cluster_addr [OF l(1) assms(2)]
  from seek_law [OF l(5), of "offset_from_cluster fs c"] obtain s1 where
    s1: "st_seek st (Start (offset_from_cluster fs c)) (fs_disk fs) = Some (Inr (offset_from_cluster fs c), s1)" "ok s1"
      "pos s1 = cluster_addr fs c" "img s1 = img (fs_disk fs)" using off by auto
  have len: "unat (ucast (FileSystem_cluster_size fs) :: u64) = fs_cs fs" using cluster_size_unat(1) [OF l(1)] by (simp add: unat_ucast_up)
  then have "pos s1 + unat (ucast (FileSystem_cluster_size fs) :: u64) \<le> cap" using s1(3) cluster_addr_bounds(1) [OF l(1) assms(2)] by simp
  from write_zeros_ok [OF s1(2) this] obtain s2 where "write_zeros st (ucast (FileSystem_cluster_size fs)) s1 = Some (Inr (), s2)" "ok s2"
    "img s2 = patch (img s1) (pos s1) (replicate (unat (ucast (FileSystem_cluster_size fs) :: u64)) 0)" .
  then show ?thesis using that s1 len by simp
qed

text \<open>A step that keeps the bytes of the tables keeps the file system in order.\<close>

lemma fs_img_same:
  assumes "fs_ok ok img cap fs" "fs_frame fs fs'" "fi_next_free_cluster (fs_fs_info fs') = fi_next_free_cluster (fs_fs_info fs)" "ok (fs_disk fs')"
    and "\<And>a. slice_area (ds_begin (fs_fat fs)) (ds_size (fs_fat fs)) (ds_mirrors (fs_fat fs)) a \<Longrightarrow> img (fs_disk fs') a = img (fs_disk fs) a"
  shows "fs_ok ok img cap fs'" "fs_table img fs' = fs_table img fs"
proof -
  note l = fs_layoutD [OF assms(1)]
  let ?b = "unat (ds_begin (fs_fat fs))" and ?z = "unat (ds_size (fs_fat fs))" and ?m = "unat (ds_mirrors (fs_fat fs))"
  have first: "img (fs_disk fs') (?b + a) = img (fs_disk fs) (?b + a)" if "a < ?z" for a
  proof -
    have "0 < ?m" using l(4) by (simp add: slice_ok_def slice_fits_def unat_gt_0)
    then have "0 * ?z + Suc a \<le> ?m * ?z" using that by (intro mirror_fits) simp_all
    then show ?thesis by (intro assms(5)) (simp add: slice_area_def)
  qed
  have mirror: "img (fs_disk fs') (?b + i * ?z + a) = img (fs_disk fs) (?b + i * ?z + a)" if "i < ?m" "a < ?z" for i a
    using mirror_fits [of i ?m "Suc a" ?z] that by (intro assms(5)) (simp add: slice_area_def)
  have "fs_layout cap fs'"
  proof (rule fs_frame_layout [OF assms(2) _ l(1)])
    show "2 \<le> h" if "fi_next_free_cluster (fs_fs_info fs') = Some h" for h
      using that l(1) assms(3) by (simp add: fs_layout_def Let_def)
  qed
  then show "fs_ok ok img cap fs'"
    using l(4) assms(4) first mirror by (simp add: fs_ok_def slice_ok_def adapter_ok_def fs_frame_simps [OF assms(2)])
  have "fs_fat_bytes img fs' = fs_fat_bytes img fs"
    using first by (auto simp: fs_fat_bytes_def slice_byte_def fs_frame_simps [OF assms(2)] fun_eq_iff)
  then show "fs_table img fs' = fs_table img fs" by (simp add: fs_table_def fs_frame_simps [OF assms(2)])
qed

lemma fs_data_write:
  assumes "fs_ok ok img cap fs" "ok d" "\<And>a. a < fs_data_start fs \<Longrightarrow> img d a = img (fs_disk fs) a"
  shows "fs_ok ok img cap (fs\<lparr>fs_disk := d\<rparr>)" "fs_table img (fs\<lparr>fs_disk := d\<rparr>) = fs_table img fs"
proof -
  have f: "fs_frame fs (fs\<lparr>fs_disk := d\<rparr>)" by (simp add: fs_frame_def)
  have same: "img d a = img (fs_disk fs) a" if "slice_area (ds_begin (fs_fat fs)) (ds_size (fs_fat fs)) (ds_mirrors (fs_fat fs)) a" for a
    using fs_data_behind(2) [OF fs_layoutD(1) [OF assms(1)], of a] that assms(3) [of a] by (cases "fs_data_start fs \<le> a") simp_all
  show "fs_ok ok img cap (fs\<lparr>fs_disk := d\<rparr>)" "fs_table img (fs\<lparr>fs_disk := d\<rparr>) = fs_table img fs"
    using fs_img_same [OF assms(1) f] assms(2) same by simp_all
qed

lemma set_dirty_flag_fs:
  assumes "fs_ok ok img cap fs"
  obtains fs' where "set_dirty_flag st dirty fs = Some (Inr (), fs')" "fs_ok ok img cap fs'" "fs_frame fs fs'" "fs_same_data img fs fs'"
    "fs_fs_info fs' = fs_fs_info fs" "fs_table img fs' = fs_table img fs"
proof -
  note l = fs_layoutD [OF assms]
  have a: "adapter_ok ok cap (fs_fat_type fs) fs" using l(4) by (simp add: slice_ok_def)
  from set_dirty_flag_ok [OF a, of dirty] obtain fs' where
    fs': "set_dirty_flag st dirty fs = Some (Inr (), fs')" "adapter_ok ok cap (fs_fat_type fs) fs'" "fs_static fs' = fs_static fs"
      "\<And>a. a \<noteq> dirty_addr (fs_fat_type fs) \<Longrightarrow> img (fs_disk fs') a = img (fs_disk fs) a" by blast
  have f: "fs_frame fs fs'" "fs_fs_info fs' = fs_fs_info fs" using fs'(2,3) by (simp_all add: fs_frame_def fs_static_def adapter_ok_def)
  have "\<not> slice_area (ds_begin (fs_fat fs)) (ds_size (fs_fat fs)) (ds_mirrors (fs_fat fs)) (dirty_addr (fs_fat_type fs))"
    using l(4) by (simp add: slice_ok_def slice_fits_def)
  then have "img (fs_disk fs') a = img (fs_disk fs) a" if "slice_area (ds_begin (fs_fat fs)) (ds_size (fs_fat fs)) (ds_mirrors (fs_fat fs)) a" for a
    using that fs'(4) [of a] by auto
  moreover have "ok (fs_disk fs')" using fs'(2) by (simp add: adapter_ok_def)
  moreover have "fs_same_data img fs fs'" using fs'(4) by (simp add: fs_same_data_def)
  ultimately show ?thesis using that fs'(1) f fs_img_same [OF assms f(1)] by simp
qed

lemma alloc_cluster_fat:
  assumes "fs_ok ok img cap fs" "pred_option (valid_cluster fs) prev"
  obtains
    (found) c fs' where "with_fat (alloc_cluster (slice_stream (FsIoAdapter st)) (fs_fat_type fs) prev (fi_next_free_cluster (fs_fs_info fs))
        (fs_total_clusters fs)) fs = Some (Inr c, fs')"
      "valid_cluster fs c" "fs_table img fs c = Free" "fs_ok ok img cap fs'" "fs_frame fs fs'" "fs_same_data img fs fs'" "fs_fs_info fs' = fs_fs_info fs"
      "fs_table img fs' = (\<lambda>d. if prev = Some d then Data c else if d = c then EndOfChain else fs_table img fs d)"
  | (full) fs' where "with_fat (alloc_cluster (slice_stream (FsIoAdapter st)) (fs_fat_type fs) prev (fi_next_free_cluster (fs_fs_info fs))
        (fs_total_clusters fs)) fs = Some (Inl NotEnoughSpace, fs')"
      "\<And>d. valid_cluster fs d \<Longrightarrow> fs_table img fs d \<noteq> Free" "fs_ok ok img cap fs'" "fs_frame fs fs'" "fs_same_data img fs fs'"
      "fs_fs_info fs' = fs_fs_info fs" "fs_table img fs' = fs_table img fs"
proof -
  note l = fs_layoutD [OF assms(1)]
  let ?m = "alloc_cluster (slice_stream (FsIoAdapter st)) (fs_fat_type fs) prev (fi_next_free_cluster (fs_fs_info fs)) (fs_total_clusters fs)"
  have prev: "pred_option (\<lambda>p. p < fs_total_clusters fs + 2) prev"
    using assms(2) by (cases prev) (simp_all add: valid_cluster_def fs_end_def)
  have hint: "pred_option (\<lambda>h. 2 \<le> h) (fi_next_free_cluster (fs_fs_info fs))"
    using l(1) by (cases "fi_next_free_cluster (fs_fs_info fs)") (simp_all add: fs_layout_def Let_def)
  have tab: "fs_table img fs = fat_get (fs_fat_type fs) (fs_slice_byte img fs (fs_fat fs, fs))"
    by (simp add: fs_table_def fs_fat_bytes_def)
  show thesis
  proof (cases rule: adapter.slice.alloc_cluster_in [OF l(4) l(2) l(3) prev hint, case_names found full])
    case (found c t)
    have c: "valid_cluster fs c" "fs_table img fs c = Free" using found(2-4) by (simp_all add: valid_cluster_def fs_end_def tab)
    have "c \<noteq> 0" using found(2) by (auto simp: word_le_nat_alt)
    then have st: "fat_storable (fs_fat_type fs) (Data c)" "fat_storable (fs_fat_type fs) EndOfChain"
      using found(3) l(2) by (auto simp: fat_storable_def fat_table_def)
    have "fat_get (fs_fat_type fs) (fs_slice_byte img fs t) d
        = (if prev = Some d then Data c else if d = c then EndOfChain else fs_table img fs d)" for d
      using found(7) by (cases prev) (auto simp: Let_def fat_get_put [OF st(1)] fat_get_put [OF st(2)] tab)
    from with_fat_table [where m = ?m, OF assms(1) found(1,5,6) this] obtain fs' where
      "with_fat ?m fs = Some (Inr c, fs')" "fs_ok ok img cap fs'" "fs_frame fs fs'" "fs_same_data img fs fs'" "fs_fs_info fs' = fs_fs_info fs"
      "fs_table img fs' = (\<lambda>d. if prev = Some d then Data c else if d = c then EndOfChain else fs_table img fs d)" .
    with that(1) c show ?thesis by blast
  next
    case (full t)
    have "fat_get (fs_fat_type fs) (fs_slice_byte img fs t) d = fs_table img fs d" for d using full(3) by (simp add: tab)
    from with_fat_table [where m = ?m, OF assms(1) full(1,2,4) this] obtain fs' where
      fs': "with_fat ?m fs = Some (Inl NotEnoughSpace, fs')" "fs_ok ok img cap fs'" "fs_frame fs fs'" "fs_same_data img fs fs'"
        "fs_fs_info fs' = fs_fs_info fs" "fs_table img fs' = fs_table img fs" .
    have "fs_table img fs d \<noteq> Free" if "valid_cluster fs d" for d
      using full(5) [of d] that by (simp add: valid_cluster_def fs_end_def tab)
    with fs' that(2) show ?thesis by blast
  qed
qed

lemma FileSystem_alloc_cluster_ok:
  assumes "fs_ok ok img cap fs" "pred_option (valid_cluster fs) prev"
  obtains
    (found) c fs' where "FileSystem_alloc_cluster st prev zero fs = Some (Inr c, fs')"
      "valid_cluster fs c" "fs_table img fs c = Free" "fs_ok ok img cap fs'" "fs_frame fs fs'"
      "\<And>a. a \<noteq> dirty_addr (fs_fat_type fs) \<Longrightarrow> \<not> slice_area (ds_begin (fs_fat fs)) (ds_size (fs_fat fs)) (ds_mirrors (fs_fat fs)) a \<Longrightarrow>
        img (fs_disk fs') a = (if zero \<and> cluster_addr fs c \<le> a \<and> a < cluster_addr fs c + fs_cs fs then 0 else img (fs_disk fs) a)"
      "fs_fs_info fs' = FsInfoSector_map_free_clusters (\<lambda>n. n - 1) (FsInfoSector_set_next_free_cluster (c + 1) (fs_fs_info fs))"
      "fs_table img fs' = (\<lambda>d. if prev = Some d then Data c else if d = c then EndOfChain else fs_table img fs d)"
  | (full) fs' where "FileSystem_alloc_cluster st prev zero fs = Some (Inl NotEnoughSpace, fs')"
      "\<And>d. valid_cluster fs d \<Longrightarrow> fs_table img fs d \<noteq> Free" "fs_ok ok img cap fs'" "fs_frame fs fs'" "fs_same_data img fs fs'"
      "fs_fs_info fs' = fs_fs_info fs" "fs_table img fs' = fs_table img fs"
proof (cases rule: alloc_cluster_fat [OF assms, case_names found full])
  case (full fs')
  then show ?thesis using that(2) [of fs'] by (simp add: FileSystem_alloc_cluster_def Let_def)
next
  case (found c fs1)
  note l = fs_layoutD [OF assms(1)]
  have c1: "valid_cluster fs1 c" using found(2) by (simp add: fs_frame_simps [OF found(5)])
  have "\<exists>d. (if zero then io_bind (io_disk (st_seek st (Start (offset_from_cluster fs c)))) (\<lambda>_. io_disk (write_zeros st (ucast (FileSystem_cluster_size fs))))
        else io_return ()) fs1 = Some (Inr (), fs1\<lparr>fs_disk := d\<rparr>) \<and> ok d
      \<and> (\<forall>a. img d a = (if zero \<and> cluster_addr fs c \<le> a \<and> a < cluster_addr fs c + fs_cs fs then 0 else img (fs_disk fs1) a))"
  proof (cases zero)
    case True
    from zero_cluster_ok [OF found(4) c1] obtain s1 s2 where
      "st_seek st (Start (offset_from_cluster fs c)) (fs_disk fs1) = Some (Inr (offset_from_cluster fs c), s1)"
      "write_zeros st (ucast (FileSystem_cluster_size fs)) s1 = Some (Inr (), s2)" "ok s2"
      "img s2 = patch (img (fs_disk fs1)) (cluster_addr fs c) (replicate (fs_cs fs) 0)"
      unfolding fs_frame_simps [OF found(5)] .
    then show ?thesis using True by (intro exI [of _ s2]) (auto simp: patch_def)
  next
    case False
    then show ?thesis using fs_layoutD(5) [OF found(4)] by (intro exI [of _ "fs_disk fs1"]) simp
  qed
  then obtain d where d: "(if zero then io_bind (io_disk (st_seek st (Start (offset_from_cluster fs c)))) (\<lambda>_. io_disk (write_zeros st (ucast (FileSystem_cluster_size fs))))
        else io_return ()) fs1 = Some (Inr (), fs1\<lparr>fs_disk := d\<rparr>)" "ok d"
    "\<And>a. img d a = (if zero \<and> cluster_addr fs c \<le> a \<and> a < cluster_addr fs c + fs_cs fs then 0 else img (fs_disk fs1) a)" by blast
  let ?fs2 = "fs1\<lparr>fs_disk := d\<rparr>"
  have low: "img d a = img (fs_disk fs1) a" if "a < fs_data_start fs1" for a
    using that d(3) [of a] cluster_addr_bounds(2) [OF l(1) found(2)] fs_frame_simps(6) [OF found(5)] by simp
  note fs2 = fs_data_write [OF found(4) d(2) low]
  let ?fi = "FsInfoSector_map_free_clusters (\<lambda>n. n - 1) (FsInfoSector_set_next_free_cluster (c + 1) (fs_fs_info fs1))"
  let ?fs3 = "?fs2\<lparr>fs_fs_info := ?fi\<rparr>"
  have f3: "fs_frame ?fs2 ?fs3" "fs_frame fs ?fs3" using found(5) by (simp_all add: fs_frame_def)
  have "2 \<le> c + 1"
  proof -
    have "unat (c + 1) = Suc (unat c)" using word_Suc(1) [of c "fs_end fs"] found(2) by (simp add: valid_cluster_def)
    then show ?thesis using found(2) by (simp add: valid_cluster_def word_le_nat_alt)
  qed
  then have ok3: "fs_ok ok img cap ?fs3"
    by (intro fs_frame_ok [OF f3(1) _ _ fs2(1)]) (simp_all add: map_free_hint FsInfoSector_set_next_free_cluster_def)
  have "FileSystem_alloc_cluster st prev zero fs = Some (Inr c, ?fs3)"
    using found(1) d(1) by (simp add: FileSystem_alloc_cluster_def Let_def)
  moreover have "fs_table img ?fs3 = (\<lambda>d. if prev = Some d then Data c else if d = c then EndOfChain else fs_table img fs d)"
    using fs_frame_table(1) [OF f3(1)] fs2(2) found(8) by simp
  moreover have "img (fs_disk ?fs3) a = (if zero \<and> cluster_addr fs c \<le> a \<and> a < cluster_addr fs c + fs_cs fs then 0 else img (fs_disk fs) a)"
    if "a \<noteq> dirty_addr (fs_fat_type fs)" "\<not> slice_area (ds_begin (fs_fat fs)) (ds_size (fs_fat fs)) (ds_mirrors (fs_fat fs)) a" for a
    using d(3) [of a] found(6) that by (simp add: fs_same_data_def)
  ultimately show ?thesis using that(1) [of c ?fs3] ok3 f3 found(2,3,7) by simp
qed

lemma FileSystem_stats_ok:
  assumes "fs_ok ok img cap fs"
  obtains fs' where "FileSystem_stats st fs = Some (Inr \<lparr>stats_cluster_size = FileSystem_cluster_size fs, stats_total_clusters = fs_total_clusters fs,
      stats_free_clusters = (case fi_free_cluster_count (fs_fs_info fs) of Some n \<Rightarrow> n
        | None \<Rightarrow> word_of_nat (card {c. valid_cluster fs c \<and> fs_table img fs c = Free}))\<rparr>, fs')"
    "fs_ok ok img cap fs'" "fs_frame fs fs'" "fs_same_data img fs fs'" "fs_table img fs' = fs_table img fs"
    "fi_free_cluster_count (fs_fs_info fs') = Some (case fi_free_cluster_count (fs_fs_info fs) of Some n \<Rightarrow> n
      | None \<Rightarrow> word_of_nat (card {c. valid_cluster fs c \<and> fs_table img fs c = Free}))"
    "fi_free_cluster_count (fs_fs_info fs) \<noteq> None \<longrightarrow> fs' = fs"
proof (cases "fi_free_cluster_count (fs_fs_info fs)")
  case (Some n)
  then show ?thesis using assms by (intro that [of fs]) (simp_all add: FileSystem_stats_def Let_def fs_same_data_def)
next
  case None
  note l = fs_layoutD [OF assms(1)]
  let ?m = "count_free_clusters (slice_stream (FsIoAdapter st)) (fs_fat_type fs) (fs_total_clusters fs)"
  let ?n = "card {c. valid_cluster fs c \<and> fs_table img fs c = Free}"
  have tab: "fs_table img fs = fat_get (fs_fat_type fs) (fs_slice_byte img fs (fs_fat fs, fs))"
    by (simp add: fs_table_def fs_fat_bytes_def)
  have n: "free_count (fs_fat_type fs) (fs_slice_byte img fs (fs_fat fs, fs)) 2 (fs_total_clusters fs + 2) = ?n"
    by (simp add: free_count_def valid_cluster_def fs_end_def tab conj_assoc)
  from adapter.slice.count_free_clusters_in [OF l(4) l(2) l(3), unfolded n] obtain t where
    t: "?m (fs_fat fs, fs) = Some (Inr (word_of_nat ?n), t)" "fs_slice_ok ok img cap fs t" "fs_slice_byte img fs t = fs_slice_byte img fs (fs_fat fs, fs)"
      "fs_slice_rest img fs t = fs_slice_rest img fs (fs_fat fs, fs)" .
  have "fat_get (fs_fat_type fs) (fs_slice_byte img fs t) d = fs_table img fs d" for d using t(3) by (simp add: tab)
  from with_fat_table [where m = ?m, OF assms(1) t(1,2,4) this] obtain fs1 where
    fs1: "with_fat ?m fs = Some (Inr (word_of_nat ?n), fs1)" "fs_ok ok img cap fs1" "fs_frame fs fs1" "fs_same_data img fs fs1"
      "fs_table img fs1 = fs_table img fs" .
  let ?fs2 = "fs1\<lparr>fs_fs_info := FsInfoSector_set_free_cluster_count (word_of_nat ?n) (fs_fs_info fs1)\<rparr>"
  have f2: "fs_frame fs1 ?fs2" "fs_frame fs ?fs2" using fs1(3) by (simp_all add: fs_frame_def)
  have "fs_ok ok img cap ?fs2" "fs_table img ?fs2 = fs_table img fs1"
    by (rule fs_info_update [OF fs1(2)], simp add: FsInfoSector_set_free_cluster_count_def)+
  then show ?thesis using fs1 f2 None
    by (intro that [of ?fs2]) (simp_all add: FileSystem_stats_def recalc_free_clusters_def Let_def fs_same_data_def FsInfoSector_set_free_cluster_count_def)
qed

end

section \<open>Properties\<close>

text \<open>A mounted volume on the kernel's disk, with its table and the bytes of its clusters.\<close>

abbreviation volume_ok :: "'d VirtIOBlk \<Rightarrow> u64 \<Rightarrow> 'd disk_state FileSystem \<Rightarrow> bool" where
  "volume_ok dev cap \<equiv> fs_ok (disk_ok dev cap) (disk_img dev cap) (512 * unat cap)"

abbreviation volume_table :: "'d VirtIOBlk \<Rightarrow> u64 \<Rightarrow> 'd disk_state FileSystem \<Rightarrow> u32 \<Rightarrow> FatValue" where
  "volume_table dev cap \<equiv> fs_table (disk_img dev cap)"

abbreviation volume_cluster :: "'d VirtIOBlk \<Rightarrow> u64 \<Rightarrow> 'd disk_state FileSystem \<Rightarrow> u32 \<Rightarrow> u8 list" where
  "volume_cluster dev cap \<equiv> fs_cluster (disk_img dev cap)"

text \<open>
  A FAT12 volume of eight sectors: the boot sector, two copies of the table, the root directory with
  one file of 700 bytes, \<^verbatim>\<open>README.TXT\<close>, and four clusters, of which 2 and 3 are the chain of the file and 4 and
  5 are free.
\<close>

definition example_bpb :: BiosParameterBlock where
  "example_bpb = BiosParameterBlock_default\<lparr>bpb_bytes_per_sector := 512, bpb_sectors_per_cluster := 1, bpb_reserved_sectors := 1,
     bpb_fats := 2, bpb_root_entries := 16, bpb_total_sectors_16 := 8, bpb_sectors_per_fat_16 := 1\<rparr>"

definition example_root_bytes :: "u8 list" where
  "example_root_bytes = [0x52, 0x45, 0x41, 0x44, 0x4D, 0x45, 0x20, 0x20, 0x54, 0x58, 0x54, 0x20, 0, 0, 0, 0,
     0, 0, 0, 0, 0, 0, 0, 0, 0, 0, 2, 0, 0xBC, 2, 0, 0]"

definition example_volume_sys :: "(u64 \<Rightarrow> u8 list) block_sys" where
  "example_volume_sys = \<lparr>bs_queue = [],
     bs_disk = (\<lambda>b. if b = 1 \<or> b = 2 then [0xF8, 0xFF, 0xFF, 0x03, 0xF0, 0xFF] else if b = 3 then example_root_bytes else [])\<rparr>"

definition example_fs :: "(u64 \<Rightarrow> u8 list) disk_state FileSystem" where
  "example_fs = \<lparr>fs_disk = (ram_driver, example_volume_sys), fs_options = FsOptions_new, fs_fat_type = Fat12, fs_bpb = example_bpb,
     fs_first_data_sector = 4, fs_root_dir_sectors = 1, fs_total_clusters = 4, fs_fs_info = FsInfoSector_default,
     fs_current_status_flags = \<lparr>sf_dirty = False, sf_io_error = False\<rparr>\<rparr>"

lemma example_fs_sel:
  "fs_disk example_fs = (ram_driver, example_volume_sys)" "fs_fat_type example_fs = Fat12" "fs_bpb example_fs = example_bpb"
  "fs_first_data_sector example_fs = 4" "fs_root_dir_sectors example_fs = 1" "fs_total_clusters example_fs = 4"
  "fi_next_free_cluster (fs_fs_info example_fs) = None" "fi_free_cluster_count (fs_fs_info example_fs) = None"
  "fs_spc example_fs = 1" "fs_bps example_fs = 512" "fs_end example_fs = 6"
  by (simp_all add: example_fs_def FsInfoSector_default_def fs_spc_def fs_bps_def fs_end_def example_bpb_def)

lemma example_fs_fat: "fs_fat example_fs = \<lparr>ds_begin = 512, ds_size = 512, ds_offset = 0, ds_mirrors = 2\<rparr>"
  by (simp add: fs_fat_def example_fs_def example_bpb_def BiosParameterBlock_default_def fat_slice_def Let_def
      BPB_mirroring_enabled_def BPB_reserved_sectors_def BPB_sectors_per_fat_def BPB_is_fat32_def DiskSlice_from_sectors_def
      DiskSlice_new_def BPB_bytes_from_sectors_def)

lemma example_img:
  assumes "a < 4096"
  shows "disk_img ram_device 8 (ram_driver, example_volume_sys) a
    = (if a div 512 = 1 \<or> a div 512 = 2 then take 512 ([0xF8, 0xFF, 0xFF, 0x03, 0xF0, 0xFF] @ replicate 512 0) ! (a mod 512)
       else if a div 512 = 3 then take 512 (example_root_bytes @ replicate 512 0) ! (a mod 512) else 0)"
proof -
  have w: "(word_of_nat (a div 512) :: u64) = 1 \<longleftrightarrow> a div 512 = 1" "(word_of_nat (a div 512) :: u64) = 2 \<longleftrightarrow> a div 512 = 2"
    "(word_of_nat (a div 512) :: u64) = 3 \<longleftrightarrow> a div 512 = 3"
    using assms by (simp_all add: word_unat_eq_iff unsigned_of_nat take_bit_nat_eq_self)
  have "byte_at (logical ram_device example_volume_sys) a = take 512 ((if a div 512 = 1 \<or> a div 512 = 2 then [0xF8, 0xFF, 0xFF, 0x03, 0xF0, 0xFF]
      else if a div 512 = 3 then example_root_bytes else []) @ replicate 512 0) ! (a mod 512)"
    by (simp add: byte_at_def logical_def example_volume_sys_def disk_block_def ram_device_def w)
  then show ?thesis using assms by (simp add: disk_img_def disk_byte_def)
qed

lemma example_fs_table:
  "volume_table ram_device 8 example_fs 2 = Data 3" "volume_table ram_device 8 example_fs 3 = EndOfChain"
  "volume_table ram_device 8 example_fs 4 = Free" "volume_table ram_device 8 example_fs 5 = Free"
  using example_img
  by (simp_all add: fs_table_def fat_get_def fat_raw_def fat_off_def fs_fat_bytes_def slice_byte_def example_fs_fat
      example_fs_sel u16_from_le_bytes_def fat_value_def)

lemma example_fs_table01:
  "volume_table ram_device 8 example_fs 0 = EndOfChain" "volume_table ram_device 8 example_fs 1 = EndOfChain"
  using example_img
  by (simp_all add: fs_table_def fat_get_def fat_raw_def fat_off_def fs_fat_bytes_def slice_byte_def example_fs_fat
      example_fs_sel u16_from_le_bytes_def fat_value_def)

lemma example_fs_ok: "volume_ok ram_device 8 example_fs"
proof -
  have lay: "fs_layout 4096 example_fs"
    unfolding fs_layout_def Let_def example_fs_fat example_fs_sel
    by (auto simp: fat_table_def fat_in_def fat_limit_def fat_off_def fat_width_def slice_fits_def slice_area_def
        dirty_addr_def word_less_nat_alt)
  have "ds_offset (fs_fat example_fs) \<le> 512" by (simp add: example_fs_fat)
  moreover have "slice_fits 512 512 2 4096 {dirty_addr Fat12}" using lay by (simp add: fs_layout_def Let_def example_fs_fat example_fs_sel)
  moreover have "disk_img ram_device 8 (ram_driver, example_volume_sys) (512 + i * 512 + a) = disk_img ram_device 8 (ram_driver, example_volume_sys) (512 + a)"
    if "i < 2" "a < 512" for i a
  proof -
    have "i = 0 \<or> i = 1" using that(1) by auto
    moreover have "(512 + a) div 512 = 1" "(1024 + a) div 512 = 2" "(512 + a) mod 512 = a"
      using that(2) by simp_all
    moreover have "(1024 + a) mod 512 = a" using that(2) mod_mult_self3 [of 2 512 a] by simp
    ultimately show ?thesis using that(2) by (auto simp: example_img)
  qed
  moreover have "disk_ok ram_device 8 (ram_driver, example_volume_sys)"
    by (simp add: disk_ok_def driver_ok_def ram_driver_def cache_idle_def cache_inv_def ram_device_ok example_volume_sys_def handles_def BLOCK_SIZE_def)
  ultimately show ?thesis
    using lay by (simp add: fs_ok_def slice_ok_def example_fs_fat adapter_ok_def example_fs_sel dirty_addr_def)
qed

text \<open>
  Property C22. Allocation of a cluster. \<^verbatim>\<open>alloc_cluster\<close> returns without a panic. Either no cluster is free,
  then it reports \<^verbatim>\<open>NotEnoughSpace\<close> and the table and every cluster stay as they are; or it returns a
  cluster that was free, marks it as the end of its chain, links it behind \<^term>\<open>prev\<close> and changes no
  other entry; with \<^term>\<open>zero\<close> the new cluster is filled with zeros, and every other cluster keeps its
  bytes. The copies of the table stay equal.
\<close>

theorem FileSystem_alloc_cluster_correct:
  assumes "volume_ok dev cap fs" "pred_option (valid_cluster fs) prev"
  shows "\<exists>r fs'. FileSystem_alloc_cluster disk_stream prev zero fs = Some (r, fs') \<and> volume_ok dev cap fs' \<and>
    (case r of
       Inl e \<Rightarrow> e = NotEnoughSpace \<and> (\<forall>c. valid_cluster fs c \<longrightarrow> volume_table dev cap fs c \<noteq> Free)
         \<and> volume_table dev cap fs' = volume_table dev cap fs
         \<and> (\<forall>c. valid_cluster fs c \<longrightarrow> volume_cluster dev cap fs' c = volume_cluster dev cap fs c)
     | Inr c \<Rightarrow> valid_cluster fs c \<and> volume_table dev cap fs c = Free
         \<and> volume_table dev cap fs' = (\<lambda>d. if prev = Some d then Data c else if d = c then EndOfChain else volume_table dev cap fs d)
         \<and> (\<forall>d. valid_cluster fs d \<longrightarrow> volume_cluster dev cap fs' d
             = (if zero \<and> d = c then replicate (fs_cs fs) 0 else volume_cluster dev cap fs d)))"
proof (cases rule: disk.FileSystem_alloc_cluster_ok [OF assms, of zero, case_names found full])
  case (full fs')
  have "volume_cluster dev cap fs' c = volume_cluster dev cap fs c" if "valid_cluster fs c" for c
    by (rule fs_same_data_cluster [OF disk.fs_layoutD(1) [OF assms(1)] full(4,5) that])
  with full(1-3,7) show ?thesis by (intro exI [of _ "Inl NotEnoughSpace"] exI [of _ fs']) simp
next
  case (found c fs')
  note l = disk.fs_layoutD(1) [OF assms(1)]
  have "volume_cluster dev cap fs' d = (if zero \<and> d = c then replicate (fs_cs fs) 0 else volume_cluster dev cap fs d)"
    if d: "valid_cluster fs d" for d
  proof (rule nth_equalityI)
    fix i assume "i < length (volume_cluster dev cap fs' d)"
    then have i: "i < fs_cs fs" by (simp add: fs_cluster_def fs_frame_simps [OF found(5)])
    have "fs_data_start fs \<le> cluster_addr fs d + i" using cluster_addr_bounds(2) [OF l d] by simp
    note out = fs_data_behind [OF l this]
    have "cluster_addr fs c \<le> cluster_addr fs d + i \<and> cluster_addr fs d + i < cluster_addr fs c + fs_cs fs \<longleftrightarrow> d = c"
      using cluster_addr_disjoint [OF l found(2) d] i by (cases "d = c") auto
    then show "volume_cluster dev cap fs' d ! i = (if zero \<and> d = c then replicate (fs_cs fs) 0 else volume_cluster dev cap fs d) ! i"
      using found(6) [OF out] i by (simp add: fs_cluster_def fs_frame_simps [OF found(5)])
  qed (simp add: fs_cluster_def fs_frame_simps [OF found(5)])
  with found(1-4,8) show ?thesis by (intro exI [of _ "Inr c"] exI [of _ fs']) simp
qed

theorem FileSystem_alloc_cluster_correct_witness:
  "\<exists>c fs'. FileSystem_alloc_cluster disk_stream (Some 3) True example_fs = Some (Inr c, fs')
     \<and> volume_table ram_device 8 example_fs c = Free \<and> volume_table ram_device 8 fs' 3 = Data c
     \<and> volume_table ram_device 8 fs' 2 = Data 3 \<and> volume_cluster ram_device 8 fs' c = replicate 512 0"
proof -
  have "pred_option (valid_cluster example_fs) (Some 3)" by (simp add: valid_cluster_def example_fs_sel)
  from FileSystem_alloc_cluster_correct [OF example_fs_ok this, of True] obtain r fs' where
    r: "FileSystem_alloc_cluster disk_stream (Some 3) True example_fs = Some (r, fs')"
    "case r of
       Inl e \<Rightarrow> e = NotEnoughSpace \<and> (\<forall>c. valid_cluster example_fs c \<longrightarrow> volume_table ram_device 8 example_fs c \<noteq> Free)
         \<and> volume_table ram_device 8 fs' = volume_table ram_device 8 example_fs
         \<and> (\<forall>c. valid_cluster example_fs c \<longrightarrow> volume_cluster ram_device 8 fs' c = volume_cluster ram_device 8 example_fs c)
     | Inr c \<Rightarrow> valid_cluster example_fs c \<and> volume_table ram_device 8 example_fs c = Free
         \<and> volume_table ram_device 8 fs' = (\<lambda>d. if Some 3 = Some d then Data c else if d = c then EndOfChain else volume_table ram_device 8 example_fs d)
         \<and> (\<forall>d. valid_cluster example_fs d \<longrightarrow> volume_cluster ram_device 8 fs' d
             = (if True \<and> d = c then replicate (fs_cs example_fs) 0 else volume_cluster ram_device 8 example_fs d))" by blast
  have v: "valid_cluster example_fs 4" by (simp add: valid_cluster_def example_fs_sel)
  show ?thesis
  proof (cases r)
    case (Inl e)
    then show ?thesis using r(2) v example_fs_table(3) by auto
  next
    case (Inr c)
    then have "c \<noteq> 2" using r(2) example_fs_table(1) by auto
    then show ?thesis using r Inr example_fs_table by (simp add: fs_cs_def example_fs_sel)
  qed
qed

text \<open>
  Property C23. Truncating and freeing a chain. For a chain of the table, \<^verbatim>\<open>free_cluster_chain\<close> frees exactly its
  clusters; \<^verbatim>\<open>truncate_cluster_chain\<close> keeps the first one as the end of the chain and frees the rest.
  No other entry and no cluster's bytes change, and a known number of free clusters is raised by
  the number of clusters freed.
\<close>

theorem cluster_chain_release:
  assumes "volume_ok dev cap fs" "fat_chain (volume_table dev cap fs) (c # cs)" "set (c # cs) \<subseteq> Collect (valid_cluster fs)"
  shows "(\<exists>fs'. free_cluster_chain disk_stream c fs = Some (Inr (), fs') \<and> volume_ok dev cap fs'
      \<and> volume_table dev cap fs' = (\<lambda>d. if d \<in> set (c # cs) then Free else volume_table dev cap fs d)
      \<and> (\<forall>d. valid_cluster fs d \<longrightarrow> volume_cluster dev cap fs' d = volume_cluster dev cap fs d)
      \<and> fi_free_cluster_count (fs_fs_info fs') = map_option (\<lambda>n. n + word_of_nat (Suc (length cs))) (fi_free_cluster_count (fs_fs_info fs)))
    \<and> (\<exists>fs'. truncate_cluster_chain disk_stream c fs = Some (Inr (), fs') \<and> volume_ok dev cap fs'
      \<and> volume_table dev cap fs' = (\<lambda>d. if d = c then EndOfChain else if d \<in> set cs then Free else volume_table dev cap fs d)
      \<and> (\<forall>d. valid_cluster fs d \<longrightarrow> volume_cluster dev cap fs' d = volume_cluster dev cap fs d)
      \<and> fi_free_cluster_count (fs_fs_info fs') = map_option (\<lambda>n. n + word_of_nat (length cs)) (fi_free_cluster_count (fs_fs_info fs)))"
proof -
  note l = disk.fs_layoutD(1) [OF assms(1)]
  have v: "valid_cluster fs d" if "d \<in> set (c # cs)" for d using assms(3) that by blast
  have count: "fi_free_cluster_count (FsInfoSector_map_free_clusters f fi) = map_option f (fi_free_cluster_count fi)" for f fi
    by (simp add: FsInfoSector_map_free_clusters_def split: option.splits)
  show ?thesis
  proof
    from disk.free_cluster_chain_ok [OF assms(1,2) v] obtain fs' where
      fs': "free_cluster_chain disk_stream c fs = Some (Inr (), fs')" "volume_ok dev cap fs'" "fs_frame fs fs'" "fs_same_data (disk_img dev cap) fs fs'"
        "fs_fs_info fs' = FsInfoSector_map_free_clusters (\<lambda>n. n + word_of_nat (length (c # cs))) (fs_fs_info fs)"
        "volume_table dev cap fs' = (\<lambda>d. if d \<in> set (c # cs) then Free else volume_table dev cap fs d)" by blast
    then show "\<exists>fs'. free_cluster_chain disk_stream c fs = Some (Inr (), fs') \<and> volume_ok dev cap fs'
      \<and> volume_table dev cap fs' = (\<lambda>d. if d \<in> set (c # cs) then Free else volume_table dev cap fs d)
      \<and> (\<forall>d. valid_cluster fs d \<longrightarrow> volume_cluster dev cap fs' d = volume_cluster dev cap fs d)
      \<and> fi_free_cluster_count (fs_fs_info fs') = map_option (\<lambda>n. n + word_of_nat (Suc (length cs))) (fi_free_cluster_count (fs_fs_info fs))"
      using fs_same_data_cluster [OF l fs'(3,4)] by (intro exI [of _ fs']) (simp only: count list.size add_0_right add_Suc_right; simp)
    from disk.truncate_cluster_chain_ok [OF assms(1,2) v] obtain fs'' where
      fs'': "truncate_cluster_chain disk_stream c fs = Some (Inr (), fs'')" "volume_ok dev cap fs''" "fs_frame fs fs''" "fs_same_data (disk_img dev cap) fs fs''"
        "fs_fs_info fs'' = FsInfoSector_map_free_clusters (\<lambda>n. n + word_of_nat (length cs)) (fs_fs_info fs)"
        "volume_table dev cap fs'' = (\<lambda>d. if d = c then EndOfChain else if d \<in> set cs then Free else volume_table dev cap fs d)" by blast
    then show "\<exists>fs'. truncate_cluster_chain disk_stream c fs = Some (Inr (), fs') \<and> volume_ok dev cap fs'
      \<and> volume_table dev cap fs' = (\<lambda>d. if d = c then EndOfChain else if d \<in> set cs then Free else volume_table dev cap fs d)
      \<and> (\<forall>d. valid_cluster fs d \<longrightarrow> volume_cluster dev cap fs' d = volume_cluster dev cap fs d)
      \<and> fi_free_cluster_count (fs_fs_info fs') = map_option (\<lambda>n. n + word_of_nat (length cs)) (fi_free_cluster_count (fs_fs_info fs))"
      using fs_same_data_cluster [OF l fs''(3,4)] by (intro exI [of _ fs'']) (simp add: count)
  qed
qed

theorem cluster_chain_release_witness:
  "\<exists>fs'. free_cluster_chain disk_stream 2 example_fs = Some (Inr (), fs') \<and> volume_table ram_device 8 fs' 2 = Free
     \<and> volume_table ram_device 8 fs' 3 = Free \<and> volume_table ram_device 8 fs' 4 = Free"
proof -
  have "fat_chain (volume_table ram_device 8 example_fs) [2, 3]" by (simp add: example_fs_table)
  moreover have "set [2, 3] \<subseteq> Collect (valid_cluster example_fs)" by (simp add: valid_cluster_def example_fs_sel)
  ultimately show ?thesis using cluster_chain_release [OF example_fs_ok, of 2 "[3]"] example_fs_table(3) by auto
qed

text \<open>
  Property C24. Freeing a chain ends for every table whose links stay inside it, also when the links run in a
  circle: \<^verbatim>\<open>free_cluster_chain\<close> returns, the first cluster is free afterwards, and every entry is free or
  unchanged.
\<close>

theorem free_cluster_chain_terminates:
  assumes "volume_ok dev cap fs" "\<forall>d n. d < fs_end fs \<longrightarrow> volume_table dev cap fs d = Data n \<longrightarrow> n < fs_end fs" "c < fs_end fs"
  shows "\<exists>fs'. free_cluster_chain disk_stream c fs = Some (Inr (), fs') \<and> volume_ok dev cap fs' \<and> volume_table dev cap fs' c = Free
    \<and> (\<forall>d. volume_table dev cap fs' d = volume_table dev cap fs d \<or> volume_table dev cap fs' d = Free)"
  using disk.free_cluster_chain_ends [OF assms(1) _ assms(3)] assms(2) by blast

theorem free_cluster_chain_terminates_witness:
  "\<exists>fs'. free_cluster_chain disk_stream 5 example_fs = Some (Inr (), fs') \<and> volume_table ram_device 8 fs' 5 = Free"
proof -
  have "n < fs_end example_fs" if "d < fs_end example_fs" "volume_table ram_device 8 example_fs d = Data n" for d n
  proof -
    have "unat d < 6" using that(1) by (simp add: example_fs_sel word_less_nat_alt)
    then consider "unat d = 0" | "unat d = 1" | "unat d = 2" | "unat d = 3" | "unat d = 4" | "unat d = 5" by linarith
    then have "d = 0 \<or> d = 1 \<or> d = 2 \<or> d = 3 \<or> d = 4 \<or> d = 5" by cases (simp_all add: word_unat_eq_iff)
    then show ?thesis using that(2) example_fs_table example_fs_table01 by (auto simp: example_fs_sel)
  qed
  moreover have "5 < fs_end example_fs" by (simp add: example_fs_sel)
  ultimately show ?thesis using free_cluster_chain_terminates [OF example_fs_ok, of 5] by blast
qed

text \<open>
  Property C25. \<^verbatim>\<open>stats\<close> returns a known number of free clusters as it stands, without reading the table, also when it
  is wrong, and changes nothing then. When the number is not known it is computed as the number of free entries of the table,
  for all three entry sizes, and kept, so that the next call returns it. Neither the table nor a cluster changes.
\<close>

theorem FileSystem_stats_exact:
  assumes "volume_ok dev cap fs"
    and n: "n = (case fi_free_cluster_count (fs_fs_info fs) of Some known \<Rightarrow> known
      | None \<Rightarrow> word_of_nat (card {c. valid_cluster fs c \<and> volume_table dev cap fs c = Free}))"
  shows "\<exists>fs'. FileSystem_stats disk_stream fs = Some (Inr \<lparr>stats_cluster_size = FileSystem_cluster_size fs,
      stats_total_clusters = fs_total_clusters fs, stats_free_clusters = n\<rparr>, fs')
    \<and> volume_ok dev cap fs' \<and> volume_table dev cap fs' = volume_table dev cap fs
    \<and> (\<forall>c. valid_cluster fs c \<longrightarrow> volume_cluster dev cap fs' c = volume_cluster dev cap fs c)
    \<and> fi_free_cluster_count (fs_fs_info fs') = Some n
    \<and> (fi_free_cluster_count (fs_fs_info fs) \<noteq> None \<longrightarrow> fs' = fs)"
proof -
  from disk.FileSystem_stats_ok [OF assms(1), folded n] obtain fs' where
    "FileSystem_stats disk_stream fs = Some (Inr \<lparr>stats_cluster_size = FileSystem_cluster_size fs,
      stats_total_clusters = fs_total_clusters fs, stats_free_clusters = n\<rparr>, fs')"
    "volume_ok dev cap fs'" "fs_frame fs fs'" "fs_same_data (disk_img dev cap) fs fs'" "volume_table dev cap fs' = volume_table dev cap fs"
    "fi_free_cluster_count (fs_fs_info fs') = Some n" "fi_free_cluster_count (fs_fs_info fs) \<noteq> None \<longrightarrow> fs' = fs" .
  then show ?thesis using fs_same_data_cluster [OF disk.fs_layoutD(1) [OF assms(1)]] by blast
qed

theorem FileSystem_stats_exact_witness:
  "\<exists>s fs'. FileSystem_stats disk_stream example_fs = Some (Inr s, fs') \<and> stats_total_clusters s = 4
     \<and> volume_table ram_device 8 fs' 2 = Data 3 \<and> fi_free_cluster_count (fs_fs_info fs') = Some (stats_free_clusters s)"
  using FileSystem_stats_exact [OF example_fs_ok refl] example_fs_table(1) by (auto simp: example_fs_sel)

end
