(* ===== verification/Fat_Dir_Entry.thy ===== *)
theory Fat_Dir_Entry
  imports Fat_Fs
begin

text \<open>
  Directory entries (\<^verbatim>\<open>rust-fatfs/src/dir_entry.rs\<close>): the 32 byte records of a directory, short file
  names, and the editor that writes a changed entry back to the storage.

  An array of the source is a list of its length. Characters are their code points, and a string is
  the list of its characters.
\<close>

section \<open>Attributes and names\<close>

type_synonym FileAttributes = u8

definition READ_ONLY :: FileAttributes where "READ_ONLY = 0x01"
definition HIDDEN :: FileAttributes where "HIDDEN = 0x02"
definition SYSTEM :: FileAttributes where "SYSTEM = 0x04"
definition VOLUME_ID :: FileAttributes where "VOLUME_ID = 0x08"
definition DIRECTORY :: FileAttributes where "DIRECTORY = 0x10"
definition ARCHIVE :: FileAttributes where "ARCHIVE = 0x20"
definition LFN :: FileAttributes where "LFN = READ_ONLY OR HIDDEN OR SYSTEM OR VOLUME_ID"

definition FileAttributes_all :: FileAttributes where
  "FileAttributes_all = READ_ONLY OR HIDDEN OR SYSTEM OR VOLUME_ID OR DIRECTORY OR ARCHIVE OR LFN"

definition DIR_ENTRY_DELETED_FLAG :: u8 where "DIR_ENTRY_DELETED_FLAG = 0xE5"
definition DIR_ENTRY_REALLY_E5_FLAG :: u8 where "DIR_ENTRY_REALLY_E5_FLAG = 0x05"
definition SFN_SIZE :: nat where "SFN_SIZE = 11"
definition LFN_PART_LEN :: nat where "LFN_PART_LEN = 13"
definition LFN_ENTRY_LAST_FLAG :: u8 where "LFN_ENTRY_LAST_FLAG = 0x40"

definition to_ascii_uppercase :: "'a::len word \<Rightarrow> 'a word" where
  "to_ascii_uppercase c = (if 0x61 \<le> c \<and> c \<le> 0x7A then c - 0x20 else c)"

definition to_ascii_lowercase :: "'a::len word \<Rightarrow> 'a word" where
  "to_ascii_lowercase c = (if 0x41 \<le> c \<and> c \<le> 0x5A then c + 0x20 else c)"

definition char_to_uppercase :: "rchar \<Rightarrow> rchar list" where
  "char_to_uppercase c = [to_ascii_uppercase c]"

record ShortName =
  sn_name :: "u8 list"
  sn_len :: u8

definition ShortName_new :: "u8 list \<Rightarrow> ShortName" where
  "ShortName_new raw_name = (
     let name_len = rposition_end (\<lambda>x. x \<noteq> SFN_PADDING) (take 8 raw_name);
         ext_len = rposition_end (\<lambda>x. x \<noteq> SFN_PADDING) (take 3 (drop 8 raw_name));
         name = overwrite (replicate 12 SFN_PADDING) 0 (take name_len raw_name);
         (name, total_len) =
           (if ext_len > 0 then
              (overwrite (name[name_len := 0x2E]) (name_len + 1) (take ext_len (drop 8 raw_name)), name_len + 1 + ext_len)
            else (name, name_len));
         name = (if name ! 0 = DIR_ENTRY_REALLY_E5_FLAG then name[0 := 0xE5] else name) in
     \<lparr>sn_name = name, sn_len = word_of_nat total_len\<rparr>)"

definition ShortName_as_bytes :: "ShortName \<Rightarrow> u8 list" where
  "ShortName_as_bytes self = take (unat (sn_len self)) (sn_name self)"

definition ShortName_to_string :: "ShortName \<Rightarrow> rchar list" where
  "ShortName_to_string self = map LossyOemCpConverter_decode (ShortName_as_bytes self)"

definition ShortName_eq_ignore_case :: "ShortName \<Rightarrow> rchar list \<Rightarrow> bool" where
  "ShortName_eq_ignore_case self name = (
     let char_iter = map LossyOemCpConverter_decode (ShortName_as_bytes self);
         uppercase_char_iter = concat (map char_to_uppercase char_iter) in
     uppercase_char_iter = concat (map char_to_uppercase name))"

section \<open>Short name entries\<close>

record DirFileEntryData =
  dfe_name :: "u8 list"
  dfe_attrs :: FileAttributes
  dfe_reserved_0 :: u8
  dfe_create_time_0 :: u8
  dfe_create_time_1 :: u16
  dfe_create_date :: u16
  dfe_access_date :: u16
  dfe_first_cluster_hi :: u16
  dfe_modify_time :: u16
  dfe_modify_date :: u16
  dfe_first_cluster_lo :: u16
  dfe_size :: u32

definition DirFileEntryData_default :: DirFileEntryData where
  "DirFileEntryData_default = \<lparr>dfe_name = replicate SFN_SIZE 0, dfe_attrs = 0, dfe_reserved_0 = 0, dfe_create_time_0 = 0,
     dfe_create_time_1 = 0, dfe_create_date = 0, dfe_access_date = 0, dfe_first_cluster_hi = 0, dfe_modify_time = 0,
     dfe_modify_date = 0, dfe_first_cluster_lo = 0, dfe_size = 0\<rparr>"

definition DirFileEntryData_new :: "u8 list \<Rightarrow> FileAttributes \<Rightarrow> DirFileEntryData" where
  "DirFileEntryData_new name attrs = DirFileEntryData_default\<lparr>dfe_name := name, dfe_attrs := attrs\<rparr>"

definition DirFileEntryData_renamed :: "DirFileEntryData \<Rightarrow> u8 list \<Rightarrow> DirFileEntryData" where
  "DirFileEntryData_renamed self new_name = self\<lparr>dfe_name := new_name\<rparr>"

definition DirFileEntryData_is_dir :: "DirFileEntryData \<Rightarrow> bool" where
  "DirFileEntryData_is_dir self = flags_contains (dfe_attrs self) DIRECTORY"

definition DirFileEntryData_is_file :: "DirFileEntryData \<Rightarrow> bool" where
  "DirFileEntryData_is_file self = (\<not> DirFileEntryData_is_dir self)"

definition lowercase_basename :: "DirFileEntryData \<Rightarrow> bool" where
  "lowercase_basename self \<longleftrightarrow> dfe_reserved_0 self AND push_bit 3 1 \<noteq> 0"

definition lowercase_ext :: "DirFileEntryData \<Rightarrow> bool" where
  "lowercase_ext self \<longleftrightarrow> dfe_reserved_0 self AND push_bit 4 1 \<noteq> 0"

definition DirFileEntryData_lowercase_name :: "DirFileEntryData \<Rightarrow> ShortName" where
  "DirFileEntryData_lowercase_name self = (
     let name_copy = dfe_name self;
         name_copy = (if lowercase_basename self then map to_ascii_lowercase (take 8 name_copy) @ drop 8 name_copy else name_copy);
         name_copy = (if lowercase_ext self then take 8 name_copy @ map to_ascii_lowercase (drop 8 name_copy) else name_copy) in
     ShortName_new name_copy)"

definition DirFileEntryData_first_cluster :: "DirFileEntryData \<Rightarrow> FatType \<Rightarrow> u32 option" where
  "DirFileEntryData_first_cluster self fat_type = (
     let first_cluster_hi = (if fat_type = Fat32 then dfe_first_cluster_hi self else 0);
         n = push_bit 16 (ucast first_cluster_hi) OR ucast (dfe_first_cluster_lo self) in
     if n = 0 then None else Some n)"

definition DirFileEntryData_set_first_cluster :: "u32 option \<Rightarrow> FatType \<Rightarrow> DirFileEntryData \<Rightarrow> DirFileEntryData" where
  "DirFileEntryData_set_first_cluster cluster fat_type self = (
     let n = unwrap_or cluster 0;
         self = (if fat_type = Fat32 then self\<lparr>dfe_first_cluster_hi := ucast (drop_bit 16 n)\<rparr> else self) in
     self\<lparr>dfe_first_cluster_lo := ucast (n AND 0xFFFF)\<rparr>)"

definition DirFileEntryData_size :: "DirFileEntryData \<Rightarrow> u32 option" where
  "DirFileEntryData_size self = (if DirFileEntryData_is_file self then Some (dfe_size self) else None)"

definition DirFileEntryData_set_size :: "u32 \<Rightarrow> DirFileEntryData \<Rightarrow> DirFileEntryData" where
  "DirFileEntryData_set_size sz self = self\<lparr>dfe_size := sz\<rparr>"

definition DirFileEntryData_created :: "DirFileEntryData \<Rightarrow> DateTime" where
  "DirFileEntryData_created self = DateTime_decode (dfe_create_date self) (dfe_create_time_1 self) (dfe_create_time_0 self)"

definition DirFileEntryData_accessed :: "DirFileEntryData \<Rightarrow> Date" where
  "DirFileEntryData_accessed self = Date_decode (dfe_access_date self)"

definition DirFileEntryData_modified :: "DirFileEntryData \<Rightarrow> DateTime" where
  "DirFileEntryData_modified self = DateTime_decode (dfe_modify_date self) (dfe_modify_time self) 0"

definition DirFileEntryData_set_created :: "DateTime \<Rightarrow> DirFileEntryData \<Rightarrow> DirFileEntryData" where
  "DirFileEntryData_set_created date_time self = (
     let encoded_time = Time_encode (dt_time date_time) in
     self\<lparr>dfe_create_date := Date_encode (dt_date date_time), dfe_create_time_1 := fst encoded_time,
       dfe_create_time_0 := snd encoded_time\<rparr>)"

definition DirFileEntryData_set_accessed :: "Date \<Rightarrow> DirFileEntryData \<Rightarrow> DirFileEntryData" where
  "DirFileEntryData_set_accessed date self = self\<lparr>dfe_access_date := Date_encode date\<rparr>"

definition DirFileEntryData_set_modified :: "DateTime \<Rightarrow> DirFileEntryData \<Rightarrow> DirFileEntryData" where
  "DirFileEntryData_set_modified date_time self =
     self\<lparr>dfe_modify_date := Date_encode (dt_date date_time), dfe_modify_time := fst (Time_encode (dt_time date_time))\<rparr>"

definition DirFileEntryData_serialize :: "DirFileEntryData \<Rightarrow> 's stream \<Rightarrow> ('s, unit) fat_io" where
  "DirFileEntryData_serialize self wrt = io_seq [
     write_all wrt (dfe_name self),
     write_u8 wrt (dfe_attrs self),
     write_u8 wrt (dfe_reserved_0 self),
     write_u8 wrt (dfe_create_time_0 self),
     write_u16_le wrt (dfe_create_time_1 self),
     write_u16_le wrt (dfe_create_date self),
     write_u16_le wrt (dfe_access_date self),
     write_u16_le wrt (dfe_first_cluster_hi self),
     write_u16_le wrt (dfe_modify_time self),
     write_u16_le wrt (dfe_modify_date self),
     write_u16_le wrt (dfe_first_cluster_lo self),
     write_u32_le wrt (dfe_size self)]"

definition DirFileEntryData_is_deleted :: "DirFileEntryData \<Rightarrow> bool" where
  "DirFileEntryData_is_deleted self \<longleftrightarrow> dfe_name self ! 0 = DIR_ENTRY_DELETED_FLAG"

definition DirFileEntryData_set_deleted :: "DirFileEntryData \<Rightarrow> DirFileEntryData" where
  "DirFileEntryData_set_deleted self = self\<lparr>dfe_name := (dfe_name self)[0 := DIR_ENTRY_DELETED_FLAG]\<rparr>"

definition DirFileEntryData_is_end :: "DirFileEntryData \<Rightarrow> bool" where
  "DirFileEntryData_is_end self \<longleftrightarrow> dfe_name self ! 0 = 0"

definition DirFileEntryData_is_volume :: "DirFileEntryData \<Rightarrow> bool" where
  "DirFileEntryData_is_volume self = flags_contains (dfe_attrs self) VOLUME_ID"

section \<open>Long name entries\<close>

record DirLfnEntryData =
  dle_order :: u8
  dle_name_0 :: "u16 list"
  dle_attrs :: FileAttributes
  dle_entry_type :: u8
  dle_checksum :: u8
  dle_name_1 :: "u16 list"
  dle_reserved_0 :: u16
  dle_name_2 :: "u16 list"

definition DirLfnEntryData_default :: DirLfnEntryData where
  "DirLfnEntryData_default = \<lparr>dle_order = 0, dle_name_0 = replicate 5 0, dle_attrs = 0, dle_entry_type = 0, dle_checksum = 0,
     dle_name_1 = replicate 6 0, dle_reserved_0 = 0, dle_name_2 = replicate 2 0\<rparr>"

definition DirLfnEntryData_new :: "u8 \<Rightarrow> u8 \<Rightarrow> DirLfnEntryData" where
  "DirLfnEntryData_new order checksum =
     DirLfnEntryData_default\<lparr>dle_order := order, dle_checksum := checksum, dle_attrs := LFN\<rparr>"

definition copy_name_from_slice :: "u16 list \<Rightarrow> DirLfnEntryData \<Rightarrow> DirLfnEntryData" where
  "copy_name_from_slice lfn_part self =
     self\<lparr>dle_name_0 := take 5 lfn_part, dle_name_1 := take 6 (drop 5 lfn_part), dle_name_2 := take 2 (drop 11 lfn_part)\<rparr>"

text \<open>The three parts are copied to a slice of 13 units.\<close>

definition copy_name_to_slice :: "DirLfnEntryData \<Rightarrow> u16 list \<Rightarrow> u16 list" where
  "copy_name_to_slice self lfn_part =
     overwrite (overwrite (overwrite lfn_part 0 (dle_name_0 self)) 5 (dle_name_1 self)) 11 (dle_name_2 self)"

definition DirLfnEntryData_serialize :: "DirLfnEntryData \<Rightarrow> 's stream \<Rightarrow> ('s, unit) fat_io" where
  "DirLfnEntryData_serialize self wrt = io_seq (
     [write_u8 wrt (dle_order self)]
   @ map (write_u16_le wrt) (dle_name_0 self)
   @ [write_u8 wrt (dle_attrs self), write_u8 wrt (dle_entry_type self), write_u8 wrt (dle_checksum self)]
   @ map (write_u16_le wrt) (dle_name_1 self)
   @ [write_u16_le wrt (dle_reserved_0 self)]
   @ map (write_u16_le wrt) (dle_name_2 self))"

definition DirLfnEntryData_is_deleted :: "DirLfnEntryData \<Rightarrow> bool" where
  "DirLfnEntryData_is_deleted self \<longleftrightarrow> dle_order self = DIR_ENTRY_DELETED_FLAG"

definition DirLfnEntryData_set_deleted :: "DirLfnEntryData \<Rightarrow> DirLfnEntryData" where
  "DirLfnEntryData_set_deleted self = self\<lparr>dle_order := DIR_ENTRY_DELETED_FLAG\<rparr>"

definition DirLfnEntryData_is_end :: "DirLfnEntryData \<Rightarrow> bool" where
  "DirLfnEntryData_is_end self \<longleftrightarrow> dle_order self = 0"

section \<open>Entries\<close>

datatype DirEntryData = DirEntryData_File DirFileEntryData | DirEntryData_Lfn DirLfnEntryData

definition DirEntryData_serialize :: "DirEntryData \<Rightarrow> 's stream \<Rightarrow> ('s, unit) fat_io" where
  "DirEntryData_serialize self wrt = (case self of
     DirEntryData_File file \<Rightarrow> DirFileEntryData_serialize file wrt
   | DirEntryData_Lfn lfn \<Rightarrow> DirLfnEntryData_serialize lfn wrt)"

text \<open>The units of a part of a name, from bytes already read and from the stream.\<close>

fun u16_chunks :: "u8 list \<Rightarrow> u16 list" where
  "u16_chunks (a # b # bs) = u16_from_le_bytes [a, b] # u16_chunks bs"
| "u16_chunks _ = []"

fun read_u16s :: "nat \<Rightarrow> 's stream \<Rightarrow> ('s, u16 list) fat_io" where
  "read_u16s 0 rdr = io_return []"
| "read_u16s (Suc n) rdr =
     io_bind (read_u16_le rdr) (\<lambda>x.
     io_bind (read_u16s n rdr) (\<lambda>xs.
     io_return (x # xs)))"

definition DirEntryData_deserialize :: "'s stream \<Rightarrow> ('s, DirEntryData) fat_io" where
  "DirEntryData_deserialize rdr =
     io_try (read_exact rdr SFN_SIZE) (\<lambda>r. case r of
       Inl UnexpectedEof \<Rightarrow> io_return (DirEntryData_File DirFileEntryData_default)
     | Inl err \<Rightarrow> io_err err
     | Inr name \<Rightarrow>
         io_bind (read_u8 rdr) (\<lambda>b.
         let attrs = flags_from_bits_truncate FileAttributes_all b in
         if attrs AND LFN = LFN then
           let data = DirLfnEntryData_default\<lparr>dle_attrs := attrs, dle_order := name ! 0, dle_name_0 := u16_chunks (drop 1 name)\<rparr> in
           io_bind (read_u8 rdr) (\<lambda>entry_type.
           io_bind (read_u8 rdr) (\<lambda>checksum.
           io_bind (read_u16s 6 rdr) (\<lambda>name_1.
           io_bind (read_u16_le rdr) (\<lambda>reserved_0.
           io_bind (read_u16s 2 rdr) (\<lambda>name_2.
           io_return (DirEntryData_Lfn (data\<lparr>dle_entry_type := entry_type, dle_checksum := checksum, dle_name_1 := name_1,
             dle_reserved_0 := reserved_0, dle_name_2 := name_2\<rparr>)))))))
         else
           io_bind (read_u8 rdr) (\<lambda>reserved_0.
           io_bind (read_u8 rdr) (\<lambda>create_time_0.
           io_bind (read_u16_le rdr) (\<lambda>create_time_1.
           io_bind (read_u16_le rdr) (\<lambda>create_date.
           io_bind (read_u16_le rdr) (\<lambda>access_date.
           io_bind (read_u16_le rdr) (\<lambda>first_cluster_hi.
           io_bind (read_u16_le rdr) (\<lambda>modify_time.
           io_bind (read_u16_le rdr) (\<lambda>modify_date.
           io_bind (read_u16_le rdr) (\<lambda>first_cluster_lo.
           io_bind (read_u32_le rdr) (\<lambda>sz.
           io_return (DirEntryData_File \<lparr>dfe_name = name, dfe_attrs = attrs, dfe_reserved_0 = reserved_0,
             dfe_create_time_0 = create_time_0, dfe_create_time_1 = create_time_1, dfe_create_date = create_date,
             dfe_access_date = access_date, dfe_first_cluster_hi = first_cluster_hi, dfe_modify_time = modify_time,
             dfe_modify_date = modify_date, dfe_first_cluster_lo = first_cluster_lo, dfe_size = sz\<rparr>)))))))))))))"

definition DirEntryData_is_deleted :: "DirEntryData \<Rightarrow> bool" where
  "DirEntryData_is_deleted self = (case self of
     DirEntryData_File file \<Rightarrow> DirFileEntryData_is_deleted file
   | DirEntryData_Lfn lfn \<Rightarrow> DirLfnEntryData_is_deleted lfn)"

definition DirEntryData_set_deleted :: "DirEntryData \<Rightarrow> DirEntryData" where
  "DirEntryData_set_deleted self = (case self of
     DirEntryData_File file \<Rightarrow> DirEntryData_File (DirFileEntryData_set_deleted file)
   | DirEntryData_Lfn lfn \<Rightarrow> DirEntryData_Lfn (DirLfnEntryData_set_deleted lfn))"

definition DirEntryData_is_end :: "DirEntryData \<Rightarrow> bool" where
  "DirEntryData_is_end self = (case self of
     DirEntryData_File file \<Rightarrow> DirFileEntryData_is_end file
   | DirEntryData_Lfn lfn \<Rightarrow> DirLfnEntryData_is_end lfn)"

section \<open>The editor of an entry\<close>

record DirEntryEditor =
  de_data :: DirFileEntryData
  de_pos :: u64
  de_dirty :: bool

definition DirEntryEditor_new :: "DirFileEntryData \<Rightarrow> u64 \<Rightarrow> DirEntryEditor" where
  "DirEntryEditor_new data pos = \<lparr>de_data = data, de_pos = pos, de_dirty = False\<rparr>"

definition DirEntryEditor_set_first_cluster :: "u32 option \<Rightarrow> FatType \<Rightarrow> DirEntryEditor \<Rightarrow> DirEntryEditor" where
  "DirEntryEditor_set_first_cluster first_cluster fat_type self =
     (if first_cluster \<noteq> DirFileEntryData_first_cluster (de_data self) fat_type then
        self\<lparr>de_data := DirFileEntryData_set_first_cluster first_cluster fat_type (de_data self), de_dirty := True\<rparr>
      else self)"

definition DirEntryEditor_set_size :: "u32 \<Rightarrow> DirEntryEditor \<Rightarrow> DirEntryEditor" where
  "DirEntryEditor_set_size sz self = (case DirFileEntryData_size (de_data self) of
     Some n \<Rightarrow> if sz \<noteq> n then self\<lparr>de_data := DirFileEntryData_set_size sz (de_data self), de_dirty := True\<rparr> else self
   | None \<Rightarrow> self)"

definition DirEntryEditor_set_created :: "DateTime \<Rightarrow> DirEntryEditor \<Rightarrow> DirEntryEditor" where
  "DirEntryEditor_set_created date_time self =
     (if date_time \<noteq> DirFileEntryData_created (de_data self) then
        self\<lparr>de_data := DirFileEntryData_set_created date_time (de_data self), de_dirty := True\<rparr>
      else self)"

definition DirEntryEditor_set_accessed :: "Date \<Rightarrow> DirEntryEditor \<Rightarrow> DirEntryEditor" where
  "DirEntryEditor_set_accessed date self =
     (if date \<noteq> DirFileEntryData_accessed (de_data self) then
        self\<lparr>de_data := DirFileEntryData_set_accessed date (de_data self), de_dirty := True\<rparr>
      else self)"

definition DirEntryEditor_set_modified :: "DateTime \<Rightarrow> DirEntryEditor \<Rightarrow> DirEntryEditor" where
  "DirEntryEditor_set_modified date_time self =
     (if date_time \<noteq> DirFileEntryData_modified (de_data self) then
        self\<lparr>de_data := DirFileEntryData_set_modified date_time (de_data self), de_dirty := True\<rparr>
      else self)"

definition DirEntryEditor_write :: "'s stream \<Rightarrow> DirEntryEditor \<Rightarrow> ('s FileSystem, unit) fat_io" where
  "DirEntryEditor_write st self =
     io_bind (io_disk (st_seek st (Start (de_pos self)))) (\<lambda>_.
     io_disk (DirFileEntryData_serialize (de_data self) st))"

text \<open>\<^verbatim>\<open>flush\<close> returns the editor as it leaves it.\<close>

definition DirEntryEditor_flush :: "'s stream \<Rightarrow> DirEntryEditor \<Rightarrow> ('s FileSystem, DirEntryEditor) fat_io" where
  "DirEntryEditor_flush st self =
     (if de_dirty self then
        io_bind (DirEntryEditor_write st self) (\<lambda>_.
        io_return (self\<lparr>de_dirty := False\<rparr>))
      else io_return self)"

section \<open>The layout of an entry\<close>

definition DirFileEntryData_bytes :: "DirFileEntryData \<Rightarrow> u8 list" where
  "DirFileEntryData_bytes e = dfe_name e @ [dfe_attrs e] @ [dfe_reserved_0 e] @ [dfe_create_time_0 e]
   @ u16_to_le_bytes (dfe_create_time_1 e) @ u16_to_le_bytes (dfe_create_date e) @ u16_to_le_bytes (dfe_access_date e)
   @ u16_to_le_bytes (dfe_first_cluster_hi e) @ u16_to_le_bytes (dfe_modify_time e) @ u16_to_le_bytes (dfe_modify_date e)
   @ u16_to_le_bytes (dfe_first_cluster_lo e) @ u32_to_le_bytes (dfe_size e)"

definition u16s_bytes :: "u16 list \<Rightarrow> u8 list" where
  "u16s_bytes xs = concat (map u16_to_le_bytes xs)"

definition DirLfnEntryData_bytes :: "DirLfnEntryData \<Rightarrow> u8 list" where
  "DirLfnEntryData_bytes e = [dle_order e] @ u16s_bytes (dle_name_0 e) @ [dle_attrs e] @ [dle_entry_type e] @ [dle_checksum e]
   @ u16s_bytes (dle_name_1 e) @ u16_to_le_bytes (dle_reserved_0 e) @ u16s_bytes (dle_name_2 e)"

definition DirEntryData_bytes :: "DirEntryData \<Rightarrow> u8 list" where
  "DirEntryData_bytes e = (case e of DirEntryData_File f \<Rightarrow> DirFileEntryData_bytes f | DirEntryData_Lfn l \<Rightarrow> DirLfnEntryData_bytes l)"

text \<open>
  Entries that the format can express: arrays have their length, there are no unknown attribute
  bits, and the attributes tell the two kinds apart.
\<close>

definition DirEntryData_wf :: "DirEntryData \<Rightarrow> bool" where
  "DirEntryData_wf e = (case e of
     DirEntryData_File f \<Rightarrow> length (dfe_name f) = 11 \<and> flags_from_bits_truncate FileAttributes_all (dfe_attrs f) = dfe_attrs f
       \<and> dfe_attrs f AND LFN \<noteq> LFN
   | DirEntryData_Lfn l \<Rightarrow> length (dle_name_0 l) = 5 \<and> length (dle_name_1 l) = 6 \<and> length (dle_name_2 l) = 2
       \<and> flags_from_bits_truncate FileAttributes_all (dle_attrs l) = dle_attrs l \<and> dle_attrs l AND LFN = LFN)"

lemma length_u16s_bytes [simp]: "length (u16s_bytes xs) = 2 * length xs"
  by (induction xs) (simp_all add: u16s_bytes_def)

lemma u16s_bytes_simps [simp]: "u16s_bytes [] = []" "u16s_bytes (x # xs) = u16_to_le_bytes x @ u16s_bytes xs"
  by (simp_all add: u16s_bytes_def)

lemma length_DirEntryData_bytes: "DirEntryData_wf e \<Longrightarrow> length (DirEntryData_bytes e) = 32"
  by (auto simp: DirEntryData_wf_def DirEntryData_bytes_def DirFileEntryData_bytes_def DirLfnEntryData_bytes_def
      split: DirEntryData.splits)

lemma u16_chunks_bytes [simp]: "u16_chunks (u16s_bytes xs) = xs"
proof (induction xs)
  case (Cons x xs)
  obtain a b where "u16_to_le_bytes x = [a, b]" by (simp add: u16_to_le_bytes_def)
  then show ?case using Cons u16_le_bytes [of x] by simp
qed simp

lemma io_seq_append: "io_seq (xs @ ys) s = io_bind (io_seq xs) (\<lambda>_. io_seq ys) s"
proof (induction xs arbitrary: s)
  case (Cons m ms)
  then show ?case by (simp add: io_bind_def split: option.splits sum.splits prod.splits Option.bind_splits)
qed (simp add: io_bind_def)

context exact_reader
begin

lemma parses_u16s: "length xs = n \<Longrightarrow> parses ok img pos cap (read_u16s n st) (u16s_bytes xs) xs"
proof (induction n arbitrary: xs)
  case 0
  then show ?case by (simp only: length_0_conv read_u16s.simps u16s_bytes_simps parses_return)
next
  case (Suc n)
  then obtain x ys where xs: "xs = x # ys" "length ys = n" by (cases xs) auto
  show ?case unfolding xs(1) u16s_bytes_simps read_u16s.simps
    by (rule parses_bind, rule parses_u16, rule parses_bind_return, rule Suc.IH) (simp_all add: xs)
qed

lemma parses_try:
  assumes m: "parses ok img pos cap m bs x" and k: "parses ok img pos cap (k (Inr x)) cs v"
  shows "parses ok img pos cap (io_try m k) (bs @ cs) v"
proof -
  have "io_try m k s = io_bind m (\<lambda>x. k (Inr x)) s" if "m s = Some (Inr y, s')" for s y s' using that by simp
  moreover have "parses ok img pos cap (io_bind m (\<lambda>x. k (Inr x))) (bs @ cs) v" using m k by (rule parses_bind)
  moreover have "\<exists>s'. m s = Some (Inr x, s')" if "ok s" "pos s + length (bs @ cs) \<le> cap" "length (bs @ cs) < 2 ^ 32"
    "bytes_at (img s) (pos s) (length (bs @ cs)) = bs @ cs" for s
    using that by (auto simp: bytes_at_add elim!: parsesD [OF m, of s])
  ultimately show ?thesis unfolding parses_def by (metis (no_types, lifting))
qed

lemma DirEntryData_deserialize_parses:
  assumes "DirEntryData_wf e"
  shows "parses ok img pos cap (DirEntryData_deserialize st) (DirEntryData_bytes e) e"
proof (cases e)
  case (DirEntryData_File f)
  then have wf: "length (dfe_name f) = SFN_SIZE" "flags_from_bits_truncate FileAttributes_all (dfe_attrs f) = dfe_attrs f"
    "dfe_attrs f AND LFN \<noteq> LFN" using assms by (simp_all add: DirEntryData_wf_def SFN_SIZE_def)
  show ?thesis
    unfolding DirEntryData_File DirEntryData_bytes_def DirEntryData.case DirEntryData_deserialize_def DirFileEntryData_bytes_def
    apply (rule parses_try, rule parses_read_exact [OF wf(1)])
    apply (simp only: sum.case)
    apply (rule parses_bind, rule parses_u8)
    apply (simp only: Let_def wf if_False)
    apply (rule parses_bind, rule parses_u8)+
    apply (rule parses_bind, rule parses_u16)+
    apply (rule parses_bind_return [OF parses_u32])
    apply simp
    done
next
  case (DirEntryData_Lfn l)
  then have wf: "length (dle_name_0 l) = 5" "length (dle_name_1 l) = 6" "length (dle_name_2 l) = 2"
    "flags_from_bits_truncate FileAttributes_all (dle_attrs l) = dle_attrs l" "dle_attrs l AND LFN = LFN"
    using assms by (simp_all add: DirEntryData_wf_def)
  have len: "length (dle_order l # u16s_bytes (dle_name_0 l)) = SFN_SIZE" using wf(1) by (simp add: SFN_SIZE_def)
  have split: "DirLfnEntryData_bytes l = (dle_order l # u16s_bytes (dle_name_0 l)) @ [dle_attrs l] @ [dle_entry_type l] @ [dle_checksum l]
     @ u16s_bytes (dle_name_1 l) @ u16_to_le_bytes (dle_reserved_0 l) @ u16s_bytes (dle_name_2 l)"
    by (simp add: DirLfnEntryData_bytes_def)
  show ?thesis
    unfolding DirEntryData_Lfn DirEntryData_bytes_def DirEntryData.case DirEntryData_deserialize_def split
    apply (rule parses_try, rule parses_read_exact [OF len])
    apply (simp only: sum.case)
    apply (rule parses_bind, rule parses_u8)
    apply (simp only: Let_def wf simp_thms if_True)
    apply (rule parses_bind, rule parses_u8)+
    apply (rule parses_bind, rule parses_u16s [OF wf(2)])
    apply (rule parses_bind, rule parses_u16)
    apply (rule parses_bind_return [OF parses_u16s [OF wf(3)]])
    apply (simp add: DirLfnEntryData_default_def)
    done
qed

end

context exact_writer
begin

lemma emits_u16s: "list_all2 (emits ok img pos cap) (map (write_u16_le st) xs) (map u16_to_le_bytes xs)"
  by (simp add: list_all2_conv_all_nth emits_words)

lemma DirEntryData_serialize_emits: "emits ok img pos cap (DirEntryData_serialize e st) (DirEntryData_bytes e)"
proof (cases e)
  case (DirEntryData_File f)
  let ?bss = "[dfe_name f, [dfe_attrs f], [dfe_reserved_0 f], [dfe_create_time_0 f], u16_to_le_bytes (dfe_create_time_1 f),
    u16_to_le_bytes (dfe_create_date f), u16_to_le_bytes (dfe_access_date f), u16_to_le_bytes (dfe_first_cluster_hi f),
    u16_to_le_bytes (dfe_modify_time f), u16_to_le_bytes (dfe_modify_date f), u16_to_le_bytes (dfe_first_cluster_lo f),
    u32_to_le_bytes (dfe_size f)]"
  have "emits ok img pos cap (DirFileEntryData_serialize f st) (concat ?bss)"
    unfolding DirFileEntryData_serialize_def by (rule emits_seq) (simp add: emits_words emits_write_all)
  moreover have "concat ?bss = DirFileEntryData_bytes f" by (simp add: DirFileEntryData_bytes_def)
  ultimately show ?thesis by (simp only: DirEntryData_File DirEntryData_serialize_def DirEntryData_bytes_def DirEntryData.case)
next
  case (DirEntryData_Lfn l)
  let ?bss = "[[dle_order l]] @ map u16_to_le_bytes (dle_name_0 l) @ [[dle_attrs l], [dle_entry_type l], [dle_checksum l]]
    @ map u16_to_le_bytes (dle_name_1 l) @ [u16_to_le_bytes (dle_reserved_0 l)] @ map u16_to_le_bytes (dle_name_2 l)"
  have "emits ok img pos cap (DirLfnEntryData_serialize l st) (concat ?bss)"
    unfolding DirLfnEntryData_serialize_def by (rule emits_seq) (intro list_all2_appendI emits_u16s; simp add: emits_words)
  moreover have "concat ?bss = DirLfnEntryData_bytes l" by (simp add: DirLfnEntryData_bytes_def u16s_bytes_def)
  ultimately show ?thesis by (simp only: DirEntryData_Lfn DirEntryData_serialize_def DirEntryData_bytes_def DirEntryData.case)
qed

end

text \<open>The first cluster of an entry is stored in 16 or 32 bits.\<close>

lemma low_half: "ucast (n AND 0xFFFF :: u32) = (ucast n :: u16)"
proof -
  have "(0xFFFF :: u32) = mask 16" by (simp add: mask_eq_exp_minus_1)
  show ?thesis unfolding \<open>0xFFFF = mask 16\<close> by (auto simp: bit_simps intro!: bit_eqI)
qed

lemma first_cluster_halves: "push_bit 16 (ucast (ucast (drop_bit 16 n) :: u16)) OR ucast (ucast n :: u16) = (n :: u32)"
  by (rule bit_word_eqI) (auto simp: bit_simps)

lemma first_cluster_low: "n < 0x10000 \<Longrightarrow> ucast (ucast n :: u16) = (n :: u32)"
  by (rule word_unat_eq_iff [THEN iffD2])
    (simp add: unat_ucast_up unsigned_ucast_eq unsigned_take_bit_eq take_bit_nat_eq_self word_less_nat_alt)

lemma first_cluster_set:
  assumes "c \<noteq> Some 0" "ft = Fat32 \<or> pred_option (\<lambda>n. n < 0x10000) c"
  shows "DirFileEntryData_first_cluster (DirFileEntryData_set_first_cluster c ft e) ft = c"
  using assms by (cases c) (auto simp: DirFileEntryData_first_cluster_def DirFileEntryData_set_first_cluster_def Let_def
      unwrap_or_def low_half first_cluster_halves first_cluster_low)

section \<open>Properties\<close>

text \<open>
  Property C29. The directory entry round trip on the kernel's disk: an entry of either kind that the format can
  express is written as 32 bytes at the cursor, every other byte of the disk keeps its value, and
  reading from the same place gives the same entry back.
\<close>

theorem DirEntryData_roundtrip:
  assumes "DirEntryData_wf e" "disk_ok dev cap s" "disk_cursor s + 32 \<le> 512 * unat cap" "disk_cursor s < 2 ^ 64"
  shows "\<exists>s1 s2 s3. DirEntryData_serialize e disk_stream s = Some (Inr (), s1)
    \<and> disk_img dev cap s1 = patch (disk_img dev cap s) (disk_cursor s) (DirEntryData_bytes e)
    \<and> length (DirEntryData_bytes e) = 32
    \<and> st_seek disk_stream (Start (word_of_nat (disk_cursor s))) s1 = Some (Inr (word_of_nat (disk_cursor s)), s2)
    \<and> DirEntryData_deserialize disk_stream s2 = Some (Inr e, s3) \<and> disk_img dev cap s3 = disk_img dev cap s1"
  using disk.write_then_read [OF disk.DirEntryData_serialize_emits disk.DirEntryData_deserialize_parses [OF assms(1)] assms(2) _ _ assms(4)]
    length_DirEntryData_bytes [OF assms(1)] assms(3) by auto

definition example_entry :: DirFileEntryData where
  "example_entry = (DirFileEntryData_new (bytes_of ''README  TXT'') ARCHIVE)\<lparr>dfe_first_cluster_lo := 2, dfe_size := 700\<rparr>"

lemma example_entry_wf: "DirEntryData_wf (DirEntryData_File example_entry)"
  by code_simp

theorem DirEntryData_roundtrip_witness:
  "\<exists>s1 s2 s3. DirEntryData_serialize (DirEntryData_File example_entry) disk_stream (ram_driver, ram_sys) = Some (Inr (), s1)
    \<and> st_seek disk_stream (Start 510) s1 = Some (Inr 510, s2)
    \<and> DirEntryData_deserialize disk_stream s2 = Some (Inr (DirEntryData_File example_entry), s3)"
proof -
  have c: "disk_cursor (ram_driver, ram_sys) = 510" by (simp add: disk_cursor_def ram_driver_pos)
  have "disk_cursor (ram_driver, ram_sys) + 32 \<le> 512 * unat (4::u64)" "disk_cursor (ram_driver, ram_sys) < 2 ^ 64"
    by (simp_all add: c)
  from DirEntryData_roundtrip [OF example_entry_wf ram_disk_ok this] show ?thesis by (auto simp: c)
qed

end
