(* ===== verification/Fat_File.thy ===== *)
theory Fat_File
  imports Fat_Dir_Entry
begin

text \<open>
  Files (\<^verbatim>\<open>rust-fatfs/src/file.rs\<close>): a position in a chain of clusters, with the directory entry that
  records the size. A file is read and written one cluster at a time.

  The state of an operation is the file with the file system it refers to. The theorems relate it
  to the sequence of bytes that the clusters of its chain hold.
\<close>

section \<open>Files\<close>

definition MAX_FILE_SIZE :: u32 where "MAX_FILE_SIZE = 0xFFFFFFFF"

record File =
  f_first_cluster :: "u32 option"
  f_current_cluster :: "u32 option"
  f_offset :: u32
  f_entry :: "DirEntryEditor option"

definition File_new :: "u32 option \<Rightarrow> DirEntryEditor option \<Rightarrow> File" where
  "File_new first_cluster entry = \<lparr>f_first_cluster = first_cluster, f_current_cluster = None, f_offset = 0, f_entry = entry\<rparr>"

definition File_truncate :: "'s stream \<Rightarrow> (File \<times> 's FileSystem, unit) fat_io" where
  "File_truncate st = (\<lambda>(self, fs). (
     case f_entry self of
       None \<Rightarrow> io_panic
     | Some e \<Rightarrow>
         let e = DirEntryEditor_set_size (f_offset self) e;
             e = (if f_offset self = 0 then DirEntryEditor_set_first_cluster None (fs_fat_type fs) e else e) in
         io_bind (io_self (\<lambda>self. self\<lparr>f_entry := Some e\<rparr>)) (\<lambda>_.
         case f_current_cluster self of
           Some current_cluster \<Rightarrow> io_inner (truncate_cluster_chain st current_cluster)
         | None \<Rightarrow>
             (case f_first_cluster self of
                Some n \<Rightarrow>
                  io_bind (io_inner (free_cluster_chain st n)) (\<lambda>_.
                  io_self (\<lambda>self. self\<lparr>f_first_cluster := None\<rparr>))
              | None \<Rightarrow> io_return ()))) (self, fs))"

definition File_abs_pos :: "File \<Rightarrow> 's FileSystem \<Rightarrow> u64 option option" where
  "File_abs_pos self fs = (case f_current_cluster self of
     Some n \<Rightarrow> do {
       let cluster_size = FileSystem_cluster_size fs;
       offset_mod_cluster_size \<leftarrow> mod_panic (f_offset self) cluster_size;
       let offset_in_cluster = (if offset_mod_cluster_size = 0 then cluster_size else offset_mod_cluster_size);
       let offset_in_fs = offset_from_cluster fs n + ucast offset_in_cluster;
       Some (Some offset_in_fs) }
   | None \<Rightarrow> Some None)"

definition File_flush_dir_entry :: "'s stream \<Rightarrow> (File \<times> 's FileSystem, unit) fat_io" where
  "File_flush_dir_entry st = (\<lambda>(self, fs). (case f_entry self of
     Some e \<Rightarrow>
       io_bind (io_inner (DirEntryEditor_flush st e)) (\<lambda>e.
       io_self (\<lambda>self. self\<lparr>f_entry := Some e\<rparr>))
   | None \<Rightarrow> io_return ()) (self, fs))"

definition File_set_created :: "DateTime \<Rightarrow> File \<Rightarrow> File" where
  "File_set_created date_time self = self\<lparr>f_entry := map_option (DirEntryEditor_set_created date_time) (f_entry self)\<rparr>"

definition File_set_accessed :: "Date \<Rightarrow> File \<Rightarrow> File" where
  "File_set_accessed date self = self\<lparr>f_entry := map_option (DirEntryEditor_set_accessed date) (f_entry self)\<rparr>"

definition File_set_modified :: "DateTime \<Rightarrow> File \<Rightarrow> File" where
  "File_set_modified date_time self = self\<lparr>f_entry := map_option (DirEntryEditor_set_modified date_time) (f_entry self)\<rparr>"

definition File_size :: "File \<Rightarrow> u32 option" where
  "File_size self = (case f_entry self of Some e \<Rightarrow> DirFileEntryData_size (de_data e) | None \<Rightarrow> None)"

definition File_is_dir :: "File \<Rightarrow> bool" where
  "File_is_dir self = (case f_entry self of Some e \<Rightarrow> DirFileEntryData_is_dir (de_data e) | None \<Rightarrow> False)"

definition bytes_left_in_file :: "File \<Rightarrow> nat option" where
  "bytes_left_in_file self = map_option (\<lambda>s. unat (s - f_offset self)) (File_size self)"

definition File_set_first_cluster :: "u32 \<Rightarrow> FatType \<Rightarrow> File \<Rightarrow> File" where
  "File_set_first_cluster cluster fat_type self =
     self\<lparr>f_first_cluster := Some cluster,
       f_entry := map_option (DirEntryEditor_set_first_cluster (Some cluster) fat_type) (f_entry self)\<rparr>"

definition File_flush :: "'s stream \<Rightarrow> (File \<times> 's FileSystem, unit) fat_io" where
  "File_flush st =
     io_bind (File_flush_dir_entry st) (\<lambda>_.
     io_inner (io_disk (st_flush st)))"

definition update_dir_entry_after_write :: "File \<Rightarrow> File" where
  "update_dir_entry_after_write self = (case f_entry self of
     Some e \<Rightarrow>
       let e = DirEntryEditor_set_modified get_current_date_time e;
           e = (case DirFileEntryData_size (de_data e) of
               Some s \<Rightarrow> if f_offset self > s then DirEntryEditor_set_size (f_offset self) e else e
             | None \<Rightarrow> e) in
       self\<lparr>f_entry := Some e\<rparr>
   | None \<Rightarrow> self)"

text \<open>An error of the flush is logged and dropped with the file.\<close>

definition File_drop :: "'s stream \<Rightarrow> File \<Rightarrow> 's FileSystem \<Rightarrow> 's FileSystem option" where
  "File_drop st self fs = do { (_, (_, fs)) \<leftarrow> File_flush st (self, fs); Some fs }"

section \<open>Reading and writing\<close>

text \<open>The cluster behind \<^term>\<open>n\<close> in its chain, \<^verbatim>\<open>fs.cluster_iter(n).next()\<close>.\<close>

definition cluster_iter_next :: "'s stream \<Rightarrow> u32 \<Rightarrow> ('s FileSystem, u32 option) fat_io" where
  "cluster_iter_next st n fs =
     io_bind (with_fat (ClusterIterator_next (slice_stream (FsIoAdapter st)) (ClusterIterator_new (fs_fat_type fs) n))) (\<lambda>(_, r).
     case r of
       Some (Inl err) \<Rightarrow> io_err err
     | Some (Inr n) \<Rightarrow> io_return (Some n)
     | None \<Rightarrow> io_return None) fs"

definition File_read :: "'s stream \<Rightarrow> nat \<Rightarrow> (File \<times> 's FileSystem, u8 list) fat_io" where
  "File_read st len = (\<lambda>(self, fs). (
     let cluster_size = FileSystem_cluster_size fs in
     io_bind (io_lift (mod_panic (f_offset self) cluster_size)) (\<lambda>offset_in_cluster.
     io_bind (if offset_in_cluster = 0 then
         (case f_current_cluster self of
            None \<Rightarrow> io_return (f_first_cluster self)
          | Some n \<Rightarrow> io_inner (cluster_iter_next st n))
       else io_return (f_current_cluster self)) (\<lambda>current_cluster_opt.
     case current_cluster_opt of
       None \<Rightarrow> io_return []
     | Some current_cluster \<Rightarrow>
         let bytes_left_in_cluster = unat (cluster_size - offset_in_cluster);
             left = unwrap_or (bytes_left_in_file self) bytes_left_in_cluster;
             read_size = min (min len bytes_left_in_cluster) left in
         if read_size = 0 then io_return []
         else
           let offset_in_fs = offset_from_cluster fs current_cluster + ucast offset_in_cluster in
           io_bind (io_inner (io_disk (st_seek st (Start offset_in_fs)))) (\<lambda>_.
           io_bind (io_inner (io_disk (st_read st read_size))) (\<lambda>buf.
           if buf = [] then io_return []
           else
             io_bind (io_self (\<lambda>self. self\<lparr>f_offset := f_offset self + word_of_nat (length buf),
               f_current_cluster := Some current_cluster\<rparr>)) (\<lambda>_.
             io_bind (io_self (\<lambda>self.
               if fso_update_accessed_date (fs_options fs) then File_set_accessed get_current_date self else self)) (\<lambda>_.
             io_return buf))))))) (self, fs))"

text \<open>The cluster that \<^verbatim>\<open>write\<close> uses, possibly a new one.\<close>

definition File_write_cluster :: "'s stream \<Rightarrow> u32 \<Rightarrow> (File \<times> 's FileSystem, u32) fat_io" where
  "File_write_cluster st offset_in_cluster = (\<lambda>(self, fs). (
     if offset_in_cluster = 0 then
       io_bind (case f_current_cluster self of
           None \<Rightarrow> io_return (f_first_cluster self)
         | Some n \<Rightarrow> io_inner (cluster_iter_next st n)) (\<lambda>next_cluster.
       case next_cluster of
         Some n \<Rightarrow> io_return n
       | None \<Rightarrow>
           io_bind (io_inner (FileSystem_alloc_cluster st (f_current_cluster self) (File_is_dir self))) (\<lambda>new_cluster.
           io_bind (if f_first_cluster self = None then io_self (File_set_first_cluster new_cluster (fs_fat_type fs)) else io_return ()) (\<lambda>_.
           io_return new_cluster)))
     else
       (case f_current_cluster self of
          Some n \<Rightarrow> io_return n
        | None \<Rightarrow> io_panic)) (self, fs))"

definition File_write :: "'s stream \<Rightarrow> u8 list \<Rightarrow> (File \<times> 's FileSystem, nat) fat_io" where
  "File_write st buf = (\<lambda>(self, fs). (
     let cluster_size = FileSystem_cluster_size fs in
     io_bind (io_lift (mod_panic (f_offset self) cluster_size)) (\<lambda>offset_in_cluster.
     let bytes_left_in_cluster = unat (cluster_size - offset_in_cluster);
         bytes_left_until_max_file_size = unat (MAX_FILE_SIZE - f_offset self);
         write_size = min (length buf) bytes_left_in_cluster;
         write_size = min write_size bytes_left_until_max_file_size in
     if write_size = 0 then io_return 0
     else
       io_bind (io_inner (set_dirty_flag st True)) (\<lambda>_.
       io_bind (File_write_cluster st offset_in_cluster) (\<lambda>current_cluster.
       let offset_in_fs = offset_from_cluster fs current_cluster + ucast offset_in_cluster in
       io_bind (io_inner (io_disk (st_seek st (Start offset_in_fs)))) (\<lambda>_.
       io_bind (io_inner (io_disk (st_write st (take write_size buf)))) (\<lambda>written_bytes.
       if written_bytes = 0 then io_return 0
       else
         io_bind (io_self (\<lambda>self. self\<lparr>f_offset := f_offset self + word_of_nat written_bytes,
           f_current_cluster := Some current_cluster\<rparr>)) (\<lambda>_.
         io_bind (io_self update_dir_entry_after_write) (\<lambda>_.
         io_return written_bytes)))))))) (self, fs))"

section \<open>Seeking\<close>

text \<open>\<^verbatim>\<open>i64::from\<close>, the checked signed addition and \<^verbatim>\<open>u32::try_from\<close>, on the mathematical values.\<close>

definition u32_add_i64 :: "u32 \<Rightarrow> u64 \<Rightarrow> u32 option" where
  "u32_add_i64 n x = (
     let m = int (unat n) + sint x in
     if m < 2 ^ 63 \<and> 0 \<le> m \<and> m < 2 ^ 32 then Some (word_of_int m) else None)"

text \<open>
  The clusters that the seek passes, from index \<^term>\<open>i\<close> on; when the chain ends early, the index is
  returned too.
\<close>

fun File_seek_loop :: "'t stream \<Rightarrow> nat \<Rightarrow> u32 \<Rightarrow> ClusterIterator \<Rightarrow> u32 \<Rightarrow> ('t, u32 \<times> u32 option) fat_io" where
  "File_seek_loop fat 0 i iter cluster = io_return (cluster, None)"
| "File_seek_loop fat (Suc k) i iter cluster =
     io_bind (ClusterIterator_next fat iter) (\<lambda>(iter, r).
     case r of
       Some (Inr cluster) \<Rightarrow> File_seek_loop fat k (i + 1) iter cluster
     | Some (Inl err) \<Rightarrow> io_err err
     | None \<Rightarrow> io_return (cluster, Some i))"

text \<open>The position asked for, when it is one.\<close>

definition File_seek_target :: "File \<Rightarrow> SeekFrom \<Rightarrow> u32 option" where
  "File_seek_target self pos = (case pos of
     Current x \<Rightarrow> u32_add_i64 (f_offset self) x
   | Start x \<Rightarrow> if x < 0x100000000 then Some (ucast x) else None
   | End x \<Rightarrow> Option.bind (File_size self) (\<lambda>s. u32_add_i64 s x))"

definition File_seek :: "'s stream \<Rightarrow> SeekFrom \<Rightarrow> (File \<times> 's FileSystem, u64) fat_io" where
  "File_seek st pos = (\<lambda>(self, fs). (
     let size_opt = File_size self in
     case File_seek_target self pos of
       None \<Rightarrow> io_err InvalidInput
     | Some new_offset \<Rightarrow>
         let new_offset = (case size_opt of Some s \<Rightarrow> if new_offset > s then s else new_offset | None \<Rightarrow> new_offset) in
         if new_offset = f_offset self then io_return (ucast (f_offset self))
         else
           io_bind (io_lift (clusters_from_bytes fs (ucast new_offset))) (\<lambda>new_offset_in_clusters.
           io_bind (io_lift (clusters_from_bytes fs (ucast (f_offset self)))) (\<lambda>old_offset_in_clusters.
           io_bind (
             if new_offset = 0 then io_return (None, new_offset)
             else if new_offset_in_clusters = old_offset_in_clusters then io_return (f_current_cluster self, new_offset)
             else case f_first_cluster self of
               Some first_cluster \<Rightarrow>
                 let clusters_to_skip = new_offset_in_clusters - 1 in
                 io_bind (io_inner (with_fat (File_seek_loop (slice_stream (FsIoAdapter st)) (unat clusters_to_skip) 0
                   (ClusterIterator_new (fs_fat_type fs) first_cluster) first_cluster))) (\<lambda>(cluster, ended).
                 io_return (Some cluster, case ended of Some i \<Rightarrow> ucast (bytes_from_clusters fs (i + 1)) | None \<Rightarrow> new_offset))
             | None \<Rightarrow> io_return (None, 0)) (\<lambda>(new_cluster, new_offset).
           io_bind (io_self (\<lambda>self. self\<lparr>f_offset := new_offset, f_current_cluster := new_cluster\<rparr>)) (\<lambda>_.
           io_return (ucast new_offset)))))) (self, fs))"

definition file_stream :: "'s stream \<Rightarrow> (File \<times> 's FileSystem) stream" where
  "file_stream st = \<lparr>st_read = File_read st, st_write = File_write st, st_flush = File_flush st, st_seek = File_seek st,
     st_eof = UnexpectedEof, st_zero = WriteZero\<rparr>"

section \<open>The bytes of a file\<close>

text \<open>
  A file stands for the bytes of the clusters \<^term>\<open>cs\<close> of its chain, up to the size its entry
  records; a directory has no size and uses its clusters completely. The current cluster is the
  one before the position, as the comment in the source demands.
\<close>

definition file_len :: "'s FileSystem \<Rightarrow> File \<Rightarrow> u32 list \<Rightarrow> nat" where
  "file_len fs self cs = (case File_size self of Some s \<Rightarrow> unat s | None \<Rightarrow> length cs * fs_cs fs)"

definition file_ok :: "('s \<Rightarrow> nat \<Rightarrow> u8) \<Rightarrow> 's FileSystem \<Rightarrow> File \<Rightarrow> u32 list \<Rightarrow> bool" where
  "file_ok img fs self cs \<longleftrightarrow>
     f_first_cluster self = (case cs of [] \<Rightarrow> None | c # _ \<Rightarrow> Some c)
     \<and> (cs \<noteq> [] \<longrightarrow> fat_chain (fs_table img fs) cs \<and> fs_table img fs (last cs) \<noteq> Free)
     \<and> (\<forall>c\<in>set cs. valid_cluster fs c)
     \<and> file_len fs self cs \<le> length cs * fs_cs fs \<and> file_len fs self cs < 2 ^ 32
     \<and> unat (f_offset self) \<le> file_len fs self cs
     \<and> f_current_cluster self = (if f_offset self = 0 then None else Some (cs ! ((unat (f_offset self) - 1) div fs_cs fs)))
     \<and> pred_option (\<lambda>e. DirFileEntryData_first_cluster (de_data e) (fs_fat_type fs) = f_first_cluster self) (f_entry self)"

definition file_byte :: "('s \<Rightarrow> nat \<Rightarrow> u8) \<Rightarrow> 's FileSystem \<Rightarrow> u32 list \<Rightarrow> nat \<Rightarrow> u8" where
  "file_byte img fs cs i = img (fs_disk fs) (cluster_addr fs (cs ! (i div fs_cs fs)) + i mod fs_cs fs)"

definition file_content :: "('s \<Rightarrow> nat \<Rightarrow> u8) \<Rightarrow> 's FileSystem \<Rightarrow> File \<Rightarrow> u32 list \<Rightarrow> u8 list" where
  "file_content img fs self cs = take (file_len fs self cs) (concat (map (fs_cluster img fs) cs))"

lemma concat_chunks_nth:
  assumes "\<And>x. x \<in> set xs \<Longrightarrow> length (f x) = n" "i < length xs * n"
  shows "concat (map f xs) ! i = f (xs ! (i div n)) ! (i mod n)"
  using assms
proof (induction xs arbitrary: i)
  case (Cons x xs)
  have len: "length (f x) = n" using Cons.prems(1) by simp
  have "0 < n" using Cons.prems(2) by (cases n) simp_all
  show ?case
  proof (cases "i < n")
    case True
    then show ?thesis using len by (simp add: nth_append)
  next
    case False
    then have "i = n + (i - n)" by simp
    then have "i div n = Suc ((i - n) div n)" "i mod n = (i - n) mod n"
      using \<open>0 < n\<close> by (metis div_add_self1 add_0 Suc_eq_plus1 add.commute less_irrefl, metis mod_add_self1)
    moreover have "i - n < length xs * n" using False Cons.prems(2) by simp
    ultimately show ?thesis using False len Cons.IH [of "i - n"] Cons.prems(1) by (simp add: nth_append)
  qed
qed simp

lemma concat_chunks_length: "(\<And>x. x \<in> set xs \<Longrightarrow> length (f x) = n) \<Longrightarrow> length (concat (map f xs)) = length xs * n"
  by (induction xs) simp_all

lemma length_fs_cluster [simp]: "length (fs_cluster img fs c) = fs_cs fs"
  by (simp add: fs_cluster_def)

lemma file_content_bytes:
  assumes "file_ok img fs self cs" "0 < fs_cs fs"
  shows "file_content img fs self cs = bytes_at (file_byte img fs cs) 0 (file_len fs self cs)"
proof (rule nth_equalityI)
  have len: "file_len fs self cs \<le> length cs * fs_cs fs" using assms(1) by (simp add: file_ok_def)
  then show "length (file_content img fs self cs) = length (bytes_at (file_byte img fs cs) 0 (file_len fs self cs))"
    by (simp add: file_content_def concat_chunks_length [where n = "fs_cs fs"])
  fix i assume "i < length (file_content img fs self cs)"
  then have "i < file_len fs self cs" by (simp add: file_content_def)
  with len have "i < length cs * fs_cs fs" by simp
  with \<open>i < file_len fs self cs\<close> assms(2) show "file_content img fs self cs ! i = bytes_at (file_byte img fs cs) 0 (file_len fs self cs) ! i"
    by (simp add: file_content_def concat_chunks_nth [where n = "fs_cs fs"] file_byte_def fs_cluster_def)
qed

text \<open>The cluster at the position, when the position is the start of a cluster.\<close>

lemma fat_chain_next:
  "fat_chain t cs \<Longrightarrow> i < length cs \<Longrightarrow>
    (case t (cs ! i) of Data n \<Rightarrow> Some n | _ \<Rightarrow> None) = (if Suc i < length cs then Some (cs ! Suc i) else None)"
proof (induction t cs arbitrary: i rule: fat_chain.induct)
  case (2 t c)
  then show ?case by (auto split: FatValue.splits)
next
  case (3 t c d cs)
  then show ?case by (cases i) auto
qed simp

lemma fat_chain_snoc:
  assumes "fat_chain t cs" "c \<notin> set cs" "\<And>d. t' d = (if d = last cs then Data c else if d = c then EndOfChain else t d)"
  shows "fat_chain t' (cs @ [c])"
  using assms
proof (induction t cs rule: fat_chain.induct)
  case (3 t a b cs)
  have "a \<noteq> last (b # cs)"
    using fat_chain_distinct [OF 3(2)] by (metis distinct.simps(2) last_in_set list.distinct(1))
  then show ?case using 3 by auto
qed auto

lemma last_cluster_index:
  fixes n k c :: nat
  assumes "0 < k" "k \<le> c - n mod c" "0 < c"
  shows "(n + k - 1) div c = n div c"
proof -
  have c: "c \<noteq> 0" using assms(3) by simp
  have eq: "n + k - 1 = (n mod c + (k - 1)) + c * (n div c)" using assms(1) by (simp add: mult_div_mod_eq)
  have "(n + k - 1) div c = n div c + (n mod c + (k - 1)) div c" unfolding eq by (rule div_mult_self2 [OF c])
  moreover have "n mod c + (k - 1) < c" using assms mod_less_divisor [of c n] by linarith
  ultimately show ?thesis by simp
qed

lemma boundary_index:
  fixes n c :: nat
  assumes "0 < n" "n mod c = 0" "0 < c"
  shows "Suc ((n - 1) div c) = n div c" "(n - 1) div c * c + c = n"
proof -
  obtain q where q: "n = c * q" using assms(2) by (auto simp: mod_eq_0_iff_dvd)
  with assms(1) obtain r where r: "q = Suc r" by (cases q) auto
  have c: "c \<noteq> 0" using assms(3) by simp
  have eq: "n - 1 = (c - 1) + c * r" using q r assms(3) by simp
  have "(n - 1) div c = r + (c - 1) div c" unfolding eq by (rule div_mult_self2 [OF c])
  then have "(n - 1) div c = r" using assms(3) by simp
  with q r assms(3) show "Suc ((n - 1) div c) = n div c" "(n - 1) div c * c + c = n" by (simp_all add: mult.commute)
qed

context byte_stream
begin

text \<open>Looking up the next cluster changes nothing that the volume holds.\<close>

lemma cluster_iter_next_ok:
  assumes "fs_ok ok img cap fs" "valid_cluster fs c"
  obtains fs' where "cluster_iter_next st c fs = Some (Inr (case fs_table img fs c of Data n \<Rightarrow> Some n | _ \<Rightarrow> None), fs')"
    "fs_ok ok img cap fs'" "fs_frame fs fs'" "fs_same_data img fs fs'" "fs_fs_info fs' = fs_fs_info fs" "fs_table img fs' = fs_table img fs"
proof -
  note l = fs_layoutD [OF assms(1)]
  let ?it = "ClusterIterator_new (fs_fat_type fs) c"
  let ?m = "ClusterIterator_next (slice_stream (FsIoAdapter st)) ?it"
  have "c < fs_total_clusters fs + 2" using assms(2) by (simp add: valid_cluster_def fs_end_def)
  then have it: "fat_in (ci_fat_type ?it) (unat (ds_size (fs_fat fs))) c" "ci_cluster ?it = Some c" "\<not> ci_err ?it"
    using l(2) by (simp_all add: ClusterIterator_new_def fat_table_def)
  have tab: "fs_table img fs = fat_get (fs_fat_type fs) (fs_slice_byte img fs (fs_fat fs, fs))" "ci_fat_type ?it = fs_fat_type fs"
    by (simp_all add: fs_table_def fs_fat_bytes_def ClusterIterator_new_def)
  let ?n = "case fs_table img fs c of Data n \<Rightarrow> Some n | _ \<Rightarrow> None"
  from adapter.slice.ClusterIterator_next_in [OF l(4) it] obtain t where
    t: "?m (fs_fat fs, fs) = Some (Inr (?it\<lparr>ci_cluster := ?n\<rparr>, map_option Inr ?n), t)" "fs_slice_ok ok img cap fs t"
      "fs_slice_byte img fs t = fs_slice_byte img fs (fs_fat fs, fs)" "fs_slice_rest img fs t = fs_slice_rest img fs (fs_fat fs, fs)"
    unfolding Let_def tab by metis
  have "fat_get (fs_fat_type fs) (fs_slice_byte img fs t) d = fs_table img fs d" for d using t(3) by (simp add: tab)
  from with_fat_table [where m = ?m, OF assms(1) t(1,2,4) this] obtain fs' where
    fs': "with_fat ?m fs = Some (Inr (?it\<lparr>ci_cluster := ?n\<rparr>, map_option Inr ?n), fs')" "fs_ok ok img cap fs'" "fs_frame fs fs'" "fs_same_data img fs fs'"
      "fs_fs_info fs' = fs_fs_info fs" "fs_table img fs' = fs_table img fs" .
  have "cluster_iter_next st c fs = Some (Inr ?n, fs')"
    using fs'(1) by (cases "fs_table img fs c") (simp_all add: cluster_iter_next_def)
  with fs' that show ?thesis by blast
qed

end

text \<open>Steps that leave the table and the data area as they are.\<close>

definition fs_quiet :: "('s \<Rightarrow> nat \<Rightarrow> u8) \<Rightarrow> 's FileSystem \<Rightarrow> 's FileSystem \<Rightarrow> bool" where
  "fs_quiet img fs fs' \<longleftrightarrow> fs_frame fs fs' \<and> fs_same_data img fs fs' \<and> fs_table img fs' = fs_table img fs"

lemma fs_quiet_refl [simp]: "fs_quiet img fs fs"
  by (simp add: fs_quiet_def fs_same_data_def)

lemma fs_quiet_trans: "fs_quiet img a b \<Longrightarrow> fs_quiet img b c \<Longrightarrow> fs_quiet img a c"
  by (auto simp: fs_quiet_def fs_same_data_def fs_frame_simps intro: fs_frame_trans)

lemma fs_quiet_img: "fs_layout cap fs \<Longrightarrow> fs_quiet img fs fs' \<Longrightarrow> fs_data_start fs \<le> a \<Longrightarrow> img (fs_disk fs') a = img (fs_disk fs) a"
  using fs_data_behind [of cap fs a] by (simp add: fs_quiet_def fs_same_data_def)

lemma file_len_frame: "fs_frame fs fs' \<Longrightarrow> file_len fs' self cs = file_len fs self cs"
  by (simp add: file_len_def fs_frame_simps split: option.splits)

lemma file_ok_cong:
  assumes "fs_frame fs fs'" "fs_table img fs' = fs_table img fs"
  shows "file_ok img fs' self cs = file_ok img fs self cs"
  using assms(2) by (simp add: file_ok_def file_len_frame [OF assms(1)] fs_frame_simps [OF assms(1)])

lemma fs_quiet_file_ok: "fs_quiet img fs fs' \<Longrightarrow> file_ok img fs' self cs = file_ok img fs self cs"
  by (rule file_ok_cong) (simp_all add: fs_quiet_def)

lemma fs_quiet_file_byte:
  assumes "fs_layout cap fs" "fs_quiet img fs fs'" "\<forall>c\<in>set cs. valid_cluster fs c" "i < length cs * fs_cs fs"
  shows "file_byte img fs' cs i = file_byte img fs cs i"
proof -
  have f: "fs_frame fs fs'" using assms(2) by (simp add: fs_quiet_def)
  have "i div fs_cs fs < length cs" using assms(4) by (simp add: less_mult_imp_div_less)
  then have "valid_cluster fs (cs ! (i div fs_cs fs))" using assms(3) by simp
  from cluster_addr_bounds(2) [OF assms(1) this]
  have "fs_data_start fs \<le> cluster_addr fs (cs ! (i div fs_cs fs)) + i mod fs_cs fs" by simp
  from fs_quiet_img [OF assms(1,2) this] show ?thesis by (simp add: file_byte_def fs_frame_simps [OF f])
qed

text \<open>Different positions of a chain are different addresses.\<close>

definition file_addr :: "'s FileSystem \<Rightarrow> u32 list \<Rightarrow> nat \<Rightarrow> nat" where
  "file_addr fs cs i = cluster_addr fs (cs ! (i div fs_cs fs)) + i mod fs_cs fs"

lemma file_byte_addr: "file_byte img fs cs i = img (fs_disk fs) (file_addr fs cs i)"
  by (simp add: file_byte_def file_addr_def)

lemma file_addr_cluster:
  assumes "fs_layout cap fs" "\<forall>c\<in>set cs. valid_cluster fs c" "i < length cs * fs_cs fs" "0 < fs_cs fs" "valid_cluster fs d"
  shows "cluster_addr fs d \<le> file_addr fs cs i \<and> file_addr fs cs i < cluster_addr fs d + fs_cs fs \<longleftrightarrow> d = cs ! (i div fs_cs fs)"
    "fs_data_start fs \<le> file_addr fs cs i"
proof -
  have "i div fs_cs fs < length cs" using assms(3) by (simp add: less_mult_imp_div_less)
  then have v: "valid_cluster fs (cs ! (i div fs_cs fs))" using assms(2) by simp
  have m: "i mod fs_cs fs < fs_cs fs" using assms(4) by simp
  show "fs_data_start fs \<le> file_addr fs cs i" using cluster_addr_bounds(2) [OF assms(1) v] by (simp add: file_addr_def)
  show "cluster_addr fs d \<le> file_addr fs cs i \<and> file_addr fs cs i < cluster_addr fs d + fs_cs fs \<longleftrightarrow> d = cs ! (i div fs_cs fs)"
  proof (cases "d = cs ! (i div fs_cs fs)")
    case False
    from cluster_addr_disjoint [OF assms(1) v assms(5) False [symmetric]] m show ?thesis using False unfolding file_addr_def by linarith
  qed (simp add: file_addr_def m)
qed

lemma file_addr_row:
  assumes "fs_layout cap fs" "\<forall>c\<in>set cs. valid_cluster fs c" "distinct cs" "i < length cs * fs_cs fs" "n < length cs * fs_cs fs" "0 < fs_cs fs"
    and "k \<le> fs_cs fs - n mod fs_cs fs"
  shows "file_addr fs cs n \<le> file_addr fs cs i \<and> file_addr fs cs i < file_addr fs cs n + k \<longleftrightarrow> n \<le> i \<and> i < n + k"
    "n \<le> i \<Longrightarrow> i < n + k \<Longrightarrow> file_addr fs cs i = file_addr fs cs n + (i - n)"
proof -
  let ?c = "fs_cs fs"
  have idx: "i div ?c < length cs" "n div ?c < length cs" using assms(4,5) by (simp_all add: less_mult_imp_div_less)
  have row: "file_addr fs cs i = file_addr fs cs n + (i - n)" if "n \<le> i" "i < n + k"
  proof -
    have "n mod ?c + (i - n) < ?c" using that assms(7) by simp
    moreover have "i = n + (i - n)" using that by simp
    ultimately have "i mod ?c = n mod ?c + (i - n)" "i div ?c = n div ?c"
      using mod_add_left_eq [of n ?c "i - n"] last_cluster_index [of "Suc (i - n)" ?c n] assms(6) by simp_all
    then show ?thesis by (simp add: file_addr_def)
  qed
  then show "n \<le> i \<Longrightarrow> i < n + k \<Longrightarrow> file_addr fs cs i = file_addr fs cs n + (i - n)" .
  have "n \<le> i \<and> i < n + k" if a: "file_addr fs cs n \<le> file_addr fs cs i" "file_addr fs cs i < file_addr fs cs n + k"
  proof -
    let ?d = "cs ! (n div ?c)"
    have v: "valid_cluster fs ?d" using assms(2) idx(2) by simp
    have "n mod ?c < ?c" using assms(6) by simp
    then have "n mod ?c + k \<le> ?c" using assms(7) by linarith
    then have "cluster_addr fs ?d \<le> file_addr fs cs n" "file_addr fs cs n + k \<le> cluster_addr fs ?d + ?c"
      by (simp_all add: file_addr_def)
    with a have "cluster_addr fs ?d \<le> file_addr fs cs i \<and> file_addr fs cs i < cluster_addr fs ?d + ?c" by linarith
    then have "?d = cs ! (i div ?c)" using file_addr_cluster(1) [OF assms(1,2,4,6) v] by simp
    then have "i div ?c = n div ?c" using assms(3) idx nth_eq_iff_index_eq by metis
    moreover from this a have "n mod ?c \<le> i mod ?c" "i mod ?c < n mod ?c + k" by (simp_all add: file_addr_def)
    ultimately show ?thesis using div_mult_mod_eq [of i ?c] div_mult_mod_eq [of n ?c] by (metis add.assoc add_le_cancel_left nat_add_left_cancel_less)
  qed
  with row show "file_addr fs cs n \<le> file_addr fs cs i \<and> file_addr fs cs i < file_addr fs cs n + k \<longleftrightarrow> n \<le> i \<and> i < n + k" by auto
qed

text \<open>What the editor of the entry keeps.\<close>

lemma editor_simps [simp]:
  "DirFileEntryData_size (de_data (DirEntryEditor_set_accessed d e)) = DirFileEntryData_size (de_data e)"
  "DirFileEntryData_size (de_data (DirEntryEditor_set_modified t e)) = DirFileEntryData_size (de_data e)"
  "DirFileEntryData_size (de_data (DirEntryEditor_set_first_cluster c ft e)) = DirFileEntryData_size (de_data e)"
  "DirFileEntryData_is_dir (de_data (DirEntryEditor_set_accessed d e)) = DirFileEntryData_is_dir (de_data e)"
  "DirFileEntryData_is_dir (de_data (DirEntryEditor_set_modified t e)) = DirFileEntryData_is_dir (de_data e)"
  "DirFileEntryData_is_dir (de_data (DirEntryEditor_set_first_cluster c ft e)) = DirFileEntryData_is_dir (de_data e)"
  "DirFileEntryData_is_dir (de_data (DirEntryEditor_set_size s e)) = DirFileEntryData_is_dir (de_data e)"
  "DirFileEntryData_first_cluster (de_data (DirEntryEditor_set_accessed d e)) ft = DirFileEntryData_first_cluster (de_data e) ft"
  "DirFileEntryData_first_cluster (de_data (DirEntryEditor_set_modified t e)) ft = DirFileEntryData_first_cluster (de_data e) ft"
  "DirFileEntryData_first_cluster (de_data (DirEntryEditor_set_size s e)) ft = DirFileEntryData_first_cluster (de_data e) ft"
  by (simp_all add: DirEntryEditor_set_accessed_def DirEntryEditor_set_modified_def DirEntryEditor_set_first_cluster_def DirEntryEditor_set_size_def
      DirFileEntryData_set_accessed_def DirFileEntryData_set_modified_def DirFileEntryData_set_first_cluster_def DirFileEntryData_set_size_def
      DirFileEntryData_size_def DirFileEntryData_is_file_def DirFileEntryData_is_dir_def DirFileEntryData_first_cluster_def Let_def)

lemma editor_set_size:
  "DirFileEntryData_size (de_data (DirEntryEditor_set_size s e)) = map_option (\<lambda>_. s) (DirFileEntryData_size (de_data e))"
  by (simp add: DirEntryEditor_set_size_def DirFileEntryData_set_size_def DirFileEntryData_size_def DirFileEntryData_is_file_def DirFileEntryData_is_dir_def)

lemma file_entry_simps [simp]:
  "File_size (File_set_accessed d self) = File_size self" "File_is_dir (File_set_accessed d self) = File_is_dir self"
  "f_first_cluster (File_set_accessed d self) = f_first_cluster self" "f_offset (File_set_accessed d self) = f_offset self"
  "f_current_cluster (File_set_accessed d self) = f_current_cluster self"
  "pred_option (\<lambda>e. DirFileEntryData_first_cluster (de_data e) ft = c) (f_entry (File_set_accessed d self))
    = pred_option (\<lambda>e. DirFileEntryData_first_cluster (de_data e) ft = c) (f_entry self)"
  "File_size (self\<lparr>f_offset := p\<rparr>) = File_size self" "File_size (self\<lparr>f_current_cluster := q\<rparr>) = File_size self"
  "File_is_dir (self\<lparr>f_offset := p\<rparr>) = File_is_dir self" "File_is_dir (self\<lparr>f_current_cluster := q\<rparr>) = File_is_dir self"
  by (cases "f_entry self"; simp add: File_set_accessed_def File_size_def File_is_dir_def)+

lemma file_ok_entry: "file_ok img fs self cs \<Longrightarrow>
    pred_option (\<lambda>e. DirFileEntryData_first_cluster (de_data e) (fs_fat_type fs) = f_first_cluster self) (f_entry self)"
  unfolding file_ok_def by blast

text \<open>Moving the position forward inside one cluster.\<close>

lemma file_ok_advance:
  assumes "file_ok img fs self cs" "0 < fs_cs fs" "0 < k" "k \<le> fs_cs fs - unat (f_offset self) mod fs_cs fs"
    and "unat (f_offset self) + k \<le> file_len fs self' cs" "file_len fs self' cs \<le> length cs * fs_cs fs" "file_len fs self' cs < 2 ^ 32"
    and "f_first_cluster self' = f_first_cluster self" "f_offset self' = f_offset self + word_of_nat k"
    and "f_current_cluster self' = Some (cs ! (unat (f_offset self) div fs_cs fs))"
    and "pred_option (\<lambda>e. DirFileEntryData_first_cluster (de_data e) (fs_fat_type fs) = f_first_cluster self) (f_entry self')"
  shows "file_ok img fs self' cs" "unat (f_offset self') = unat (f_offset self) + k"
proof -
  have "unat (f_offset self) + k < 2 ^ 32" using assms(5,7) by simp
  then show o: "unat (f_offset self') = unat (f_offset self) + k"
    by (simp add: assms(9) unat_word_ariths unsigned_of_nat take_bit_nat_eq_self)
  then have "f_offset self' \<noteq> 0" using assms(3) by auto
  moreover have "(unat (f_offset self') - 1) div fs_cs fs = unat (f_offset self) div fs_cs fs"
    unfolding o by (rule last_cluster_index [OF assms(3,4,2)])
  ultimately show "file_ok img fs self' cs" using assms o by (simp add: file_ok_def)
qed

context byte_stream
begin

lemma cluster_at_position:
  assumes "fs_ok ok img cap fs" "file_ok img fs self cs" "unat (f_offset self) mod fs_cs fs = 0"
  obtains fs' where "(case f_current_cluster self of None \<Rightarrow> io_return (f_first_cluster self) | Some n \<Rightarrow> io_inner (cluster_iter_next st n)) (self, fs)
      = Some (Inr (if unat (f_offset self) div fs_cs fs < length cs then Some (cs ! (unat (f_offset self) div fs_cs fs)) else None), (self, fs'))"
    "fs_ok ok img cap fs'" "fs_quiet img fs fs'" "fs_fs_info fs' = fs_fs_info fs"
proof (cases "f_offset self = 0")
  case True
  then show ?thesis using assms by (intro that [of fs]) (auto simp: file_ok_def split: list.splits)
next
  case False
  let ?o = "unat (f_offset self)" and ?c = "fs_cs fs"
  have c: "0 < ?c" using cluster_size_unat(2) [OF fs_layoutD(1) [OF assms(1)]] .
  have o: "0 < ?o" using False by (simp add: unat_gt_0)
  note b = boundary_index [OF o assms(3) c]
  have "?o \<le> length cs * ?c" using assms(2) by (simp add: file_ok_def)
  then have i: "(?o - 1) div ?c < length cs" using o by (intro less_mult_imp_div_less) simp
  then have cs: "cs \<noteq> []" by auto
  let ?n = "cs ! ((?o - 1) div ?c)"
  have cur: "f_current_cluster self = Some ?n" and chain: "fat_chain (fs_table img fs) cs" and v: "valid_cluster fs ?n"
    using assms(2) False cs i by (simp_all add: file_ok_def)
  have next_c: "(case fs_table img fs ?n of Data n \<Rightarrow> Some n | _ \<Rightarrow> None) = (if ?o div ?c < length cs then Some (cs ! (?o div ?c)) else None)"
    using fat_chain_next [OF chain i] b(1) by simp
  from cluster_iter_next_ok [OF assms(1) v] obtain fs' where
    "cluster_iter_next st ?n fs = Some (Inr (case fs_table img fs ?n of Data n \<Rightarrow> Some n | _ \<Rightarrow> None), fs')"
    "fs_ok ok img cap fs'" "fs_frame fs fs'" "fs_same_data img fs fs'" "fs_fs_info fs' = fs_fs_info fs" "fs_table img fs' = fs_table img fs" .
  then show ?thesis using cur next_c by (intro that [of fs']) (simp_all add: io_inner_def fs_quiet_def)
qed

lemma io_inner_step [simp]: "m s = Some (r, s') \<Longrightarrow> io_inner m (x, s) = Some (r, (x, s'))"
  by (simp add: io_inner_def)

lemma io_self_step [simp]: "io_self f (x, s) = Some (Inr (), (f x, s))"
  by (simp add: io_self_def)

lemma file_address:
  assumes "fs_ok ok img cap fs" "valid_cluster fs c" "unat p = n mod fs_cs fs"
  shows "unat (offset_from_cluster fs c + ucast (p :: u32)) = cluster_addr fs c + n mod fs_cs fs"
    "cluster_addr fs c + n mod fs_cs fs + (fs_cs fs - n mod fs_cs fs) \<le> cap"
proof -
  note l = fs_layoutD(1) [OF assms(1)]
  have c: "n mod fs_cs fs < fs_cs fs" using cluster_size_unat(2) [OF l] by simp
  show "cluster_addr fs c + n mod fs_cs fs + (fs_cs fs - n mod fs_cs fs) \<le> cap" using cluster_addr_bounds(1) [OF l assms(2)] c by simp
  have "unat (sector_from_cluster fs c) * unat (bpb_bytes_per_sector (fs_bpb fs)) < 2 ^ 32 * 2 ^ 16"
    using unsigned_less [of "sector_from_cluster fs c", where 'a = nat] unsigned_less [of "bpb_bytes_per_sector (fs_bpb fs)", where 'a = nat]
    by (intro mult_strict_mono') simp_all
  then have "cluster_addr fs c < 2 ^ 32 * 2 ^ 16"
    using offset_from_cluster_addr [OF l assms(2)] by (simp add: offset_from_cluster_def offset_from_sector_def unat_bytes_from_sectors)
  then show "unat (offset_from_cluster fs c + ucast p) = cluster_addr fs c + n mod fs_cs fs"
    using c cluster_size_unat(3) [OF l] by (simp add: unat_word_ariths unat_ucast_up offset_from_cluster_addr [OF l assms(2)] assms(3))
qed

lemma offset_in_cluster:
  assumes "fs_ok ok img cap fs"
  shows "mod_panic x (FileSystem_cluster_size fs) = Some (x mod FileSystem_cluster_size fs)"
    "unat (x mod FileSystem_cluster_size fs) = unat x mod fs_cs fs"
    "unat (FileSystem_cluster_size fs - x mod FileSystem_cluster_size fs) = fs_cs fs - unat x mod fs_cs fs"
    "x mod FileSystem_cluster_size fs = 0 \<longleftrightarrow> unat x mod fs_cs fs = 0"
proof -
  note c = cluster_size_unat [OF fs_layoutD(1) [OF assms]]
  have "FileSystem_cluster_size fs \<noteq> 0" using c by auto
  then show "mod_panic x (FileSystem_cluster_size fs) = Some (x mod FileSystem_cluster_size fs)" by (simp add: mod_panic_def)
  show m: "unat (x mod FileSystem_cluster_size fs) = unat x mod fs_cs fs" using c(1) by (simp add: unat_mod)
  have "x mod FileSystem_cluster_size fs \<le> FileSystem_cluster_size fs"
    using m c by (simp add: word_le_nat_alt)
  then show "unat (FileSystem_cluster_size fs - x mod FileSystem_cluster_size fs) = fs_cs fs - unat x mod fs_cs fs"
    using m c(1) by (simp add: unat_sub)
  show "x mod FileSystem_cluster_size fs = 0 \<longleftrightarrow> unat x mod fs_cs fs = 0" using m by (metis unsigned_eq_0_iff)
qed

text \<open>The cluster that the next access uses, if there is one.\<close>

lemma current_cluster_opt:
  assumes "fs_ok ok img cap fs" "file_ok img fs self cs"
  obtains fs' where "(if f_offset self mod FileSystem_cluster_size fs = 0
        then (case f_current_cluster self of None \<Rightarrow> io_return (f_first_cluster self) | Some n \<Rightarrow> io_inner (cluster_iter_next st n))
        else io_return (f_current_cluster self)) (self, fs)
      = Some (Inr (if unat (f_offset self) div fs_cs fs < length cs then Some (cs ! (unat (f_offset self) div fs_cs fs)) else None), (self, fs'))"
    "fs_ok ok img cap fs'" "fs_quiet img fs fs'" "fs_fs_info fs' = fs_fs_info fs"
proof (cases "unat (f_offset self) mod fs_cs fs = 0")
  case True
  from cluster_at_position [OF assms True] obtain fs' where
    "(case f_current_cluster self of None \<Rightarrow> io_return (f_first_cluster self) | Some n \<Rightarrow> io_inner (cluster_iter_next st n)) (self, fs)
      = Some (Inr (if unat (f_offset self) div fs_cs fs < length cs then Some (cs ! (unat (f_offset self) div fs_cs fs)) else None), (self, fs'))"
    "fs_ok ok img cap fs'" "fs_quiet img fs fs'" "fs_fs_info fs' = fs_fs_info fs" .
  then show ?thesis using True offset_in_cluster(4) [OF assms(1)] by (intro that [of fs']) simp_all
next
  case False
  let ?o = "unat (f_offset self)" and ?c = "fs_cs fs"
  have c: "0 < ?c" using cluster_size_unat(2) [OF fs_layoutD(1) [OF assms(1)]] .
  have o: "0 < ?o" using False by (cases ?o) simp_all
  have "?o \<le> length cs * ?c" using assms(2) by (simp add: file_ok_def)
  moreover have "?o \<noteq> length cs * ?c" using False by auto
  ultimately have "?o div ?c < length cs" by (intro less_mult_imp_div_less) simp
  moreover have "(?o - 1) div ?c = ?o div ?c"
    using o False by (cases ?o) (simp_all add: div_Suc)
  ultimately show ?thesis using False assms offset_in_cluster(4) [OF assms(1)] o
    by (intro that [of fs]) (auto simp: file_ok_def)
qed

lemma file_bytes_left:
  assumes "file_ok img fs self cs"
  shows "min (min n m) (unwrap_or (bytes_left_in_file self) m)
    = (case File_size self of Some s \<Rightarrow> min n (min m (file_len fs self cs - unat (f_offset self))) | None \<Rightarrow> min n m)"
proof (cases "File_size self")
  case (Some sz)
  then have "f_offset self \<le> sz" using assms by (simp add: file_ok_def file_len_def word_le_nat_alt)
  with Some show ?thesis by (simp add: bytes_left_in_file_def unwrap_or_def file_len_def unat_sub min.assoc)
qed (simp add: bytes_left_in_file_def unwrap_or_def)

lemma cluster_rest:
  fixes n c m :: nat
  assumes "n div c < m"
  shows "c - n mod c \<le> m * c - n"
proof -
  have "Suc (n div c) * c \<le> m * c" using assms by (intro mult_le_mono1) simp
  then have "c + n div c * c \<le> m * c" by simp
  then show ?thesis using div_mult_mod_eq [of n c] by linarith
qed

text \<open>How much one call reads.\<close>

lemma read_size:
  assumes "fs_ok ok img cap fs" "file_ok img fs self cs" "unat (f_offset self) div fs_cs fs < length cs"
  shows "(let left = unat (FileSystem_cluster_size fs - f_offset self mod FileSystem_cluster_size fs) in
      min (min n left) (unwrap_or (bytes_left_in_file self) left))
    = min n (min (fs_cs fs - unat (f_offset self) mod fs_cs fs) (file_len fs self cs - unat (f_offset self)))"
proof (cases "File_size self")
  case None
  then have "file_len fs self cs = length cs * fs_cs fs" by (simp add: file_len_def)
  with None show ?thesis
    using cluster_rest [OF assms(3)] by (simp add: Let_def file_bytes_left [OF assms(2)] offset_in_cluster(3) [OF assms(1)] min_absorb1)
qed (simp add: Let_def file_bytes_left [OF assms(2)] offset_in_cluster(3) [OF assms(1)])

text \<open>The bytes of the file from its position to the end of the cluster are in a row on the storage.\<close>

lemma file_bytes_row:
  assumes "0 < fs_cs fs" "k \<le> fs_cs fs - n mod fs_cs fs"
    and "\<And>i. i < k \<Longrightarrow> f (cluster_addr fs (cs ! (n div fs_cs fs)) + n mod fs_cs fs + i)
      = img (fs_disk fs) (cluster_addr fs (cs ! (n div fs_cs fs)) + n mod fs_cs fs + i)"
  shows "bytes_at f (cluster_addr fs (cs ! (n div fs_cs fs)) + n mod fs_cs fs) k = bytes_at (file_byte img fs cs) n k"
proof (rule nth_equalityI; simp)
  fix i assume i: "i < k"
  then have "n mod fs_cs fs + i < fs_cs fs" using assms(2) by simp
  then have "(n + i) mod fs_cs fs = n mod fs_cs fs + i" "(n + i) div fs_cs fs = n div fs_cs fs"
    using mod_add_left_eq [of n "fs_cs fs" i] last_cluster_index [of "Suc i" "fs_cs fs" n] assms(1) by simp_all
  then show "f (cluster_addr fs (cs ! (n div fs_cs fs)) + n mod fs_cs fs + i) = file_byte img fs cs (n + i)"
    using assms(3) [OF i] by (simp add: file_byte_def add.assoc)
qed

lemma seek_in_cluster:
  assumes "fs_ok ok img cap fs" "fs_ok ok img cap fs1" "valid_cluster fs c" "k \<le> fs_cs fs - unat n mod fs_cs fs"
  obtains d where "st_seek st (Start (offset_from_cluster fs c + ucast (n mod FileSystem_cluster_size fs))) (fs_disk fs1)
      = Some (Inr (offset_from_cluster fs c + ucast (n mod FileSystem_cluster_size fs)), d)" "ok d"
    "pos d = cluster_addr fs c + unat n mod fs_cs fs" "img d = img (fs_disk fs1)" "k < 2 ^ 32" "pos d + k \<le> cap"
proof -
  let ?p = "offset_from_cluster fs c + ucast (n mod FileSystem_cluster_size fs)"
  note adr = file_address [OF assms(1,3) offset_in_cluster(2) [OF assms(1), of n]]
  from seek_law [OF fs_layoutD(5) [OF assms(2)], of ?p] adr(1) obtain d where
    d: "st_seek st (Start ?p) (fs_disk fs1) = Some (Inr ?p, d)" "ok d" "pos d = cluster_addr fs c + unat n mod fs_cs fs" "img d = img (fs_disk fs1)"
    by auto
  moreover have "k < 2 ^ 32" using assms(4) cluster_size_unat(3) [OF fs_layoutD(1) [OF assms(1)]] by simp
  moreover have "pos d + k \<le> cap" using assms(4) adr(2) d(3) by linarith
  ultimately show ?thesis using that by blast
qed

lemma File_read_ok:
  assumes "fs_ok ok img cap fs" "file_ok img fs self cs"
    and k: "k = min n (min (fs_cs fs - unat (f_offset self) mod fs_cs fs) (file_len fs self cs - unat (f_offset self)))"
  obtains self' fs' where "File_read st n (self, fs) = Some (Inr (bytes_at (file_byte img fs cs) (unat (f_offset self)) k), (self', fs'))"
    "fs_ok ok img cap fs'" "fs_quiet img fs fs'" "fs_fs_info fs' = fs_fs_info fs" "file_ok img fs' self' cs"
    "unat (f_offset self') = unat (f_offset self) + k" "File_size self' = File_size self" "f_first_cluster self' = f_first_cluster self"
    "File_is_dir self' = File_is_dir self"
proof -
  let ?o = "unat (f_offset self)" and ?c = "fs_cs fs" and ?q = "f_offset self mod FileSystem_cluster_size fs"
  note l = fs_layoutD [OF assms(1)] and oc = offset_in_cluster [OF assms(1)]
  have c: "0 < ?c" using cluster_size_unat [OF l(1)] by simp
  from current_cluster_opt [OF assms(1,2)] obtain fs1 where
    fs1: "(if ?q = 0 then (case f_current_cluster self of None \<Rightarrow> io_return (f_first_cluster self) | Some n \<Rightarrow> io_inner (cluster_iter_next st n))
        else io_return (f_current_cluster self)) (self, fs)
      = Some (Inr (if ?o div ?c < length cs then Some (cs ! (?o div ?c)) else None), (self, fs1))"
    "fs_ok ok img cap fs1" "fs_quiet img fs fs1" "fs_fs_info fs1 = fs_fs_info fs" .
  have len: "file_len fs self cs \<le> length cs * ?c" "?o \<le> file_len fs self cs" "\<forall>c\<in>set cs. valid_cluster fs c" "file_len fs self cs < 2 ^ 32"
    using assms(2) by (simp_all add: file_ok_def)
  show thesis
  proof (cases "k = 0")
    case True
    have "k = 0" if "\<not> ?o div ?c < length cs"
      using that len k less_mult_imp_div_less [of ?o "length cs" ?c] by (cases "?o < length cs * ?c") simp_all
    then have "File_read st n (self, fs) = Some (Inr [], (self, fs1))"
      using fs1(1) True read_size [OF assms(1,2), of n] k by (auto simp: File_read_def Let_def io_lift_def oc(1))
    then show ?thesis using True fs1 assms(2) fs_quiet_file_ok [OF fs1(3)] by (intro that [of self fs1]) simp_all
  next
    case False
    let ?cl = "cs ! (?o div ?c)"
    have kk: "0 < k" "k \<le> ?c - ?o mod ?c" "?o + k \<le> file_len fs self cs" using False k len(2) by auto
    have in_chain: "?o div ?c < length cs" using kk(1,3) len(1) by (intro less_mult_imp_div_less) simp
    then have v: "valid_cluster fs ?cl" using len(3) by simp
    from seek_in_cluster [OF assms(1) fs1(2) v kk(2)] obtain d1 where
      d1: "st_seek st (Start (offset_from_cluster fs ?cl + ucast ?q)) (fs_disk fs1) = Some (Inr (offset_from_cluster fs ?cl + ucast ?q), d1)" "ok d1"
        "pos d1 = cluster_addr fs ?cl + ?o mod ?c" "img d1 = img (fs_disk fs1)" "k < 2 ^ 32" "pos d1 + k \<le> cap" .
    from read_law [OF d1(2,5,6)] obtain d2 where
      d2: "st_read st k d1 = Some (Inr (bytes_at (img d1) (pos d1) k), d2)" "ok d2" "img d2 = img d1" by blast
    have "img d1 (cluster_addr fs ?cl + ?o mod ?c + i) = img (fs_disk fs) (cluster_addr fs ?cl + ?o mod ?c + i)" for i
      using fs_quiet_img [OF l(1) fs1(3)] cluster_addr_bounds(2) [OF l(1) v] d1(4) by simp
    from file_bytes_row [OF c kk(2) this] have bs: "bytes_at (img d1) (pos d1) k = bytes_at (file_byte img fs cs) ?o k" unfolding d1(3) .
    let ?s1 = "self\<lparr>f_offset := f_offset self + word_of_nat k, f_current_cluster := Some ?cl\<rparr>"
    let ?s2 = "if fso_update_accessed_date (fs_options fs) then File_set_accessed get_current_date ?s1 else ?s1"
    let ?fs2 = "fs1\<lparr>fs_disk := d2\<rparr>"
    have fs2: "fs_ok ok img cap ?fs2" "fs_table img ?fs2 = fs_table img fs1"
      using fs_data_write [OF fs1(2) d2(2)] d1(4) d2(3) by simp_all
    then have "fs_quiet img fs1 ?fs2" using d1(4) d2(3) by (simp add: fs_quiet_def fs_same_data_def fs_frame_def)
    then have q2: "fs_quiet img fs ?fs2" by (rule fs_quiet_trans [OF fs1(3)])
    have "bytes_at (file_byte img fs cs) ?o k \<noteq> []" using False by (metis length_bytes_at list.size(3))
    moreover have "min (min n (unat (FileSystem_cluster_size fs - ?q))) (unwrap_or (bytes_left_in_file self) (unat (FileSystem_cluster_size fs - ?q))) = k"
      using read_size [OF assms(1,2) in_chain, of n] by (simp add: Let_def k)
    ultimately have run: "File_read st n (self, fs) = Some (Inr (bytes_at (file_byte img fs cs) ?o k), (?s2, ?fs2))"
      using fs1(1) in_chain False d1(1) d2(1) unfolding bs by (simp add: File_read_def Let_def io_lift_def oc(1))
    have ent: "File_size ?s2 = File_size self" "File_is_dir ?s2 = File_is_dir self" "f_first_cluster ?s2 = f_first_cluster self"
      "f_offset ?s2 = f_offset self + word_of_nat k" "f_current_cluster ?s2 = Some ?cl"
      "pred_option (\<lambda>e. DirFileEntryData_first_cluster (de_data e) (fs_fat_type fs) = f_first_cluster self) (f_entry ?s2)"
      using file_ok_entry [OF assms(2)] by simp_all
    have "file_len fs ?s2 cs = file_len fs self cs" using ent(1) by (simp add: file_len_def)
    then have "file_ok img fs ?s2 cs" "unat (f_offset ?s2) = ?o + k"
      using file_ok_advance [OF assms(2) c kk(1,2) _ _ _ ent(3,4,5,6)] kk(3) len by simp_all
    with run ent show ?thesis using fs2(1) q2 fs1(4) fs_quiet_file_ok [OF q2] by (intro that [of ?s2 ?fs2]) simp_all
  qed
qed

lemma valid_cluster_storable:
  assumes "fs_ok ok img cap fs" "valid_cluster fs c"
  shows "c \<noteq> 0" "fs_fat_type fs = Fat32 \<or> c < 0x10000"
proof -
  show "c \<noteq> 0" using assms(2) by (auto simp: valid_cluster_def word_le_nat_alt)
  have "c < fat_limit (fs_fat_type fs)"
    using fs_layoutD(2) [OF assms(1)] assms(2) by (auto simp: valid_cluster_def fs_end_def fat_table_def)
  then show "fs_fat_type fs = Fat32 \<or> c < 0x10000"
    by (cases "fs_fat_type fs") (auto simp: fat_limit_def word_less_nat_alt)
qed

lemma editor_set_first_cluster:
  assumes "c \<noteq> 0" "ft = Fat32 \<or> c < 0x10000"
  shows "DirFileEntryData_first_cluster (de_data (DirEntryEditor_set_first_cluster (Some c) ft e)) ft = Some c"
  using first_cluster_set [of "Some c" ft "de_data e"] assms by (auto simp: DirEntryEditor_set_first_cluster_def)

text \<open>A new cluster at the end of the chain.\<close>

lemma file_ok_extend:
  assumes "fs_ok ok img cap fs" "file_ok img fs self cs" "fs_frame fs fs'" "valid_cluster fs c" "fs_table img fs c = Free"
    and "unat (f_offset self) = length cs * fs_cs fs"
    and "fs_table img fs' = (\<lambda>d. if f_current_cluster self = Some d then Data c else if d = c then EndOfChain else fs_table img fs d)"
    and "File_size self = None \<longrightarrow> Suc (length cs) * fs_cs fs < 2 ^ 32"
    and self': "self' = (if f_first_cluster self = None then File_set_first_cluster c (fs_fat_type fs) self else self)"
  shows "file_ok img fs' self' (cs @ [c])" "c \<notin> set cs" "f_offset self' = f_offset self" "File_size self' = File_size self"
    "File_is_dir self' = File_is_dir self" "f_current_cluster self' = f_current_cluster self"
    "\<And>d. d \<notin> set (cs @ [c]) \<Longrightarrow> fs_table img fs' d = fs_table img fs d"
proof -
  note st = valid_cluster_storable [OF assms(1,4)]
  have c0: "0 < fs_cs fs" using cluster_size_unat(2) [OF fs_layoutD(1) [OF assms(1)]] .
  have ok: "f_first_cluster self = (case cs of [] \<Rightarrow> None | c # _ \<Rightarrow> Some c)"
    "cs \<noteq> [] \<longrightarrow> fat_chain (fs_table img fs) cs \<and> fs_table img fs (last cs) \<noteq> Free" "\<forall>c\<in>set cs. valid_cluster fs c"
    "f_current_cluster self = (if f_offset self = 0 then None else Some (cs ! ((unat (f_offset self) - 1) div fs_cs fs)))"
    "file_len fs self cs < 2 ^ 32" "unat (f_offset self) \<le> file_len fs self cs" "file_len fs self cs \<le> length cs * fs_cs fs"
    using assms(2) unfolding file_ok_def by blast+
  show sel: "f_offset self' = f_offset self" "File_size self' = File_size self" "File_is_dir self' = File_is_dir self"
    "f_current_cluster self' = f_current_cluster self"
    by (cases "f_entry self"; simp add: self' File_set_first_cluster_def File_size_def File_is_dir_def)+
  have cur: "f_current_cluster self = (if cs = [] then None else Some (last cs))"
  proof (cases "cs = []")
    case True
    then show ?thesis using ok(4) assms(6) by (simp add: word_unat_eq_iff)
  next
    case False
    then have "(unat (f_offset self) - 1) div fs_cs fs = length cs - 1" "f_offset self \<noteq> 0"
      using boundary_index(1) [of "unat (f_offset self)" "fs_cs fs"] assms(6) c0 by (auto simp: unsigned_eq_0_iff [symmetric])
    then show ?thesis using ok(4) False by (simp add: last_conv_nth)
  qed
  have notin: "c \<notin> set cs"
  proof
    assume "c \<in> set cs"
    then obtain i where i: "i < length cs" "cs ! i = c" by (auto simp: in_set_conv_nth)
    then have ch: "fat_chain (fs_table img fs) cs" "fs_table img fs (last cs) \<noteq> Free" "cs \<noteq> []" using ok(2) by auto
    moreover have "Suc i < length cs \<or> i = length cs - 1" using i(1) by auto
    ultimately show False using fat_chain_next [OF ch(1) i(1)] assms(5) i by (auto simp: last_conv_nth)
  qed
  then show "c \<notin> set cs" .
  show "fs_table img fs' d = fs_table img fs d" if "d \<notin> set (cs @ [c])" for d
    using that cur assms(7) by auto
  have chain: "fat_chain (fs_table img fs') (cs @ [c])"
  proof (cases "cs = []")
    case True
    then show ?thesis using cur assms(7) by simp
  next
    case False
    then show ?thesis using ok(2) cur assms(7) notin by (intro fat_chain_snoc) auto
  qed
  have "fs_table img fs' c \<noteq> Free" using assms(7) by simp
  moreover have "f_first_cluster self' = (case cs @ [c] of [] \<Rightarrow> None | c # _ \<Rightarrow> Some c)"
    using ok(1) by (cases cs) (simp_all add: self' File_set_first_cluster_def)
  moreover have "pred_option (\<lambda>e. DirFileEntryData_first_cluster (de_data e) (fs_fat_type fs) = f_first_cluster self') (f_entry self')"
    using file_ok_entry [OF assms(2)] editor_set_first_cluster [OF st]
    by (cases "f_entry self") (auto simp: self' File_set_first_cluster_def)
  moreover have "file_len fs self' (cs @ [c]) \<le> length (cs @ [c]) * fs_cs fs" "file_len fs self' (cs @ [c]) < 2 ^ 32"
      "unat (f_offset self') \<le> file_len fs self' (cs @ [c])"
    using ok(5-7) assms(6,8) sel by (auto simp: file_len_def split: option.splits)
  moreover have "f_current_cluster self' = (if f_offset self' = 0 then None else Some ((cs @ [c]) ! ((unat (f_offset self') - 1) div fs_cs fs)))"
  proof (cases "f_offset self = 0")
    case False
    then have "0 < unat (f_offset self)" by (simp add: unat_gt_0)
    then have "unat (f_offset self) - 1 < length cs * fs_cs fs" using assms(6) by simp
    then have "(unat (f_offset self) - 1) div fs_cs fs < length cs" by (rule less_mult_imp_div_less)
    then show ?thesis using ok(4) sel False by (simp add: nth_append)
  qed (use ok(4) sel in simp)
  ultimately show "file_ok img fs' self' (cs @ [c])"
    using chain ok(3) assms(4) by (simp add: file_ok_def fs_frame_simps [OF assms(3)] file_len_frame [OF assms(3)])
qed

lemma File_write_cluster_ok:
  assumes "fs_ok ok img cap fs" "file_ok img fs self cs" "File_size self = None \<longrightarrow> Suc (length cs) * fs_cs fs < 2 ^ 32"
  obtains
    (found) cs' self' fs' where "File_write_cluster st (f_offset self mod FileSystem_cluster_size fs) (self, fs)
        = Some (Inr (cs' ! (unat (f_offset self) div fs_cs fs)), (self', fs'))"
      "fs_ok ok img cap fs'" "fs_frame fs fs'" "file_ok img fs' self' cs'" "unat (f_offset self) div fs_cs fs < length cs'"
      "cs' = (if unat (f_offset self) div fs_cs fs < length cs then cs else cs @ [last cs'])"
      "f_offset self' = f_offset self" "File_size self' = File_size self" "File_is_dir self' = File_is_dir self"
      "\<And>d. d \<notin> set cs' \<Longrightarrow> fs_table img fs' d = fs_table img fs d" "\<And>d. d \<in> set cs' - set cs \<Longrightarrow> fs_table img fs d = Free"
      "\<And>a. fs_data_start fs \<le> a \<Longrightarrow> img (fs_disk fs') a
        = (if File_is_dir self \<and> cs' \<noteq> cs \<and> cluster_addr fs (last cs') \<le> a \<and> a < cluster_addr fs (last cs') + fs_cs fs then 0 else img (fs_disk fs) a)"
  | (full) fs' where "File_write_cluster st (f_offset self mod FileSystem_cluster_size fs) (self, fs) = Some (Inl NotEnoughSpace, (self, fs'))"
      "fs_ok ok img cap fs'" "fs_quiet img fs fs'" "unat (f_offset self) = length cs * fs_cs fs"
      "\<And>d. valid_cluster fs d \<Longrightarrow> fs_table img fs d \<noteq> Free"
proof -
  let ?o = "unat (f_offset self)" and ?c = "fs_cs fs" and ?q = "f_offset self mod FileSystem_cluster_size fs"
  note l = fs_layoutD [OF assms(1)] and oc = offset_in_cluster [OF assms(1)]
  have c: "0 < ?c" using cluster_size_unat [OF l(1)] by simp
  from current_cluster_opt [OF assms(1,2)] obtain fs1 where
    fs1: "(if ?q = 0 then (case f_current_cluster self of None \<Rightarrow> io_return (f_first_cluster self) | Some n \<Rightarrow> io_inner (cluster_iter_next st n))
        else io_return (f_current_cluster self)) (self, fs)
      = Some (Inr (if ?o div ?c < length cs then Some (cs ! (?o div ?c)) else None), (self, fs1))"
    "fs_ok ok img cap fs1" "fs_quiet img fs fs1" "fs_fs_info fs1 = fs_fs_info fs" .
  have f1: "fs_frame fs fs1" using fs1(3) by (simp add: fs_quiet_def)
  have ok1: "file_ok img fs1 self cs" using assms(2) fs_quiet_file_ok [OF fs1(3)] by simp
  show thesis
  proof (cases "?o div ?c < length cs")
    case True
    then have "File_write_cluster st ?q (self, fs) = Some (Inr (cs ! (?o div ?c)), (self, fs1))"
      using fs1(1) by (cases "?q = 0") (auto simp: File_write_cluster_def)
    then show ?thesis using fs1 f1 ok1 True fs_quiet_img [OF l(1) fs1(3)] by (intro that(1) [of cs self fs1]) (auto simp: fs_quiet_def)
  next
    case False
    have "?o \<le> length cs * ?c" using assms(2) by (simp add: file_ok_def)
    moreover from False have "length cs * ?c \<le> ?o" using less_mult_imp_div_less [of ?o "length cs" ?c] by linarith
    ultimately have o: "?o = length cs * ?c" by simp
    then have q: "?q = 0" using oc(4) by simp
    let ?prev = "f_current_cluster self"
    have "pred_option (valid_cluster fs1) ?prev"
    proof (cases "f_offset self = 0")
      case False
      then have "0 < ?o" by (simp add: unat_gt_0)
      then have "?o - 1 < length cs * ?c" using o by simp
      then have "(?o - 1) div ?c < length cs" by (rule less_mult_imp_div_less)
      then show ?thesis using assms(2) False by (simp add: file_ok_def fs_frame_simps [OF f1])
    qed (use assms(2) in \<open>simp add: file_ok_def\<close>)
    from FileSystem_alloc_cluster_ok [OF fs1(2) this, of "File_is_dir self"] show ?thesis
    proof (cases, goal_cases)
      case (1 n fs2)
      let ?self = "if f_first_cluster self = None then File_set_first_cluster n (fs_fat_type fs) self else self"
      have f2: "fs_frame fs fs2" using f1 1(5) by (rule fs_frame_trans)
      have n: "valid_cluster fs n" "fs_table img fs n = Free" using 1(2,3) fs1(3) by (simp_all add: fs_frame_simps [OF f1] fs_quiet_def)
      have tab: "fs_table img fs2 = (\<lambda>d. if ?prev = Some d then Data n else if d = n then EndOfChain else fs_table img fs d)"
        using 1(8) unfolding fs1(3) [unfolded fs_quiet_def, THEN conjunct2, THEN conjunct2] .
      note ext = file_ok_extend [OF assms(1,2) f2 n o tab assms(3) refl]
      have run: "File_write_cluster st ?q (self, fs) = Some (Inr n, (?self, fs2))"
        using fs1(1) q False 1(1) by (simp add: File_write_cluster_def)
      have "img (fs_disk fs2) a = (if File_is_dir self \<and> cluster_addr fs n \<le> a \<and> a < cluster_addr fs n + ?c then 0 else img (fs_disk fs) a)"
        if "fs_data_start fs \<le> a" for a
        using 1(6) [unfolded fs_frame_simps [OF f1], OF fs_data_behind [OF l(1) that]] fs_quiet_img [OF l(1) fs1(3) that] by simp
      moreover have "fs_table img fs d = Free" if "d \<in> set (cs @ [n]) - set cs" for d using that n(2) by auto
      ultimately show ?thesis using run ext 1(4) f2 o c by (intro that(1) [of "cs @ [n]" ?self fs2]) (simp_all add: nth_append)
    next
      case (2 fs2)
      have "fs_quiet img fs1 fs2" using 2(4,5,7) by (simp add: fs_quiet_def)
      then have q2: "fs_quiet img fs fs2" by (rule fs_quiet_trans [OF fs1(3)])
      have "File_write_cluster st ?q (self, fs) = Some (Inl NotEnoughSpace, (self, fs2))"
        using fs1(1) q False 2(1) by (simp add: File_write_cluster_def)
      then show ?thesis using 2(2,3) q2 o fs1(3) by (intro that(2) [of fs2]) (simp_all add: fs_frame_simps [OF f1] fs_quiet_def)
    qed
  qed
qed

lemma update_dir_entry_simps [simp]:
  "File_size (update_dir_entry_after_write self) = map_option (\<lambda>s. max s (f_offset self)) (File_size self)"
  "File_is_dir (update_dir_entry_after_write self) = File_is_dir self"
  "f_first_cluster (update_dir_entry_after_write self) = f_first_cluster self" "f_offset (update_dir_entry_after_write self) = f_offset self"
  "f_current_cluster (update_dir_entry_after_write self) = f_current_cluster self"
  "pred_option (\<lambda>e. DirFileEntryData_first_cluster (de_data e) ft = c) (f_entry (update_dir_entry_after_write self))
    = pred_option (\<lambda>e. DirFileEntryData_first_cluster (de_data e) ft = c) (f_entry self)"
  by (cases "f_entry self"; auto simp: update_dir_entry_after_write_def File_size_def File_is_dir_def Let_def editor_set_size max_def
      split: option.splits)+

lemma File_write_ok:
  assumes "fs_ok ok img cap fs" "file_ok img fs self cs" "File_size self = None \<longrightarrow> Suc (length cs) * fs_cs fs < 2 ^ 32"
    and k: "k = min (min (length buf) (fs_cs fs - unat (f_offset self) mod fs_cs fs)) (2 ^ 32 - 1 - unat (f_offset self))" "0 < k"
  obtains
    (written) cs' self' fs' where "File_write st buf (self, fs) = Some (Inr k, (self', fs'))"
      "fs_ok ok img cap fs'" "fs_frame fs fs'" "file_ok img fs' self' cs'" "unat (f_offset self) div fs_cs fs < length cs'"
      "cs' = (if unat (f_offset self) div fs_cs fs < length cs then cs else cs @ [last cs'])"
      "unat (f_offset self') = unat (f_offset self) + k" "File_size self' = map_option (\<lambda>s. max s (f_offset self')) (File_size self)"
      "File_is_dir self' = File_is_dir self"
      "\<And>d. d \<notin> set cs' \<Longrightarrow> fs_table img fs' d = fs_table img fs d" "\<And>d. d \<in> set cs' - set cs \<Longrightarrow> fs_table img fs d = Free"
      "\<And>a. fs_data_start fs \<le> a \<Longrightarrow> img (fs_disk fs') a = patch (\<lambda>a. if File_is_dir self \<and> cs' \<noteq> cs
          \<and> cluster_addr fs (last cs') \<le> a \<and> a < cluster_addr fs (last cs') + fs_cs fs then 0 else img (fs_disk fs) a)
        (file_addr fs cs' (unat (f_offset self))) (take k buf) a"
  | (full) fs' where "File_write st buf (self, fs) = Some (Inl NotEnoughSpace, (self, fs'))"
      "fs_ok ok img cap fs'" "fs_quiet img fs fs'" "unat (f_offset self) = length cs * fs_cs fs"
      "\<And>d. valid_cluster fs d \<Longrightarrow> fs_table img fs d \<noteq> Free"
proof -
  let ?o = "unat (f_offset self)" and ?c = "fs_cs fs" and ?q = "f_offset self mod FileSystem_cluster_size fs"
  note l = fs_layoutD [OF assms(1)] and oc = offset_in_cluster [OF assms(1)]
  have c: "0 < ?c" using cluster_size_unat [OF l(1)] by simp
  have "f_offset self \<le> MAX_FILE_SIZE" using unsigned_less [of "f_offset self", where 'a = nat] by (simp add: MAX_FILE_SIZE_def word_le_nat_alt)
  then have "unat (MAX_FILE_SIZE - f_offset self) = 2 ^ 32 - 1 - ?o" by (simp add: unat_sub) (simp add: MAX_FILE_SIZE_def)
  then have ws: "min (min (length buf) (unat (FileSystem_cluster_size fs - ?q))) (unat (MAX_FILE_SIZE - f_offset self)) = k"
    by (simp add: k(1) oc(3))
  have kk: "k \<le> ?c - ?o mod ?c" "k \<le> length buf" "?o + k < 2 ^ 32" using k by auto
  from set_dirty_flag_fs [OF assms(1), of True] obtain fs0 where
    fs0: "set_dirty_flag st True fs = Some (Inr (), fs0)" "fs_ok ok img cap fs0" "fs_frame fs fs0" "fs_same_data img fs fs0"
      "fs_table img fs0 = fs_table img fs" by metis
  have q0: "fs_quiet img fs fs0" using fs0 by (simp add: fs_quiet_def)
  have ok0: "file_ok img fs0 self cs" using assms(2) fs_quiet_file_ok [OF q0] by simp
  note fr0 = fs_frame_simps [OF fs0(3)]
  have b: "File_size self = None \<longrightarrow> Suc (length cs) * fs_cs fs0 < 2 ^ 32" using assms(3) by (simp add: fr0)
  from File_write_cluster_ok [OF fs0(2) ok0 b] show thesis unfolding fr0 fs0(5)
  proof (cases, goal_cases)
    case (2 fs1)
    have "File_write st buf (self, fs) = Some (Inl NotEnoughSpace, (self, fs1))"
      using fs0(1) 2(1) k(2) ws by (simp add: File_write_def Let_def io_lift_def oc(1))
    then show ?thesis using 2(2-5) fs_quiet_trans [OF q0] by (intro that(2) [of fs1]) simp_all
  next
    case (1 cs' self' fs1)
    let ?cl = "cs' ! (?o div ?c)"
    have f1: "fs_frame fs fs1" using fs0(3) 1(3) by (rule fs_frame_trans)
    have "\<forall>c\<in>set cs'. valid_cluster fs c" using 1(4) by (simp add: file_ok_def fs_frame_simps [OF f1])
    then have v: "valid_cluster fs ?cl" using 1(5) by simp
    from seek_in_cluster [OF assms(1) 1(2) v kk(1)] obtain d1 where
      d1: "st_seek st (Start (offset_from_cluster fs ?cl + ucast ?q)) (fs_disk fs1) = Some (Inr (offset_from_cluster fs ?cl + ucast ?q), d1)" "ok d1"
        "pos d1 = file_addr fs cs' ?o" "img d1 = img (fs_disk fs1)" "k < 2 ^ 32" "pos d1 + k \<le> cap"
      unfolding file_addr_def .
    have len: "length (take k buf) = k" using kk(2) by simp
    from write_law [of d1 "take k buf"] d1 len vol_empty obtain d2 where
      d2: "st_write st (take k buf) d1 = Some (Inr k, d2)" "ok d2" "\<And>a. img d2 a = patch (img d1) (pos d1) (take k buf) a" by auto
    let ?s1 = "self'\<lparr>f_offset := f_offset self' + word_of_nat k, f_current_cluster := Some ?cl\<rparr>"
    let ?s2 = "update_dir_entry_after_write ?s1" and ?fs2 = "fs1\<lparr>fs_disk := d2\<rparr>"
    have run: "File_write st buf (self, fs) = Some (Inr k, (?s2, ?fs2))"
      using fs0(1) 1(1) d1(1) d2(1) k(2) ws by (simp add: File_write_def Let_def io_lift_def oc(1))
    have low: "img d2 a = img (fs_disk fs1) a" if "a < fs_data_start fs1" for a
      using that cluster_addr_bounds(2) [OF l(1) v] d2(3) [of a] d1(3,4) by (simp add: patch_def file_addr_def fs_frame_simps [OF f1])
    note fs2 = fs_data_write [OF 1(2) d2(2) low]
    have f2: "fs_frame fs ?fs2" "fs_frame fs1 ?fs2" using f1 by (simp_all add: fs_frame_def)
    have ok1: "file_ok img ?fs2 self' cs'"
      using 1(4) file_ok_cong [OF f2(2) fs2(2)] by simp
    have "?o + k \<le> length cs' * ?c" using cluster_rest [OF 1(5)] kk(1) k(2) by linarith
    moreover have "unat (f_offset self + word_of_nat k) = ?o + k"
      using kk(3) by (simp add: unat_word_ariths unsigned_of_nat take_bit_nat_eq_self)
    ultimately have lens: "?o + k \<le> file_len fs ?s2 cs'" "file_len fs ?s2 cs' \<le> length cs' * ?c" "file_len fs ?s2 cs' < 2 ^ 32"
      using 1(4,7,8) kk(3) by (auto simp: file_len_def file_ok_def fs_frame_simps [OF f1] max_def word_le_nat_alt split: option.splits)
    have adv: "file_ok img ?fs2 ?s2 cs'" "unat (f_offset ?s2) = ?o + k"
      using file_ok_advance [OF ok1, of k ?s2] file_ok_entry [OF ok1] lens kk c k(2) 1(7)
      by (simp_all add: fs_frame_simps [OF f2(1)] file_len_frame [OF f2(1)])
    have "img (fs_disk ?fs2) a = patch (\<lambda>a. if File_is_dir self \<and> cs' \<noteq> cs
          \<and> cluster_addr fs (last cs') \<le> a \<and> a < cluster_addr fs (last cs') + fs_cs fs then 0 else img (fs_disk fs) a)
        (file_addr fs cs' ?o) (take k buf) a" if "fs_data_start fs \<le> a" for a
      using d2(3) [of a] d1(3,4) 1(12) [OF that] fs_quiet_img [OF l(1) q0 that] by (simp add: patch_def)
    then show ?thesis using run fs2 f2(1) adv 1(5-11) fs0(5) by (intro that(1) [of ?s2 ?fs2 cs']) simp_all
  qed
qed

end

text \<open>The walk of a seek along the chain.\<close>

context region
begin

lemma File_seek_loop_in:
  assumes "ok s" "fat_table ft sz e" "fat_chain (fat_get ft (byte s)) cs" "set cs \<subseteq> {..<e}" "j < length cs"
  shows "\<exists>s'. File_seek_loop st k i \<lparr>ci_fat_type = ft, ci_cluster = Some (cs ! j), ci_err = False\<rparr> (cs ! j) s
      = Some (Inr (cs ! min (j + k) (length cs - 1), if j + k < length cs then None else Some (i + word_of_nat (length cs - 1 - j))), s')
    \<and> ok s' \<and> byte s' = byte s \<and> rest s' = rest s"
  using assms
proof (induction k arbitrary: j i s)
  case 0
  then show ?case by simp
next
  case (Suc k)
  let ?it = "\<lparr>ci_fat_type = ft, ci_cluster = Some (cs ! j), ci_err = False\<rparr>"
  have "fat_in (ci_fat_type ?it) sz (cs ! j)" using nth_mem [OF Suc.prems(5)] Suc.prems(2,4) by (auto simp: fat_table_def)
  from ClusterIterator_next_in [OF Suc.prems(1) this] obtain s1 where
    s1: "ClusterIterator_next st ?it s = (let n = (case fat_get ft (byte s) (cs ! j) of Data n \<Rightarrow> Some n | _ \<Rightarrow> None) in
         Some (Inr (?it\<lparr>ci_cluster := n\<rparr>, map_option Inr n), s1))" "ok s1" "byte s1 = byte s" "rest s1 = rest s" by auto
  note nxt = fat_chain_next [OF Suc.prems(3,5)]
  show ?case
  proof (cases "Suc j < length cs")
    case True
    have "fat_chain (fat_get ft (byte s1)) cs" using Suc.prems(3) s1(3) by simp
    from Suc.IH [OF s1(2) Suc.prems(2) this Suc.prems(4) True, of "i + 1"] obtain s2 where
      s2: "File_seek_loop st k (i + 1) \<lparr>ci_fat_type = ft, ci_cluster = Some (cs ! Suc j), ci_err = False\<rparr> (cs ! Suc j) s1
        = Some (Inr (cs ! min (Suc j + k) (length cs - 1), if Suc j + k < length cs then None else Some (i + 1 + word_of_nat (length cs - 1 - Suc j))), s2)"
        "ok s2" "byte s2 = byte s1" "rest s2 = rest s1" by blast
    have "i + 1 + word_of_nat (length cs - 1 - Suc j) = i + word_of_nat (length cs - 1 - j)"
    proof -
      have "length cs - 1 - j = Suc (length cs - 1 - Suc j)" using True by simp
      then show ?thesis by simp
    qed
    then show ?thesis using s1 s2 nxt True by (intro exI [of _ s2]) (simp add: Let_def)
  next
    case False
    then have j: "j = length cs - 1" using Suc.prems(5) by simp
    then show ?thesis using s1 nxt False Suc.prems(5) by (intro exI [of _ s1]) (simp add: Let_def min_def)
  qed
qed

end

context byte_stream
begin

lemma clusters_from_bytes_ceil:
  assumes "fs_ok ok img cap fs"
  obtains n where "clusters_from_bytes fs (ucast (x :: u32)) = Some n" "unat n = (if x = 0 then 0 else Suc ((unat x - 1) div fs_cs fs))"
proof -
  note c = cluster_size_unat [OF fs_layoutD(1) [OF assms]]
  let ?c = "ucast (BPB_cluster_size (fs_bpb fs)) :: u64"
  have uc: "unat ?c = fs_cs fs" using c(1) by (simp add: unat_ucast_up FileSystem_cluster_size_def)
  then have nz: "?c \<noteq> 0" using c(2) by auto
  have x: "unat (ucast x :: u64) = unat x" "unat x < 2 ^ 32" using unsigned_less [of x, where 'a = nat] by (simp_all add: unat_ucast_up)
  have "unat (ucast x + ?c) = unat x + fs_cs fs" using x c(3) uc by (simp add: unat_word_ariths)
  moreover have "1 \<le> ucast x + ?c" using calculation c(2) by (simp add: word_le_nat_alt)
  ultimately have "unat (ucast x + ?c - 1) = unat x + fs_cs fs - 1" by (simp add: unat_sub)
  then have u: "unat ((ucast x + ?c - 1) div ?c) = (unat x + fs_cs fs - 1) div fs_cs fs" by (simp add: unat_div uc)
  have eq: "(unat x + fs_cs fs - 1) div fs_cs fs = (if x = 0 then 0 else Suc ((unat x - 1) div fs_cs fs))"
  proof (cases "x = 0")
    case False
    then have "0 < unat x" by (simp add: unat_gt_0)
    then have sum: "unat x + fs_cs fs - 1 = (unat x - 1) + fs_cs fs" by simp
    have "fs_cs fs \<noteq> 0" using c(2) by simp
    from div_add_self2 [OF this, of "unat x - 1"] show ?thesis unfolding sum using False by (simp only: if_False Suc_eq_plus1)
  qed (use c(2) in simp)
  have "(unat x + fs_cs fs - 1) div fs_cs fs \<le> unat x"
  proof (cases "x = 0")
    case False
    then have "0 < unat x" by (simp add: unat_gt_0)
    with div_le_dividend [of "unat x - 1" "fs_cs fs"] have "Suc ((unat x - 1) div fs_cs fs) \<le> unat x" by linarith
    then show ?thesis unfolding eq using False by simp
  qed (use c(2) in simp)
  then have "unat (ucast ((ucast x + ?c - 1) div ?c) :: u32) = (unat x + fs_cs fs - 1) div fs_cs fs"
    using u x(2) by (simp add: unsigned_ucast_eq unsigned_take_bit_eq take_bit_nat_eq_self)
  then show ?thesis using nz eq
    by (intro that [of "ucast ((ucast x + ?c - 1) div ?c)"]) (simp_all add: clusters_from_bytes_def BPB_clusters_from_bytes_def Let_def div_panic_def)
qed

lemma bytes_from_clusters_unat:
  assumes "fs_ok ok img cap fs" "unat n * fs_cs fs < 2 ^ 32"
  shows "unat (bytes_from_clusters fs n) = unat n * fs_cs fs"
proof -
  have "1 \<le> fs_bps fs" using fs_layoutD(1) [OF assms(1)] by (simp add: fs_layout_def Let_def)
  then have "unat n * fs_spc fs * 1 \<le> unat n * fs_spc fs * fs_bps fs" by (rule mult_le_mono2)
  then have "unat n * fs_spc fs < 2 ^ 32" using assms(2) by (simp only: fs_cs_def mult.assoc mult_1_right)
  then have "unat (BPB_sectors_from_clusters (fs_bpb fs) n) = unat n * fs_spc fs"
    by (simp add: BPB_sectors_from_clusters_def unat_word_ariths unat_ucast_up fs_spc_def)
  then show ?thesis by (simp add: bytes_from_clusters_def unat_bytes_from_sectors fs_cs_def fs_bps_def mult.assoc)
qed

text \<open>Where a seek along the chain ends.\<close>

lemma File_seek_walk:
  assumes "fs_ok ok img cap fs" "file_ok img fs self (c # cs)" "File_size self \<noteq> None \<longrightarrow> j < length (c # cs)"
  obtains fs' where "with_fat (File_seek_loop (slice_stream (FsIoAdapter st)) j 0 (ClusterIterator_new (fs_fat_type fs) c) c) fs
      = Some (Inr ((c # cs) ! min j (length cs), if j < length (c # cs) then None else Some (word_of_nat (length cs))), fs')"
    "fs_ok ok img cap fs'" "fs_quiet img fs fs'" "fs_fs_info fs' = fs_fs_info fs"
    "\<not> j < length (c # cs) \<longrightarrow> unat (ucast (bytes_from_clusters fs (word_of_nat (length cs) + 1)) :: u32) = file_len fs self (c # cs)"
proof -
  note l = fs_layoutD [OF assms(1)]
  let ?m = "File_seek_loop (slice_stream (FsIoAdapter st)) j 0 (ClusterIterator_new (fs_fat_type fs) c) c"
  let ?r = "((c # cs) ! min j (length cs), if j < length (c # cs) then None else Some (word_of_nat (length cs)))"
  have chain: "fat_chain (fat_get (fs_fat_type fs) (fs_slice_byte img fs (fs_fat fs, fs))) (c # cs)"
    using assms(2) by (simp add: file_ok_def fs_table_def fs_fat_bytes_def)
  have sub: "set (c # cs) \<subseteq> {..<fs_total_clusters fs + 2}" using assms(2) by (auto simp: file_ok_def valid_cluster_def fs_end_def)
  have "0 < length (c # cs)" by simp
  from adapter.slice.File_seek_loop_in [OF l(4) l(2) chain sub this, of j 0] obtain t where
    t: "?m (fs_fat fs, fs) = Some (Inr ?r, t)" "fs_slice_ok ok img cap fs t" "fs_slice_byte img fs t = fs_slice_byte img fs (fs_fat fs, fs)"
      "fs_slice_rest img fs t = fs_slice_rest img fs (fs_fat fs, fs)"
    by (auto simp: ClusterIterator_new_def)
  have "fat_get (fs_fat_type fs) (fs_slice_byte img fs t) d = fs_table img fs d" for d using t(3) by (simp add: fs_table_def fs_fat_bytes_def)
  from with_fat_table [where m = ?m, OF assms(1) t(1,2,4) this] obtain fs1 where
    fs1: "with_fat ?m fs = Some (Inr ?r, fs1)" "fs_ok ok img cap fs1" "fs_frame fs fs1" "fs_same_data img fs fs1"
      "fs_fs_info fs1 = fs_fs_info fs" "fs_table img fs1 = fs_table img fs" .
  have "unat (ucast (bytes_from_clusters fs (word_of_nat (length cs) + 1)) :: u32) = file_len fs self (c # cs)" if "\<not> j < length (c # cs)"
  proof -
    have len: "file_len fs self (c # cs) = Suc (length cs) * fs_cs fs" "Suc (length cs) * fs_cs fs < 2 ^ 32"
      using that assms(2,3) by (auto simp: file_len_def file_ok_def)
    have "Suc (length cs) * 1 \<le> Suc (length cs) * fs_cs fs" using cluster_size_unat(2) [OF l(1)] by (intro mult_le_mono2) simp
    with len(2) have "Suc (length cs) < 2 ^ 32" by (simp only: mult_1_right)
    then have n: "unat (word_of_nat (length cs) + 1 :: u32) = Suc (length cs)"
      by (simp add: unat_word_ariths unsigned_of_nat take_bit_nat_eq_self)
    then have "unat (bytes_from_clusters fs (word_of_nat (length cs) + 1)) = Suc (length cs) * fs_cs fs"
      using bytes_from_clusters_unat [OF assms(1), of "word_of_nat (length cs) + 1"] len(2) by simp
    then show ?thesis using len by (simp add: unsigned_ucast_eq unsigned_take_bit_eq take_bit_nat_eq_self)
  qed
  with fs1 that show ?thesis by (simp add: fs_quiet_def)
qed

lemma file_offset_index:
  assumes "0 < fs_cs fs" "0 < (n :: nat)" "(n - 1) div fs_cs fs < length cs"
  shows "n \<le> length cs * fs_cs fs"
  using assms div_less_iff_less_mult [of "fs_cs fs" "n - 1" "length cs"] by auto

lemma File_seek_ok:
  assumes "fs_ok ok img cap fs" "file_ok img fs self cs" "File_seek_target self p = Some t"
  obtains self' fs' where "File_seek st p (self, fs) = Some (Inr (ucast (f_offset self')), (self', fs'))" "fs_ok ok img cap fs'" "fs_quiet img fs fs'"
    "fs_fs_info fs' = fs_fs_info fs" "file_ok img fs' self' cs" "unat (f_offset self') = min (unat t) (file_len fs self cs)"
    "f_entry self' = f_entry self" "f_first_cluster self' = f_first_cluster self"
proof -
  note l = fs_layoutD [OF assms(1)]
  note c = cluster_size_unat [OF l(1)]
  have ok: "f_first_cluster self = (case cs of [] \<Rightarrow> None | c # _ \<Rightarrow> Some c)"
    "cs \<noteq> [] \<longrightarrow> fat_chain (fs_table img fs) cs \<and> fs_table img fs (last cs) \<noteq> Free" "\<forall>c\<in>set cs. valid_cluster fs c"
    "f_current_cluster self = (if f_offset self = 0 then None else Some (cs ! ((unat (f_offset self) - 1) div fs_cs fs)))"
    "file_len fs self cs < 2 ^ 32" "unat (f_offset self) \<le> file_len fs self cs" "file_len fs self cs \<le> length cs * fs_cs fs"
    using assms(2) unfolding file_ok_def by blast+
  define t' where "t' = (case File_size self of Some s \<Rightarrow> if t > s then s else t | None \<Rightarrow> t)"
  have t': "min (unat t') (file_len fs self cs) = min (unat t) (file_len fs self cs)" "File_size self \<noteq> None \<Longrightarrow> unat t' \<le> file_len fs self cs"
    by (auto simp: t'_def file_len_def word_le_nat_alt word_less_nat_alt min_def split: option.splits)
  obtain n where n: "clusters_from_bytes fs (ucast t') = Some n" "unat n = (if t' = 0 then 0 else Suc ((unat t' - 1) div fs_cs fs))"
    using clusters_from_bytes_ceil [OF assms(1)] by metis
  obtain m where m: "clusters_from_bytes fs (ucast (f_offset self)) = Some m"
    "unat m = (if f_offset self = 0 then 0 else Suc ((unat (f_offset self) - 1) div fs_cs fs))"
    using clusters_from_bytes_ceil [OF assms(1)] by metis
  let ?step = "if t' = 0 then io_return (None, t')
     else if n = m then io_return (f_current_cluster self, t')
     else case f_first_cluster self of
       Some first_cluster \<Rightarrow>
         let clusters_to_skip = n - 1 in
         io_bind (io_inner (with_fat (File_seek_loop (slice_stream (FsIoAdapter st)) (unat clusters_to_skip) 0
           (ClusterIterator_new (fs_fat_type fs) first_cluster) first_cluster))) (\<lambda>(cluster, ended).
         io_return (Some cluster, case ended of Some i \<Rightarrow> ucast (bytes_from_clusters fs (i + 1)) | None \<Rightarrow> t'))
     | None \<Rightarrow> io_return (None, 0)"
  have "\<exists>q fs1. ?step (self, fs) = Some (Inr (if q = 0 then None else Some (cs ! ((unat q - 1) div fs_cs fs)), q), (self, fs1))
      \<and> fs_ok ok img cap fs1 \<and> fs_quiet img fs fs1 \<and> fs_fs_info fs1 = fs_fs_info fs \<and> unat q = min (unat t') (file_len fs self cs)"
  proof (cases "t' = 0")
    case True
    then show ?thesis using assms(1) by (intro exI [of _ 0] exI [of _ fs]) simp
  next
    case t0: False
    then have t1: "0 < unat t'" by (simp add: unat_gt_0)
    have fit: "unat t' \<le> file_len fs self cs" if "(unat t' - 1) div fs_cs fs < length cs"
      using t'(2) file_offset_index [OF c(2) t1 that] by (cases "File_size self") (simp_all add: file_len_def)
    show ?thesis
    proof (cases "n = m")
      case True
      then have eq: "(unat t' - 1) div fs_cs fs = (unat (f_offset self) - 1) div fs_cs fs" "f_offset self \<noteq> 0"
        using n(2) m(2) t0 by (auto split: if_splits)
      then have "unat (f_offset self) - 1 < length cs * fs_cs fs" using ok(6,7) unat_gt_0 [of "f_offset self"] by linarith
      then have "(unat t' - 1) div fs_cs fs < length cs" unfolding eq(1) by (rule less_mult_imp_div_less)
      then show ?thesis using True t0 eq ok(4) fit assms(1) by (intro exI [of _ t'] exI [of _ fs]) simp
    next
      case nm: False
      show ?thesis
      proof (cases cs)
        case Nil
        then show ?thesis using ok(1,7) t0 nm assms(1) by (intro exI [of _ 0] exI [of _ fs]) simp
      next
        case (Cons c0 cs0)
        let ?j = "(unat t' - 1) div fs_cs fs"
        have "1 \<le> n" using n(2) t0 by (simp add: word_le_nat_alt)
        then have j: "unat (n - 1) = ?j" using n(2) t0 by (simp add: unat_sub)
        have jl: "?j < length cs" if "File_size self \<noteq> None"
          using t'(2) [OF that] ok(7) t1 by (intro less_mult_imp_div_less) linarith
        then have "File_size self \<noteq> None \<longrightarrow> ?j < length (c0 # cs0)" using Cons by simp
        from File_seek_walk [OF assms(1) assms(2) [unfolded Cons] this] obtain fs1 where
          fs1: "with_fat (File_seek_loop (slice_stream (FsIoAdapter st)) ?j 0 (ClusterIterator_new (fs_fat_type fs) c0) c0) fs
            = Some (Inr ((c0 # cs0) ! min ?j (length cs0), if ?j < length (c0 # cs0) then None else Some (word_of_nat (length cs0))), fs1)"
          "fs_ok ok img cap fs1" "fs_quiet img fs fs1" "fs_fs_info fs1 = fs_fs_info fs"
          "\<not> ?j < length (c0 # cs0) \<longrightarrow> unat (ucast (bytes_from_clusters fs (word_of_nat (length cs0) + 1)) :: u32) = file_len fs self (c0 # cs0)" .
        show ?thesis
        proof (cases "?j < length cs")
          case True
          have "?step (self, fs) = Some (Inr (Some (cs ! ?j), t'), (self, fs1))"
            using t0 nm ok(1) Cons fs1(1) True j by (simp add: Let_def min_absorb1)
          then show ?thesis using fs1 t0 fit [OF True] by (intro exI [of _ t'] exI [of _ fs1]) (simp add: min_absorb1)
        next
          case False
          let ?q = "ucast (bytes_from_clusters fs (word_of_nat (length cs0) + 1)) :: u32"
          have q: "unat ?q = file_len fs self cs" using False fs1(5) Cons by simp
          have none: "File_size self = None" using False jl by blast
          then have len: "file_len fs self cs = length cs * fs_cs fs" by (simp add: file_len_def)
          have "length cs * fs_cs fs \<le> unat t'" using False less_mult_imp_div_less [of "unat t' - 1" "length cs" "fs_cs fs"] t1 by linarith
          moreover have "0 < unat ?q" "(unat ?q - 1) div fs_cs fs = length cs0"
            using boundary_index(1) [of "unat ?q" "fs_cs fs"] q len c(2) Cons by simp_all
          moreover have "?step (self, fs) = Some (Inr (Some (cs ! length cs0), ?q), (self, fs1))"
            using t0 nm ok(1) Cons fs1(1) False j by (simp add: Let_def)
          ultimately show ?thesis using fs1 q len by (intro exI [of _ ?q] exI [of _ fs1]) (auto simp: unat_gt_0)
        qed
      qed
    qed
  qed
  then obtain q fs1 where q: "?step (self, fs) = Some (Inr (if q = 0 then None else Some (cs ! ((unat q - 1) div fs_cs fs)), q), (self, fs1))"
    "fs_ok ok img cap fs1" "fs_quiet img fs fs1" "fs_fs_info fs1 = fs_fs_info fs" "unat q = min (unat t') (file_len fs self cs)" by blast
  show thesis
  proof (cases "t' = f_offset self")
    case True
    then have "unat (f_offset self) = min (unat t) (file_len fs self cs)" using t'(1) ok(6) by simp
    moreover have "File_seek st p (self, fs) = Some (Inr (ucast (f_offset self)), (self, fs))"
      using True assms(3) by (simp add: File_seek_def Let_def t'_def)
    ultimately show ?thesis using assms by (intro that [of self fs]) simp_all
  next
    case False
    let ?self = "self\<lparr>f_offset := q, f_current_cluster := if q = 0 then None else Some (cs ! ((unat q - 1) div fs_cs fs))\<rparr>"
    have "File_seek st p (self, fs) = Some (Inr (ucast q), (?self, fs1))"
      using False assms(3) n(1) m(1) q(1) by (simp add: File_seek_def Let_def t'_def [symmetric] io_lift_def)
    moreover have "file_ok img fs ?self cs"
      using ok(1-3,5,7) q(5) file_ok_entry [OF assms(2)] unfolding file_ok_def by (simp add: file_len_def)
    ultimately show ?thesis using q(2-5) t'(1) fs_quiet_file_ok [OF q(3)] by (intro that [of ?self fs1]) simp_all
  qed
qed

end

end
