(* ===== verification/Fat_File_Ops.thy ===== *)
theory Fat_File_Ops
  imports Fat_File
begin

text \<open>
  Files as sequences of bytes: reading a file to the end of a buffer, writing a whole buffer,
  seeking and truncating, with what they do to the bytes of the file and to the rest of the volume.

  A call to \<^verbatim>\<open>read\<close> or \<^verbatim>\<open>write\<close> stops at the end of a cluster. The interface \<^verbatim>\<open>short_reader\<close>
  says what the loop \<^verbatim>\<open>read_exact\<close> needs from such calls.
\<close>

section \<open>Streams with short reads and writes\<close>

locale short_reader =
  fixes st :: "'s stream" and ok :: "'s \<Rightarrow> bool" and img :: "'s \<Rightarrow> nat \<Rightarrow> u8" and pos :: "'s \<Rightarrow> nat" and cap :: nat
  assumes short_read: "ok s \<Longrightarrow> 0 < n \<Longrightarrow> pos s + n \<le> cap \<Longrightarrow>
      \<exists>k s'. 0 < k \<and> k \<le> n \<and> st_read st n s = Some (Inr (bytes_at (img s) (pos s) k), s') \<and> ok s' \<and> pos s' = pos s + k \<and> img s' = img s"
begin

lemma read_loop_short:
  "ok s \<Longrightarrow> pos s + n \<le> cap \<Longrightarrow>
    \<exists>s'. read_exact_loop st n acc s = Some (Inr (acc @ bytes_at (img s) (pos s) n), s') \<and> ok s' \<and> pos s' = pos s + n \<and> img s' = img s"
proof (induction n arbitrary: s acc rule: less_induct)
  case (less n)
  show ?case
  proof (cases "n = 0")
    case True
    then show ?thesis using less.prems by (simp add: read_exact_loop.simps)
  next
    case False
    then obtain k s1 where s1: "0 < k" "k \<le> n" "st_read st n s = Some (Inr (bytes_at (img s) (pos s) k), s1)" "ok s1"
      "pos s1 = pos s + k" "img s1 = img s" using short_read [OF less.prems(1) _ less.prems(2)] by auto
    have "n - k < n" "pos s1 + (n - k) \<le> cap" using s1(1,2,5) less.prems(2) by simp_all
    from less.IH [OF this(1) s1(4) this(2), of "acc @ bytes_at (img s) (pos s) k"] obtain s2 where
      s2: "read_exact_loop st (n - k) (acc @ bytes_at (img s) (pos s) k) s1
        = Some (Inr ((acc @ bytes_at (img s) (pos s) k) @ bytes_at (img s1) (pos s1) (n - k)), s2)"
        "ok s2" "pos s2 = pos s1 + (n - k)" "img s2 = img s1" by blast
    have "bytes_at (img s) (pos s) k \<noteq> []" using s1(1) by (metis length_bytes_at list.size(3) less_irrefl)
    then have "read_exact_loop st n acc s = read_exact_loop st (n - k) (acc @ bytes_at (img s) (pos s) k) s1"
      using False s1(2,3) by (subst read_exact_loop.simps) simp
    moreover have "bytes_at (img s) (pos s) n = bytes_at (img s) (pos s) k @ bytes_at (img s) (pos s + k) (n - k)"
      using bytes_at_add [of "img s" "pos s" k "n - k"] s1(2) by simp
    ultimately show ?thesis using s1 s2 by simp
  qed
qed

end

sublocale short_reader \<subseteq> exact_reader st ok img pos cap
  using read_loop_short [of _ _ "[]"] by unfold_locales (auto simp: read_exact_def)

section \<open>The file as a stream\<close>

definition file_state :: "('s \<Rightarrow> bool) \<Rightarrow> ('s \<Rightarrow> nat \<Rightarrow> u8) \<Rightarrow> nat \<Rightarrow> u32 list \<Rightarrow> nat \<Rightarrow> File \<times> 's FileSystem \<Rightarrow> bool" where
  "file_state ok img cap cs n = (\<lambda>(self, fs). fs_ok ok img cap fs \<and> file_ok img fs self cs \<and> file_len fs self cs = n)"

definition file_img :: "('s \<Rightarrow> nat \<Rightarrow> u8) \<Rightarrow> u32 list \<Rightarrow> nat \<Rightarrow> File \<times> 's FileSystem \<Rightarrow> nat \<Rightarrow> u8" where
  "file_img img cs n = (\<lambda>(self, fs) i. if i < n then file_byte img fs cs i else 0)"

definition file_pos :: "File \<times> 's FileSystem \<Rightarrow> nat" where
  "file_pos = (\<lambda>(self, fs). unat (f_offset self))"

lemma file_img_quiet:
  assumes "fs_layout cap fs" "fs_quiet img fs fs'" "file_ok img fs self cs" "file_len fs self cs = n"
  shows "file_img img cs n (self', fs') = file_img img cs n (self, fs)"
proof
  fix i
  show "file_img img cs n (self', fs') i = file_img img cs n (self, fs) i"
    using fs_quiet_file_byte [OF assms(1,2), of cs i] assms(3,4) by (auto simp: file_img_def file_ok_def)
qed

sublocale byte_stream \<subseteq> fat_file: short_reader "file_stream st" "file_state ok img cap cs n" "file_img img cs n" file_pos n for cs n
proof
  fix s m
  assume s: "file_state ok img cap cs n s" and m: "0 < m" "file_pos s + m \<le> n"
  obtain self fs where sf: "s = (self, fs)" by (cases s)
  have ok: "fs_ok ok img cap fs" "file_ok img fs self cs" "file_len fs self cs = n" using s by (simp_all add: file_state_def sf)
  let ?k = "min m (min (fs_cs fs - unat (f_offset self) mod fs_cs fs) (file_len fs self cs - unat (f_offset self)))"
  from File_read_ok [OF ok(1,2) refl, of m] obtain self' fs' where
    r: "File_read st m (self, fs) = Some (Inr (bytes_at (file_byte img fs cs) (unat (f_offset self)) ?k), (self', fs'))"
      "fs_ok ok img cap fs'" "fs_quiet img fs fs'" "file_ok img fs' self' cs" "unat (f_offset self') = unat (f_offset self) + ?k"
      "File_size self' = File_size self" by metis
  have f: "fs_frame fs fs'" using r(3) by (simp add: fs_quiet_def)
  have len: "file_len fs' self' cs = n" unfolding file_len_frame [OF f] using r(6) ok(3) by (simp add: file_len_def)
  have c: "0 < fs_cs fs" using cluster_size_unat(2) [OF fs_layoutD(1) [OF ok(1)]] .
  then have "0 < ?k" using m ok(3) by (simp add: file_pos_def sf)
  moreover have "bytes_at (file_byte img fs cs) (unat (f_offset self)) ?k = bytes_at (file_img img cs n s) (file_pos s) ?k"
    using ok(3) by (auto simp: bytes_at_def file_img_def file_pos_def sf)
  moreover have "file_state ok img cap cs n (self', fs')"
    using r(2,4) len by (simp add: file_state_def)
  moreover have "file_img img cs n (self', fs') = file_img img cs n s"
    unfolding sf by (rule file_img_quiet [OF fs_layoutD(1) [OF ok(1)] r(3) ok(2,3)])
  ultimately show "\<exists>k s'. 0 < k \<and> k \<le> m \<and> st_read (file_stream st) m s = Some (Inr (bytes_at (file_img img cs n s) (file_pos s) k), s')
      \<and> file_state ok img cap cs n s' \<and> file_pos s' = file_pos s + k \<and> file_img img cs n s' = file_img img cs n s"
    using r(1,5) by (intro exI [of _ ?k] exI [of _ "(self', fs')"]) (simp add: file_stream_def file_pos_def sf)
qed

section \<open>Writing\<close>

text \<open>What the volume holds outside a chain.\<close>

definition fs_outside :: "('s \<Rightarrow> nat \<Rightarrow> u8) \<Rightarrow> u32 list \<Rightarrow> 's FileSystem \<Rightarrow> 's FileSystem \<Rightarrow> bool" where
  "fs_outside img cs fs fs' \<longleftrightarrow> (\<forall>d. d \<notin> set cs \<longrightarrow> fs_table img fs' d = fs_table img fs d)
     \<and> (\<forall>d. d \<notin> set cs \<longrightarrow> valid_cluster fs d \<longrightarrow> fs_cluster img fs' d = fs_cluster img fs d)"

lemma fs_outside_refl [simp]: "fs_outside img cs fs fs"
  by (simp add: fs_outside_def)

lemma fs_outside_trans:
  assumes "fs_outside img cs fs fs1" "fs_outside img cs' fs1 fs2" "set cs \<subseteq> set cs'" "fs_frame fs fs1"
  shows "fs_outside img cs' fs fs2"
  using assms(1-3) unfolding fs_outside_def by (auto simp: fs_frame_simps [OF assms(4)] subset_iff)

lemma fs_outside_quiet:
  assumes "fs_layout cap fs" "fs_quiet img fs fs'"
  shows "fs_outside img cs fs fs'"
  using assms fs_same_data_cluster [OF assms(1)] by (auto simp: fs_outside_def fs_quiet_def)

lemma regular_not_dir: "File_size self = Some n \<Longrightarrow> \<not> File_is_dir self"
  by (auto simp: File_size_def File_is_dir_def DirFileEntryData_size_def DirFileEntryData_is_file_def split: option.splits if_splits)

context byte_stream
begin

text \<open>One call of \<^verbatim>\<open>write\<close> on a regular file.\<close>

lemma File_write_content:
  assumes "fs_ok ok img cap fs" "file_ok img fs self cs" "File_size self = Some sz"
    and k: "k = min (min (length buf) (fs_cs fs - unat (f_offset self) mod fs_cs fs)) (2 ^ 32 - 1 - unat (f_offset self))" "0 < k"
  obtains
    (written) cs' self' fs' where "File_write st buf (self, fs) = Some (Inr k, (self', fs'))"
      "fs_ok ok img cap fs'" "fs_frame fs fs'" "file_ok img fs' self' cs'" "File_size self' \<noteq> None" "\<exists>ds. cs' = cs @ ds"
      "unat (f_offset self') = unat (f_offset self) + k" "fs_outside img cs' fs fs'" "\<forall>d\<in>set cs' - set cs. fs_table img fs d = Free"
      "file_content img fs' self' cs' = take (unat (f_offset self)) (file_content img fs self cs) @ take k buf
        @ drop (unat (f_offset self) + k) (file_content img fs self cs)"
  | (full) fs' where "File_write st buf (self, fs) = Some (Inl NotEnoughSpace, (self, fs'))"
      "fs_ok ok img cap fs'" "fs_quiet img fs fs'" "\<forall>d. valid_cluster fs d \<longrightarrow> fs_table img fs d \<noteq> Free"
proof -
  let ?o = "unat (f_offset self)" and ?c = "fs_cs fs"
  note l = fs_layoutD(1) [OF assms(1)]
  have c: "0 < ?c" using cluster_size_unat [OF l] by simp
  have nd: "\<not> File_is_dir self" using regular_not_dir [OF assms(3)] .
  have "File_size self = None \<longrightarrow> Suc (length cs) * fs_cs fs < 2 ^ 32" using assms(3) by simp
  from File_write_ok [OF assms(1,2) this k] show thesis
  proof (cases, goal_cases)
    case (2 fs')
    then show ?thesis by (intro that(2) [of fs']) blast+
  next
    case (1 cs' self' fs')
    have ds: "\<exists>ds. cs' = cs @ ds" using 1(6) by (metis append_Nil2)
    then have sub: "length cs \<le> length cs'" "\<And>i. i < length cs \<Longrightarrow> cs' ! i = cs ! i" by (auto simp: nth_append)
    have ok': "\<forall>c\<in>set cs'. valid_cluster fs c" "distinct cs'"
      using 1(4,5) fat_chain_distinct by (auto simp: file_ok_def fs_frame_simps [OF 1(3)])
    have o: "?o < length cs' * ?c" using 1(5) c by (simp add: div_less_iff_less_mult)
    have kk: "k \<le> ?c - ?o mod ?c" "k \<le> length buf" using k(1) by auto
    have img': "img (fs_disk fs') a = patch (img (fs_disk fs)) (file_addr fs cs' ?o) (take k buf) a" if "fs_data_start fs \<le> a" for a
      using 1(12) [OF that] nd by (simp add: patch_def)
    have byte': "file_byte img fs' cs' i = (if ?o \<le> i \<and> i < ?o + k then buf ! (i - ?o) else file_byte img fs cs' i)" if i: "i < length cs' * ?c" for i
    proof -
      note row = file_addr_row [OF l ok'(1,2) i o c kk(1)]
      have "file_byte img fs' cs' i = patch (img (fs_disk fs)) (file_addr fs cs' ?o) (take k buf) (file_addr fs cs' i)"
        using img' [OF file_addr_cluster(2) [OF l ok'(1) i c, of "cs' ! (i div ?c)"]] ok'(1) less_mult_imp_div_less [OF i]
        by (simp add: file_byte_addr file_addr_def fs_frame_simps [OF 1(3)])
      then show ?thesis using row kk(2) by (auto simp: patch_def file_byte_addr min_absorb2)
    qed
    have other: "fs_cluster img fs' d = fs_cluster img fs d" if d: "d \<notin> set cs'" "valid_cluster fs d" for d
      unfolding fs_cluster_def fs_frame_simps [OF 1(3)]
    proof (rule bytes_at_cong)
      fix a assume a: "cluster_addr fs d \<le> a" "a < cluster_addr fs d + ?c"
      have v: "valid_cluster fs (cs' ! (?o div ?c))" "cs' ! (?o div ?c) \<noteq> d" using ok'(1) 1(5) d(1) by auto
      have "?o mod ?c + k \<le> ?c" using kk(1) k(2) by linarith
      then have "\<not> (file_addr fs cs' ?o \<le> a \<and> a < file_addr fs cs' ?o + k)"
        using cluster_addr_disjoint [OF l v(1) d(2) v(2)] a by (auto simp: file_addr_def)
      then show "img (fs_disk fs') a = img (fs_disk fs) a"
        using img' [of a] a(1) cluster_addr_bounds(2) [OF l d(2)] kk(2) by (auto simp: patch_def min_absorb2)
    qed
    have len: "file_len fs self cs = unat sz" "unat sz \<le> length cs * ?c" "?o \<le> unat sz" using assms(2,3) by (simp_all add: file_len_def file_ok_def)
    have len': "file_len fs' self' cs' = max (unat sz) (?o + k)" "file_len fs' self' cs' \<le> length cs' * ?c"
      using 1(4,7,8) assms(3) by (auto simp: file_len_def file_ok_def fs_frame_simps [OF 1(3)] max_def word_le_nat_alt)
    have old: "file_byte img fs cs' i = file_byte img fs cs i" if "i < unat sz" for i
      using sub(2) [of "i div ?c"] that len(2) less_mult_imp_div_less [of i "length cs" ?c] by (simp add: file_byte_def)
    have "file_content img fs' self' cs' = take ?o (file_content img fs self cs) @ take k buf @ drop (?o + k) (file_content img fs self cs)"
      unfolding file_content_bytes [OF assms(2) c] file_content_bytes [OF 1(4) c [folded fs_frame_simps(3) [OF 1(3)]]]
    proof (rule nth_equalityI)
      show "length (bytes_at (file_byte img fs' cs') 0 (file_len fs' self' cs')) =
        length (take ?o (bytes_at (file_byte img fs cs) 0 (file_len fs self cs)) @ take k buf @ drop (?o + k) (bytes_at (file_byte img fs cs) 0 (file_len fs self cs)))"
        using len len'(1) kk(2) by (simp add: min_absorb1 min_absorb2)
      fix i assume "i < length (bytes_at (file_byte img fs' cs') 0 (file_len fs' self' cs'))"
      then have "i < file_len fs' self' cs'" by simp
      then have i: "i < max (unat sz) (?o + k)" "i < length cs' * ?c" using len' by linarith+
      show "bytes_at (file_byte img fs' cs') 0 (file_len fs' self' cs') ! i =
        (take ?o (bytes_at (file_byte img fs cs) 0 (file_len fs self cs)) @ take k buf @ drop (?o + k) (bytes_at (file_byte img fs cs) 0 (file_len fs self cs))) ! i"
        using i byte' [OF i(2)] old [of i] len len'(1) kk(2) by (auto simp: nth_append min_absorb1 min_absorb2)
    qed
    moreover have "fs_outside img cs' fs fs'" using other 1(10) by (simp add: fs_outside_def)
    ultimately show ?thesis using 1 ds assms(3) by (intro that(1) [of self' fs' cs']) simp_all
  qed
qed

text \<open>The whole buffer.\<close>

lemma overwrite_steps:
  fixes xs buf ys :: "u8 list"
  assumes "n \<le> length xs" "k \<le> length buf"
  shows "take (n + k) (take n xs @ take k buf @ drop (n + k) xs) @ ys @ drop (n + k + m) (take n xs @ take k buf @ drop (n + k) xs)
    = take n xs @ (take k buf @ ys) @ drop (n + (k + m)) xs"
  using assms by (simp add: ac_simps)

lemma File_write_all_content:
  assumes "fs_ok ok img cap fs" "file_ok img fs self cs" "File_size self \<noteq> None" "unat (f_offset self) + length buf < 2 ^ 32"
  shows "\<exists>r self' fs' cs' k. write_all (file_stream st) buf (self, fs) = Some (r, (self', fs')) \<and> fs_ok ok img cap fs' \<and> fs_frame fs fs'
    \<and> file_ok img fs' self' cs' \<and> File_size self' \<noteq> None \<and> (\<exists>ds. cs' = cs @ ds) \<and> k \<le> length buf \<and> unat (f_offset self') = unat (f_offset self) + k
    \<and> fs_outside img cs' fs fs' \<and> (\<forall>d\<in>set cs' - set cs. fs_table img fs d = Free)
    \<and> file_content img fs' self' cs' = take (unat (f_offset self)) (file_content img fs self cs) @ take k buf
        @ drop (unat (f_offset self) + k) (file_content img fs self cs)
    \<and> (r = Inr () \<and> k = length buf \<or> r = Inl NotEnoughSpace \<and> k < length buf \<and> (\<forall>d. valid_cluster fs d \<longrightarrow> fs_table img fs' d \<noteq> Free))"
  using assms
proof (induction "length buf" arbitrary: buf self fs cs rule: less_induct)
  case less
  let ?o = "unat (f_offset self)"
  note l = fs_layoutD(1) [OF less.prems(1)]
  have c: "0 < fs_cs fs" using cluster_size_unat(2) [OF l] .
  obtain sz where sz: "File_size self = Some sz" using less.prems(3) by blast
  have clen: "length (file_content img fs self cs) = file_len fs self cs" "?o \<le> file_len fs self cs"
    using file_content_bytes [OF less.prems(2) c] less.prems(2) by (simp_all add: file_ok_def)
  show ?case
  proof (cases "buf = []")
    case True
    then show ?thesis using less.prems by (intro exI [of _ "Inr ()"] exI [of _ self] exI [of _ fs] exI [of _ cs] exI [of _ 0]) (simp add: write_all.simps)
  next
    case False
    define n where "n = min (min (length buf) (fs_cs fs - ?o mod fs_cs fs)) (2 ^ 32 - 1 - ?o)"
    have k: "0 < n" using False c less.prems(4) by (simp add: n_def)
    from File_write_content [OF less.prems(1,2) sz n_def k] show ?thesis
    proof (cases, goal_cases)
      case (2 fs')
      have "write_all (file_stream st) buf (self, fs) = Some (Inl NotEnoughSpace, (self, fs'))"
        using 2(1) False by (subst write_all.simps) (simp add: file_stream_def Error_is_interrupted_def)
      moreover have f: "fs_frame fs fs'" using 2(3) by (simp add: fs_quiet_def)
      moreover have "file_ok img fs' self cs" using less.prems(2) fs_quiet_file_ok [OF 2(3)] by simp
      moreover have "file_content img fs' self cs = file_content img fs self cs"
        using fs_outside_quiet [OF l 2(3), of "[]"] less.prems(2)
        unfolding file_content_def file_len_frame [OF f] by (auto simp: fs_outside_def file_ok_def cong: map_cong)
      ultimately show ?thesis using 2 False less.prems(3) clen fs_outside_quiet [OF l 2(3)]
        by (intro exI [of _ "Inl NotEnoughSpace"] exI [of _ self] exI [of _ fs'] exI [of _ cs] exI [of _ 0]) (simp add: fs_quiet_def)
    next
      case (1 cs1 self1 fs1)
      have kk: "n \<le> length buf" by (simp add: n_def)
      have "length (drop n buf) < length buf" "unat (f_offset self1) + length (drop n buf) < 2 ^ 32" using k kk 1(7) less.prems(4) False by auto
      from less.hyps [OF this(1) 1(2,4,5) this(2)] obtain r self2 fs2 cs2 m where
        w2: "write_all (file_stream st) (drop n buf) (self1, fs1) = Some (r, (self2, fs2))" "fs_ok ok img cap fs2" "fs_frame fs1 fs2"
          "file_ok img fs2 self2 cs2" "File_size self2 \<noteq> None" "\<exists>ds. cs2 = cs1 @ ds" "m \<le> length (drop n buf)"
          "unat (f_offset self2) = unat (f_offset self1) + m" "fs_outside img cs2 fs1 fs2" "\<forall>d\<in>set cs2 - set cs1. fs_table img fs1 d = Free"
          "file_content img fs2 self2 cs2 = take (unat (f_offset self1)) (file_content img fs1 self1 cs1) @ take m (drop n buf)
            @ drop (unat (f_offset self1) + m) (file_content img fs1 self1 cs1)"
          "r = Inr () \<and> m = length (drop n buf) \<or> r = Inl NotEnoughSpace \<and> m < length (drop n buf) \<and> (\<forall>d. valid_cluster fs1 d \<longrightarrow> fs_table img fs2 d \<noteq> Free)"
        by blast
      have run: "write_all (file_stream st) buf (self, fs) = Some (r, (self2, fs2))"
        using 1(1) w2(1) False k kk by (subst write_all.simps) (simp add: file_stream_def)
      have sub: "set cs \<subseteq> set cs1" "set cs1 \<subseteq> set cs2" "\<exists>ds. cs2 = cs @ ds" using 1(6) w2(6) by auto
      have "file_content img fs2 self2 cs2 = take ?o (file_content img fs self cs) @ take (n + m) buf @ drop (?o + (n + m)) (file_content img fs self cs)"
        unfolding w2(11) 1(10) 1(7) take_add [of n m buf] using clen kk by (intro overwrite_steps) simp_all
      moreover have "fs_table img fs d = Free" if "d \<in> set cs2 - set cs" for d
        using that 1(8,9) w2(10) by (cases "d \<in> set cs1") (auto simp: fs_outside_def)
      moreover have "fs_outside img cs2 fs fs2" by (rule fs_outside_trans [OF 1(8) w2(9) sub(2) 1(3)])
      moreover have "fs_frame fs fs2" using 1(3) w2(3) by (rule fs_frame_trans)
      ultimately show ?thesis using run w2(2,4,5,7,8,12) 1(7) sub(3) kk
        by (intro exI [of _ r] exI [of _ self2] exI [of _ fs2] exI [of _ cs2] exI [of _ "n + m"]) (auto simp: fs_frame_simps [OF 1(3)])
    qed
  qed
qed

end

section \<open>Truncating\<close>

lemma fat_chain_prefix:
  assumes "fat_chain t (us @ c # vs)" "\<And>d. d \<in> set us \<Longrightarrow> t' d = t d" "\<And>n. t' c \<noteq> Data n"
  shows "fat_chain t' (us @ [c])"
  using assms
proof (induction us)
  case (Cons u us)
  then show ?case by (cases us) auto
qed simp

text \<open>The part of a file up to its position.\<close>

definition file_kept :: "'s FileSystem \<Rightarrow> File \<Rightarrow> u32 list \<Rightarrow> u32 list" where
  "file_kept fs self cs = take (if f_offset self = 0 then 0 else Suc ((unat (f_offset self) - 1) div fs_cs fs)) cs"

context byte_stream
begin

lemma File_truncate_content:
  assumes "fs_ok ok img cap fs" "file_ok img fs self cs" "File_size self = Some sz"
  obtains self' fs' where "File_truncate st (self, fs) = Some (Inr (), (self', fs'))" "fs_ok ok img cap fs'" "fs_frame fs fs'" "fs_same_data img fs fs'"
    "file_ok img fs' self' (file_kept fs self cs)" "f_offset self' = f_offset self" "File_size self' = Some (f_offset self)"
    "\<forall>d. fs_table img fs' d = (if d \<in> set cs - set (file_kept fs self cs) then Free
       else if file_kept fs self cs \<noteq> [] \<and> d = last (file_kept fs self cs) then EndOfChain else fs_table img fs d)"
proof -
  note l = fs_layoutD(1) [OF assms(1)]
  have c: "0 < fs_cs fs" using cluster_size_unat(2) [OF l] .
  obtain e where e: "f_entry self = Some e" "DirFileEntryData_size (de_data e) = Some sz" using assms(3) by (auto simp: File_size_def split: option.splits)
  have ok: "f_first_cluster self = (case cs of [] \<Rightarrow> None | c # _ \<Rightarrow> Some c)"
    "cs \<noteq> [] \<longrightarrow> fat_chain (fs_table img fs) cs \<and> fs_table img fs (last cs) \<noteq> Free" "\<forall>c\<in>set cs. valid_cluster fs c"
    "f_current_cluster self = (if f_offset self = 0 then None else Some (cs ! ((unat (f_offset self) - 1) div fs_cs fs)))"
    "file_len fs self cs < 2 ^ 32" "unat (f_offset self) \<le> file_len fs self cs" "file_len fs self cs \<le> length cs * fs_cs fs"
    using assms(2) unfolding file_ok_def by blast+
  let ?e = "DirEntryEditor_set_size (f_offset self) e"
  have size_e: "DirFileEntryData_size (de_data ?e) = Some (f_offset self)" using e(2) by (simp add: editor_set_size)
  show thesis
  proof (cases "f_offset self = 0")
    case True
    let ?e1 = "DirEntryEditor_set_first_cluster None (fs_fat_type fs) ?e"
    have e1: "DirFileEntryData_first_cluster (de_data ?e1) (fs_fat_type fs) = None"
      using first_cluster_set [of None "fs_fat_type fs" "de_data ?e"] by (auto simp: DirEntryEditor_set_first_cluster_def)
    let ?self = "self\<lparr>f_entry := Some ?e1, f_first_cluster := None\<rparr>"
    have "\<exists>fs'. File_truncate st (self, fs) = Some (Inr (), (?self, fs')) \<and> fs_ok ok img cap fs' \<and> fs_frame fs fs' \<and> fs_same_data img fs fs'
        \<and> (\<forall>d. fs_table img fs' d = (if d \<in> set cs then Free else fs_table img fs d))"
    proof (cases cs)
      case Nil
      then show ?thesis using ok(1,4) True e(1) assms(1)
        by (intro exI [of _ fs]) (simp add: File_truncate_def Let_def fs_same_data_def)
    next
      case (Cons a cs0)
      have chain: "fat_chain (fs_table img fs) (a # cs0)" "\<And>d. d \<in> set (a # cs0) \<Longrightarrow> valid_cluster fs d" using ok(2,3) Cons by auto
      from free_cluster_chain_ok [OF assms(1) chain] obtain fs' where
        "free_cluster_chain st a fs = Some (Inr (), fs')" "fs_ok ok img cap fs'" "fs_frame fs fs'" "fs_same_data img fs fs'"
        "fs_fs_info fs' = FsInfoSector_map_free_clusters (\<lambda>n. n + word_of_nat (length (a # cs0))) (fs_fs_info fs)"
        "fs_table img fs' = (\<lambda>d. if d \<in> set (a # cs0) then Free else fs_table img fs d)" .
      then show ?thesis using ok(1,4) True e(1) Cons by (intro exI [of _ fs']) (simp add: File_truncate_def Let_def)
    qed
    then obtain fs' where fs': "File_truncate st (self, fs) = Some (Inr (), (?self, fs'))" "fs_ok ok img cap fs'" "fs_frame fs fs'"
      "fs_same_data img fs fs'" "\<forall>d. fs_table img fs' d = (if d \<in> set cs then Free else fs_table img fs d)" by blast
    have "File_size ?self = Some 0" using size_e True by (simp add: File_size_def)
    moreover have "file_ok img fs' ?self []" using calculation e1 ok(4) True
      by (simp add: file_ok_def file_len_def fs_frame_simps [OF fs'(3)])
    ultimately show ?thesis using fs' True by (intro that [of ?self fs']) (simp_all add: file_kept_def)
  next
    case False
    let ?i = "(unat (f_offset self) - 1) div fs_cs fs" and ?self = "self\<lparr>f_entry := Some ?e\<rparr>"
    have o: "0 < unat (f_offset self)" using False by (simp add: unat_gt_0)
    then have "unat (f_offset self) - 1 < length cs * fs_cs fs" using ok(6,7) by linarith
    then have i: "?i < length cs" by (rule less_mult_imp_div_less)
    have split: "take ?i cs @ cs ! ?i # drop (Suc ?i) cs = cs" using i by (simp add: id_take_nth_drop [symmetric])
    have kept: "file_kept fs self cs = take ?i cs @ [cs ! ?i]" using False i by (simp add: file_kept_def take_Suc_conv_app_nth)
    have chain: "fat_chain (fs_table img fs) cs" using ok(2) i by auto
    then have suffix: "fat_chain (fs_table img fs) (cs ! ?i # drop (Suc ?i) cs)" using fat_chain_suffix [of _ "take ?i cs" "cs ! ?i" "drop (Suc ?i) cs"] by (simp only: split)
    have "valid_cluster fs d" if "d \<in> set (cs ! ?i # drop (Suc ?i) cs)" for d
      using that ok(3) i in_set_dropD [of d "Suc ?i" cs] by (auto simp: nth_mem)
    from truncate_cluster_chain_ok [OF assms(1) suffix this] obtain fs' where
      fs': "truncate_cluster_chain st (cs ! ?i) fs = Some (Inr (), fs')" "fs_ok ok img cap fs'" "fs_frame fs fs'" "fs_same_data img fs fs'"
        "fs_fs_info fs' = FsInfoSector_map_free_clusters (\<lambda>n. n + word_of_nat (length (drop (Suc ?i) cs))) (fs_fs_info fs)"
        "fs_table img fs' = (\<lambda>d. if d = cs ! ?i then EndOfChain else if d \<in> set (drop (Suc ?i) cs) then Free else fs_table img fs d)" .
    have run: "File_truncate st (self, fs) = Some (Inr (), (?self, fs'))"
      using e(1) False ok(4) fs'(1) by (simp add: File_truncate_def Let_def)
    have dist: "distinct (take ?i cs @ cs ! ?i # drop (Suc ?i) cs)" using fat_chain_distinct [OF chain] by (simp only: split)
    have tab: "fs_table img fs' d = (if d \<in> set cs - set (file_kept fs self cs) then Free
       else if file_kept fs self cs \<noteq> [] \<and> d = last (file_kept fs self cs) then EndOfChain else fs_table img fs d)" for d
    proof -
      have "d \<in> set cs - set (file_kept fs self cs) \<longleftrightarrow> d \<in> set (drop (Suc ?i) cs)"
        using dist kept arg_cong [OF split, of set] by (auto simp del: take_append drop_append)
      moreover have "cs ! ?i \<notin> set (drop (Suc ?i) cs)" using dist by simp
      ultimately show ?thesis using kept by (auto simp: fs'(6))
    qed
    have "fat_chain (fs_table img fs') (take ?i cs @ [cs ! ?i])"
    proof (rule fat_chain_prefix)
      show "fat_chain (fs_table img fs) (take ?i cs @ cs ! ?i # drop (Suc ?i) cs)" using chain by (simp only: split)
      show "fs_table img fs' d = fs_table img fs d" if "d \<in> set (take ?i cs)" for d using that dist by (auto simp: fs'(6))
    qed (simp add: fs'(6))
    moreover have "File_size ?self = Some (f_offset self)" using size_e by (simp add: File_size_def)
    moreover have "unat (f_offset self) \<le> Suc ?i * fs_cs fs"
      using file_offset_index [OF c o, of "replicate (Suc ?i) (0 :: u32)"] by (simp only: length_replicate lessI)
    moreover have "f_first_cluster self = (case take ?i cs @ [cs ! ?i] of [] \<Rightarrow> None | c # _ \<Rightarrow> Some c)"
      using ok(1) i by (cases cs; cases ?i) auto
    moreover have "\<forall>c\<in>set (take ?i cs @ [cs ! ?i]). valid_cluster fs c" using ok(3) i by (auto dest: in_set_takeD)
    ultimately have "file_ok img fs' ?self (file_kept fs self cs)"
      using ok(4) False i file_ok_entry [OF assms(2)] e(1) unsigned_less [of "f_offset self", where 'a = nat] unfolding kept
      by (simp add: file_ok_def file_len_def fs_frame_simps [OF fs'(3)] fs'(6) nth_append)
    with run fs' tab size_e show ?thesis by (intro that [of ?self fs']) (simp_all add: File_size_def)
  qed
qed

end

section \<open>Files of a volume\<close>

text \<open>
  \<^term>\<open>volume_file dev cap fs self cs bs\<close>: on the volume \<^term>\<open>fs\<close> the open file \<^term>\<open>self\<close> occupies the
  clusters \<^term>\<open>cs\<close> and holds the bytes \<^term>\<open>bs\<close>.
\<close>

definition volume_file :: "'d VirtIOBlk \<Rightarrow> u64 \<Rightarrow> 'd disk_state FileSystem \<Rightarrow> File \<Rightarrow> u32 list \<Rightarrow> u8 list \<Rightarrow> bool" where
  "volume_file dev cap fs self cs bs \<longleftrightarrow> file_ok (disk_img dev cap) fs self cs \<and> file_content (disk_img dev cap) fs self cs = bs"

definition volume_quiet :: "'d VirtIOBlk \<Rightarrow> u64 \<Rightarrow> 'd disk_state FileSystem \<Rightarrow> 'd disk_state FileSystem \<Rightarrow> bool" where
  "volume_quiet dev cap fs fs' \<longleftrightarrow> volume_table dev cap fs' = volume_table dev cap fs
     \<and> (\<forall>c. valid_cluster fs c \<longrightarrow> volume_cluster dev cap fs' c = volume_cluster dev cap fs c)"

lemma fs_quiet_volume:
  assumes "volume_ok dev cap fs" "fs_quiet (disk_img dev cap) fs fs'"
  shows "volume_quiet dev cap fs fs'"
  using assms(2) fs_same_data_cluster [OF disk.fs_layoutD(1) [OF assms(1)]] by (simp add: fs_quiet_def volume_quiet_def)

lemma file_content_length: "file_ok img fs self cs \<Longrightarrow> 0 < fs_cs fs \<Longrightarrow> length (file_content img fs self cs) = file_len fs self cs"
  by (simp add: file_content_bytes)

lemma file_content_part:
  assumes "file_ok img fs self cs" "0 < fs_cs fs" "p + k \<le> file_len fs self cs"
  shows "bytes_at (file_byte img fs cs) p k = take k (drop p (file_content img fs self cs))"
  using assms(3) unfolding file_content_bytes [OF assms(1,2)] by (intro nth_equalityI) simp_all

lemma file_content_quiet:
  assumes "fs_layout cap fs" "fs_quiet img fs fs'" "file_ok img fs self cs" "file_ok img fs' self' cs" "file_len fs' self' cs = file_len fs self cs"
    "0 < fs_cs fs"
  shows "file_content img fs' self' cs = file_content img fs self cs"
proof -
  have f: "fs_frame fs fs'" using assms(2) by (simp add: fs_quiet_def)
  then have c: "0 < fs_cs fs'" using assms(6) by (simp add: fs_frame_simps [OF f])
  show ?thesis unfolding file_content_bytes [OF assms(3,6)] file_content_bytes [OF assms(4) c] assms(5)
    using assms by (intro bytes_at_cong fs_quiet_file_byte) (auto simp: file_ok_def)
qed

lemma take_concat_rows:
  assumes "\<And>x. length (f x) = c" "m \<le> n * c"
  shows "take m (concat (map f (take n xs))) = take m (concat (map f xs))"
  using assms(2)
proof (induction n arbitrary: xs m)
  case (Suc n)
  then have "m - c \<le> n * c" by simp
  from Suc.IH [OF this] show ?case by (cases xs) (simp_all add: assms(1))
qed simp

lemma file_content_kept:
  assumes "fs_layout cap fs" "fs_frame fs fs'" "fs_same_data img fs fs'" "file_ok img fs self cs" "File_size self' = Some (f_offset self)"
    and c: "0 < fs_cs fs"
  shows "file_content img fs' self' (file_kept fs self cs) = take (unat (f_offset self)) (file_content img fs self cs)"
proof -
  have le: "unat (f_offset self) \<le> file_len fs self cs" "\<forall>c\<in>set cs. valid_cluster fs c" using assms(4) by (simp_all add: file_ok_def)
  obtain n where n: "file_kept fs self cs = take n cs" "unat (f_offset self) \<le> n * fs_cs fs"
  proof (cases "f_offset self = 0")
    case False
    then show ?thesis using dividend_less_div_times [OF c, of "unat (f_offset self) - 1"]
      by (intro that [of "Suc ((unat (f_offset self) - 1) div fs_cs fs)"]) (simp_all add: file_kept_def)
  qed (auto simp: file_kept_def intro: that [of 0])
  have "map (fs_cluster img fs') (take n cs) = map (fs_cluster img fs) (take n cs)"
    using le(2) fs_same_data_cluster [OF assms(1-3)] by (auto dest: in_set_takeD)
  moreover have "take (unat (f_offset self)) (concat (map (fs_cluster img fs) (take n cs)))
      = take (unat (f_offset self)) (concat (map (fs_cluster img fs) cs))"
    using n(2) by (intro take_concat_rows) (simp add: fs_cluster_def)
  moreover have "file_len fs' self' (file_kept fs self cs) = unat (f_offset self)" using assms(5) by (simp add: file_len_def)
  ultimately show ?thesis using le(1) n(1) by (simp add: file_content_def take_take min_absorb1 del: map_eq_conv)
qed

section \<open>Properties of open files\<close>

lemma File_seek_target_start: "File_seek_target self (Start (ucast x)) = Some x"
proof -
  have "unat (ucast x :: u64) = unat x" "ucast (ucast x :: u64) = x"
    using unsigned_less [of x, where 'a = nat] by (simp_all add: word_unat_eq_iff unsigned_ucast_eq take_bit_nat_eq_self take_bit_word_eq_self)
  then show ?thesis using unsigned_less [of x, where 'a = nat] by (simp add: File_seek_target_def word_less_nat_alt)
qed

lemma u32_add_i64_eq:
  "u32_add_i64 n x = (if 0 \<le> uint n + sint x \<and> uint n + sint x < 2 ^ 32 then Some (word_of_int (uint n + sint x)) else None)"
  by (simp add: u32_add_i64_def Let_def)

lemma File_seek_target_position:
  fixes size :: nat
  assumes size: "\<And>s. File_size self = Some s \<Longrightarrow> size = unat s"
    and q: "q = (case p of Start x \<Rightarrow> uint x | Current x \<Rightarrow> uint (f_offset self) + sint x | End x \<Rightarrow> int size + sint x)"
  shows "File_seek_target self p = (if 0 \<le> q \<and> q < 2 ^ 32 \<and> ((\<exists>x. p = End x) \<longrightarrow> File_size self \<noteq> None) then Some (word_of_int q) else None)"
proof (cases p)
  case (Start x)
  have "x < 0x100000000 \<longleftrightarrow> uint x < 2 ^ 32" by (simp add: word_less_alt)
  then show ?thesis using Start q by (simp add: File_seek_target_def)
next
  case (End x)
  then show ?thesis using q size by (cases "File_size self") (simp_all add: File_seek_target_def u32_add_i64_eq)
next
  case (Current x)
  then show ?thesis using q by (simp add: File_seek_target_def u32_add_i64_eq)
qed

lemma file_kept_clusters:
  assumes "0 < fs_cs fs"
  shows "file_kept fs self cs = take ((unat (f_offset self) + fs_cs fs - 1) div fs_cs fs) cs"
proof (cases "f_offset self = 0")
  case False
  then have "0 < unat (f_offset self)" by (simp add: unat_gt_0)
  then have o: "unat (f_offset self) + fs_cs fs - 1 = (unat (f_offset self) - 1) + fs_cs fs" by simp
  have "Suc ((unat (f_offset self) - 1) div fs_cs fs) = (unat (f_offset self) + fs_cs fs - 1) div fs_cs fs"
    unfolding o using assms div_add_self2 [of "fs_cs fs" "unat (f_offset self) - 1"] by linarith
  then show ?thesis unfolding file_kept_def if_not_P [OF False] by (rule arg_cong)
qed (use assms in \<open>simp add: file_kept_def\<close>)

lemma volume_fileD:
  assumes "volume_ok dev cap fs" "volume_file dev cap fs self cs bs"
  shows "file_ok (disk_img dev cap) fs self cs" "file_content (disk_img dev cap) fs self cs = bs" "length bs = file_len fs self cs"
    "0 < fs_cs fs" "unat (f_offset self) \<le> length bs"
proof -
  show ok: "file_ok (disk_img dev cap) fs self cs" and bs: "file_content (disk_img dev cap) fs self cs = bs"
    using assms(2) by (simp_all add: volume_file_def)
  show c: "0 < fs_cs fs" using disk.cluster_size_unat(2) [OF disk.fs_layoutD(1) [OF assms(1)]] .
  show "length bs = file_len fs self cs" using file_content_length [OF ok c] bs by simp
  then show "unat (f_offset self) \<le> length bs" using ok by (simp add: file_ok_def)
qed

text \<open>
  Property C30. Writing a buffer to a regular file with \<^verbatim>\<open>write_all\<close> replaces the bytes from the position on and makes
  the file longer when it must: afterwards the file holds its old bytes before the position, the
  bytes written, and its old bytes behind them. New clusters come from the free ones only; no
  entry of the table and no cluster outside the file changes. The write succeeds as a whole, or it
  stops with \<^verbatim>\<open>NotEnoughSpace\<close> when no cluster is free, with the bytes before that point written.
\<close>

theorem File_write_all_refines:
  assumes "volume_ok dev cap fs" "volume_file dev cap fs self cs bs" "File_size self \<noteq> None" "unat (f_offset self) + length buf < 2 ^ 32"
  shows "\<exists>r self' fs' ds k. write_all (file_stream disk_stream) buf (self, fs) = Some (r, (self', fs')) \<and> volume_ok dev cap fs'
    \<and> volume_file dev cap fs' self' (cs @ ds) (take (unat (f_offset self)) bs @ take k buf @ drop (unat (f_offset self) + k) bs)
    \<and> unat (f_offset self') = unat (f_offset self) + k
    \<and> (\<forall>d\<in>set ds. volume_table dev cap fs d = Free)
    \<and> (\<forall>d. d \<notin> set (cs @ ds) \<longrightarrow> volume_table dev cap fs' d = volume_table dev cap fs d)
    \<and> (\<forall>d. d \<notin> set (cs @ ds) \<longrightarrow> valid_cluster fs d \<longrightarrow> volume_cluster dev cap fs' d = volume_cluster dev cap fs d)
    \<and> (r = Inr () \<and> k = length buf
       \<or> r = Inl NotEnoughSpace \<and> k < length buf \<and> (\<forall>d. valid_cluster fs d \<longrightarrow> volume_table dev cap fs' d \<noteq> Free))"
proof -
  note f = volume_fileD [OF assms(1,2)]
  from disk.File_write_all_content [OF assms(1) f(1) assms(3,4)] obtain r self' fs' cs' k ds where
    w: "write_all (file_stream disk_stream) buf (self, fs) = Some (r, (self', fs'))" "volume_ok dev cap fs'"
      "file_ok (disk_img dev cap) fs' self' cs'" "cs' = cs @ ds" "unat (f_offset self') = unat (f_offset self) + k"
      "fs_outside (disk_img dev cap) cs' fs fs'" "\<forall>d\<in>set cs' - set cs. volume_table dev cap fs d = Free"
      "file_content (disk_img dev cap) fs' self' cs' = take (unat (f_offset self)) bs @ take k buf @ drop (unat (f_offset self) + k) bs"
      "r = Inr () \<and> k = length buf \<or> r = Inl NotEnoughSpace \<and> k < length buf \<and> (\<forall>d. valid_cluster fs d \<longrightarrow> volume_table dev cap fs' d \<noteq> Free)"
    unfolding f(2) by blast
  have "distinct (cs @ ds)"
    using w(3,4) fat_chain_distinct [of "volume_table dev cap fs'" "cs @ ds"] by (cases "cs @ ds") (auto simp: file_ok_def)
  with w show ?thesis
    by (intro exI [of _ r] exI [of _ self'] exI [of _ fs'] exI [of _ ds] exI [of _ k]) (auto simp: volume_file_def fs_outside_def)
qed

text \<open>
  Property C33. Reading returns the bytes at the position up to the end of the cluster or of the file, whichever
  comes first, so a read of a nonempty buffer before the end returns something and one at the end
  returns nothing. The volume does not change, and the position moves behind the bytes returned.
\<close>

theorem File_read_correct:
  assumes "volume_ok dev cap fs" "volume_file dev cap fs self cs bs"
  shows "\<exists>bytes self' fs'. File_read disk_stream n (self, fs) = Some (Inr bytes, (self', fs')) \<and> volume_ok dev cap fs'
    \<and> bytes = take (min n (fs_cs fs - unat (f_offset self) mod fs_cs fs)) (drop (unat (f_offset self)) bs)
    \<and> (bytes = [] \<longleftrightarrow> n = 0 \<or> unat (f_offset self) = length bs)
    \<and> unat (f_offset self') = unat (f_offset self) + length bytes
    \<and> volume_file dev cap fs' self' cs bs \<and> volume_quiet dev cap fs fs'"
proof -
  note f = volume_fileD [OF assms]
  let ?o = "unat (f_offset self)" and ?c = "fs_cs fs"
  define k where "k = min n (min (?c - ?o mod ?c) (file_len fs self cs - ?o))"
  from disk.File_read_ok [OF assms(1) f(1) k_def] obtain self' fs' where
    r: "File_read disk_stream n (self, fs) = Some (Inr (bytes_at (file_byte (disk_img dev cap) fs cs) ?o k), (self', fs'))"
      "volume_ok dev cap fs'" "fs_quiet (disk_img dev cap) fs fs'" "fs_fs_info fs' = fs_fs_info fs" "file_ok (disk_img dev cap) fs' self' cs"
      "unat (f_offset self') = ?o + k" "File_size self' = File_size self" "f_first_cluster self' = f_first_cluster self"
      "File_is_dir self' = File_is_dir self" .
  have k: "?o + k \<le> file_len fs self cs" "?o \<le> file_len fs self cs" using f(3,5) by (simp_all add: k_def)
  have bytes: "bytes_at (file_byte (disk_img dev cap) fs cs) ?o k = take (min n (?c - ?o mod ?c)) (drop ?o bs)"
  proof -
    have "k = min (min n (?c - ?o mod ?c)) (length (drop ?o bs))" using f(3) by (simp add: k_def min.assoc)
    then have "take k (drop ?o bs) = take (min n (?c - ?o mod ?c)) (drop ?o bs)" by (simp add: min_def)
    then show ?thesis using file_content_part [OF f(1,4) k(1)] f(2) by simp
  qed
  have "?o mod ?c < ?c" using f(4) by simp
  then have "take (min n (?c - ?o mod ?c)) (drop ?o bs) = [] \<longleftrightarrow> n = 0 \<or> ?o = length bs" using f(5) by auto
  moreover have "length (take (min n (?c - ?o mod ?c)) (drop ?o bs)) = k" using f(3) by (simp add: k_def min.assoc min.commute min.left_commute)
  moreover have "file_len fs' self' cs = file_len fs self cs"
    using r(3,7) by (simp add: file_len_def fs_quiet_def fs_frame_simps split: option.splits)
  then have "volume_file dev cap fs' self' cs bs"
    using file_content_quiet [OF disk.fs_layoutD(1) [OF assms(1)] r(3) f(1) r(5) _ f(4)] f(2) r(5) by (simp add: volume_file_def)
  ultimately show ?thesis using r bytes fs_quiet_volume [OF assms(1) r(3)]
    by (intro exI [of _ "bytes_at (file_byte (disk_img dev cap) fs cs) ?o k"] exI [of _ self'] exI [of _ fs']) simp
qed

text \<open>
  Property C34. Seeking. The position asked for is the integer \<^term>\<open>q\<close>: the offset given, or its sum with the
  current position or with the size of the file. When it is not negative and fits in 32 bits, the file moves
  there, or to its end when that comes first, and the new position is returned; the volume does not change.
  Otherwise, and for a position relative to the end of a file without a size (a directory), the result is
  \<^verbatim>\<open>InvalidInput\<close>, and neither the file nor the volume changes.
\<close>

theorem File_seek_correct:
  assumes "volume_ok dev cap fs" "volume_file dev cap fs self cs bs"
    and q: "q = (case p of Start x \<Rightarrow> uint x | Current x \<Rightarrow> uint (f_offset self) + sint x | End x \<Rightarrow> int (length bs) + sint x)"
  shows "if 0 \<le> q \<and> q < 2 ^ 32 \<and> ((\<exists>x. p = End x) \<longrightarrow> File_size self \<noteq> None)
    then \<exists>self' fs'. File_seek disk_stream p (self, fs) = Some (Inr (word_of_nat (min (nat q) (length bs))), (self', fs'))
        \<and> unat (f_offset self') = min (nat q) (length bs) \<and> volume_ok dev cap fs' \<and> volume_file dev cap fs' self' cs bs
        \<and> volume_quiet dev cap fs fs'
    else File_seek disk_stream p (self, fs) = Some (Inl InvalidInput, (self, fs))"
proof -
  note f = volume_fileD [OF assms(1,2)]
  have "length bs = unat s" if "File_size self = Some s" for s using that f(3) by (simp add: file_len_def)
  note target = File_seek_target_position [OF this q]
  show ?thesis
  proof (cases "0 \<le> q \<and> q < 2 ^ 32 \<and> ((\<exists>x. p = End x) \<longrightarrow> File_size self \<noteq> None)")
    case False
    have "File_seek_target self p = None" by (rule trans [OF target if_not_P [OF False]])
    then show ?thesis unfolding if_not_P [OF False] by (simp add: File_seek_def Let_def io_err_def)
  next
    case True
    have Some: "File_seek_target self p = Some (word_of_int q)" by (rule trans [OF target if_P [OF True]])
    have t: "unat (word_of_int q :: u32) = nat q" using True by (simp add: unat_eq_nat_uint uint_word_of_int_eq take_bit_int_eq_self)
    from disk.File_seek_ok [OF assms(1) f(1) Some] obtain self' fs' where
      r: "File_seek disk_stream p (self, fs) = Some (Inr (ucast (f_offset self')), (self', fs'))" "volume_ok dev cap fs'"
        "fs_quiet (disk_img dev cap) fs fs'" "fs_fs_info fs' = fs_fs_info fs" "file_ok (disk_img dev cap) fs' self' cs"
        "unat (f_offset self') = min (unat (word_of_int q :: u32)) (file_len fs self cs)" "f_entry self' = f_entry self" "f_first_cluster self' = f_first_cluster self" .
    have "file_len fs' self' cs = file_len fs self cs"
      using r(3,7) by (simp add: file_len_def File_size_def fs_quiet_def fs_frame_simps split: option.splits)
    then have "volume_file dev cap fs' self' cs bs"
      using file_content_quiet [OF disk.fs_layoutD(1) [OF assms(1)] r(3) f(1) r(5) _ f(4)] f(2) r(5) by (simp add: volume_file_def)
    moreover have o: "unat (f_offset self') = min (nat q) (length bs)" using r(6) unfolding t f(3) .
    moreover have "(ucast (f_offset self') :: u64) = word_of_nat (unat (f_offset self'))" by simp
    ultimately show ?thesis unfolding if_P [OF True] using r(1,2) fs_quiet_volume [OF assms(1) r(3)]
      by (intro exI [of _ self'] exI [of _ fs']) (simp only: simp_thms)
  qed
qed

text \<open>
  Property C32. Truncating a regular file keeps exactly its bytes before the position and exactly the \<^term>\<open>n\<close> clusters
  that these bytes need, the position divided by the cluster size and rounded up: every later cluster of the chain becomes
  free, the last one kept ends the chain, and no other entry of the table and no cluster's bytes
  change. Truncating at the start frees every cluster.
\<close>

theorem File_truncate_correct:
  assumes "volume_ok dev cap fs" "volume_file dev cap fs self cs bs" "File_size self \<noteq> None"
    and n: "n = (unat (f_offset self) + fs_cs fs - 1) div fs_cs fs"
  shows "\<exists>self' fs'. File_truncate disk_stream (self, fs) = Some (Inr (), (self', fs')) \<and> volume_ok dev cap fs'
    \<and> volume_file dev cap fs' self' (take n cs) (take (unat (f_offset self)) bs)
    \<and> f_offset self' = f_offset self \<and> File_size self' = Some (f_offset self)
    \<and> (\<forall>d. volume_table dev cap fs' d = (if d \<in> set (drop n cs) then Free
         else if 0 < n \<and> d = last (take n cs) then EndOfChain else volume_table dev cap fs d))
    \<and> (\<forall>c. valid_cluster fs c \<longrightarrow> volume_cluster dev cap fs' c = volume_cluster dev cap fs c)"
proof -
  note f = volume_fileD [OF assms(1,2)] and l = disk.fs_layoutD(1) [OF assms(1)]
  obtain sz where sz: "File_size self = Some sz" using assms(3) by blast
  have ks: "file_kept fs self cs = take n cs" unfolding n by (rule file_kept_clusters [OF f(4)])
  from disk.File_truncate_content [OF assms(1) f(1) sz, unfolded ks] obtain self' fs' where
    t: "File_truncate disk_stream (self, fs) = Some (Inr (), (self', fs'))" "volume_ok dev cap fs'" "fs_frame fs fs'" "fs_same_data (disk_img dev cap) fs fs'"
      "file_ok (disk_img dev cap) fs' self' (take n cs)" "f_offset self' = f_offset self" "File_size self' = Some (f_offset self)"
      "\<forall>d. volume_table dev cap fs' d = (if d \<in> set cs - set (take n cs) then Free
         else if take n cs \<noteq> [] \<and> d = last (take n cs) then EndOfChain else volume_table dev cap fs d)" .
  have "distinct cs" using f(1) fat_chain_distinct [of "volume_table dev cap fs" cs] by (cases cs) (auto simp: file_ok_def)
  then have "set (take n cs) \<inter> set (drop n cs) = {}" by (intro set_take_disj_set_drop_if_distinct) simp_all
  moreover have "set cs = set (take n cs) \<union> set (drop n cs)" unfolding set_append [symmetric] append_take_drop_id ..
  ultimately have dd: "set cs - set (take n cs) = set (drop n cs)" by blast
  have "cs \<noteq> []" if "0 < n"
  proof
    assume "cs = []"
    then have "unat (f_offset self) = 0" using f(1) by (simp add: file_ok_def)
    then show False using that f(4) by (simp add: n)
  qed
  then have ne: "take n cs \<noteq> [] \<longleftrightarrow> 0 < n" by auto
  have "file_content (disk_img dev cap) fs' self' (take n cs) = take (unat (f_offset self)) bs"
    using file_content_kept [OF l t(3,4) f(1) t(7) f(4)] f(2) by (simp add: ks)
  then have "volume_file dev cap fs' self' (take n cs) (take (unat (f_offset self)) bs)" using t(5) by (simp add: volume_file_def)
  then show ?thesis using t(1,2,6,7) t(8) [unfolded dd ne] fs_same_data_cluster [OF l t(3,4)]
    by (intro exI [of _ self'] exI [of _ fs'] conjI) simp_all
qed

text \<open>
  Property C31. What is written can be read back: writing a buffer to a regular file, seeking to where it was
  written and reading as many bytes returns the buffer, for every buffer and position, across
  clusters and beyond the old end of the file. The sequence fails only when the volume is full.
\<close>

theorem File_write_seek_read:
  assumes "volume_ok dev cap fs" "volume_file dev cap fs self cs bs" "File_size self \<noteq> None" "unat (f_offset self) + length buf < 2 ^ 32"
  shows "\<exists>r self' fs'. io_bind (write_all (file_stream disk_stream) buf) (\<lambda>_.
      io_bind (File_seek disk_stream (Start (ucast (f_offset self)))) (\<lambda>_.
      read_exact (file_stream disk_stream) (length buf))) (self, fs) = Some (r, (self', fs')) \<and> volume_ok dev cap fs'
    \<and> (r = Inr buf \<or> r = Inl NotEnoughSpace \<and> (\<forall>d. valid_cluster fs d \<longrightarrow> volume_table dev cap fs' d \<noteq> Free))"
proof -
  note f = volume_fileD [OF assms(1,2)]
  let ?o = "unat (f_offset self)" and ?img = "disk_img dev cap"
  from disk.File_write_all_content [OF assms(1) f(1) assms(3,4)] obtain r self1 fs1 cs1 k where
    w: "write_all (file_stream disk_stream) buf (self, fs) = Some (r, (self1, fs1))" "volume_ok dev cap fs1" "file_ok ?img fs1 self1 cs1"
      "file_content ?img fs1 self1 cs1 = take ?o bs @ take k buf @ drop (?o + k) bs"
      "r = Inr () \<and> k = length buf \<or> r = Inl NotEnoughSpace \<and> k < length buf \<and> (\<forall>d. valid_cluster fs d \<longrightarrow> volume_table dev cap fs1 d \<noteq> Free)"
    unfolding f(2) by blast
  show ?thesis
  proof (cases "r = Inr ()")
    case True
    then have k: "k = length buf" using w(5) by simp
    note f1 = volume_fileD [OF w(2), of self1 cs1, unfolded volume_file_def, OF conjI [OF w(3) refl]]
    have len: "?o + length buf \<le> file_len fs1 self1 cs1" using f1(3) w(4) f(5) k by simp
    have "File_seek_target self1 (Start (ucast (f_offset self))) = Some (f_offset self)"
      by (rule File_seek_target_start)
    from disk.File_seek_ok [OF w(2,3) this] obtain self2 fs2 where
      s: "File_seek disk_stream (Start (ucast (f_offset self))) (self1, fs1) = Some (Inr (ucast (f_offset self2)), (self2, fs2))"
        "volume_ok dev cap fs2" "fs_quiet ?img fs1 fs2" "fs_fs_info fs2 = fs_fs_info fs1" "file_ok ?img fs2 self2 cs1"
        "unat (f_offset self2) = min ?o (file_len fs1 self1 cs1)" "f_entry self2 = f_entry self1" "f_first_cluster self2 = f_first_cluster self1" .
    have len2: "file_len fs2 self2 cs1 = file_len fs1 self1 cs1"
      using s(3,7) by (simp add: file_len_def File_size_def fs_quiet_def fs_frame_simps split: option.splits)
    note f2 = volume_fileD [OF s(2), of self2 cs1, unfolded volume_file_def, OF conjI [OF s(5) refl]]
    have c2: "file_content ?img fs2 self2 cs1 = take ?o bs @ buf @ drop (?o + length buf) bs"
      using file_content_quiet [OF disk.fs_layoutD(1) [OF w(2)] s(3) w(3) s(5) len2 f1(4)] w(4) k by simp
    have pos: "file_pos (self2, fs2) = ?o" using s(6) len by (simp add: file_pos_def)
    have st2: "file_state (disk_ok dev cap) ?img (512 * unat cap) cs1 (file_len fs1 self1 cs1) (self2, fs2)"
      using s(2,5) len2 by (simp add: file_state_def)
    from disk.fat_file.read_exact_law [OF st2, of "length buf"] assms(4) len pos obtain self3 fs3 where
      rd: "read_exact (file_stream disk_stream) (length buf) (self2, fs2)
          = Some (Inr (bytes_at (file_img ?img cs1 (file_len fs1 self1 cs1) (self2, fs2)) ?o (length buf)), (self3, fs3))"
        "volume_ok dev cap fs3" by (fastforce simp: file_state_def)
    have "bytes_at (file_img ?img cs1 (file_len fs1 self1 cs1) (self2, fs2)) ?o (length buf) = bytes_at (file_byte ?img fs2 cs1) ?o (length buf)"
      using len by (intro bytes_at_cong) (simp add: file_img_def)
    also have "\<dots> = buf" using file_content_part [OF s(5) f2(4), of ?o "length buf"] len len2 c2 f(5) by simp
    finally show ?thesis using w(1) s(1) rd True by simp
  next
    case False
    then show ?thesis using w(1,2,5) by auto
  qed
qed

section \<open>A file of the example volume\<close>

definition example_file :: File where
  "example_file = File_new (Some 2) (Some (DirEntryEditor_new example_entry 1536))"

lemma example_file_sel: "f_first_cluster example_file = Some 2" "f_current_cluster example_file = None" "f_offset example_file = 0"
  "f_entry example_file = Some (DirEntryEditor_new example_entry 1536)" "File_size example_file = Some 700"
proof -
  show "File_size example_file = Some 700" by code_simp
qed (simp_all add: example_file_def File_new_def)

lemma example_file_ok: "\<exists>bs. volume_file ram_device 8 example_fs example_file [2, 3] bs \<and> length bs = 700"
proof -
  have c: "fs_cs example_fs = 512" by (simp add: fs_cs_def example_fs_sel)
  have "file_ok (disk_img ram_device 8) example_fs example_file [2, 3]"
    by (simp add: file_ok_def example_file_sel file_len_def c example_fs_table valid_cluster_def example_fs_sel DirEntryEditor_new_def) code_simp
  then show ?thesis using file_content_length [of _ example_fs example_file "[2, 3]"] by (simp add: volume_file_def c file_len_def example_file_sel)
qed

theorem File_write_all_refines_witness:
  "\<exists>r self' fs'. write_all (file_stream disk_stream) [1, 2, 3] (example_file, example_fs) = Some (r, (self', fs'))
     \<and> volume_table ram_device 8 example_fs 2 = Data 3 \<and> (r = Inr () \<or> r = Inl NotEnoughSpace) \<and> volume_ok ram_device 8 fs'"
proof -
  obtain bs where "volume_file ram_device 8 example_fs example_file [2, 3] bs" using example_file_ok by blast
  from File_write_all_refines [OF example_fs_ok this, of "[1, 2, 3]"] show ?thesis by (auto simp: example_file_sel example_fs_table)
qed

theorem File_read_correct_witness:
  "\<exists>bytes self' fs'. File_read disk_stream 600 (example_file, example_fs) = Some (Inr bytes, (self', fs')) \<and> length bytes = 512
     \<and> unat (f_offset self') = 512"
proof -
  obtain bs where "volume_file ram_device 8 example_fs example_file [2, 3] bs" "length bs = 700" using example_file_ok by blast
  from File_read_correct [OF example_fs_ok this(1), of 600] this(2) show ?thesis
    by (auto simp: example_file_sel fs_cs_def example_fs_sel)
qed

theorem File_seek_correct_witness:
  "(\<exists>self' fs'. File_seek disk_stream (End (- 100)) (example_file, example_fs) = Some (Inr 600, (self', fs')) \<and> unat (f_offset self') = 600)
   \<and> File_seek disk_stream (Start 0x100000000) (example_file, example_fs) = Some (Inl InvalidInput, (example_file, example_fs))
   \<and> File_seek disk_stream (Current (- 1)) (example_file, example_fs) = Some (Inl InvalidInput, (example_file, example_fs))"
proof -
  obtain bs where b: "volume_file ram_device 8 example_fs example_file [2, 3] bs" "length bs = 700" using example_file_ok by blast
  note s = File_seek_correct [OF example_fs_ok b(1) refl, unfolded b(2)]
  have "File_size example_file = Some 700" "f_offset example_file = 0" by code_simp+
  then show ?thesis using s [of "End (- 100)"] s [of "Start 0x100000000"] s [of "Current (- 1)"] by (auto simp: min_def)
qed

lemma example_file_at_ok:
  "\<exists>bs. volume_file ram_device 8 example_fs (example_file\<lparr>f_offset := 100, f_current_cluster := Some 2\<rparr>) [2, 3] bs"
proof -
  have c: "fs_cs example_fs = 512" by (simp add: fs_cs_def example_fs_sel)
  have z: "File_size (example_file\<lparr>f_offset := 100, f_current_cluster := Some 2\<rparr>) = Some 700" using example_file_sel(5) by (simp add: File_size_def)
  have "file_ok (disk_img ram_device 8) example_fs (example_file\<lparr>f_offset := 100, f_current_cluster := Some 2\<rparr>) [2, 3]"
    by (simp add: file_ok_def example_file_sel file_len_def z c example_fs_table valid_cluster_def example_fs_sel DirEntryEditor_new_def) code_simp
  then show ?thesis by (simp add: volume_file_def)
qed

theorem File_truncate_correct_witness:
  "\<exists>self' fs'. File_truncate disk_stream (example_file\<lparr>f_offset := 100, f_current_cluster := Some 2\<rparr>, example_fs) = Some (Inr (), (self', fs'))
     \<and> File_size self' = Some 100 \<and> volume_table ram_device 8 fs' 2 = EndOfChain \<and> volume_table ram_device 8 fs' 3 = Free"
proof -
  obtain bs where b: "volume_file ram_device 8 example_fs (example_file\<lparr>f_offset := 100, f_current_cluster := Some 2\<rparr>) [2, 3] bs"
    using example_file_at_ok by blast
  have z: "File_size (example_file\<lparr>f_offset := 100, f_current_cluster := Some 2\<rparr>) \<noteq> None" using example_file_sel(5) by (simp add: File_size_def)
  have "1 = (unat (f_offset (example_file\<lparr>f_offset := 100, f_current_cluster := Some 2\<rparr>)) + fs_cs example_fs - 1) div fs_cs example_fs"
    by (simp add: fs_cs_def example_fs_sel)
  from File_truncate_correct [OF example_fs_ok b z this] show ?thesis by auto
qed

theorem File_write_seek_read_witness:
  "\<exists>r self' fs'. io_bind (write_all (file_stream disk_stream) [1, 2, 3]) (\<lambda>_.
      io_bind (File_seek disk_stream (Start (ucast (f_offset example_file)))) (\<lambda>_.
      read_exact (file_stream disk_stream) (length [1 :: u8, 2, 3]))) (example_file, example_fs) = Some (r, (self', fs'))
    \<and> (r = Inr [1, 2, 3] \<or> r = Inl NotEnoughSpace)"
proof -
  obtain bs where "volume_file ram_device 8 example_fs example_file [2, 3] bs" using example_file_ok by blast
  from File_write_seek_read [OF example_fs_ok this, of "[1, 2, 3]"] show ?thesis by (auto simp: example_file_sel)
qed

end
