(* ===== verification/Fat_Names.thy ===== *)
theory Fat_Names
  imports Fat_Dir_Entry
begin

text \<open>
  Names in directories (\<^verbatim>\<open>rust-fatfs/src/dir.rs\<close>): the entries a long name is spread over and the
  builder that puts it together again, and the generator of short names that avoids the names a
  directory has.
\<close>

section \<open>Checks and checksums\<close>

definition LFN_PADDING :: u16 where "LFN_PADDING = 0xFFFF"
definition MAX_LONG_NAME_LEN :: nat where "MAX_LONG_NAME_LEN = 255"
definition MAX_LONG_DIR_ENTRIES :: nat where "MAX_LONG_DIR_ENTRIES = (MAX_LONG_NAME_LEN + LFN_PART_LEN - 1) div LFN_PART_LEN"

definition len_utf8 :: "rchar \<Rightarrow> nat" where
  "len_utf8 c = (if c < 0x80 then 1 else if c < 0x800 then 2 else if c < 0x10000 then 3 else 4)"

definition str_len :: "rchar list \<Rightarrow> nat" where
  "str_len name = sum_list (map len_utf8 name)"

definition long_name_char :: "rchar \<Rightarrow> bool" where
  "long_name_char c \<longleftrightarrow> 0x61 \<le> c \<and> c \<le> 0x7A \<or> 0x41 \<le> c \<and> c \<le> 0x5A \<or> 0x30 \<le> c \<and> c \<le> 0x39 \<or> 0x80 \<le> c \<and> c \<le> 0xFFFF
     \<or> c \<in> {0x24, 0x25, 0x27, 0x2D, 0x5F, 0x40, 0x7E, 0x60, 0x21, 0x28, 0x29, 0x7B, 0x7D, 0x2E, 0x20, 0x2B, 0x2C, 0x3B, 0x3D, 0x5B, 0x5D, 0x5E, 0x23, 0x26}"

definition validate_long_name :: "rchar list \<Rightarrow> Error + unit" where
  "validate_long_name name =
     (if name = [] then Inl InvalidFileNameLength
      else if str_len name > MAX_LONG_NAME_LEN then Inl InvalidFileNameLength
      else if list_all long_name_char name then Inr () else Inl UnsupportedFileNameCharacter)"

definition lfn_checksum :: "u8 list \<Rightarrow> u8" where
  "lfn_checksum short_name = foldl (\<lambda>chksum b. push_bit 7 chksum + drop_bit 1 chksum + b) 0 short_name"

section \<open>Putting long names together\<close>

record LfnBuffer =
  lb_ucs2_units :: "u16 list"

definition LfnBuffer_new :: LfnBuffer where
  "LfnBuffer_new = \<lparr>lb_ucs2_units = []\<rparr>"

definition LfnBuffer_from_ucs2_units :: "u16 list \<Rightarrow> LfnBuffer" where
  "LfnBuffer_from_ucs2_units ucs2_units = \<lparr>lb_ucs2_units = ucs2_units\<rparr>"

definition LfnBuffer_clear :: "LfnBuffer \<Rightarrow> LfnBuffer" where
  "LfnBuffer_clear self = self\<lparr>lb_ucs2_units := []\<rparr>"

definition LfnBuffer_len :: "LfnBuffer \<Rightarrow> nat" where
  "LfnBuffer_len self = length (lb_ucs2_units self)"

definition LfnBuffer_set_len :: "nat \<Rightarrow> LfnBuffer \<Rightarrow> LfnBuffer" where
  "LfnBuffer_set_len len self =
     self\<lparr>lb_ucs2_units := take len (lb_ucs2_units self) @ replicate (len - length (lb_ucs2_units self)) 0\<rparr>"

definition LfnBuffer_as_ucs2_units :: "LfnBuffer \<Rightarrow> u16 list" where
  "LfnBuffer_as_ucs2_units self = lb_ucs2_units self"

record LongNameBuilder =
  lnb_buf :: LfnBuffer
  lnb_chksum :: u8
  lnb_index :: u8

definition LongNameBuilder_new :: LongNameBuilder where
  "LongNameBuilder_new = \<lparr>lnb_buf = LfnBuffer_new, lnb_chksum = 0, lnb_index = 0\<rparr>"

definition LongNameBuilder_clear :: "LongNameBuilder \<Rightarrow> LongNameBuilder" where
  "LongNameBuilder_clear self = self\<lparr>lnb_buf := LfnBuffer_clear (lnb_buf self), lnb_index := 0\<rparr>"

definition LongNameBuilder_truncate :: "LongNameBuilder \<Rightarrow> LongNameBuilder" where
  "LongNameBuilder_truncate self =
     (let new_len = rposition_end (\<lambda>c. c \<noteq> 0xFFFF \<and> c \<noteq> 0) (lb_ucs2_units (lnb_buf self))
      in self\<lparr>lnb_buf := LfnBuffer_set_len new_len (lnb_buf self)\<rparr>)"

definition LongNameBuilder_is_empty :: "LongNameBuilder \<Rightarrow> bool" where
  "LongNameBuilder_is_empty self \<longleftrightarrow> lnb_index self = 0"

definition LongNameBuilder_into_buf :: "LongNameBuilder \<Rightarrow> LfnBuffer" where
  "LongNameBuilder_into_buf self =
     lnb_buf (if lnb_index self = 1 then LongNameBuilder_truncate self
              else if \<not> LongNameBuilder_is_empty self then LongNameBuilder_clear self
              else self)"

text \<open>The slice of the buffer that an entry is copied to exists, or the code panics.\<close>

definition LongNameBuilder_process :: "DirLfnEntryData \<Rightarrow> LongNameBuilder \<Rightarrow> LongNameBuilder option" where
  "LongNameBuilder_process data self =
     (let is_last = dle_order data AND LFN_ENTRY_LAST_FLAG \<noteq> 0;
          index = dle_order data AND 0x1F;
          copy = (\<lambda>self. let pos = LFN_PART_LEN * unat (index - 1); units = lb_ucs2_units (lnb_buf self) in
             if pos + 13 \<le> length units then
               Some (self\<lparr>lnb_buf := \<lparr>lb_ucs2_units = overwrite units pos (copy_name_to_slice data (take 13 (drop pos units)))\<rparr>\<rparr>)
             else None)
      in if index = 0 \<or> unat index > MAX_LONG_DIR_ENTRIES then Some (LongNameBuilder_clear self)
         else if is_last then
           copy (self\<lparr>lnb_index := index, lnb_chksum := dle_checksum data,
                   lnb_buf := LfnBuffer_set_len (unat index * LFN_PART_LEN) (lnb_buf self)\<rparr>)
         else if lnb_index self = 0 \<or> index \<noteq> lnb_index self - 1 \<or> dle_checksum data \<noteq> lnb_chksum self then
           Some (LongNameBuilder_clear self)
         else copy (self\<lparr>lnb_index := lnb_index self - 1\<rparr>))"

definition LongNameBuilder_validate_chksum :: "u8 list \<Rightarrow> LongNameBuilder \<Rightarrow> LongNameBuilder" where
  "LongNameBuilder_validate_chksum short_name self =
     (if LongNameBuilder_is_empty self then self
      else if lfn_checksum short_name \<noteq> lnb_chksum self then LongNameBuilder_clear self else self)"

section \<open>Spreading a long name over entries\<close>

function chunks :: "nat \<Rightarrow> 'a list \<Rightarrow> 'a list list" where
  "chunks n xs = (if n = 0 \<or> xs = [] then [] else take n xs # chunks n (drop n xs))"
  by auto
termination by (relation "measure (\<lambda>(n, xs). length xs)") auto

declare chunks.simps [simp del]

record LfnEntriesGenerator =
  leg_name_parts_iter :: "u16 list list"
  leg_checksum :: u8
  leg_index :: nat
  leg_num :: nat
  leg_ended :: bool

definition LfnEntriesGenerator_new :: "u16 list \<Rightarrow> u8 \<Rightarrow> LfnEntriesGenerator" where
  "LfnEntriesGenerator_new name_utf16 checksum =
     \<lparr>leg_name_parts_iter = rev (chunks LFN_PART_LEN name_utf16), leg_checksum = checksum, leg_index = 0,
      leg_num = (length name_utf16 + LFN_PART_LEN - 1) div LFN_PART_LEN, leg_ended = False\<rparr>"

definition lfn_part :: "u16 list \<Rightarrow> u16 list" where
  "lfn_part name_part =
     (let part = overwrite (replicate LFN_PART_LEN LFN_PADDING) 0 name_part
      in if length name_part < LFN_PART_LEN then part[length name_part := 0] else part)"

definition LfnEntriesGenerator_next :: "LfnEntriesGenerator \<Rightarrow> DirLfnEntryData option \<times> LfnEntriesGenerator" where
  "LfnEntriesGenerator_next self =
     (if leg_ended self then (None, self)
      else case leg_name_parts_iter self of
        name_part # rest \<Rightarrow>
          (let lfn_index = leg_num self - leg_index self;
               order = (word_of_nat lfn_index :: u8);
               order = (if leg_index self = 0 then order OR LFN_ENTRY_LAST_FLAG else order)
           in (Some (copy_name_from_slice (lfn_part name_part) (DirLfnEntryData_new order (leg_checksum self))),
               self\<lparr>leg_name_parts_iter := rest, leg_index := leg_index self + 1\<rparr>))
      | [] \<Rightarrow> (None, self\<lparr>leg_ended := True\<rparr>))"

definition LfnEntriesGenerator_size_hint :: "LfnEntriesGenerator \<Rightarrow> nat \<times> nat option" where
  "LfnEntriesGenerator_size_hint self = (length (leg_name_parts_iter self), Some (length (leg_name_parts_iter self)))"

text \<open>The entries that the loop over a generator sees.\<close>

function lfn_entries :: "LfnEntriesGenerator \<Rightarrow> DirLfnEntryData list" where
  "lfn_entries gen = (case LfnEntriesGenerator_next gen of (None, _) \<Rightarrow> [] | (Some e, gen) \<Rightarrow> e # lfn_entries gen)"
  by auto
termination
  by (relation "measure (\<lambda>gen. length (leg_name_parts_iter gen))")
    (auto simp: LfnEntriesGenerator_next_def Let_def split: if_splits list.splits)

declare lfn_entries.simps [simp del]

section \<open>Long names survive\<close>

lemma chunks_Nil [simp]: "chunks n [] = []"
  by (simp add: chunks.simps)

lemma chunks_step: "0 < n \<Longrightarrow> xs \<noteq> [] \<Longrightarrow> chunks n xs = take n xs # chunks n (drop n xs)"
  by (simp add: chunks.simps [of n xs])

lemma concat_chunks: "0 < n \<Longrightarrow> concat (chunks n xs) = xs"
proof (induction n xs rule: chunks.induct)
  case (1 n xs)
  then show ?case by (cases "xs = []") (simp_all add: chunks_step)
qed

lemma length_chunks: "0 < n \<Longrightarrow> length (chunks n xs) = (length xs + n - 1) div n"
proof (induction n xs rule: chunks.induct)
  case (1 n xs)
  show ?case
  proof (cases "xs = []")
    case False
    then have "length (chunks n xs) = Suc ((length xs - n + n - 1) div n)" using 1 by (simp add: chunks_step)
    also have "\<dots> = (length xs + n - 1) div n"
    proof (cases "length xs \<le> n")
      case True
      obtain m where m: "length xs = Suc m" using False by (cases xs) auto
      then have "(length xs + n - 1) div n = 1" using True 1(2) div_add_self2 [of n m] by simp
      then show ?thesis using True 1(2) by simp
    next
      case False
      then obtain d where d: "length xs = n + d" using le_Suc_ex [of n "length xs"] by auto
      obtain m where m: "n = Suc m" using 1(2) by (cases n) auto
      have "length xs + n - 1 = n + (d + m)" "length xs - n + n - 1 = d + m" using d m by simp_all
      then show ?thesis using 1(2) by (simp only: div_add_self1)
    qed
    finally show ?thesis .
  qed (use 1(2) in simp)
qed

lemma chunks_part_length: "0 < n \<Longrightarrow> c \<in> set (chunks n xs) \<Longrightarrow> 0 < length c \<and> length c \<le> n"
proof (induction n xs rule: chunks.induct)
  case (1 n xs)
  then show ?case by (cases "xs = []") (auto simp: chunks_step)
qed

lemma length_lfn_part [simp]: "length c \<le> 13 \<Longrightarrow> length (lfn_part c) = 13"
  by (simp add: lfn_part_def LFN_PART_LEN_def Let_def overwrite_def)

lemma copy_name_slices:
  "length p = 13 \<Longrightarrow> length q = 13 \<Longrightarrow> copy_name_to_slice (copy_name_from_slice p d) q = p"
proof -
  assume p: "length p = 13" and q: "length q = 13"
  have "take 5 p @ take 6 (drop 5 p) @ take 2 (drop 11 p) = p"
  proof -
    have "take 6 (drop 5 p) @ take 2 (drop 11 p) = drop 5 p"
      using p append_take_drop_id [of 6 "drop 5 p"] by simp
    then show ?thesis by simp
  qed
  then show ?thesis using p q by (simp add: copy_name_to_slice_def copy_name_from_slice_def overwrite_def)
qed

definition lfn_entry :: "u8 \<Rightarrow> nat \<Rightarrow> nat \<Rightarrow> u16 list \<Rightarrow> DirLfnEntryData" where
  "lfn_entry ck num k part = copy_name_from_slice (lfn_part part)
     (DirLfnEntryData_new (if k = num then word_of_nat k OR LFN_ENTRY_LAST_FLAG else word_of_nat k) ck)"

lemma lfn_entries_parts:
  assumes "leg_name_parts_iter gen = rev cs" "leg_num gen = leg_index gen + length cs" "\<not> leg_ended gen"
  shows "lfn_entries gen = map (\<lambda>k. lfn_entry (leg_checksum gen) (leg_num gen) (Suc k) (cs ! k)) (rev [0..<length cs])"
  using assms
proof (induction cs arbitrary: gen rule: rev_induct)
  case Nil
  then show ?case by (subst lfn_entries.simps) (simp add: LfnEntriesGenerator_next_def)
next
  case (snoc c cs)
  let ?gen = "gen\<lparr>leg_name_parts_iter := rev cs, leg_index := leg_index gen + 1\<rparr>"
  have "LfnEntriesGenerator_next gen = (Some (lfn_entry (leg_checksum gen) (leg_num gen) (Suc (length cs)) c), ?gen)"
    using snoc.prems by (auto simp: LfnEntriesGenerator_next_def lfn_entry_def Let_def)
  then have "lfn_entries gen = lfn_entry (leg_checksum gen) (leg_num gen) (Suc (length cs)) c # lfn_entries ?gen"
    by (subst lfn_entries.simps) simp
  also have "lfn_entries ?gen = map (\<lambda>k. lfn_entry (leg_checksum gen) (leg_num gen) (Suc k) (cs ! k)) (rev [0..<length cs])"
    using snoc.IH [of ?gen] snoc.prems by simp
  finally show ?case by (simp add: nth_append)
qed

fun process_all :: "DirLfnEntryData list \<Rightarrow> LongNameBuilder \<Rightarrow> LongNameBuilder option" where
  "process_all [] b = Some b"
| "process_all (e # es) b = do { b \<leftarrow> LongNameBuilder_process e b; process_all es b }"

lemma lfn_order:
  assumes "0 < k" "k \<le> 20"
  shows "(word_of_nat k OR 0x40 :: u8) AND 0x40 \<noteq> 0" "(word_of_nat k OR 0x40 :: u8) AND 0x1F = word_of_nat k"
    "(word_of_nat k :: u8) AND 0x40 = 0" "(word_of_nat k :: u8) AND 0x1F = word_of_nat k" "unat (word_of_nat k :: u8) = k"
    "unat (word_of_nat k - 1 :: u8) = k - 1" "(word_of_nat k :: u8) \<noteq> 0"
proof -
  have "k \<in> set [1..<21]" using assms by auto
  then show "(word_of_nat k OR 0x40 :: u8) AND 0x40 \<noteq> 0" "(word_of_nat k OR 0x40 :: u8) AND 0x1F = word_of_nat k"
    "(word_of_nat k :: u8) AND 0x40 = 0" "(word_of_nat k :: u8) AND 0x1F = word_of_nat k" "unat (word_of_nat k :: u8) = k"
    "unat (word_of_nat k - 1 :: u8) = k - 1" "(word_of_nat k :: u8) \<noteq> 0"
    by (auto simp: upt_rec)
qed

text \<open>The builder after the entries down to index \<^term>\<open>k\<close> were processed: the parts from there on are in place.\<close>

definition lnb_at :: "u16 list list \<Rightarrow> u8 \<Rightarrow> nat \<Rightarrow> LongNameBuilder \<Rightarrow> bool" where
  "lnb_at ps ck k b \<longleftrightarrow> lnb_index b = word_of_nat k \<and> lnb_chksum b = ck
     \<and> (\<exists>pre. length pre = 13 * (k - 1) \<and> lb_ucs2_units (lnb_buf b) = pre @ concat (drop (k - 1) ps))"

lemma length_concat_parts: "(\<forall>p\<in>set ps. length p = n) \<Longrightarrow> length (concat ps) = n * length ps"
  by (induction ps) auto

lemma process_first:
  assumes "0 < num" "num \<le> 20" "length part \<le> 13"
  obtains b' where "LongNameBuilder_process (lfn_entry ck num num part) b = Some b'"
    "lnb_index b' = word_of_nat num" "lnb_chksum b' = ck"
    "\<exists>pre. length pre = 13 * (num - 1) \<and> lb_ucs2_units (lnb_buf b') = pre @ lfn_part part"
proof -
  note o = lfn_order [OF assms(1,2)]
  define units where "units = lb_ucs2_units (LfnBuffer_set_len (num * 13) (lnb_buf b))"
  have len: "length units = num * 13" by (simp add: units_def LfnBuffer_set_len_def)
  have pos: "13 * (num - 1) + 13 = num * 13" using assms(1) by (cases num) simp_all
  have order: "dle_order (lfn_entry ck num num part) = word_of_nat num OR 0x40" "dle_checksum (lfn_entry ck num num part) = ck"
    by (simp_all add: lfn_entry_def copy_name_from_slice_def DirLfnEntryData_new_def LFN_ENTRY_LAST_FLAG_def)
  have slice: "copy_name_to_slice (lfn_entry ck num num part) (take 13 (drop (13 * (num - 1)) units)) = lfn_part part"
    unfolding lfn_entry_def using assms(3) len pos by (intro copy_name_slices) simp_all
  have "overwrite units (13 * (num - 1)) (lfn_part part) = take (13 * (num - 1)) units @ lfn_part part"
    using assms(3) len pos by (simp add: overwrite_def)
  moreover have "LongNameBuilder_process (lfn_entry ck num num part) b = Some (b\<lparr>lnb_index := word_of_nat num, lnb_chksum := ck,
     lnb_buf := \<lparr>lb_ucs2_units = overwrite units (13 * (num - 1)) (lfn_part part)\<rparr>\<rparr>)"
    using o(1,2,5-7) assms(2) len pos slice units_def [symmetric]
    by (simp add: LongNameBuilder_process_def order Let_def LFN_ENTRY_LAST_FLAG_def LFN_PART_LEN_def MAX_LONG_DIR_ENTRIES_def MAX_LONG_NAME_LEN_def)
  ultimately show ?thesis using len pos by (intro that [of _]) (auto intro!: exI [of _ "take (13 * (num - 1)) units"])
qed

lemma process_next:
  assumes at: "lnb_at ps ck (Suc k) b" and k: "0 < k" "k < num" "k \<le> 19" "k < length ps" and part: "length part \<le> 13" "ps ! (k - 1) = lfn_part part"
  obtains b' where "LongNameBuilder_process (lfn_entry ck num k part) b = Some b'" "lnb_at ps ck k b'"
proof -
  have k20: "k \<le> 20" "Suc k \<le> 20" using k(3) by simp_all
  note o = lfn_order [OF k(1) k20(1)] and o' = lfn_order [OF zero_less_Suc k20(2)]
  obtain pre where pre: "length pre = 13 * k" "lb_ucs2_units (lnb_buf b) = pre @ concat (drop k ps)" and b: "lnb_index b = word_of_nat (Suc k)" "lnb_chksum b = ck"
    using at by (auto simp: lnb_at_def)
  let ?units = "pre @ concat (drop k ps)"
  have pos: "13 * (k - 1) + 13 = 13 * k" using k(1) by (cases k) simp_all
  have order: "dle_order (lfn_entry ck num k part) = word_of_nat k" "dle_checksum (lfn_entry ck num k part) = ck"
    using k(2) by (simp_all add: lfn_entry_def copy_name_from_slice_def DirLfnEntryData_new_def)
  have slice: "copy_name_to_slice (lfn_entry ck num k part) (take 13 (drop (13 * (k - 1)) ?units)) = lfn_part part"
    unfolding lfn_entry_def using part(1) pre(1) pos by (intro copy_name_slices) simp_all
  have prev: "lnb_index b - 1 = word_of_nat k" "lnb_index b \<noteq> 0" using b(1) o'(7) by simp_all
  have "LongNameBuilder_process (lfn_entry ck num k part) b = Some (b\<lparr>lnb_index := word_of_nat k,
     lnb_buf := \<lparr>lb_ucs2_units = overwrite ?units (13 * (k - 1)) (lfn_part part)\<rparr>\<rparr>)"
    using o(3-7) k(3) pre pos slice prev b(2)
    by (simp add: LongNameBuilder_process_def order Let_def LFN_ENTRY_LAST_FLAG_def LFN_PART_LEN_def MAX_LONG_DIR_ENTRIES_def MAX_LONG_NAME_LEN_def)
  moreover have "overwrite ?units (13 * (k - 1)) (lfn_part part) = take (13 * (k - 1)) pre @ concat (drop (k - 1) ps)"
  proof -
    have "drop (k - 1) ps = lfn_part part # drop k ps" using k(1,4) part(2) Cons_nth_drop_Suc [of "k - 1" ps] by simp
    then show ?thesis using pre(1) pos part(1) by (simp add: overwrite_def)
  qed
  ultimately show ?thesis using b(2) pre(1) pos by (intro that [of _]) (auto simp: lnb_at_def intro!: exI [of _ "take (13 * (k - 1)) pre"])
qed

lemma process_down:
  assumes "lnb_at ps ck k b" "k \<le> num" "0 < k" "num \<le> 20" "length ps = num" "length cs = num" "ps = map lfn_part cs" "\<forall>c\<in>set cs. length c \<le> 13"
  shows "\<exists>b'. process_all (map (\<lambda>j. lfn_entry ck num (Suc j) (cs ! j)) (rev [0..<k - 1])) b = Some b' \<and> lnb_at ps ck 1 b'"
  using assms(1-3)
proof (induction "k - 1" arbitrary: k b)
  case 0
  then have "k = 1" by simp
  then show ?case using 0 by simp
next
  case (Suc n)
  then have k: "k = Suc (Suc n)" by simp
  have "lnb_at ps ck (Suc (Suc n)) b" "length (cs ! n) \<le> 13" "ps ! (Suc n - 1) = lfn_part (cs ! n)"
    using Suc.prems k assms(5-8) by simp_all
  then obtain b1 where b1: "LongNameBuilder_process (lfn_entry ck num (Suc n) (cs ! n)) b = Some b1" "lnb_at ps ck (Suc n) b1"
    using process_next [of ps ck "Suc n" b num "cs ! n"] Suc.prems(2) assms(4,5) k by auto
  from Suc.hyps(1) [of "Suc n" b1] b1(2) Suc.prems(2) k show ?case using b1(1) by simp
qed

lemma process_entries:
  assumes "name \<noteq> []" "length name \<le> 260"
  obtains b' where "process_all (lfn_entries (LfnEntriesGenerator_new name ck)) b = Some b'"
    "lnb_index b' = 1" "lnb_chksum b' = ck" "lb_ucs2_units (lnb_buf b') = concat (map lfn_part (chunks 13 name))"
proof -
  define cs where "cs = chunks 13 name"
  define num where "num = length cs"
  have num: "num = (length name + 12) div 13" using length_chunks [of 13 name] by (simp add: num_def cs_def)
  have "0 < length name" using assms(1) by simp
  then have num20: "0 < num" "num \<le> 20" using assms(2) unfolding num by linarith+
  have cs13: "\<forall>c\<in>set cs. length c \<le> 13" using chunks_part_length [of 13] by (auto simp: cs_def)
  define gen where "gen = LfnEntriesGenerator_new name ck"
  have "leg_name_parts_iter gen = rev cs" "leg_num gen = leg_index gen + length cs" "\<not> leg_ended gen" "leg_checksum gen = ck"
    using num by (simp_all add: gen_def LfnEntriesGenerator_new_def LFN_PART_LEN_def cs_def [symmetric] num_def [symmetric])
  then have entries: "lfn_entries gen = map (\<lambda>k. lfn_entry ck num (Suc k) (cs ! k)) (rev [0..<num])"
    using lfn_entries_parts [of gen cs] by (simp add: gen_def LfnEntriesGenerator_new_def num_def)
  let ?ps = "map lfn_part cs"
  have last: "length (cs ! (num - 1)) \<le> 13" using cs13 num20(1) by (simp add: num_def)
  obtain b1 where b1: "LongNameBuilder_process (lfn_entry ck num num (cs ! (num - 1))) b = Some b1"
    "lnb_index b1 = word_of_nat num" "lnb_chksum b1 = ck"
    "\<exists>pre. length pre = 13 * (num - 1) \<and> lb_ucs2_units (lnb_buf b1) = pre @ lfn_part (cs ! (num - 1))"
    by (rule process_first [OF num20 last])
  have "drop (num - 1) ?ps = [lfn_part (cs ! (num - 1))]"
    using num20(1) Cons_nth_drop_Suc [of "num - 1" ?ps] by (simp add: num_def)
  then have at: "lnb_at ?ps ck num b1" using b1(2-4) by (simp add: lnb_at_def)
  have lens: "length ?ps = num" "length cs = num" by (simp_all add: num_def)
  from process_down [OF at order_refl num20 lens refl cs13] obtain b' where
    b': "process_all (map (\<lambda>j. lfn_entry ck num (Suc j) (cs ! j)) (rev [0..<num - 1])) b1 = Some b'" "lnb_at ?ps ck 1 b'" by blast
  have "rev [0..<num] = (num - 1) # rev [0..<num - 1]" using num20(1) by (cases num) simp_all
  then have "process_all (lfn_entries gen) b = Some b'" using b1(1) b'(1) num20(1) unfolding entries by simp
  then show ?thesis using that b'(2) by (auto simp: lnb_at_def gen_def cs_def)
qed

definition lfn_pad :: "nat \<Rightarrow> u16 list" where
  "lfn_pad n = (if n mod 13 = 0 then [] else 0 # replicate (12 - n mod 13) 0xFFFF)"

lemma lfn_part_full: "length c = 13 \<Longrightarrow> lfn_part c = c"
  by (simp add: lfn_part_def overwrite_def LFN_PART_LEN_def)

lemma lfn_part_short:
  assumes "length c < 13"
  shows "lfn_part c = c @ 0 # replicate (12 - length c) 0xFFFF"
proof -
  have "replicate (13 - length c) LFN_PADDING = LFN_PADDING # replicate (12 - length c) LFN_PADDING"
    using assms by (simp add: Suc_diff_le replicate_Suc [symmetric] del: replicate_Suc)
  then show ?thesis using assms by (simp add: lfn_part_def overwrite_def LFN_PART_LEN_def LFN_PADDING_def list_update_append)
qed

lemma concat_lfn_parts: "concat (map lfn_part (chunks 13 xs)) = xs @ lfn_pad (length xs)"
proof (induction xs rule: length_induct)
  case (1 xs)
  consider "xs = []" | (short) "xs \<noteq> []" "length xs < 13" | (long) "13 \<le> length xs" by linarith
  then show ?case
  proof cases
    case short
    then have "chunks 13 xs = [xs]" by (simp add: chunks_step)
    then show ?thesis using short by (simp add: lfn_part_short lfn_pad_def)
  next
    case long
    then have ne: "xs \<noteq> []" by auto
    have "concat (map lfn_part (chunks 13 (drop 13 xs))) = drop 13 xs @ lfn_pad (length xs - 13)" using 1 long ne by simp
    moreover have "lfn_pad (length xs - 13) = lfn_pad (length xs)" using long by (simp add: lfn_pad_def mod_if [of "length xs"])
    ultimately show ?thesis using long ne by (simp add: chunks_step lfn_part_full append_assoc [symmetric] del: append_assoc)
  qed (simp add: lfn_pad_def)
qed

lemma rposition_end_pad:
  assumes "xs \<noteq> []" "p (last xs)" "\<forall>y\<in>set ys. \<not> p y"
  shows "rposition_end p (xs @ ys) = length xs"
proof -
  have "dropWhile (\<lambda>x. \<not> p x) (rev ys @ rev xs) = dropWhile (\<lambda>x. \<not> p x) (rev xs)" using assms(3) by (intro dropWhile_append2) auto
  also have "\<dots> = rev xs" using assms(1,2) by (cases xs rule: rev_cases) simp_all
  finally show ?thesis by (simp add: rposition_end_def)
qed

text \<open>
  Property C38. Long names survive. A name of 1 to 260 UTF-16 units whose last unit is neither 0 nor
  0xFFFF is spread over entries by \<^verbatim>\<open>LfnEntriesGenerator\<close>. When the builder processes these entries
  in order, whatever it processed before, it accepts the checksum of the short name they were made
  for, and \<^verbatim>\<open>into_buf\<close> returns exactly the name.
\<close>

theorem lfn_roundtrip:
  assumes "name \<noteq> []" "length name \<le> 260" "last name \<noteq> 0" "last name \<noteq> 0xFFFF"
  shows "\<exists>b'. process_all (lfn_entries (LfnEntriesGenerator_new name (lfn_checksum short_name))) b = Some b'
    \<and> LfnBuffer_as_ucs2_units (LongNameBuilder_into_buf (LongNameBuilder_validate_chksum short_name b')) = name"
proof -
  obtain b' where b': "process_all (lfn_entries (LfnEntriesGenerator_new name (lfn_checksum short_name))) b = Some b'"
    "lnb_index b' = 1" "lnb_chksum b' = lfn_checksum short_name" "lb_ucs2_units (lnb_buf b') = concat (map lfn_part (chunks 13 name))"
    by (rule process_entries [OF assms(1,2)])
  have valid: "LongNameBuilder_validate_chksum short_name b' = b'" using b'(3) by (simp add: LongNameBuilder_validate_chksum_def)
  have "rposition_end (\<lambda>c. c \<noteq> 0xFFFF \<and> c \<noteq> 0) (name @ lfn_pad (length name)) = length name"
    using assms by (intro rposition_end_pad) (auto simp: lfn_pad_def)
  then have "LfnBuffer_as_ucs2_units (LongNameBuilder_into_buf b') = name"
    using b'(2,4) by (simp add: LongNameBuilder_into_buf_def LongNameBuilder_truncate_def LfnBuffer_set_len_def LfnBuffer_as_ucs2_units_def concat_lfn_parts)
  then show ?thesis using b'(1) valid by auto
qed

theorem lfn_roundtrip_witness:
  "\<exists>b'. process_all (lfn_entries (LfnEntriesGenerator_new [0x41, 0x62, 0x63] (lfn_checksum (replicate 11 0x20)))) LongNameBuilder_new = Some b'
    \<and> LfnBuffer_as_ucs2_units (LongNameBuilder_into_buf (LongNameBuilder_validate_chksum (replicate 11 0x20) b')) = [0x41, 0x62, 0x63]"
  by (rule lfn_roundtrip) simp_all

section \<open>Any entries\<close>

definition lnb_ok :: "LongNameBuilder \<Rightarrow> bool" where
  "lnb_ok b \<longleftrightarrow> unat (lnb_index b) \<le> MAX_LONG_DIR_ENTRIES \<and> 13 * unat (lnb_index b) \<le> length (lb_ucs2_units (lnb_buf b))
     \<and> length (lb_ucs2_units (lnb_buf b)) \<le> 13 * MAX_LONG_DIR_ENTRIES"

definition lfn_entry_ok :: "DirLfnEntryData \<Rightarrow> bool" where
  "lfn_entry_ok e \<longleftrightarrow> length (dle_name_0 e) = 5 \<and> length (dle_name_1 e) = 6 \<and> length (dle_name_2 e) = 2"

lemma lnb_clear_ok: "lnb_ok (LongNameBuilder_clear b)"
  by (simp add: lnb_ok_def LongNameBuilder_clear_def LfnBuffer_clear_def)

lemma process_ok:
  assumes "lnb_ok b" "lfn_entry_ok e"
  shows "\<exists>b'. LongNameBuilder_process e b = Some b' \<and> lnb_ok b'"
proof -
  define i where "i = dle_order e AND 0x1F"
  have copy: "\<exists>b'. (if 13 * unat (i - 1) + 13 \<le> length (lb_ucs2_units (lnb_buf c)) then Some (c\<lparr>lnb_buf := \<lparr>lb_ucs2_units =
        overwrite (lb_ucs2_units (lnb_buf c)) (13 * unat (i - 1)) (copy_name_to_slice e (take 13 (drop (13 * unat (i - 1)) (lb_ucs2_units (lnb_buf c)))))\<rparr>\<rparr>) else None) = Some b' \<and> lnb_ok b'"
    if c: "lnb_ok c" "lnb_index c = i" "i \<noteq> 0" for c
  proof -
    have "0 < unat i" using c(3) by (simp add: unat_gt_0)
    then have "unat (i - 1) + 1 = unat i" using c(3) by (simp add: unat_minus_one)
    then have len: "13 * unat (i - 1) + 13 \<le> length (lb_ucs2_units (lnb_buf c))" using c(1,2) by (auto simp: lnb_ok_def)
    then show ?thesis using c(1) assms(2) by (simp add: lnb_ok_def lfn_entry_ok_def copy_name_to_slice_def)
  qed
  show ?thesis
  proof (cases "i = 0 \<or> unat i > MAX_LONG_DIR_ENTRIES")
    case True
    then show ?thesis using lnb_clear_ok by (auto simp: LongNameBuilder_process_def Let_def i_def [symmetric])
  next
    case False
    let ?last = "b\<lparr>lnb_index := i, lnb_chksum := dle_checksum e, lnb_buf := LfnBuffer_set_len (unat i * 13) (lnb_buf b)\<rparr>"
    let ?next = "b\<lparr>lnb_index := lnb_index b - 1\<rparr>"
    have "lnb_ok ?last" using False by (auto simp: lnb_ok_def LfnBuffer_set_len_def)
    from copy [OF this] False have last: "dle_order e AND LFN_ENTRY_LAST_FLAG \<noteq> 0 \<Longrightarrow> ?thesis"
      by (auto simp: LongNameBuilder_process_def Let_def i_def [symmetric] LFN_PART_LEN_def split: if_splits)
    have "lnb_ok ?next" if "lnb_index b \<noteq> 0"
      using assms(1) that by (auto simp: lnb_ok_def unat_minus_one)
    from copy [OF this] False have "?thesis" if "dle_order e AND LFN_ENTRY_LAST_FLAG = 0" "\<not> (lnb_index b = 0 \<or> i \<noteq> lnb_index b - 1 \<or> dle_checksum e \<noteq> lnb_chksum b)"
      using that by (auto simp: LongNameBuilder_process_def Let_def i_def [symmetric] LFN_PART_LEN_def split: if_splits)
    moreover have "?thesis" if "dle_order e AND LFN_ENTRY_LAST_FLAG = 0" "lnb_index b = 0 \<or> i \<noteq> lnb_index b - 1 \<or> dle_checksum e \<noteq> lnb_chksum b"
      using that False lnb_clear_ok by (simp add: LongNameBuilder_process_def Let_def i_def [symmetric])
    ultimately show ?thesis using last by blast
  qed
qed

text \<open>
  Property C39. No sequence of long name entries, however corrupted, makes the builder panic: every
  slice it takes of its buffer exists, the buffer stays within the 260 units of 20 entries, and
  the name it returns does, too.
\<close>

theorem LongNameBuilder_never_panics:
  assumes "list_all lfn_entry_ok es"
  shows "\<exists>b. process_all es LongNameBuilder_new = Some b \<and> lnb_ok b \<and> length (LfnBuffer_as_ucs2_units (LongNameBuilder_into_buf b)) \<le> 260"
proof -
  have "\<exists>b'. process_all es b = Some b' \<and> lnb_ok b'" if "lnb_ok b" for b
    using assms that
  proof (induction es arbitrary: b)
    case (Cons e es)
    then obtain b1 where "LongNameBuilder_process e b = Some b1" "lnb_ok b1" using process_ok [of b e] by auto
    then show ?case using Cons by simp
  qed simp
  moreover have "lnb_ok LongNameBuilder_new" by (simp add: lnb_ok_def LongNameBuilder_new_def LfnBuffer_new_def)
  ultimately obtain b where b: "process_all es LongNameBuilder_new = Some b" "lnb_ok b" by blast
  have "rposition_end p xs \<le> length xs" for p and xs :: "u16 list"
    unfolding rposition_end_def by (metis length_dropWhile_le length_rev)
  then have "length (LfnBuffer_as_ucs2_units (LongNameBuilder_into_buf b)) \<le> length (lb_ucs2_units (lnb_buf b))"
    by (simp add: LfnBuffer_as_ucs2_units_def LongNameBuilder_into_buf_def LongNameBuilder_truncate_def LongNameBuilder_clear_def LfnBuffer_clear_def LfnBuffer_set_len_def Let_def)
  then show ?thesis using b by (auto simp: lnb_ok_def MAX_LONG_DIR_ENTRIES_def MAX_LONG_NAME_LEN_def LFN_PART_LEN_def)
qed

theorem LongNameBuilder_never_panics_witness:
  "\<exists>b. process_all [DirLfnEntryData_new 3 0, DirLfnEntryData_new 0x42 7, DirLfnEntryData_new 1 8] LongNameBuilder_new = Some b
     \<and> lnb_ok b \<and> length (LfnBuffer_as_ucs2_units (LongNameBuilder_into_buf b)) \<le> 260"
  by (rule LongNameBuilder_never_panics) (simp add: lfn_entry_ok_def DirLfnEntryData_new_def DirLfnEntryData_default_def)

end
