(* ===== verification/Fat_Short_Names.thy ===== *)
theory Fat_Short_Names
  imports Fat_Names
begin

text \<open>
  The generator of short names (\<^verbatim>\<open>ShortNameGenerator\<close> in \<^verbatim>\<open>rust-fatfs/src/dir.rs\<close>), which is told the
  short names of a directory and then chooses one that is not among them.
\<close>

section \<open>The generator\<close>

record ShortNameGenerator =
  sng_chksum :: u16
  sng_long_prefix_bitmap :: u16
  sng_prefix_chksum_bitmap :: u16
  sng_name_fits :: bool
  sng_lossy_conv :: bool
  sng_exact_match :: bool
  sng_basename_len :: nat
  sng_short_name :: "u8 list"

definition sfn_char :: "rchar \<Rightarrow> bool" where
  "sfn_char c \<longleftrightarrow> 0x41 \<le> c \<and> c \<le> 0x5A \<or> 0x61 \<le> c \<and> c \<le> 0x7A \<or> 0x30 \<le> c \<and> c \<le> 0x39
     \<or> c \<in> {0x21, 0x23, 0x24, 0x25, 0x26, 0x27, 0x28, 0x29, 0x2D, 0x40, 0x5E, 0x5F, 0x60, 0x7B, 0x7D, 0x7E}"

fun copy_short_name_loop :: "u8 list \<Rightarrow> nat \<Rightarrow> bool \<Rightarrow> rchar list \<Rightarrow> u8 list \<times> nat \<times> bool \<times> bool" where
  "copy_short_name_loop dst dst_pos lossy_conv [] = (dst, dst_pos, True, lossy_conv)"
| "copy_short_name_loop dst dst_pos lossy_conv (c # src) =
     (if dst_pos = length dst then (dst, dst_pos, False, lossy_conv)
      else if c = 0x20 \<or> c = 0x2E then copy_short_name_loop dst dst_pos True src
      else let fixed_c = (if sfn_char c then c else 0x5F);
               upper = to_ascii_uppercase fixed_c
           in copy_short_name_loop (dst[dst_pos := ucast upper]) (dst_pos + 1) (lossy_conv \<or> fixed_c \<noteq> c) src)"

definition copy_short_name_part :: "u8 list \<Rightarrow> rchar list \<Rightarrow> u8 list \<times> nat \<times> bool \<times> bool" where
  "copy_short_name_part dst src = copy_short_name_loop dst 0 False src"

definition ShortNameGenerator_checksum :: "rchar list \<Rightarrow> u16" where
  "ShortNameGenerator_checksum name = foldl (\<lambda>chksum c. drop_bit 1 chksum + push_bit 15 chksum + ucast c) 0 name"

text \<open>
  Positions count characters. The source counts bytes, and its slice \<^verbatim>\<open>name[1..]\<close> exists when the
  first character has one byte.
\<close>

definition rfind_dot :: "rchar list \<Rightarrow> nat option" where
  "rfind_dot s = (let n = rposition_end (\<lambda>c. c = 0x2E) s in if n = 0 then None else Some (n - 1))"

definition ShortNameGenerator_new :: "rchar list \<Rightarrow> ShortNameGenerator option" where
  "ShortNameGenerator_new name = do {
     rust_assert (name \<noteq> [] \<and> len_utf8 (hd name) = 1);
     let dot_index_opt = map_option (\<lambda>index. index + 1) (rfind_dot (tl name));
     let basename_src = (case dot_index_opt of None \<Rightarrow> name | Some dot_index \<Rightarrow> take dot_index name);
     let (base, basename_len, basename_fits, basename_lossy) = copy_short_name_part (replicate 8 SFN_PADDING) basename_src;
     let (ext, name_fits, lossy_conv) =
       (case dot_index_opt of
          None \<Rightarrow> (replicate 3 SFN_PADDING, basename_fits, basename_lossy)
        | Some dot_index \<Rightarrow>
            let (ext, _, ext_fits, ext_lossy) = copy_short_name_part (replicate 3 SFN_PADDING) (drop (dot_index + 1) name)
            in (ext, basename_fits \<and> ext_fits, basename_lossy \<or> ext_lossy));
     Some \<lparr>sng_chksum = ShortNameGenerator_checksum name, sng_long_prefix_bitmap = 0, sng_prefix_chksum_bitmap = 0,
       sng_name_fits = name_fits, sng_lossy_conv = lossy_conv, sng_exact_match = False,
       sng_basename_len = basename_len, sng_short_name = base @ ext\<rparr> }"

definition generate_dot :: "u8 list" where
  "generate_dot = (replicate SFN_SIZE SFN_PADDING)[0 := 0x2E]"

definition generate_dotdot :: "u8 list" where
  "generate_dotdot = (replicate SFN_SIZE SFN_PADDING)[0 := 0x2E, 1 := 0x2E]"

definition to_digit10 :: "u8 \<Rightarrow> nat option" where
  "to_digit10 c = (if 0x30 \<le> c \<and> c \<le> 0x39 then Some (unat (c - 0x30)) else None)"

definition to_digit16 :: "u8 \<Rightarrow> nat option" where
  "to_digit16 c = (if 0x30 \<le> c \<and> c \<le> 0x39 then Some (unat (c - 0x30))
     else if 0x41 \<le> c \<and> c \<le> 0x46 then Some (unat (c - 0x41) + 10)
     else if 0x61 \<le> c \<and> c \<le> 0x66 then Some (unat (c - 0x61) + 10) else None)"

text \<open>
  \<^verbatim>\<open>str::from_utf8\<close> followed by \<^verbatim>\<open>u16::from_str_radix\<close> on four bytes: a plus sign may come first. Bytes
  that are not UTF-8 are no digits.
\<close>

fun digits16 :: "nat \<Rightarrow> u8 list \<Rightarrow> nat option" where
  "digits16 acc [] = Some acc"
| "digits16 acc (c # cs) = (case to_digit16 c of Some d \<Rightarrow> digits16 (16 * acc + d) cs | None \<Rightarrow> None)"

definition u16_from_hex :: "u8 list \<Rightarrow> u16 option" where
  "u16_from_hex s = (let ds = (case s of c # cs \<Rightarrow> if c = 0x2B then cs else s | [] \<Rightarrow> []) in
     if ds = [] then None else case digits16 0 ds of Some n \<Rightarrow> (if n < 2 ^ 16 then Some (word_of_nat n) else None) | None \<Rightarrow> None)"

definition check_for_long_prefix_collision :: "u8 list \<Rightarrow> ShortNameGenerator \<Rightarrow> ShortNameGenerator" where
  "check_for_long_prefix_collision short_name self =
     (let long_prefix_len = min (sng_basename_len self) 6 in
      if short_name ! long_prefix_len \<noteq> 0x7E then self
      else case to_digit10 (short_name ! (long_prefix_len + 1)) of
        Some num_suffix \<Rightarrow>
          (if take long_prefix_len short_name = take long_prefix_len (sng_short_name self) \<and> drop 8 short_name = drop 8 (sng_short_name self)
           then self\<lparr>sng_long_prefix_bitmap := sng_long_prefix_bitmap self OR push_bit num_suffix 1\<rparr> else self)
      | None \<Rightarrow> self)"

definition check_for_short_prefix_collision :: "u8 list \<Rightarrow> ShortNameGenerator \<Rightarrow> ShortNameGenerator" where
  "check_for_short_prefix_collision short_name self =
     (let short_prefix_len = min (sng_basename_len self) 2 in
      if short_name ! (short_prefix_len + 4) \<noteq> 0x7E then self
      else case to_digit10 (short_name ! (short_prefix_len + 4 + 1)) of
        Some num_suffix \<Rightarrow>
          (if take short_prefix_len short_name = take short_prefix_len (sng_short_name self) \<and> drop 8 short_name = drop 8 (sng_short_name self)
             \<and> u16_from_hex (take 4 (drop short_prefix_len short_name)) = Some (sng_chksum self)
           then self\<lparr>sng_prefix_chksum_bitmap := sng_prefix_chksum_bitmap self OR push_bit num_suffix 1\<rparr> else self)
      | None \<Rightarrow> self)"

definition add_existing :: "u8 list \<Rightarrow> ShortNameGenerator \<Rightarrow> ShortNameGenerator" where
  "add_existing short_name self =
     (let self = (if short_name = sng_short_name self then self\<lparr>sng_exact_match := True\<rparr> else self)
      in check_for_short_prefix_collision short_name (check_for_long_prefix_collision short_name self))"

definition from_digit16 :: "u32 \<Rightarrow> u8" where
  "from_digit16 num = (if num < 10 then 0x30 + ucast num else 0x61 + ucast num - 10)"

definition u16_to_hex :: "u16 \<Rightarrow> u8 list" where
  "u16_to_hex x = (let x_u32 = (ucast x :: u32) in
     map to_ascii_uppercase [from_digit16 (drop_bit 12 x_u32 AND 0xF), from_digit16 (drop_bit 8 x_u32 AND 0xF),
       from_digit16 (drop_bit 4 x_u32 AND 0xF), from_digit16 (x_u32 AND 0xF)])"

definition build_prefixed_name :: "nat \<Rightarrow> bool \<Rightarrow> ShortNameGenerator \<Rightarrow> u8 list" where
  "build_prefixed_name num with_chksum self =
     (let buf = replicate SFN_SIZE SFN_PADDING;
          (buf, prefix_len) =
            (if with_chksum then
               let prefix_len = min (sng_basename_len self) 2
               in (overwrite (overwrite buf 0 (take prefix_len (sng_short_name self))) prefix_len (u16_to_hex (sng_chksum self)), prefix_len + 4)
             else
               let prefix_len = min (sng_basename_len self) 6
               in (overwrite buf 0 (take prefix_len (sng_short_name self)), prefix_len));
          buf = buf[prefix_len := 0x7E, prefix_len + 1 := 0x30 + word_of_nat num]
      in overwrite buf 8 (drop 8 (sng_short_name self)))"

definition ShortNameGenerator_generate :: "ShortNameGenerator \<Rightarrow> Error + u8 list" where
  "ShortNameGenerator_generate self =
     (if \<not> sng_lossy_conv self \<and> sng_name_fits self \<and> \<not> sng_exact_match self then Inr (sng_short_name self)
      else case find (\<lambda>i. sng_long_prefix_bitmap self AND push_bit i 1 = 0) [1..<5] of
        Some i \<Rightarrow> Inr (build_prefixed_name i False self)
      | None \<Rightarrow>
          (case find (\<lambda>i. sng_prefix_chksum_bitmap self AND push_bit i 1 = 0) [1..<10] of
             Some i \<Rightarrow> Inr (build_prefixed_name i True self)
           | None \<Rightarrow> Inl AlreadyExists))"

definition next_iteration :: "ShortNameGenerator \<Rightarrow> ShortNameGenerator" where
  "next_iteration self = self\<lparr>sng_chksum := sng_chksum self + 1, sng_long_prefix_bitmap := 0, sng_prefix_chksum_bitmap := 0\<rparr>"

section \<open>What the generator knows of the names\<close>

definition sng_ok :: "ShortNameGenerator \<Rightarrow> bool" where
  "sng_ok g \<longleftrightarrow> length (sng_short_name g) = 11 \<and> sng_basename_len g \<le> 8"

definition long_collides :: "ShortNameGenerator \<Rightarrow> u8 list \<Rightarrow> nat \<Rightarrow> bool" where
  "long_collides g e i \<longleftrightarrow> (let l = min (sng_basename_len g) 6 in e ! l = 0x7E \<and> to_digit10 (e ! (l + 1)) = Some i
     \<and> take l e = take l (sng_short_name g) \<and> drop 8 e = drop 8 (sng_short_name g))"

definition short_collides :: "ShortNameGenerator \<Rightarrow> u8 list \<Rightarrow> nat \<Rightarrow> bool" where
  "short_collides g e i \<longleftrightarrow> (let l = min (sng_basename_len g) 2 in e ! (l + 4) = 0x7E \<and> to_digit10 (e ! (l + 4 + 1)) = Some i
     \<and> take l e = take l (sng_short_name g) \<and> drop 8 e = drop 8 (sng_short_name g) \<and> u16_from_hex (take 4 (drop l e)) = Some (sng_chksum g))"

definition add_all :: "u8 list list \<Rightarrow> ShortNameGenerator \<Rightarrow> ShortNameGenerator" where
  "add_all names g = fold add_existing names g"

lemma to_digit10_less: "to_digit10 c = Some i \<Longrightarrow> i < 10"
proof -
  assume "to_digit10 c = Some i"
  then have c: "0x30 \<le> c" "c \<le> 0x39" "i = unat (c - 0x30)" by (auto simp: to_digit10_def split: if_splits)
  then have "unat (c - 0x30) = unat c - 0x30" "unat c \<le> 0x39" by (simp_all add: unat_sub word_le_nat_alt)
  then show ?thesis using c(3) by simp
qed

lemma bit_set_suffix: "n < 10 \<Longrightarrow> bit (x OR push_bit n 1 :: u16) i \<longleftrightarrow> bit x i \<or> i = n"
  by (auto simp: bit_or_iff bit_exp_iff)

lemma check_long_eq:
  "check_for_long_prefix_collision e g = (case to_digit10 (e ! (min (sng_basename_len g) 6 + 1)) of
     Some i \<Rightarrow> if long_collides g e i then g\<lparr>sng_long_prefix_bitmap := sng_long_prefix_bitmap g OR push_bit i 1\<rparr> else g | None \<Rightarrow> g)"
  by (simp add: check_for_long_prefix_collision_def long_collides_def Let_def split: option.split)

lemma check_short_eq:
  "check_for_short_prefix_collision e g = (case to_digit10 (e ! (min (sng_basename_len g) 2 + 4 + 1)) of
     Some i \<Rightarrow> if short_collides g e i then g\<lparr>sng_prefix_chksum_bitmap := sng_prefix_chksum_bitmap g OR push_bit i 1\<rparr> else g | None \<Rightarrow> g)"
  by (simp add: check_for_short_prefix_collision_def short_collides_def Let_def split: option.split)

lemma check_facts:
  "\<exists>bm. check_for_long_prefix_collision e g = g\<lparr>sng_long_prefix_bitmap := bm\<rparr> \<and> (\<forall>i. bit bm i \<longleftrightarrow> bit (sng_long_prefix_bitmap g) i \<or> long_collides g e i)"
  "\<exists>bm. check_for_short_prefix_collision e g = g\<lparr>sng_prefix_chksum_bitmap := bm\<rparr> \<and> (\<forall>i. bit bm i \<longleftrightarrow> bit (sng_prefix_chksum_bitmap g) i \<or> short_collides g e i)"
proof -
  let ?d = "to_digit10 (e ! (min (sng_basename_len g) 6 + 1))"
  have uniq: "long_collides g e i \<Longrightarrow> ?d = Some i" for i by (simp add: long_collides_def Let_def)
  show "\<exists>bm. check_for_long_prefix_collision e g = g\<lparr>sng_long_prefix_bitmap := bm\<rparr> \<and> (\<forall>i. bit bm i \<longleftrightarrow> bit (sng_long_prefix_bitmap g) i \<or> long_collides g e i)"
  proof (cases "\<exists>i. long_collides g e i")
    case True
    then obtain i where i: "long_collides g e i" by blast
    then have "bit (sng_long_prefix_bitmap g OR push_bit i 1) j \<longleftrightarrow> bit (sng_long_prefix_bitmap g) j \<or> long_collides g e j" for j
      using uniq bit_set_suffix [OF to_digit10_less [OF uniq [OF i]]] by (metis option.inject)
    then show ?thesis using i uniq [OF i] by (intro exI [of _ "sng_long_prefix_bitmap g OR push_bit i 1"]) (simp add: check_long_eq)
  next
    case False
    then show ?thesis by (intro exI [of _ "sng_long_prefix_bitmap g"]) (simp add: check_long_eq split: option.split)
  qed
next
  let ?d = "to_digit10 (e ! (min (sng_basename_len g) 2 + 4 + 1))"
  have uniq: "short_collides g e i \<Longrightarrow> ?d = Some i" for i by (simp add: short_collides_def Let_def)
  show "\<exists>bm. check_for_short_prefix_collision e g = g\<lparr>sng_prefix_chksum_bitmap := bm\<rparr> \<and> (\<forall>i. bit bm i \<longleftrightarrow> bit (sng_prefix_chksum_bitmap g) i \<or> short_collides g e i)"
  proof (cases "\<exists>i. short_collides g e i")
    case True
    then obtain i where i: "short_collides g e i" by blast
    then have "bit (sng_prefix_chksum_bitmap g OR push_bit i 1) j \<longleftrightarrow> bit (sng_prefix_chksum_bitmap g) j \<or> short_collides g e j" for j
      using uniq bit_set_suffix [OF to_digit10_less [OF uniq [OF i]]] by (metis option.inject)
    then show ?thesis using i uniq [OF i] by (intro exI [of _ "sng_prefix_chksum_bitmap g OR push_bit i 1"]) (simp add: check_short_eq)
  next
    case False
    then show ?thesis by (intro exI [of _ "sng_prefix_chksum_bitmap g"]) (simp add: check_short_eq split: option.split)
  qed
qed

lemma add_existing_eq:
  obtains bl bs where "add_existing e g = g\<lparr>sng_exact_match := sng_exact_match g \<or> e = sng_short_name g, sng_long_prefix_bitmap := bl, sng_prefix_chksum_bitmap := bs\<rparr>"
    "\<forall>i. bit bl i \<longleftrightarrow> bit (sng_long_prefix_bitmap g) i \<or> long_collides g e i" "\<forall>i. bit bs i \<longleftrightarrow> bit (sng_prefix_chksum_bitmap g) i \<or> short_collides g e i"
proof -
  define g1 where "g1 = g\<lparr>sng_exact_match := sng_exact_match g \<or> e = sng_short_name g\<rparr>"
  have c1: "long_collides g1 e = long_collides g e" "sng_long_prefix_bitmap g1 = sng_long_prefix_bitmap g"
    by (simp_all add: g1_def fun_eq_iff long_collides_def)
  obtain bl where bl: "check_for_long_prefix_collision e g1 = g1\<lparr>sng_long_prefix_bitmap := bl\<rparr>" "\<forall>i. bit bl i \<longleftrightarrow> bit (sng_long_prefix_bitmap g) i \<or> long_collides g e i"
    using check_facts(1) [of e g1] c1 by auto
  let ?g2 = "g1\<lparr>sng_long_prefix_bitmap := bl\<rparr>"
  have c2: "short_collides ?g2 e = short_collides g e" "sng_prefix_chksum_bitmap ?g2 = sng_prefix_chksum_bitmap g"
    by (simp_all add: g1_def fun_eq_iff short_collides_def)
  obtain bs where bs: "check_for_short_prefix_collision e ?g2 = ?g2\<lparr>sng_prefix_chksum_bitmap := bs\<rparr>" "\<forall>i. bit bs i \<longleftrightarrow> bit (sng_prefix_chksum_bitmap g) i \<or> short_collides g e i"
    using check_facts(2) [of e ?g2] c2 by auto
  have "(if e = sng_short_name g then g\<lparr>sng_exact_match := True\<rparr> else g) = g1" by (simp add: g1_def)
  then have "add_existing e g = ?g2\<lparr>sng_prefix_chksum_bitmap := bs\<rparr>" using bl(1) bs(1) by (simp add: add_existing_def)
  then show ?thesis using that bl(2) bs(2) by (simp add: g1_def)
qed

lemma add_existing_facts:
  "sng_chksum (add_existing e g) = sng_chksum g" "sng_basename_len (add_existing e g) = sng_basename_len g" "sng_short_name (add_existing e g) = sng_short_name g"
  "sng_name_fits (add_existing e g) = sng_name_fits g" "sng_lossy_conv (add_existing e g) = sng_lossy_conv g"
  "sng_exact_match (add_existing e g) \<longleftrightarrow> sng_exact_match g \<or> e = sng_short_name g"
  by (rule add_existing_eq [of e g], simp)+

lemma add_existing_bits:
  "bit (sng_long_prefix_bitmap (add_existing e g)) i \<longleftrightarrow> bit (sng_long_prefix_bitmap g) i \<or> long_collides g e i"
  "bit (sng_prefix_chksum_bitmap (add_existing e g)) i \<longleftrightarrow> bit (sng_prefix_chksum_bitmap g) i \<or> short_collides g e i"
  by (rule add_existing_eq [of e g], simp)+

lemma add_existing_collides: "long_collides (add_existing e g) = long_collides g" "short_collides (add_existing e g) = short_collides g"
  by (simp_all add: fun_eq_iff long_collides_def short_collides_def add_existing_facts)

lemma add_all_facts:
  "sng_chksum (add_all names g) = sng_chksum g" "sng_basename_len (add_all names g) = sng_basename_len g" "sng_short_name (add_all names g) = sng_short_name g"
  "sng_name_fits (add_all names g) = sng_name_fits g" "sng_lossy_conv (add_all names g) = sng_lossy_conv g"
  "sng_exact_match (add_all names g) \<longleftrightarrow> sng_exact_match g \<or> sng_short_name g \<in> set names"
  by (induction names arbitrary: g) (auto simp: add_all_def add_existing_facts)

lemma add_all_bits:
  "bit (sng_long_prefix_bitmap (add_all names g)) i \<longleftrightarrow> bit (sng_long_prefix_bitmap g) i \<or> (\<exists>e\<in>set names. long_collides g e i)"
  "bit (sng_prefix_chksum_bitmap (add_all names g)) i \<longleftrightarrow> bit (sng_prefix_chksum_bitmap g) i \<or> (\<exists>e\<in>set names. short_collides g e i)"
  by (induction names arbitrary: g) (auto simp: add_all_def add_existing_bits add_existing_collides)

section \<open>The names it builds\<close>

lemma length_u16_to_hex [simp]: "length (u16_to_hex x) = 4"
  by (simp add: u16_to_hex_def Let_def)

lemma length_build [simp]: "sng_ok g \<Longrightarrow> length (build_prefixed_name i b g) = 11"
  by (auto simp: build_prefixed_name_def sng_ok_def SFN_SIZE_def Let_def overwrite_def min_def)

lemma to_digit10_of: "i < 10 \<Longrightarrow> to_digit10 (0x30 + word_of_nat i) = Some i"
proof -
  assume "i < 10"
  then have "i \<in> set [0..<10]" by simp
  then show ?thesis by (auto simp: upt_rec to_digit10_def)
qed

lemma build_long_collides:
  assumes "sng_ok g" "i < 10"
  shows "long_collides g (build_prefixed_name i False g) i"
proof -
  define l where "l = min (sng_basename_len g) 6"
  define buf where "buf = (overwrite (replicate 11 SFN_PADDING) 0 (take l (sng_short_name g)))[l := 0x7E, l + 1 := 0x30 + word_of_nat i]"
  have l: "l \<le> 6" "length (sng_short_name g) = 11" using assms(1) by (auto simp: l_def sng_ok_def)
  have len: "length buf = 11" using l by (simp add: buf_def)
  have name: "build_prefixed_name i False g = take 8 buf @ drop 8 (sng_short_name g)"
    using l len by (simp add: build_prefixed_name_def SFN_SIZE_def Let_def l_def [symmetric] buf_def overwrite_def)
  have "buf ! l = 0x7E" "buf ! (l + 1) = 0x30 + word_of_nat i" using l by (simp_all add: buf_def)
  moreover have "take l buf = take l (sng_short_name g)" using l by (simp add: buf_def overwrite_def)
  ultimately show ?thesis using l len assms(2)
    by (simp add: long_collides_def l_def [symmetric] name nth_append to_digit10_of)
qed

lemma hex_digit:
  assumes "d < 16"
  shows "to_digit16 (to_ascii_uppercase (from_digit16 (word_of_nat d))) = Some d" "to_ascii_uppercase (from_digit16 (word_of_nat d)) \<noteq> 0x2B"
proof -
  have "list_all (\<lambda>d. to_digit16 (to_ascii_uppercase (from_digit16 (word_of_nat d))) = Some d
      \<and> to_ascii_uppercase (from_digit16 (word_of_nat d)) \<noteq> 0x2B) [0..<16]"
    by code_simp
  then show "to_digit16 (to_ascii_uppercase (from_digit16 (word_of_nat d))) = Some d" "to_ascii_uppercase (from_digit16 (word_of_nat d)) \<noteq> 0x2B"
    using assms by (simp_all only: list_all_iff set_upt) auto
qed

lemma u16_to_hex_digits:
  "u16_to_hex x = map (\<lambda>d. to_ascii_uppercase (from_digit16 (word_of_nat d)))
     [unat x div 4096 mod 16, unat x div 256 mod 16, unat x div 16 mod 16, unat x mod 16]"
proof -
  have nib: "drop_bit n (ucast x :: u32) AND 0xF = word_of_nat (unat x div 2 ^ n mod 16)" for n
  proof -
    have lt: "unat x < 2 ^ 32" using unsigned_less [of x, where 'a = nat] by simp
    have "unat (ucast x :: u32) = unat x" using lt by (simp add: unsigned_ucast_eq take_bit_nat_eq_self)
    then have "unat (take_bit 4 (drop_bit n (ucast x :: u32))) = take_bit 4 (drop_bit n (unat x))"
      using lt by (simp only: unsigned_take_bit_eq unsigned_drop_bit_eq) (simp add: take_bit_nat_eq_self)
    moreover have "drop_bit n (ucast x :: u32) AND 0xF = take_bit 4 (drop_bit n (ucast x))"
      unfolding take_bit_eq_mask by (simp add: mask_eq_exp_minus_1)
    ultimately have "unat (drop_bit n (ucast x :: u32) AND 0xF) = unat x div 2 ^ n mod 16"
      by (simp only: take_bit_eq_mod [of _ "unat x div 2 ^ n"] drop_bit_eq_div [of _ "unat x"]) simp
    from arg_cong [OF this, of "word_of_nat :: nat \<Rightarrow> u32"] show ?thesis by simp
  qed
  have "(ucast x :: u32) AND 0xF = word_of_nat (unat x mod 16)" using nib [of 0] by simp
  then show ?thesis unfolding u16_to_hex_def Let_def nib by simp
qed

lemma hex_value: "b = 16 * a + p \<Longrightarrow> c = 16 * b + q \<Longrightarrow> n = 16 * c + r \<Longrightarrow> 16 * (16 * (16 * a + p) + q) + r = (n :: nat)"
  by simp

lemma digits16_digits:
  assumes "a < 16" "b < 16" "c < 16" "d < 16"
  shows "digits16 0 (map (\<lambda>d. to_ascii_uppercase (from_digit16 (word_of_nat d))) [a, b, c, d]) = Some (16 * (16 * (16 * a + b) + c) + d)"
  using assms by (simp add: hex_digit)

lemma u16_hex_roundtrip: "u16_from_hex (u16_to_hex x) = Some x"
proof -
  let ?n = "unat x"
  have lt: "?n < 65536" using unsigned_less [of x, where 'a = nat] by simp
  have d: "?n div 4096 mod 16 < 16" "?n div 256 mod 16 < 16" "?n div 16 mod 16 < 16" "?n mod 16 < 16" by simp_all
  have "16 * (16 * (16 * (?n div 4096 mod 16) + ?n div 256 mod 16) + ?n div 16 mod 16) + ?n mod 16 = ?n"
  proof -
    have "?n div 4096 mod 16 = ?n div 4096" using lt by simp
    moreover have "?n div 256 = 16 * (?n div 4096) + ?n div 256 mod 16" using div_mult_mod_eq [of "?n div 256" 16] by (simp add: div_mult2_eq [symmetric] mult.commute)
    moreover have "?n div 16 = 16 * (?n div 256) + ?n div 16 mod 16" using div_mult_mod_eq [of "?n div 16" 16] by (simp add: div_mult2_eq [symmetric] mult.commute)
    moreover have "?n = 16 * (?n div 16) + ?n mod 16" by simp
    ultimately show ?thesis using hex_value [of "?n div 256" "?n div 4096"] by metis
  qed
  then have "digits16 0 (u16_to_hex x) = Some ?n" unfolding u16_to_hex_digits digits16_digits [OF d] by (rule arg_cong)
  moreover have "u16_to_hex x \<noteq> []" "hd (u16_to_hex x) \<noteq> 0x2B" unfolding u16_to_hex_digits using hex_digit(2) [OF d(1)] by simp_all
  ultimately show ?thesis using lt by (cases "u16_to_hex x") (auto simp: u16_from_hex_def)
qed

lemma build_short_collides:
  assumes "sng_ok g" "i < 10"
  shows "short_collides g (build_prefixed_name i True g) i"
proof -
  define l where "l = min (sng_basename_len g) 2"
  define hex where "hex = u16_to_hex (sng_chksum g)"
  define buf where "buf = (take l (sng_short_name g) @ hex @ replicate (7 - l) SFN_PADDING)[l + 4 := 0x7E, l + 4 + 1 := 0x30 + word_of_nat i]"
  have l: "l \<le> 2" "length (sng_short_name g) = 11" "length hex = 4" using assms(1) by (auto simp: l_def sng_ok_def hex_def)
  have len: "length buf = 11" using l by (simp add: buf_def)
  have ow: "overwrite (overwrite (replicate 11 SFN_PADDING) 0 (take l (sng_short_name g))) l hex = take l (sng_short_name g) @ hex @ replicate (7 - l) SFN_PADDING"
    using l by (simp add: overwrite_def)
  have name: "build_prefixed_name i True g = take 8 buf @ drop 8 (sng_short_name g)"
    using l len by (simp add: build_prefixed_name_def SFN_SIZE_def Let_def l_def [symmetric] hex_def [symmetric] ow buf_def [symmetric]) (simp add: overwrite_def buf_def)
  have "buf ! (l + 4) = 0x7E" "buf ! (l + 4 + 1) = 0x30 + word_of_nat i" using l by (simp_all add: buf_def)
  moreover have "take l buf = take l (sng_short_name g)" "take 4 (drop l buf) = hex" using l by (simp_all add: buf_def drop_update_swap)
  moreover have "take 4 (drop l (take 8 buf @ drop 8 (sng_short_name g))) = take 4 (drop l buf)" using l len by (simp add: drop_take min_def)
  ultimately show ?thesis using l len assms(2) u16_hex_roundtrip [of "sng_chksum g"]
    by (simp add: short_collides_def l_def [symmetric] name nth_append to_digit10_of hex_def [symmetric])
qed

lemma find_clear:
  assumes "find (\<lambda>i. (x :: u16) AND push_bit i 1 = 0) [m..<n] = Some i"
  shows "m \<le> i" "i < n" "\<not> bit x i"
proof -
  from assms obtain j where "j < n - m" "i = m + j" "x AND push_bit i 1 = 0" by (auto simp: find_Some_iff)
  then show "m \<le> i" "i < n" "\<not> bit x i" by (auto simp: bit_iff_and_push_bit_not_eq_0)
qed

lemma generate_fresh:
  assumes ok: "sng_ok g" and gen: "ShortNameGenerator_generate (add_all names g) = Inr sn"
  shows "sn \<notin> set names" "length sn = 11"
proof -
  let ?g = "add_all names g"
  have ok': "sng_ok ?g" using ok by (simp add: sng_ok_def add_all_facts)
  have same: "long_collides ?g = long_collides g" "short_collides ?g = short_collides g"
    by (simp_all add: fun_eq_iff long_collides_def short_collides_def add_all_facts)
  consider (exact) "sn = sng_short_name ?g" "\<not> sng_exact_match ?g"
    | (long) i where "find (\<lambda>i. sng_long_prefix_bitmap ?g AND push_bit i 1 = 0) [1..<5] = Some i" "sn = build_prefixed_name i False ?g"
    | (short) i where "find (\<lambda>i. sng_prefix_chksum_bitmap ?g AND push_bit i 1 = 0) [1..<10] = Some i" "sn = build_prefixed_name i True ?g"
    using gen unfolding ShortNameGenerator_generate_def by (auto split: if_splits option.splits)
  then have "sn \<notin> set names \<and> length sn = 11"
  proof cases
    case exact
    then show ?thesis using ok by (simp add: add_all_facts sng_ok_def)
  next
    case long
    note f = find_clear [OF long(1)]
    have "long_collides g sn i" using build_long_collides [OF ok', of i] f(2) unfolding long(2) same by simp
    then show ?thesis using f(3) ok' long(2) by (auto simp: add_all_bits)
  next
    case short
    note f = find_clear [OF short(1)]
    have "short_collides g sn i" using build_short_collides [OF ok', of i] f(2) unfolding short(2) same by simp
    then show ?thesis using f(3) ok' short(2) by (auto simp: add_all_bits)
  qed
  then show "sn \<notin> set names" "length sn = 11" by simp_all
qed

section \<open>Rounds\<close>

lemma copy_short_name_loop_ok:
  "copy_short_name_loop dst pos lossy src = (dst', pos', r) \<Longrightarrow> pos \<le> length dst \<Longrightarrow> length dst' = length dst \<and> pos' \<le> length dst"
proof (induction dst pos lossy src rule: copy_short_name_loop.induct)
  case (2 dst pos lossy c src)
  consider "pos = length dst" | "pos \<noteq> length dst" "c = 0x20 \<or> c = 0x2E" | "pos \<noteq> length dst" "\<not> (c = 0x20 \<or> c = 0x2E)" by blast
  then show ?case
  proof cases
    case 1
    then show ?thesis using 2(3) by auto
  next
    case 3
    have "length dst' = length (dst[pos := ucast (to_ascii_uppercase (if sfn_char c then c else 0x5F))])
        \<and> pos' \<le> length (dst[pos := ucast (to_ascii_uppercase (if sfn_char c then c else 0x5F))])"
    proof (rule 2(2) [OF 3 refl refl])
      show "copy_short_name_loop (dst[pos := ucast (to_ascii_uppercase (if sfn_char c then c else 0x5F))]) (pos + 1)
          (lossy \<or> (if sfn_char c then c else 0x5F) \<noteq> c) src = (dst', pos', r)"
        using 2(3) 3 by (simp only: copy_short_name_loop.simps if_False Let_def)
    qed (use 2(4) 3 in simp)
    then show ?thesis by simp
  qed (use 2 in simp_all)
qed simp

lemma ShortNameGenerator_new_ok:
  assumes "ShortNameGenerator_new name = Some g"
  shows "sng_ok g" "sng_long_prefix_bitmap g = 0" "sng_prefix_chksum_bitmap g = 0"
proof -
  have len: "length (fst (copy_short_name_part dst src)) = length dst" "fst (snd (copy_short_name_part dst src)) \<le> length dst" for dst src
    using copy_short_name_loop_ok [of dst 0 False src] unfolding copy_short_name_part_def
    by (cases "copy_short_name_loop dst 0 False src"; simp)+
  show "sng_ok g" "sng_long_prefix_bitmap g = 0" "sng_prefix_chksum_bitmap g = 0"
    using assms len(1) [of "replicate 3 SFN_PADDING"] len [of "replicate 8 SFN_PADDING"]
    by (auto simp: ShortNameGenerator_new_def rust_assert_def sng_ok_def Let_def case_prod_beta split: option.splits if_splits)
qed

text \<open>
  The generator at the start of each round of \<^verbatim>\<open>check_for_existence\<close>: a round adds the names of the
  directory, and \<^verbatim>\<open>next_iteration\<close> prepares the next one.
\<close>

fun round :: "u8 list list \<Rightarrow> ShortNameGenerator \<Rightarrow> nat \<Rightarrow> ShortNameGenerator" where
  "round names g 0 = g"
| "round names g (Suc k) = next_iteration (add_all names (round names g k))"

lemma round_facts:
  "sng_basename_len (round names g k) = sng_basename_len g" "sng_short_name (round names g k) = sng_short_name g"
  "sng_chksum (round names g k) = sng_chksum g + word_of_nat k"
  by (induction k) (simp_all add: next_iteration_def add_all_facts)

lemma round_clear: "sng_prefix_chksum_bitmap g = 0 \<Longrightarrow> sng_prefix_chksum_bitmap (round names g k) = 0"
  by (cases k) (simp_all add: next_iteration_def)

text \<open>
  A generated short name is new: whatever round of the search produces it, it has 11
  bytes and is none of the names of the directory.
\<close>

lemma short_name_is_new:
  assumes "ShortNameGenerator_new name = Some g" "ShortNameGenerator_generate (add_all names (round names g k)) = Inr sn"
  shows "sn \<notin> set names \<and> length sn = 11"
proof -
  have "sng_ok (round names g k)" using ShortNameGenerator_new_ok(1) [OF assms(1)] by (simp add: sng_ok_def round_facts)
  from generate_fresh [OF this assms(2)] show ?thesis by simp
qed

definition name_A :: "u8 list" where
  "name_A = 0x41 # replicate 10 0x20"

definition gen_A :: ShortNameGenerator where
  "gen_A = \<lparr>sng_chksum = 0x41, sng_long_prefix_bitmap = 0, sng_prefix_chksum_bitmap = 0, sng_name_fits = True, sng_lossy_conv = False,
     sng_exact_match = False, sng_basename_len = 1, sng_short_name = name_A\<rparr>"

lemma gen_A_new: "ShortNameGenerator_new [0x41] = Some gen_A"
  by code_simp

text \<open>A failed round means that the directory has a name for every digit with the checksum of the round.\<close>

lemma generate_fails:
  assumes "ShortNameGenerator_generate (add_all names g) = Inl e" "sng_prefix_chksum_bitmap g = 0" "1 \<le> i" "i < 10"
  obtains n where "n \<in> set names" "short_collides g n i"
proof -
  have "find (\<lambda>i. sng_prefix_chksum_bitmap (add_all names g) AND push_bit i 1 = 0) [1..<10] = None"
    using assms(1) by (auto simp: ShortNameGenerator_generate_def split: if_splits option.splits)
  then have "sng_prefix_chksum_bitmap (add_all names g) AND push_bit i 1 \<noteq> 0" using assms(3,4) by (auto simp: find_None_iff)
  then have "bit (sng_prefix_chksum_bitmap (add_all names g)) i" by (simp add: bit_iff_and_push_bit_not_eq_0)
  then show ?thesis using that assms(2) by (auto simp: add_all_bits)
qed

lemma search_ends:
  assumes ok: "sng_ok g" "sng_prefix_chksum_bitmap g = 0" and few: "length names < 9 * 65536"
  shows "\<exists>k sn. k < 65536 \<and> ShortNameGenerator_generate (add_all names (round names g k)) = Inr sn"
proof (rule ccontr)
  assume no: "\<not> ?thesis"
  define l where "l = min (sng_basename_len g) 2"
  define key where "key n = (u16_from_hex (take 4 (drop l n)), to_digit10 (n ! (l + 4 + 1)))" for n
  let ?pairs = "Some ` (UNIV :: u16 set) \<times> Some ` {1..<10 :: nat}"
  have "p \<in> key ` set names" if p: "p \<in> ?pairs" for p
  proof -
    from p obtain c i where ci: "p = (Some c, Some i)" "1 \<le> i" "i < 10" by auto
    define k where "k = unat (c - sng_chksum g)"
    have k: "k < 65536" "sng_chksum g + word_of_nat k = c"
      using unsigned_less [of "c - sng_chksum g", where 'a = nat] by (simp_all add: k_def)
    then obtain e where e: "ShortNameGenerator_generate (add_all names (round names g k)) = Inl e"
      using no by (cases "ShortNameGenerator_generate (add_all names (round names g k))") auto
    obtain n where n: "n \<in> set names" "short_collides (round names g k) n i"
      by (rule generate_fails [OF e round_clear [OF ok(2)] ci(2,3)]) blast
    have "key n = p" using n(2) k(2) ci(1) by (simp add: short_collides_def key_def round_facts l_def Let_def)
    then show ?thesis using n(1) by blast
  qed
  then have "?pairs \<subseteq> key ` set names" by blast
  then have "card ?pairs \<le> card (key ` set names)" by (intro card_mono) simp_all
  also have "\<dots> \<le> length names" using card_image_le [of "set names" key] card_length [of names] by simp
  finally have "card (UNIV :: u16 set) * 9 \<le> length names" by (simp add: card_cartesian_product card_image)
  then show False using few by (simp add: card_word)
qed

text \<open>
  Property C40. The search for a short name ends: in a directory of fewer than \<open>9 \<sqdot> 65536\<close> entries
  one of the first 65536 rounds produces a name. A FAT directory has at most 65536 entries.
\<close>

theorem short_name_search_ends:
  assumes "ShortNameGenerator_new name = Some g" "length names < 9 * 65536"
  shows "\<exists>k sn. k < 65536 \<and> ShortNameGenerator_generate (add_all names (round names g k)) = Inr sn"
  using search_ends [OF ShortNameGenerator_new_ok(1,3) [OF assms(1)] assms(2)] .

theorem short_name_search_ends_witness:
  "ShortNameGenerator_new [0x41] = Some gen_A \<and> length [name_A] < 9 * 65536
     \<and> (\<exists>k sn. k < 65536 \<and> ShortNameGenerator_generate (add_all [name_A] (round [name_A] gen_A k)) = Inr sn)"
proof -
  have "length [name_A] < 9 * 65536" by simp
  from short_name_search_ends [OF gen_A_new this] show ?thesis using gen_A_new by simp
qed

end
