(* ===== verification/Fat_Dir.thy ===== *)
theory Fat_Dir
  imports Fat_File_Ops Fat_Short_Names
begin

text \<open>
  Directories (\<^verbatim>\<open>rust-fatfs/src/dir.rs\<close>, \<^verbatim>\<open>DirEntry\<close> of \<^verbatim>\<open>dir_entry.rs\<close> and \<^verbatim>\<open>root_dir\<close> of \<^verbatim>\<open>fs.rs\<close>): the
  iterator over the entries of a directory, lookup, creation, removal and renaming.

  A directory borrows its file system. The file system is the state, and a directory is its stream.
  A stream on a chain of clusters is a \<^verbatim>\<open>File\<close>, which flushes when it is dropped: the combinators
  \<open>with_raw\<close> and \<open>with_dir\<close> drop at the end of a scope, \<open>guard_raw\<close> and \<open>guard_dir\<close> when an error leaves it.
\<close>

section \<open>Strings\<close>

definition encode_utf16_char :: "rchar \<Rightarrow> u16 list" where
  "encode_utf16_char c = (if c < 0x10000 then [ucast c]
     else let c = c - 0x10000 in [0xD800 OR ucast (drop_bit 10 c), 0xDC00 OR (ucast c AND 0x3FF)])"

definition encode_utf16 :: "rchar list \<Rightarrow> u16 list" where
  "encode_utf16 s = concat (map encode_utf16_char s)"

text \<open>Decoding: \<^term>\<open>None\<close> stands for an unpaired surrogate.\<close>

fun decode_utf16 :: "u16 list \<Rightarrow> rchar option list" where
  "decode_utf16 [] = []"
| "decode_utf16 (u # us) =
     (if u < 0xD800 \<or> 0xDFFF < u then Some (ucast u) # decode_utf16 us
      else if 0xDC00 \<le> u then None # decode_utf16 us
      else case us of
        [] \<Rightarrow> [None]
      | v # vs \<Rightarrow>
          if v < 0xDC00 \<or> 0xDFFF < v then None # decode_utf16 us
          else Some (push_bit 10 (ucast (u AND 0x3FF)) + ucast (v AND 0x3FF) + 0x10000) # decode_utf16 vs)"

definition from_utf16_lossy :: "u16 list \<Rightarrow> rchar list" where
  "from_utf16_lossy us = map (\<lambda>r. case r of Some c \<Rightarrow> c | None \<Rightarrow> 0xFFFD) (decode_utf16 us)"

definition trim_slashes :: "rchar list \<Rightarrow> rchar list" where
  "trim_slashes s = rev (dropWhile (\<lambda>c. c = 0x2F) (rev (dropWhile (\<lambda>c. c = 0x2F) s)))"

definition split_path :: "rchar list \<Rightarrow> rchar list \<times> rchar list option" where
  "split_path path =
     (let trimmed_path = trim_slashes path
      in case dropWhile (\<lambda>c. c \<noteq> 0x2F) trimmed_path of
           [] \<Rightarrow> (trimmed_path, None)
         | _ # rest \<Rightarrow> (takeWhile (\<lambda>c. c \<noteq> 0x2F) trimmed_path, Some rest))"

lemma split_path_shorter: "split_path path = (name, Some rest) \<Longrightarrow> length rest < length path"
proof -
  assume "split_path path = (name, Some rest)"
  then obtain c where "dropWhile (\<lambda>c. c \<noteq> 0x2F) (trim_slashes path) = c # rest"
    by (auto simp: split_path_def Let_def split: list.splits)
  then have "length (c # rest) \<le> length (trim_slashes path)" by (metis length_dropWhile_le)
  also have "\<dots> \<le> length path"
    unfolding trim_slashes_def by (metis length_dropWhile_le length_rev order_trans)
  finally show ?thesis by simp
qed

section \<open>Streams\<close>

datatype DirRawStream = DirRawStream_File File | DirRawStream_Root DiskSlice

definition raw_op :: "(File \<times> 's FileSystem, 'a) fat_io \<Rightarrow> (DiskSlice \<times> 's FileSystem, 'a) fat_io \<Rightarrow> (DirRawStream \<times> 's FileSystem, 'a) fat_io" where
  "raw_op m1 m2 = (\<lambda>(self, fs). case self of
     DirRawStream_File file \<Rightarrow> do { (r, (file, fs)) \<leftarrow> m1 (file, fs); Some (r, (DirRawStream_File file, fs)) }
   | DirRawStream_Root raw \<Rightarrow> do { (r, (raw, fs)) \<leftarrow> m2 (raw, fs); Some (r, (DirRawStream_Root raw, fs)) })"

definition DirRawStream_abs_pos :: "DirRawStream \<Rightarrow> 's FileSystem \<Rightarrow> u64 option option" where
  "DirRawStream_abs_pos self fs = (case self of
     DirRawStream_File file \<Rightarrow> File_abs_pos file fs
   | DirRawStream_Root raw \<Rightarrow> Some (Some (DiskSlice_abs_pos raw)))"

definition DirRawStream_first_cluster :: "DirRawStream \<Rightarrow> u32 option" where
  "DirRawStream_first_cluster self = (case self of
     DirRawStream_File file \<Rightarrow> f_first_cluster file
   | DirRawStream_Root _ \<Rightarrow> None)"

definition DirRawStream_read :: "'s stream \<Rightarrow> nat \<Rightarrow> (DirRawStream \<times> 's FileSystem, u8 list) fat_io" where
  "DirRawStream_read st n = raw_op (File_read st n) (DiskSlice_read (FsIoAdapter st) n)"

definition DirRawStream_write :: "'s stream \<Rightarrow> u8 list \<Rightarrow> (DirRawStream \<times> 's FileSystem, nat) fat_io" where
  "DirRawStream_write st buf = raw_op (File_write st buf) (DiskSlice_write (FsIoAdapter st) buf)"

definition DirRawStream_flush :: "'s stream \<Rightarrow> (DirRawStream \<times> 's FileSystem, unit) fat_io" where
  "DirRawStream_flush st = raw_op (File_flush st) (DiskSlice_flush (FsIoAdapter st))"

definition DirRawStream_seek :: "'s stream \<Rightarrow> SeekFrom \<Rightarrow> (DirRawStream \<times> 's FileSystem, u64) fat_io" where
  "DirRawStream_seek st pos = raw_op (File_seek st pos) (DiskSlice_seek pos)"

definition raw_stream :: "'s stream \<Rightarrow> (DirRawStream \<times> 's FileSystem) stream" where
  "raw_stream st = \<lparr>st_read = DirRawStream_read st, st_write = DirRawStream_write st, st_flush = DirRawStream_flush st,
     st_seek = DirRawStream_seek st, st_eof = UnexpectedEof, st_zero = WriteZero\<rparr>"

definition DirRawStream_drop :: "'s stream \<Rightarrow> DirRawStream \<Rightarrow> 's FileSystem \<Rightarrow> 's FileSystem option" where
  "DirRawStream_drop st self fs = (case self of
     DirRawStream_File file \<Rightarrow> File_drop st file fs
   | DirRawStream_Root _ \<Rightarrow> Some fs)"

definition with_raw :: "'s stream \<Rightarrow> DirRawStream \<Rightarrow> (DirRawStream \<times> 's FileSystem, 'a) fat_io \<Rightarrow> ('s FileSystem, 'a) fat_io" where
  "with_raw st raw m fs = do {
     (r, (raw, fs)) \<leftarrow> m (raw, fs);
     fs \<leftarrow> DirRawStream_drop st raw fs;
     Some (r, fs) }"

definition guard_raw :: "'s stream \<Rightarrow> DirRawStream \<Rightarrow> (DirRawStream \<times> 's FileSystem, 'a) fat_io \<Rightarrow> ('s FileSystem, 'a \<times> DirRawStream) fat_io" where
  "guard_raw st raw m fs = do {
     (r, (raw, fs)) \<leftarrow> m (raw, fs);
     case r of
       Inr x \<Rightarrow> Some (Inr (x, raw), fs)
     | Inl e \<Rightarrow> do { fs \<leftarrow> DirRawStream_drop st raw fs; Some (Inl e, fs) } }"

record Dir =
  dir_stream :: DirRawStream

definition Dir_new :: "DirRawStream \<Rightarrow> Dir" where
  "Dir_new stream = \<lparr>dir_stream = stream\<rparr>"

definition with_dir :: "'s stream \<Rightarrow> Dir \<Rightarrow> ('s FileSystem, 'a) fat_io \<Rightarrow> ('s FileSystem, 'a) fat_io" where
  "with_dir st d m fs = do {
     (r, fs) \<leftarrow> m fs;
     fs \<leftarrow> DirRawStream_drop st (dir_stream d) fs;
     Some (r, fs) }"

definition guard_dir :: "'s stream \<Rightarrow> Dir \<Rightarrow> ('s FileSystem, 'a) fat_io \<Rightarrow> ('s FileSystem, 'a) fat_io" where
  "guard_dir st d m fs = do {
     (r, fs) \<leftarrow> m fs;
     case r of
       Inr x \<Rightarrow> Some (Inr x, fs)
     | Inl e \<Rightarrow> do { fs \<leftarrow> DirRawStream_drop st (dir_stream d) fs; Some (Inl e, fs) } }"

definition FileSystem_root_dir :: "'s FileSystem \<Rightarrow> Dir" where
  "FileSystem_root_dir self = Dir_new (case fs_fat_type self of
     Fat32 \<Rightarrow> DirRawStream_File (File_new (Some (bpb_root_dir_first_cluster (fs_bpb self))) None)
   | _ \<Rightarrow> DirRawStream_Root (DiskSlice_from_sectors (fs_first_data_sector self - fs_root_dir_sectors self) (fs_root_dir_sectors self) 1 (fs_bpb self)))"

section \<open>Entries\<close>

record DirEntry =
  den_data :: DirFileEntryData
  den_short_name :: ShortName
  den_lfn_utf16 :: LfnBuffer
  den_entry_pos :: u64
  den_offset_range :: "u64 \<times> u64"

definition DirEntry_short_file_name :: "DirEntry \<Rightarrow> rchar list" where
  "DirEntry_short_file_name self = ShortName_to_string (den_short_name self)"

definition DirEntry_short_file_name_as_bytes :: "DirEntry \<Rightarrow> u8 list" where
  "DirEntry_short_file_name_as_bytes self = ShortName_as_bytes (den_short_name self)"

definition long_file_name_as_ucs2_units :: "DirEntry \<Rightarrow> u16 list option" where
  "long_file_name_as_ucs2_units self =
     (if LfnBuffer_len (den_lfn_utf16 self) > 0 then Some (LfnBuffer_as_ucs2_units (den_lfn_utf16 self)) else None)"

definition DirEntry_file_name :: "DirEntry \<Rightarrow> rchar list" where
  "DirEntry_file_name self = (case long_file_name_as_ucs2_units self of
     Some lfn \<Rightarrow> from_utf16_lossy lfn
   | None \<Rightarrow> ShortName_to_string (DirFileEntryData_lowercase_name (den_data self)))"

definition DirEntry_attributes :: "DirEntry \<Rightarrow> FileAttributes" where
  "DirEntry_attributes self = dfe_attrs (den_data self)"

definition DirEntry_is_dir :: "DirEntry \<Rightarrow> bool" where
  "DirEntry_is_dir self \<longleftrightarrow> DirFileEntryData_is_dir (den_data self)"

definition DirEntry_is_file :: "DirEntry \<Rightarrow> bool" where
  "DirEntry_is_file self \<longleftrightarrow> DirFileEntryData_is_file (den_data self)"

definition DirEntry_first_cluster :: "DirEntry \<Rightarrow> FatType \<Rightarrow> u32 option" where
  "DirEntry_first_cluster self fat_type = DirFileEntryData_first_cluster (den_data self) fat_type"

definition DirEntry_editor :: "DirEntry \<Rightarrow> DirEntryEditor" where
  "DirEntry_editor self = DirEntryEditor_new (den_data self) (den_entry_pos self)"

definition is_same_entry :: "DirEntry \<Rightarrow> DirEntry \<Rightarrow> bool" where
  "is_same_entry self other \<longleftrightarrow> den_entry_pos self = den_entry_pos other"

definition DirEntry_to_file :: "DirEntry \<Rightarrow> ('s FileSystem, File) fat_io" where
  "DirEntry_to_file self = io_bind (io_assert (\<not> DirEntry_is_dir self)) (\<lambda>_.
     io_get (\<lambda>fs. File_new (DirEntry_first_cluster self (fs_fat_type fs)) (Some (DirEntry_editor self))))"

definition DirEntry_to_dir :: "DirEntry \<Rightarrow> ('s FileSystem, Dir) fat_io" where
  "DirEntry_to_dir self = io_bind (io_assert (DirEntry_is_dir self)) (\<lambda>_.
     io_get (\<lambda>fs. case DirEntry_first_cluster self (fs_fat_type fs) of
         Some n \<Rightarrow> Dir_new (DirRawStream_File (File_new (Some n) (Some (DirEntry_editor self))))
       | None \<Rightarrow> FileSystem_root_dir fs))"

definition DirEntry_len :: "DirEntry \<Rightarrow> u64" where
  "DirEntry_len self = ucast (dfe_size (den_data self))"

definition DirEntry_created :: "DirEntry \<Rightarrow> DateTime" where
  "DirEntry_created self = DirFileEntryData_created (den_data self)"

definition DirEntry_accessed :: "DirEntry \<Rightarrow> Date" where
  "DirEntry_accessed self = DirFileEntryData_accessed (den_data self)"

definition DirEntry_modified :: "DirEntry \<Rightarrow> DateTime" where
  "DirEntry_modified self = DirFileEntryData_modified (den_data self)"

definition raw_short_name :: "DirEntry \<Rightarrow> u8 list" where
  "raw_short_name self = dfe_name (den_data self)"

fun eq_upper :: "rchar option list \<Rightarrow> rchar list \<Rightarrow> bool" where
  "eq_upper [] other = (other = [])"
| "eq_upper (None # _) other = False"
| "eq_upper (Some c # rest) other =
     (let u = char_to_uppercase c in take (length u) other = u \<and> eq_upper rest (drop (length u) other))"

definition eq_name_lfn :: "DirEntry \<Rightarrow> rchar list \<Rightarrow> bool" where
  "eq_name_lfn self name = (case long_file_name_as_ucs2_units self of
     Some lfn \<Rightarrow> eq_upper (decode_utf16 lfn) (concat (map char_to_uppercase name))
   | None \<Rightarrow> False)"

definition DirEntry_eq_name :: "DirEntry \<Rightarrow> rchar list \<Rightarrow> bool" where
  "DirEntry_eq_name self name \<longleftrightarrow> eq_name_lfn self name \<or> ShortName_eq_ignore_case (den_short_name self) name"

section \<open>The iterator\<close>

record DirIter =
  di_stream :: DirRawStream
  di_skip_volume :: bool
  di_err :: bool

definition DirIter_new :: "DirRawStream \<Rightarrow> bool \<Rightarrow> DirIter" where
  "DirIter_new stream skip_volume = \<lparr>di_stream = stream, di_skip_volume = skip_volume, di_err = False\<rparr>"

definition Dir_iter :: "Dir \<Rightarrow> DirIter" where
  "Dir_iter self = DirIter_new (dir_stream self) True"

definition should_skip_entry :: "bool \<Rightarrow> DirEntryData \<Rightarrow> bool" where
  "should_skip_entry skip_volume raw_entry \<longleftrightarrow> DirEntryData_is_deleted raw_entry
     \<or> (case raw_entry of DirEntryData_File sfn_entry \<Rightarrow> skip_volume \<and> DirFileEntryData_is_volume sfn_entry | DirEntryData_Lfn _ \<Rightarrow> False)"

text \<open>The entry that \<^verbatim>\<open>read_dir_entry\<close> returns for a short name entry, with the stream behind it.\<close>

definition file_entry :: "DirFileEntryData \<Rightarrow> LongNameBuilder \<Rightarrow> u64 \<Rightarrow> u64 \<Rightarrow> u64 \<Rightarrow> DirEntry" where
  "file_entry data lfn_builder end_abs_pos begin_offset offset =
     \<lparr>den_data = data, den_short_name = ShortName_new (dfe_name data),
      den_lfn_utf16 = LongNameBuilder_into_buf (LongNameBuilder_validate_chksum (dfe_name data) lfn_builder),
      den_entry_pos = end_abs_pos - ucast DIR_ENTRY_SIZE, den_offset_range = (begin_offset, offset)\<rparr>"

partial_function (option) read_dir_entry_loop ::
  "'s stream \<Rightarrow> bool \<Rightarrow> LongNameBuilder \<Rightarrow> u64 \<Rightarrow> u64 \<Rightarrow> (DirRawStream \<times> 's FileSystem, DirEntry option) fat_io" where
  "read_dir_entry_loop st skip_volume lfn_builder offset begin_offset s =
     io_bind (DirEntryData_deserialize (raw_stream st)) (\<lambda>raw_entry s.
       let offset = offset + ucast DIR_ENTRY_SIZE in
       if DirEntryData_is_end raw_entry then io_return None s
       else if should_skip_entry skip_volume raw_entry then
         read_dir_entry_loop st skip_volume (LongNameBuilder_clear lfn_builder) offset offset s
       else case raw_entry of
           DirEntryData_File data \<Rightarrow> do {
             abs_pos \<leftarrow> DirRawStream_abs_pos (fst s) (snd s);
             end_abs_pos \<leftarrow> abs_pos;
             io_return (Some (file_entry data lfn_builder end_abs_pos begin_offset offset)) s }
         | DirEntryData_Lfn data \<Rightarrow> do {
             lfn_builder \<leftarrow> LongNameBuilder_process data lfn_builder;
             read_dir_entry_loop st skip_volume lfn_builder offset begin_offset s }) s"

declare read_dir_entry_loop.simps [code]

definition read_dir_entry :: "'s stream \<Rightarrow> bool \<Rightarrow> (DirRawStream \<times> 's FileSystem, DirEntry option) fat_io" where
  "read_dir_entry st skip_volume = io_bind (DirRawStream_seek st (Current 0)) (\<lambda>offset.
     read_dir_entry_loop st skip_volume LongNameBuilder_new offset offset)"

definition DirIter_next :: "'s stream \<Rightarrow> DirIter \<Rightarrow> 's FileSystem \<Rightarrow> ((Error + DirEntry) option \<times> DirIter \<times> 's FileSystem) option" where
  "DirIter_next st self fs =
     (if di_err self then Some (None, self, fs)
      else do {
        (r, (stream, fs)) \<leftarrow> read_dir_entry st (di_skip_volume self) (di_stream self, fs);
        let self = self\<lparr>di_stream := stream\<rparr>;
        Some (case r of
            Inr (Some e) \<Rightarrow> (Some (Inr e), self, fs)
          | Inr None \<Rightarrow> (None, self, fs)
          | Inl err \<Rightarrow> (Some (Inl err), self\<lparr>di_err := True\<rparr>, fs)) })"

section \<open>Looking for entries\<close>

partial_function (option) find_entry_loop ::
  "'s stream \<Rightarrow> rchar list \<Rightarrow> bool option \<Rightarrow> DirIter \<Rightarrow> ShortNameGenerator option \<Rightarrow> 's FileSystem \<Rightarrow>
     ((Error + DirEntry) \<times> DirIter \<times> ShortNameGenerator option \<times> 's FileSystem) option" where
  "find_entry_loop st name is_dir it gen fs = do {
     (item, it, fs) \<leftarrow> DirIter_next st it fs;
     (case item of
        None \<Rightarrow> Some (Inl NotFound, it, gen, fs)
      | Some (Inl err) \<Rightarrow> Some (Inl err, it, gen, fs)
      | Some (Inr e) \<Rightarrow>
          if DirEntry_eq_name e name then
            Some (if is_dir \<noteq> None \<and> Some (DirEntry_is_dir e) \<noteq> is_dir then Inl InvalidInput else Inr e, it, gen, fs)
          else find_entry_loop st name is_dir it (map_option (add_existing (raw_short_name e)) gen) fs) }"

declare find_entry_loop.simps [code]

definition find_entry_gen :: "'s stream \<Rightarrow> Dir \<Rightarrow> rchar list \<Rightarrow> bool option \<Rightarrow> ShortNameGenerator option \<Rightarrow> 's FileSystem \<Rightarrow>
    ((Error + DirEntry) \<times> ShortNameGenerator option \<times> 's FileSystem) option" where
  "find_entry_gen st self name is_dir gen fs = do {
     (r, it, gen, fs) \<leftarrow> find_entry_loop st name is_dir (Dir_iter self) gen fs;
     fs \<leftarrow> DirRawStream_drop st (di_stream it) fs;
     Some (r, gen, fs) }"

definition Dir_find_entry :: "'s stream \<Rightarrow> Dir \<Rightarrow> rchar list \<Rightarrow> bool option \<Rightarrow> ('s FileSystem, DirEntry) fat_io" where
  "Dir_find_entry st self name is_dir fs = do {
     (r, _, fs) \<leftarrow> find_entry_gen st self name is_dir None fs;
     Some (r, fs) }"

partial_function (option) find_volume_loop :: "'s stream \<Rightarrow> DirIter \<Rightarrow> 's FileSystem \<Rightarrow> ((Error + DirEntry option) \<times> DirIter \<times> 's FileSystem) option" where
  "find_volume_loop st it fs = do {
     (item, it, fs) \<leftarrow> DirIter_next st it fs;
     (case item of
        None \<Rightarrow> Some (Inr None, it, fs)
      | Some (Inl err) \<Rightarrow> Some (Inl err, it, fs)
      | Some (Inr e) \<Rightarrow> if DirFileEntryData_is_volume (den_data e) then Some (Inr (Some e), it, fs) else find_volume_loop st it fs) }"

declare find_volume_loop.simps [code]

definition find_volume_entry :: "'s stream \<Rightarrow> Dir \<Rightarrow> ('s FileSystem, DirEntry option) fat_io" where
  "find_volume_entry st self fs = do {
     (r, it, fs) \<leftarrow> find_volume_loop st (DirIter_new (dir_stream self) False) fs;
     fs \<leftarrow> DirRawStream_drop st (di_stream it) fs;
     Some (r, fs) }"

datatype DirEntryOrShortName = DirEntryOrShortName_DirEntry DirEntry | DirEntryOrShortName_ShortName "u8 list"

partial_function (option) check_for_existence_loop ::
  "'s stream \<Rightarrow> Dir \<Rightarrow> rchar list \<Rightarrow> bool option \<Rightarrow> ShortNameGenerator \<Rightarrow> ('s FileSystem, DirEntryOrShortName) fat_io" where
  "check_for_existence_loop st self name is_dir gen fs = do {
     (r, gen_opt, fs) \<leftarrow> find_entry_gen st self name is_dir (Some gen) fs;
     gen \<leftarrow> gen_opt;
     (case r of
        Inr e \<Rightarrow> Some (Inr (DirEntryOrShortName_DirEntry e), fs)
      | Inl err \<Rightarrow>
          if err \<noteq> NotFound then Some (Inl err, fs)
          else case ShortNameGenerator_generate gen of
              Inr short_name \<Rightarrow> Some (Inr (DirEntryOrShortName_ShortName short_name), fs)
            | Inl _ \<Rightarrow> check_for_existence_loop st self name is_dir (next_iteration gen) fs) }"

declare check_for_existence_loop.simps [code]

definition check_for_existence :: "'s stream \<Rightarrow> Dir \<Rightarrow> rchar list \<Rightarrow> bool option \<Rightarrow> ('s FileSystem, DirEntryOrShortName) fat_io" where
  "check_for_existence st self name is_dir fs = do {
     gen \<leftarrow> ShortNameGenerator_new name;
     check_for_existence_loop st self name is_dir gen fs }"

function open_dir :: "'s stream \<Rightarrow> Dir \<Rightarrow> rchar list \<Rightarrow> ('s FileSystem, Dir) fat_io" where
  "open_dir st self path = (case split_path path of (name, rest_opt) \<Rightarrow>
     io_bind (Dir_find_entry st self name (Some True)) (\<lambda>e.
     io_bind (DirEntry_to_dir e) (\<lambda>d.
       case rest_opt of Some rest \<Rightarrow> with_dir st d (open_dir st d rest) | None \<Rightarrow> io_return d)))"
  by pat_completeness auto
termination by (relation "measure (\<lambda>(_, _, path). length path)") (auto dest: split_path_shorter [OF sym])

function open_file :: "'s stream \<Rightarrow> Dir \<Rightarrow> rchar list \<Rightarrow> ('s FileSystem, File) fat_io" where
  "open_file st self path = (case split_path path of (name, rest_opt) \<Rightarrow>
     (case rest_opt of
        Some rest \<Rightarrow>
          io_bind (Dir_find_entry st self name (Some True)) (\<lambda>e.
          io_bind (DirEntry_to_dir e) (\<lambda>d. with_dir st d (open_file st d rest)))
      | None \<Rightarrow> io_bind (Dir_find_entry st self name (Some False)) DirEntry_to_file))"
  by pat_completeness auto
termination by (relation "measure (\<lambda>(_, _, path). length path)") (auto dest: split_path_shorter [OF sym])

declare open_dir.simps [simp del] open_file.simps [simp del]

section \<open>Writing entries\<close>

partial_function (option) find_free_entries_loop ::
  "'s stream \<Rightarrow> u32 \<Rightarrow> u32 \<Rightarrow> u32 \<Rightarrow> u32 \<Rightarrow> (DirRawStream \<times> 's FileSystem, unit) fat_io" where
  "find_free_entries_loop st num_entries first_free num_free i s =
     io_bind (DirEntryData_deserialize (raw_stream st)) (\<lambda>raw_entry s.
       if DirEntryData_is_end raw_entry then
         (let first_free = (if num_free = 0 then i else first_free)
          in io_bind (DirRawStream_seek st (Start (ucast (first_free * DIR_ENTRY_SIZE)))) (\<lambda>_. io_return ()) s)
       else if DirEntryData_is_deleted raw_entry then
         (let first_free = (if num_free = 0 then i else first_free);
              num_free = num_free + 1
          in if num_free = num_entries
             then io_bind (DirRawStream_seek st (Start (ucast (first_free * DIR_ENTRY_SIZE)))) (\<lambda>_. io_return ()) s
             else find_free_entries_loop st num_entries first_free num_free (i + 1) s)
       else find_free_entries_loop st num_entries first_free 0 (i + 1) s) s"

declare find_free_entries_loop.simps [code]

definition find_free_entries :: "'s stream \<Rightarrow> Dir \<Rightarrow> u32 \<Rightarrow> ('s FileSystem, DirRawStream) fat_io" where
  "find_free_entries st self num_entries =
     io_bind (guard_raw st (dir_stream self) (find_free_entries_loop st num_entries 0 0 0)) (\<lambda>(_, stream). io_return stream)"

definition create_sfn_entry :: "u8 list \<Rightarrow> FileAttributes \<Rightarrow> u32 option \<Rightarrow> 's FileSystem \<Rightarrow> DirFileEntryData" where
  "create_sfn_entry short_name attrs first_cluster fs =
     (let raw_entry = DirFileEntryData_new short_name attrs;
          raw_entry = DirFileEntryData_set_first_cluster first_cluster (fs_fat_type fs) raw_entry;
          now = get_current_date_time;
          raw_entry = DirFileEntryData_set_created now raw_entry;
          raw_entry = DirFileEntryData_set_accessed (dt_date now) raw_entry
      in DirFileEntryData_set_modified now raw_entry)"

definition encode_lfn_utf16 :: "rchar list \<Rightarrow> LfnBuffer" where
  "encode_lfn_utf16 name = LfnBuffer_from_ucs2_units (encode_utf16 name)"

definition alloc_and_write_lfn_entries :: "'s stream \<Rightarrow> Dir \<Rightarrow> LfnBuffer \<Rightarrow> u8 list \<Rightarrow> ('s FileSystem, u64 \<times> DirRawStream) fat_io" where
  "alloc_and_write_lfn_entries st self lfn_utf16 short_name =
     (let lfn_chsum = lfn_checksum short_name;
          lfn_iter = LfnEntriesGenerator_new (LfnBuffer_as_ucs2_units lfn_utf16) lfn_chsum;
          num_entries = word_of_nat (fst (LfnEntriesGenerator_size_hint lfn_iter)) + 1
      in io_bind (find_free_entries st self num_entries) (\<lambda>stream.
         guard_raw st stream (
           io_bind (DirRawStream_seek st (Current 0)) (\<lambda>start_pos.
           io_bind (io_seq (map (\<lambda>lfn_entry. DirLfnEntryData_serialize lfn_entry (raw_stream st)) (lfn_entries lfn_iter))) (\<lambda>_.
           io_return start_pos)))))"

definition write_entry :: "'s stream \<Rightarrow> Dir \<Rightarrow> rchar list \<Rightarrow> DirFileEntryData \<Rightarrow> ('s FileSystem, DirEntry) fat_io" where
  "write_entry st self name raw_entry =
     io_bind (io_of_result (validate_long_name name)) (\<lambda>_.
     let lfn_utf16 = encode_lfn_utf16 name in
     io_bind (alloc_and_write_lfn_entries st self lfn_utf16 (dfe_name raw_entry)) (\<lambda>(start_pos, stream).
     with_raw st stream (
       io_bind (DirFileEntryData_serialize raw_entry (raw_stream st)) (\<lambda>_.
       io_bind (DirRawStream_seek st (Current 0)) (\<lambda>end_pos s. do {
         abs_pos \<leftarrow> DirRawStream_abs_pos (fst s) (snd s);
         end_abs_pos \<leftarrow> abs_pos;
         let start_abs_pos = end_abs_pos - ucast DIR_ENTRY_SIZE;
         io_return \<lparr>den_data = raw_entry, den_short_name = ShortName_new (dfe_name raw_entry), den_lfn_utf16 = lfn_utf16,
           den_entry_pos = start_abs_pos, den_offset_range = (start_pos, end_pos)\<rparr> s })))))"

section \<open>Creating files and directories\<close>

function create_file :: "'s stream \<Rightarrow> Dir \<Rightarrow> rchar list \<Rightarrow> ('s FileSystem, File) fat_io" where
  "create_file st self path = (case split_path path of (name, rest_opt) \<Rightarrow>
     (case rest_opt of
        Some rest \<Rightarrow>
          io_bind (Dir_find_entry st self name (Some True)) (\<lambda>e.
          io_bind (DirEntry_to_dir e) (\<lambda>d. with_dir st d (create_file st d rest)))
      | None \<Rightarrow>
          io_bind (check_for_existence st self name (Some False)) (\<lambda>r. case r of
              DirEntryOrShortName_ShortName short_name \<Rightarrow>
                io_bind (io_get (create_sfn_entry short_name 0 None)) (\<lambda>sfn_entry.
                io_bind (write_entry st self name sfn_entry) DirEntry_to_file)
            | DirEntryOrShortName_DirEntry e \<Rightarrow> DirEntry_to_file e)))"
  by pat_completeness auto
termination by (relation "measure (\<lambda>(_, _, path). length path)") (auto dest: split_path_shorter [OF sym])

definition create_dot_entries :: "'s stream \<Rightarrow> Dir \<Rightarrow> DirEntry \<Rightarrow> Dir \<Rightarrow> ('s FileSystem, unit) fat_io" where
  "create_dot_entries st self entry dir =
     io_bind (io_get (\<lambda>fs. create_sfn_entry generate_dot DIRECTORY (DirEntry_first_cluster entry (fs_fat_type fs)) fs)) (\<lambda>sfn_entry.
     io_bind (write_entry st dir [0x2E] sfn_entry) (\<lambda>_.
     io_bind (io_get (create_sfn_entry generate_dotdot DIRECTORY (DirRawStream_first_cluster (dir_stream self)))) (\<lambda>sfn_entry.
     io_bind (write_entry st dir [0x2E, 0x2E] sfn_entry) (\<lambda>_.
     io_return ()))))"

function create_dir :: "'s stream \<Rightarrow> Dir \<Rightarrow> rchar list \<Rightarrow> ('s FileSystem, Dir) fat_io" where
  "create_dir st self path = (case split_path path of (name, rest_opt) \<Rightarrow>
     (case rest_opt of
        Some rest \<Rightarrow>
          io_bind (Dir_find_entry st self name (Some True)) (\<lambda>e.
          io_bind (DirEntry_to_dir e) (\<lambda>d. with_dir st d (create_dir st d rest)))
      | None \<Rightarrow>
          io_bind (check_for_existence st self name (Some True)) (\<lambda>r. case r of
              DirEntryOrShortName_ShortName short_name \<Rightarrow>
                io_bind (FileSystem_alloc_cluster st None True) (\<lambda>cluster.
                io_bind (io_get (create_sfn_entry short_name DIRECTORY (Some cluster))) (\<lambda>sfn_entry.
                io_bind (write_entry st self name sfn_entry) (\<lambda>entry.
                io_bind (DirEntry_to_dir entry) (\<lambda>dir.
                io_bind (guard_dir st dir (create_dot_entries st self entry dir)) (\<lambda>_.
                io_return dir)))))
            | DirEntryOrShortName_DirEntry e \<Rightarrow> DirEntry_to_dir e)))"
  by pat_completeness auto
termination by (relation "measure (\<lambda>(_, _, path). length path)") (auto dest: split_path_shorter [OF sym])

section \<open>Removing and renaming\<close>

partial_function (option) is_empty_loop :: "'s stream \<Rightarrow> DirIter \<Rightarrow> 's FileSystem \<Rightarrow> ((Error + bool) \<times> DirIter \<times> 's FileSystem) option" where
  "is_empty_loop st it fs = do {
     (item, it, fs) \<leftarrow> DirIter_next st it fs;
     (case item of
        None \<Rightarrow> Some (Inr True, it, fs)
      | Some (Inl err) \<Rightarrow> Some (Inl err, it, fs)
      | Some (Inr e) \<Rightarrow>
          let name = DirEntry_short_file_name_as_bytes e in
          if name \<noteq> [0x2E] \<and> name \<noteq> [0x2E, 0x2E] then Some (Inr False, it, fs) else is_empty_loop st it fs) }"

declare is_empty_loop.simps [code]

definition Dir_is_empty :: "'s stream \<Rightarrow> Dir \<Rightarrow> ('s FileSystem, bool) fat_io" where
  "Dir_is_empty st self fs = do {
     (r, it, fs) \<leftarrow> is_empty_loop st (Dir_iter self) fs;
     fs \<leftarrow> DirRawStream_drop st (di_stream it) fs;
     Some (r, fs) }"

fun delete_entries :: "'s stream \<Rightarrow> nat \<Rightarrow> (DirRawStream \<times> 's FileSystem, unit) fat_io" where
  "delete_entries st 0 = io_return ()"
| "delete_entries st (Suc n) =
     io_bind (DirEntryData_deserialize (raw_stream st)) (\<lambda>data.
     io_bind (DirRawStream_seek st (Current (- ucast DIR_ENTRY_SIZE))) (\<lambda>_.
     io_bind (DirEntryData_serialize (DirEntryData_set_deleted data) (raw_stream st)) (\<lambda>_.
     delete_entries st n)))"

text \<open>Both callers free the entries of a name this way.\<close>

definition free_entries :: "'s stream \<Rightarrow> DirEntry \<Rightarrow> (DirRawStream \<times> 's FileSystem, unit) fat_io" where
  "free_entries st e =
     io_bind (DirRawStream_seek st (Start (fst (den_offset_range e)))) (\<lambda>_.
     let num = unat ((snd (den_offset_range e) - fst (den_offset_range e)) div ucast DIR_ENTRY_SIZE)
     in delete_entries st num)"

function Dir_remove :: "'s stream \<Rightarrow> Dir \<Rightarrow> rchar list \<Rightarrow> ('s FileSystem, unit) fat_io" where
  "Dir_remove st self path = (case split_path path of (name, rest_opt) \<Rightarrow>
     (case rest_opt of
        Some rest \<Rightarrow>
          io_bind (Dir_find_entry st self name (Some True)) (\<lambda>e.
          io_bind (DirEntry_to_dir e) (\<lambda>d. with_dir st d (Dir_remove st d rest)))
      | None \<Rightarrow>
          io_bind (Dir_find_entry st self name None) (\<lambda>e.
          io_bind (if DirEntry_is_dir e then io_bind (DirEntry_to_dir e) (\<lambda>d. with_dir st d (Dir_is_empty st d)) else io_return True) (\<lambda>empty.
          if \<not> empty then io_err DirectoryIsNotEmpty
          else
            io_bind (io_get (\<lambda>fs. DirEntry_first_cluster e (fs_fat_type fs))) (\<lambda>first_cluster.
            io_bind (case first_cluster of Some n \<Rightarrow> free_cluster_chain st n | None \<Rightarrow> io_return ()) (\<lambda>_.
            with_raw st (dir_stream self) (free_entries st e)))))))"
  by pat_completeness auto
termination by (relation "measure (\<lambda>(_, _, path). length path)") (auto dest: split_path_shorter [OF sym])

definition rename_internal :: "'s stream \<Rightarrow> Dir \<Rightarrow> rchar list \<Rightarrow> Dir \<Rightarrow> rchar list \<Rightarrow> ('s FileSystem, unit) fat_io" where
  "rename_internal st self src_name dst_dir dst_name =
     io_bind (Dir_find_entry st self src_name None) (\<lambda>e.
     io_bind (check_for_existence st dst_dir dst_name None) (\<lambda>r. case r of
         DirEntryOrShortName_DirEntry dst_e \<Rightarrow> if is_same_entry e dst_e then io_return () else io_err AlreadyExists
       | DirEntryOrShortName_ShortName short_name \<Rightarrow>
           with_raw st (dir_stream self) (
             io_bind (free_entries st e) (\<lambda>_.
             io_bind (io_inner (write_entry st dst_dir dst_name (DirFileEntryData_renamed (den_data e) short_name))) (\<lambda>_.
             io_return ())))))"

function rename :: "'s stream \<Rightarrow> Dir \<Rightarrow> rchar list \<Rightarrow> Dir \<Rightarrow> rchar list \<Rightarrow> ('s FileSystem, unit) fat_io" where
  "rename st self src_path dst_dir dst_path = (case split_path src_path of (src_name, src_rest_opt) \<Rightarrow>
     (case src_rest_opt of
        Some rest \<Rightarrow>
          io_bind (Dir_find_entry st self src_name (Some True)) (\<lambda>e.
          io_bind (DirEntry_to_dir e) (\<lambda>d. with_dir st d (rename st d rest dst_dir dst_path)))
      | None \<Rightarrow>
          (case split_path dst_path of (dst_name, dst_rest_opt) \<Rightarrow>
             (case dst_rest_opt of
                Some rest \<Rightarrow>
                  io_bind (Dir_find_entry st dst_dir dst_name (Some True)) (\<lambda>e.
                  io_bind (DirEntry_to_dir e) (\<lambda>d. with_dir st d (rename st self src_path d rest)))
              | None \<Rightarrow> rename_internal st self src_path dst_dir dst_path))))"
  by pat_completeness auto
termination by (relation "measure (\<lambda>(_, _, src_path, _, dst_path). length src_path + length dst_path)") (auto dest: split_path_shorter [OF sym])

declare create_file.simps [simp del] create_dir.simps [simp del] Dir_remove.simps [simp del] rename.simps [simp del]

section \<open>The volume label\<close>

definition read_volume_label_from_root_dir_as_bytes :: "'s stream \<Rightarrow> ('s FileSystem, u8 list option) fat_io" where
  "read_volume_label_from_root_dir_as_bytes st = io_bind (io_get FileSystem_root_dir) (\<lambda>root.
     with_dir st root (io_bind (find_volume_entry st root) (\<lambda>entry_opt.
     io_return (map_option raw_short_name entry_opt))))"

definition read_volume_label_from_root_dir :: "'s stream \<Rightarrow> ('s FileSystem, rchar list option) fat_io" where
  "read_volume_label_from_root_dir st = io_bind (read_volume_label_from_root_dir_as_bytes st) (\<lambda>volume_label_opt.
     io_return (map_option (\<lambda>volume_label.
       let len = rposition_end (\<lambda>b. b \<noteq> SFN_PADDING) volume_label
       in map LossyOemCpConverter_decode (take len volume_label)) volume_label_opt))"

end
