(* ===== verification/Fat_Dir_Search.thy ===== *)
theory Fat_Dir_Search
  imports Fat_Dir
begin

text \<open>
  Searching a directory: what the iterator over the entries and the loops on top of it return, as
  functions of the entries the directory holds.

  The interface \<open>dir_source\<close> says what a directory stream promises to the iterator. The root
  directory of a FAT12 or FAT16 volume on the disk driver implements it.
\<close>

section \<open>The entries of a directory\<close>

text \<open>
  The logical entries of a list of raw entries: long name entries are collected for the short name
  entry behind them; deleted entries and, if asked for, the volume label are skipped. \<^term>\<open>addr\<close>
  is the address on the storage that belongs to an offset in the directory.
\<close>

fun dir_entries :: "(u64 \<Rightarrow> u64) \<Rightarrow> bool \<Rightarrow> LongNameBuilder \<Rightarrow> u64 \<Rightarrow> u64 \<Rightarrow> DirEntryData list \<Rightarrow> DirEntry list" where
  "dir_entries addr sv b off start [] = []"
| "dir_entries addr sv b off start (e # es) = (let off = off + 32 in
     if should_skip_entry sv e then dir_entries addr sv (LongNameBuilder_clear b) off off es
     else case e of
         DirEntryData_File d \<Rightarrow> file_entry d b (addr off) start off # dir_entries addr sv LongNameBuilder_new off off es
       | DirEntryData_Lfn d \<Rightarrow> (case LongNameBuilder_process d b of Some b \<Rightarrow> dir_entries addr sv b off start es | None \<Rightarrow> []))"

definition raw_entry_ok :: "DirEntryData \<Rightarrow> bool" where
  "raw_entry_ok e \<longleftrightarrow> DirEntryData_wf e \<and> \<not> DirEntryData_is_end e"

text \<open>
  The raw entries \<^term>\<open>es\<close> from the position \<^term>\<open>p\<close> on, with an end mark behind them unless they reach
  the end \<^term>\<open>cap\<close> of the directory.
\<close>

definition dir_at :: "nat \<Rightarrow> (nat \<Rightarrow> u8) \<Rightarrow> nat \<Rightarrow> DirEntryData list \<Rightarrow> bool" where
  "dir_at cap f p es \<longleftrightarrow> list_all raw_entry_ok es \<and> bytes_at f p (32 * length es) = concat (map DirEntryData_bytes es)
     \<and> (p + 32 * length es = cap \<or> (\<exists>e. DirEntryData_wf e \<and> DirEntryData_is_end e \<and> p + 32 * length es + 32 \<le> cap
           \<and> bytes_at f (p + 32 * length es) 32 = DirEntryData_bytes e))"

lemma dir_at_Cons:
  assumes "dir_at cap f p (e # es)"
  shows "raw_entry_ok e" "bytes_at f p 32 = DirEntryData_bytes e" "p + 32 \<le> cap" "dir_at cap f (p + 32) es"
proof -
  show e: "raw_entry_ok e" using assms by (simp add: dir_at_def)
  have "bytes_at f p (32 + 32 * length es) = DirEntryData_bytes e @ concat (map DirEntryData_bytes es)"
    using assms by (simp add: dir_at_def)
  moreover have "length (DirEntryData_bytes e) = 32" using e length_DirEntryData_bytes by (simp add: raw_entry_ok_def)
  ultimately have b: "bytes_at f p 32 = DirEntryData_bytes e" "bytes_at f (p + 32) (32 * length es) = concat (map DirEntryData_bytes es)"
    unfolding bytes_at_add by (simp_all add: append_eq_append_conv)
  show "bytes_at f p 32 = DirEntryData_bytes e" by (rule b)
  show "p + 32 \<le> cap" using assms by (auto simp: dir_at_def)
  show "dir_at cap f (p + 32) es" using assms b(2) by (auto simp: dir_at_def add.assoc add.commute)
qed

lemma raw_entry_lfn_ok: "raw_entry_ok (DirEntryData_Lfn d) \<Longrightarrow> lfn_entry_ok d"
  by (simp add: raw_entry_ok_def DirEntryData_wf_def lfn_entry_ok_def)

lemma raw_entry_name: "raw_entry_ok (DirEntryData_File d) \<Longrightarrow> length (dfe_name d) = 11"
  by (simp add: raw_entry_ok_def DirEntryData_wf_def)

text \<open>What \<^verbatim>\<open>find_entry\<close> makes of the entries.\<close>

definition entry_result :: "bool option \<Rightarrow> DirEntry option \<Rightarrow> Error + DirEntry" where
  "entry_result is_dir r = (case r of
     None \<Rightarrow> Inl NotFound
   | Some e \<Rightarrow> if is_dir \<noteq> None \<and> Some (DirEntry_is_dir e) \<noteq> is_dir then Inl InvalidInput else Inr e)"

definition entry_named :: "rchar list \<Rightarrow> DirEntry list \<Rightarrow> DirEntry option" where
  "entry_named name es = find (\<lambda>e. DirEntry_eq_name e name) es"

definition names_before :: "rchar list \<Rightarrow> DirEntry list \<Rightarrow> u8 list list" where
  "names_before name es = map raw_short_name (takeWhile (\<lambda>e. \<not> DirEntry_eq_name e name) es)"

lemma names_before_all: "entry_named name xs = None \<Longrightarrow> names = map raw_short_name xs \<Longrightarrow> names_before name xs = names"
proof -
  assume "entry_named name xs = None" and names: "names = map raw_short_name xs"
  then have "\<forall>x\<in>set xs. \<not> DirEntry_eq_name x name" by (simp add: entry_named_def find_None_iff)
  then have "takeWhile (\<lambda>e. \<not> DirEntry_eq_name e name) xs = xs" by (simp add: takeWhile_eq_all_conv)
  then show ?thesis unfolding names_before_def names by (rule arg_cong)
qed

section \<open>The iterator\<close>

locale dir_source = exact_reader "raw_stream st" ok img pos cap
  for st :: "'s stream" and ok :: "DirRawStream \<times> 's FileSystem \<Rightarrow> bool" and img :: "DirRawStream \<times> 's FileSystem \<Rightarrow> nat \<Rightarrow> u8"
    and pos :: "DirRawStream \<times> 's FileSystem \<Rightarrow> nat" and cap :: nat +
  fixes addr :: "u64 \<Rightarrow> u64" and raw0 :: DirRawStream
  assumes eof_law: "ok s \<Longrightarrow> pos s = cap \<Longrightarrow> \<exists>s'. read_exact (raw_stream st) 11 s = Some (Inl UnexpectedEof, s') \<and> ok s' \<and> img s' = img s"
    and tell_law: "ok s \<Longrightarrow> \<exists>s'. DirRawStream_seek st (Current 0) s = Some (Inr (word_of_nat (pos s)), s') \<and> ok s' \<and> pos s' = pos s \<and> img s' = img s"
    and abs_pos_law: "ok s \<Longrightarrow> 0 < pos s \<Longrightarrow> DirRawStream_abs_pos (fst s) (snd s) = Some (Some (addr (word_of_nat (pos s))))"
    and drop_law: "ok s \<Longrightarrow> \<exists>fs'. DirRawStream_drop st (fst s) (snd s) = Some fs' \<and> ok (raw0, fs') \<and> pos (raw0, fs') = 0 \<and> img (raw0, fs') = img s"
begin

lemma deserialize_entry:
  assumes "ok s" "dir_at cap (img s) (pos s) (e # es)"
  obtains s' where "DirEntryData_deserialize (raw_stream st) s = Some (Inr e, s')" "ok s'" "pos s' = pos s + 32" "img s' = img s"
    "dir_at cap (img s') (pos s') es"
proof -
  note d = dir_at_Cons [OF assms(2)]
  have wf: "DirEntryData_wf e" using d(1) by (simp add: raw_entry_ok_def)
  note len = length_DirEntryData_bytes [OF wf]
  have "pos s + length (DirEntryData_bytes e) \<le> cap" "length (DirEntryData_bytes e) < 2 ^ 32"
    "bytes_at (img s) (pos s) (length (DirEntryData_bytes e)) = DirEntryData_bytes e" unfolding len using d by simp_all
  from parsesD [OF DirEntryData_deserialize_parses [OF wf] assms(1) this] obtain s' where
    "DirEntryData_deserialize (raw_stream st) s = Some (Inr e, s')" "ok s'" "pos s' = pos s + 32" "img s' = img s" unfolding len .
  then show ?thesis using that d(4) by simp
qed

lemma deserialize_end:
  assumes "ok s" "dir_at cap (img s) (pos s) []"
  obtains e s' where "DirEntryData_deserialize (raw_stream st) s = Some (Inr e, s')" "DirEntryData_is_end e" "ok s'" "img s' = img s"
proof (cases "pos s = cap")
  case True
  from eof_law [OF assms(1) this] obtain s' where "read_exact (raw_stream st) SFN_SIZE s = Some (Inl UnexpectedEof, s')" "ok s'" "img s' = img s"
    by (auto simp: SFN_SIZE_def)
  then show ?thesis using that [of "DirEntryData_File DirFileEntryData_default" s']
    by (simp add: DirEntryData_deserialize_def DirEntryData_is_end_def DirFileEntryData_is_end_def DirFileEntryData_default_def SFN_SIZE_def)
next
  case False
  then obtain e where e: "DirEntryData_wf e" "DirEntryData_is_end e" "pos s + 32 \<le> cap" "bytes_at (img s) (pos s) 32 = DirEntryData_bytes e"
    using assms(2) by (auto simp: dir_at_def)
  note len = length_DirEntryData_bytes [OF e(1)]
  have "pos s + length (DirEntryData_bytes e) \<le> cap" "length (DirEntryData_bytes e) < 2 ^ 32"
    "bytes_at (img s) (pos s) (length (DirEntryData_bytes e)) = DirEntryData_bytes e" unfolding len using e by simp_all
  from parsesD [OF DirEntryData_deserialize_parses [OF e(1)] assms(1) this] show ?thesis using that e(2) by metis
qed

lemma read_loop_entries:
  assumes "ok s" "dir_at cap (img s) (pos s) es" "lnb_ok b" "length es \<le> n"
  shows "\<exists>r s'. read_dir_entry_loop st sv b (word_of_nat (pos s)) start s = Some (Inr r, s') \<and> ok s' \<and> img s' = img s
    \<and> (case dir_entries addr sv b (word_of_nat (pos s)) start es of
         [] \<Rightarrow> r = None
       | x # xs \<Rightarrow> r = Some x \<and> (\<exists>es'. length es' < n \<and> dir_at cap (img s') (pos s') es'
           \<and> dir_entries addr sv LongNameBuilder_new (word_of_nat (pos s')) (word_of_nat (pos s')) es' = xs))"
  using assms
proof (induction es arbitrary: s b start)
  case Nil
  obtain e s' where "DirEntryData_deserialize (raw_stream st) s = Some (Inr e, s')" "DirEntryData_is_end e" "ok s'" "img s' = img s"
    by (rule deserialize_end [OF Nil(1,2)])
  then show ?case by (subst read_dir_entry_loop.simps) (simp add: Let_def)
next
  case (Cons e es)
  obtain s' where s': "DirEntryData_deserialize (raw_stream st) s = Some (Inr e, s')" "ok s'" "pos s' = pos s + 32" "img s' = img s"
    "dir_at cap (img s') (pos s') es" by (rule deserialize_entry [OF Cons.prems(1,2)])
  have e: "raw_entry_ok e" using dir_at_Cons(1) [OF Cons.prems(2)] .
  then have ne: "\<not> DirEntryData_is_end e" by (simp add: raw_entry_ok_def)
  have off: "word_of_nat (pos s) + ucast DIR_ENTRY_SIZE = (word_of_nat (pos s') :: u64)" "word_of_nat (pos s) + 32 = (word_of_nat (pos s') :: u64)"
    using s'(3) by (simp_all add: DIR_ENTRY_SIZE_def)
  have n: "length es \<le> n" using Cons.prems(4) by simp
  note unf = read_dir_entry_loop.simps [of st sv b "word_of_nat (pos s)" start s]
  consider (skip) "should_skip_entry sv e" | (entry) d where "\<not> should_skip_entry sv e" "e = DirEntryData_File d"
    | (lfn) d where "\<not> should_skip_entry sv e" "e = DirEntryData_Lfn d" by (cases e) auto
  then show ?case
  proof cases
    case skip
    have loop: "read_dir_entry_loop st sv b (word_of_nat (pos s)) start s
        = read_dir_entry_loop st sv (LongNameBuilder_clear b) (word_of_nat (pos s')) (word_of_nat (pos s')) s'"
      unfolding unf using s'(1) ne skip off(1) by (simp add: Let_def)
    have spec: "dir_entries addr sv b (word_of_nat (pos s)) start (e # es) = dir_entries addr sv (LongNameBuilder_clear b) (word_of_nat (pos s')) (word_of_nat (pos s')) es"
      using skip off(2) by (simp add: Let_def)
    from Cons.IH [OF s'(2,5) lnb_clear_ok n, of b "word_of_nat (pos s')"] show ?thesis
      unfolding loop spec s'(4) .
  next
    case entry
    have "0 < pos s'" using s'(3) by simp
    note abs = abs_pos_law [OF s'(2) this]
    define x where "x = file_entry d b (addr (word_of_nat (pos s'))) start (word_of_nat (pos s'))"
    have run: "read_dir_entry_loop st sv b (word_of_nat (pos s)) start s = Some (Inr (Some x), s')"
      unfolding unf x_def using s'(1) ne entry off(1) abs by (simp add: Let_def)
    have spec: "dir_entries addr sv b (word_of_nat (pos s)) start (e # es) = x # dir_entries addr sv LongNameBuilder_new (word_of_nat (pos s')) (word_of_nat (pos s')) es"
      unfolding x_def using entry off(2) by (simp add: Let_def)
    have "length es < n" using Cons.prems(4) by simp
    then show ?thesis unfolding run spec list.case
      by (intro exI [of _ "Some x"] exI [of _ s'] exI [of _ es] conjI refl s'(2,4,5))
  next
    case lfn
    have "lfn_entry_ok d" using e lfn(2) raw_entry_lfn_ok by blast
    then obtain b' where b': "LongNameBuilder_process d b = Some b'" "lnb_ok b'" using process_ok [OF Cons.prems(3)] by blast
    have loop: "read_dir_entry_loop st sv b (word_of_nat (pos s)) start s = read_dir_entry_loop st sv b' (word_of_nat (pos s')) start s'"
      unfolding unf using s'(1) ne lfn off(1) b'(1) by (simp add: Let_def)
    have spec: "dir_entries addr sv b (word_of_nat (pos s)) start (e # es) = dir_entries addr sv b' (word_of_nat (pos s')) start es"
      using lfn off(2) b'(1) by (simp add: Let_def)
    from Cons.IH [OF s'(2,5) b'(2) n, of start] show ?thesis
      unfolding loop spec s'(4) .
  qed
qed

lemma DirIter_next_entries:
  assumes "ok (di_stream it, fs)" "\<not> di_err it" "dir_at cap (img (di_stream it, fs)) (pos (di_stream it, fs)) es" "length es \<le> n"
    "xs = dir_entries addr (di_skip_volume it) LongNameBuilder_new (word_of_nat (pos (di_stream it, fs))) (word_of_nat (pos (di_stream it, fs))) es"
  obtains it' fs' where "DirIter_next st it fs = Some (case xs of [] \<Rightarrow> None | x # _ \<Rightarrow> Some (Inr x), it', fs')"
    "ok (di_stream it', fs')" "img (di_stream it', fs') = img (di_stream it, fs)" "\<not> di_err it'" "di_skip_volume it' = di_skip_volume it"
    "xs = [] \<or> (\<exists>es'. length es' < n \<and> dir_at cap (img (di_stream it', fs')) (pos (di_stream it', fs')) es'
       \<and> dir_entries addr (di_skip_volume it) LongNameBuilder_new (word_of_nat (pos (di_stream it', fs'))) (word_of_nat (pos (di_stream it', fs'))) es' = tl xs)"
proof -
  let ?s = "(di_stream it, fs)"
  obtain s1 where s1: "DirRawStream_seek st (Current 0) ?s = Some (Inr (word_of_nat (pos ?s)), s1)" "ok s1" "pos s1 = pos ?s" "img s1 = img ?s"
    using tell_law [OF assms(1)] by blast
  have "lnb_ok LongNameBuilder_new" by (simp add: lnb_ok_def LongNameBuilder_new_def LfnBuffer_new_def)
  from read_loop_entries [OF s1(2) _ this assms(4), of "di_skip_volume it" "word_of_nat (pos ?s)"] assms(3) obtain r s2 where
    s2: "read_dir_entry_loop st (di_skip_volume it) LongNameBuilder_new (word_of_nat (pos ?s)) (word_of_nat (pos ?s)) s1 = Some (Inr r, s2)" "ok s2" "img s2 = img ?s"
      "case xs of [] \<Rightarrow> r = None | x # xs \<Rightarrow> r = Some x \<and> (\<exists>es'. length es' < n \<and> dir_at cap (img s2) (pos s2) es'
         \<and> dir_entries addr (di_skip_volume it) LongNameBuilder_new (word_of_nat (pos s2)) (word_of_nat (pos s2)) es' = xs)"
    unfolding s1(3,4) assms(5) by blast
  obtain raw fs' where raw: "s2 = (raw, fs')" by (cases s2)
  have "read_dir_entry st (di_skip_volume it) ?s = Some (Inr r, (raw, fs'))" using s1(1) s2(1) by (simp add: read_dir_entry_def raw)
  then have "DirIter_next st it fs = Some (case r of Some e \<Rightarrow> Some (Inr e) | None \<Rightarrow> None, it\<lparr>di_stream := raw\<rparr>, fs')"
    using assms(2) by (simp add: DirIter_next_def split: option.split)
  moreover have "(case r of Some e \<Rightarrow> Some (Inr e) | None \<Rightarrow> None) = (case xs of [] \<Rightarrow> None | x # _ \<Rightarrow> Some (Inr x))"
    using s2(4) by (cases xs) simp_all
  ultimately have run: "DirIter_next st it fs = Some (case xs of [] \<Rightarrow> None | x # _ \<Rightarrow> Some (Inr x), it\<lparr>di_stream := raw\<rparr>, fs')" by simp
  show ?thesis
  proof (rule that [OF run])
    show "xs = [] \<or> (\<exists>es'. length es' < n \<and> dir_at cap (img (di_stream (it\<lparr>di_stream := raw\<rparr>), fs')) (pos (di_stream (it\<lparr>di_stream := raw\<rparr>), fs')) es'
       \<and> dir_entries addr (di_skip_volume it) LongNameBuilder_new (word_of_nat (pos (di_stream (it\<lparr>di_stream := raw\<rparr>), fs')))
           (word_of_nat (pos (di_stream (it\<lparr>di_stream := raw\<rparr>), fs'))) es' = tl xs)"
      using s2(4) unfolding raw by (cases xs) simp_all
  qed (use s2(2,3) assms(2) in \<open>simp_all add: raw\<close>)
qed

lemma find_entry_loop_entries:
  assumes "ok (di_stream it, fs)" "\<not> di_err it" "di_skip_volume it" "dir_at cap (img (di_stream it, fs)) (pos (di_stream it, fs)) es"
    "xs = dir_entries addr True LongNameBuilder_new (word_of_nat (pos (di_stream it, fs))) (word_of_nat (pos (di_stream it, fs))) es"
  shows "\<exists>it' fs'. find_entry_loop st name is_dir it gen fs
      = Some (entry_result is_dir (entry_named name xs), it', map_option (add_all (names_before name xs)) gen, fs')
    \<and> ok (di_stream it', fs') \<and> img (di_stream it', fs') = img (di_stream it, fs)"
  using assms
proof (induction "length es" arbitrary: es it fs gen xs rule: less_induct)
  case less
  have gen_id: "map_option (add_all []) g = g" for g by (cases g) (simp_all add: add_all_def)
  have sv: "di_skip_volume it = True" using less.prems(3) by simp
  obtain it' fs' where
    i: "DirIter_next st it fs = Some (case xs of [] \<Rightarrow> None | x # _ \<Rightarrow> Some (Inr x), it', fs')"
    "ok (di_stream it', fs')" "img (di_stream it', fs') = img (di_stream it, fs)" "\<not> di_err it'" "di_skip_volume it' = True"
    "xs = [] \<or> (\<exists>es'. length es' < length es \<and> dir_at cap (img (di_stream it', fs')) (pos (di_stream it', fs')) es'
       \<and> dir_entries addr True LongNameBuilder_new (word_of_nat (pos (di_stream it', fs'))) (word_of_nat (pos (di_stream it', fs'))) es' = tl xs)"
    by (rule DirIter_next_entries [OF less.prems(1,2,4) order_refl, unfolded sv, OF less.prems(5)])
  have sv': "di_skip_volume it'" using i(5) by simp
  note unf = find_entry_loop.simps [of st name is_dir it gen fs]
  show ?case
  proof (cases xs)
    case Nil
    have "find_entry_loop st name is_dir it gen fs = Some (Inl NotFound, it', gen, fs')" unfolding unf i(1) Nil by simp
    then show ?thesis using i(2,3) by (simp add: Nil entry_result_def entry_named_def names_before_def gen_id)
  next
    case (Cons x ys)
    then obtain es' where es': "length es' < length es" "dir_at cap (img (di_stream it', fs')) (pos (di_stream it', fs')) es'"
      "ys = dir_entries addr True LongNameBuilder_new (word_of_nat (pos (di_stream it', fs'))) (word_of_nat (pos (di_stream it', fs'))) es'"
      using i(6) by auto
    show ?thesis
    proof (cases "DirEntry_eq_name x name")
      case True
      have "find_entry_loop st name is_dir it gen fs = Some (entry_result is_dir (Some x), it', gen, fs')"
        unfolding unf i(1) Cons using True by (simp add: entry_result_def)
      then show ?thesis using i(2,3) True by (simp add: Cons entry_named_def names_before_def gen_id)
    next
      case False
      let ?gen = "map_option (add_existing (raw_short_name x)) gen"
      have loop: "find_entry_loop st name is_dir it gen fs = find_entry_loop st name is_dir it' ?gen fs'"
        unfolding unf i(1) Cons using False by simp
      have gens: "map_option (add_all (names_before name ys)) ?gen = map_option (add_all (names_before name xs)) gen"
        using False by (cases gen) (simp_all add: Cons names_before_def add_all_def)
      have named: "entry_named name xs = entry_named name ys" using False by (simp add: Cons entry_named_def)
      from less.hyps [OF es'(1) i(2,4) sv' es'(2,3), of ?gen] show ?thesis
        unfolding loop gens named i(3) .
    qed
  qed
qed

lemma find_entry_gen_entries:
  assumes "ok (raw0, fs)" "pos (raw0, fs) = 0" "dir_at cap (img (raw0, fs)) 0 es" "xs = dir_entries addr True LongNameBuilder_new 0 0 es"
  obtains fs' where "find_entry_gen st (Dir_new raw0) name is_dir gen fs
      = Some (entry_result is_dir (entry_named name xs), map_option (add_all (names_before name xs)) gen, fs')"
    "ok (raw0, fs')" "pos (raw0, fs') = 0" "img (raw0, fs') = img (raw0, fs)"
proof -
  let ?it = "DirIter_new raw0 True"
  have it: "di_stream ?it = raw0" "\<not> di_err ?it" "di_skip_volume ?it" by (simp_all add: DirIter_new_def)
  from find_entry_loop_entries [of ?it fs es xs name is_dir gen] assms it obtain it' fs1 where
    l: "find_entry_loop st name is_dir ?it gen fs = Some (entry_result is_dir (entry_named name xs), it', map_option (add_all (names_before name xs)) gen, fs1)"
      "ok (di_stream it', fs1)" "img (di_stream it', fs1) = img (raw0, fs)" by auto
  from drop_law [OF l(2)] obtain fs' where d: "DirRawStream_drop st (di_stream it') fs1 = Some fs'" "ok (raw0, fs')" "pos (raw0, fs') = 0"
    "img (raw0, fs') = img (raw0, fs)" using l(3) by auto
  have "find_entry_gen st (Dir_new raw0) name is_dir gen fs
      = Some (entry_result is_dir (entry_named name xs), map_option (add_all (names_before name xs)) gen, fs')"
    using l(1) d(1) by (simp add: find_entry_gen_def Dir_iter_def Dir_new_def)
  then show ?thesis using that d(2-4) by blast
qed

text \<open>The rounds of \<^verbatim>\<open>check_for_existence\<close> when no entry has the name.\<close>

lemma check_rounds:
  assumes "ok (raw0, fs)" "pos (raw0, fs) = 0" "dir_at cap (img (raw0, fs)) 0 es" "xs = dir_entries addr True LongNameBuilder_new 0 0 es"
    "entry_named name xs = None" "names = map raw_short_name xs" "i \<le> k"
    "\<And>j. j < k \<Longrightarrow> \<exists>e. ShortNameGenerator_generate (add_all names (round names g j)) = Inl e"
    "ShortNameGenerator_generate (add_all names (round names g k)) = Inr sn"
  shows "\<exists>fs'. check_for_existence_loop st (Dir_new raw0) name is_dir (round names g i) fs = Some (Inr (DirEntryOrShortName_ShortName sn), fs')
    \<and> ok (raw0, fs') \<and> pos (raw0, fs') = 0 \<and> img (raw0, fs') = img (raw0, fs)"
  using assms(1-3,7)
proof (induction "k - i" arbitrary: i fs)
  case 0
  note before = names_before_all [OF assms(5,6)]
  obtain fs' where f: "find_entry_gen st (Dir_new raw0) name is_dir (Some (round names g i)) fs
      = Some (entry_result is_dir (entry_named name xs), map_option (add_all (names_before name xs)) (Some (round names g i)), fs')"
    "ok (raw0, fs')" "pos (raw0, fs') = 0" "img (raw0, fs') = img (raw0, fs)"
    by (rule find_entry_gen_entries [OF 0(2-4) assms(4)])
  have "i = k" using 0 by simp
  then show ?case using f assms(5,9) by (subst check_for_existence_loop.simps) (simp add: before entry_result_def)
next
  case (Suc n)
  note before = names_before_all [OF assms(5,6)]
  obtain fs1 where f: "find_entry_gen st (Dir_new raw0) name is_dir (Some (round names g i)) fs
      = Some (entry_result is_dir (entry_named name xs), map_option (add_all (names_before name xs)) (Some (round names g i)), fs1)"
    "ok (raw0, fs1)" "pos (raw0, fs1) = 0" "img (raw0, fs1) = img (raw0, fs)"
    by (rule find_entry_gen_entries [OF Suc(3-5) assms(4)])
  have "i < k" using Suc(2) by linarith
  from assms(8) [OF this] obtain e where "ShortNameGenerator_generate (add_all names (round names g i)) = Inl e" by blast
  then have loop: "check_for_existence_loop st (Dir_new raw0) name is_dir (round names g i) fs
      = check_for_existence_loop st (Dir_new raw0) name is_dir (round names g (Suc i)) fs1"
    using f(1) assms(5) by (subst check_for_existence_loop.simps) (simp add: before entry_result_def)
  have "dir_at cap (img (raw0, fs1)) 0 es" "n = k - Suc i" "Suc i \<le> k" using f(4) Suc(2,5) by simp_all
  from Suc(1) [OF this(2) f(2,3) this(1,3)] show ?case unfolding loop f(4) .
qed

lemma check_for_existence_entries:
  assumes "ok (raw0, fs)" "pos (raw0, fs) = 0" "dir_at cap (img (raw0, fs)) 0 es" "xs = dir_entries addr True LongNameBuilder_new 0 0 es"
    "ShortNameGenerator_new name = Some g" "length xs < 9 * 65536"
  shows "\<exists>r fs'. check_for_existence st (Dir_new raw0) name is_dir fs = Some (r, fs')
    \<and> ok (raw0, fs') \<and> pos (raw0, fs') = 0 \<and> img (raw0, fs') = img (raw0, fs)
    \<and> (case entry_named name xs of
         Some e \<Rightarrow> r = (case entry_result is_dir (Some e) of Inr e \<Rightarrow> Inr (DirEntryOrShortName_DirEntry e) | Inl err \<Rightarrow> Inl err)
       | None \<Rightarrow> \<exists>sn. r = Inr (DirEntryOrShortName_ShortName sn) \<and> length sn = 11 \<and> sn \<notin> raw_short_name ` set xs)"
proof (cases "entry_named name xs")
  case (Some e)
  obtain fs' where "find_entry_gen st (Dir_new raw0) name is_dir (Some g) fs
      = Some (entry_result is_dir (entry_named name xs), map_option (add_all (names_before name xs)) (Some g), fs')"
    "ok (raw0, fs')" "pos (raw0, fs') = 0" "img (raw0, fs') = img (raw0, fs)"
    by (rule find_entry_gen_entries [OF assms(1-4)])
  then show ?thesis using Some assms(5) unfolding check_for_existence_def
    by (subst check_for_existence_loop.simps) (simp add: entry_result_def)
next
  case None
  let ?names = "map raw_short_name xs"
  define succ where "succ k \<longleftrightarrow> (\<exists>sn. ShortNameGenerator_generate (add_all ?names (round ?names g k)) = Inr sn)" for k
  have ok: "sng_ok g" "sng_prefix_chksum_bitmap g = 0" using ShortNameGenerator_new_ok [OF assms(5)] by simp_all
  have ex: "\<exists>k. succ k" using search_ends [OF ok, of ?names] assms(6) by (auto simp: succ_def)
  have least: "succ (LEAST k. succ k)" "\<And>j. j < (LEAST k. succ k) \<Longrightarrow> \<not> succ j" using LeastI_ex [OF ex] not_less_Least by blast+
  then obtain sn where sn: "ShortNameGenerator_generate (add_all ?names (round ?names g (LEAST k. succ k))) = Inr sn" by (auto simp: succ_def)
  have "\<exists>e. ShortNameGenerator_generate (add_all ?names (round ?names g j)) = Inl e" if "j < (LEAST k. succ k)" for j
    using least(2) [OF that] by (cases "ShortNameGenerator_generate (add_all ?names (round ?names g j))") (auto simp: succ_def)
  from check_rounds [OF assms(1-4) None refl le0 this sn, of is_dir] obtain fs' where
    "check_for_existence_loop st (Dir_new raw0) name is_dir (round ?names g 0) fs = Some (Inr (DirEntryOrShortName_ShortName sn), fs')"
    "ok (raw0, fs')" "pos (raw0, fs') = 0" "img (raw0, fs') = img (raw0, fs)" by blast
  moreover have "sng_ok (round ?names g (LEAST k. succ k))" using ok(1) by (simp add: sng_ok_def round_facts)
  from generate_fresh [OF this sn] have "length sn = 11" "sn \<notin> raw_short_name ` set xs" by simp_all
  ultimately show ?thesis using None assms(5) by (auto simp: check_for_existence_def)
qed

end

section \<open>The root directory\<close>

definition root_slice :: "'s FileSystem \<Rightarrow> DiskSlice" where
  "root_slice fs = DiskSlice_from_sectors (fs_first_data_sector fs - fs_root_dir_sectors fs) (fs_root_dir_sectors fs) 1 (fs_bpb fs)"

definition root_state :: "('s \<Rightarrow> bool) \<Rightarrow> ('s \<Rightarrow> nat \<Rightarrow> u8) \<Rightarrow> nat \<Rightarrow> 's FileSystem \<Rightarrow> DirRawStream \<times> 's FileSystem \<Rightarrow> bool" where
  "root_state ok img cap fs0 s \<longleftrightarrow> (\<exists>off fs. s = (DirRawStream_Root ((root_slice fs0)\<lparr>ds_offset := off\<rparr>), fs) \<and> off \<le> ds_size (root_slice fs0)
     \<and> fs_ok ok img cap fs0 \<and> fs_ok ok img cap fs \<and> fs_quiet img fs0 fs)"

definition root_byte :: "('s \<Rightarrow> nat \<Rightarrow> u8) \<Rightarrow> 's FileSystem \<Rightarrow> DirRawStream \<times> 's FileSystem \<Rightarrow> nat \<Rightarrow> u8" where
  "root_byte img fs0 s a = (if a < unat (ds_size (root_slice fs0)) then img (fs_disk (snd s)) (unat (ds_begin (root_slice fs0)) + a) else 0)"

definition root_pos :: "DirRawStream \<times> 's FileSystem \<Rightarrow> nat" where
  "root_pos s = (case fst s of DirRawStream_Root sl \<Rightarrow> unat (ds_offset sl) | DirRawStream_File _ \<Rightarrow> 0)"

definition root_addr :: "'s FileSystem \<Rightarrow> u64 \<Rightarrow> u64" where
  "root_addr fs off = ds_begin (root_slice fs) + off"

lemma root_slice_simps [simp]: "ds_offset (root_slice fs) = 0" "ds_mirrors (root_slice fs) = 1"
  by (simp_all add: root_slice_def DiskSlice_from_sectors_def DiskSlice_new_def)

lemma root_slice_small: "unat (ds_size (root_slice fs)) < 2 ^ 63"
proof -
  have "unat (fs_root_dir_sectors fs) * fs_bps fs \<le> 2 ^ 32 * 2 ^ 16"
    unfolding fs_bps_def using unsigned_less [of "fs_root_dir_sectors fs", where 'a = nat]
    by (intro mult_mono less_imp_le [OF order.strict_trans2 [OF unsigned_less]]) simp_all
  then show ?thesis by (simp add: root_slice_def DiskSlice_from_sectors_def DiskSlice_new_def unat_bytes_from_sectors fs_bps_def)
qed

lemma root_slice_fits:
  assumes "fs_layout cap fs"
  shows "slice_fits (ds_begin (root_slice fs)) (ds_size (root_slice fs)) 1 cap {dirty_addr (fs_fat_type fs)}"
proof -
  let ?b = "ds_begin (fs_fat fs)" and ?z = "ds_size (fs_fat fs)" and ?m = "ds_mirrors (fs_fat fs)"
  have l: "dirty_addr (fs_fat_type fs) < unat ?b" "unat ?b + unat ?m * unat ?z \<le> unat (fs_first_data_sector fs - fs_root_dir_sectors fs) * fs_bps fs"
    "fs_root_dir_sectors fs \<le> fs_first_data_sector fs" "fs_bps fs \<le> 4096"
    "(unat (fs_first_data_sector fs) + unat (fs_total_clusters fs) * fs_spc fs) * fs_bps fs \<le> cap"
    using assms by (simp_all add: fs_layout_def Let_def)
  have b: "unat (ds_begin (root_slice fs)) = unat (fs_first_data_sector fs - fs_root_dir_sectors fs) * fs_bps fs"
    "unat (ds_size (root_slice fs)) = unat (fs_root_dir_sectors fs) * fs_bps fs"
    by (simp_all add: root_slice_def DiskSlice_from_sectors_def DiskSlice_new_def unat_bytes_from_sectors fs_bps_def)
  have "unat (fs_first_data_sector fs - fs_root_dir_sectors fs) + unat (fs_root_dir_sectors fs) = unat (fs_first_data_sector fs)"
    using l(3) by (simp add: unat_sub word_le_nat_alt)
  then have sum: "unat (ds_begin (root_slice fs)) + unat (ds_size (root_slice fs)) = unat (fs_first_data_sector fs) * fs_bps fs"
    unfolding b by (metis add_mult_distrib)
  have "unat (fs_first_data_sector fs) * fs_bps fs \<le> 2 ^ 32 * 4096"
    using l(4) unsigned_less [of "fs_first_data_sector fs", where 'a = nat] by (intro mult_mono) simp_all
  then have "unat (fs_first_data_sector fs) * fs_bps fs < 2 ^ 64" by simp
  moreover have "unat (fs_first_data_sector fs) * fs_bps fs \<le> cap" using l(5) by (simp add: add_mult_distrib)
  ultimately show ?thesis using sum l(1,2) b(1) by (simp add: slice_fits_def slice_area_def)
qed

lemma root_slice_frame: "fs_frame fs fs' \<Longrightarrow> root_slice fs' = root_slice fs"
  by (simp add: root_slice_def fs_frame_def)

text \<open>A step that changes at most the flag byte of the disk keeps the volume.\<close>

lemma fs_ok_same:
  assumes ok: "fs_ok ok img cap fs" and a: "adapter_ok ok cap (fs_fat_type fs) fs'" "fs_static fs' = fs_static fs"
    and same: "\<And>a. a \<noteq> dirty_addr (fs_fat_type fs) \<Longrightarrow> img (fs_disk fs') a = img (fs_disk fs) a"
  shows "fs_ok ok img cap fs'" "fs_quiet img fs fs'"
proof -
  have frame: "fs_frame fs fs'" "fs_fs_info fs' = fs_fs_info fs" using a by (simp_all add: fs_frame_def fs_static_def adapter_ok_def)
  note fr = fs_frame_simps [OF frame(1)]
  let ?b = "ds_begin (fs_fat fs)" and ?z = "ds_size (fs_fat fs)" and ?m = "ds_mirrors (fs_fat fs)"
  have lay: "fs_layout cap fs" using ok by (simp add: fs_ok_def)
  then have fits: "slice_fits ?b ?z ?m cap {dirty_addr (fs_fat_type fs)}" by (simp add: fs_layout_def Let_def)
  have area: "img (fs_disk fs') (unat ?b + i * unat ?z + x) = img (fs_disk fs) (unat ?b + i * unat ?z + x)" if "i < unat ?m" "x < unat ?z" for i x
  proof (rule same)
    have "i * unat ?z + x < unat ?m * unat ?z" using mirror_fits [OF that(1), of "Suc x" "unat ?z"] that(2) by simp
    then have "slice_area ?b ?z ?m (unat ?b + i * unat ?z + x)" by (simp add: slice_area_def)
    then show "unat ?b + i * unat ?z + x \<noteq> dirty_addr (fs_fat_type fs)" using fits by (auto simp: slice_fits_def)
  qed
  have m0: "0 < unat ?m" using fits by (simp add: slice_fits_def unat_gt_0)
  have "fs_layout cap fs'" using fs_frame_layout [OF frame(1) _ lay] lay frame(2) by (auto simp: fs_layout_def Let_def)
  moreover have "fs_slice_ok ok img cap fs' (fs_fat fs', fs')"
    using ok a(1) area area [of 0] m0 unfolding fs_ok_def slice_ok_def fr by auto
  ultimately show "fs_ok ok img cap fs'" by (simp add: fs_ok_def)
  have "fs_fat_bytes img fs' = fs_fat_bytes img fs"
    using area [of 0] m0 unfolding fs_fat_bytes_def slice_byte_def fr by (auto simp: fun_eq_iff)
  then have "fs_table img fs' = fs_table img fs" by (simp add: fs_table_def fr)
  moreover have "fs_same_data img fs fs'" using same by (simp add: fs_same_data_def)
  ultimately show "fs_quiet img fs fs'" using frame(1) by (simp add: fs_quiet_def)
qed

lemma read_exact_one:
  assumes "st_read st n s = Some (Inr bs, s')" "length bs = n"
  shows "0 < n \<Longrightarrow> read_exact st n s = Some (Inr bs, s')"
  using assms unfolding read_exact_def by (subst read_exact_loop.simps) (auto simp: read_exact_loop.simps)

lemma read_exact_eof:
  assumes "st_read st n s = Some (Inr [], s')" "0 < n"
  shows "read_exact st n s = Some (Inl (st_eof st), s')"
  using assms unfolding read_exact_def by (subst read_exact_loop.simps) simp

context byte_stream
begin

lemma root_read:
  assumes "root_state ok img cap fs0 s" "n < 2 ^ 32" "k = min n (unat (ds_size (root_slice fs0)) - root_pos s)"
  obtains s' where "st_read (raw_stream st) n s = Some (Inr (bytes_at (root_byte img fs0 s) (root_pos s) k), s')" "root_state ok img cap fs0 s'"
    "root_pos s' = root_pos s + k" "root_byte img fs0 s' = root_byte img fs0 s"
proof -
  let ?b = "ds_begin (root_slice fs0)" and ?z = "ds_size (root_slice fs0)" and ?ft = "fs_fat_type fs0"
  from assms(1) obtain off fs where s: "s = (DirRawStream_Root ((root_slice fs0)\<lparr>ds_offset := off\<rparr>), fs)" "off \<le> ?z"
    and ok: "fs_ok ok img cap fs0" "fs_ok ok img cap fs" "fs_quiet img fs0 fs" unfolding root_state_def by blast
  let ?sl = "(root_slice fs0)\<lparr>ds_offset := off\<rparr>"
  let ?img = "\<lambda>fs. img (fs_disk fs)"
  have ft: "fs_fat_type fs = ?ft" using ok(3) by (simp add: fs_quiet_def fs_frame_def)
  have "slice_fits ?b ?z 1 cap {dirty_addr ?ft}" using root_slice_fits ok(1) by (auto simp: fs_ok_def)
  moreover have "adapter_ok ok cap ?ft fs" using ok(2) ft by (simp add: fs_ok_def slice_ok_def)
  ultimately have sok: "slice_ok (adapter_ok ok cap ?ft) ?img cap {dirty_addr ?ft} ?b ?z 1 (?sl, fs)" using s(2) by (simp add: slice_ok_def)
  have pos: "slice_off (?sl, fs) = root_pos s" by (simp add: slice_off_def root_pos_def s)
  from adapter.slice.read_law [OF sok assms(2), of k] assms(3) pos obtain t where
    r: "st_read (slice_stream (FsIoAdapter st)) n (?sl, fs) = Some (Inr (bytes_at (slice_byte ?img ?b ?z (?sl, fs)) (slice_off (?sl, fs)) k), t)"
      "slice_ok (adapter_ok ok cap ?ft) ?img cap {dirty_addr ?ft} ?b ?z 1 t" "slice_off t = slice_off (?sl, fs) + k"
      "slice_byte ?img ?b ?z t = slice_byte ?img ?b ?z (?sl, fs)"
      "slice_rest ?img fs_static {dirty_addr ?ft} ?b ?z 1 t = slice_rest ?img fs_static {dirty_addr ?ft} ?b ?z 1 (?sl, fs)" by auto
  obtain sl' fs' where t: "t = (sl', fs')" by (cases t)
  have sl': "ds_begin sl' = ?b" "ds_size sl' = ?z" "ds_mirrors sl' = 1" "ds_offset sl' \<le> ?z" "adapter_ok ok cap ?ft fs'" using r(2) by (simp_all add: slice_ok_def t)
  then have sl_eq: "sl' = (root_slice fs0)\<lparr>ds_offset := ds_offset sl'\<rparr>" by (intro DiskSlice.equality) simp_all
  have static: "fs_static fs' = fs_static fs" using r(5) by (simp add: slice_rest_def t)
  have outside: "img (fs_disk fs') a = img (fs_disk fs) a" if "a \<noteq> dirty_addr ?ft" for a
  proof (cases "slice_area ?b ?z 1 a")
    case True
    then have "unat ?b \<le> a" "a - unat ?b < unat ?z" by (auto simp: slice_area_def)
    moreover have "slice_byte ?img ?b ?z (sl', fs') (a - unat ?b) = slice_byte ?img ?b ?z (?sl, fs) (a - unat ?b)" using r(4) t by simp
    ultimately show ?thesis by (simp add: slice_byte_def)
  next
    case False
    have "snd (slice_rest ?img fs_static {dirty_addr ?ft} ?b ?z 1 (sl', fs')) a = snd (slice_rest ?img fs_static {dirty_addr ?ft} ?b ?z 1 (?sl, fs)) a"
      using r(5) by (simp only: t)
    then have "(if a \<in> {dirty_addr ?ft} \<or> slice_area ?b ?z 1 a then 0 else img (fs_disk fs') a)
        = (if a \<in> {dirty_addr ?ft} \<or> slice_area ?b ?z 1 a then 0 else img (fs_disk fs) a)"
      by (simp only: slice_rest_def prod.case snd_conv)
    then show ?thesis using False that by simp
  qed
  note same = fs_ok_same [OF ok(2), unfolded ft, OF sl'(5) static outside]
  have run: "st_read (raw_stream st) n s = Some (Inr (bytes_at (root_byte img fs0 s) (root_pos s) k), (DirRawStream_Root sl', fs'))"
  proof -
    have "slice_byte ?img ?b ?z (?sl, fs) = root_byte img fs0 s" by (auto simp: slice_byte_def root_byte_def s fun_eq_iff)
    then show ?thesis using r(1) by (simp add: raw_stream_def DirRawStream_read_def raw_op_def s slice_stream_def t pos)
  qed
  show ?thesis
  proof (rule that [OF run])
    show "root_state ok img cap fs0 (DirRawStream_Root sl', fs')"
      unfolding root_state_def using sl_eq sl'(4) ok(1) same fs_quiet_trans [OF ok(3) same(2)] by blast
    show "root_pos (DirRawStream_Root sl', fs') = root_pos s + k" using r(3) pos by (simp add: root_pos_def slice_off_def t)
    show "root_byte img fs0 (DirRawStream_Root sl', fs') = root_byte img fs0 s"
      using r(4) by (simp add: slice_byte_def root_byte_def [abs_def] s t cong: if_cong)
  qed
qed

end

sublocale byte_stream \<subseteq> root_dir: dir_source st "root_state ok img cap fs0" "root_byte img fs0" root_pos "unat (ds_size (root_slice fs0))"
    "root_addr fs0" "DirRawStream_Root (root_slice fs0)" for fs0
proof
  fix s
  assume s: "root_state ok img cap fs0 s"
  let ?z = "ds_size (root_slice fs0)"
  from s obtain off fs where sf: "s = (DirRawStream_Root ((root_slice fs0)\<lparr>ds_offset := off\<rparr>), fs)" "off \<le> ?z"
    and ok: "fs_ok ok img cap fs0" "fs_ok ok img cap fs" "fs_quiet img fs0 fs" unfolding root_state_def by blast
  show "\<exists>s'. read_exact (raw_stream st) n s = Some (Inr (bytes_at (root_byte img fs0 s) (root_pos s) n), s') \<and> root_state ok img cap fs0 s'
      \<and> root_pos s' = root_pos s + n \<and> root_byte img fs0 s' = root_byte img fs0 s" if "n < 2 ^ 32" "root_pos s + n \<le> unat ?z" for n
  proof (cases "n = 0")
    case True
    then show ?thesis using s by (intro exI [of _ s]) (simp add: read_exact_def read_exact_loop.simps)
  next
    case False
    have "n = min n (unat ?z - root_pos s)" using that(2) by simp
    from root_read [OF s that(1) this] obtain s' where
      r: "st_read (raw_stream st) n s = Some (Inr (bytes_at (root_byte img fs0 s) (root_pos s) n), s')" "root_state ok img cap fs0 s'"
        "root_pos s' = root_pos s + n" "root_byte img fs0 s' = root_byte img fs0 s" .
    then show ?thesis using read_exact_one [OF r(1)] False by (intro exI [of _ s']) simp
  qed
  show "\<exists>s'. read_exact (raw_stream st) 11 s = Some (Inl UnexpectedEof, s') \<and> root_state ok img cap fs0 s' \<and> root_byte img fs0 s' = root_byte img fs0 s"
    if "root_pos s = unat ?z"
  proof -
    have "0 = min 11 (unat ?z - root_pos s)" using that by simp
    from root_read [OF s _ this] obtain s' where
      r: "st_read (raw_stream st) 11 s = Some (Inr (bytes_at (root_byte img fs0 s) (root_pos s) 0), s')" "root_state ok img cap fs0 s'"
        "root_pos s' = root_pos s + 0" "root_byte img fs0 s' = root_byte img fs0 s" by (rule; simp)
    have "st_read (raw_stream st) 11 s = Some (Inr [], s')" using r(1) by (simp add: bytes_at_def)
    from read_exact_eof [OF this] r(2,4) show ?thesis by (intro exI [of _ s']) (simp add: raw_stream_def)
  qed
  show "\<exists>s'. DirRawStream_seek st (Current 0) s = Some (Inr (word_of_nat (root_pos s)), s') \<and> root_state ok img cap fs0 s'
      \<and> root_pos s' = root_pos s \<and> root_byte img fs0 s' = root_byte img fs0 s"
  proof -
    have "unat off < 2 ^ 63" using sf(2) root_slice_small [of fs0] by (simp add: word_le_nat_alt)
    moreover from this have "int (unat off) < 2 ^ 63" unfolding of_nat_less_numeral_power_cancel_iff .
    ultimately have "u64_add_i64 off 0 = Some off" unfolding u64_add_i64_def by (simp del: of_nat_unat) simp
    then show ?thesis using s sf(2) by (intro exI [of _ s]) (simp add: sf DirRawStream_seek_def raw_op_def DiskSlice_seek_def root_pos_def not_less)
  qed
  show "DirRawStream_abs_pos (fst s) (snd s) = Some (Some (root_addr fs0 (word_of_nat (root_pos s))))"
    by (simp add: sf DirRawStream_abs_pos_def DiskSlice_abs_pos_def root_addr_def root_pos_def)
  have zero: "(root_slice fs0)\<lparr>ds_offset := 0\<rparr> = root_slice fs0" by (simp add: root_slice_def DiskSlice_from_sectors_def DiskSlice_new_def)
  have "root_state ok img cap fs0 (DirRawStream_Root (root_slice fs0), fs)"
    unfolding root_state_def using zero ok by (metis word_coorder.extremum)
  then show "\<exists>fs'. DirRawStream_drop st (fst s) (snd s) = Some fs' \<and> root_state ok img cap fs0 (DirRawStream_Root (root_slice fs0), fs')
      \<and> root_pos (DirRawStream_Root (root_slice fs0), fs') = 0 \<and> root_byte img fs0 (DirRawStream_Root (root_slice fs0), fs') = root_byte img fs0 s"
    by (intro exI [of _ fs]) (simp add: sf DirRawStream_drop_def root_pos_def root_byte_def fun_eq_iff)
qed

lemma root_state_start:
  assumes "volume_ok dev cap fs"
  shows "root_state (disk_ok dev cap) (disk_img dev cap) (512 * unat cap) fs (DirRawStream_Root (root_slice fs), fs)"
proof -
  have "(root_slice fs)\<lparr>ds_offset := 0\<rparr> = root_slice fs" by (simp add: root_slice_def DiskSlice_from_sectors_def DiskSlice_new_def)
  moreover have "fs_quiet (disk_img dev cap) fs fs" by (simp add: fs_quiet_refl)
  ultimately show ?thesis unfolding root_state_def using assms by (intro exI [of _ 0] exI [of _ fs]) simp
qed

lemma root_pos_start [simp]: "root_pos (DirRawStream_Root (root_slice fs0), fs) = 0"
  by (simp add: root_pos_def)

end
