(* ===== verification/Fat_Dir_Tree.thy ===== *)
theory Fat_Dir_Tree
  imports Fat_Dir_Search
begin

text \<open>
  Directories that are files, \<^verbatim>\<open>deps/rust-fatfs/src/dir.rs\<close>: every directory but the root directory of a
  FAT12 or FAT16 volume lies in a cluster chain. The chain is another instance of the interface
  \<^verbatim>\<open>dir_source\<close>, so that the search lemmas hold for all directories of a volume, and
  \<^verbatim>\<open>open_file\<close> and \<^verbatim>\<open>open_dir\<close> are equal to the walk down the tree of the entries.
\<close>

section \<open>A directory in a cluster chain\<close>

definition clean_entry :: "File \<Rightarrow> bool" where
  "clean_entry self = pred_option (\<lambda>e. \<not> de_dirty e) (f_entry self)"

definition dir_file_state :: "('s \<Rightarrow> bool) \<Rightarrow> ('s \<Rightarrow> nat \<Rightarrow> u8) \<Rightarrow> nat \<Rightarrow> 's FileSystem \<Rightarrow> File \<Rightarrow> u32 list \<Rightarrow> DirRawStream \<times> 's FileSystem \<Rightarrow> bool" where
  "dir_file_state ok img cap fs0 f0 cs s \<longleftrightarrow> (\<exists>f fs. s = (DirRawStream_File f, fs) \<and> f_entry f = f_entry f0
     \<and> file_state ok img cap cs (length cs * fs_cs fs0) (f, fs) \<and> file_state ok img cap cs (length cs * fs_cs fs0) (f0, fs0)
     \<and> clean_entry f0 \<and> f_offset f0 = 0 \<and> \<not> fso_update_accessed_date (fs_options fs0) \<and> fs_quiet img fs0 fs)"

definition dir_file_byte :: "('s \<Rightarrow> nat \<Rightarrow> u8) \<Rightarrow> 's FileSystem \<Rightarrow> u32 list \<Rightarrow> DirRawStream \<times> 's FileSystem \<Rightarrow> nat \<Rightarrow> u8" where
  "dir_file_byte img fs0 cs s = file_img img cs (length cs * fs_cs fs0) (undefined, snd s)"

definition raw_pos :: "DirRawStream \<times> 's FileSystem \<Rightarrow> nat" where
  "raw_pos s = (case fst s of DirRawStream_Root sl \<Rightarrow> unat (ds_offset sl) | DirRawStream_File f \<Rightarrow> unat (f_offset f))"

definition dir_file_addr :: "'s FileSystem \<Rightarrow> u32 list \<Rightarrow> u64 \<Rightarrow> u64" where
  "dir_file_addr fs cs off = (let p = unat off; r = p mod fs_cs fs in
     offset_from_cluster fs (cs ! ((p - 1) div fs_cs fs)) + word_of_nat (if r = 0 then fs_cs fs else r))"

lemma file_img_pair: "file_img img cs n (f, fs) = file_img img cs n (g, fs)"
  by (simp add: file_img_def)

definition keeps_entry :: "(File \<times> 's, 'a) fat_io \<Rightarrow> bool" where
  "keeps_entry m \<longleftrightarrow> (\<forall>s r s'. m s = Some (r, s') \<longrightarrow> f_entry (fst s') = f_entry (fst s))"

lemma keeps_entry_basic [intro]:
  "keeps_entry (io_return x)" "keeps_entry (io_err e)" "keeps_entry (io_lift m)" "keeps_entry (io_inner m')"
  "(\<And>self. f_entry (f self) = f_entry self) \<Longrightarrow> keeps_entry (io_self f)"
  by (auto simp: keeps_entry_def io_return_def io_err_def io_lift_def io_inner_def io_self_def split: option.splits bind_splits)

lemma keeps_entry_bind [intro]:
  assumes "keeps_entry m" "\<And>x. keeps_entry (g x)"
  shows "keeps_entry (io_bind m g)"
  using assms by (fastforce simp: keeps_entry_def io_bind_def split: bind_splits sum.splits)

lemma keeps_entry_cases [intro]:
  "keeps_entry m \<Longrightarrow> keeps_entry m' \<Longrightarrow> keeps_entry (if b then m else m')"
  "keeps_entry m \<Longrightarrow> (\<And>x. keeps_entry (g x)) \<Longrightarrow> keeps_entry (case z of None \<Rightarrow> m | Some x \<Rightarrow> g x)"
  by (simp_all split: option.split)

lemma keeps_entry_run:
  assumes "io_bind m g (self, fs) = Some (r, (self', fs'))" "keeps_entry m" "\<And>x. keeps_entry (g x)"
  shows "f_entry self' = f_entry self"
  using keeps_entry_bind [of m g, OF assms(2,3)] assms(1) unfolding keeps_entry_def by fastforce

lemma File_read_entry:
  assumes "\<not> fso_update_accessed_date (fs_options fs)" "File_read st n (self, fs) = Some (r, (self', fs'))"
  shows "f_entry self' = f_entry self"
  using assms(2) unfolding File_read_def prod.case Let_def
  by (rule keeps_entry_run) (intro keeps_entry_bind keeps_entry_basic keeps_entry_cases; simp add: assms(1))+

lemma dir_file_stateE:
  assumes "dir_file_state ok img cap fs0 f0 cs s"
  obtains f fs where "s = (DirRawStream_File f, fs)" "f_entry f = f_entry f0" "fs_ok ok img cap fs" "file_ok img fs f cs"
    "file_len fs f cs = length cs * fs_cs fs0" "fs_quiet img fs0 fs" "fs_frame fs0 fs" "\<not> fso_update_accessed_date (fs_options fs)"
  using assms unfolding dir_file_state_def by (auto simp: file_state_def fs_quiet_def fs_frame_def)

lemma dir_file_state_step:
  assumes "dir_file_state ok img cap fs0 f0 cs (DirRawStream_File f, fs)" "f_entry f' = f_entry f" "fs_ok ok img cap fs'"
    "file_ok img fs' f' cs" "file_len fs' f' cs = length cs * fs_cs fs0" "fs_quiet img fs fs'"
  shows "dir_file_state ok img cap fs0 f0 cs (DirRawStream_File f', fs')"
  using assms fs_quiet_trans [OF _ assms(6)] unfolding dir_file_state_def by (auto simp: file_state_def)

lemma dir_file_byte_step:
  assumes "dir_file_state ok img cap fs0 f0 cs (DirRawStream_File f, fs)" "fs_layout cap fs" "fs_quiet img fs fs'"
  shows "dir_file_byte img fs0 cs (DirRawStream_File f', fs') = dir_file_byte img fs0 cs (DirRawStream_File f, fs)"
proof -
  have f: "file_ok img fs f cs" "file_len fs f cs = length cs * fs_cs fs0" using assms(1) by (auto simp: dir_file_state_def file_state_def)
  from file_img_quiet [OF assms(2,3) this, of undefined] show ?thesis
    by (simp add: dir_file_byte_def file_img_def)
qed

context byte_stream
begin

lemma dir_file_read:
  assumes "dir_file_state ok img cap fs0 f0 cs s"
    and k: "k = min n (min (fs_cs fs0 - raw_pos s mod fs_cs fs0) (length cs * fs_cs fs0 - raw_pos s))"
  obtains s' where "st_read (raw_stream st) n s = Some (Inr (bytes_at (dir_file_byte img fs0 cs s) (raw_pos s) k), s')"
    "dir_file_state ok img cap fs0 f0 cs s'" "raw_pos s' = raw_pos s + k" "dir_file_byte img fs0 cs s' = dir_file_byte img fs0 cs s"
proof -
  obtain f fs where s: "s = (DirRawStream_File f, fs)" "f_entry f = f_entry f0" "fs_ok ok img cap fs" "file_ok img fs f cs"
    "file_len fs f cs = length cs * fs_cs fs0" "fs_quiet img fs0 fs" "fs_frame fs0 fs" "\<not> fso_update_accessed_date (fs_options fs)"
    by (rule dir_file_stateE [OF assms(1)])
  have pos: "raw_pos s = unat (f_offset f)" by (simp add: raw_pos_def s(1))
  have "k = min n (min (fs_cs fs - unat (f_offset f) mod fs_cs fs) (file_len fs f cs - unat (f_offset f)))"
    unfolding k pos s(5) by (simp add: fs_frame_simps [OF s(7)])
  from File_read_ok [OF s(3,4) this] obtain f' fs' where
    r: "File_read st n (f, fs) = Some (Inr (bytes_at (file_byte img fs cs) (unat (f_offset f)) k), (f', fs'))" "fs_ok ok img cap fs'" "fs_quiet img fs fs'"
      "file_ok img fs' f' cs" "unat (f_offset f') = unat (f_offset f) + k" "File_size f' = File_size f" by metis
  have e: "f_entry f' = f_entry f" by (rule File_read_entry [OF s(8) r(1)])
  have fr: "fs_frame fs fs'" using r(3) by (simp add: fs_quiet_def)
  have len: "file_len fs' f' cs = length cs * fs_cs fs0" unfolding file_len_frame [OF fr] using r(6) s(5) by (simp add: file_len_def)
  have "bytes_at (file_byte img fs cs) (unat (f_offset f)) k = bytes_at (dir_file_byte img fs0 cs s) (raw_pos s) k"
    unfolding pos by (rule bytes_at_cong) (use k pos in \<open>auto simp: dir_file_byte_def file_img_def s(1)\<close>)
  then have "st_read (raw_stream st) n s = Some (Inr (bytes_at (dir_file_byte img fs0 cs s) (raw_pos s) k), (DirRawStream_File f', fs'))"
    using r(1) by (simp add: raw_stream_def DirRawStream_read_def raw_op_def s(1))
  then show ?thesis
  proof (rule that)
    show "dir_file_state ok img cap fs0 f0 cs (DirRawStream_File f', fs')"
      by (rule dir_file_state_step [OF assms(1) [unfolded s(1)] e r(2,4) len r(3)])
    show "raw_pos (DirRawStream_File f', fs') = raw_pos s + k" using r(5) by (simp add: raw_pos_def s(1))
    show "dir_file_byte img fs0 cs (DirRawStream_File f', fs') = dir_file_byte img fs0 cs s"
      unfolding s(1) by (rule dir_file_byte_step [OF assms(1) [unfolded s(1)] fs_layoutD(1) [OF s(3)] r(3)])
  qed
qed

end

sublocale byte_stream \<subseteq> dir_chunks: short_reader "raw_stream st" "dir_file_state ok img cap fs0 f0 cs" "dir_file_byte img fs0 cs" raw_pos "length cs * fs_cs fs0"
  for fs0 f0 cs
proof
  fix s n
  assume s: "dir_file_state ok img cap fs0 f0 cs s" and n: "0 < n" "raw_pos s + n \<le> length cs * fs_cs fs0"
  let ?k = "min n (min (fs_cs fs0 - raw_pos s mod fs_cs fs0) (length cs * fs_cs fs0 - raw_pos s))"
  have "0 < fs_cs fs0" using n by (cases "fs_cs fs0") simp_all
  then have "0 < ?k" using n by simp
  obtain s' where "st_read (raw_stream st) n s = Some (Inr (bytes_at (dir_file_byte img fs0 cs s) (raw_pos s) ?k), s')"
    "dir_file_state ok img cap fs0 f0 cs s'" "raw_pos s' = raw_pos s + ?k" "dir_file_byte img fs0 cs s' = dir_file_byte img fs0 cs s"
    by (rule dir_file_read [OF s refl])
  then show "\<exists>k s'. 0 < k \<and> k \<le> n \<and> st_read (raw_stream st) n s = Some (Inr (bytes_at (dir_file_byte img fs0 cs s) (raw_pos s) k), s')
      \<and> dir_file_state ok img cap fs0 f0 cs s' \<and> raw_pos s' = raw_pos s + k \<and> dir_file_byte img fs0 cs s' = dir_file_byte img fs0 cs s"
    using \<open>0 < ?k\<close> by (intro exI [of _ ?k] exI [of _ s']) simp
qed

context byte_stream
begin

lemma dir_file_tell:
  assumes "dir_file_state ok img cap fs0 f0 cs s"
  shows "DirRawStream_seek st (Current 0) s = Some (Inr (word_of_nat (raw_pos s)), s)"
proof -
  obtain f fs where s: "s = (DirRawStream_File f, fs)" and f: "file_ok img fs f cs" by (rule dir_file_stateE [OF assms])
  have "int (unat (f_offset f)) < 2 ^ 32" using unsigned_less [of "f_offset f", where 'a = nat] unfolding of_nat_less_numeral_power_cancel_iff by simp
  then have "u32_add_i64 (f_offset f) 0 = Some (f_offset f)" by (simp add: u32_add_i64_def Let_def del: of_nat_unat) simp
  moreover have "(case File_size f of Some z \<Rightarrow> if f_offset f > z then z else f_offset f | None \<Rightarrow> f_offset f) = f_offset f"
    using f by (cases "File_size f") (simp_all add: file_ok_def file_len_def word_less_nat_alt)
  moreover have "(ucast (f_offset f) :: u64) = word_of_nat (unat (f_offset f))" by simp
  ultimately show ?thesis by (simp add: s DirRawStream_seek_def raw_op_def File_seek_def File_seek_target_def raw_pos_def io_return_def)
qed

lemma dir_file_abs_pos:
  assumes "dir_file_state ok img cap fs0 f0 cs s" "0 < raw_pos s"
  shows "DirRawStream_abs_pos (fst s) (snd s) = Some (Some (dir_file_addr fs0 cs (word_of_nat (raw_pos s))))"
proof -
  obtain f fs where s: "s = (DirRawStream_File f, fs)" "fs_ok ok img cap fs" "file_ok img fs f cs" "fs_frame fs0 fs"
    by (rule dir_file_stateE [OF assms(1)])
  note oc = offset_in_cluster [OF s(2)] and c = cluster_size_unat [OF fs_layoutD(1) [OF s(2)]]
  have fr: "fs_cs fs = fs_cs fs0" "offset_from_cluster fs = offset_from_cluster fs0" using s(4)
    by (simp_all add: fs_frame_simps [OF s(4)] offset_from_cluster_def [abs_def] offset_from_sector_def sector_from_cluster_def fs_frame_def)
  have pos: "raw_pos s = unat (f_offset f)" by (simp add: raw_pos_def s(1))
  have cur: "f_current_cluster f = Some (cs ! ((unat (f_offset f) - 1) div fs_cs fs))" using s(3) assms(2) pos by (auto simp: file_ok_def)
  have u: "unat (word_of_nat (raw_pos s) :: u64) = raw_pos s" unfolding pos
    using unsigned_less [of "f_offset f", where 'a = nat] by (simp add: unsigned_of_nat take_bit_nat_eq_self del: of_nat_unat)
  have "(ucast (if f_offset f mod FileSystem_cluster_size fs = 0 then FileSystem_cluster_size fs else f_offset f mod FileSystem_cluster_size fs) :: u64)
      = word_of_nat (if raw_pos s mod fs_cs fs0 = 0 then fs_cs fs0 else raw_pos s mod fs_cs fs0)"
    unfolding pos fr(1) [symmetric] oc(2) [symmetric] unfolding c(1) [symmetric] by (simp add: unsigned_eq_0_iff del: unat_mod_distrib)
  then show ?thesis unfolding dir_file_addr_def Let_def u unfolding pos
    by (simp add: s(1) DirRawStream_abs_pos_def File_abs_pos_def cur oc(1) Let_def fr)
qed

lemma dir_file_drop:
  assumes "dir_file_state ok img cap fs0 f0 cs s"
  obtains fs' where "DirRawStream_drop st (fst s) (snd s) = Some fs'" "dir_file_state ok img cap fs0 f0 cs (DirRawStream_File f0, fs')"
    "dir_file_byte img fs0 cs (DirRawStream_File f0, fs') = dir_file_byte img fs0 cs s"
proof -
  obtain f fs where s: "s = (DirRawStream_File f, fs)" "f_entry f = f_entry f0" "fs_ok ok img cap fs" by (rule dir_file_stateE [OF assms])
  from flush_law [OF fs_layoutD(5) [OF s(3)]] obtain d where
    d: "st_flush st (fs_disk fs) = Some (Inr (), d)" "ok d" "img d = img (fs_disk fs)" by blast
  let ?fs = "fs\<lparr>fs_disk := d\<rparr>"
  have "clean_entry f" using assms s(2) by (auto simp: dir_file_state_def clean_entry_def)
  then have "DirRawStream_drop st (fst s) (snd s) = Some ?fs"
    using d(1) by (cases "f_entry f") (simp_all add: s(1) DirRawStream_drop_def File_drop_def File_flush_def File_flush_dir_entry_def clean_entry_def
        DirEntryEditor_flush_def io_bind_def io_return_def io_inner_def)
  moreover have ok': "fs_ok ok img cap ?fs" "fs_table img ?fs = fs_table img fs" using fs_data_write [OF s(3) d(2)] d(3) by simp_all
  then have q: "fs_quiet img fs ?fs" using d(3) by (simp add: fs_quiet_def fs_same_data_def fs_frame_def)
  have q0: "fs_quiet img fs0 fs" "file_ok img fs0 f0 cs" "file_len fs0 f0 cs = length cs * fs_cs fs0"
    using assms by (auto simp: dir_file_state_def file_state_def s(1))
  have q1: "fs_quiet img fs0 ?fs" by (rule fs_quiet_trans [OF q0(1) q])
  then have fr: "fs_frame fs0 ?fs" by (simp add: fs_quiet_def)
  have "dir_file_state ok img cap fs0 f0 cs (DirRawStream_File f0, ?fs)"
    using assms ok'(1) q1 q0(2,3) fs_quiet_file_ok [OF q1] file_len_frame [OF fr] unfolding dir_file_state_def by (auto simp: file_state_def)
  moreover have "dir_file_byte img fs0 cs (DirRawStream_File f0, ?fs) = dir_file_byte img fs0 cs s"
    unfolding s(1) by (rule dir_file_byte_step [OF assms [unfolded s(1)] fs_layoutD(1) [OF s(3)] q])
  ultimately show ?thesis by (rule that)
qed

end

sublocale byte_stream \<subseteq> dir_file: dir_source st "dir_file_state ok img cap fs0 f0 cs" "dir_file_byte img fs0 cs" raw_pos "length cs * fs_cs fs0"
    "dir_file_addr fs0 cs" "DirRawStream_File f0" for fs0 f0 cs
proof
  fix s
  assume s: "dir_file_state ok img cap fs0 f0 cs s"
  show "\<exists>s'. read_exact (raw_stream st) 11 s = Some (Inl UnexpectedEof, s') \<and> dir_file_state ok img cap fs0 f0 cs s'
      \<and> dir_file_byte img fs0 cs s' = dir_file_byte img fs0 cs s" if "raw_pos s = length cs * fs_cs fs0"
  proof -
    have "0 = min 11 (min (fs_cs fs0 - raw_pos s mod fs_cs fs0) (length cs * fs_cs fs0 - raw_pos s))" using that by simp
    from dir_file_read [OF s this] obtain s' where
      r: "st_read (raw_stream st) 11 s = Some (Inr (bytes_at (dir_file_byte img fs0 cs s) (raw_pos s) 0), s')"
        "dir_file_state ok img cap fs0 f0 cs s'" "raw_pos s' = raw_pos s + 0" "dir_file_byte img fs0 cs s' = dir_file_byte img fs0 cs s" .
    have "st_read (raw_stream st) 11 s = Some (Inr [], s')" using r(1) by (simp add: bytes_at_def)
    from read_exact_eof [OF this] r(2,4) show ?thesis by (intro exI [of _ s']) (simp add: raw_stream_def)
  qed
  show "\<exists>s'. DirRawStream_seek st (Current 0) s = Some (Inr (word_of_nat (raw_pos s)), s') \<and> dir_file_state ok img cap fs0 f0 cs s'
      \<and> raw_pos s' = raw_pos s \<and> dir_file_byte img fs0 cs s' = dir_file_byte img fs0 cs s"
    using dir_file_tell [OF s] s by blast
  show "DirRawStream_abs_pos (fst s) (snd s) = Some (Some (dir_file_addr fs0 cs (word_of_nat (raw_pos s))))" if "0 < raw_pos s"
    by (rule dir_file_abs_pos [OF s that])
  obtain fs' where d: "DirRawStream_drop st (fst s) (snd s) = Some fs'" "dir_file_state ok img cap fs0 f0 cs (DirRawStream_File f0, fs')"
    "dir_file_byte img fs0 cs (DirRawStream_File f0, fs') = dir_file_byte img fs0 cs s" by (rule dir_file_drop [OF s])
  have "raw_pos (DirRawStream_File f0, fs') = 0" using s by (auto simp: dir_file_state_def raw_pos_def)
  with d show "\<exists>fs'. DirRawStream_drop st (fst s) (snd s) = Some fs' \<and> dir_file_state ok img cap fs0 f0 cs (DirRawStream_File f0, fs')
      \<and> raw_pos (DirRawStream_File f0, fs') = 0 \<and> dir_file_byte img fs0 cs (DirRawStream_File f0, fs') = dir_file_byte img fs0 cs s" by blast
qed

section \<open>The directories of a volume\<close>

text \<open>The directory with the stream \<^term>\<open>raw\<close> lists the entries \<^term>\<open>xs\<close>.\<close>

definition file_dir :: "'d VirtIOBlk \<Rightarrow> u64 \<Rightarrow> 'd disk_state FileSystem \<Rightarrow> File \<Rightarrow> u32 list \<Rightarrow> DirEntryData list \<Rightarrow> bool" where
  "file_dir dev cap fs f cs es \<longleftrightarrow>
     dir_file_state (disk_ok dev cap) (disk_img dev cap) (512 * unat cap) fs f cs (DirRawStream_File f, fs)
     \<and> dir_at (length cs * fs_cs fs) (dir_file_byte (disk_img dev cap) fs cs (DirRawStream_File f, fs)) 0 es"

definition root_region :: "'d VirtIOBlk \<Rightarrow> u64 \<Rightarrow> 'd disk_state FileSystem \<Rightarrow> DirEntryData list \<Rightarrow> bool" where
  "root_region dev cap fs es \<longleftrightarrow>
     dir_at (unat (ds_size (root_slice fs))) (root_byte (disk_img dev cap) fs (DirRawStream_Root (root_slice fs), fs)) 0 es"

definition volume_dir :: "'d VirtIOBlk \<Rightarrow> u64 \<Rightarrow> 'd disk_state FileSystem \<Rightarrow> DirRawStream \<Rightarrow> DirEntry list \<Rightarrow> bool" where
  "volume_dir dev cap fs raw xs \<longleftrightarrow> (case raw of
     DirRawStream_Root sl \<Rightarrow> sl = root_slice fs \<and> (\<exists>es. root_region dev cap fs es \<and> xs = dir_entries (root_addr fs) True LongNameBuilder_new 0 0 es)
   | DirRawStream_File f \<Rightarrow> (\<exists>cs es. file_dir dev cap fs f cs es \<and> xs = dir_entries (dir_file_addr fs cs) True LongNameBuilder_new 0 0 es))"

lemma fs_quiet_root_byte:
  assumes "fs_layout cap fs" "fs_quiet img fs fs'"
  shows "root_byte img fs' (raw', fs') = root_byte img fs (raw, fs)"
proof
  fix a
  have q: "fs_frame fs fs'" "fs_same_data img fs fs'" using assms(2) by (simp_all add: fs_quiet_def)
  note sl = root_slice_frame [OF q(1)]
  let ?b = "unat (ds_begin (root_slice fs))" and ?fb = "ds_begin (fs_fat fs)" and ?z = "ds_size (fs_fat fs)" and ?m = "ds_mirrors (fs_fat fs)"
  have l: "dirty_addr (fs_fat_type fs) < unat ?fb" "unat ?fb + unat ?m * unat ?z \<le> unat (fs_first_data_sector fs - fs_root_dir_sectors fs) * fs_bps fs"
    using assms(1) by (simp_all add: fs_layout_def Let_def)
  have "?b = unat (fs_first_data_sector fs - fs_root_dir_sectors fs) * fs_bps fs"
    by (simp add: root_slice_def DiskSlice_from_sectors_def DiskSlice_new_def unat_bytes_from_sectors fs_bps_def)
  then have "?b + a \<noteq> dirty_addr (fs_fat_type fs)" "\<not> slice_area ?fb ?z ?m (?b + a)" using l by (auto simp: slice_area_def)
  then have "img (fs_disk fs') (?b + a) = img (fs_disk fs) (?b + a)" using q(2) by (simp add: fs_same_data_def)
  then show "root_byte img fs' (raw', fs') a = root_byte img fs (raw, fs) a" by (simp add: root_byte_def sl)
qed

lemma file_dir_quiet:
  assumes "volume_ok dev cap fs" "fs_quiet (disk_img dev cap) fs fs'" "volume_ok dev cap fs'" "file_dir dev cap fs f cs es"
  shows "file_dir dev cap fs' f cs es" "dir_file_addr fs' cs = dir_file_addr fs cs"
proof -
  have fr: "fs_frame fs fs'" using assms(2) by (simp add: fs_quiet_def)
  note l = disk.fs_layoutD(1) [OF assms(1)]
  have c: "fs_cs fs' = fs_cs fs" by (simp add: fs_frame_simps [OF fr])
  have f: "file_ok (disk_img dev cap) fs f cs" "file_len fs f cs = length cs * fs_cs fs" "clean_entry f" "f_offset f = 0"
    "\<not> fso_update_accessed_date (fs_options fs)"
    using assms(4) by (auto simp: file_dir_def dir_file_state_def file_state_def)
  have "file_ok (disk_img dev cap) fs' f cs" "file_len fs' f cs = length cs * fs_cs fs'"
    using f(1,2) fs_quiet_file_ok [OF assms(2)] file_len_frame [OF fr] c by simp_all
  then have "dir_file_state (disk_ok dev cap) (disk_img dev cap) (512 * unat cap) fs' f cs (DirRawStream_File f, fs')"
    using f(3,4,5) fr assms(3) unfolding dir_file_state_def file_state_def by (auto simp: fs_frame_def)
  moreover have "file_img (disk_img dev cap) cs (length cs * fs_cs fs) (undefined, fs') = file_img (disk_img dev cap) cs (length cs * fs_cs fs) (f, fs)"
    by (rule file_img_quiet [OF l assms(2) f(1,2)])
  then have "dir_file_byte (disk_img dev cap) fs' cs (DirRawStream_File f, fs') = dir_file_byte (disk_img dev cap) fs cs (DirRawStream_File f, fs)"
    by (simp add: dir_file_byte_def c file_img_def)
  ultimately show "file_dir dev cap fs' f cs es" using assms(4) by (simp add: file_dir_def c)
  show "dir_file_addr fs' cs = dir_file_addr fs cs" using fr
    by (intro ext) (simp add: dir_file_addr_def Let_def c offset_from_cluster_def offset_from_sector_def sector_from_cluster_def fs_frame_def)
qed

lemma volume_dir_quiet:
  assumes "volume_ok dev cap fs" "fs_quiet (disk_img dev cap) fs fs'" "volume_ok dev cap fs'" "volume_dir dev cap fs raw xs"
  shows "volume_dir dev cap fs' raw xs"
proof -
  have fr: "fs_frame fs fs'" using assms(2) by (simp add: fs_quiet_def)
  have r: "root_region dev cap fs' es = root_region dev cap fs es" for es
    unfolding root_region_def root_slice_frame [OF fr] using fs_quiet_root_byte [OF disk.fs_layoutD(1) [OF assms(1)] assms(2)] by metis
  have a: "root_addr fs' = root_addr fs" by (simp add: root_addr_def [abs_def] root_slice_frame [OF fr])
  show ?thesis
  proof (cases raw)
    case (DirRawStream_Root sl)
    then show ?thesis using assms(4) by (simp add: volume_dir_def r a root_slice_frame [OF fr])
  next
    case (DirRawStream_File f)
    then show ?thesis using assms(4) file_dir_quiet [OF assms(1-3)] by (fastforce simp: volume_dir_def)
  qed
qed

text \<open>The search lemmas of the interface, for either kind of directory.\<close>

lemma volume_dir_find:
  assumes "volume_ok dev cap fs" "volume_dir dev cap fs raw xs"
  obtains fs' where "Dir_find_entry disk_stream (Dir_new raw) name is_dir fs = Some (entry_result is_dir (entry_named name xs), fs')"
    "volume_ok dev cap fs'" "fs_quiet (disk_img dev cap) fs fs'"
proof (cases raw)
  case (DirRawStream_Root sl)
  then obtain es where r: "raw = DirRawStream_Root (root_slice fs)" "root_region dev cap fs es" "xs = dir_entries (root_addr fs) True LongNameBuilder_new 0 0 es"
    using assms(2) by (auto simp: volume_dir_def)
  obtain fs' where "find_entry_gen disk_stream (Dir_new (DirRawStream_Root (root_slice fs))) name is_dir None fs
      = Some (entry_result is_dir (entry_named name xs), map_option (add_all (names_before name xs)) None, fs')"
    "root_state (disk_ok dev cap) (disk_img dev cap) (512 * unat cap) fs (DirRawStream_Root (root_slice fs), fs')"
    by (rule disk.root_dir.find_entry_gen_entries [OF root_state_start [OF assms(1)] root_pos_start r(2) [unfolded root_region_def] r(3)])
  then show ?thesis using r(1) by (intro that [of fs']) (auto simp: Dir_find_entry_def root_state_def)
next
  case (DirRawStream_File f)
  then obtain cs es where r: "file_dir dev cap fs f cs es" "xs = dir_entries (dir_file_addr fs cs) True LongNameBuilder_new 0 0 es"
    using assms(2) by (auto simp: volume_dir_def)
  note d = r(1) [unfolded file_dir_def]
  have "raw_pos (DirRawStream_File f, fs) = 0" using d by (auto simp: dir_file_state_def raw_pos_def)
  from disk.dir_file.find_entry_gen_entries [OF conjunct1 [OF d] this conjunct2 [OF d] r(2)]
  obtain fs' where "find_entry_gen disk_stream (Dir_new (DirRawStream_File f)) name is_dir None fs
      = Some (entry_result is_dir (entry_named name xs), map_option (add_all (names_before name xs)) None, fs')"
    "dir_file_state (disk_ok dev cap) (disk_img dev cap) (512 * unat cap) fs f cs (DirRawStream_File f, fs')" .
  then show ?thesis using DirRawStream_File by (intro that [of fs']) (auto simp: Dir_find_entry_def dir_file_state_def file_state_def)
qed

lemma volume_dir_check:
  assumes "volume_ok dev cap fs" "volume_dir dev cap fs raw xs" "ShortNameGenerator_new name = Some g" "length xs < 9 * 65536"
  shows "\<exists>r fs'. check_for_existence disk_stream (Dir_new raw) name is_dir fs = Some (r, fs') \<and> volume_ok dev cap fs' \<and> fs_quiet (disk_img dev cap) fs fs'
    \<and> (case entry_named name xs of
         Some e \<Rightarrow> r = (case entry_result is_dir (Some e) of Inr e \<Rightarrow> Inr (DirEntryOrShortName_DirEntry e) | Inl err \<Rightarrow> Inl err)
       | None \<Rightarrow> \<exists>sn. r = Inr (DirEntryOrShortName_ShortName sn) \<and> length sn = 11 \<and> sn \<notin> raw_short_name ` set xs)"
proof (cases raw)
  case (DirRawStream_Root sl)
  then obtain es where r: "raw = DirRawStream_Root (root_slice fs)" "root_region dev cap fs es" "xs = dir_entries (root_addr fs) True LongNameBuilder_new 0 0 es"
    using assms(2) by (auto simp: volume_dir_def)
  have q: "volume_ok dev cap fs' \<and> fs_quiet (disk_img dev cap) fs fs'"
    if "root_state (disk_ok dev cap) (disk_img dev cap) (512 * unat cap) fs (DirRawStream_Root (root_slice fs), fs')" for fs'
    using that by (auto simp: root_state_def)
  show ?thesis unfolding r(1)
    using disk.root_dir.check_for_existence_entries [OF root_state_start [OF assms(1)] root_pos_start r(2) [unfolded root_region_def] r(3) assms(3,4), of is_dir] q
    by blast
next
  case (DirRawStream_File f)
  then obtain cs es where r: "file_dir dev cap fs f cs es" "xs = dir_entries (dir_file_addr fs cs) True LongNameBuilder_new 0 0 es"
    using assms(2) by (auto simp: volume_dir_def)
  note d = r(1) [unfolded file_dir_def]
  have p: "raw_pos (DirRawStream_File f, fs) = 0" using d by (auto simp: dir_file_state_def raw_pos_def)
  have q: "volume_ok dev cap fs' \<and> fs_quiet (disk_img dev cap) fs fs'"
    if "dir_file_state (disk_ok dev cap) (disk_img dev cap) (512 * unat cap) fs f cs (DirRawStream_File f, fs')" for fs'
    using that by (auto simp: dir_file_state_def file_state_def)
  show ?thesis unfolding DirRawStream_File
    using disk.dir_file.check_for_existence_entries [OF conjunct1 [OF d] p conjunct2 [OF d] r(2) assms(3,4), of is_dir] q
    by blast
qed

lemma volume_dir_drop:
  assumes "volume_ok dev cap fs" "volume_dir dev cap fs raw xs"
  obtains fs' where "DirRawStream_drop disk_stream raw fs = Some fs'" "volume_ok dev cap fs'" "fs_quiet (disk_img dev cap) fs fs'"
proof (cases raw)
  case (DirRawStream_Root sl)
  then show ?thesis using assms(1) by (intro that [of fs]) (simp_all add: DirRawStream_drop_def)
next
  case (DirRawStream_File f)
  then obtain cs es where "file_dir dev cap fs f cs es" using assms(2) by (auto simp: volume_dir_def)
  then have "dir_file_state (disk_ok dev cap) (disk_img dev cap) (512 * unat cap) fs f cs (DirRawStream_File f, fs)" by (simp add: file_dir_def)
  from disk.dir_file_drop [OF this] obtain fs' where "DirRawStream_drop disk_stream raw fs = Some fs'"
    "dir_file_state (disk_ok dev cap) (disk_img dev cap) (512 * unat cap) fs f cs (DirRawStream_File f, fs')" unfolding DirRawStream_File by auto
  then show ?thesis by (intro that [of fs']) (auto simp: dir_file_state_def file_state_def)
qed

section \<open>Paths\<close>

text \<open>The components of a path: the parts between slashes that are not empty.\<close>

function path_components :: "rchar list \<Rightarrow> rchar list list" where
  "path_components path = (case dropWhile (\<lambda>c. c = 0x2F) path of
     [] \<Rightarrow> []
   | c # cs \<Rightarrow> takeWhile (\<lambda>c. c \<noteq> 0x2F) (c # cs) # path_components (dropWhile (\<lambda>c. c \<noteq> 0x2F) cs))"
  by pat_completeness auto
termination
proof (relation "measure length")
  fix path c and cs :: "rchar list"
  assume "dropWhile (\<lambda>c. c = 0x2F) path = c # cs"
  then have "length (c # cs) \<le> length path" by (metis length_dropWhile_le)
  moreover have "length (dropWhile (\<lambda>c. c \<noteq> 0x2F) cs) \<le> length cs" by (rule length_dropWhile_le)
  ultimately show "(dropWhile (\<lambda>c. c \<noteq> 0x2F) cs, path) \<in> measure length" by simp
qed simp

declare path_components.simps [simp del]

lemma path_components_slashes: "list_all (\<lambda>c. c = 0x2F) ss \<Longrightarrow> path_components (ss @ xs) = path_components xs"
  by (subst (1 2) path_components.simps) (simp add: dropWhile_append1 dropWhile_append2 list_all_iff)

lemma takeWhile_append_stop: "takeWhile P ys = [] \<Longrightarrow> takeWhile P (xs @ ys) = takeWhile P xs"
  by (induction xs) auto

lemma dropWhile_append_stop: "dropWhile P ys = ys \<Longrightarrow> dropWhile P (xs @ ys) = dropWhile P xs @ ys"
  by (induction xs) auto

lemma path_components_trailing:
  assumes "list_all (\<lambda>c. c = 0x2F) ss"
  shows "path_components (xs @ ss) = path_components xs"
proof (induction xs rule: path_components.induct)
  case (1 xs)
  show ?case
  proof (cases "dropWhile (\<lambda>c. c = 0x2F) xs")
    case Nil
    then have "list_all (\<lambda>c. c = 0x2F) xs" by (simp add: list_all_iff)
    then have "path_components (xs @ ss) = path_components []" "path_components (xs @ []) = path_components []"
      using path_components_slashes [of xs ss] path_components_slashes [OF assms, of "[]"] path_components_slashes [of xs "[]"] by simp_all
    then show ?thesis unfolding append_Nil2 by (rule trans [OF _ sym])
  next
    case (Cons c cs)
    have c: "c \<noteq> 0x2F" using hd_dropWhile [of "\<lambda>c. c = 0x2F" xs] Cons by auto
    have "\<not> (\<forall>x\<in>set xs. x = 0x2F)" using dropWhile_eq_Nil_conv [of "\<lambda>c. c = 0x2F" xs] unfolding Cons by blast
    then have d: "dropWhile (\<lambda>c. c = 0x2F) (xs @ ss) = c # cs @ ss" using Cons by (auto simp: dropWhile_append)
    have sl: "takeWhile (\<lambda>c. c \<noteq> 0x2F) ss = []" "dropWhile (\<lambda>c. c \<noteq> 0x2F) ss = ss" using assms by (cases ss; simp)+
    have t: "takeWhile (\<lambda>c. c \<noteq> 0x2F) (cs @ ss) = takeWhile (\<lambda>c. c \<noteq> 0x2F) cs"
      "dropWhile (\<lambda>c. c \<noteq> 0x2F) (cs @ ss) = dropWhile (\<lambda>c. c \<noteq> 0x2F) cs @ ss"
      by (rule takeWhile_append_stop [OF sl(1)]) (rule dropWhile_append_stop [OF sl(2)])
    show ?thesis
      by (subst (1 2) path_components.simps) (simp add: d Cons c t 1 [OF Cons])
  qed
qed

lemma trim_slashes_split:
  obtains ss tt where "path = ss @ trim_slashes path @ tt" "list_all (\<lambda>c. c = 0x2F) ss" "list_all (\<lambda>c. c = 0x2F) tt"
proof -
  let ?p = "\<lambda>c. c = (0x2F :: rchar)"
  let ?m = "dropWhile ?p path"
  have "path = takeWhile ?p path @ trim_slashes path @ rev (takeWhile ?p (rev ?m))"
    unfolding trim_slashes_def by (metis rev_append rev_rev_ident takeWhile_dropWhile_id)
  moreover have "list_all ?p (takeWhile ?p path)" "list_all ?p (rev (takeWhile ?p (rev ?m)))"
    by (auto simp: list_all_iff dest: set_takeWhileD)
  ultimately show ?thesis by (rule that)
qed

lemma path_components_trim: "path_components (trim_slashes path) = path_components path"
  by (rule trim_slashes_split [of path]) (metis path_components_slashes path_components_trailing)

lemma trim_slashes_ends:
  assumes "trim_slashes path \<noteq> []"
  shows "hd (trim_slashes path) \<noteq> 0x2F" "last (trim_slashes path) \<noteq> 0x2F"
proof -
  let ?p = "\<lambda>c. c = (0x2F :: rchar)"
  let ?m = "dropWhile ?p path"
  have m: "?m = trim_slashes path @ rev (takeWhile ?p (rev ?m))"
    unfolding trim_slashes_def by (metis rev_append rev_rev_ident takeWhile_dropWhile_id)
  have "hd (trim_slashes path) = hd ?m" "?m \<noteq> []" using assms by (subst m, simp)+
  then show "hd (trim_slashes path) \<noteq> 0x2F" using hd_dropWhile [of ?p path] by metis
  have "dropWhile ?p (rev ?m) \<noteq> []" using assms by (simp add: trim_slashes_def)
  then show "last (trim_slashes path) \<noteq> 0x2F" using hd_dropWhile [of ?p "rev ?m"] by (simp add: trim_slashes_def last_rev)
qed

lemma path_components_Nil: "path_components xs = [] \<longleftrightarrow> list_all (\<lambda>c. c = 0x2F) xs"
proof (cases "dropWhile (\<lambda>c. c = 0x2F) xs")
  case Nil
  then have "list_all (\<lambda>c. c = 0x2F) xs" by (simp add: list_all_iff)
  moreover have "path_components xs = []" unfolding path_components.simps [of xs] Nil list.case ..
  ultimately show ?thesis by simp
next
  case (Cons c cs)
  then have "\<not> list_all (\<lambda>c. c = 0x2F) xs" by (metis dropWhile_eq_Nil_conv list.distinct(1) list_all_iff)
  then show ?thesis using Cons by (subst path_components.simps) simp
qed

text \<open>What \<^verbatim>\<open>split_path\<close> cuts off is the first component.\<close>

lemma split_path_last: "split_path path = (name, None) \<Longrightarrow> path_components path = (if name = [] then [] else [name])"
proof -
  assume a: "split_path path = (name, None)"
  then have n: "name = trim_slashes path" "dropWhile (\<lambda>c. c \<noteq> 0x2F) name = []" by (auto simp: split_path_def Let_def split: list.splits)
  show ?thesis
  proof (cases name)
    case Nil
    then show ?thesis using path_components_trim [of path] n(1) by (simp add: path_components.simps)
  next
    case (Cons c cs)
    then have c: "c \<noteq> 0x2F" "\<forall>x\<in>set cs. x \<noteq> 0x2F" using trim_slashes_ends(1) [of path] n by (auto split: if_splits)
    then have d: "dropWhile (\<lambda>c. c \<noteq> 0x2F) cs = []" by simp
    have "takeWhile (\<lambda>c. c \<noteq> 0x2F) cs = cs" using takeWhile_dropWhile_id [of "\<lambda>c. c \<noteq> 0x2F" cs] unfolding d by (simp only: append_Nil2)
    moreover have "path_components (dropWhile (\<lambda>c. c \<noteq> 0x2F) cs) = []" unfolding d path_components_Nil by simp
    ultimately have "path_components name = [name]" using Cons c(1) by (subst path_components.simps) simp
    moreover have "name \<noteq> []" using Cons by simp
    ultimately show ?thesis using path_components_trim [of path] unfolding n(1) [symmetric] by simp
  qed
qed

lemma split_path_next:
  assumes "split_path path = (name, Some rest)"
  shows "path_components path = name # path_components rest" "path_components rest \<noteq> []"
proof -
  let ?t = "trim_slashes path" and ?q = "\<lambda>c. c \<noteq> (0x2F :: rchar)"
  obtain c where d: "dropWhile ?q ?t = c # rest" and n: "name = takeWhile ?q ?t"
    using assms by (auto simp: split_path_def Let_def split: list.splits)
  have c: "c = 0x2F" using hd_dropWhile [of ?q ?t] d by auto
  then have t: "?t \<noteq> []" using d by auto
  then obtain x xs where x: "?t = x # xs" "x \<noteq> 0x2F" using trim_slashes_ends(1) [OF t] by (cases ?t) auto
  have "dropWhile ?q xs = 0x2F # rest" using d x c by simp
  then have "path_components ?t = name # path_components (0x2F # rest)" unfolding n x(1) using x(2) by (subst path_components.simps) simp
  moreover have "path_components (0x2F # rest) = path_components rest" using path_components_slashes [of "[0x2F]" rest] by simp
  ultimately show "path_components path = name # path_components rest" using path_components_trim [of path] by simp
  have "?t = name @ c # rest" unfolding n d [symmetric] by simp
  then have "last (c # rest) \<noteq> 0x2F" using trim_slashes_ends(2) [OF t] by simp
  then have "rest \<noteq> []" "last rest \<noteq> 0x2F" using c by (auto split: if_splits)
  then show "path_components rest \<noteq> []" unfolding path_components_Nil list_all_iff by (metis last_in_set)
qed

lemma io_bind_assoc: "io_bind (io_bind m f) g = io_bind m (\<lambda>x. io_bind (f x) g)"
  by (intro ext) (auto simp: io_bind_def split: bind_splits sum.splits)

section \<open>The walk down the tree\<close>

text \<open>The directory and the file that an entry stands for, and the search along a list of names.\<close>

definition entry_dir :: "'s FileSystem \<Rightarrow> DirEntry \<Rightarrow> DirRawStream" where
  "entry_dir fs e = (case DirEntry_first_cluster e (fs_fat_type fs) of
     Some n \<Rightarrow> DirRawStream_File (File_new (Some n) (Some (DirEntryEditor_new (den_data e) (den_entry_pos e))))
   | None \<Rightarrow> dir_stream (FileSystem_root_dir fs))"

definition dir_entry_file :: "'s FileSystem \<Rightarrow> DirEntry \<Rightarrow> File" where
  "dir_entry_file fs e = File_new (DirEntry_first_cluster e (fs_fat_type fs)) (Some (DirEntryEditor_new (den_data e) (den_entry_pos e)))"

fun tree_lookup :: "(DirEntry \<Rightarrow> DirRawStream) \<Rightarrow> (DirRawStream \<Rightarrow> DirEntry list) \<Rightarrow> bool \<Rightarrow> DirRawStream \<Rightarrow> rchar list list \<Rightarrow> Error + DirEntry" where
  "tree_lookup sub ls is_dir raw [] = entry_result (Some is_dir) (entry_named [] (ls raw))"
| "tree_lookup sub ls is_dir raw [name] = entry_result (Some is_dir) (entry_named name (ls raw))"
| "tree_lookup sub ls is_dir raw (name # names) = (case entry_result (Some True) (entry_named name (ls raw)) of
     Inl err \<Rightarrow> Inl err
   | Inr e \<Rightarrow> tree_lookup sub ls is_dir (sub e) names)"

text \<open>The directories of the set \<^term>\<open>ds\<close> list \<^term>\<open>ls\<close>, and contain all their subdirectories.\<close>

definition volume_tree :: "'d VirtIOBlk \<Rightarrow> u64 \<Rightarrow> 'd disk_state FileSystem \<Rightarrow> DirRawStream list \<Rightarrow> (DirRawStream \<Rightarrow> DirEntry list) \<Rightarrow> bool" where
  "volume_tree dev cap fs ds ls \<longleftrightarrow> list_all (\<lambda>raw. volume_dir dev cap fs raw (ls raw)
     \<and> list_all (\<lambda>e. DirEntry_is_dir e \<longrightarrow> entry_dir fs e \<in> set ds) (ls raw)) ds"

lemma entry_dir_frame:
  assumes "fs_frame fs fs'"
  shows "entry_dir fs' e = entry_dir fs e" "dir_entry_file fs' e = dir_entry_file fs e"
proof -
  have "FileSystem_root_dir fs' = FileSystem_root_dir fs" using assms
    by (cases "fs_fat_type fs") (simp_all add: FileSystem_root_dir_def fs_frame_def)
  moreover have "fs_fat_type fs' = fs_fat_type fs" using assms by (simp add: fs_frame_def)
  ultimately show "entry_dir fs' e = entry_dir fs e" "dir_entry_file fs' e = dir_entry_file fs e"
    by (simp_all add: entry_dir_def dir_entry_file_def split: option.split)
qed

lemma volume_tree_quiet:
  assumes "volume_ok dev cap fs" "fs_quiet (disk_img dev cap) fs fs'" "volume_ok dev cap fs'" "volume_tree dev cap fs ds ls"
  shows "volume_tree dev cap fs' ds ls"
proof -
  have "entry_dir fs' e = entry_dir fs e" for e using entry_dir_frame(1) [of fs fs'] assms(2) by (simp add: fs_quiet_def)
  then show ?thesis using assms(4) volume_dir_quiet [OF assms(1-3)] by (simp add: volume_tree_def list_all_iff)
qed

lemma volume_treeD:
  assumes "volume_tree dev cap fs ds ls" "raw \<in> set ds"
  shows "volume_dir dev cap fs raw (ls raw)"
    "entry_result (Some True) (entry_named name (ls raw)) = Inr e \<Longrightarrow> DirEntry_is_dir e \<and> entry_dir fs e \<in> set ds"
  using assms by (auto simp: volume_tree_def list_all_iff entry_result_def entry_named_def find_Some_iff split: option.splits if_splits)

lemma DirEntry_to_dir_run: "DirEntry_is_dir e \<Longrightarrow> DirEntry_to_dir e fs = Some (Inr (Dir_new (entry_dir fs e)), fs)"
  by (simp add: DirEntry_to_dir_def entry_dir_def DirEntry_editor_def io_bind_def io_assert_def io_return_def FileSystem_root_dir_def Dir_new_def
      split: option.split)

lemma tree_lookup_next:
  assumes "split_path path = (name, Some rest)"
  shows "tree_lookup sub ls is_dir raw (path_components path)
     = (case entry_result (Some True) (entry_named name (ls raw)) of Inl err \<Rightarrow> Inl err | Inr e \<Rightarrow> tree_lookup sub ls is_dir (sub e) (path_components rest))"
proof -
  obtain n ns where "path_components rest = n # ns" using split_path_next(2) [OF assms] by (cases "path_components rest") simp_all
  then show ?thesis using split_path_next(1) [OF assms] by (simp split: sum.split)
qed

lemma tree_lookup_last:
  assumes "split_path path = (name, None)"
  shows "tree_lookup sub ls is_dir raw (path_components path) = entry_result (Some is_dir) (entry_named name (ls raw))"
  using split_path_last [OF assms] by (cases "name = []") simp_all

text \<open>A step of the walk: the search in a directory, and the descent.\<close>

lemma walk_down:
  assumes "volume_ok dev cap fs" "volume_tree dev cap fs ds ls" "raw \<in> set ds" "entry_result (Some True) (entry_named name (ls raw)) = Inr e"
  obtains fs1 where "io_bind (Dir_find_entry disk_stream (Dir_new raw) name (Some True)) DirEntry_to_dir fs = Some (Inr (Dir_new (entry_dir fs e)), fs1)"
    "volume_ok dev cap fs1" "volume_tree dev cap fs1 ds ls" "fs_quiet (disk_img dev cap) fs fs1" "entry_dir fs e \<in> set ds"
proof -
  note d = volume_treeD [OF assms(2,3)]
  obtain fs1 where f: "Dir_find_entry disk_stream (Dir_new raw) name (Some True) fs = Some (Inr e, fs1)" "volume_ok dev cap fs1" "fs_quiet (disk_img dev cap) fs fs1"
    using volume_dir_find [OF assms(1) d(1), of name "Some True"] unfolding assms(4) by blast
  have "entry_dir fs1 e = entry_dir fs e" using entry_dir_frame(1) [of fs fs1] f(3) by (simp add: fs_quiet_def)
  then have "io_bind (Dir_find_entry disk_stream (Dir_new raw) name (Some True)) DirEntry_to_dir fs = Some (Inr (Dir_new (entry_dir fs e)), fs1)"
    using f(1) d(2) [OF assms(4)] DirEntry_to_dir_run [of e fs1] by (simp add: io_bind_def)
  then show ?thesis using that f volume_tree_quiet [OF assms(1) f(3,2) assms(2)] d(2) [OF assms(4)] by blast
qed

lemma walk_stop:
  assumes "volume_ok dev cap fs" "volume_tree dev cap fs ds ls" "raw \<in> set ds" "entry_result is_dir (entry_named name (ls raw)) = Inl err"
  obtains fs1 where "io_bind (Dir_find_entry disk_stream (Dir_new raw) name is_dir) g fs = Some (Inl err, fs1)"
    "volume_ok dev cap fs1" "volume_tree dev cap fs1 ds ls" "fs_quiet (disk_img dev cap) fs fs1"
proof -
  obtain fs1 where f: "Dir_find_entry disk_stream (Dir_new raw) name is_dir fs = Some (Inl err, fs1)" "volume_ok dev cap fs1" "fs_quiet (disk_img dev cap) fs fs1"
    using volume_dir_find [OF assms(1) volume_treeD(1) [OF assms(2,3)], of name is_dir] unfolding assms(4) by blast
  then show ?thesis using volume_tree_quiet [OF assms(1) f(3,2) assms(2)] by (intro that [of fs1]) (simp_all add: io_bind_def)
qed

lemma with_dir_ends:
  assumes "m fs = Some (r, fs1)" "volume_ok dev cap fs1" "volume_tree dev cap fs1 ds ls" "raw \<in> set ds"
  obtains fs2 where "with_dir disk_stream (Dir_new raw) m fs = Some (r, fs2)" "volume_ok dev cap fs2" "volume_tree dev cap fs2 ds ls"
    "fs_quiet (disk_img dev cap) fs1 fs2"
proof -
  obtain fs2 where d: "DirRawStream_drop disk_stream raw fs1 = Some fs2" "volume_ok dev cap fs2" "fs_quiet (disk_img dev cap) fs1 fs2"
    by (rule volume_dir_drop [OF assms(2) volume_treeD(1) [OF assms(3,4)]])
  then show ?thesis using assms(1) volume_tree_quiet [OF assms(2) d(3,2) assms(3)]
    by (intro that [of fs2]) (simp_all add: with_dir_def Dir_new_def)
qed

lemma open_file_last:
  assumes "volume_ok dev cap fs" "volume_tree dev cap fs ds ls" "raw \<in> set ds" "split_path path = (name, None)"
  shows "\<exists>fs'. open_file disk_stream (Dir_new raw) path fs
      = Some (map_sum id (dir_entry_file fs) (tree_lookup (entry_dir fs) ls False raw (path_components path)), fs')
    \<and> volume_ok dev cap fs' \<and> volume_tree dev cap fs' ds ls \<and> fs_quiet (disk_img dev cap) fs fs'"
proof -
  have run: "open_file disk_stream (Dir_new raw) path fs = io_bind (Dir_find_entry disk_stream (Dir_new raw) name (Some False)) DirEntry_to_file fs"
    by (subst open_file.simps) (simp add: assms(4))
  obtain fs1 where f: "Dir_find_entry disk_stream (Dir_new raw) name (Some False) fs = Some (entry_result (Some False) (entry_named name (ls raw)), fs1)"
    "volume_ok dev cap fs1" "fs_quiet (disk_img dev cap) fs fs1"
    by (rule volume_dir_find [OF assms(1) volume_treeD(1) [OF assms(2,3)]])
  have "dir_entry_file fs1 e = dir_entry_file fs e" for e using entry_dir_frame(2) [of fs fs1] f(3) by (simp add: fs_quiet_def)
  moreover have "\<not> DirEntry_is_dir e" if "entry_result (Some False) (entry_named name (ls raw)) = Inr e" for e
    using that by (auto simp: entry_result_def split: option.splits if_splits)
  ultimately have "open_file disk_stream (Dir_new raw) path fs
      = Some (map_sum id (dir_entry_file fs) (tree_lookup (entry_dir fs) ls False raw (path_components path)), fs1)"
    unfolding run tree_lookup_last [OF assms(4)] using f(1)
    by (cases "entry_result (Some False) (entry_named name (ls raw))")
       (simp_all add: io_bind_def DirEntry_to_file_def io_assert_def io_return_def dir_entry_file_def DirEntry_editor_def)
  then show ?thesis using f(2,3) volume_tree_quiet [OF assms(1) f(3,2) assms(2)] by blast
qed

lemma open_file_walk:
  assumes "volume_ok dev cap fs" "volume_tree dev cap fs ds ls" "raw \<in> set ds"
  shows "\<exists>fs'. open_file disk_stream (Dir_new raw) path fs
      = Some (map_sum id (dir_entry_file fs) (tree_lookup (entry_dir fs) ls False raw (path_components path)), fs')
    \<and> volume_ok dev cap fs' \<and> volume_tree dev cap fs' ds ls \<and> fs_quiet (disk_img dev cap) fs fs'"
  using assms
proof (induction path arbitrary: raw fs rule: length_induct)
  case (1 path)
  obtain name rest_opt where sp: "split_path path = (name, rest_opt)" by (cases "split_path path")
  show ?case
  proof (cases rest_opt)
    case None
    show ?thesis by (rule open_file_last [OF "1.prems" sp [unfolded None]])
  next
    case (Some rest)
    note sp' = sp [unfolded Some]
    let ?m = "\<lambda>d. with_dir disk_stream d (open_file disk_stream d rest)"
    have run: "open_file disk_stream (Dir_new raw) path fs
        = io_bind (io_bind (Dir_find_entry disk_stream (Dir_new raw) name (Some True)) DirEntry_to_dir) ?m fs"
      by (subst open_file.simps) (simp add: sp' io_bind_assoc)
    show ?thesis
    proof (cases "entry_result (Some True) (entry_named name (ls raw))")
      case (Inl err)
      obtain fs1 where "io_bind (Dir_find_entry disk_stream (Dir_new raw) name (Some True)) (\<lambda>e. io_bind (DirEntry_to_dir e) ?m) fs = Some (Inl err, fs1)"
        "volume_ok dev cap fs1" "volume_tree dev cap fs1 ds ls" "fs_quiet (disk_img dev cap) fs fs1"
        by (rule walk_stop [OF "1.prems" Inl])
      then show ?thesis unfolding run tree_lookup_next [OF sp'] Inl io_bind_assoc by (intro exI [of _ fs1]) simp
    next
      case (Inr e)
      obtain fs1 where f: "io_bind (Dir_find_entry disk_stream (Dir_new raw) name (Some True)) DirEntry_to_dir fs = Some (Inr (Dir_new (entry_dir fs e)), fs1)"
        "volume_ok dev cap fs1" "volume_tree dev cap fs1 ds ls" "fs_quiet (disk_img dev cap) fs fs1" "entry_dir fs e \<in> set ds"
        by (rule walk_down [OF "1.prems" Inr])
      have fr: "fs_frame fs fs1" using f(4) by (simp add: fs_quiet_def)
      have eq: "dir_entry_file fs1 = dir_entry_file fs" "entry_dir fs1 = entry_dir fs" using entry_dir_frame [OF fr] by auto
      from "1.IH" [rule_format, OF split_path_shorter [OF sp'] f(2,3,5)] obtain fs2 where
        o: "open_file disk_stream (Dir_new (entry_dir fs e)) rest fs1
            = Some (map_sum id (dir_entry_file fs) (tree_lookup (entry_dir fs) ls False (entry_dir fs e) (path_components rest)), fs2)"
          "volume_ok dev cap fs2" "volume_tree dev cap fs2 ds ls" "fs_quiet (disk_img dev cap) fs1 fs2" unfolding eq by blast
      obtain fs3 where w: "?m (Dir_new (entry_dir fs e)) fs1
            = Some (map_sum id (dir_entry_file fs) (tree_lookup (entry_dir fs) ls False (entry_dir fs e) (path_components rest)), fs3)"
          "volume_ok dev cap fs3" "volume_tree dev cap fs3 ds ls" "fs_quiet (disk_img dev cap) fs2 fs3"
        by (rule with_dir_ends [where m = "open_file disk_stream (Dir_new (entry_dir fs e)) rest", OF o(1-3) f(5)])
      have "open_file disk_stream (Dir_new raw) path fs
          = Some (map_sum id (dir_entry_file fs) (tree_lookup (entry_dir fs) ls False raw (path_components path)), fs3)"
        unfolding run tree_lookup_next [OF sp'] using f(1) w(1) Inr by (simp add: io_bind_def)
      moreover have "fs_quiet (disk_img dev cap) fs fs3" by (rule fs_quiet_trans [OF f(4) fs_quiet_trans [OF o(4) w(4)]])
      ultimately show ?thesis using w(2,3) by blast
    qed
  qed
qed

text \<open>
  Property C36. Opening a file by its path. In a volume whose directories list the entries \<^term>\<open>ls\<close>, root directory,
  FAT32 root directory and subdirectories alike, \<^verbatim>\<open>open_file\<close> ends without a panic for every path,
  and is equal to the walk along the components of the path: on every level the first entry that carries
  the name, long or short, without regard to case, decides. A missing entry is \<^verbatim>\<open>NotFound\<close>, an entry of the
  wrong kind \<^verbatim>\<open>InvalidInput\<close>; otherwise the file starts at the first cluster of the last entry
  and updates that entry at the place of the disk it came from. Slashes at the ends and doubled ones make no
  difference. The volume is not changed.
\<close>

theorem open_file_is_lookup:
  assumes "volume_ok dev cap fs" "volume_tree dev cap fs ds ls" "raw \<in> set ds"
  shows "\<exists>fs'. open_file disk_stream (Dir_new raw) path fs =
      Some (case tree_lookup (entry_dir fs) ls False raw (path_components path) of
              Inl err \<Rightarrow> Inl err
            | Inr e \<Rightarrow> Inr (dir_entry_file fs e), fs')
    \<and> volume_ok dev cap fs' \<and> volume_tree dev cap fs' ds ls \<and> volume_quiet dev cap fs fs'"
proof -
  from open_file_walk [OF assms, of path] obtain fs' where
    w: "open_file disk_stream (Dir_new raw) path fs
        = Some (map_sum id (dir_entry_file fs) (tree_lookup (entry_dir fs) ls False raw (path_components path)), fs')"
      "volume_ok dev cap fs'" "volume_tree dev cap fs' ds ls" "fs_quiet (disk_img dev cap) fs fs'" by blast
  have "volume_quiet dev cap fs fs'" by (rule fs_quiet_volume [OF assms(1) w(4)])
  then show ?thesis using w(1-3)
    by (cases "tree_lookup (entry_dir fs) ls False raw (path_components path)") auto
qed

lemma ShortNameGenerator_new_panics: "ShortNameGenerator_new name = None \<longleftrightarrow> name = [] \<or> 0x80 \<le> hd name"
  by (auto simp: ShortNameGenerator_new_def rust_assert_def len_utf8_def Let_def not_less split: if_splits option.splits prod.splits)

text \<open>
  Property C37. A name for a new entry. In a directory that lists fewer than 589824 entries \<^term>\<open>xs\<close>,
  \<^verbatim>\<open>check_for_existence\<close> panics exactly for the empty name and for a name whose first character is not
  ASCII. For every other name it ends without a change of the volume. When an entry carries the
  name it is returned, or \<^verbatim>\<open>InvalidInput\<close> when its kind is not the wanted one; otherwise the
  result is a short name of eleven bytes that no entry of the directory has.
\<close>

theorem check_for_existence_fresh:
  assumes "volume_ok dev cap fs" "volume_dir dev cap fs raw xs" "length xs < 9 * 65536"
  shows "if name = [] \<or> 0x80 \<le> hd name then check_for_existence disk_stream (Dir_new raw) name is_dir fs = None
    else \<exists>r fs'. check_for_existence disk_stream (Dir_new raw) name is_dir fs = Some (r, fs')
      \<and> volume_ok dev cap fs' \<and> volume_dir dev cap fs' raw xs \<and> volume_quiet dev cap fs fs'
      \<and> (case entry_named name xs of
           Some e \<Rightarrow> r = (if is_dir \<noteq> None \<and> is_dir \<noteq> Some (DirEntry_is_dir e) then Inl InvalidInput else Inr (DirEntryOrShortName_DirEntry e))
         | None \<Rightarrow> \<exists>sn. r = Inr (DirEntryOrShortName_ShortName sn) \<and> length sn = 11 \<and> sn \<notin> raw_short_name ` set xs)"
proof (cases "name = [] \<or> 0x80 \<le> hd name")
  case True
  then have "ShortNameGenerator_new name = None" by (simp only: ShortNameGenerator_new_panics)
  then show ?thesis unfolding if_P [OF True] by (simp add: check_for_existence_def)
next
  case False
  then obtain g where g: "ShortNameGenerator_new name = Some g" using ShortNameGenerator_new_panics by blast
  from volume_dir_check [OF assms(1,2) g assms(3), of is_dir] obtain q fs' where
    c: "check_for_existence disk_stream (Dir_new raw) name is_dir fs = Some (q, fs')" "volume_ok dev cap fs'" "fs_quiet (disk_img dev cap) fs fs'"
    and q: "case entry_named name xs of
         Some e \<Rightarrow> q = (case entry_result is_dir (Some e) of Inr e \<Rightarrow> Inr (DirEntryOrShortName_DirEntry e) | Inl err \<Rightarrow> Inl err)
       | None \<Rightarrow> \<exists>sn. q = Inr (DirEntryOrShortName_ShortName sn) \<and> length sn = 11 \<and> sn \<notin> raw_short_name ` set xs" by blast
  show ?thesis unfolding if_not_P [OF False]
  proof (intro exI [of _ q] exI [of _ fs'] conjI)
    show "volume_dir dev cap fs' raw xs" by (rule volume_dir_quiet [OF assms(1) c(3,2) assms(2)])
    show "volume_quiet dev cap fs fs'" by (rule fs_quiet_volume [OF assms(1) c(3)])
    show "case entry_named name xs of
         Some e \<Rightarrow> q = (if is_dir \<noteq> None \<and> is_dir \<noteq> Some (DirEntry_is_dir e) then Inl InvalidInput else Inr (DirEntryOrShortName_DirEntry e))
       | None \<Rightarrow> \<exists>sn. q = Inr (DirEntryOrShortName_ShortName sn) \<and> length sn = 11 \<and> sn \<notin> raw_short_name ` set xs"
      using q by (cases "entry_named name xs") (auto simp: entry_result_def)
  qed (rule c)+
qed

text \<open>The root directory of the example volume holds one file.\<close>

lemma example_root_slice: "root_slice example_fs = \<lparr>ds_begin = 1536, ds_size = 512, ds_offset = 0, ds_mirrors = 1\<rparr>"
  by (simp add: root_slice_def example_fs_sel example_bpb_def DiskSlice_from_sectors_def DiskSlice_new_def BPB_bytes_from_sectors_def)

lemma example_root_byte:
  assumes "a < 64"
  shows "root_byte (disk_img ram_device 8) example_fs (DirRawStream_Root (root_slice example_fs), example_fs) a = (example_root_bytes @ replicate 32 0) ! a"
proof -
  have "(1536 + a) div 512 = 3" using assms by simp
  moreover have "(1536 + a) mod 512 = a" using assms mod_mult_self3 [of 3 512 a] by simp
  moreover have "length example_root_bytes = 32" by (simp add: example_root_bytes_def)
  ultimately show ?thesis using assms by (simp add: root_byte_def example_root_slice example_fs_sel example_img nth_append)
qed

lemma example_root: "root_region ram_device 8 example_fs [DirEntryData_File example_entry]"
proof -
  let ?f = "root_byte (disk_img ram_device 8) example_fs (DirRawStream_Root (root_slice example_fs), example_fs)"
  let ?e = "DirEntryData_File (DirFileEntryData_new (replicate 11 0) 0)"
  have b: "bytes_at ?f p 32 = take 32 (drop p (example_root_bytes @ replicate 32 0))" if "p \<le> 32" for p
  proof -
    have "length example_root_bytes = 32" by (simp add: example_root_bytes_def)
    then show ?thesis using that by (intro nth_equalityI) (simp_all add: bytes_at_def example_root_byte del: drop_append)
  qed
  have "take 32 (drop 0 (example_root_bytes @ replicate 32 0)) = DirEntryData_bytes (DirEntryData_File example_entry)" by code_simp
  moreover have "take 32 (drop 32 (example_root_bytes @ replicate 32 0)) = DirEntryData_bytes ?e" by code_simp
  moreover have "raw_entry_ok (DirEntryData_File example_entry)" by code_simp
  moreover have "DirEntryData_wf ?e" "DirEntryData_is_end ?e" by code_simp+
  ultimately show ?thesis unfolding root_region_def dir_at_def using b [of 0] b [of 32]
    by (auto simp: example_fs_sel example_root_slice intro!: exI [of _ ?e])
qed

definition example_listing :: "DirEntry list" where
  "example_listing = dir_entries (\<lambda>off. 1536 + off) True LongNameBuilder_new 0 0 [DirEntryData_File example_entry]"

lemma example_root_dir: "volume_dir ram_device 8 example_fs (DirRawStream_Root (root_slice example_fs)) example_listing"
proof -
  have "root_addr example_fs = (\<lambda>off. 1536 + off)" by (simp add: root_addr_def [abs_def] example_root_slice)
  then show ?thesis using example_root by (auto simp: volume_dir_def example_listing_def)
qed

lemma example_tree: "volume_tree ram_device 8 example_fs [DirRawStream_Root (root_slice example_fs)] (\<lambda>_. example_listing)"
proof -
  have "list_all (\<lambda>e. \<not> DirEntry_is_dir e) example_listing" by code_simp
  then have "list_all (\<lambda>e. DirEntry_is_dir e \<longrightarrow> entry_dir example_fs e \<in> set [DirRawStream_Root (root_slice example_fs)]) example_listing"
    by (simp add: list_all_iff)
  then show ?thesis using example_root_dir by (simp add: volume_tree_def)
qed

theorem open_file_is_lookup_witness:
  "\<exists>fs'. open_file disk_stream (Dir_new (DirRawStream_Root (root_slice example_fs)))
       [0x2F, 0x72, 0x65, 0x61, 0x64, 0x6D, 0x65, 0x2E, 0x74, 0x78, 0x74] example_fs = Some (Inr example_file, fs')
     \<and> volume_ok ram_device 8 fs'"
proof -
  let ?p = "[0x2F, 0x72, 0x65, 0x61, 0x64, 0x6D, 0x65, 0x2E, 0x74, 0x78, 0x74]" and ?raw = "DirRawStream_Root (root_slice example_fs)"
  note w = open_file_is_lookup [OF example_fs_ok example_tree list.set_intros(1), of ?p]
  have "path_components ?p = [tl ?p]" by code_simp
  then have l: "tree_lookup (entry_dir example_fs) (\<lambda>_. example_listing) False ?raw (path_components ?p)
      = entry_result (Some False) (entry_named (tl ?p) example_listing)" by simp
  have "map_sum id (\<lambda>e. File_new (DirEntry_first_cluster e Fat12) (Some (DirEntryEditor_new (den_data e) (den_entry_pos e))))
      (entry_result (Some False) (entry_named (tl ?p) example_listing)) = Inr example_file" by code_simp
  then obtain e where e: "entry_result (Some False) (entry_named (tl ?p) example_listing) = Inr e" "dir_entry_file example_fs e = example_file"
    by (cases "entry_result (Some False) (entry_named (tl ?p) example_listing)") (simp_all add: dir_entry_file_def example_fs_sel)
  show ?thesis using w unfolding l e(1) by (simp only: sum.case e(2)) blast
qed

theorem check_for_existence_fresh_witness:
  "(\<exists>r fs' sn. check_for_existence disk_stream (Dir_new (DirRawStream_Root (root_slice example_fs)))
       [0x72, 0x65, 0x61, 0x64, 0x6D, 0x65] (Some False) example_fs = Some (r, fs')
     \<and> r = Inr (DirEntryOrShortName_ShortName sn) \<and> sn \<noteq> bytes_of ''README  TXT'')
   \<and> check_for_existence disk_stream (Dir_new (DirRawStream_Root (root_slice example_fs))) [] (Some False) example_fs = None"
proof -
  let ?p = "[0x72, 0x65, 0x61, 0x64, 0x6D, 0x65] :: rchar list"
  have "length example_listing = 1" by code_simp
  then have "length example_listing < 9 * 65536" by linarith
  note w = check_for_existence_fresh [OF example_fs_ok example_root_dir this, of _ "Some False"]
  have ascii: "\<not> (?p = [] \<or> 0x80 \<le> hd ?p)" by simp
  have "entry_named ?p example_listing = None" "map raw_short_name example_listing = [bytes_of ''README  TXT'']" by code_simp+
  moreover from this(2) have "raw_short_name ` set example_listing = {bytes_of ''README  TXT''}" by (metis list.set_map empty_set list.simps(15))
  ultimately show ?thesis using w [of ?p, unfolded if_not_P [OF ascii]] w [of "[]"] by (simp only: option.case simp_thms if_True) blast
qed

end
