(* ===== verification/Spec2Isabelle.thy ===== *)
theory Spec2Isabelle
  imports
    Address
    Recycle_Alloc
    Pipe
    Disk_Driver
    Memory_Brk
    Fat_Dir_Tree
begin

text \<open>
  \<^bold>\<open>A verification development of the Neuclear kernel.\<close>

  Neuclear is a Unix-like kernel for 64-bit RISC-V. Under \<^verbatim>\<open>kernel/crates\<close> it has the crates
  \<^verbatim>\<open>utils\<close> (constants, errors, time), \<^verbatim>\<open>memory\<close> (addresses, frames, page tables, address spaces),
  \<^verbatim>\<open>drivers\<close> (the virtio disk and the block cache), \<^verbatim>\<open>fat32\<close> (the disk as a byte stream for the
  file system), \<^verbatim>\<open>filesystem\<close> (open files and pipes), \<^verbatim>\<open>signal\<close>, \<^verbatim>\<open>vfs\<close> and \<^verbatim>\<open>major\<close> (tasks,
  traps and system calls). Under \<^verbatim>\<open>deps\<close> are two libraries it was given: the buddy allocator that
  hands out frames, and the FAT file system. Frames come from the buddy allocator, page tables and
  address spaces are built from frames, the disk driver works on cached blocks, and the file
  system on the bytes of the disk driver.

  \<^bold>\<open>Conventions.\<close> A struct is a record whose fields carry a prefix, an enum a datatype, a method
  \<^verbatim>\<open>T::m\<close> the function \<open>T_m\<close>. Machine integers are words of their width: arithmetic wraps as in a
  release build, and debug assertions are left out. A panic is \<^term>\<open>None\<close>; an operation that can fail
  returns a sum with the error on the left. Code outside the repository (the virtio device, the
  storage under the file system) is a parameter. Shared mutable objects are explicit states.
  A loop that need not end is a partial function on options, where \<^term>\<open>None\<close> also covers not
  ending; that such loops return is then part of the theorems. No fuel is used anywhere.

  \<^bold>\<open>Theories.\<close>
  \<^item> \<open>Prelude\<close>: type synonyms, the panicking operations of Rust, lemmas on words, lists and maps.
  \<^item> \<open>Utils\<close> and \<open>Address\<close> (\<^verbatim>\<open>utils/src\<close>, \<^verbatim>\<open>memory/src/address.rs\<close>): constants, error codes, times;
    virtual and physical addresses and page numbers.
  \<^item> \<open>Recycle_Alloc\<close> (\<^verbatim>\<open>major/src/task/resource.rs\<close>): the allocator of process and thread ids. Ids in use are distinct.
  \<^item> \<open>File_Types\<close> and \<open>Pipe\<close> (\<^verbatim>\<open>filesystem/src\<close>): file status, open flags; the ring buffer and the loops of
    reading and writing as steps between suspensions. In every interleaving of any number of readers and writers
    the bytes leave the buffer in the order they entered it, and each task's bytes keep their order.
  \<^item> \<open>Block_Cache\<close> and \<open>Disk_Driver\<close> (\<^verbatim>\<open>drivers/src\<close>, \<^verbatim>\<open>fat32/src/lib.rs\<close>): the queue of cached blocks with
    eviction and write back, and the byte stream on top. Reads and writes act on one array of bytes,
    whatever is cached; after a flush the device holds it.
  \<^item> \<open>Buddy\<close> (\<^verbatim>\<open>deps/buddy_system_allocator/src/frame.rs\<close>): the frame allocator. Ranges handed out never overlap,
    and an allocation fails only when no free block is large enough.
  \<^item> \<open>Ram\<close> and \<open>Frame_Alloc\<close> (\<^verbatim>\<open>memory/src/frame_allocator.rs\<close>, \<^verbatim>\<open>drivers/src/virtio.rs\<close>): physical memory as bytes, frame
    trackers, initialisation. New frames are fresh and zero.
  \<^item> \<open>Page_Table\<close> (\<^verbatim>\<open>memory/src/page_table.rs\<close>): the three-level tables in memory. Mapping and unmapping refine
    the update of a partial map from pages to frames.
  \<^item> \<open>Memory_Set\<close>, \<open>Memory_Fork\<close>, \<open>Memory_Brk\<close> (\<^verbatim>\<open>memory/src/memory_set.rs\<close>): segments and address spaces; copies for
    fork, the program break, anonymous mappings (the lowest hole, no hole, or a panic) and removal of segments, with the bytes
    of every page.
  \<^item> \<open>Fat_Io\<close>, \<open>Fat_Types\<close>, \<open>Fat_Boot\<close>, \<open>Fat_Slice\<close>, \<open>Fat_Table\<close>, \<open>Fat_Fs\<close> (\<^verbatim>\<open>deps/rust-fatfs/src\<close>: \<^verbatim>\<open>io.rs\<close>, \<^verbatim>\<open>error.rs\<close>,
    \<^verbatim>\<open>time.rs\<close>, \<^verbatim>\<open>boot_sector.rs\<close>, \<^verbatim>\<open>table.rs\<close>, \<^verbatim>\<open>fs.rs\<close>): streams and the state and error monad of the file
    system, dates, the boot sector with its validation and the geometry of new volumes, mirrored
    slices, the table of 12, 16 and 32 bit entries, mounting, allocation and release of clusters.
  \<^item> \<open>Fat_Dir_Entry\<close>, \<open>Fat_File\<close>, \<open>Fat_File_Ops\<close> (\<^verbatim>\<open>dir_entry.rs\<close>, \<^verbatim>\<open>file.rs\<close>): entries and files. A file refines a
    list of bytes with a position, across clusters and growth.
  \<^item> \<open>Fat_Names\<close>, \<open>Fat_Short_Names\<close>, \<open>Fat_Dir\<close>, \<open>Fat_Dir_Search\<close>, \<open>Fat_Dir_Tree\<close> (\<^verbatim>\<open>dir.rs\<close>, the entries of \<^verbatim>\<open>dir_entry.rs\<close>):
    long names, generated short names, directories and their operations. A new entry gets a short name that no other
    has. Opening a path is the walk
    along its components over the lists of entries.

  \<^bold>\<open>Interfaces.\<close> The locales \<open>exact_reader\<close>, \<open>exact_writer\<close>, \<open>byte_io\<close> and \<open>byte_stream\<close> say what a storage promises to
  the file system, \<open>region\<close> what a slice of it promises, \<open>short_reader\<close> what a file promises, and \<open>dir_source\<close>
  what a directory promises to its iterator. The disk driver interprets \<open>byte_stream\<close>; slices, the
  adapter, files, the root directory and directories in cluster chains follow by sublocales, so that
  the lemmas on the file system hold on the disk driver, its cache and any device that keeps its
  contract.

  \<^bold>\<open>Bounds.\<close> Volumes are limited by the layout their boot sector describes (\<open>fs_layout\<close>); directories by the
  65536 checksums with nine digits each that the search for a short name goes through (589824 entries); buffers for the disk driver to
  less than \<open>2\<^sup>3\<^sup>2\<close> bytes, beyond which its loops need not end.

  \<^bold>\<open>Not modelled.\<close> Context switches, the trap entry and boot code are assembly; console, logging and
  timers are device access. The scheduler, processes, the loader and the system calls sit on shared
  reference-counted control blocks and on a third-party ELF parser and are not translated, nor are the
  signal tables, which nothing delivers. The byte heap of the buddy allocator threads its free
  lists through raw memory. The wrapper \<^verbatim>\<open>Fat32Entry\<close> in \<^verbatim>\<open>fat32/src/lib.rs\<close>, which
  chooses between directory and file operations, is left out. Formatting of volumes is modelled up to the boot sector and the table. User programs
  and the tools that build disk images do not run in the kernel.
\<close>

end
